(* ===== verification/Prelude.thy ===== *)
theory Prelude
  imports Main "HOL-Library.Word"
begin

unbundle bit_operations_syntax

section \<open>Prelude: Go values, outcomes and wire encodings\<close>

text \<open>
  The vocabulary the component theories share.  Bytes are 8-bit words and byte slices
  are lists of them; the fixed-width integers of the program are words of that width
  (so \<open>+\<close> wraps exactly as in Go); \<open>int\<close> stands for Go's \<open>int64\<close> instants and durations
  where the code only compares and subtracts them.

  A call that may return an error value or panic is an \<open>outcome\<close>.  The big-endian codecs
  model the \<open>encoding/binary\<close> calls of the source, and their inverse laws are collected in
  \<open>wire_simps\<close>, which is what carries the round-trip proofs of the frame formats.  The last
  section has the one generic loop lemma the development needs: an in-place descending
  array loop whose body reads no index above the one it writes is a \<open>map\<close>.
\<close>

named_theorems wire_simps "inverse laws and lengths of the wire codecs"
named_theorems step_simps "one-step behaviour of the state machines"

type_synonym byte = "8 word"
type_synonym bytes = "byte list"
type_synonym gostring = bytes
type_synonym u16 = "16 word"
type_synonym u32 = "32 word"
type_synonym u64 = "64 word"
type_synonym instant = int   \<comment> \<open>nanoseconds or seconds since the epoch, as the code counts\<close>

subsection \<open>Outcomes of a Go call\<close>

datatype ('e, 'a) outcome = Ok 'a | Err 'e | Panic

fun bind_outcome :: "('e, 'a) outcome \<Rightarrow> ('a \<Rightarrow> ('e, 'b) outcome) \<Rightarrow> ('e, 'b) outcome" where
  "bind_outcome (Ok x) f = f x"
| "bind_outcome (Err e) f = Err e"
| "bind_outcome Panic f = Panic"

lemma bind_outcome_Ok_iff:
  "bind_outcome m f = Ok y \<longleftrightarrow> (\<exists>x. m = Ok x \<and> f x = Ok y)"
  by (cases m) auto

text \<open>
  The slice expression \<open>bs[lo:hi]\<close> on a slice whose capacity equals its length:
  it panics unless \<open>lo \<le> hi \<le> len\<close>.
\<close>

definition go_slice :: "nat \<Rightarrow> nat \<Rightarrow> 'a list \<Rightarrow> ('e, 'a list) outcome" where
  "go_slice lo hi bs = (if lo \<le> hi \<and> hi \<le> length bs then Ok (take (hi - lo) (drop lo bs)) else Panic)"

lemma unat_bound: "unat (w :: 'a::len word) < 2 ^ LENGTH('a)"
  by (rule unsigned_less)

subsection \<open>Big-endian integers\<close>

definition put16 :: "u16 \<Rightarrow> bytes" where
  "put16 w = [ucast (drop_bit 8 w), ucast w]"

definition put32 :: "u32 \<Rightarrow> bytes" where
  "put32 w = [ucast (drop_bit 24 w), ucast (drop_bit 16 w), ucast (drop_bit 8 w), ucast w]"

definition put64 :: "u64 \<Rightarrow> bytes" where
  "put64 w = [ucast (drop_bit 56 w), ucast (drop_bit 48 w), ucast (drop_bit 40 w),
     ucast (drop_bit 32 w), ucast (drop_bit 24 w), ucast (drop_bit 16 w),
     ucast (drop_bit 8 w), ucast w]"

definition get16 :: "bytes \<Rightarrow> u16" where
  "get16 bs = push_bit 8 (ucast (bs ! 0)) OR ucast (bs ! 1)"

definition get32 :: "bytes \<Rightarrow> u32" where
  "get32 bs = push_bit 24 (ucast (bs ! 0)) OR push_bit 16 (ucast (bs ! 1))
     OR push_bit 8 (ucast (bs ! 2)) OR ucast (bs ! 3)"

definition get64 :: "bytes \<Rightarrow> u64" where
  "get64 bs = push_bit 56 (ucast (bs ! 0)) OR push_bit 48 (ucast (bs ! 1))
     OR push_bit 40 (ucast (bs ! 2)) OR push_bit 32 (ucast (bs ! 3))
     OR push_bit 24 (ucast (bs ! 4)) OR push_bit 16 (ucast (bs ! 5))
     OR push_bit 8 (ucast (bs ! 6)) OR ucast (bs ! 7)"

lemma length_put [simp, wire_simps]:
  "length (put16 v) = 2" "length (put32 w) = 4" "length (put64 x) = 8"
  by (simp_all add: put16_def put32_def put64_def)

text \<open>The \<open>j\<close>-th octet of a word, shifted back to its place, contributes exactly its eight bits.\<close>

lemma bit_octet_back:
  fixes w :: "'a::len word"
  shows "bit (push_bit k (ucast (ucast (drop_bit k w) :: byte)) :: 'a word) n
    \<longleftrightarrow> k \<le> n \<and> n < k + 8 \<and> n < LENGTH('a) \<and> bit w n"
  by (auto simp: bit_simps dest: bit_imp_le_length)

lemma bit_octet_back_0:
  fixes w :: "'a::len word"
  shows "bit (ucast (ucast w :: byte) :: 'a word) n \<longleftrightarrow> n < 8 \<and> n < LENGTH('a) \<and> bit w n"
  using bit_octet_back [of 0 w n] by simp

lemmas bit_octets = bit_or_iff bit_octet_back bit_octet_back_0

lemma get16_put16 [wire_simps]: "get16 (put16 w @ bs) = w"
proof (rule bit_word_eqI)
  fix n assume "n < LENGTH(16)"
  then have "n < 16" by simp
  then show "bit (get16 (put16 w @ bs)) n = bit w n"
    by (simp add: get16_def put16_def bit_octets) linarith
qed

lemma get32_put32 [wire_simps]: "get32 (put32 w @ bs) = w"
proof (rule bit_word_eqI)
  fix n assume "n < LENGTH(32)"
  then have "n < 32" by simp
  then show "bit (get32 (put32 w @ bs)) n = bit w n"
    by (simp add: get32_def put32_def bit_octets) linarith
qed

lemma get64_put64 [wire_simps]: "get64 (put64 w @ bs) = w"
proof (rule bit_word_eqI)
  fix n assume "n < LENGTH(64)"
  then have "n < 64" by simp
  then show "bit (get64 (put64 w @ bs)) n = bit w n"
    by (simp add: get64_def put64_def bit_octets) linarith
qed

lemma get_put_whole [wire_simps]:
  "get16 (put16 a) = a" "get32 (put32 b) = b" "get64 (put64 c) = c"
  using get16_put16 [of a "[]"] get32_put32 [of b "[]"] get64_put64 [of c "[]"] by simp_all

text \<open>Skipping a fixed-width field, and reading behind it.\<close>

lemma drop_put [wire_simps]:
  "drop 2 (put16 v @ bs) = bs" "drop 4 (put32 w @ bs) = bs" "drop 8 (put64 x @ bs) = bs"
  by (simp_all add: put16_def put32_def put64_def)

subsection \<open>Zeroed slices\<close>

definition zeros :: "nat \<Rightarrow> bytes" where
  "zeros n = replicate n 0"

lemma length_zeros [simp]: "length (zeros n) = n"
  by (simp add: zeros_def)

subsection \<open>In-place descending loops\<close>

text \<open>
  \<open>for i := len-1; i >= 0; i-- { a[i] = f(a, i) }\<close>.
\<close>

fun descending_loop :: "('a list \<Rightarrow> nat \<Rightarrow> 'a) \<Rightarrow> nat \<Rightarrow> 'a list \<Rightarrow> 'a list" where
  "descending_loop f 0 xs = xs"
| "descending_loop f (Suc i) xs = descending_loop f i (xs[i := f xs i])"

lemma length_descending_loop [simp]: "length (descending_loop f n xs) = length xs"
  by (induction n arbitrary: xs) auto

lemma descending_loop_above:
  "n \<le> j \<Longrightarrow> descending_loop f n xs ! j = xs ! j"
  by (induction n arbitrary: xs) auto

lemma descending_loop_nth:
  assumes local: "\<And>xs ys i. \<lbrakk>length xs = length ys; \<And>j. j \<le> i \<Longrightarrow> xs ! j = ys ! j\<rbrakk> \<Longrightarrow> f xs i = f ys i"
  shows "\<lbrakk>j < n; n \<le> length xs\<rbrakk> \<Longrightarrow> descending_loop f n xs ! j = f xs j"
proof (induction n arbitrary: xs)
  case 0
  then show ?case by simp
next
  case (Suc n)
  show ?case
  proof (cases "j = n")
    case True
    with Suc.prems show ?thesis by (simp add: descending_loop_above)
  next
    case False
    with Suc.prems have "j < n" by simp
    with Suc have "descending_loop f (Suc n) xs ! j = f (xs[n := f xs n]) j" by simp
    also from \<open>j < n\<close> have "\<dots> = f xs j" by (intro local) auto
    finally show ?thesis .
  qed
qed

subsection \<open>Systems of steps\<close>

text \<open>
  The contract of a component that is driven by a sequence of operations: an invariant that
  every operation keeps.  What a client may then use is the invariant after any sequence.
\<close>

locale step_invariant =
  fixes step :: "'a \<Rightarrow> 's \<Rightarrow> 's" and inv :: "'s \<Rightarrow> bool"
  assumes inv_step: "inv s \<Longrightarrow> inv (step a s)"
begin

lemma inv_run: "inv s \<Longrightarrow> inv (fold step as s)"
  by (induction as arbitrary: s) (simp_all add: inv_step)

lemma inv_between: "inv s \<Longrightarrow> inv (fold step as s) \<and> inv (step a (fold step as s))"
  by (simp add: inv_run inv_step)

end

end
