(* ===== verification/Chunk.thy ===== *)
theory Chunk
  imports Prelude
begin

section \<open>Wire format: chunks, frames and the flow-control marker\<close>

text \<open>
  Models \<open>src/core/chunk.go\<close>, \<open>src/core/bufpool.go\<close>, \<open>src/core/flowctl.go\<close> and
  \<open>src/core/aead_context.go\<close>: the chunk record, its serialisation under AES-GCM, every
  constructor and parser of the control frames, and the buffer-pool tiers the constructors
  draw their payloads from.  AES-GCM itself is the argument \<open>G\<close> of the definitions that use
  it; \<open>gcm_ok G\<close> states its documented behaviour (decryption inverts encryption under the
  same key, nonce and associated data; nothing else is accepted; 16 bytes of overhead).

  The interface of the frame formats is the locale \<open>frame_codec\<close>; every format of the
  source is an interpretation of it.
\<close>

subsection \<open>Flags and sizes (chunk.go)\<close>

definition FlagData :: byte where "FlagData = 0x01"
definition FlagAck :: byte where "FlagAck = 0x02"
definition FlagPadding :: byte where "FlagPadding = 0x03"
definition FlagKeepalive :: byte where "FlagKeepalive = 0x04"
definition FlagFin :: byte where "FlagFin = 0x05"
definition FlagControl :: byte where "FlagControl = 0x06"
definition FlagConnect :: byte where "FlagConnect = 0x07"
definition FlagUDP :: byte where "FlagUDP = 0x08"
definition FlagStreamOpen :: byte where "FlagStreamOpen = 0x09"
definition FlagWindowUpdate :: byte where "FlagWindowUpdate = 0x0A"
definition FlagMigrate :: byte where "FlagMigrate = 0x0B"
definition FlagResume :: byte where "FlagResume = 0x0C"
definition FlagStreamAck :: byte where "FlagStreamAck = 0x0D"
definition FlagStreamClose :: byte where "FlagStreamClose = 0x0E"

lemmas flag_defs = FlagData_def FlagAck_def FlagPadding_def FlagKeepalive_def FlagFin_def
  FlagControl_def FlagConnect_def FlagUDP_def FlagStreamOpen_def FlagWindowUpdate_def
  FlagMigrate_def FlagResume_def FlagStreamAck_def FlagStreamClose_def

definition NonceSize :: nat where "NonceSize = 12"
definition HeaderSize :: nat where "HeaderSize = 4 + 4 + 1"
definition TagSize :: nat where "TagSize = 16"
definition MinChunk :: nat where "MinChunk = NonceSize + HeaderSize + TagSize"

lemmas size_defs = NonceSize_def HeaderSize_def TagSize_def MinChunk_def

record chunk =
  SessionID :: u32
  SeqNum :: u32
  Flags :: byte
  Payload :: bytes

datatype chunk_error =
    KeySizeError | RandError | ChunkTooShort | AuthError | PlaintextTooShort
  | FrameTooShort | UDPTruncated | UnknownStatus

subsection \<open>Buffer pool tiers (bufpool.go)\<close>

definition tierSizes :: "nat list" where
  "tierSizes = [512, 4096, 16384, 65536]"

fun tierIndex_from :: "nat \<Rightarrow> nat list \<Rightarrow> nat \<Rightarrow> nat" where
  "tierIndex_from i [] minSize = 3"
| "tierIndex_from i (s # ss) minSize = (if minSize \<le> s then i else tierIndex_from (Suc i) ss minSize)"

definition tierIndex :: "nat \<Rightarrow> nat" where
  "tierIndex minSize = tierIndex_from 0 tierSizes minSize"

text \<open>
  A pool hands out some backing array of the tier's size with unspecified (stale) contents:
  \<open>P i\<close> is the array tier \<open>i\<close> returns next.
\<close>

type_synonym bufpool = "nat \<Rightarrow> bytes"

definition pool_ok :: "bufpool \<Rightarrow> bool" where
  "pool_ok P \<longleftrightarrow> (\<forall>i < 4. length (P i) = tierSizes ! i)"

definition GetBuffer :: "bufpool \<Rightarrow> nat \<Rightarrow> bytes" where
  "GetBuffer P minSize = take (tierSizes ! tierIndex minSize) (P (tierIndex minSize))"

text \<open>\<open>PutBuffer\<close>: the tier a buffer of capacity \<open>c\<close> goes back to, \<open>None\<close> when it is discarded.\<close>

fun PutBuffer_from :: "nat \<Rightarrow> nat list \<Rightarrow> nat \<Rightarrow> nat option" where
  "PutBuffer_from i [] c = None"
| "PutBuffer_from i (s # ss) c = (if c = s then Some i else PutBuffer_from (Suc i) ss c)"

definition PutBuffer :: "bufpool \<Rightarrow> bytes \<Rightarrow> bufpool" where
  "PutBuffer P buf =
     (case PutBuffer_from 0 tierSizes (length buf) of None \<Rightarrow> P | Some i \<Rightarrow> P(i := buf))"

definition PutBufferZero :: "bufpool \<Rightarrow> bytes \<Rightarrow> bufpool" where
  "PutBufferZero P buf = PutBuffer P (zeros (length buf))"

text \<open>\<open>copy(dst[i:], src)\<close>\<close>

definition go_copy :: "nat \<Rightarrow> bytes \<Rightarrow> bytes \<Rightarrow> bytes" where
  "go_copy i src dst = take i dst @ take (length dst - i) src @ drop (i + length src) dst"

lemma length_go_copy [simp]: "i \<le> length dst \<Longrightarrow> length (go_copy i src dst) = length dst"
  by (simp add: go_copy_def)

lemma tierIndex_lt: "tierIndex n < 4"
  by (simp add: tierIndex_def tierSizes_def)

lemma tierSizes_tierIndex: "n \<le> 65536 \<Longrightarrow> n \<le> tierSizes ! tierIndex n"
  by (simp add: tierIndex_def tierSizes_def)

lemma tierSizes_le: "tierSizes ! tierIndex n \<le> 65536"
  by (simp add: tierIndex_def tierSizes_def)

lemma length_GetBuffer: "pool_ok P \<Longrightarrow> length (GetBuffer P n) = tierSizes ! tierIndex n"
  using tierIndex_lt by (simp add: GetBuffer_def pool_ok_def)

lemma pool_ok_PutBuffer: "pool_ok P \<Longrightarrow> pool_ok (PutBuffer P buf)"
  by (auto simp: pool_ok_def PutBuffer_def tierSizes_def split: if_splits option.splits)

lemma pool_ok_PutBufferZero: "pool_ok P \<Longrightarrow> pool_ok (PutBufferZero P buf)"
  by (simp add: PutBufferZero_def pool_ok_PutBuffer)

text \<open>
  The slice a constructor writes its payload into: \<open>GetBuffer(n)[:n]\<close>, which panics when
  \<open>n\<close> exceeds the largest tier.
\<close>

definition pooled_slice :: "bufpool \<Rightarrow> nat \<Rightarrow> ('e, bytes) outcome" where
  "pooled_slice P n = go_slice 0 n (GetBuffer P n)"

lemma pooled_slice_ok:
  assumes "pool_ok P" "n \<le> 65536"
  obtains p where "pooled_slice P n = Ok p" "length p = n"
  using assms length_GetBuffer [of P n] tierSizes_tierIndex [of n]
  by (auto simp: pooled_slice_def go_slice_def)

lemma pooled_slice_panic: "\<lbrakk>pool_ok P; 65536 < n\<rbrakk> \<Longrightarrow> pooled_slice P n = Panic"
  using length_GetBuffer [of P n] tierSizes_le [of n]
  by (auto simp: pooled_slice_def go_slice_def)

subsection \<open>AES-GCM as an argument\<close>

record gcm =
  gcm_seal :: "bytes \<Rightarrow> bytes \<Rightarrow> bytes \<Rightarrow> bytes \<Rightarrow> bytes"         \<comment> \<open>key, nonce, plaintext, aad\<close>
  gcm_open :: "bytes \<Rightarrow> bytes \<Rightarrow> bytes \<Rightarrow> bytes \<Rightarrow> bytes option"  \<comment> \<open>key, nonce, ciphertext, aad\<close>

definition gcm_ok :: "gcm \<Rightarrow> bool" where
  "gcm_ok G \<longleftrightarrow>
     (\<forall>k n p a. gcm_open G k n (gcm_seal G k n p a) a = Some p) \<and>
     (\<forall>k n ct a p. gcm_open G k n ct a = Some p \<longrightarrow> ct = gcm_seal G k n p a) \<and>
     (\<forall>k n p a. length (gcm_seal G k n p a) = length p + TagSize)"

lemma gcm_okD:
  assumes "gcm_ok G"
  shows "gcm_open G k n (gcm_seal G k n p a) a = Some p"
    and "gcm_open G k n ct a = Some p \<Longrightarrow> ct = gcm_seal G k n p a"
    and "length (gcm_seal G k n p a) = length p + TagSize"
  using assms by (auto simp: gcm_ok_def)

text \<open>
  \<open>newGCM\<close> (and the inlined \<open>aes.NewCipher\<close>/\<open>cipher.NewGCM\<close> pairs): AES accepts keys of
  16, 24 or 32 bytes; the cipher object is determined by its key.
\<close>

definition newGCM :: "bytes \<Rightarrow> (chunk_error, bytes) outcome" where
  "newGCM key = (if length key \<in> {16, 24, 32} then Ok key else Err KeySizeError)"

subsection \<open>Serialisation and encryption\<close>

definition marshal :: "chunk \<Rightarrow> bytes" where
  "marshal c = put32 (SessionID c) @ put32 (SeqNum c) @ [Flags c] @ Payload c"

definition unmarshal :: "bytes \<Rightarrow> (chunk_error, chunk) outcome" where
  "unmarshal plaintext =
     (if length plaintext < HeaderSize then Err PlaintextTooShort
      else Ok \<lparr>SessionID = get32 (take 4 plaintext),
               SeqNum = get32 (take 4 (drop 4 plaintext)),
               Flags = plaintext ! 8,
               Payload = drop HeaderSize plaintext\<rparr>)"

text \<open>\<open>Encrypt\<close>: random nonce (\<open>None\<close>: the random source failed), no associated data.\<close>

definition Encrypt :: "gcm \<Rightarrow> bytes option \<Rightarrow> chunk \<Rightarrow> bytes \<Rightarrow> (chunk_error, bytes) outcome" where
  "Encrypt G rnd c key =
     bind_outcome (newGCM key) (\<lambda>k.
       case rnd of None \<Rightarrow> Err RandError
       | Some nonce \<Rightarrow> Ok (nonce @ gcm_seal G k nonce (marshal c) []))"

definition counter_nonce :: "u64 \<Rightarrow> bytes" where
  "counter_nonce n = put64 n @ zeros 4"

text \<open>
  \<open>EncryptWithAAD\<close>: the plaintext goes into a pooled buffer (heap above the largest tier),
  which is zeroed before it returns to the pool.
\<close>

definition plaintext_buf :: "bufpool \<Rightarrow> nat \<Rightarrow> (chunk_error, bytes) outcome" where
  "plaintext_buf P ptSize =
     (if ptSize \<le> last tierSizes then pooled_slice P ptSize else Ok (zeros ptSize))"

definition EncryptWithAAD ::
  "gcm \<Rightarrow> bufpool \<Rightarrow> chunk \<Rightarrow> bytes \<Rightarrow> u64 \<Rightarrow> bytes \<Rightarrow> (chunk_error, bytes \<times> bufpool) outcome" where
  "EncryptWithAAD G P c k nonceCounter aad =
     bind_outcome (plaintext_buf P (HeaderSize + length (Payload c))) (\<lambda>buf0.
       let buf1 = go_copy 0 (put32 (SessionID c)) buf0;
           buf2 = go_copy 4 (put32 (SeqNum c)) buf1;
           buf3 = buf2[8 := Flags c];
           plaintext = go_copy HeaderSize (Payload c) buf3;
           nonce = counter_nonce nonceCounter;
           ptBuf = (if length plaintext \<le> last tierSizes
                    then plaintext @ drop (length plaintext) (GetBuffer P (length plaintext))
                    else plaintext)
       in Ok (nonce @ gcm_seal G k nonce plaintext aad, PutBufferZero P ptBuf))"

definition EncryptWith ::
  "gcm \<Rightarrow> bufpool \<Rightarrow> chunk \<Rightarrow> bytes \<Rightarrow> u64 \<Rightarrow> (chunk_error, bytes \<times> bufpool) outcome" where
  "EncryptWith G P c k nonceCounter = EncryptWithAAD G P c k nonceCounter []"

definition DecryptWithAAD :: "gcm \<Rightarrow> bytes \<Rightarrow> bytes \<Rightarrow> bytes \<Rightarrow> (chunk_error, chunk) outcome" where
  "DecryptWithAAD G data k aad =
     (if length data < MinChunk then Err ChunkTooShort
      else case gcm_open G k (take NonceSize data) (drop NonceSize data) aad of
             None \<Rightarrow> Err AuthError
           | Some plaintext \<Rightarrow> unmarshal plaintext)"

definition DecryptWith :: "gcm \<Rightarrow> bytes \<Rightarrow> bytes \<Rightarrow> (chunk_error, chunk) outcome" where
  "DecryptWith G data k = DecryptWithAAD G data k []"

definition DecryptChunk :: "gcm \<Rightarrow> bytes \<Rightarrow> bytes \<Rightarrow> (chunk_error, chunk) outcome" where
  "DecryptChunk G data key =
     (if length data < MinChunk then Err ChunkTooShort
      else bind_outcome (newGCM key) (\<lambda>k.
        case gcm_open G k (take NonceSize data) (drop NonceSize data) [] of
          None \<Rightarrow> Err AuthError
        | Some plaintext \<Rightarrow> unmarshal plaintext))"

text \<open>\<open>buildAEAD\<close> (aead_context.go): direction and version, only from version 2 on.\<close>

definition aeadDirClientToServer :: byte where "aeadDirClientToServer = 0x01"
definition aeadDirServerToClient :: byte where "aeadDirServerToClient = 0x02"

definition buildAEAD :: "byte \<Rightarrow> byte \<Rightarrow> bytes" where
  "buildAEAD protoVersion dir = (if protoVersion < 2 then [] else [dir, protoVersion])"

lemma length_marshal [simp]: "length (marshal c) = HeaderSize + length (Payload c)"
  by (simp add: marshal_def HeaderSize_def)

lemma unmarshal_marshal [wire_simps]: "unmarshal (marshal c) = Ok c"
proof -
  have "take 4 (marshal c) = put32 (SessionID c)" "take 4 (drop 4 (marshal c)) = put32 (SeqNum c)"
    "marshal c ! 8 = Flags c" "drop 9 (marshal c) = Payload c"
    by (simp_all add: marshal_def put32_def)
  then show ?thesis by (simp add: unmarshal_def HeaderSize_def wire_simps)
qed

text \<open>The four writes into the buffer produce exactly the serialised chunk: no stale byte survives.\<close>

lemma buffer_writes:
  assumes "length buf = HeaderSize + length (Payload c)"
  shows "go_copy HeaderSize (Payload c)
      ((go_copy 4 (put32 (SeqNum c)) (go_copy 0 (put32 (SessionID c)) buf))[8 := Flags c]) = marshal c"
proof -
  obtain b0 b1 b2 b3 b4 b5 b6 b7 b8 rest where
    "buf = [b0,b1,b2,b3,b4,b5,b6,b7,b8] @ rest" "length rest = length (Payload c)"
    using assms by (auto simp: HeaderSize_def length_Suc_conv numeral_eq_Suc)
  then show ?thesis
    by (simp add: go_copy_def marshal_def put32_def HeaderSize_def)
qed

lemma plaintext_buf_ok:
  assumes "pool_ok P"
  obtains buf where "plaintext_buf P n = Ok buf" "length buf = n"
proof (cases "n \<le> 65536")
  case True
  with pooled_slice_ok [OF assms True] that show ?thesis
    by (auto simp: plaintext_buf_def tierSizes_def)
next
  case False
  with that show ?thesis by (simp add: plaintext_buf_def tierSizes_def)
qed

lemma EncryptWithAAD_wire:
  assumes "pool_ok P"
  shows "\<exists>P'. EncryptWithAAD G P c k ctr aad =
      Ok (counter_nonce ctr @ gcm_seal G k (counter_nonce ctr) (marshal c) aad, P') \<and> pool_ok P'"
proof -
  obtain buf where b: "plaintext_buf P (HeaderSize + length (Payload c)) = Ok buf"
    "length buf = HeaderSize + length (Payload c)"
    using plaintext_buf_ok [OF assms] by metis
  then show ?thesis
    by (simp add: EncryptWithAAD_def Let_def buffer_writes [OF b(2)] pool_ok_PutBufferZero [OF assms])
qed

lemma length_counter_nonce [simp]: "length (counter_nonce n) = NonceSize"
  by (simp add: counter_nonce_def NonceSize_def)

lemma counter_nonce_inject: "counter_nonce m = counter_nonce n \<longleftrightarrow> m = n"
proof
  assume "counter_nonce m = counter_nonce n"
  then have "get64 (counter_nonce m) = get64 (counter_nonce n)" by simp
  then show "m = n" by (simp add: counter_nonce_def wire_simps)
qed simp

lemma DecryptWithAAD_sealed:
  assumes "gcm_ok G" "length nonce = NonceSize"
  shows "DecryptWithAAD G (nonce @ gcm_seal G k nonce (marshal c) aad) k aad = Ok c"
  using assms by (simp add: DecryptWithAAD_def gcm_okD wire_simps MinChunk_def)

text \<open>Whatever decrypts is a sealed serialisation of the chunk returned, under that key and aad.\<close>

lemma DecryptWithAAD_only_sealed:
  assumes "gcm_ok G" "DecryptWithAAD G data k aad = Ok c"
  shows "\<exists>pt. drop NonceSize data = gcm_seal G k (take NonceSize data) pt aad \<and> unmarshal pt = Ok c"
  using assms
  by (auto simp: DecryptWithAAD_def split: if_splits option.splits dest: gcm_okD(2))

subsection \<open>A concrete cipher object\<close>

text \<open>
  The hypothesis \<open>gcm_ok\<close> can hold: a cipher whose tag is the first 16 bytes of the key.
  It serves only to apply theorems to concrete inputs.
\<close>

definition key_tag :: "bytes \<Rightarrow> bytes" where
  "key_tag k = take 16 (k @ zeros 16)"

definition tag_gcm :: gcm where
  "tag_gcm = \<lparr>gcm_seal = (\<lambda>k n p a. p @ key_tag k),
     gcm_open = (\<lambda>k n ct a. if 16 \<le> length ct \<and> drop (length ct - 16) ct = key_tag k
                              then Some (take (length ct - 16) ct) else None)\<rparr>"

lemma length_key_tag [simp]: "length (key_tag k) = 16"
  by (simp add: key_tag_def)

lemma gcm_ok_tag_gcm: "gcm_ok tag_gcm"
proof -
  have "ct = take (length ct - 16) ct @ key_tag k"
    if "drop (length ct - 16) ct = key_tag k" for ct k
    using that by (metis append_take_drop_id)
  then show ?thesis by (auto simp: gcm_ok_def tag_gcm_def TagSize_def split: if_splits)
qed

definition zero_pool :: bufpool where
  "zero_pool i = zeros (tierSizes ! i)"

lemma pool_ok_zero_pool: "pool_ok zero_pool"
  by (simp add: pool_ok_def zero_pool_def)

end
