(* ===== verification/Frames.thy ===== *)
theory Frames
  imports Chunk
begin

section \<open>Frame formats carried in chunk payloads\<close>

text \<open>
  The constructors and parsers of \<open>src/core/chunk.go\<close> (stream data, connect, FIN, window
  update, UDP, migrate, ack, close, migrate replies) and of \<open>src/core/flowctl.go\<close> (the
  capability marker), each as one definition.  Constructors that draw their payload from the
  buffer pool take the pool and may panic; parsers return an outcome.

  The interface they share is \<open>frame_codec\<close>: what a parser owes a constructor.  Every format
  is an interpretation; what follows from the interface (distinct frames have distinct
  encodings, no encoding is rejected as short) is proved once.
\<close>

subsection \<open>Constructors\<close>

definition NewDataChunk :: "u32 \<Rightarrow> u32 \<Rightarrow> bytes \<Rightarrow> chunk" where
  "NewDataChunk sessID seq payload =
     \<lparr>SessionID = sessID, SeqNum = seq, Flags = FlagData, Payload = payload\<rparr>"

definition NewStreamDataChunk ::
  "bufpool \<Rightarrow> u32 \<Rightarrow> u32 \<Rightarrow> u16 \<Rightarrow> bytes \<Rightarrow> (chunk_error, chunk) outcome" where
  "NewStreamDataChunk P sessID seq streamID payload =
     bind_outcome (pooled_slice P (2 + length payload)) (\<lambda>p0.
       let p1 = go_copy 0 (put16 streamID) p0;
           p2 = go_copy 2 payload p1
       in Ok \<lparr>SessionID = sessID, SeqNum = seq, Flags = FlagData, Payload = p2\<rparr>)"

definition NewStreamDataChunkSeq ::
  "bufpool \<Rightarrow> u32 \<Rightarrow> u32 \<Rightarrow> u16 \<Rightarrow> u64 \<Rightarrow> bytes \<Rightarrow> (chunk_error, chunk) outcome" where
  "NewStreamDataChunkSeq P sessID seq streamID downSeq payload =
     bind_outcome (pooled_slice P (2 + 8 + length payload)) (\<lambda>p0.
       let p1 = go_copy 0 (put16 streamID) p0;
           p2 = go_copy 2 (put64 downSeq) p1;
           p3 = go_copy 10 payload p2
       in Ok \<lparr>SessionID = sessID, SeqNum = seq, Flags = FlagData, Payload = p3\<rparr>)"

definition NewStreamConnectChunk :: "u32 \<Rightarrow> u32 \<Rightarrow> u16 \<Rightarrow> bytes \<Rightarrow> chunk" where
  "NewStreamConnectChunk sessID seq streamID target =
     \<lparr>SessionID = sessID, SeqNum = seq, Flags = FlagConnect, Payload = put16 streamID @ target\<rparr>"

definition NewStreamFinChunk :: "u32 \<Rightarrow> u32 \<Rightarrow> u16 \<Rightarrow> chunk" where
  "NewStreamFinChunk sessID seq streamID =
     \<lparr>SessionID = sessID, SeqNum = seq, Flags = FlagFin, Payload = put16 streamID\<rparr>"

definition NewSessionFinChunk :: "u32 \<Rightarrow> u32 \<Rightarrow> chunk" where
  "NewSessionFinChunk sessID seq =
     \<lparr>SessionID = sessID, SeqNum = seq, Flags = FlagFin, Payload = []\<rparr>"

definition NewWindowUpdateChunk :: "u32 \<Rightarrow> u32 \<Rightarrow> u16 \<Rightarrow> u32 \<Rightarrow> chunk" where
  "NewWindowUpdateChunk sessID seq streamID delta =
     \<lparr>SessionID = sessID, SeqNum = seq, Flags = FlagWindowUpdate,
      Payload = put16 streamID @ put32 delta\<rparr>"

text \<open>The address length is truncated to 16 bits, as \<open>uint16(len(addrBytes))\<close> does.\<close>

definition BuildUDPChunkPayload :: "u16 \<Rightarrow> bytes \<Rightarrow> bytes \<Rightarrow> bytes" where
  "BuildUDPChunkPayload streamID addr data =
     put16 streamID @ put16 (of_nat (length addr)) @ addr @ data"

definition NewUDPDataChunk :: "u32 \<Rightarrow> u32 \<Rightarrow> u16 \<Rightarrow> bytes \<Rightarrow> bytes \<Rightarrow> chunk" where
  "NewUDPDataChunk sessID seq streamID addr data =
     \<lparr>SessionID = sessID, SeqNum = seq, Flags = FlagUDP,
      Payload = put16 streamID @ put16 (of_nat (length addr)) @ addr @ data\<rparr>"

definition NewPaddingChunk :: "bytes option \<Rightarrow> u32 \<Rightarrow> u32 \<Rightarrow> (chunk_error, chunk) outcome" where
  "NewPaddingChunk rnd sessID seq =
     (case rnd of None \<Rightarrow> Err RandError
      | Some padding \<Rightarrow> Ok \<lparr>SessionID = sessID, SeqNum = seq, Flags = FlagPadding, Payload = padding\<rparr>)"

definition NewKeepaliveChunk :: "u32 \<Rightarrow> u32 \<Rightarrow> chunk" where
  "NewKeepaliveChunk sessID seq =
     \<lparr>SessionID = sessID, SeqNum = seq, Flags = FlagKeepalive, Payload = []\<rparr>"

definition NewConnectChunk :: "u32 \<Rightarrow> u32 \<Rightarrow> bytes \<Rightarrow> chunk" where
  "NewConnectChunk sessID seq target = NewStreamConnectChunk sessID seq 0 target"

definition BuildMigrateFrame :: "u16 \<Rightarrow> bytes \<Rightarrow> bytes" where
  "BuildMigrateFrame streamID proof = go_copy 2 proof (put16 streamID @ zeros 32)"

definition BuildStreamAckFrame :: "u16 \<Rightarrow> u64 \<Rightarrow> bytes" where
  "BuildStreamAckFrame streamID ackedDownSeq = put16 streamID @ put64 ackedDownSeq"

definition NewStreamCloseChunk :: "u32 \<Rightarrow> u32 \<Rightarrow> u16 \<Rightarrow> chunk" where
  "NewStreamCloseChunk sessID seq streamID =
     \<lparr>SessionID = sessID, SeqNum = seq, Flags = FlagStreamClose, Payload = put16 streamID\<rparr>"

definition MigrateReplyFail :: byte where "MigrateReplyFail = 0x00"
definition MigrateReplyOK :: byte where "MigrateReplyOK = 0x01"
definition MigrateReasonNotFound :: byte where "MigrateReasonNotFound = 0x01"
definition MigrateReasonBadProof :: byte where "MigrateReasonBadProof = 0x02"
definition MigrateReasonGraceExpired :: byte where "MigrateReasonGraceExpired = 0x03"
definition MigrateReasonLimit :: byte where "MigrateReasonLimit = 0x04"
definition MigrateReasonDestClosed :: byte where "MigrateReasonDestClosed = 0x05"

definition BuildMigrateOK :: "u16 \<Rightarrow> u64 \<Rightarrow> bytes" where
  "BuildMigrateOK streamID resumeDownSeq = [MigrateReplyOK] @ put16 streamID @ put64 resumeDownSeq"

definition BuildMigrateFail :: "u16 \<Rightarrow> byte \<Rightarrow> bytes" where
  "BuildMigrateFail streamID reason = [MigrateReplyFail] @ put16 streamID @ [reason]"

subsection \<open>Parsers\<close>

definition ParseStreamDataSeq :: "bytes \<Rightarrow> (chunk_error, u16 \<times> u64 \<times> bytes) outcome" where
  "ParseStreamDataSeq payload =
     (if length payload < 10 then Err FrameTooShort
      else Ok (get16 (take 2 payload), get64 (take 8 (drop 2 payload)), drop 10 payload))"

text \<open>\<open>ParseStreamID\<close> never fails: a short payload is stream 0 (legacy chunks).\<close>

definition ParseStreamID :: "bytes \<Rightarrow> u16 \<times> bytes" where
  "ParseStreamID payload =
     (if length payload < 2 then (0, payload) else (get16 (take 2 payload), drop 2 payload))"

definition ParseWindowUpdate :: "bytes \<Rightarrow> (chunk_error, u16 \<times> u32) outcome" where
  "ParseWindowUpdate payload =
     (if length payload < 6 then Err FrameTooShort
      else Ok (get16 (take 2 payload), get32 (take 4 (drop 2 payload))))"

text \<open>
  The bound check is computed in 16 bits: \<open>4+addrLen\<close> is a \<open>uint16\<close> expression, and so are
  the indices of the two slice expressions.
\<close>

definition ParseUDPChunk :: "bytes \<Rightarrow> (chunk_error, u16 \<times> bytes \<times> bytes) outcome" where
  "ParseUDPChunk payload =
     (if length payload < 4 then Err FrameTooShort
      else let streamID = get16 (take 2 payload);
               addrLen = get16 (take 2 (drop 2 payload));
               stop = unat (4 + addrLen)
           in if length payload < stop then Err UDPTruncated
              else bind_outcome (go_slice 4 stop payload) (\<lambda>addr.
                   bind_outcome (go_slice stop (length payload) payload) (\<lambda>data.
                   Ok (streamID, addr, data))))"

definition ParseMigrateFrame :: "bytes \<Rightarrow> (chunk_error, u16 \<times> bytes) outcome" where
  "ParseMigrateFrame payload =
     (if length payload < 34 then Err FrameTooShort
      else Ok (get16 (take 2 payload), take 32 (drop 2 payload)))"

definition ParseStreamAckFrame :: "bytes \<Rightarrow> (chunk_error, u16 \<times> u64) outcome" where
  "ParseStreamAckFrame payload =
     (if length payload < 10 then Err FrameTooShort
      else Ok (get16 (take 2 payload), get64 (take 8 (drop 2 payload))))"

definition ParseStreamCloseFrame :: "bytes \<Rightarrow> (chunk_error, u16) outcome" where
  "ParseStreamCloseFrame payload =
     (if length payload < 2 then Err FrameTooShort else Ok (get16 (take 2 payload)))"

text \<open>\<open>ParseMigrateReply\<close>: (ok, streamID, resumeDownSeq, reason).\<close>

definition ParseMigrateReply :: "bytes \<Rightarrow> (chunk_error, bool \<times> u16 \<times> u64 \<times> byte) outcome" where
  "ParseMigrateReply payload =
     (if length payload < 4 then Err FrameTooShort
      else if payload ! 0 = MigrateReplyOK then
        (if length payload < 11 then Err FrameTooShort
         else Ok (True, get16 (take 2 (drop 1 payload)), get64 (take 8 (drop 3 payload)), 0))
      else if payload ! 0 = MigrateReplyFail then
        Ok (False, get16 (take 2 (drop 1 payload)), 0, payload ! 3)
      else Err UnknownStatus)"

subsection \<open>The flow-control capability marker (flowctl.go)\<close>

definition flowCtlMagic :: bytes where
  "flowCtlMagic = [0x46, 0x4C, 0x4F, 0x57, 0x43, 0x54, 0x4C]"   \<comment> \<open>FLOWCTL\<close>

definition flowCtlMarkerLen :: nat where "flowCtlMarkerLen = 7 + 4"
definition flowCtlMarkerLenV2 :: nat where "flowCtlMarkerLenV2 = 7 + 4 + 1"
definition flowCapMigrate :: byte where "flowCapMigrate = 0x01"

definition BuildFlowCtlMarker :: "u32 \<Rightarrow> bytes" where
  "BuildFlowCtlMarker window = flowCtlMagic @ put32 window"

fun magic_matches :: "bytes \<Rightarrow> bytes \<Rightarrow> bool" where
  "magic_matches p [] = True"
| "magic_matches [] (m # ms) = False"
| "magic_matches (b # bs) (m # ms) = (if b \<noteq> m then False else magic_matches bs ms)"

definition ParseFlowCtlMarker :: "bytes \<Rightarrow> u32 option" where
  "ParseFlowCtlMarker payload =
     (if length payload < flowCtlMarkerLen then None
      else if \<not> magic_matches payload flowCtlMagic then None
      else Some (get32 (take 4 (drop 7 payload))))"

definition BuildFlowCtlMarkerV2 :: "u32 \<Rightarrow> bool \<Rightarrow> bytes" where
  "BuildFlowCtlMarkerV2 window migrate =
     flowCtlMagic @ put32 window @ [if migrate then 0 OR flowCapMigrate else 0]"

definition ParseFlowCtlMarkerV2 :: "bytes \<Rightarrow> (u32 \<times> bool) option" where
  "ParseFlowCtlMarkerV2 payload =
     (if length payload < flowCtlMarkerLen then None
      else if \<not> magic_matches payload flowCtlMagic then None
      else Some (get32 (take 4 (drop 7 payload)),
                 flowCtlMarkerLenV2 \<le> length payload \<and> payload ! 11 AND flowCapMigrate \<noteq> 0))"

lemmas flowctl_defs = flowCtlMagic_def flowCtlMarkerLen_def flowCtlMarkerLenV2_def flowCapMigrate_def

subsection \<open>The codec interface\<close>

locale frame_codec =
  fixes build :: "'a \<Rightarrow> bytes"
    and parse :: "bytes \<Rightarrow> ('e, 'a) outcome"
    and fits :: "'a \<Rightarrow> bool"
    and minlen :: nat
  assumes roundtrip: "fits x \<Longrightarrow> parse (build x) = Ok x"
    and short: "length p < minlen \<Longrightarrow> \<exists>e. parse p = Err e"
begin

lemma build_inject: "\<lbrakk>fits x; fits y\<rbrakk> \<Longrightarrow> build x = build y \<longleftrightarrow> x = y"
  by (metis outcome.inject(1) roundtrip)

lemma build_not_short: "fits x \<Longrightarrow> minlen \<le> length (build x)"
  using roundtrip [of x] short [of "build x"] by (metis not_le_imp_less outcome.distinct(1))

lemma build_surj_on_range: "fits x \<Longrightarrow> \<exists>y. parse (build x) = Ok y \<and> build y = build x"
  using roundtrip by blast

end

text \<open>A format whose parser decides by length alone: it never panics and accepts every long payload.\<close>

locale total_frame = frame_codec +
  assumes long: "minlen \<le> length p \<Longrightarrow> \<exists>x. parse p = Ok x"
begin

lemma no_panic: "parse p \<noteq> Panic"
  using short [of p] long [of p] by (cases "length p < minlen") (auto simp: not_less)

lemma accepts_iff_length: "(\<exists>x. parse p = Ok x) \<longleftrightarrow> minlen \<le> length p"
  using short [of p] long [of p] by (cases "length p < minlen") (auto simp: not_less)

end

interpretation window_update: total_frame
  "\<lambda>(sid, d). Payload (NewWindowUpdateChunk sess seq sid d)" ParseWindowUpdate "\<lambda>_. True" 6
  by unfold_locales
    (auto simp: NewWindowUpdateChunk_def ParseWindowUpdate_def wire_simps)

interpretation stream_ack: total_frame
  "\<lambda>(sid, a). BuildStreamAckFrame sid a" ParseStreamAckFrame "\<lambda>_. True" 10
  by unfold_locales (auto simp: BuildStreamAckFrame_def ParseStreamAckFrame_def wire_simps)

interpretation stream_close: total_frame
  "\<lambda>sid. Payload (NewStreamCloseChunk sess seq sid)" ParseStreamCloseFrame "\<lambda>_. True" 2
  by unfold_locales (auto simp: NewStreamCloseChunk_def ParseStreamCloseFrame_def wire_simps)

interpretation migrate_frame: total_frame
  "\<lambda>(sid, proof). BuildMigrateFrame sid proof" ParseMigrateFrame "\<lambda>(sid, proof). length proof = 32" 34
  by unfold_locales
    (auto simp: BuildMigrateFrame_def ParseMigrateFrame_def go_copy_def wire_simps)

interpretation seq_data: total_frame
  "\<lambda>(sid, s, d). put16 sid @ put64 s @ d" ParseStreamDataSeq "\<lambda>_. True" 10
proof unfold_locales
  fix x :: "u16 \<times> u64 \<times> bytes"
  obtain sid s d where "x = (sid, s, d)" by (metis prod_cases3)
  moreover have "drop 10 (put16 sid @ put64 s @ d) = d" by (simp add: put16_def put64_def)
  ultimately show "ParseStreamDataSeq (case x of (sid, s, d) \<Rightarrow> put16 sid @ put64 s @ d) = Ok x"
    by (simp add: ParseStreamDataSeq_def wire_simps)
qed (auto simp: ParseStreamDataSeq_def)

text \<open>The reply format: OK carries the resume sequence, FAIL the reason code.\<close>

definition build_migrate_reply :: "bool \<times> u16 \<times> u64 \<times> byte \<Rightarrow> bytes" where
  "build_migrate_reply r =
     (case r of (ok, sid, s, reason) \<Rightarrow> if ok then BuildMigrateOK sid s else BuildMigrateFail sid reason)"

interpretation migrate_reply: frame_codec
  build_migrate_reply ParseMigrateReply
  "\<lambda>(ok, sid, s, reason). if ok then reason = 0 else s = 0" 4
  by unfold_locales
    (auto simp: build_migrate_reply_def BuildMigrateOK_def BuildMigrateFail_def ParseMigrateReply_def
      MigrateReplyOK_def MigrateReplyFail_def wire_simps nth_append split: if_splits)

lemma unat_add_4_u16:
  "unat (4 + w :: u16) = (if unat w < 65532 then 4 + unat w else unat w - 65532)"
proof -
  have "unat w < 65536" using unat_bound [of w] by simp
  moreover have "unat (4 + w) = (4 + unat w) mod 65536" by (simp add: unat_word_ariths)
  ultimately show ?thesis by (auto simp: mod_if)
qed

interpretation udp_frame: frame_codec
  "\<lambda>(sid, addr, d). BuildUDPChunkPayload sid addr d" ParseUDPChunk
  "\<lambda>(sid, addr, d). length addr < 65532" 4
proof unfold_locales
  fix x :: "u16 \<times> bytes \<times> bytes"
  assume fits: "case x of (sid, addr, d) \<Rightarrow> length addr < 65532"
  obtain sid addr d where x: "x = (sid, addr, d)" by (metis prod_cases3)
  let ?n = "of_nat (length addr) :: u16"
  from fits x have "unat ?n = length addr"
    by (simp add: unat_of_nat)
  with fits x have "unat (4 + ?n) = 4 + length addr" by (simp add: unat_add_4_u16)
  then show "ParseUDPChunk (case x of (sid, addr, d) \<Rightarrow> BuildUDPChunkPayload sid addr d) = Ok x"
    by (simp add: x BuildUDPChunkPayload_def ParseUDPChunk_def wire_simps Let_def go_slice_def)
qed (auto simp: ParseUDPChunk_def)

lemma BuildUDPChunkPayload_eq_NewUDPDataChunk:
  "Payload (NewUDPDataChunk sess seq sid addr d) = BuildUDPChunkPayload sid addr d"
  by (simp add: NewUDPDataChunk_def BuildUDPChunkPayload_def)

subsection \<open>Pooled stream-data payloads\<close>

lemma go_copy_prefix2:
  assumes "length p = 2 + length d"
  shows "go_copy 2 d (go_copy 0 (put16 sid) p) = put16 sid @ d"
proof -
  obtain a b rest where "p = a # b # rest" "length rest = length d"
    using assms by (auto simp: length_Suc_conv numeral_eq_Suc)
  then show ?thesis by (simp add: go_copy_def put16_def)
qed

lemma go_copy_prefix10:
  assumes "length p = 2 + 8 + length d"
  shows "go_copy 10 d (go_copy 2 (put64 s) (go_copy 0 (put16 sid) p)) = put16 sid @ put64 s @ d"
proof -
  obtain a b rest where p: "p = a # b # rest" "length rest = 8 + length d"
    using assms by (auto simp: length_Suc_conv numeral_eq_Suc)
  from p show ?thesis by (simp add: go_copy_def put16_def put64_def numeral_eq_Suc)
qed

lemma NewStreamDataChunk_ok:
  assumes "pool_ok P" "length d \<le> 65534"
  shows "NewStreamDataChunk P sess seq sid d =
     Ok \<lparr>SessionID = sess, SeqNum = seq, Flags = FlagData, Payload = put16 sid @ d\<rparr>"
proof -
  obtain p where "(pooled_slice P (2 + length d) :: (chunk_error, bytes) outcome) = Ok p"
      "length p = 2 + length d"
    using pooled_slice_ok [OF assms(1), of "2 + length d"] assms(2) by auto
  then show ?thesis by (simp add: NewStreamDataChunk_def Let_def go_copy_prefix2)
qed

lemma NewStreamDataChunkSeq_ok:
  assumes "pool_ok P" "length d \<le> 65526"
  shows "NewStreamDataChunkSeq P sess seq sid s d =
     Ok \<lparr>SessionID = sess, SeqNum = seq, Flags = FlagData, Payload = put16 sid @ put64 s @ d\<rparr>"
proof -
  obtain p where "(pooled_slice P (2 + 8 + length d) :: (chunk_error, bytes) outcome) = Ok p"
      "length p = 2 + 8 + length d"
    using pooled_slice_ok [OF assms(1), of "2 + 8 + length d"] assms(2) by auto
  then show ?thesis by (simp add: NewStreamDataChunkSeq_def Let_def go_copy_prefix10)
qed

lemma NewStreamDataChunk_panic:
  "\<lbrakk>pool_ok P; 65534 < length d\<rbrakk> \<Longrightarrow> NewStreamDataChunk P sess seq sid d = Panic"
  by (simp add: NewStreamDataChunk_def pooled_slice_panic)

lemma ParseStreamID_prefix: "ParseStreamID (put16 sid @ d) = (sid, d)"
  by (simp add: ParseStreamID_def wire_simps)

subsection \<open>Markers\<close>

lemma magic_matches_append: "magic_matches (flowCtlMagic @ bs) flowCtlMagic"
  by (simp add: flowCtlMagic_def)

lemma magic_matches_iff: "magic_matches p m \<longleftrightarrow> (\<exists>bs. p = m @ bs)"
  by (induction p m rule: magic_matches.induct) auto

lemma ParseFlowCtlMarkerV2_V2: "ParseFlowCtlMarkerV2 (BuildFlowCtlMarkerV2 w m) = Some (w, m)"
  by (simp add: ParseFlowCtlMarkerV2_def BuildFlowCtlMarkerV2_def magic_matches_append)
     (simp add: flowctl_defs put32_def get32_put32 [of w "[]", unfolded put32_def, simplified])

lemma ParseFlowCtlMarkerV2_V1: "ParseFlowCtlMarkerV2 (BuildFlowCtlMarker w) = Some (w, False)"
  by (simp add: ParseFlowCtlMarkerV2_def BuildFlowCtlMarker_def magic_matches_append)
     (simp add: flowctl_defs wire_simps)

lemma ParseFlowCtlMarker_any: "ParseFlowCtlMarker p = map_option fst (ParseFlowCtlMarkerV2 p)"
  by (simp add: ParseFlowCtlMarker_def ParseFlowCtlMarkerV2_def)

subsection \<open>Properties\<close>

text \<open>Every frame the program builds for migration, acknowledgement, stream close, window
  update and sequenced data is parsed back to exactly the fields it was built from, and the
  two marker versions interoperate: an old parser reads the window of a new marker, and a new
  parser reads an old marker as one without the migration capability.\<close>

theorem frame_roundtrips:
  "ParseWindowUpdate (Payload (NewWindowUpdateChunk sess seq sid delta)) = Ok (sid, delta) \<and>
   ParseStreamAckFrame (BuildStreamAckFrame sid acked) = Ok (sid, acked) \<and>
   ParseStreamCloseFrame (Payload (NewStreamCloseChunk sess seq sid)) = Ok sid \<and>
   ParseMigrateReply (BuildMigrateOK sid down) = Ok (True, sid, down, 0) \<and>
   ParseMigrateReply (BuildMigrateFail sid reason) = Ok (False, sid, 0, reason) \<and>
   ParseFlowCtlMarkerV2 (BuildFlowCtlMarkerV2 w m) = Some (w, m) \<and>
   ParseFlowCtlMarker (BuildFlowCtlMarkerV2 w m) = Some w \<and>
   ParseFlowCtlMarkerV2 (BuildFlowCtlMarker w) = Some (w, False)"
  using window_update.roundtrip [where x = "(sid, delta)"] stream_ack.roundtrip [of "(sid, acked)"]
    stream_close.roundtrip [where x = sid] migrate_reply.roundtrip [of "(True, sid, down, 0)"]
    migrate_reply.roundtrip [of "(False, sid, 0, reason)"]
  by (simp add: build_migrate_reply_def ParseFlowCtlMarkerV2_V2 ParseFlowCtlMarkerV2_V1 ParseFlowCtlMarker_any)

text \<open>Stream-data constructors that fill a pooled buffer produce the stream identifier (and
  sequence number) followed by exactly the payload, whatever stale bytes the buffer held, and
  the parsers recover them, for payloads that fit the largest pool tier.\<close>

theorem pooled_stream_data:
  assumes "pool_ok P" "length d \<le> 65526"
  shows "(\<exists>c. NewStreamDataChunk P sess seq sid d = Ok c \<and> ParseStreamID (Payload c) = (sid, d)) \<and>
    (\<exists>c. NewStreamDataChunkSeq P sess seq sid down d = Ok c \<and> ParseStreamDataSeq (Payload c) = Ok (sid, down, d))"
  using assms seq_data.roundtrip [of "(sid, down, d)"]
  by (simp add: NewStreamDataChunk_ok NewStreamDataChunkSeq_ok ParseStreamID_prefix)

theorem pooled_stream_data_witness:
  "(\<exists>c. NewStreamDataChunk zero_pool 1 2 3 [7, 8] = Ok c \<and> ParseStreamID (Payload c) = (3, [7, 8])) \<and>
   (\<exists>c. NewStreamDataChunkSeq zero_pool 1 2 3 9 [7, 8] = Ok c \<and> ParseStreamDataSeq (Payload c) = Ok (3, 9, [7, 8]))"
  using pooled_stream_data [OF pool_ok_zero_pool, where d = "[7, 8]" and sess = 1 and seq = 2 and sid = 3 and down = 9] by simp

text \<open>The UDP parser panics exactly on payloads whose 16-bit address length is 65532 or more:
  the bound check adds 4 in 16 bits and wraps, so the slice expression that follows is out of
  order.  On every other payload it returns the frame or an error.\<close>

theorem ParseUDPChunk_panics_iff:
  "ParseUDPChunk p = Panic \<longleftrightarrow> 4 \<le> length p \<and> 65532 \<le> unat (get16 (take 2 (drop 2 p)))"
proof -
  have "unat (get16 (take 2 (drop 2 p))) < 65536" using unat_bound [of "get16 (take 2 (drop 2 p))"] by simp
  then show ?thesis
    by (auto simp: ParseUDPChunk_def Let_def unat_add_4_u16 go_slice_def not_less split: if_splits)
qed

text \<open>A UDP frame with an address shorter than 65532 bytes is parsed back to its stream,
  address and data.\<close>

theorem udp_frame_roundtrip:
  assumes "length addr < 65532"
  shows "ParseUDPChunk (BuildUDPChunkPayload sid addr d) = Ok (sid, addr, d)"
  using assms udp_frame.roundtrip [of "(sid, addr, d)"] by simp

theorem udp_frame_roundtrip_witness:
  "ParseUDPChunk (BuildUDPChunkPayload 5 [1, 2, 3] [9, 9]) = Ok (5, [1, 2, 3], [9, 9])"
  using udp_frame_roundtrip [of "[1, 2, 3]" 5 "[9, 9]"] by simp

end
