(* ===== verification/Replay_Window.thy ===== *)
theory Replay_Window
  imports Prelude
begin

section \<open>The anti-replay window of a session\<close>

text \<open>
  Models the receive window of \<open>src/core/session.go\<close>: \<open>AcceptSeqNum\<close>, \<open>shiftBitmap\<close>,
  \<open>setBit\<close>, \<open>getBit\<close>.  The bitmap is the array \<open>[WindowSize/64]uint64\<close> with its in-place
  loops; bit \<open>d\<close> stands for the sequence number \<open>d\<close> behind the highest one accepted.

  The specification is a set of recently accepted numbers.  \<open>AcceptSeqNum\<close> refines it
  (\<open>window_refines\<close>), and from the specification follows that over any sequence of calls no
  sequence number is accepted twice, while every fresh number inside the window is.
\<close>

definition WindowSize :: nat where "WindowSize = 16384"

type_synonym bitmap = "u64 list"

record window =
  recvHighest :: u32
  recvBitmap :: bitmap
  windowResets :: u64

definition bitmap_words :: nat where "bitmap_words = WindowSize div 64"

definition new_window :: window where
  "new_window = \<lparr>recvHighest = 0, recvBitmap = replicate bitmap_words 0, windowResets = 0\<rparr>"

subsection \<open>Bit operations (session.go)\<close>

definition setBit :: "u32 \<Rightarrow> bitmap \<Rightarrow> bitmap" where
  "setBit pos bm =
     (let word = unat (pos div 64); bit = unat (pos mod 64)
      in if word < length bm then bm[word := bm ! word OR push_bit bit 1] else bm)"

definition getBit :: "u32 \<Rightarrow> bitmap \<Rightarrow> bool" where
  "getBit pos bm =
     (let word = unat (pos div 64); bit = unat (pos mod 64)
      in if length bm \<le> word then False else bm ! word AND push_bit bit 1 \<noteq> 0)"

text \<open>The two loops of \<open>shiftBitmap\<close>, both from the highest word down.\<close>

definition shift_words :: "nat \<Rightarrow> bitmap \<Rightarrow> bitmap" where
  "shift_words ws bm =
     descending_loop (\<lambda>b i. if ws \<le> i then b ! (i - ws) else 0) (length bm) bm"

definition shift_bits :: "nat \<Rightarrow> bitmap \<Rightarrow> bitmap" where
  "shift_bits s bm =
     descending_loop (\<lambda>b i. let w = push_bit s (b ! i)
        in if 0 < i then w OR drop_bit (64 - s) (b ! (i - 1)) else w) (length bm) bm"

definition shiftBitmap :: "u32 \<Rightarrow> bitmap \<Rightarrow> bitmap" where
  "shiftBitmap n bm =
     (if n = 0 then bm
      else let ws = unat (n div 64); bitShift = unat (n mod 64);
               bm1 = (if 0 < ws then shift_words ws bm else bm)
           in if 0 < bitShift then shift_bits bitShift bm1 else bm1)"

definition AcceptSeqNum :: "u32 \<Rightarrow> window \<Rightarrow> bool \<times> window" where
  "AcceptSeqNum seq s =
     (if recvHighest s < seq then
        let shift = seq - recvHighest s;
            s1 = (if WindowSize \<le> unat shift
                  then s\<lparr>windowResets := windowResets s + 1,
                         recvBitmap := map (\<lambda>_. 0) (recvBitmap s)\<rparr>
                  else s\<lparr>recvBitmap := shiftBitmap shift (recvBitmap s)\<rparr>);
            s2 = s1\<lparr>recvHighest := seq\<rparr>
        in (True, s2\<lparr>recvBitmap := setBit 0 (recvBitmap s2)\<rparr>)
      else
        let diff = recvHighest s - seq
        in if WindowSize \<le> unat diff then (False, s)
           else if getBit diff (recvBitmap s) then (False, s)
           else (True, s\<lparr>recvBitmap := setBit diff (recvBitmap s)\<rparr>))"

definition WindowResetCount :: "window \<Rightarrow> u64" where
  "WindowResetCount s = windowResets s"

subsection \<open>Bits of the bitmap\<close>

definition bm_bit :: "bitmap \<Rightarrow> nat \<Rightarrow> bool" where
  "bm_bit bm d \<longleftrightarrow> d div 64 < length bm \<and> bit (bm ! (d div 64)) (d mod 64)"

lemma unat_div_mod_64: "unat (pos div 64 :: u32) = unat pos div 64" "unat (pos mod 64 :: u32) = unat pos mod 64"
  by (simp_all add: unat_div unat_mod)

lemma and_power_iff_bit: "w AND 2 ^ k \<noteq> 0 \<longleftrightarrow> bit w k" for w :: u64
  using bit_iff_and_push_bit_not_eq_0 [of w k] by simp

lemma getBit_iff: "getBit pos bm \<longleftrightarrow> bm_bit bm (unat pos)"
  by (auto simp: getBit_def bm_bit_def Let_def unat_div_mod_64 and_power_iff_bit)

lemma setBit_bit:
  "d div 64 < length bm \<Longrightarrow> bm_bit (setBit pos bm) d \<longleftrightarrow> bm_bit bm d \<or> d = unat pos"
  apply (auto simp: setBit_def bm_bit_def Let_def unat_div_mod_64 nth_list_update bit_simps)
  apply (metis div_mult_mod_eq)
  done

lemma length_setBit [simp]: "length (setBit pos bm) = length bm"
  by (simp add: setBit_def Let_def)

lemma shift_words_nth:
  "i < length bm \<Longrightarrow> shift_words ws bm ! i = (if ws \<le> i then bm ! (i - ws) else 0)"
  unfolding shift_words_def by (subst descending_loop_nth) auto

lemma shift_bits_nth:
  "i < length bm \<Longrightarrow> shift_bits s bm ! i =
     (if 0 < i then push_bit s (bm ! i) OR drop_bit (64 - s) (bm ! (i - 1)) else push_bit s (bm ! i))"
  unfolding shift_bits_def by (subst descending_loop_nth) (auto simp: Let_def)

lemma length_shifts [simp]:
  "length (shift_words ws bm) = length bm" "length (shift_bits s bm) = length bm"
  "length (shiftBitmap n bm) = length bm"
  by (simp_all add: shift_words_def shift_bits_def shiftBitmap_def Let_def)

lemma shift_words_bit:
  assumes "d div 64 < length bm"
  shows "bm_bit (shift_words ws bm) d \<longleftrightarrow> 64 * ws \<le> d \<and> bm_bit bm (d - 64 * ws)"
proof -
  have "ws \<le> d div 64 \<longleftrightarrow> 64 * ws \<le> d" by (simp add: less_eq_div_iff_mult_less_eq mult.commute)
  moreover have "64 * ws \<le> d \<Longrightarrow> (d - 64 * ws) div 64 = d div 64 - ws \<and> (d - 64 * ws) mod 64 = d mod 64"
    by (metis div_mult_self1_is_m mod_mult_self2 mult.commute le_add_diff_inverse2 add.commute div_mult_self2 diff_add_inverse2 zero_neq_numeral)
  ultimately show ?thesis using assms
    by (auto simp: bm_bit_def shift_words_nth)
qed

lemma div_mod_64_unique:
  fixes e q r :: nat
  assumes "e = 64 * q + r" "r < 64"
  shows "e div 64 = q" "e mod 64 = r"
  using assms by simp_all

lemma div_mod_diff_same:
  fixes d s :: nat
  assumes "s \<le> d mod 64"
  shows "(d - s) div 64 = d div 64" "(d - s) mod 64 = d mod 64 - s" "s \<le> d"
proof -
  have d: "d = 64 * (d div 64) + d mod 64" by simp
  with assms have e: "d - s = 64 * (d div 64) + (d mod 64 - s)" by linarith
  have "d mod 64 - s < 64" using mod_less_divisor [of 64 d] by linarith
  from div_mod_64_unique [OF e this] show "(d - s) div 64 = d div 64" "(d - s) mod 64 = d mod 64 - s" .
  show "s \<le> d" using assms mod_less_eq_dividend [of d 64] by linarith
qed

lemma div_mod_diff_carry:
  fixes d s :: nat
  assumes "d mod 64 < s" "s < 64" "64 \<le> d"
  shows "(d - s) div 64 = d div 64 - 1" "(d - s) mod 64 = d mod 64 + (64 - s)" "s \<le> d" "0 < d div 64"
proof -
  have d: "d = 64 * (d div 64) + d mod 64" by simp
  show q: "0 < d div 64" using assms(3) by (simp add: div_greater_zero_iff)
  from assms show "s \<le> d" by linarith
  have "64 * (d div 64) = 64 * (d div 64 - 1) + 64" using q by (cases "d div 64") auto
  with d assms have e: "d - s = 64 * (d div 64 - 1) + (d mod 64 + (64 - s))" by linarith
  have "d mod 64 + (64 - s) < 64" using assms by linarith
  from div_mod_64_unique [OF e this]
  show "(d - s) div 64 = d div 64 - 1" "(d - s) mod 64 = d mod 64 + (64 - s)" .
qed

lemma shift_bits_bit:
  assumes "d div 64 < length bm" "0 < s" "s < 64"
  shows "bm_bit (shift_bits s bm) d \<longleftrightarrow> s \<le> d \<and> bm_bit bm (d - s)"
proof -
  have r: "d mod 64 < 64" by simp
  consider (same) "s \<le> d mod 64" | (carry) "d mod 64 < s" "64 \<le> d" | (low) "d mod 64 < s" "d < 64"
    by linarith
  then show ?thesis
  proof cases
    case same
    show ?thesis using assms same div_mod_diff_same [OF same] r
      by (auto simp: bm_bit_def shift_bits_nth bit_simps dest: bit_imp_le_length)
  next
    case carry
    have "d div 64 - 1 < length bm" using assms(1) by simp
    then show ?thesis using assms carry div_mod_diff_carry [OF carry(1) assms(3) carry(2)] r
      by (auto simp: bm_bit_def shift_bits_nth bit_simps add.commute)
  next
    case low
    then show ?thesis using assms by (auto simp: bm_bit_def shift_bits_nth bit_simps)
  qed
qed

text \<open>\<open>shiftBitmap\<close> ages every remembered number by exactly \<open>n\<close> and forgets nothing else.\<close>

lemma shiftBitmap_bit:
  assumes "d div 64 < length bm"
  shows "bm_bit (shiftBitmap n bm) d \<longleftrightarrow> unat n \<le> d \<and> bm_bit bm (d - unat n)"
proof -
  let ?ws = "unat n div 64" and ?s = "unat n mod 64"
  have n: "unat n = 64 * ?ws + ?s" by simp
  have shorter: "(d - k) div 64 < length bm" for k
    using assms by (meson diff_le_self div_le_mono le_less_trans)
  have w: "bm_bit (if 0 < ?ws then shift_words ?ws bm else bm) e \<longleftrightarrow> 64 * ?ws \<le> e \<and> bm_bit bm (e - 64 * ?ws)"
    if "e div 64 < length bm" for e
    using that by (simp add: shift_words_bit)
  show ?thesis
  proof (cases "n = 0")
    case True
    then show ?thesis by (simp add: shiftBitmap_def)
  next
    case False
    show ?thesis
    proof (cases "?s = 0")
      case True
      then show ?thesis using False n w [OF assms]
        by (simp add: shiftBitmap_def Let_def unat_div_mod_64)
    next
      case s: False
      let ?b = "if 0 < ?ws then shift_words ?ws bm else bm"
      have "bm_bit (shiftBitmap n bm) d \<longleftrightarrow> ?s \<le> d \<and> bm_bit ?b (d - ?s)"
        using False s shift_bits_bit [of d ?b ?s] assms
        by (simp add: shiftBitmap_def Let_def unat_div_mod_64)
      also have "\<dots> \<longleftrightarrow> ?s \<le> d \<and> 64 * ?ws \<le> d - ?s \<and> bm_bit bm (d - ?s - 64 * ?ws)"
        using w [OF shorter] by blast
      also have "\<dots> \<longleftrightarrow> unat n \<le> d \<and> bm_bit bm (d - unat n)"
      proof -
        have "d - ?s - 64 * ?ws = d - unat n" using n by linarith
        moreover have "?s \<le> d \<and> 64 * ?ws \<le> d - ?s \<longleftrightarrow> unat n \<le> d" using n by linarith
        ultimately show ?thesis by auto
      qed
      finally show ?thesis .
    qed
  qed
qed

subsection \<open>Specification: a set of recently accepted numbers\<close>

type_synonym window_spec = "nat \<times> nat set"   \<comment> \<open>highest accepted, accepted numbers still remembered\<close>

definition spec_accept :: "nat \<Rightarrow> window_spec \<Rightarrow> bool \<times> window_spec" where
  "spec_accept seq st =
     (case st of (hi, seen) \<Rightarrow>
        if hi < seq then (True, seq, insert seq {x \<in> seen. seq - x < WindowSize})
        else if WindowSize \<le> hi - seq \<or> seq \<in> seen then (False, hi, seen)
        else (True, hi, insert seq seen))"

definition window_inv :: "window \<Rightarrow> bool" where
  "window_inv s \<longleftrightarrow> length (recvBitmap s) = bitmap_words"

definition window_abs :: "window \<Rightarrow> window_spec" where
  "window_abs s =
     (unat (recvHighest s),
      {x. x \<le> unat (recvHighest s) \<and> unat (recvHighest s) - x < WindowSize \<and>
          bm_bit (recvBitmap s) (unat (recvHighest s) - x)})"

lemma window_inv_new: "window_inv new_window"
  by (simp add: window_inv_def new_window_def)

lemma window_abs_new: "window_abs new_window = (0, {})"
  by (auto simp: window_abs_def new_window_def bm_bit_def)

lemma window_inv_AcceptSeqNum: "window_inv s \<Longrightarrow> window_inv (snd (AcceptSeqNum seq s))"
  by (simp add: window_inv_def AcceptSeqNum_def Let_def)

lemma in_window_word: "d < WindowSize \<Longrightarrow> length bm = bitmap_words \<Longrightarrow> d div 64 < length bm"
  by (simp add: WindowSize_def bitmap_words_def)

lemma window_advance_bits:
  assumes inv: "window_inv s" and hi: "recvHighest s < seq" and d: "d < WindowSize"
  shows "bm_bit (recvBitmap (snd (AcceptSeqNum seq s))) d \<longleftrightarrow>
     d = 0 \<or> unat seq - unat (recvHighest s) \<le> d \<and>
       bm_bit (recvBitmap s) (d - (unat seq - unat (recvHighest s)))"
proof -
  let ?shift = "seq - recvHighest s"
  have shift: "unat ?shift = unat seq - unat (recvHighest s)"
    using hi by (simp add: unat_sub order_less_imp_le)
  have len: "length (recvBitmap s) = bitmap_words" using inv by (simp add: window_inv_def)
  have word: "d div 64 < length (recvBitmap s)" using in_window_word [OF d len] .
  show ?thesis
  proof (cases "WindowSize \<le> unat ?shift")
    case True
    then have "\<not> unat ?shift \<le> d" using d by simp
    moreover have "\<not> bm_bit (map (\<lambda>_. 0) (recvBitmap s)) d" using word by (simp add: bm_bit_def)
    ultimately show ?thesis using True hi word
      by (simp add: AcceptSeqNum_def Let_def setBit_bit shift)
  next
    case False
    then show ?thesis using hi word
      by (auto simp: AcceptSeqNum_def Let_def setBit_bit shiftBitmap_bit shift)
  qed
qed

lemma window_refines_advance:
  assumes inv: "window_inv s" and hi: "recvHighest s < seq"
  shows "fst (AcceptSeqNum seq s)"
    and "window_abs (snd (AcceptSeqNum seq s)) = snd (spec_accept (unat seq) (window_abs s))"
proof -
  show "fst (AcceptSeqNum seq s)" using hi by (simp add: AcceptSeqNum_def Let_def)
  have hi': "unat (recvHighest s) < unat seq" using hi by (simp add: word_less_nat_alt)
  have seq: "recvHighest (snd (AcceptSeqNum seq s)) = seq" using hi by (simp add: AcceptSeqNum_def Let_def)
  have "x \<le> unat seq \<and> unat seq - x < WindowSize \<and> bm_bit (recvBitmap (snd (AcceptSeqNum seq s))) (unat seq - x)
      \<longleftrightarrow> x = unat seq \<or> (x \<le> unat (recvHighest s) \<and> unat (recvHighest s) - x < WindowSize \<and>
          bm_bit (recvBitmap s) (unat (recvHighest s) - x)) \<and> unat seq - x < WindowSize" for x
  proof (cases "x \<le> unat seq \<and> unat seq - x < WindowSize")
    case True
    have "unat seq - x - (unat seq - unat (recvHighest s)) = unat (recvHighest s) - x"
      if "x \<le> unat (recvHighest s)" using that hi' by simp
    with True hi' show ?thesis
      using window_advance_bits [OF inv hi, of "unat seq - x"] by (auto simp: WindowSize_def)
  next
    case False
    with hi' show ?thesis by (auto simp: WindowSize_def)
  qed
  then show "window_abs (snd (AcceptSeqNum seq s)) = snd (spec_accept (unat seq) (window_abs s))"
    using hi' by (auto simp: window_abs_def spec_accept_def seq)
qed

lemma window_refines_behind:
  assumes inv: "window_inv s" and hi: "\<not> recvHighest s < seq"
  shows "fst (AcceptSeqNum seq s) \<longleftrightarrow> fst (spec_accept (unat seq) (window_abs s))"
    and "window_abs (snd (AcceptSeqNum seq s)) = snd (spec_accept (unat seq) (window_abs s))"
proof -
  let ?h = "recvHighest s"
  have le: "unat seq \<le> unat ?h" using hi by (simp add: word_le_nat_alt not_less)
  have diff: "unat (?h - seq) = unat ?h - unat seq"
    using hi by (simp add: unat_sub not_less)
  have len: "length (recvBitmap s) = bitmap_words" using inv by (simp add: window_inv_def)
  have seen: "unat seq \<in> snd (window_abs s) \<longleftrightarrow> unat ?h - unat seq < WindowSize \<and> getBit (?h - seq) (recvBitmap s)"
    using le by (auto simp: window_abs_def getBit_iff diff)
  show "fst (AcceptSeqNum seq s) \<longleftrightarrow> fst (spec_accept (unat seq) (window_abs s))"
    using hi le seen by (auto simp: AcceptSeqNum_def Let_def spec_accept_def window_abs_def diff)
  show "window_abs (snd (AcceptSeqNum seq s)) = snd (spec_accept (unat seq) (window_abs s))"
  proof (cases "WindowSize \<le> unat (?h - seq) \<or> getBit (?h - seq) (recvBitmap s)")
    case True
    then show ?thesis using hi le seen
      by (auto simp: AcceptSeqNum_def Let_def spec_accept_def window_abs_def diff)
  next
    case False
    have "bm_bit (setBit (?h - seq) (recvBitmap s)) (unat ?h - x) \<longleftrightarrow>
        bm_bit (recvBitmap s) (unat ?h - x) \<or> x = unat seq" if "x \<le> unat ?h" "unat ?h - x < WindowSize" for x
      using that le setBit_bit [OF in_window_word [OF that(2) len], of "?h - seq"] by (auto simp: diff)
    then show ?thesis using False hi le seen
      by (auto simp: AcceptSeqNum_def Let_def spec_accept_def window_abs_def diff)
  qed
qed

lemma window_refines:
  assumes "window_inv s"
  shows "fst (AcceptSeqNum seq s) \<longleftrightarrow> fst (spec_accept (unat seq) (window_abs s))"
    and "window_abs (snd (AcceptSeqNum seq s)) = snd (spec_accept (unat seq) (window_abs s))"
proof -
  have "fst (spec_accept (unat seq) (window_abs s))" if "recvHighest s < seq"
    using that by (simp add: spec_accept_def window_abs_def word_less_nat_alt)
  then show "fst (AcceptSeqNum seq s) \<longleftrightarrow> fst (spec_accept (unat seq) (window_abs s))"
    using window_refines_advance(1) [OF assms] window_refines_behind(1) [OF assms] by blast
  show "window_abs (snd (AcceptSeqNum seq s)) = snd (spec_accept (unat seq) (window_abs s))"
    using window_refines_advance(2) [OF assms] window_refines_behind(2) [OF assms] by blast
qed

subsection \<open>The interface: a filter that passes each number at most once\<close>

text \<open>
  What the readers of a session rely on: a filter with a set of blocked numbers, which a
  number enters when it is accepted and never leaves.
\<close>

locale replay_guard =
  fixes accept :: "'n \<Rightarrow> 's \<Rightarrow> bool \<times> 's"
    and inv :: "'s \<Rightarrow> bool"
    and blocked :: "'s \<Rightarrow> 'n set"
  assumes inv_accept: "inv s \<Longrightarrow> inv (snd (accept n s))"
    and refuses: "inv s \<Longrightarrow> fst (accept n s) \<longleftrightarrow> n \<notin> blocked s"
    and blocks: "\<lbrakk>inv s; fst (accept n s)\<rbrakk> \<Longrightarrow> n \<in> blocked (snd (accept n s))"
    and keeps: "\<lbrakk>inv s; m \<in> blocked s\<rbrakk> \<Longrightarrow> m \<in> blocked (snd (accept n s))"
begin

fun passed :: "'s \<Rightarrow> 'n list \<Rightarrow> 'n list" where
  "passed s [] = []"
| "passed s (n # ns) = (if fst (accept n s) then [n] else []) @ passed (snd (accept n s)) ns"

lemma passed_avoids_blocked: "\<lbrakk>inv s; m \<in> blocked s\<rbrakk> \<Longrightarrow> m \<notin> set (passed s ns)"
  by (induction ns arbitrary: s) (auto simp: inv_accept keeps refuses)

lemma passed_distinct: "inv s \<Longrightarrow> distinct (passed s ns)"
  by (induction ns arbitrary: s) (auto simp: inv_accept blocks passed_avoids_blocked)

end

definition window_blocked :: "window \<Rightarrow> u32 set" where
  "window_blocked s = {n. \<not> fst (AcceptSeqNum n s)}"

lemma spec_accept_blocked:
  "fst (spec_accept n st) \<longleftrightarrow> \<not> (n \<le> fst st \<and> (WindowSize \<le> fst st - n \<or> n \<in> snd st))"
  by (auto simp: spec_accept_def split: prod.splits)

lemma spec_blocked_keeps:
  assumes "m \<le> hi" "WindowSize \<le> hi - m \<or> m \<in> seen"
  shows "\<not> fst (spec_accept m (snd (spec_accept n (hi, seen))))"
  using assms by (auto simp: spec_accept_def)

interpretation win: replay_guard AcceptSeqNum window_inv window_blocked
proof unfold_locales
  fix s :: window and m n :: u32
  assume inv: "window_inv s"
  show inv': "window_inv (snd (AcceptSeqNum n s))" using inv by (rule window_inv_AcceptSeqNum)
  show "fst (AcceptSeqNum n s) = (n \<notin> window_blocked s)" by (simp add: window_blocked_def)
  note step = window_refines [OF inv, of n]
  {
    assume "fst (AcceptSeqNum n s)"
    then have "\<not> fst (spec_accept (unat n) (snd (spec_accept (unat n) (window_abs s))))"
      using step by (auto simp: spec_accept_def split: prod.splits if_splits)
    then show "n \<in> window_blocked (snd (AcceptSeqNum n s))"
      using window_refines(1) [OF inv', of n] step by (simp add: window_blocked_def)
  }
  {
    assume "m \<in> window_blocked s"
    then have "\<not> fst (spec_accept (unat m) (window_abs s))"
      using window_refines(1) [OF inv, of m] by (simp add: window_blocked_def)
    then have "\<not> fst (spec_accept (unat m) (snd (spec_accept (unat n) (window_abs s))))"
      using spec_blocked_keeps [of "unat m" "fst (window_abs s)" "snd (window_abs s)" "unat n"]
      by (auto simp: spec_accept_blocked [of "unat m" "window_abs s"])
    then show "m \<in> window_blocked (snd (AcceptSeqNum n s))"
      using window_refines(1) [OF inv', of m] step by (simp add: window_blocked_def)
  }
qed

subsection \<open>Runs of the window\<close>

fun window_run :: "window \<Rightarrow> u32 list \<Rightarrow> window \<times> u32 list" where
  "window_run s [] = (s, [])"
| "window_run s (n # ns) =
     (case AcceptSeqNum n s of (ok, s') \<Rightarrow>
        case window_run s' ns of (t, acc) \<Rightarrow> (t, if ok then n # acc else acc))"

lemma window_run_passed: "snd (window_run s ns) = win.passed s ns"
  by (induction ns arbitrary: s) (auto split: prod.splits simp: prod_eq_iff)

lemma window_inv_run: "window_inv s \<Longrightarrow> window_inv (fst (window_run s ns))"
  by (induction ns arbitrary: s)
    (auto split: prod.splits dest: window_inv_AcceptSeqNum simp: prod_eq_iff)

text \<open>The specification state of a run is a function of the set of numbers accepted so far.\<close>

definition spec_of :: "nat set \<Rightarrow> window_spec" where
  "spec_of A = (Max (insert 0 A), {x \<in> A. Max (insert 0 A) - x < WindowSize})"

lemma Max_insert_0:
  fixes n :: nat
  assumes "finite A" shows "Max (insert 0 (insert n A)) = max n (Max (insert 0 A))"
proof -
  have "Max (insert n (insert 0 A)) = max n (Max (insert 0 A))"
    using assms by (intro Max_insert) auto
  then show ?thesis by (simp only: insert_commute)
qed

lemma spec_accept_spec_of:
  assumes "finite A"
  shows "fst (spec_accept n (spec_of A)) \<longleftrightarrow> n \<notin> A \<and> (\<forall>a \<in> A. a < n + WindowSize)"
    and "snd (spec_accept n (spec_of A)) =
      (if fst (spec_accept n (spec_of A)) then spec_of (insert n A) else spec_of A)"
proof -
  let ?hi = "Max (insert 0 A)"
  have W: "0 < WindowSize" by (simp add: WindowSize_def)
  have le: "a \<le> ?hi" if "a \<in> A" for a using that assms by simp
  have hi: "?hi = 0 \<or> ?hi \<in> A" using Max_in [of "insert 0 A"] assms by auto
  have bound: "(\<forall>a \<in> A. a < n + WindowSize) \<longleftrightarrow> ?hi < n + WindowSize"
    using hi le W by fastforce
  show fst: "fst (spec_accept n (spec_of A)) \<longleftrightarrow> n \<notin> A \<and> (\<forall>a \<in> A. a < n + WindowSize)"
    unfolding bound using le [of n] W by (auto simp: spec_accept_def spec_of_def)
  show "snd (spec_accept n (spec_of A)) =
      (if fst (spec_accept n (spec_of A)) then spec_of (insert n A) else spec_of A)"
  proof (cases "?hi < n")
    case True
    then have max: "max n ?hi = n" by simp
    have "x \<in> A \<and> n - x < WindowSize \<longrightarrow> ?hi - x < WindowSize" for x using True by linarith
    then show ?thesis
      using True W unfolding spec_of_def spec_accept_def Max_insert_0 [OF assms] max by auto
  next
    case False
    then have "max n ?hi = ?hi" by simp
    with False W show ?thesis unfolding spec_of_def spec_accept_def Max_insert_0 [OF assms] by auto
  qed
qed

lemma window_run_spec:
  assumes "window_inv s" "window_abs s = spec_of A" "finite A"
  shows "window_abs (fst (window_run s ns)) = spec_of (A \<union> unat ` set (snd (window_run s ns)))"
  using assms
proof (induction ns arbitrary: s A)
  case Nil
  then show ?case by simp
next
  case (Cons n ns)
  obtain ok s' where step: "AcceptSeqNum n s = (ok, s')" by (cases "AcceptSeqNum n s")
  define A' where "A' = (if ok then insert (unat n) A else A)"
  have inv': "window_inv s'" using window_inv_AcceptSeqNum [OF Cons.prems(1), of n] step by simp
  have "window_abs s' = spec_of A'"
    using window_refines [OF Cons.prems(1), of n] step Cons.prems(2)
      spec_accept_spec_of(2) [OF Cons.prems(3), of "unat n"] by (auto simp: A'_def)
  moreover have "finite A'" using Cons.prems(3) by (simp add: A'_def)
  ultimately have "window_abs (fst (window_run s' ns)) = spec_of (A' \<union> unat ` set (snd (window_run s' ns)))"
    using Cons.IH inv' by blast
  then show ?case by (auto simp: step A'_def split: prod.splits)
qed

lemma spec_of_empty: "spec_of {} = (0, {})"
  by (simp add: spec_of_def)

text \<open>After any run from a fresh window, acceptance is decided by the accepted numbers alone.\<close>

lemma window_run_accepts_iff:
  "fst (AcceptSeqNum seq (fst (window_run new_window ns))) \<longleftrightarrow>
     seq \<notin> set (snd (window_run new_window ns)) \<and>
     (\<forall>a \<in> set (snd (window_run new_window ns)). unat a < unat seq + WindowSize)"
proof -
  let ?s = "fst (window_run new_window ns)" and ?A = "unat ` set (snd (window_run new_window ns))"
  have inv: "window_inv ?s" by (rule window_inv_run [OF window_inv_new])
  have "window_abs ?s = spec_of ?A"
    using window_run_spec [OF window_inv_new, of "{}" ns] by (simp add: window_abs_new spec_of_empty)
  then have "fst (AcceptSeqNum seq ?s) \<longleftrightarrow> unat seq \<notin> ?A \<and> (\<forall>a \<in> ?A. a < unat seq + WindowSize)"
    using window_refines(1) [OF inv, of seq] spec_accept_spec_of(1) [of ?A "unat seq"] by simp
  then show ?thesis by (auto simp flip: word_unat_eq_iff)
qed

subsection \<open>Properties\<close>

text \<open>C1. Over any sequence of arrivals on a fresh session, no sequence number is accepted twice.\<close>

theorem no_seqnum_accepted_twice: "distinct (snd (window_run new_window ns))"
  using win.passed_distinct [OF window_inv_new] by (simp add: window_run_passed)

text \<open>After any sequence of arrivals, a sequence number is accepted exactly when it has not
  been accepted before and no accepted number is 16384 or more ahead of it: in-window
  reordering is never mistaken for replay.\<close>

theorem AcceptSeqNum_exact:
  "fst (AcceptSeqNum seq (fst (window_run new_window ns))) \<longleftrightarrow>
     seq \<notin> set (snd (window_run new_window ns)) \<and>
     list_all (\<lambda>a. unat a < unat seq + WindowSize) (snd (window_run new_window ns))"
  using window_run_accepts_iff [of seq ns] by (simp add: list_all_iff)

text \<open>C39. The bitmap implementation, with its word-by-word shifts, refines the set of recently
  accepted numbers.\<close>

theorem AcceptSeqNum_refines:
  assumes "window_inv s"
  shows "window_inv (snd (AcceptSeqNum seq s)) \<and>
     (fst (AcceptSeqNum seq s), window_abs (snd (AcceptSeqNum seq s))) = spec_accept (unat seq) (window_abs s)"
  using window_refines [OF assms, of seq] window_inv_AcceptSeqNum [OF assms, of seq] by (simp add: prod_eq_iff)

theorem AcceptSeqNum_refines_witness:
  "(fst (AcceptSeqNum 70 new_window), window_abs (snd (AcceptSeqNum 70 new_window))) = (True, 70, {70})"
  using AcceptSeqNum_refines [OF window_inv_new, of 70]
  by (simp add: window_abs_new spec_accept_def WindowSize_def)

end
