(* ===== verification/Session.thy ===== *)
theory Session
  imports Frames Replay_Window
begin

section \<open>Sessions: keys, sequence numbers and the crypto entry points\<close>

text \<open>
  Models \<open>src/core/session.go\<close> up to the session manager: the session record, its two
  constructors, sequence numbers, \<open>EncryptChunk\<close> and \<open>DecryptChunkSafe\<close> with the cached
  ciphers and the random-nonce fallback, rekeying with its grace key, expiry and
  destruction.  Every operation that the source runs under \<open>s.mu\<close> (or as one atomic) is one
  definition; \<open>now\<close> is what \<open>time.Now()\<close> returned, in nanoseconds.  Calls of the optional
  statistics hooks are returned as a list of events.

  Shown here: once key material is zeroed, no entry point encrypts, decrypts or revives the
  session; each encryption consumes one fresh counter nonce; paired sessions understand each
  other.
\<close>

record sendEpoch =
  ep_gcm :: bytes
  ep_nonce :: u64

record session =
  ID :: u32
  SendKey :: bytes
  RecvKey :: bytes
  ProtoVersion :: byte
  sendSeq :: u32
  recvWindow :: window          \<comment> \<open>recvHighest, recvBitmap, windowResets\<close>
  CreatedAt :: instant
  AttachedAt :: instant
  DetachedAt :: instant
  sendEpochPtr :: "sendEpoch option"
  recvGCM :: "bytes option"
  oldRecvGCM :: "bytes option"
  oldRecvKey :: "bytes option"
  oldKeyExpiry :: instant
  lastRekey :: instant
  lastActivity :: instant
  MigrateNonce :: bytes
  destroyed :: bool

datatype session_error = ErrSessionDestroyed | CryptoError chunk_error | ErrDecryptFailed

datatype stat_event = OnEncrypt | OnDecrypt | OnDecryptFail

fun lift_error :: "(chunk_error, 'a) outcome \<Rightarrow> (session_error, 'a) outcome" where
  "lift_error (Ok x) = Ok x"
| "lift_error (Err e) = Err (CryptoError e)"
| "lift_error Panic = Panic"

definition Hour :: int where "Hour = 3600 * 1000000000"
definition rekey_grace :: int where "rekey_grace = 10 * 1000000000"

subsection \<open>Lifecycle\<close>

definition ZeroBytes :: "bytes \<Rightarrow> bytes" where
  "ZeroBytes b = zeros (length b)"

definition zeroKeyMaterialLocked :: "session \<Rightarrow> session" where
  "zeroKeyMaterialLocked s =
     s\<lparr>SendKey := ZeroBytes (SendKey s),
       RecvKey := ZeroBytes (RecvKey s),
       oldRecvKey := None,
       sendEpochPtr := None,
       recvGCM := None,
       oldRecvGCM := None,
       destroyed := True\<rparr>"

definition IsDestroyed :: "session \<Rightarrow> bool" where
  "IsDestroyed s = destroyed s"

definition NewSession :: "instant \<Rightarrow> bytes \<Rightarrow> u32 \<Rightarrow> bytes \<Rightarrow> bytes \<Rightarrow> session" where
  "NewSession now nonce sid sendKey recvKey =
     \<lparr>ID = sid, SendKey = sendKey, RecvKey = recvKey, ProtoVersion = 0, sendSeq = 0,
      recvWindow = new_window, CreatedAt = now, AttachedAt = 0, DetachedAt = 0,
      sendEpochPtr = None, recvGCM = None, oldRecvGCM = None, oldRecvKey = None,
      oldKeyExpiry = 0, lastRekey = now, lastActivity = now, MigrateNonce = nonce,
      destroyed = False\<rparr>"

definition InitSendEpoch :: "session \<Rightarrow> (session_error, unit) outcome \<times> session" where
  "InitSendEpoch s =
     (if destroyed s then (Err ErrSessionDestroyed, s)
      else if sendEpochPtr s \<noteq> None then (Ok (), s)
      else case newGCM (SendKey s) of
             Ok k \<Rightarrow> (Ok (), s\<lparr>sendEpochPtr := Some \<lparr>ep_gcm = k, ep_nonce = 0\<rparr>\<rparr>)
           | Err e \<Rightarrow> (Err (CryptoError e), s)
           | Panic \<Rightarrow> (Panic, s))"

definition NextSeqNum :: "session \<Rightarrow> u32 \<times> session" where
  "NextSeqNum s = (sendSeq s, s\<lparr>sendSeq := sendSeq s + 1\<rparr>)"

text \<open>\<open>AcceptSeqNum\<close> on the session: the window of \<open>Replay_Window\<close> plus the activity stamp.\<close>

definition SessionAcceptSeqNum :: "instant \<Rightarrow> u32 \<Rightarrow> session \<Rightarrow> bool \<times> session" where
  "SessionAcceptSeqNum now seq s =
     (let (ok, w) = AcceptSeqNum seq (recvWindow s)
      in (ok, s\<lparr>lastActivity := now, recvWindow := w\<rparr>))"

definition IsExpired :: "instant \<Rightarrow> int \<Rightarrow> session \<Rightarrow> bool" where
  "IsExpired now timeout s \<longleftrightarrow> now - lastActivity s > timeout"

definition isExpiredAndDestroy :: "instant \<Rightarrow> int \<Rightarrow> session \<Rightarrow> bool \<times> session" where
  "isExpiredAndDestroy now timeout s =
     (if now - lastActivity s \<le> timeout then (False, s) else (True, zeroKeyMaterialLocked s))"

definition Destroy :: "session \<Rightarrow> session" where
  "Destroy s = zeroKeyMaterialLocked s"

definition Rekey :: "instant \<Rightarrow> bytes \<Rightarrow> bytes \<Rightarrow> session \<Rightarrow> (session_error, unit) outcome \<times> session" where
  "Rekey now newSendKey newRecvKey s =
     (case newGCM newSendKey of
        Err e \<Rightarrow> (Err (CryptoError e), s) | Panic \<Rightarrow> (Panic, s)
      | Ok sk \<Rightarrow>
        (case newGCM newRecvKey of
           Err e \<Rightarrow> (Err (CryptoError e), s) | Panic \<Rightarrow> (Panic, s)
         | Ok rk \<Rightarrow>
           if destroyed s then (Err ErrSessionDestroyed, s)
           else (Ok (), s\<lparr>oldRecvKey := Some (RecvKey s),
                          oldRecvGCM := recvGCM s,
                          oldKeyExpiry := now + rekey_grace,
                          SendKey := newSendKey,
                          RecvKey := newRecvKey,
                          sendEpochPtr := Some \<lparr>ep_gcm = sk, ep_nonce = 0\<rparr>,
                          recvGCM := Some rk,
                          lastRekey := now\<rparr>)))"

definition OldRecvKey :: "instant \<Rightarrow> session \<Rightarrow> bytes option \<times> session" where
  "OldRecvKey now s =
     (case oldRecvKey s of
        None \<Rightarrow> (None, s)
      | Some k \<Rightarrow> if now > oldKeyExpiry s
                  then (None, s\<lparr>oldRecvKey := None, oldRecvGCM := None\<rparr>)
                  else (Some k, s))"

definition RekeyNeeded :: "instant \<Rightarrow> session \<Rightarrow> bool" where
  "RekeyNeeded now s \<longleftrightarrow> now - lastRekey s > Hour \<or> sendSeq s > 0xFF000000"

definition Keys :: "session \<Rightarrow> bytes \<times> bytes" where
  "Keys s = (SendKey s, RecvKey s)"

definition LastActivity :: "session \<Rightarrow> instant" where
  "LastActivity s = lastActivity s"

subsection \<open>Encryption and decryption\<close>

definition EncryptChunk ::
  "gcm \<Rightarrow> bufpool \<Rightarrow> bytes option \<Rightarrow> chunk \<Rightarrow> session \<Rightarrow>
   (session_error, bytes \<times> bufpool) outcome \<times> session \<times> stat_event list" where
  "EncryptChunk G P rnd c s =
     (if destroyed s then (Err ErrSessionDestroyed, s, [])
      else case sendEpochPtr s of
        Some ep \<Rightarrow>
          (lift_error (EncryptWith G P c (ep_gcm ep) (ep_nonce ep)),
           s\<lparr>sendEpochPtr := Some (ep\<lparr>ep_nonce := ep_nonce ep + 1\<rparr>)\<rparr>, [OnEncrypt])
      | None \<Rightarrow>
          (lift_error (bind_outcome (Encrypt G rnd c (SendKey s)) (\<lambda>b. Ok (b, P))), s, [OnEncrypt]))"

text \<open>
  \<open>DecryptChunkSafe\<close>: the cached cipher, then the old cipher, then the old key while its
  grace period runs; without a cached cipher, the raw keys.
\<close>

definition grace_key :: "instant \<Rightarrow> session \<Rightarrow> bytes option" where
  "grace_key now s =
     (case oldRecvKey s of None \<Rightarrow> None | Some k \<Rightarrow> if now < oldKeyExpiry s then Some k else None)"

definition try_old_key ::
  "gcm \<Rightarrow> bytes \<Rightarrow> bytes option \<Rightarrow> (chunk_error, chunk) outcome" where
  "try_old_key G data oldKey =
     (case oldKey of None \<Rightarrow> Err AuthError | Some k \<Rightarrow> DecryptChunk G data k)"

definition decrypt_cached ::
  "gcm \<Rightarrow> bytes \<Rightarrow> bytes \<Rightarrow> bytes option \<Rightarrow> bytes option \<Rightarrow> chunk option" where
  "decrypt_cached G data gcm oldGCM oldKey =
     (case DecryptWith G data gcm of Ok c \<Rightarrow> Some c
      | _ \<Rightarrow> (case (case oldGCM of None \<Rightarrow> Err AuthError | Some og \<Rightarrow> DecryptWith G data og) of
                Ok c \<Rightarrow> Some c
              | _ \<Rightarrow> (case try_old_key G data oldKey of Ok c \<Rightarrow> Some c | _ \<Rightarrow> None)))"

definition DecryptChunkSafe ::
  "gcm \<Rightarrow> instant \<Rightarrow> bytes \<Rightarrow> session \<Rightarrow>
   (session_error, chunk) outcome \<times> session \<times> stat_event list" where
  "DecryptChunkSafe G now data s =
     (if destroyed s then (Err ErrSessionDestroyed, s, [])
      else case recvGCM s of
        Some gcm \<Rightarrow>
          (case decrypt_cached G data gcm (oldRecvGCM s) (grace_key now s) of
             Some c \<Rightarrow> (Ok c, s\<lparr>lastActivity := now\<rparr>, [OnDecrypt])
           | None \<Rightarrow> (Err ErrDecryptFailed, s, [OnDecrypt, OnDecryptFail]))
      | None \<Rightarrow>
          (case DecryptChunk G data (RecvKey s) of
             Ok c \<Rightarrow> (Ok c, s\<lparr>lastActivity := now\<rparr>, [OnDecrypt])
           | err \<Rightarrow>
             (case grace_key now s of
                None \<Rightarrow> (lift_error err, s, [OnDecrypt])
              | Some k \<Rightarrow>
                (case DecryptChunk G data k of
                   Ok c \<Rightarrow> (Ok c, s\<lparr>lastActivity := now\<rparr>, [OnDecrypt])
                 | err2 \<Rightarrow> (lift_error err2, s, [OnDecrypt])))))"

subsection \<open>Destruction is final\<close>

text \<open>Every operation of a session, as one transition function over a sum of calls.\<close>

datatype session_op =
    OpInitSendEpoch
  | OpNextSeqNum
  | OpAcceptSeqNum instant u32
  | OpEncrypt "bytes option" chunk
  | OpDecrypt instant bytes
  | OpRekey instant bytes bytes
  | OpOldRecvKey instant
  | OpDestroy
  | OpExpire instant int
  | OpAttach instant
  | OpDetach instant

fun session_step :: "gcm \<Rightarrow> bufpool \<Rightarrow> session_op \<Rightarrow> session \<Rightarrow> session" where
  "session_step G P OpInitSendEpoch s = snd (InitSendEpoch s)"
| "session_step G P OpNextSeqNum s = snd (NextSeqNum s)"
| "session_step G P (OpAcceptSeqNum now seq) s = snd (SessionAcceptSeqNum now seq s)"
| "session_step G P (OpEncrypt rnd c) s = fst (snd (EncryptChunk G P rnd c s))"
| "session_step G P (OpDecrypt now data) s = fst (snd (DecryptChunkSafe G now data s))"
| "session_step G P (OpRekey now sk rk) s = snd (Rekey now sk rk s)"
| "session_step G P (OpOldRecvKey now) s = snd (OldRecvKey now s)"
| "session_step G P OpDestroy s = Destroy s"
| "session_step G P (OpExpire now timeout) s = snd (isExpiredAndDestroy now timeout s)"
| "session_step G P (OpAttach now) s = s\<lparr>AttachedAt := now, DetachedAt := 0\<rparr>"
| "session_step G P (OpDetach now) s = s\<lparr>DetachedAt := now\<rparr>"

definition session_run :: "gcm \<Rightarrow> bufpool \<Rightarrow> session_op list \<Rightarrow> session \<Rightarrow> session" where
  "session_run G P ops s = fold (session_step G P) ops s"

lemmas session_op_defs = InitSendEpoch_def NextSeqNum_def SessionAcceptSeqNum_def EncryptChunk_def
  DecryptChunkSafe_def Rekey_def OldRecvKey_def Destroy_def isExpiredAndDestroy_def
  zeroKeyMaterialLocked_def

lemmas session_op_splits = option.splits outcome.splits prod.splits if_splits

text \<open>A destroyed session holds no cipher, only zeroed keys.\<close>

definition scrubbed :: "session \<Rightarrow> bool" where
  "scrubbed s \<longleftrightarrow> destroyed s \<and> sendEpochPtr s = None \<and> recvGCM s = None \<and> oldRecvGCM s = None \<and>
     oldRecvKey s = None \<and> SendKey s = zeros (length (SendKey s)) \<and> RecvKey s = zeros (length (RecvKey s))"

lemma scrubbed_Destroy: "scrubbed (Destroy s)"
  by (simp add: scrubbed_def Destroy_def zeroKeyMaterialLocked_def ZeroBytes_def)

lemma destroyed_iff_scrubbed_step:
  assumes "scrubbed s" shows "scrubbed (session_step G P op s)"
  using assms by (cases op) (auto simp: session_op_defs ZeroBytes_def scrubbed_def split: session_op_splits)

lemma scrubbed_run: "scrubbed s \<Longrightarrow> scrubbed (session_run G P ops s)"
  unfolding session_run_def
  by (induction ops arbitrary: s) (auto simp: destroyed_iff_scrubbed_step)

lemma session_run_Cons [simp]: "session_run G P (op # ops) s = session_run G P ops (session_step G P op s)"
  by (simp add: session_run_def)

lemma session_run_Nil [simp]: "session_run G P [] s = s"
  by (simp add: session_run_def)

lemma session_run_append: "session_run G P (xs @ ys) s = session_run G P ys (session_run G P xs s)"
  by (simp add: session_run_def)

lemma ID_session_step [simp]: "ID (session_step G P op s) = ID s"
  by (cases op) (auto simp: session_op_defs split: session_op_splits)

lemma scrubbed_refuses:
  assumes "scrubbed s"
  shows "fst (EncryptChunk G P rnd c s) = Err ErrSessionDestroyed"
    and "fst (DecryptChunkSafe G now data s) = Err ErrSessionDestroyed"
    and "fst (InitSendEpoch s) = Err ErrSessionDestroyed"
    and "fst (Rekey now sk rk s) \<noteq> Ok ()"
  using assms by (auto simp: scrubbed_def session_op_defs split: outcome.splits)

subsection \<open>Paired sessions\<close>

text \<open>
  A sender with an initialised epoch and a receiver whose current receive cipher is the
  sender's send cipher.
\<close>

definition paired :: "session \<Rightarrow> session \<Rightarrow> bool" where
  "paired a b \<longleftrightarrow> \<not> destroyed a \<and> \<not> destroyed b \<and>
     (\<exists>ep. sendEpochPtr a = Some ep \<and> recvGCM b = Some (ep_gcm ep))"

lemma EncryptChunk_epoch:
  assumes "pool_ok P" "\<not> destroyed s" "sendEpochPtr s = Some ep"
  shows "\<exists>P'. EncryptChunk G P rnd c s =
     (Ok (counter_nonce (ep_nonce ep) @
          gcm_seal G (ep_gcm ep) (counter_nonce (ep_nonce ep)) (marshal c) [], P'),
      s\<lparr>sendEpochPtr := Some (ep\<lparr>ep_nonce := ep_nonce ep + 1\<rparr>)\<rparr>, [OnEncrypt]) \<and> pool_ok P'"
proof -
  obtain P' where "EncryptWith G P c (ep_gcm ep) (ep_nonce ep) =
      Ok (counter_nonce (ep_nonce ep) @
          gcm_seal G (ep_gcm ep) (counter_nonce (ep_nonce ep)) (marshal c) [], P')" "pool_ok P'"
    using EncryptWithAAD_wire [OF assms(1)] unfolding EncryptWith_def by metis
  with assms(2,3) show ?thesis by (simp add: EncryptChunk_def)
qed

lemma DecryptWith_sealed:
  "\<lbrakk>gcm_ok G; length nonce = NonceSize\<rbrakk> \<Longrightarrow>
     DecryptWith G (nonce @ gcm_seal G k nonce (marshal c) []) k = Ok c"
  by (simp add: DecryptWith_def DecryptWithAAD_sealed)

lemma DecryptChunkSafe_current:
  assumes "gcm_ok G" "\<not> destroyed s" "recvGCM s = Some k" "length nonce = NonceSize"
  shows "DecryptChunkSafe G now (nonce @ gcm_seal G k nonce (marshal c) []) s =
     (Ok c, s\<lparr>lastActivity := now\<rparr>, [OnDecrypt])"
  using assms by (simp add: DecryptChunkSafe_def decrypt_cached_def DecryptWith_sealed)

subsection \<open>What decrypts was sealed\<close>

lemma DecryptChunk_only_sealed:
  assumes "gcm_ok G" "DecryptChunk G data k = Ok c"
  shows "\<exists>pt. drop NonceSize data = gcm_seal G k (take NonceSize data) pt [] \<and> unmarshal pt = Ok c"
  using assms
  by (auto simp: DecryptChunk_def newGCM_def split: if_splits option.splits dest: gcm_okD(2))

text \<open>The keys a session may decrypt with at a given time.\<close>

definition receive_keys :: "instant \<Rightarrow> session \<Rightarrow> bytes set" where
  "receive_keys now s =
     (case recvGCM s of Some k \<Rightarrow> {k} \<union> set_option (oldRecvGCM s) | None \<Rightarrow> {RecvKey s}) \<union> set_option (grace_key now s)"

lemma decrypt_cached_sealed:
  assumes "gcm_ok G" "decrypt_cached G data k ok gk = Some c"
  shows "\<exists>k' \<in> {k} \<union> set_option ok \<union> set_option gk. \<exists>pt. drop NonceSize data = gcm_seal G k' (take NonceSize data) pt [] \<and> unmarshal pt = Ok c"
  using assms(2) DecryptWithAAD_only_sealed [OF assms(1)] DecryptChunk_only_sealed [OF assms(1)]
  by (fastforce simp: decrypt_cached_def DecryptWith_def try_old_key_def split: outcome.splits option.splits)

subsection \<open>Properties\<close>

text \<open>Destruction is final: after \<open>Destroy\<close>, whatever sequence of operations follows, the session
  stays scrubbed and refuses to encrypt, to decrypt, to start an epoch and to rekey.\<close>

theorem destroyed_forever:
  "scrubbed (session_run G P ops (Destroy s)) \<and>
   fst (EncryptChunk G P rnd c (session_run G P ops (Destroy s))) = Err ErrSessionDestroyed \<and>
   fst (DecryptChunkSafe G now data (session_run G P ops (Destroy s))) = Err ErrSessionDestroyed \<and>
   fst (InitSendEpoch (session_run G P ops (Destroy s))) = Err ErrSessionDestroyed \<and>
   fst (Rekey now sk rk (session_run G P ops (Destroy s))) \<noteq> Ok ()"
proof -
  have "scrubbed (session_run G P ops (Destroy s))" by (rule scrubbed_run [OF scrubbed_Destroy])
  then show ?thesis using scrubbed_refuses by blast
qed


definition demo_sender :: session where
  "demo_sender = (NewSession 0 [] 7 (replicate 32 1) (replicate 32 2))
     \<lparr>sendEpochPtr := Some \<lparr>ep_gcm = replicate 32 1, ep_nonce = 0\<rparr>, recvGCM := Some (replicate 32 2)\<rparr>"

definition demo_receiver :: session where
  "demo_receiver = (NewSession 0 [] 7 (replicate 32 2) (replicate 32 1))
     \<lparr>sendEpochPtr := Some \<lparr>ep_gcm = replicate 32 2, ep_nonce = 0\<rparr>, recvGCM := Some (replicate 32 1)\<rparr>"

lemma paired_demo: "paired demo_sender demo_receiver"
  by (simp add: paired_def demo_sender_def demo_receiver_def NewSession_def)


text \<open>Authenticity: whatever a session decrypts successfully is a chunk somebody sealed under one
  of the session's receive keys, and the chunk returned is the one that was sealed.\<close>

theorem decrypted_was_sealed:
  assumes "gcm_ok G" "fst (DecryptChunkSafe G now data s) = Ok c"
  shows "\<exists>k \<in> receive_keys now s. \<exists>pt. drop NonceSize data = gcm_seal G k (take NonceSize data) pt [] \<and> unmarshal pt = Ok c"
proof (cases "recvGCM s")
  case (Some k)
  with assms(2) have "decrypt_cached G data k (oldRecvGCM s) (grace_key now s) = Some c"
    by (auto simp: DecryptChunkSafe_def split: if_splits option.splits)
  from decrypt_cached_sealed [OF assms(1) this] Some show ?thesis by (auto simp: receive_keys_def)
next
  case None
  with assms(2) DecryptChunk_only_sealed [OF assms(1), of data _ c] show ?thesis
    by (fastforce simp: DecryptChunkSafe_def receive_keys_def split: if_splits option.splits outcome.splits)
qed

theorem decrypted_was_sealed_witness:
  "\<exists>k \<in> receive_keys 5 demo_receiver. \<exists>pt. drop NonceSize (zeros 12 @ marshal (NewKeepaliveChunk 7 0) @ key_tag (replicate 32 1)) =
     gcm_seal tag_gcm k (take NonceSize (zeros 12 @ marshal (NewKeepaliveChunk 7 0) @ key_tag (replicate 32 1))) pt [] \<and>
     unmarshal pt = Ok (NewKeepaliveChunk 7 0)"
proof (rule decrypted_was_sealed [OF gcm_ok_tag_gcm])
  have "DecryptChunkSafe tag_gcm 5 (zeros 12 @ gcm_seal tag_gcm (replicate 32 1) (zeros 12) (marshal (NewKeepaliveChunk 7 0)) []) demo_receiver =
      (Ok (NewKeepaliveChunk 7 0), demo_receiver\<lparr>lastActivity := 5\<rparr>, [OnDecrypt])"
    by (rule DecryptChunkSafe_current [OF gcm_ok_tag_gcm]) (simp_all add: demo_receiver_def NewSession_def NonceSize_def)
  then show "fst (DecryptChunkSafe tag_gcm 5 (zeros 12 @ marshal (NewKeepaliveChunk 7 0) @ key_tag (replicate 32 1)) demo_receiver) =
      Ok (NewKeepaliveChunk 7 0)"
    by (simp add: tag_gcm_def)
qed

text \<open>The grace period of a rekey does not end the old key: a frame sealed under the receive cipher
  that was current before the rekey is still decrypted at every later time, because the cached
  old cipher is tried without looking at the expiry.\<close>

theorem old_cipher_outlives_grace:
  assumes "gcm_ok G" "recvGCM s = Some old" "Rekey t newSend newRecv s = (Ok (), s')"
    and "gcm_open G newRecv nonce (gcm_seal G old nonce (marshal c) []) [] = None" "length nonce = NonceSize"
  shows "fst (DecryptChunkSafe G now (nonce @ gcm_seal G old nonce (marshal c) []) s') = Ok c"
proof -
  have s': "\<not> destroyed s'" "oldRecvGCM s' = Some old" "recvGCM s' = Some newRecv"
    using assms(2,3) by (auto simp: Rekey_def newGCM_def split: if_splits)
  have "DecryptWith G (nonce @ gcm_seal G old nonce (marshal c) []) newRecv = Err AuthError"
    using assms(1,4,5) by (simp add: DecryptWith_def DecryptWithAAD_def gcm_okD MinChunk_def)
  with s' assms(1,5) show ?thesis by (simp add: DecryptChunkSafe_def decrypt_cached_def DecryptWith_sealed)
qed

theorem old_cipher_outlives_grace_witness:
  "fst (DecryptChunkSafe tag_gcm (10 ^ 18) (zeros 12 @ gcm_seal tag_gcm (replicate 32 1) (zeros 12) (marshal (NewKeepaliveChunk 7 0)) [])
     (snd (Rekey 0 (replicate 32 3) (replicate 32 4) demo_receiver))) = Ok (NewKeepaliveChunk 7 0)"
proof (rule old_cipher_outlives_grace [OF gcm_ok_tag_gcm])
  show "recvGCM demo_receiver = Some (replicate 32 1)" by (simp add: demo_receiver_def NewSession_def)
  show "Rekey 0 (replicate 32 3) (replicate 32 4) demo_receiver = (Ok (), snd (Rekey 0 (replicate 32 3) (replicate 32 4) demo_receiver))"
    by (simp add: Rekey_def newGCM_def demo_receiver_def NewSession_def)
  show "gcm_open tag_gcm (replicate 32 4) (zeros 12) (gcm_seal tag_gcm (replicate 32 1) (zeros 12) (marshal (NewKeepaliveChunk 7 0)) []) [] = None"
    by (simp add: tag_gcm_def key_tag_def min_def)
qed (simp add: NonceSize_def)

end
