(* ===== verification/Epochs.thy ===== *)
theory Epochs
  imports Session
begin

section \<open>Counter nonces under concurrent rekeying\<close>

text \<open>
  \<open>EncryptChunk\<close> takes no lock: it tests the destroyed flag, loads the epoch pointer, then
  increments that epoch's own counter.  Between any two of these atomics another goroutine
  may encrypt, rekey or destroy the session.  Here each atomic is one step of a relation,
  with the epochs as heap objects, so that a goroutine may still hold an epoch the session
  has left.  Shown: the counter values drawn from an epoch are \<open>0, 1, 2, \<dots>\<close> in order, hence
  no (cipher, nonce) pair is ever used twice before a 64-bit counter wraps.
\<close>

datatype enc_pc = EncIdle | EncChecked | EncLoaded nat

record epoch_sys =
  epochs :: "nat \<Rightarrow> sendEpoch"       \<comment> \<open>epoch objects by address\<close>
  fresh :: nat                        \<comment> \<open>first address not allocated\<close>
  epoch_ptr :: "nat option"           \<comment> \<open>\<open>sendEpochPtr\<close>\<close>
  is_dead :: bool                     \<comment> \<open>\<open>destroyed\<close>\<close>
  enc_pcs :: "nat \<Rightarrow> enc_pc"
  nonce_log :: "(nat \<times> u64) list"     \<comment> \<open>(epoch address, nonce) of every seal, oldest first\<close>

definition epoch_start :: epoch_sys where
  "epoch_start = \<lparr>epochs = (\<lambda>_. \<lparr>ep_gcm = [], ep_nonce = 0\<rparr>), fresh = 0, epoch_ptr = None,
     is_dead = False, enc_pcs = (\<lambda>_. EncIdle), nonce_log = []\<rparr>"

text \<open>Installing a fresh epoch (\<open>InitSendEpoch\<close>, \<open>Rekey\<close>, \<open>Create\<close>): a new object with counter 0.\<close>

definition install_epoch :: "bytes \<Rightarrow> epoch_sys \<Rightarrow> epoch_sys" where
  "install_epoch key s =
     s\<lparr>epochs := (epochs s)(fresh s := \<lparr>ep_gcm = key, ep_nonce = 0\<rparr>),
       fresh := Suc (fresh s), epoch_ptr := Some (fresh s)\<rparr>"

inductive enc_step :: "epoch_sys \<Rightarrow> epoch_sys \<Rightarrow> bool" where
  check: "\<lbrakk>enc_pcs s t = EncIdle; \<not> is_dead s\<rbrakk> \<Longrightarrow>
     enc_step s (s\<lparr>enc_pcs := (enc_pcs s)(t := EncChecked)\<rparr>)"
| load: "\<lbrakk>enc_pcs s t = EncChecked; epoch_ptr s = Some e\<rbrakk> \<Longrightarrow>
     enc_step s (s\<lparr>enc_pcs := (enc_pcs s)(t := EncLoaded e)\<rparr>)"
| fallback: "\<lbrakk>enc_pcs s t = EncChecked; epoch_ptr s = None\<rbrakk> \<Longrightarrow>
     enc_step s (s\<lparr>enc_pcs := (enc_pcs s)(t := EncIdle)\<rparr>)"
| seal: "\<lbrakk>enc_pcs s t = EncLoaded e\<rbrakk> \<Longrightarrow>
     enc_step s (s\<lparr>epochs := (epochs s)(e := (epochs s e)\<lparr>ep_nonce := ep_nonce (epochs s e) + 1\<rparr>),
                   nonce_log := nonce_log s @ [(e, ep_nonce (epochs s e))],
                   enc_pcs := (enc_pcs s)(t := EncIdle)\<rparr>)"
| rekey: "\<not> is_dead s \<Longrightarrow> enc_step s (install_epoch key s)"
| init: "\<lbrakk>\<not> is_dead s; epoch_ptr s = None\<rbrakk> \<Longrightarrow> enc_step s (install_epoch key s)"
| destroy: "enc_step s (s\<lparr>epoch_ptr := None, is_dead := True\<rparr>)"

inductive enc_reachable :: "epoch_sys \<Rightarrow> bool" where
  start: "enc_reachable epoch_start"
| step: "\<lbrakk>enc_reachable s; enc_step s t\<rbrakk> \<Longrightarrow> enc_reachable t"

text \<open>The nonces drawn from epoch \<open>e\<close>, in order.\<close>

definition drawn :: "epoch_sys \<Rightarrow> nat \<Rightarrow> u64 list" where
  "drawn s e = map snd (filter (\<lambda>p. fst p = e) (nonce_log s))"

definition counting :: "u64 list \<Rightarrow> bool" where
  "counting ns \<longleftrightarrow> ns = map of_nat [0..<length ns]"

lemma counting_snoc: "counting ns \<Longrightarrow> counting (ns @ [of_nat (length ns)])"
  by (simp add: counting_def)

lemma counting_distinct: "\<lbrakk>counting ns; length ns \<le> 2 ^ 64\<rbrakk> \<Longrightarrow> distinct ns"
proof -
  assume "counting ns" "length ns \<le> 2 ^ 64"
  moreover have "inj_on (of_nat :: nat \<Rightarrow> u64) {0..<length ns}" if "length ns \<le> 2 ^ 64"
    using that by (intro inj_onI) (simp add: of_nat_eq_iff word_of_nat_eq_iff take_bit_nat_eq_self_iff take_bit_nat_eq_self)
  ultimately show ?thesis
    by (metis counting_def distinct_map distinct_upt set_upt)
qed

definition epoch_inv :: "epoch_sys \<Rightarrow> bool" where
  "epoch_inv s \<longleftrightarrow>
     (\<forall>e. counting (drawn s e) \<and> ep_nonce (epochs s e) = of_nat (length (drawn s e))) \<and>
     (\<forall>e \<ge> fresh s. drawn s e = []) \<and>
     (\<forall>t e. enc_pcs s t = EncLoaded e \<longrightarrow> e < fresh s) \<and>
     (\<forall>e. epoch_ptr s = Some e \<longrightarrow> e < fresh s)"

lemma epoch_inv_start: "epoch_inv epoch_start"
  by (simp add: epoch_inv_def epoch_start_def drawn_def counting_def)

lemma drawn_seal:
  "drawn (s\<lparr>epochs := E, nonce_log := nonce_log s @ [(e, n)], enc_pcs := p\<rparr>) e' =
     (if e' = e then drawn s e @ [n] else drawn s e')"
  by (simp add: drawn_def)

lemma drawn_frame [simp]:
  "drawn (s\<lparr>enc_pcs := p\<rparr>) e = drawn s e"
  "drawn (s\<lparr>epoch_ptr := q, is_dead := d\<rparr>) e = drawn s e"
  "drawn (install_epoch key s) e = drawn s e"
  by (simp_all add: drawn_def install_epoch_def)

lemma epoch_inv_install: "epoch_inv s \<Longrightarrow> epoch_inv (install_epoch key s)"
  unfolding epoch_inv_def drawn_frame
  by (auto simp: install_epoch_def less_Suc_eq)

lemma epoch_inv_seal:
  assumes "epoch_inv s" "enc_pcs s t = EncLoaded e"
  shows "epoch_inv (s\<lparr>epochs := (epochs s)(e := (epochs s e)\<lparr>ep_nonce := ep_nonce (epochs s e) + 1\<rparr>),
                   nonce_log := nonce_log s @ [(e, ep_nonce (epochs s e))],
                   enc_pcs := (enc_pcs s)(t := EncIdle)\<rparr>)"
proof -
  have "e < fresh s" using assms by (auto simp: epoch_inv_def)
  then show ?thesis
    using assms counting_snoc [of "drawn s e"] unfolding epoch_inv_def drawn_seal
    by (auto simp: add.commute) (meson leD)
qed

lemma epoch_inv_step: "enc_step s t \<Longrightarrow> epoch_inv s \<Longrightarrow> epoch_inv t"
proof (induction rule: enc_step.induct)
  case (seal s t e)
  then show ?case by (simp add: epoch_inv_seal)
next
  case (rekey s key)
  then show ?case by (simp add: epoch_inv_install)
next
  case (init s key)
  then show ?case by (simp add: epoch_inv_install)
qed (auto simp: epoch_inv_def)

lemma epoch_inv_reachable: "enc_reachable s \<Longrightarrow> epoch_inv s"
  by (induction rule: enc_reachable.induct) (auto intro: epoch_inv_start epoch_inv_step)

lemma distinct_by_fst:
  assumes "\<And>e. distinct (map snd (filter (\<lambda>p. fst p = e) xs))"
  shows "distinct xs"
  using assms
proof (induction xs)
  case Nil
  then show ?case by simp
next
  case (Cons p xs)
  have "distinct (map snd (filter (\<lambda>q. fst q = e) xs))" for e
    using Cons.prems [of e] by (auto split: if_splits)
  then have "distinct xs" by (rule Cons.IH)
  moreover have "p \<notin> set xs"
  proof
    assume "p \<in> set xs"
    then have "snd p \<in> snd ` set (filter (\<lambda>q. fst q = fst p) xs)" by auto
    then show False using Cons.prems [of "fst p"] by simp
  qed
  ultimately show ?case by simp
qed

subsection \<open>Properties\<close>

text \<open>C36. Whatever the interleaving of concurrent encryptions, rekeys and destruction, no
  (epoch, nonce) pair is used twice, as long as no single epoch has sealed more than \<open>2^64\<close>
  chunks.\<close>

theorem nonce_never_reused:
  assumes "enc_reachable s" "\<forall>e. length (drawn s e) \<le> 2 ^ 64"
  shows "distinct (nonce_log s)"
proof (rule distinct_by_fst)
  fix e
  have "counting (drawn s e)" using epoch_inv_reachable [OF assms(1)] by (simp add: epoch_inv_def)
  with assms(2) have "distinct (drawn s e)" by (blast intro: counting_distinct)
  then show "distinct (map snd (filter (\<lambda>p. fst p = e) (nonce_log s)))" by (simp add: drawn_def)
qed

text \<open>Two goroutines hold epoch 0, a rekey installs epoch 1, then both seal.\<close>

lemma two_goroutines_across_rekey: "\<exists>s. enc_reachable s \<and> nonce_log s = [(0, 0), (0, 1)] \<and> epoch_ptr s = Some 1"
proof -
  let ?s0 = "install_epoch [1] epoch_start"
  let ?s1 = "?s0\<lparr>enc_pcs := (enc_pcs ?s0)(0 := EncChecked)\<rparr>"
  let ?s2 = "?s1\<lparr>enc_pcs := (enc_pcs ?s1)(0 := EncLoaded 0)\<rparr>"
  let ?s3 = "?s2\<lparr>enc_pcs := (enc_pcs ?s2)(1 := EncChecked)\<rparr>"
  let ?s4 = "?s3\<lparr>enc_pcs := (enc_pcs ?s3)(1 := EncLoaded 0)\<rparr>"
  let ?s5 = "install_epoch [2] ?s4"
  let ?seal = "\<lambda>s t e. s\<lparr>epochs := (epochs s)(e := (epochs s e)\<lparr>ep_nonce := ep_nonce (epochs s e) + 1\<rparr>),
                   nonce_log := nonce_log s @ [(e, ep_nonce (epochs s e))],
                   enc_pcs := (enc_pcs s)(t := EncIdle)\<rparr>"
  note defs = install_epoch_def epoch_start_def
  have r0: "enc_reachable ?s0" by (rule enc_reachable.step [OF start], rule enc_step.init) (simp_all add: defs)
  have r1: "enc_reachable ?s1" by (rule enc_reachable.step [OF r0], rule enc_step.check) (simp_all add: defs)
  have r2: "enc_reachable ?s2" by (rule enc_reachable.step [OF r1], rule enc_step.load) (simp_all add: defs)
  have r3: "enc_reachable ?s3" by (rule enc_reachable.step [OF r2], rule enc_step.check) (simp_all add: defs)
  have r4: "enc_reachable ?s4" by (rule enc_reachable.step [OF r3], rule enc_step.load) (simp_all add: defs)
  have r5: "enc_reachable ?s5" by (rule enc_reachable.step [OF r4], rule enc_step.rekey) (simp add: defs)
  have r6: "enc_reachable (?seal ?s5 0 0)" by (rule enc_reachable.step [OF r5], rule enc_step.seal) (simp add: defs)
  have r7: "enc_reachable (?seal (?seal ?s5 0 0) 1 0)" by (rule enc_reachable.step [OF r6], rule enc_step.seal) (simp add: defs)
  moreover have "nonce_log (?seal (?seal ?s5 0 0) 1 0) = [(0, 0), (0, 1)]" "epoch_ptr (?seal (?seal ?s5 0 0) 1 0) = Some 1"
    by (simp_all add: defs)
  ultimately show ?thesis by blast
qed

theorem nonce_never_reused_witness:
  "\<exists>s. enc_reachable s \<and> nonce_log s = [(0, 0), (0, 1)] \<and> distinct (nonce_log s)"
proof -
  obtain s where s: "enc_reachable s" "nonce_log s = [(0, 0), (0, 1)]" using two_goroutines_across_rekey by blast
  moreover have "length (drawn s e) \<le> 2 ^ 64" for e by (simp add: drawn_def s(2))
  ultimately show ?thesis using nonce_never_reused [of s] by auto
qed

end
