(* ===== verification/Session_Manager.thy ===== *)
theory Session_Manager
  imports Session
begin

section \<open>The session manager and its sweeps\<close>

text \<open>
  Models \<open>SessionManager\<close> of \<open>src/core/session.go\<close>: creation with its identifier counter,
  lookup, removal, re-attachment, the idle cleanup and the two two-phase sweeps.  The map is
  \<open>u32 \<rightharpoonup> session\<close>; where the source ranges over it, the (unspecified) iteration order is an
  argument.  A sweep's first phase only reads; its second phase is one locked step per
  candidate, and those steps are definitions of their own because other operations run
  between them.  Operations that destroy sessions also return the destroyed objects, since
  other parts of the server still hold pointers to them.
\<close>

record sessionManager =
  sessions :: "u32 \<rightharpoonup> session"
  sm_timeout :: int
  nextID :: u32

definition NewSessionManager :: "int \<Rightarrow> bytes option \<Rightarrow> (session_error, sessionManager) outcome" where
  "NewSessionManager timeout rnd =
     (case rnd of None \<Rightarrow> Panic
      | Some buf \<Rightarrow> Ok \<lparr>sessions = Map.empty, sm_timeout = timeout, nextID = get32 buf\<rparr>)"

text \<open>The identifier a creation draws: the incremented counter, skipping the reserved 0.\<close>

definition draw_id :: "u32 \<Rightarrow> u32" where
  "draw_id n = (if n + 1 = 0 then n + 1 + 1 else n + 1)"

definition Create ::
  "instant \<Rightarrow> bytes \<Rightarrow> bytes \<Rightarrow> bytes \<Rightarrow> sessionManager \<Rightarrow>
   (session_error, session) outcome \<times> sessionManager" where
  "Create now nonce sendKey recvKey sm =
     (case newGCM sendKey of
        Err e \<Rightarrow> (Err (CryptoError e), sm) | Panic \<Rightarrow> (Panic, sm)
      | Ok sendGCM \<Rightarrow>
        (case newGCM recvKey of
           Err e \<Rightarrow> (Err (CryptoError e), sm) | Panic \<Rightarrow> (Panic, sm)
         | Ok rGCM \<Rightarrow>
           let sid = draw_id (nextID sm);
               s = (NewSession now nonce sid sendKey recvKey)
                     \<lparr>sendEpochPtr := Some \<lparr>ep_gcm = sendGCM, ep_nonce = 0\<rparr>, recvGCM := Some rGCM\<rparr>
           in (Ok s, sm\<lparr>nextID := sid, sessions := (sessions sm)(sid \<mapsto> s)\<rparr>)))"

definition Get :: "u32 \<Rightarrow> sessionManager \<Rightarrow> session option" where
  "Get sid sm = sessions sm sid"

definition Remove :: "u32 \<Rightarrow> sessionManager \<Rightarrow> session option \<times> sessionManager" where
  "Remove sid sm =
     (case sessions sm sid of
        None \<Rightarrow> (None, sm)
      | Some s \<Rightarrow> (Some (Destroy s), sm\<lparr>sessions := (sessions sm)(sid := None)\<rparr>))"

definition ReattachClearDetached :: "u32 \<Rightarrow> sessionManager \<Rightarrow> bool \<times> sessionManager" where
  "ReattachClearDetached sid sm =
     (case sessions sm sid of
        None \<Rightarrow> (False, sm)
      | Some s \<Rightarrow> (True, sm\<lparr>sessions := (sessions sm)(sid \<mapsto> s\<lparr>DetachedAt := 0\<rparr>)\<rparr>))"

text \<open>\<open>Cleanup\<close>: the loop over the map, each round atomic under the session lock.\<close>

fun cleanup_loop ::
  "instant \<Rightarrow> u32 list \<Rightarrow> session list \<Rightarrow> sessionManager \<Rightarrow> session list \<times> sessionManager" where
  "cleanup_loop now [] gone sm = (gone, sm)"
| "cleanup_loop now (sid # ord) gone sm =
     (case sessions sm sid of
        None \<Rightarrow> cleanup_loop now ord gone sm
      | Some s \<Rightarrow>
        (case isExpiredAndDestroy now (sm_timeout sm) s of
           (True, s') \<Rightarrow> cleanup_loop now ord (gone @ [s']) (sm\<lparr>sessions := (sessions sm)(sid := None)\<rparr>)
         | (False, _) \<Rightarrow> cleanup_loop now ord gone sm))"

definition Cleanup :: "instant \<Rightarrow> u32 list \<Rightarrow> sessionManager \<Rightarrow> nat \<times> session list \<times> sessionManager" where
  "Cleanup now ord sm =
     (let (gone, sm') = cleanup_loop now ord [] sm in (length gone, gone, sm'))"

text \<open>Newborn orphans: never attached and older than \<open>maxAge\<close>.\<close>

definition newborn_orphan :: "instant \<Rightarrow> int \<Rightarrow> session \<Rightarrow> bool" where
  "newborn_orphan now maxAge s \<longleftrightarrow> \<not> (AttachedAt s \<noteq> 0 \<or> now - CreatedAt s \<le> maxAge)"

definition newborn_candidates :: "instant \<Rightarrow> int \<Rightarrow> u32 list \<Rightarrow> sessionManager \<Rightarrow> u32 list" where
  "newborn_candidates now maxAge ord sm =
     filter (\<lambda>sid. case sessions sm sid of None \<Rightarrow> False | Some s \<Rightarrow> newborn_orphan now maxAge s) ord"

definition newborn_evict ::
  "instant \<Rightarrow> int \<Rightarrow> u32 \<Rightarrow> sessionManager \<Rightarrow> session option \<times> sessionManager" where
  "newborn_evict now maxAge sid sm =
     (case sessions sm sid of
        None \<Rightarrow> (None, sm)
      | Some s \<Rightarrow>
        if AttachedAt s \<noteq> 0 \<or> now - CreatedAt s \<le> maxAge then (None, sm)
        else (Some (zeroKeyMaterialLocked s), sm\<lparr>sessions := (sessions sm)(sid := None)\<rparr>))"

fun evict_all ::
  "(u32 \<Rightarrow> sessionManager \<Rightarrow> session option \<times> sessionManager) \<Rightarrow> u32 list \<Rightarrow> sessionManager \<Rightarrow>
   u32 list \<times> session list \<times> sessionManager" where
  "evict_all ev [] sm = ([], [], sm)"
| "evict_all ev (sid # cs) sm =
     (case ev sid sm of
        (None, sm1) \<Rightarrow> evict_all ev cs sm1
      | (Some s, sm1) \<Rightarrow>
        (case evict_all ev cs sm1 of (ids, gone, sm2) \<Rightarrow> (sid # ids, s # gone, sm2)))"

definition CleanupNewbornOrphans ::
  "instant \<Rightarrow> int \<Rightarrow> u32 list \<Rightarrow> sessionManager \<Rightarrow> u32 list \<times> session list \<times> sessionManager" where
  "CleanupNewbornOrphans now maxAge ord sm =
     evict_all (newborn_evict now maxAge) (newborn_candidates now maxAge ord sm) sm"

text \<open>Detached ghosts: attached once, detached longer than \<open>grace\<close>, and the caller's gate agrees.\<close>

type_synonym gate = "(u32 \<Rightarrow> bool) option"

definition gate_open :: "gate \<Rightarrow> u32 \<Rightarrow> bool" where
  "gate_open g sid = (case g of None \<Rightarrow> True | Some f \<Rightarrow> f sid)"

definition ghost_candidates :: "instant \<Rightarrow> int \<Rightarrow> gate \<Rightarrow> u32 list \<Rightarrow> sessionManager \<Rightarrow> u32 list" where
  "ghost_candidates now graceNs g ord sm =
     filter (\<lambda>sid. case sessions sm sid of
         None \<Rightarrow> False
       | Some s \<Rightarrow> AttachedAt s \<noteq> 0 \<and> DetachedAt s \<noteq> 0 \<and> \<not> now - DetachedAt s \<le> graceNs \<and> gate_open g sid) ord"

definition ghost_evict ::
  "instant \<Rightarrow> int \<Rightarrow> gate \<Rightarrow> u32 \<Rightarrow> sessionManager \<Rightarrow> session option \<times> sessionManager" where
  "ghost_evict now graceNs g sid sm =
     (if \<not> gate_open g sid then (None, sm)
      else case sessions sm sid of
        None \<Rightarrow> (None, sm)
      | Some s \<Rightarrow>
        if AttachedAt s = 0 \<or> DetachedAt s = 0 \<or> now - DetachedAt s \<le> graceNs then (None, sm)
        else (Some (zeroKeyMaterialLocked s), sm\<lparr>sessions := (sessions sm)(sid := None)\<rparr>))"

definition CleanupDetachedGhosts ::
  "instant \<Rightarrow> int \<Rightarrow> gate \<Rightarrow> u32 list \<Rightarrow> sessionManager \<Rightarrow> u32 list \<times> session list \<times> sessionManager" where
  "CleanupDetachedGhosts now graceNs g ord sm =
     evict_all (ghost_evict now graceNs g) (ghost_candidates now graceNs g ord sm) sm"

definition Count :: "u32 list \<Rightarrow> sessionManager \<Rightarrow> nat" where
  "Count ord sm = length (filter (\<lambda>sid. sessions sm sid \<noteq> None) ord)"

fun ForEach :: "(session \<Rightarrow> bool) \<Rightarrow> u32 list \<Rightarrow> sessionManager \<Rightarrow> session list" where
  "ForEach fn [] sm = []"
| "ForEach fn (sid # ord) sm =
     (case sessions sm sid of
        None \<Rightarrow> ForEach fn ord sm
      | Some s \<Rightarrow> if fn s then [s] else s # ForEach fn ord sm)"

subsection \<open>Invariant: published sessions are identified, keyed and alive\<close>

definition published_ok :: "u32 \<Rightarrow> session \<Rightarrow> bool" where
  "published_ok sid s \<longleftrightarrow> ID s = sid \<and> sid \<noteq> 0 \<and> \<not> destroyed s \<and>
     (\<exists>ep. sendEpochPtr s = Some ep) \<and> (\<exists>k. recvGCM s = Some k)"

definition sm_inv :: "sessionManager \<Rightarrow> bool" where
  "sm_inv sm \<longleftrightarrow> (\<forall>sid s. sessions sm sid = Some s \<longrightarrow> published_ok sid s)"

lemma sm_invD: "\<lbrakk>sm_inv sm; sessions sm sid = Some s\<rbrakk> \<Longrightarrow> published_ok sid s"
  by (simp add: sm_inv_def)

lemma draw_id_nonzero: "draw_id n \<noteq> 0"
  by (simp add: draw_id_def)

text \<open>Deleting entries, and replacing one by a session that is still in order, keeps the invariant.\<close>

lemma sm_inv_delete: "sm_inv sm \<Longrightarrow> sm_inv (sm\<lparr>sessions := (sessions sm)(sid := None)\<rparr>)"
  by (simp add: sm_inv_def)

lemma sm_inv_put: "\<lbrakk>sm_inv sm; published_ok sid s\<rbrakk> \<Longrightarrow> sm_inv (sm\<lparr>sessions := (sessions sm)(sid \<mapsto> s)\<rparr>)"
  by (simp add: sm_inv_def)

lemma sm_inv_Create: "sm_inv sm \<Longrightarrow> sm_inv (snd (Create now nonce sk rk sm))"
  by (auto simp: Create_def Let_def sm_inv_def published_ok_def NewSession_def draw_id_nonzero split: outcome.splits)

lemma sm_inv_Remove: "sm_inv sm \<Longrightarrow> sm_inv (snd (Remove sid sm))"
  by (auto simp: Remove_def sm_inv_delete split: option.splits)

lemma sm_inv_Reattach: "sm_inv sm \<Longrightarrow> sm_inv (snd (ReattachClearDetached sid sm))"
  by (auto simp: ReattachClearDetached_def sm_inv_def published_ok_def split: option.splits)

lemma sm_inv_cleanup_loop: "sm_inv sm \<Longrightarrow> sm_inv (snd (cleanup_loop now ord gone sm))"
  by (induction ord arbitrary: gone sm)
    (auto simp: isExpiredAndDestroy_def sm_inv_delete split: option.splits)

lemma sm_inv_newborn_evict: "sm_inv sm \<Longrightarrow> sm_inv (snd (newborn_evict now maxAge sid sm))"
  by (auto simp: newborn_evict_def sm_inv_delete split: option.splits)

lemma sm_inv_ghost_evict: "sm_inv sm \<Longrightarrow> sm_inv (snd (ghost_evict now grace g sid sm))"
  by (auto simp: ghost_evict_def sm_inv_delete split: option.splits)

text \<open>The manager's calls as steps; the sweeps enter as their locked second-phase steps.\<close>

datatype sm_op =
    SmCreate instant bytes bytes bytes
  | SmRemove u32
  | SmReattach u32
  | SmCleanup instant "u32 list"
  | SmNewbornStep instant int u32
  | SmGhostStep instant int gate u32

fun sm_step :: "sm_op \<Rightarrow> sessionManager \<Rightarrow> sessionManager" where
  "sm_step (SmCreate now nonce sk rk) sm = snd (Create now nonce sk rk sm)"
| "sm_step (SmRemove sid) sm = snd (Remove sid sm)"
| "sm_step (SmReattach sid) sm = snd (ReattachClearDetached sid sm)"
| "sm_step (SmCleanup now ord) sm = snd (snd (Cleanup now ord sm))"
| "sm_step (SmNewbornStep now maxAge sid) sm = snd (newborn_evict now maxAge sid sm)"
| "sm_step (SmGhostStep now grace g sid) sm = snd (ghost_evict now grace g sid sm)"

lemma sm_inv_step: "sm_inv sm \<Longrightarrow> sm_inv (sm_step op sm)"
  by (cases op)
    (auto simp: sm_inv_Create sm_inv_Remove sm_inv_Reattach sm_inv_newborn_evict sm_inv_ghost_evict
      Cleanup_def Let_def case_prod_beta sm_inv_cleanup_loop)

lemma sm_inv_run: "sm_inv sm \<Longrightarrow> sm_inv (fold sm_step ops sm)"
  by (induction ops arbitrary: sm) (auto simp: sm_inv_step)

subsection \<open>What the sweeps remove\<close>

lemma cleanup_loop_sessions:
  "sessions (snd (cleanup_loop now ord gone sm)) sid =
     (case sessions sm sid of None \<Rightarrow> None
      | Some s \<Rightarrow> if sid \<in> set ord \<and> IsExpired now (sm_timeout sm) s then None else Some s)"
proof (induction ord arbitrary: gone sm)
  case Nil
  then show ?case by (simp split: option.splits)
next
  case (Cons x ord)
  show ?case
  proof (cases "sessions sm x")
    case None
    with Cons show ?thesis by (auto split: option.splits)
  next
    case (Some s)
    show ?thesis
    proof (cases "IsExpired now (sm_timeout sm) s")
      case True
      then have "isExpiredAndDestroy now (sm_timeout sm) s = (True, zeroKeyMaterialLocked s)"
        by (simp add: isExpiredAndDestroy_def IsExpired_def)
      with Some Cons True show ?thesis by (auto split: option.splits)
    next
      case False
      then have "isExpiredAndDestroy now (sm_timeout sm) s = (False, s)"
        by (simp add: isExpiredAndDestroy_def IsExpired_def)
      with Some Cons False show ?thesis by (auto split: option.splits)
    qed
  qed
qed

text \<open>The interface of a per-candidate eviction step, shared by the two sweeps.\<close>

locale evict_step =
  fixes ev :: "u32 \<Rightarrow> sessionManager \<Rightarrow> session option \<times> sessionManager"
    and eligible :: "u32 \<Rightarrow> session \<Rightarrow> bool"
  assumes ev_eq: "ev sid sm =
     (case sessions sm sid of
        None \<Rightarrow> (None, sm)
      | Some s \<Rightarrow> if eligible sid s
          then (Some (zeroKeyMaterialLocked s), sm\<lparr>sessions := (sessions sm)(sid := None)\<rparr>)
          else (None, sm))"
begin

lemma evict_all_Cons:
  "evict_all ev (x # cs) sm =
     (case sessions sm x of
        None \<Rightarrow> evict_all ev cs sm
      | Some s \<Rightarrow> if eligible x s
          then (let r = evict_all ev cs (sm\<lparr>sessions := (sessions sm)(x := None)\<rparr>)
                in (x # fst r, zeroKeyMaterialLocked s # fst (snd r), snd (snd r)))
          else evict_all ev cs sm)"
  using ev_eq [of x sm] by (simp add: case_prod_beta Let_def split: option.splits)

lemma evict_all_sessions:
  "sessions (snd (snd (evict_all ev cs sm))) sid =
     (case sessions sm sid of None \<Rightarrow> None
      | Some s \<Rightarrow> if sid \<in> set cs \<and> eligible sid s then None else Some s)"
proof (induction cs arbitrary: sm)
  case Nil
  then show ?case by (simp split: option.splits)
next
  case (Cons x cs)
  then show ?case by (auto simp: evict_all_Cons Let_def simp del: evict_all.simps(2) split: option.splits)
qed

lemma evict_all_gone_scrubbed: "s \<in> set (fst (snd (evict_all ev cs sm))) \<Longrightarrow> scrubbed s"
proof (induction cs arbitrary: sm)
  case Nil
  then show ?case by simp
next
  case (Cons x cs)
  have zero: "scrubbed (zeroKeyMaterialLocked t)" for t
    using scrubbed_Destroy by (simp add: Destroy_def)
  from Cons show ?case 
    by (auto simp: evict_all_Cons Let_def zero simp del: evict_all.simps(2) split: option.splits if_splits)
qed

lemma evict_all_ids:
  "distinct cs \<Longrightarrow> fst (evict_all ev cs sm) =
     filter (\<lambda>sid. case sessions sm sid of None \<Rightarrow> False | Some s \<Rightarrow> eligible sid s) cs"
proof (induction cs arbitrary: sm)
  case Nil
  then show ?case by simp
next
  case (Cons x cs)
  have same: "filter (\<lambda>sid. case ((sessions sm)(x := None)) sid of None \<Rightarrow> False | Some s \<Rightarrow> eligible sid s) cs
      = filter (\<lambda>sid. case sessions sm sid of None \<Rightarrow> False | Some s \<Rightarrow> eligible sid s) cs"
    using Cons.prems by (intro filter_cong) auto
  from Cons same show ?case
    by (auto simp: evict_all_Cons Let_def simp del: evict_all.simps(2) split: option.splits)
qed

end

interpretation newborn: evict_step "newborn_evict now maxAge" "\<lambda>_. newborn_orphan now maxAge"
  by unfold_locales (auto simp: newborn_evict_def newborn_orphan_def split: option.splits)

definition ghost :: "instant \<Rightarrow> int \<Rightarrow> gate \<Rightarrow> u32 \<Rightarrow> session \<Rightarrow> bool" where
  "ghost now graceNs g sid s \<longleftrightarrow>
     AttachedAt s \<noteq> 0 \<and> DetachedAt s \<noteq> 0 \<and> now - DetachedAt s > graceNs \<and> gate_open g sid"

interpretation ghosts: evict_step "ghost_evict now graceNs g" "ghost now graceNs g"
  by unfold_locales (auto simp: ghost_evict_def ghost_def split: option.splits)

lemma newborn_candidates_set:
  "sid \<in> set (newborn_candidates now maxAge ord sm) \<longleftrightarrow>
     sid \<in> set ord \<and> (\<exists>s. sessions sm sid = Some s \<and> newborn_orphan now maxAge s)"
  by (auto simp: newborn_candidates_def split: option.splits)

lemma ghost_candidates_set:
  "sid \<in> set (ghost_candidates now graceNs g ord sm) \<longleftrightarrow>
     sid \<in> set ord \<and> (\<exists>s. sessions sm sid = Some s \<and> ghost now graceNs g sid s)"
  by (auto simp: ghost_candidates_def ghost_def not_le split: option.splits)

lemma CleanupDetachedGhosts_sessions:
  "sessions (snd (snd (CleanupDetachedGhosts now graceNs g ord sm))) sid =
     (case sessions sm sid of None \<Rightarrow> None
      | Some s \<Rightarrow> if sid \<in> set ord \<and> ghost now graceNs g sid s then None else Some s)"
  by (auto simp: CleanupDetachedGhosts_def ghosts.evict_all_sessions ghost_candidates_set split: option.splits)

lemma CleanupNewbornOrphans_sessions:
  "sessions (snd (snd (CleanupNewbornOrphans now maxAge ord sm))) sid =
     (case sessions sm sid of None \<Rightarrow> None
      | Some s \<Rightarrow> if sid \<in> set ord \<and> newborn_orphan now maxAge s then None else Some s)"
  by (auto simp: CleanupNewbornOrphans_def newborn.evict_all_sessions newborn_candidates_set split: option.splits)

subsection \<open>Sweeps against re-attachment\<close>

text \<open>The locked steps of both sweeps, whenever their candidates were collected.\<close>

fun is_sweep_step :: "sm_op \<Rightarrow> bool" where
  "is_sweep_step (SmNewbornStep now maxAge sid) = True"
| "is_sweep_step (SmGhostStep now grace g sid) = True"
| "is_sweep_step _ = False"

lemma sweep_step_spares_attached:
  assumes "is_sweep_step op" "sessions sm sid = Some s" "AttachedAt s \<noteq> 0" "DetachedAt s = 0"
  shows "sessions (sm_step op sm) sid = Some s"
  using assms by (cases op) (auto simp: newborn_evict_def ghost_evict_def split: option.splits)

lemma sweep_run_spares_attached:
  assumes "list_all is_sweep_step ops" "sessions sm sid = Some s" "AttachedAt s \<noteq> 0" "DetachedAt s = 0"
  shows "sessions (fold sm_step ops sm) sid = Some s"
  using assms by (induction ops arbitrary: sm) (auto simp: sweep_step_spares_attached)

lemma Reattach_clears:
  "\<lbrakk>sessions sm sid = Some s\<rbrakk> \<Longrightarrow>
     ReattachClearDetached sid sm = (True, sm\<lparr>sessions := (sessions sm)(sid \<mapsto> s\<lparr>DetachedAt := 0\<rparr>)\<rparr>)"
  by (simp add: ReattachClearDetached_def)

subsection \<open>Identifiers of consecutive creations\<close>

text \<open>
  The counter walks the 32-bit circle minus 0: identifiers repeat only after all
  \<open>2^32 - 1\<close> others have been used.
\<close>

fun draw_ids :: "u32 \<Rightarrow> nat \<Rightarrow> u32 list" where
  "draw_ids n 0 = []"
| "draw_ids n (Suc k) = draw_id n # draw_ids (draw_id n) k"

lemma unat_draw_id: "unat (draw_id n) = unat n mod (2 ^ 32 - 1) + 1"
proof -
  have le: "unat n < 2 ^ 32" using unat_bound [of n] by simp
  show ?thesis
  proof (cases "n + 1 = 0")
    case True
    then have "n = - 1" by (simp add: eq_neg_iff_add_eq_0)
    then have "unat n = 2 ^ 32 - 1" by (simp add: unsigned_minus_1_eq_mask mask_eq_exp_minus_1)
    with True show ?thesis by (simp add: draw_id_def)
  next
    case False
    then have "unat (n + 1) = unat n + 1" by (metis Suc_eq_plus1 unatSuc add.commute)
    moreover from this have "unat n < 2 ^ 32 - 1" using unat_bound [of "n + 1"] by simp
    ultimately show ?thesis using False by (simp add: draw_id_def)
  qed
qed

lemma unat_draw_ids_nth: "i < k \<Longrightarrow> unat (draw_ids n k ! i) = (unat n + i) mod (2 ^ 32 - 1) + 1"
proof (induction k arbitrary: n i)
  case 0
  then show ?case by simp
next
  case (Suc k)
  show ?case
  proof (cases i)
    case 0
    then show ?thesis by (simp add: unat_draw_id)
  next
    case (Suc j)
    with Suc.IH [of j "draw_id n"] Suc.prems
    have "unat (draw_ids n (Suc k) ! i) = (unat n mod (2 ^ 32 - 1) + 1 + j) mod (2 ^ 32 - 1) + 1"
      by (simp add: unat_draw_id)
    also have "\<dots> = (unat n + i) mod (2 ^ 32 - 1) + 1"
      using Suc by (simp only: mod_simps add.assoc) simp
    finally show ?thesis .
  qed
qed

lemma length_draw_ids [simp]: "length (draw_ids n k) = k"
  by (induction k arbitrary: n) auto

lemma mod_window_inj:
  fixes a i j m :: nat
  assumes "i < j" "j < m" shows "(a + i) mod m \<noteq> (a + j) mod m"
proof
  assume "(a + i) mod m = (a + j) mod m"
  then have "m dvd (a + j) - (a + i)" using assms by (metis mod_eq_dvd_iff_nat nat_add_left_cancel_le less_imp_le_nat)
  then have "m dvd j - i" by simp
  then show False using assms by (auto dest: dvd_imp_le)
qed

lemma draw_ids_distinct:
  assumes "k \<le> 2 ^ 32 - 1" shows "distinct (draw_ids n k)"
proof -
  have "draw_ids n k ! i \<noteq> draw_ids n k ! j" if "i < j" "j < k" for i j
    using that assms mod_window_inj [of i j "2 ^ 32 - 1" "unat n"]
      unat_draw_ids_nth [of i k n] unat_draw_ids_nth [of j k n] by auto
  then show ?thesis by (auto simp: distinct_conv_nth) (metis nat_neq_iff)
qed

lemma draw_ids_nonzero: "0 \<notin> set (draw_ids n k)"
  by (induction k arbitrary: n) (auto simp: draw_id_nonzero)

subsection \<open>Properties\<close>

text \<open>Every session a manager publishes, after any sequence of creations, removals,
  re-attachments, idle cleanups and sweep steps, sits under its own nonzero identifier, is not
  destroyed and has both ciphers ready.\<close>

theorem published_sessions_ready:
  "sm_inv (fold sm_step ops \<lparr>sessions = Map.empty, sm_timeout = t, nextID = n\<rparr>)"
  by (rule sm_inv_run) (simp add: sm_inv_def)

text \<open>The detached-ghost sweep removes exactly the sessions that were attached, have been
  detached longer than the grace period and that the caller's gate lets go; every session it
  removes has its key material zeroed.\<close>

theorem ghost_sweep_exact:
  "sessions (snd (snd (CleanupDetachedGhosts now graceNs g ord sm))) sid =
     (case sessions sm sid of None \<Rightarrow> None
      | Some s \<Rightarrow> if sid \<in> set ord \<and> AttachedAt s \<noteq> 0 \<and> DetachedAt s \<noteq> 0 \<and> now - DetachedAt s > graceNs \<and> gate_open g sid
                  then None else Some s) \<and>
   list_all scrubbed (fst (snd (CleanupDetachedGhosts now graceNs g ord sm)))"
proof -
  have "scrubbed s" if "s \<in> set (fst (snd (CleanupDetachedGhosts now graceNs g ord sm)))" for s
    using that ghosts.evict_all_gone_scrubbed unfolding CleanupDetachedGhosts_def by blast
  then show ?thesis
    unfolding CleanupDetachedGhosts_sessions list_all_iff by (simp add: ghost_def split: option.split)
qed

text \<open>No sweep step, however stale the candidate list it works from, evicts a session that
  has been re-attached: once \<open>ReattachClearDetached\<close> reports success on an attached session,
  any number of sweep steps of both kinds leave it in the table.\<close>

theorem reattached_survives_sweeps:
  assumes "sessions sm sid = Some s" "AttachedAt s \<noteq> 0" "list_all is_sweep_step ops"
  shows "fst (ReattachClearDetached sid sm) \<and>
     sessions (fold sm_step ops (snd (ReattachClearDetached sid sm))) sid = Some (s\<lparr>DetachedAt := 0\<rparr>)"
proof -
  note r = Reattach_clears [OF assms(1)]
  have "sessions (fold sm_step ops (snd (ReattachClearDetached sid sm))) sid = Some (s\<lparr>DetachedAt := 0\<rparr>)"
    by (rule sweep_run_spares_attached [OF assms(3)]) (use assms r in simp_all)
  with r show ?thesis by simp
qed

theorem reattached_survives_sweeps_witness:
  "sessions (fold sm_step [SmGhostStep 100 5 None 7, SmNewbornStep 100 5 7]
     (snd (ReattachClearDetached 7 \<lparr>sessions = [7 \<mapsto> demo_sender\<lparr>AttachedAt := 1, DetachedAt := 2\<rparr>], sm_timeout = 9, nextID = 7\<rparr>))) 7
   = Some (demo_sender\<lparr>AttachedAt := 1, DetachedAt := 2, DetachedAt := 0\<rparr>)"
  using reattached_survives_sweeps [of "\<lparr>sessions = [7 \<mapsto> demo_sender\<lparr>AttachedAt := 1, DetachedAt := 2\<rparr>], sm_timeout = 9, nextID = 7\<rparr>"
      7 "demo_sender\<lparr>AttachedAt := 1, DetachedAt := 2\<rparr>" "[SmGhostStep 100 5 None 7, SmNewbornStep 100 5 7]"]
  by simp

text \<open>The identifiers of up to \<open>2^32 - 1\<close> consecutive creations are pairwise distinct, and none is
  the reserved 0, wherever the random starting point lies and although the counter wraps.\<close>

theorem session_ids_distinct:
  assumes "k \<le> 2 ^ 32 - 1"
  shows "distinct (draw_ids n k) \<and> 0 \<notin> set (draw_ids n k)"
  using draw_ids_distinct [OF assms] draw_ids_nonzero by blast

lemma draw_ids_4: "draw_ids n 4 =
    [draw_id n, draw_id (draw_id n), draw_id (draw_id (draw_id n)), draw_id (draw_id (draw_id (draw_id n)))]"
proof -
  have "(4::nat) = Suc (Suc (Suc (Suc 0)))" by simp
  then show ?thesis by (simp only: draw_ids.simps)
qed

theorem session_ids_distinct_witness:
  "distinct (draw_ids (- 2) 4) \<and> 0 \<notin> set (draw_ids (- 2) 4) \<and> draw_ids (- 2) 4 = [- 1, 1, 2, 3]"
  using session_ids_distinct [of 4 "- 2"]
  by (simp add: draw_ids_4) (simp add: draw_id_def)

end
