(* ===== verification/Replay_Cache.thy ===== *)
theory Replay_Cache
  imports Prelude
begin

section \<open>The handshake replay cache\<close>

text \<open>
  Models \<open>src/core/replay_cache.go\<close>.  The cache is a doubly linked list plus an index of
  pointers into it; here list elements are addresses into a store of entries, \<open>order\<close> is the
  list from front to back and \<open>index\<close> maps a key to an address, so that the code's aliasing
  (\<open>ent.ts = ts\<close> through the index, \<open>MoveToBack\<close> on the list) is visible.  Timestamps are
  seconds; the code's \<open>int64\<close> differences of two clock readings do not overflow.

  The specification is an association list, oldest first, and the operations refine it
  (\<open>Accept_refines\<close>, \<open>evictExpired_refines\<close>).  From the specification: an accepted key is
  refused while its time is inside the window and fewer than \<open>maxSize\<close> calls came after it.
  The last part connects the cache with the freshness check of the handshake.
\<close>

record replayEntry =
  re_clientID :: bytes
  re_ts :: int

record replayCache =
  maxSize :: nat
  windowSecs :: int
  order :: "nat list"
  index :: "bytes \<rightharpoonup> nat"
  entries :: "nat \<Rightarrow> replayEntry"   \<comment> \<open>list elements by address\<close>
  next_el :: nat                      \<comment> \<open>first address not allocated\<close>

definition Second :: int where "Second = 1000000000"

text \<open>\<open>NewReplayCacheWithOptions\<close>; the window is a duration in nanoseconds.\<close>

definition NewReplayCacheWithOptions :: "int \<Rightarrow> int \<Rightarrow> replayCache" where
  "NewReplayCacheWithOptions ms window =
     (let ms' = (if ms \<le> 0 then 10000 else ms);
          window' = (if window \<le> 0 then 5 * 60 * Second else window);
          w = window' div Second;
          w' = (if w < 1 then 1 else w)
      in \<lparr>maxSize = nat ms', windowSecs = w', order = [], index = Map.empty,
          entries = (\<lambda>_. \<lparr>re_clientID = [], re_ts = 0\<rparr>), next_el = 0\<rparr>)"

definition NewReplayCache :: "int \<Rightarrow> int \<Rightarrow> replayCache" where
  "NewReplayCache ms window = NewReplayCacheWithOptions ms window"

text \<open>The FIFO eviction loop, \<open>for c.order.Len() >= c.maxSize\<close>: a cache and the remaining list.\<close>

fun capacity_evict :: "nat \<Rightarrow> (nat \<Rightarrow> replayEntry) \<Rightarrow> nat list \<Rightarrow> (bytes \<rightharpoonup> nat) \<Rightarrow> nat list \<times> (bytes \<rightharpoonup> nat)" where
  "capacity_evict m ents [] ix = ([], ix)"
| "capacity_evict m ents (e # es) ix =
     (if m \<le> length (e # es) then capacity_evict m ents es (ix(re_clientID (ents e) := None))
      else (e # es, ix))"

definition Accept :: "bytes \<Rightarrow> int \<Rightarrow> replayCache \<Rightarrow> bool \<times> replayCache" where
  "Accept clientID ts c =
     (if windowSecs c = 0 then (True, c)
      else case index c clientID of
        Some el \<Rightarrow>
          (let diff = ts - re_ts (entries c el);
               diff' = (if diff < 0 then - diff else diff)
           in if diff' < windowSecs c then (False, c)
              else (True, c\<lparr>entries := (entries c)(el := (entries c el)\<lparr>re_ts := ts\<rparr>),
                            order := remove1 el (order c) @ [el]\<rparr>))
      | None \<Rightarrow>
          (case capacity_evict (maxSize c) (entries c) (order c) (index c) of
             (ord', ix') \<Rightarrow>
               (True, c\<lparr>entries := (entries c)(next_el c := \<lparr>re_clientID = clientID, re_ts = ts\<rparr>),
                        order := ord' @ [next_el c],
                        index := ix'(clientID \<mapsto> next_el c),
                        next_el := Suc (next_el c)\<rparr>)))"

definition rc_size :: "replayCache \<Rightarrow> nat" where
  "rc_size c = length (order c)"

fun evict_loop :: "int \<Rightarrow> (nat \<Rightarrow> replayEntry) \<Rightarrow> nat list \<Rightarrow> (bytes \<rightharpoonup> nat) \<Rightarrow> nat list \<times> (bytes \<rightharpoonup> nat)" where
  "evict_loop threshold ents [] ix = ([], ix)"
| "evict_loop threshold ents (e # es) ix =
     (if threshold < re_ts (ents e) then (e # es, ix)
      else evict_loop threshold ents es (ix(re_clientID (ents e) := None)))"

definition evictExpired :: "int \<Rightarrow> replayCache \<Rightarrow> replayCache" where
  "evictExpired now c =
     (let threshold = now - windowSecs c
      in case evict_loop threshold (entries c) (order c) (index c) of
           (ord', ix') \<Rightarrow> c\<lparr>order := ord', index := ix'\<rparr>)"

subsection \<open>Invariant and specification\<close>

definition rc_inv :: "replayCache \<Rightarrow> bool" where
  "rc_inv c \<longleftrightarrow>
     1 \<le> windowSecs c \<and> 1 \<le> maxSize c \<and> length (order c) \<le> maxSize c \<and>
     distinct (order c) \<and> (\<forall>e \<in> set (order c). e < next_el c) \<and>
     (\<forall>k e. index c k = Some e \<longleftrightarrow> e \<in> set (order c) \<and> re_clientID (entries c e) = k)"

definition rc_abs :: "replayCache \<Rightarrow> (bytes \<times> int) list" where
  "rc_abs c = map (\<lambda>e. (re_clientID (entries c e), re_ts (entries c e))) (order c)"

definition spec_rc_accept ::
  "nat \<Rightarrow> int \<Rightarrow> bytes \<Rightarrow> int \<Rightarrow> (bytes \<times> int) list \<Rightarrow> bool \<times> (bytes \<times> int) list" where
  "spec_rc_accept m w k t xs =
     (case map_of xs k of
        Some t0 \<Rightarrow> if \<bar>t - t0\<bar> < w then (False, xs) else (True, filter (\<lambda>p. fst p \<noteq> k) xs @ [(k, t)])
      | None \<Rightarrow> (True, drop (Suc (length xs) - m) xs @ [(k, t)]))"

definition spec_rc_evict :: "int \<Rightarrow> int \<Rightarrow> (bytes \<times> int) list \<Rightarrow> (bytes \<times> int) list" where
  "spec_rc_evict w now xs = dropWhile (\<lambda>p. snd p \<le> now - w) xs"

lemma rc_inv_new: "rc_inv (NewReplayCacheWithOptions ms window)"
  by (auto simp: rc_inv_def NewReplayCacheWithOptions_def Let_def)

lemma rc_abs_new: "rc_abs (NewReplayCacheWithOptions ms window) = []"
  by (simp add: rc_abs_def NewReplayCacheWithOptions_def Let_def)

text \<open>Both loops keep a suffix of the list and delete from the index exactly the keys they pass.\<close>

lemma capacity_evict_eq:
  "0 < m \<Longrightarrow> capacity_evict m ents es ix =
     (drop (Suc (length es) - m) es,
      ix |` (- (re_clientID \<circ> ents) ` set (take (Suc (length es) - m) es)))"
proof (induction es arbitrary: ix)
  case (Cons e es)
  show ?case
  proof (cases "m \<le> length (e # es)")
    case True
    then have "Suc (length (e # es)) - m = Suc (Suc (length es) - m)" by simp
    with True Cons show ?thesis by (auto simp: restrict_map_def fun_eq_iff)
  next
    case False
    then show ?thesis by (simp add: restrict_map_def)
  qed
qed (simp add: restrict_map_def)

lemma evict_loop_eq:
  "evict_loop th ents es ix =
     (dropWhile (\<lambda>e. re_ts (ents e) \<le> th) es,
      ix |` (- (re_clientID \<circ> ents) ` set (takeWhile (\<lambda>e. re_ts (ents e) \<le> th) es)))"
  by (induction es arbitrary: ix) (auto simp: restrict_map_def fun_eq_iff)

text \<open>Cutting a prefix off the list and its keys off the index keeps the two in agreement.\<close>

definition indexes :: "(bytes \<rightharpoonup> nat) \<Rightarrow> (nat \<Rightarrow> replayEntry) \<Rightarrow> nat list \<Rightarrow> bool" where
  "indexes ix ents es \<longleftrightarrow> distinct es \<and>
     (\<forall>k e. ix k = Some e \<longleftrightarrow> e \<in> set es \<and> re_clientID (ents e) = k)"

lemma indexes_inj: "\<lbrakk>indexes ix ents es; a \<in> set es; b \<in> set es; re_clientID (ents a) = re_clientID (ents b)\<rbrakk> \<Longrightarrow> a = b"
  unfolding indexes_def by (metis option.inject)

lemma indexes_cut:
  assumes ix: "indexes ix ents (xs @ ys)"
  shows "indexes (ix |` (- (re_clientID \<circ> ents) ` set xs)) ents ys"
proof -
  have sep: "re_clientID (ents e) \<notin> (re_clientID \<circ> ents) ` set xs" if "e \<in> set ys" for e
  proof
    assume "re_clientID (ents e) \<in> (re_clientID \<circ> ents) ` set xs"
    then obtain a where "a \<in> set xs" "re_clientID (ents e) = re_clientID (ents a)" by auto
    with indexes_inj [OF ix, of a e] that have "e \<in> set xs" by simp
    with ix that show False by (auto simp: indexes_def)
  qed
  have "(ix |` (- (re_clientID \<circ> ents) ` set xs)) k = Some e \<longleftrightarrow> e \<in> set ys \<and> re_clientID (ents e) = k" for k e
  proof (cases "k \<in> (re_clientID \<circ> ents) ` set xs")
    case True
    with sep [of e] show ?thesis by (auto simp: restrict_map_def)
  next
    case False
    then have "re_clientID (ents e) = k \<Longrightarrow> e \<notin> set xs" by auto
    with False ix show ?thesis by (auto simp: restrict_map_def indexes_def)
  qed
  with ix show ?thesis by (simp add: indexes_def)
qed

lemma indexes_push:
  assumes "indexes ix ents es" "ix (re_clientID v) = None" "a \<notin> set es"
  shows "indexes (ix(re_clientID v \<mapsto> a)) (ents(a := v)) (es @ [a])"
proof -
  have "re_clientID (ents e) \<noteq> re_clientID v" if "e \<in> set es" for e
    using assms(1,2) that by (metis indexes_def option.distinct(1))
  with assms show ?thesis unfolding indexes_def by (auto split: if_splits)
qed

lemma rc_inv_iff:
  "rc_inv c \<longleftrightarrow> 1 \<le> windowSecs c \<and> 1 \<le> maxSize c \<and> length (order c) \<le> maxSize c \<and>
     (\<forall>e \<in> set (order c). e < next_el c) \<and> indexes (index c) (entries c) (order c)"
  by (auto simp: rc_inv_def indexes_def)

lemma map_of_rc_abs:
  assumes "rc_inv c"
  shows "map_of (rc_abs c) k = map_option (\<lambda>e. re_ts (entries c e)) (index c k)"
proof (cases "index c k")
  case None
  with assms have "k \<notin> fst ` set (rc_abs c)" by (auto simp: rc_inv_def rc_abs_def) (metis option.distinct(1))
  with None show ?thesis by (simp add: map_of_eq_None_iff)
next
  case (Some e)
  with assms have e: "e \<in> set (order c)" "re_clientID (entries c e) = k" by (auto simp: rc_inv_def)
  have inj: "inj_on (\<lambda>e. re_clientID (entries c e)) (set (order c))"
    using assms indexes_inj by (auto simp: rc_inv_iff inj_on_def)
  have "distinct (map fst (rc_abs c))"
    using assms inj by (simp add: rc_abs_def comp_def distinct_map rc_inv_def)
  moreover have "(k, re_ts (entries c e)) \<in> set (rc_abs c)" using e by (auto simp: rc_abs_def)
  ultimately show ?thesis using Some by simp
qed

lemma windowSecs_pos: "rc_inv c \<Longrightarrow> windowSecs c \<noteq> 0"
  by (auto simp: rc_inv_def)

lemma map_fun_upd_fresh:
  "x \<notin> set es \<Longrightarrow> map (\<lambda>e. (g (if e = x then v else f e), h (if e = x then v else f e))) es = map (\<lambda>e. (g (f e), h (f e))) es"
  by (induction es) auto

lemma rc_abs_refresh:
  assumes "rc_inv c" "index c k = Some el"
  shows "map (\<lambda>e. (re_clientID (entries c e), re_ts (entries c e))) (remove1 el (order c)) =
     filter (\<lambda>p. fst p \<noteq> k) (rc_abs c)"
proof -
  have d: "distinct (order c)" using assms by (simp add: rc_inv_def)
  have "remove1 el (order c) = filter (\<lambda>e. re_clientID (entries c e) \<noteq> k) (order c)"
    unfolding distinct_remove1_removeAll [OF d] removeAll_filter_not_eq
    using assms indexes_inj [of "index c" "entries c" "order c"]
    by (intro filter_cong) (auto simp: rc_inv_iff indexes_def)
  then show ?thesis by (simp add: rc_abs_def filter_map comp_def)
qed

lemma Accept_found:
  assumes "rc_inv c" "index c k = Some el"
  shows "Accept k t c = (if \<bar>t - re_ts (entries c el)\<bar> < windowSecs c then (False, c)
     else (True, c\<lparr>entries := (entries c)(el := (entries c el)\<lparr>re_ts := t\<rparr>),
                    order := remove1 el (order c) @ [el]\<rparr>))"
  using assms(2) windowSecs_pos [OF assms(1)] by (simp add: Accept_def Let_def abs_if)

lemma Accept_refresh:
  fixes t :: int
  assumes "rc_inv c" "index c k = Some el" "\<not> \<bar>t - re_ts (entries c el)\<bar> < windowSecs c"
  defines "c' \<equiv> snd (Accept k t c)"
  shows "fst (Accept k t c)" "rc_inv c'"
    and "rc_abs c' = filter (\<lambda>p. fst p \<noteq> k) (rc_abs c) @ [(k, t)]"
proof -
  have c': "c' = c\<lparr>entries := (entries c)(el := (entries c el)\<lparr>re_ts := t\<rparr>), order := remove1 el (order c) @ [el]\<rparr>"
    and "fst (Accept k t c)"
    using assms(3) unfolding c'_def by (simp_all add: Accept_found [OF assms(1,2)])
  then show "fst (Accept k t c)" by simp
  have d: "distinct (order c)" and el: "el \<in> set (order c)" "re_clientID (entries c el) = k"
    using assms by (auto simp: rc_inv_def)
  from el(1) have "length (remove1 el (order c)) + 1 = length (order c)"
    by (simp add: length_remove1) (metis Suc_pred length_pos_if_in_set)
  then show "rc_inv c'" using assms(1) d el unfolding c'
    by (auto simp: rc_inv_def set_remove1_eq)
  have "el \<notin> set (remove1 el (order c))" using d by simp
  then show "rc_abs c' = filter (\<lambda>p. fst p \<noteq> k) (rc_abs c) @ [(k, t)]"
    using el rc_abs_refresh [OF assms(1,2)] unfolding c'
    by (simp add: rc_abs_def map_fun_upd_fresh)
qed

lemma Accept_fresh:
  fixes t :: int
  assumes "rc_inv c" "index c k = None"
  defines "c' \<equiv> snd (Accept k t c)"
  shows "fst (Accept k t c)" "rc_inv c'"
    and "rc_abs c' = drop (Suc (length (rc_abs c)) - maxSize c) (rc_abs c) @ [(k, t)]"
proof -
  let ?n = "Suc (length (order c)) - maxSize c" and ?el = "next_el c"
  let ?ix = "index c |` (- (re_clientID \<circ> entries c) ` set (take ?n (order c)))"
  have m: "0 < maxSize c" using assms by (simp add: rc_inv_def)
  have c': "c' = c\<lparr>entries := (entries c)(?el := \<lparr>re_clientID = k, re_ts = t\<rparr>),
      order := drop ?n (order c) @ [?el], index := ?ix(k \<mapsto> ?el), next_el := Suc ?el\<rparr>"
    and "fst (Accept k t c)"
    using assms capacity_evict_eq [OF m] by (auto simp: Accept_def rc_inv_def)
  then show "fst (Accept k t c)" by simp
  have new: "?el \<notin> set (order c)" using assms by (auto simp: rc_inv_def)
  have ix: "indexes ?ix (entries c) (drop ?n (order c))"
    using assms indexes_cut [of "index c" "entries c" "take ?n (order c)" "drop ?n (order c)"]
    by (simp add: rc_inv_iff)
  have sub: "set (drop ?n (order c)) \<subseteq> set (order c)" by (rule set_drop_subset)
  have ixk: "?ix k = None" using assms by (simp add: restrict_map_def)
  have "indexes (?ix(k \<mapsto> ?el)) ((entries c)(?el := \<lparr>re_clientID = k, re_ts = t\<rparr>)) (drop ?n (order c) @ [?el])"
    using indexes_push [OF ix, of "\<lparr>re_clientID = k, re_ts = t\<rparr>" ?el] ixk new sub by auto
  with assms(1) sub show "rc_inv c'" unfolding c' rc_inv_iff by (auto simp: less_Suc_eq)
  from new sub show "rc_abs c' = drop (Suc (length (rc_abs c)) - maxSize c) (rc_abs c) @ [(k, t)]"
    unfolding c' by (auto simp: rc_abs_def drop_map map_fun_upd_fresh)
qed

lemma Accept_params [simp]:
  "maxSize (snd (Accept k t c)) = maxSize c" "windowSecs (snd (Accept k t c)) = windowSecs c"
  by (auto simp: Accept_def Let_def split: option.splits prod.splits)

lemma Accept_refines:
  assumes "rc_inv c"
  shows "rc_inv (snd (Accept k t c))"
    and "(fst (Accept k t c), rc_abs (snd (Accept k t c))) = spec_rc_accept (maxSize c) (windowSecs c) k t (rc_abs c)"
proof -
  consider (none) "index c k = None"
    | (replay) el where "index c k = Some el" "\<bar>t - re_ts (entries c el)\<bar> < windowSecs c"
    | (again) el where "index c k = Some el" "\<not> \<bar>t - re_ts (entries c el)\<bar> < windowSecs c"
    by (cases "index c k") auto
  then have "rc_inv (snd (Accept k t c)) \<and>
    (fst (Accept k t c), rc_abs (snd (Accept k t c))) = spec_rc_accept (maxSize c) (windowSecs c) k t (rc_abs c)"
  proof cases
    case none
    then show ?thesis using Accept_fresh [OF assms none]
      by (simp add: spec_rc_accept_def map_of_rc_abs [OF assms])
  next
    case replay
    then have "Accept k t c = (False, c)" by (simp add: Accept_found [OF assms])
    with replay assms show ?thesis by (simp add: spec_rc_accept_def map_of_rc_abs [OF assms])
  next
    case again
    then show ?thesis using Accept_refresh [OF assms again]
      by (simp add: spec_rc_accept_def map_of_rc_abs [OF assms])
  qed
  then show "rc_inv (snd (Accept k t c))"
    and "(fst (Accept k t c), rc_abs (snd (Accept k t c))) = spec_rc_accept (maxSize c) (windowSecs c) k t (rc_abs c)"
    by auto
qed

lemma evictExpired_refines:
  assumes "rc_inv c"
  shows "rc_inv (evictExpired now c)"
    and "rc_abs (evictExpired now c) = spec_rc_evict (windowSecs c) now (rc_abs c)"
proof -
  let ?P = "\<lambda>e. re_ts (entries c e) \<le> now - windowSecs c"
  have ev: "evictExpired now c = c\<lparr>order := dropWhile ?P (order c),
      index := index c |` (- (re_clientID \<circ> entries c) ` set (takeWhile ?P (order c)))\<rparr>"
    by (simp add: evictExpired_def evict_loop_eq Let_def)
  have len: "length (dropWhile ?P (order c)) \<le> length (order c)" by (rule length_dropWhile_le)
  have "indexes (index c) (entries c) (takeWhile ?P (order c) @ dropWhile ?P (order c))"
    using assms by (simp add: rc_inv_iff)
  from indexes_cut [OF this] assms len show "rc_inv (evictExpired now c)"
    unfolding ev by (auto simp: rc_inv_iff dest: set_dropWhileD)
  show "rc_abs (evictExpired now c) = spec_rc_evict (windowSecs c) now (rc_abs c)"
    unfolding ev by (simp add: rc_abs_def spec_rc_evict_def dropWhile_map comp_def)
qed

subsection \<open>Runs of the cache\<close>

datatype rc_op = RcAccept bytes int | RcEvict int

fun rc_step :: "rc_op \<Rightarrow> replayCache \<Rightarrow> replayCache" where
  "rc_step (RcAccept k t) c = snd (Accept k t c)"
| "rc_step (RcEvict now) c = evictExpired now c"

fun rc_time :: "rc_op \<Rightarrow> int" where
  "rc_time (RcAccept k t) = t"
| "rc_time (RcEvict now) = now"

definition rc_run :: "rc_op list \<Rightarrow> replayCache \<Rightarrow> replayCache" where
  "rc_run ops c = fold rc_step ops c"

lemma evictExpired_params [simp]:
  "maxSize (evictExpired now c) = maxSize c" "windowSecs (evictExpired now c) = windowSecs c"
  by (auto simp: evictExpired_def Let_def split: prod.splits)

lemma rc_step_params [simp]:
  "maxSize (rc_step op c) = maxSize c" "windowSecs (rc_step op c) = windowSecs c"
  by (cases op; simp)+

lemma rc_inv_step: "rc_inv c \<Longrightarrow> rc_inv (rc_step op c)"
  by (cases op) (auto simp: Accept_refines evictExpired_refines)

lemma rc_run_params [simp]: "maxSize (rc_run ops c) = maxSize c" "windowSecs (rc_run ops c) = windowSecs c"
  unfolding rc_run_def by (induction ops arbitrary: c) auto

lemma rc_inv_run: "rc_inv c \<Longrightarrow> rc_inv (rc_run ops c)"
  unfolding rc_run_def by (induction ops arbitrary: c) (auto simp: rc_inv_step)

text \<open>
  \<open>k\<close> is remembered with time \<open>t\<close> and at most \<open>n\<close> entries are younger.
\<close>

definition remembered :: "bytes \<Rightarrow> int \<Rightarrow> nat \<Rightarrow> (bytes \<times> int) list \<Rightarrow> bool" where
  "remembered k t n xs \<longleftrightarrow> (\<exists>ys zs. xs = ys @ (k, t) # zs \<and> k \<notin> fst ` set ys \<and> length zs \<le> n)"

lemma remembered_map_of: "remembered k t n xs \<Longrightarrow> map_of xs k = Some t"
  unfolding remembered_def map_of_eq_None_iff [symmetric] by (auto simp: map_add_def)

lemma rememberedI: "\<lbrakk>k \<notin> fst ` set ys; length zs \<le> n\<rbrakk> \<Longrightarrow> remembered k t n (ys @ (k, t) # zs)"
  by (auto simp: remembered_def)

lemma remembered_mono: "\<lbrakk>remembered k t n xs; n \<le> n'\<rbrakk> \<Longrightarrow> remembered k t n' xs"
  unfolding remembered_def using le_trans by blast

lemma remembered_accept:
  assumes r: "remembered k t n xs" and n: "Suc n < m" and len: "length xs \<le> m"
    and w: "\<bar>t' - t\<bar> < w"
  shows "remembered k t (Suc n) (snd (spec_rc_accept m w k' t' xs))"
proof -
  from r obtain ys zs where xs: "xs = ys @ (k, t) # zs" and ys: "k \<notin> fst ` set ys" and zs: "length zs \<le> n"
    by (auto simp: remembered_def)
  note kt = remembered_map_of [OF r]
  consider (same) "map_of xs k' = Some t" "k' = k"
    | (refused) t0 where "map_of xs k' = Some t0" "\<bar>t' - t0\<bar> < w"
    | (moved) t0 where "k' \<noteq> k" "map_of xs k' = Some t0" "\<not> \<bar>t' - t0\<bar> < w"
    | (new) "k' \<noteq> k" "map_of xs k' = None"
    using kt by (cases "k' = k"; cases "map_of xs k'") auto
  then show ?thesis
  proof cases
    case same
    with w r show ?thesis by (simp add: spec_rc_accept_def remembered_mono)
  next
    case refused
    with r show ?thesis by (simp add: spec_rc_accept_def remembered_mono)
  next
    case moved
    have "length (filter (\<lambda>p. fst p \<noteq> k') zs) \<le> n"
      using zs length_filter_le le_trans by blast
    moreover have "k \<notin> fst ` set (filter (\<lambda>p. fst p \<noteq> k') ys)" using ys by auto
    ultimately show ?thesis
      using moved rememberedI [of k "filter (\<lambda>p. fst p \<noteq> k') ys" "filter (\<lambda>p. fst p \<noteq> k') zs @ [(k', t')]" "Suc n" t]
      by (auto simp: spec_rc_accept_def xs)
  next
    case new
    let ?d = "Suc (length xs) - m"
    have "?d \<le> length ys" using len n zs by (simp add: xs)
    then have "drop ?d xs = drop ?d ys @ (k, t) # zs" by (simp add: xs)
    moreover have "k \<notin> fst ` set (drop ?d ys)" using ys by (meson image_mono set_drop_subset subsetD)
    ultimately show ?thesis using new zs rememberedI [of k "drop ?d ys" "zs @ [(k', t')]" "Suc n" t]
      by (simp add: spec_rc_accept_def)
  qed
qed

lemma remembered_evict:
  assumes "remembered k t n xs" "now - w < t"
  shows "remembered k t n (spec_rc_evict w now xs)"
proof -
  from assms obtain ys zs where xs: "xs = ys @ (k, t) # zs" "k \<notin> fst ` set ys" "length zs \<le> n"
    by (auto simp: remembered_def)
  let ?P = "\<lambda>p. snd p \<le> now - w"
  have "dropWhile ?P xs = dropWhile ?P ys @ (k, t) # zs"
    using assms(2) by (simp add: xs dropWhile_append3)
  moreover have "k \<notin> fst ` set (dropWhile ?P ys)" using xs(2) by (auto dest: set_dropWhileD)
  ultimately show ?thesis using xs(3) by (simp add: rememberedI spec_rc_evict_def)
qed

lemma Accept_abs:
  assumes "rc_inv c"
  shows "fst (Accept k t c) = fst (spec_rc_accept (maxSize c) (windowSecs c) k t (rc_abs c))"
    and "rc_abs (snd (Accept k t c)) = snd (spec_rc_accept (maxSize c) (windowSecs c) k t (rc_abs c))"
  using Accept_refines(2) [OF assms, of k t] by (metis fst_conv, metis snd_conv)

lemma rc_abs_le: "rc_inv c \<Longrightarrow> length (rc_abs c) \<le> maxSize c"
  by (simp add: rc_abs_def rc_inv_def)

lemma remembered_step:
  assumes "rc_inv c" "remembered k t n (rc_abs c)" "Suc n < maxSize c" "\<bar>rc_time op - t\<bar> < windowSecs c"
  shows "remembered k t (Suc n) (rc_abs (rc_step op c))"
proof (cases op)
  case (RcAccept k' t')
  with assms show ?thesis
    by (simp add: Accept_abs remembered_accept rc_abs_le)
next
  case (RcEvict now)
  with assms remembered_evict [OF remembered_mono [OF assms(2)], of "Suc n" now "windowSecs c"] show ?thesis
    by (simp add: evictExpired_refines)
qed

lemma remembered_run:
  assumes "rc_inv c" "remembered k t n (rc_abs c)" "n + length ops < maxSize c"
    "\<And>op. op \<in> set ops \<Longrightarrow> \<bar>rc_time op - t\<bar> < windowSecs c"
  shows "remembered k t (n + length ops) (rc_abs (rc_run ops c))"
  using assms
proof (induction ops arbitrary: c n)
  case Nil
  then show ?case by (simp add: rc_run_def)
next
  case (Cons op ops)
  then have "remembered k t (Suc n) (rc_abs (rc_step op c))" by (intro remembered_step) auto
  with Cons.prems Cons.IH [of "rc_step op c" "Suc n"] show ?case by (simp add: rc_run_def rc_inv_step)
qed

lemma remembered_after_accept:
  assumes "rc_inv c" "fst (Accept k t c)"
  shows "remembered k t 0 (rc_abs (snd (Accept k t c)))"
proof -
  have mc: "0 < maxSize c" using assms(1) by (simp add: rc_inv_def)
  have no: "map_of (rc_abs c) k = None \<Longrightarrow> k \<notin> fst ` set (drop d (rc_abs c))" for d
    by (metis map_of_eq_None_iff image_mono set_drop_subset subsetD)
  have "k \<notin> fst ` set (filter (\<lambda>p. fst p \<noteq> k) (rc_abs c))" by auto
  with assms(2) no rememberedI [of k _ "[]" 0 t] show ?thesis
    by (auto simp: Accept_abs [OF assms(1)] spec_rc_accept_def split: option.splits if_splits)
qed

lemma remembered_refused:
  assumes "rc_inv c" "remembered k t n (rc_abs c)" "\<bar>t' - t\<bar> < windowSecs c"
  shows "\<not> fst (Accept k t' c)"
  using assms(3) remembered_map_of [OF assms(2)] by (simp add: Accept_abs [OF assms(1)] spec_rc_accept_def)

subsection \<open>Properties\<close>

text \<open>C21. The linked list with its index implements the association list: acceptance and
  contents agree with the specification, the index and the list stay consistent, and the size
  bound holds after every operation.\<close>

theorem replay_cache_refines:
  assumes "rc_inv c"
  shows "rc_inv (snd (Accept k t c)) \<and> rc_inv (evictExpired now c) \<and>
     (fst (Accept k t c), rc_abs (snd (Accept k t c))) = spec_rc_accept (maxSize c) (windowSecs c) k t (rc_abs c) \<and>
     rc_abs (evictExpired now c) = spec_rc_evict (windowSecs c) now (rc_abs c) \<and>
     rc_size (snd (Accept k t c)) \<le> maxSize c"
  using Accept_refines [OF assms] evictExpired_refines [OF assms] 
  by (simp add: rc_size_def) (metis Accept_params(1) rc_inv_def)

theorem replay_cache_refines_witness:
  "rc_abs (snd (Accept [1] 100 (NewReplayCache 2 0))) = [([1], 100)]"
  using replay_cache_refines [OF rc_inv_new, of "[1]" 100 2 0 0]
  by (simp add: NewReplayCache_def rc_abs_new spec_rc_accept_def)

text \<open>Once a key is accepted it is refused at every time inside the protection window, whatever
  other keys are presented and whenever the background eviction runs, as long as fewer than
  \<open>maxSize\<close> operations came in between.\<close>

theorem replay_refused_in_window:
  assumes "rc_inv c" "fst (Accept k t c)" "length ops < maxSize c"
    and "\<forall>op \<in> set ops. \<bar>rc_time op - t\<bar> < windowSecs c" "\<bar>t' - t\<bar> < windowSecs c"
  shows "\<not> fst (Accept k t' (rc_run ops (snd (Accept k t c))))"
proof -
  let ?c = "snd (Accept k t c)"
  have inv: "rc_inv ?c" by (rule Accept_refines(1) [OF assms(1)])
  have "remembered k t (0 + length ops) (rc_abs (rc_run ops ?c))"
    by (rule remembered_run [OF inv remembered_after_accept [OF assms(1,2)]]) (use assms in auto)
  then show ?thesis by (rule remembered_refused [OF rc_inv_run [OF inv]]) (use assms in simp)
qed

theorem replay_refused_in_window_witness:
  "\<not> fst (Accept [1] 399 (rc_run [RcAccept [2] 150, RcEvict 399] (snd (Accept [1] 100 (NewReplayCache 0 0)))))"
proof -
  have "index (NewReplayCacheWithOptions 0 0) = Map.empty" "windowSecs (NewReplayCacheWithOptions 0 0) = 300" "maxSize (NewReplayCacheWithOptions 0 0) = 10000"
    by (simp_all add: NewReplayCacheWithOptions_def Second_def)
  moreover from this have "fst (Accept [1] 100 (NewReplayCacheWithOptions 0 0))" by (simp add: Accept_def split: prod.split)
  ultimately show ?thesis
    using replay_refused_in_window [OF rc_inv_new, of "[1]" 100 0 0 "[RcAccept [2] 150, RcEvict 399]" 399]
    by (simp add: NewReplayCache_def)
qed

end
