(* ===== verification/Handshake.thy ===== *)
theory Handshake
  imports Session_Manager Replay_Cache
begin

section \<open>The handshake: client identity, key schedule and stream proofs\<close>

text \<open>
  Models \<open>src/core/crypto.go\<close>, \<open>src/core/handshake.go\<close> and \<open>src/core/migrate.go\<close>.  X25519,
  HKDF-SHA256, NaCl box and HMAC-SHA256 are the argument \<open>C\<close> of the definitions that use them;
  \<open>dh_ok\<close>, \<open>hkdf_ok\<close> and \<open>box_ok\<close> state what their documentation promises.  A call of the
  random source is an optional byte string (\<open>None\<close>: it failed), the clock an argument in
  seconds.

  Shown: a hello the client builds is decoded to the client's identity as long as the two
  clocks are within 300 s; both sides of a handshake end with the same identifier and
  mirrored keys, so every chunk one side encrypts the other decrypts; the drift check bounds
  the timestamp although the subtraction is 64-bit; and, for the server's gate of drift check
  and replay cache, when a captured hello can come back.
\<close>

record crypto =
  dh_pub :: "bytes \<Rightarrow> bytes"                       \<comment> \<open>public key of a private key\<close>
  dh :: "bytes \<Rightarrow> bytes \<Rightarrow> bytes option"           \<comment> \<open>\<open>ECDH\<close>; \<open>None\<close> for a bad or low-order key\<close>
  hkdf :: "bytes \<Rightarrow> bytes \<Rightarrow> bytes \<Rightarrow> nat \<Rightarrow> bytes"   \<comment> \<open>ikm, salt, info: the first n bytes\<close>
  box_seal :: "bytes \<Rightarrow> bytes \<Rightarrow> bytes \<Rightarrow> bytes \<Rightarrow> bytes"          \<comment> \<open>message, nonce, peer public, private\<close>
  box_open :: "bytes \<Rightarrow> bytes \<Rightarrow> bytes \<Rightarrow> bytes \<Rightarrow> bytes option"   \<comment> \<open>box, nonce, peer public, private\<close>
  hmac :: "bytes \<Rightarrow> bytes \<Rightarrow> bytes"

definition dh_ok :: "crypto \<Rightarrow> bool" where
  "dh_ok C \<longleftrightarrow> (\<forall>sk. length sk = 32 \<longrightarrow> length (dh_pub C sk) = 32) \<and>
     (\<forall>a b. length a = 32 \<longrightarrow> length b = 32 \<longrightarrow>
        dh C a (dh_pub C b) = dh C b (dh_pub C a) \<and> dh C a (dh_pub C b) \<noteq> None)"

definition hkdf_ok :: "crypto \<Rightarrow> bool" where
  "hkdf_ok C \<longleftrightarrow> (\<forall>ikm salt info n. n \<le> 255 * 32 \<longrightarrow> length (hkdf C ikm salt info n) = n)"

definition box_ok :: "crypto \<Rightarrow> bool" where
  "box_ok C \<longleftrightarrow>
     (\<forall>m n a b. length n = 24 \<longrightarrow> length a = 32 \<longrightarrow> length b = 32 \<longrightarrow>
        length (box_seal C m n (dh_pub C b) a) = length m + 16 \<and>
        box_open C (box_seal C m n (dh_pub C b) a) n (dh_pub C a) b = Some m)"

lemmas crypto_ok_defs = dh_ok_def hkdf_ok_def box_ok_def

datatype hs_error =
    ClientIDTooLong | HsRandError | BadEncSize | CipherTooShort | BoxFailed | PlainTooShort
  | TimestampExpired | BadIDSize | BadPadding | BadClientHello | BadPublicKey | TokenTooShort
  | BadToken | BadServerHello | NilServerHello | HsSession session_error | HsChunk chunk_error

subsection \<open>Client identity (crypto.go)\<close>

definition HandshakeDriftWindowSecs :: int where "HandshakeDriftWindowSecs = 300"
definition EncryptedClientIDSize :: nat where "EncryptedClientIDSize = 65"

record keyPair =
  kp_Public :: bytes
  kp_Private :: bytes

definition GenerateKeyPair :: "crypto \<Rightarrow> bytes option \<Rightarrow> (hs_error, keyPair) outcome" where
  "GenerateKeyPair C rnd =
     (case rnd of None \<Rightarrow> Err HsRandError
      | Some sk \<Rightarrow> Ok \<lparr>kp_Public = dh_pub C sk, kp_Private = sk\<rparr>)"

definition KeyPairFromPrivate :: "crypto \<Rightarrow> bytes \<Rightarrow> (hs_error, keyPair) outcome" where
  "KeyPairFromPrivate C privBytes =
     (if length privBytes \<noteq> 32 then Err BadPublicKey
      else Ok \<lparr>kp_Public = dh_pub C privBytes, kp_Private = privBytes\<rparr>)"

definition ComputeSharedSecret :: "crypto \<Rightarrow> keyPair \<Rightarrow> bytes \<Rightarrow> (hs_error, bytes) outcome" where
  "ComputeSharedSecret C kp remotePub =
     (if length remotePub \<noteq> 32 then Err BadPublicKey
      else case dh C (kp_Private kp) remotePub of None \<Rightarrow> Err BadPublicKey | Some s \<Rightarrow> Ok s)"

text \<open>The prefix \<open>shadowlink-v\<close> of the key schedule's info string.\<close>

definition info_prefix :: bytes where
  "info_prefix = [0x73, 0x68, 0x61, 0x64, 0x6f, 0x77, 0x6c, 0x69, 0x6e, 0x6b, 0x2d, 0x76]"

definition session_info :: "byte \<Rightarrow> bytes \<Rightarrow> bytes \<Rightarrow> bytes \<Rightarrow> bytes" where
  "session_info protoVersion clientPub serverPub clientID =
     info_prefix @ [protoVersion] @ clientPub @ serverPub @ clientID"

text \<open>\<open>DeriveSessionKeys\<close>: send key and receive key are consecutive reads of one HKDF stream.\<close>

definition DeriveSessionKeys ::
  "crypto \<Rightarrow> bytes \<Rightarrow> bytes \<Rightarrow> bytes \<Rightarrow> bytes \<Rightarrow> byte \<Rightarrow> bytes \<times> bytes" where
  "DeriveSessionKeys C sharedSecret clientPub serverPub clientID protoVersion =
     (let salt = clientPub @ serverPub;
          stream = hkdf C sharedSecret salt (session_info protoVersion clientPub serverPub clientID) 64
      in (take 32 stream, take 32 (drop 32 stream)))"

text \<open>\<open>var a [32]byte; copy(a[:], b)\<close>\<close>

definition arr32 :: "bytes \<Rightarrow> bytes" where
  "arr32 b = go_copy 0 b (zeros 32)"

definition EncryptClientID ::
  "crypto \<Rightarrow> int \<Rightarrow> bytes option \<Rightarrow> bytes \<Rightarrow> bytes \<Rightarrow> keyPair \<Rightarrow> (hs_error, bytes) outcome" where
  "EncryptClientID C now rnd clientID receiverPub sender =
     (if length clientID > 16 then Err ClientIDTooLong
      else let plaintext = put64 (of_int now) @ [of_nat (length clientID)] @ clientID
           in case rnd of None \<Rightarrow> Err HsRandError
              | Some nonce \<Rightarrow>
                  Ok (nonce @ box_seal C plaintext nonce (arr32 receiverPub) (arr32 (kp_Private sender))))"

text \<open>\<open>DecryptClientID\<close>; the age \<open>timeNow() - ts\<close> is a 64-bit subtraction.\<close>

definition hello_ts :: "bytes \<Rightarrow> u64" where
  "hello_ts decrypted = get64 (take 8 decrypted)"

definition DecryptClientID ::
  "crypto \<Rightarrow> int \<Rightarrow> bytes \<Rightarrow> bytes \<Rightarrow> keyPair \<Rightarrow> (hs_error, bytes) outcome" where
  "DecryptClientID C now encrypted senderPub receiver =
     (if length encrypted \<noteq> EncryptedClientIDSize then Err BadEncSize
      else if length encrypted < 24 then Err CipherTooShort
      else case box_open C (drop 24 encrypted) (take 24 encrypted) (arr32 senderPub) (arr32 (kp_Private receiver)) of
        None \<Rightarrow> Err BoxFailed
      | Some decrypted \<Rightarrow>
        if length decrypted < 9 then Err PlainTooShort
        else let diff = sint (of_int now - hello_ts decrypted)
             in if diff > HandshakeDriftWindowSecs \<or> diff < - HandshakeDriftWindowSecs then Err TimestampExpired
                else let idLen = unat (decrypted ! 8)
                     in if idLen \<noteq> 16 then Err BadIDSize
                        else if idLen > length decrypted - 9 then Err BadPadding
                        else Ok (take idLen (drop 9 decrypted)))"

subsection \<open>Hello messages (handshake.go)\<close>

record clientHello =
  ch_EphemeralPub :: bytes
  ch_EncryptedClientID :: bytes

record serverHello =
  sh_EphemeralPub :: bytes
  sh_EncryptedSessionToken :: bytes
  sh_SessionID :: u32
  sh_MaxConnsPerClient :: byte
  sh_ChunkSize :: u16
  sh_ProtoVersion :: "byte option"
  sh_FingerprintWeights :: "(string \<rightharpoonup> int) option"

record hsClientState =
  cs_Ephemeral :: keyPair
  cs_ClientID :: bytes
  cs_ServerPub :: bytes

definition NewClientHello ::
  "crypto \<Rightarrow> int \<Rightarrow> bytes option \<Rightarrow> bytes option \<Rightarrow> bytes \<Rightarrow> bytes \<Rightarrow>
   (hs_error, clientHello \<times> hsClientState) outcome" where
  "NewClientHello C now ephRnd nonceRnd clientID serverStaticPub =
     bind_outcome (GenerateKeyPair C ephRnd) (\<lambda>ephemeral.
     bind_outcome (EncryptClientID C now nonceRnd clientID serverStaticPub ephemeral) (\<lambda>enc.
       Ok (\<lparr>ch_EphemeralPub = kp_Public ephemeral, ch_EncryptedClientID = enc\<rparr>,
           \<lparr>cs_Ephemeral = ephemeral, cs_ClientID = clientID, cs_ServerPub = serverStaticPub\<rparr>)))"

definition encryptSessionToken ::
  "gcm \<Rightarrow> bytes option \<Rightarrow> u32 \<Rightarrow> bytes \<Rightarrow> (hs_error, bytes) outcome" where
  "encryptSessionToken G rnd sid key =
     (case newGCM key of
        Ok k \<Rightarrow> (case rnd of None \<Rightarrow> Err HsRandError
                 | Some nonce \<Rightarrow> Ok (nonce @ gcm_seal G k nonce (put32 sid) []))
      | Err e \<Rightarrow> Err (HsChunk e) | Panic \<Rightarrow> Panic)"

definition decryptSessionToken :: "gcm \<Rightarrow> bytes \<Rightarrow> bytes \<Rightarrow> (hs_error, u32) outcome" where
  "decryptSessionToken G data key =
     (case newGCM key of
        Ok k \<Rightarrow>
          (if length data < NonceSize + 4 + TagSize then Err TokenTooShort
           else case gcm_open G k (take NonceSize data) (drop NonceSize data) [] of
                  None \<Rightarrow> Err (HsChunk AuthError)
                | Some plaintext \<Rightarrow>
                    if length plaintext < 4 then Err BadToken else Ok (get32 (take 4 plaintext)))
      | Err e \<Rightarrow> Err (HsChunk e) | Panic \<Rightarrow> Panic)"

text \<open>
  The random bytes of one server handshake: the ephemeral key, the session's migrate nonce
  and the token nonce.
\<close>

record hs_random =
  r_eph :: "bytes option"
  r_migrate :: bytes
  r_token :: "bytes option"

definition HandleClientHelloWithVersion ::
  "crypto \<Rightarrow> gcm \<Rightarrow> int \<Rightarrow> instant \<Rightarrow> hs_random \<Rightarrow> clientHello \<Rightarrow> keyPair \<Rightarrow> byte \<Rightarrow> u16 \<Rightarrow> byte \<Rightarrow>
   sessionManager \<Rightarrow> (hs_error, serverHello \<times> session \<times> bytes) outcome \<times> sessionManager" where
  "HandleClientHelloWithVersion C G now nowNs R hello serverStatic maxConns chunkSize protoVersion sm =
     (case DecryptClientID C now (ch_EncryptedClientID hello) (ch_EphemeralPub hello) serverStatic of
        Err e \<Rightarrow> (Err BadClientHello, sm) | Panic \<Rightarrow> (Panic, sm)
      | Ok clientID \<Rightarrow>
     (case GenerateKeyPair C (r_eph R) of
        Err e \<Rightarrow> (Err e, sm) | Panic \<Rightarrow> (Panic, sm)
      | Ok serverEph \<Rightarrow>
     (case ComputeSharedSecret C serverEph (ch_EphemeralPub hello) of
        Err e \<Rightarrow> (Err e, sm) | Panic \<Rightarrow> (Panic, sm)
      | Ok shared \<Rightarrow>
     (case DeriveSessionKeys C shared (ch_EphemeralPub hello) (kp_Public serverEph) clientID protoVersion of
        (sendKey, recvKey) \<Rightarrow>
     (case Create nowNs (r_migrate R) recvKey sendKey sm of
        (Err e, sm1) \<Rightarrow> (Err (HsSession e), sm1) | (Panic, sm1) \<Rightarrow> (Panic, sm1)
      | (Ok s, sm1) \<Rightarrow>
     (case encryptSessionToken G (r_token R) (ID s) sendKey of
        Err e \<Rightarrow> (Err e, sm1) | Panic \<Rightarrow> (Panic, sm1)
      | Ok token \<Rightarrow>
          (Ok (\<lparr>sh_EphemeralPub = kp_Public serverEph, sh_EncryptedSessionToken = token,
                sh_SessionID = ID s, sh_MaxConnsPerClient = maxConns, sh_ChunkSize = chunkSize,
                sh_ProtoVersion = None, sh_FingerprintWeights = None\<rparr>, s, clientID), sm1)))))))"

definition HandleClientHello ::
  "crypto \<Rightarrow> gcm \<Rightarrow> int \<Rightarrow> instant \<Rightarrow> hs_random \<Rightarrow> clientHello \<Rightarrow> keyPair \<Rightarrow> byte \<Rightarrow> u16 \<Rightarrow>
   sessionManager \<Rightarrow> (hs_error, serverHello \<times> session \<times> bytes) outcome \<times> sessionManager" where
  "HandleClientHello C G now nowNs R hello serverStatic maxConns chunkSize sm =
     HandleClientHelloWithVersion C G now nowNs R hello serverStatic maxConns chunkSize 0 sm"

definition CompleteHandshakeWithVersion ::
  "crypto \<Rightarrow> gcm \<Rightarrow> instant \<Rightarrow> bytes \<Rightarrow> hsClientState \<Rightarrow> serverHello \<Rightarrow> byte \<Rightarrow> (hs_error, session) outcome" where
  "CompleteHandshakeWithVersion C G nowNs mnonce state hello protoVersion =
     bind_outcome (ComputeSharedSecret C (cs_Ephemeral state) (sh_EphemeralPub hello)) (\<lambda>shared.
       case DeriveSessionKeys C shared (kp_Public (cs_Ephemeral state)) (sh_EphemeralPub hello)
              (cs_ClientID state) protoVersion of
         (sendKey, recvKey) \<Rightarrow>
           (case decryptSessionToken G (sh_EncryptedSessionToken hello) sendKey of
              Ok sid \<Rightarrow> Ok (NewSession nowNs mnonce sid sendKey recvKey)
            | Err e \<Rightarrow> Err BadServerHello
            | Panic \<Rightarrow> Panic))"

definition CompleteHandshake ::
  "crypto \<Rightarrow> gcm \<Rightarrow> instant \<Rightarrow> bytes \<Rightarrow> hsClientState \<Rightarrow> serverHello option \<Rightarrow> (hs_error, session) outcome" where
  "CompleteHandshake C G nowNs mnonce state hello =
     (case hello of None \<Rightarrow> Err NilServerHello
      | Some h \<Rightarrow>
          (let pv = (case sh_ProtoVersion h of None \<Rightarrow> 0 | Some v \<Rightarrow> v)
           in CompleteHandshakeWithVersion C G nowNs mnonce state h pv))"

subsection \<open>Stream proofs (migrate.go)\<close>

text \<open>The salt \<open>shadowlink-migrate-v1\<close>.\<close>

definition migrateHKDFSalt :: bytes where
  "migrateHKDFSalt = [0x73, 0x68, 0x61, 0x64, 0x6f, 0x77, 0x6c, 0x69, 0x6e, 0x6b, 0x2d,
     0x6d, 0x69, 0x67, 0x72, 0x61, 0x74, 0x65, 0x2d, 0x76, 0x31]"

definition DeriveServerPerClientKey :: "crypto \<Rightarrow> bytes \<Rightarrow> bytes \<Rightarrow> bytes" where
  "DeriveServerPerClientKey C serverMasterKey clientID = hkdf C serverMasterKey migrateHKDFSalt clientID 32"

definition ComputeStreamProof :: "crypto \<Rightarrow> bytes \<Rightarrow> bytes \<Rightarrow> u16 \<Rightarrow> bytes \<Rightarrow> bytes" where
  "ComputeStreamProof C perClientKey clientID globalStreamID nonce =
     arr32 (hmac C perClientKey (clientID @ put16 globalStreamID @ nonce))"

definition VerifyStreamProof :: "crypto \<Rightarrow> bytes \<Rightarrow> bytes \<Rightarrow> bytes \<Rightarrow> u16 \<Rightarrow> bytes \<Rightarrow> bool" where
  "VerifyStreamProof C received perClientKey clientID globalStreamID nonce \<longleftrightarrow>
     received = ComputeStreamProof C perClientKey clientID globalStreamID nonce"

subsection \<open>Identity round trip and freshness\<close>

lemma arr32_exact: "length b = 32 \<Longrightarrow> arr32 b = b"
  by (simp add: arr32_def go_copy_def zeros_def)

lemma dh_okD:
  assumes "dh_ok C" "length a = 32" "length b = 32"
  shows "length (dh_pub C a) = 32" "dh C a (dh_pub C b) = dh C b (dh_pub C a)" "\<exists>s. dh C a (dh_pub C b) = Some s"
  using assms unfolding dh_ok_def by blast+

lemma box_okD:
  assumes "box_ok C" "length n = 24" "length a = 32" "length b = 32"
  shows "length (box_seal C m n (dh_pub C b) a) = length m + 16"
    and "box_open C (box_seal C m n (dh_pub C b) a) n (dh_pub C a) b = Some m"
  using assms by (simp_all add: box_ok_def)

definition keyPair_ok :: "crypto \<Rightarrow> keyPair \<Rightarrow> bool" where
  "keyPair_ok C kp \<longleftrightarrow> length (kp_Private kp) = 32 \<and> kp_Public kp = dh_pub C (kp_Private kp)"

lemma KeyPairFromPrivate_ok: "KeyPairFromPrivate C sk = Ok kp \<Longrightarrow> keyPair_ok C kp"
  by (auto simp: KeyPairFromPrivate_def keyPair_ok_def split: if_splits)

text \<open>The clock range in which Unix seconds and their differences stay inside 64 bits.\<close>

definition clock_ok :: "int \<Rightarrow> bool" where
  "clock_ok t \<longleftrightarrow> 0 \<le> t \<and> t < 2 ^ 62"

lemma sint_of_int64:
  assumes "- (2 ^ 63) \<le> x" "x < 2 ^ 63" shows "sint (of_int x :: u64) = x"
proof -
  have "sint (of_int x :: u64) = signed_take_bit 63 x" by (simp add: sint_sbintrunc')
  with assms show ?thesis by (simp add: signed_take_bit_int_eq_self)
qed

lemma sint_diff_clock:
  assumes "clock_ok a" "clock_ok b"
  shows "sint (of_int a - of_int b :: u64) = a - b"
  using sint_of_int64 [of "a - b"] assms by (simp add: clock_ok_def)

lemma hello_plain:
  "hello_ts (put64 t @ [b] @ cid) = t" "(put64 t @ [b] @ cid) ! 8 = b" "drop 9 (put64 t @ [b] @ cid) = cid"
proof -
  have "length (put64 t) = 8" by simp
  then show "(put64 t @ [b] @ cid) ! 8 = b" "drop 9 (put64 t @ [b] @ cid) = cid" by (simp_all add: nth_append)
  show "hello_ts (put64 t @ [b] @ cid) = t" by (simp add: hello_ts_def wire_simps)
qed

lemma EncryptClientID_wire:
  assumes "length cid \<le> 16" "keyPair_ok C cl" "keyPair_ok C srv" "dh_ok C"
  shows "EncryptClientID C now (Some nonce) cid (kp_Public srv) cl =
    Ok (nonce @ box_seal C (put64 (of_int now) @ [of_nat (length cid)] @ cid) nonce (dh_pub C (kp_Private srv)) (kp_Private cl))"
  using assms dh_okD(1) [OF assms(4), of "kp_Private srv" "kp_Private srv"]
  by (simp add: EncryptClientID_def keyPair_ok_def arr32_exact)

lemma DecryptClientID_boxed:
  assumes C: "box_ok C" "dh_ok C" and kp: "keyPair_ok C cl" "keyPair_ok C srv" and n: "length nonce = 24"
    and e: "e = nonce @ box_seal C (put64 t @ [of_nat (length cid)] @ cid) nonce (dh_pub C (kp_Private srv)) (kp_Private cl)"
    and cid: "length cid \<le> 16"
  shows "DecryptClientID C now e (kp_Public cl) srv =
     (if length cid \<noteq> 16 then Err BadEncSize
      else if \<bar>sint (of_int now - t)\<bar> \<le> HandshakeDriftWindowSecs then Ok cid else Err TimestampExpired)"
proof -
  let ?m = "put64 t @ [of_nat (length cid)] @ cid"
  have sk: "length (kp_Private cl) = 32" "length (kp_Private srv) = 32" "kp_Public cl = dh_pub C (kp_Private cl)"
    using kp by (auto simp: keyPair_ok_def)
  note pk = dh_okD(1) [OF C(2) sk(1) sk(1)]
  have len: "length e = 49 + length cid" using box_okD(1) [OF C(1) n sk(1,2)] n by (simp add: e)
  have drop: "drop 24 e = box_seal C ?m nonce (dh_pub C (kp_Private srv)) (kp_Private cl)" "take 24 e = nonce"
    using n by (simp_all add: e)
  have opn: "box_open C (drop 24 e) (take 24 e) (arr32 (kp_Public cl)) (arr32 (kp_Private srv)) = Some ?m"
    unfolding drop sk(3) arr32_exact [OF pk] arr32_exact [OF sk(2)] by (rule box_okD(2) [OF C(1) n sk(1,2)])
  show ?thesis
  proof (cases "length cid = 16")
    case False
    then show ?thesis by (simp add: DecryptClientID_def len EncryptedClientIDSize_def)
  next
    case True
    with opn hello_plain [of t "of_nat (length cid)" cid] len show ?thesis
      by (auto simp: DecryptClientID_def EncryptedClientIDSize_def Let_def HandshakeDriftWindowSecs_def)
  qed
qed

text \<open>Whatever the server decodes carries a timestamp within the drift window of its clock.\<close>

lemma sint_small_diff:
  assumes "clock_ok now" "\<bar>sint (of_int now - t :: u64)\<bar> \<le> 300"
  shows "\<bar>now - sint t\<bar> \<le> 300"
proof -
  let ?d = "sint (of_int now - t :: u64)"
  have "t = of_int (now - ?d)" by simp
  moreover have "- (2 ^ 63) \<le> now - ?d" "now - ?d < 2 ^ 63" using assms by (auto simp: clock_ok_def)
  ultimately have "sint t = now - ?d" using sint_of_int64 by metis
  with assms show ?thesis by simp
qed

lemma DecryptClientID_fresh:
  assumes "clock_ok now" "DecryptClientID C now e pub srv = Ok cid"
  obtains d where "box_open C (drop 24 e) (take 24 e) (arr32 pub) (arr32 (kp_Private srv)) = Some d"
    "\<bar>now - sint (hello_ts d)\<bar> \<le> HandshakeDriftWindowSecs" "length cid = 16" "cid = take 16 (drop 9 d)"
proof -
  from assms(2) obtain d where d: "box_open C (drop 24 e) (take 24 e) (arr32 pub) (arr32 (kp_Private srv)) = Some d"
    "\<bar>sint (of_int now - hello_ts d)\<bar> \<le> 300" "unat (d ! 8) = 16" "16 \<le> length d - 9" "cid = take 16 (drop 9 d)"
    by (auto simp: DecryptClientID_def Let_def HandshakeDriftWindowSecs_def split: option.splits if_splits)
  with sint_small_diff [OF assms(1) d(2)] that show ?thesis by (simp add: HandshakeDriftWindowSecs_def)
qed

subsection \<open>Agreement\<close>

lemma length_hkdf: "\<lbrakk>hkdf_ok C; n \<le> 8160\<rbrakk> \<Longrightarrow> length (hkdf C ikm salt info n) = n"
  by (simp add: hkdf_ok_def)

lemma DeriveSessionKeys_lengths:
  assumes "hkdf_ok C" "DeriveSessionKeys C sh cp sp cid v = (sk, rk)"
  shows "length sk = 32" "length rk = 32"
  using assms length_hkdf [OF assms(1)] by (auto simp: DeriveSessionKeys_def Let_def)

lemma session_token_roundtrip:
  assumes "gcm_ok G" "length key = 32" "length nonce = NonceSize"
  shows "encryptSessionToken G (Some nonce) sid key = Ok (nonce @ gcm_seal G key nonce (put32 sid) [])"
    and "decryptSessionToken G (nonce @ gcm_seal G key nonce (put32 sid) []) key = Ok sid"
  using assms by (simp_all add: encryptSessionToken_def decryptSessionToken_def newGCM_def gcm_okD wire_simps)

text \<open>
  A complete run of the protocol: the client's hello, the server's answer, the client's
  completion, under the same protocol version.
\<close>

definition handshake_run ::
  "crypto \<Rightarrow> gcm \<Rightarrow> int \<Rightarrow> bytes \<Rightarrow> bytes \<Rightarrow> bytes \<Rightarrow> int \<Rightarrow> hs_random \<Rightarrow> keyPair \<Rightarrow> byte \<Rightarrow> sessionManager \<Rightarrow>
   (hs_error, session \<times> session \<times> bytes) outcome \<times> sessionManager" where
  "handshake_run C G clientNow ephSk boxNonce cid serverNow R srv v sm =
     (case NewClientHello C clientNow (Some ephSk) (Some boxNonce) cid (kp_Public srv) of
        Ok (hello, state) \<Rightarrow>
          (case HandleClientHelloWithVersion C G serverNow 0 R hello srv 0 0 v sm of
             (Ok (sh, ss, scid), sm1) \<Rightarrow>
               (case CompleteHandshakeWithVersion C G 0 [] state sh v of
                  Ok cs \<Rightarrow> (Ok (cs, ss, scid), sm1) | Err e \<Rightarrow> (Err e, sm1) | Panic \<Rightarrow> (Panic, sm1))
           | (Err e, sm1) \<Rightarrow> (Err e, sm1) | (Panic, sm1) \<Rightarrow> (Panic, sm1))
      | Err e \<Rightarrow> (Err e, sm) | Panic \<Rightarrow> (Panic, sm))"

lemma Create_ok:
  assumes "length sk = 32" "length rk = 32"
  shows "Create now nonce sk rk sm =
    (let sid = draw_id (nextID sm);
         s = (NewSession now nonce sid sk rk)\<lparr>sendEpochPtr := Some \<lparr>ep_gcm = sk, ep_nonce = 0\<rparr>, recvGCM := Some rk\<rparr>
     in (Ok s, sm\<lparr>nextID := sid, sessions := (sessions sm)(sid \<mapsto> s)\<rparr>))"
  using assms by (simp add: Create_def newGCM_def)

text \<open>Server and client session of a completed handshake.\<close>

definition mirrored :: "session \<Rightarrow> session \<Rightarrow> bool" where
  "mirrored cs ss \<longleftrightarrow> ID cs = ID ss \<and> SendKey cs = RecvKey ss \<and> RecvKey cs = SendKey ss \<and>
     length (SendKey cs) = 32 \<and> length (RecvKey cs) = 32 \<and> \<not> destroyed cs \<and> \<not> destroyed ss \<and>
     sendEpochPtr cs = None \<and> recvGCM cs = None \<and>
     sendEpochPtr ss = Some \<lparr>ep_gcm = SendKey ss, ep_nonce = 0\<rparr> \<and> recvGCM ss = Some (RecvKey ss)"

text \<open>The client's hello as it goes on the wire.\<close>

lemma NewClientHello_wire:
  assumes C: "dh_ok C" "box_ok C" and srv: "keyPair_ok C srv" and cid: "length cid = 16"
    and rnd: "length ephSk = 32" "length boxNonce = 24"
  obtains e where
    "NewClientHello C clientNow (Some ephSk) (Some boxNonce) cid (kp_Public srv) =
      Ok (\<lparr>ch_EphemeralPub = dh_pub C ephSk, ch_EncryptedClientID = e\<rparr>,
          \<lparr>cs_Ephemeral = \<lparr>kp_Public = dh_pub C ephSk, kp_Private = ephSk\<rparr>, cs_ClientID = cid, cs_ServerPub = kp_Public srv\<rparr>)"
    "\<And>now. \<lbrakk>clock_ok now; clock_ok clientNow; \<bar>now - clientNow\<bar> \<le> HandshakeDriftWindowSecs\<rbrakk> \<Longrightarrow>
       DecryptClientID C now e (dh_pub C ephSk) srv = Ok cid"
proof -
  let ?cl = "\<lparr>kp_Public = dh_pub C ephSk, kp_Private = ephSk\<rparr>"
  have cl: "keyPair_ok C ?cl" using rnd by (simp add: keyPair_ok_def)
  define e where "e = boxNonce @ box_seal C (put64 (of_int clientNow) @ [of_nat (length cid)] @ cid) boxNonce
      (dh_pub C (kp_Private srv)) (kp_Private ?cl)"
  have "NewClientHello C clientNow (Some ephSk) (Some boxNonce) cid (kp_Public srv) =
      Ok (\<lparr>ch_EphemeralPub = dh_pub C ephSk, ch_EncryptedClientID = e\<rparr>,
          \<lparr>cs_Ephemeral = ?cl, cs_ClientID = cid, cs_ServerPub = kp_Public srv\<rparr>)"
    using EncryptClientID_wire [of cid C ?cl srv clientNow boxNonce] cid cl srv C(1)
    by (simp add: NewClientHello_def GenerateKeyPair_def e_def)
  moreover have "DecryptClientID C now e (dh_pub C ephSk) srv = Ok cid"
    if "clock_ok now" "clock_ok clientNow" "\<bar>now - clientNow\<bar> \<le> HandshakeDriftWindowSecs" for now
    using DecryptClientID_boxed [OF C(2,1) cl srv rnd(2) e_def, of now] cid that by (simp add: sint_diff_clock)
  ultimately show thesis by (rule that)
qed

text \<open>
  Server side and client side of the key agreement.  The answer may get its version and
  weights filled in between, as the handler does.
\<close>

lemma server_client_agree:
  assumes C: "dh_ok C" "hkdf_ok C" and G: "gcm_ok G"
    and rnd: "length ephSk = 32" "r_eph R = Some srvEph" "length srvEph = 32" "r_token R = Some tokNonce" "length tokNonce = NonceSize"
    and dec: "DecryptClientID C now e (dh_pub C ephSk) srv = Ok cid"
    and state: "cs_Ephemeral state = \<lparr>kp_Public = dh_pub C ephSk, kp_Private = ephSk\<rparr>" "cs_ClientID state = cid"
  obtains sh ss cs where
    "HandleClientHelloWithVersion C G now nowNs R \<lparr>ch_EphemeralPub = dh_pub C ephSk, ch_EncryptedClientID = e\<rparr> srv mc chs v sm =
       (Ok (sh, ss, cid), sm\<lparr>nextID := ID ss, sessions := (sessions sm)(ID ss \<mapsto> ss)\<rparr>)"
    "ID ss = draw_id (nextID sm)" "mirrored cs ss"
    "\<And>pv fw. CompleteHandshakeWithVersion C G cnow mn state (sh\<lparr>sh_ProtoVersion := pv, sh_FingerprintWeights := fw\<rparr>) v = Ok cs"
    "sh_ProtoVersion sh = None" "sh_FingerprintWeights sh = None"
proof -
  obtain s where s: "dh C srvEph (dh_pub C ephSk) = Some s" "dh C ephSk (dh_pub C srvEph) = Some s"
    using dh_okD(2,3) [OF C(1) rnd(3,1)] by auto
  have pubs: "length (dh_pub C ephSk) = 32" "length (dh_pub C srvEph) = 32"
    using dh_okD(1) [OF C(1) rnd(1,1)] dh_okD(1) [OF C(1) rnd(3,3)] by auto
  obtain sk rk where keys: "DeriveSessionKeys C s (dh_pub C ephSk) (dh_pub C srvEph) cid v = (sk, rk)"
    by (cases "DeriveSessionKeys C s (dh_pub C ephSk) (dh_pub C srvEph) cid v")
  note lens = DeriveSessionKeys_lengths [OF C(2) keys]
  note tok = session_token_roundtrip [OF G lens(1) rnd(5)]
  let ?sid = "draw_id (nextID sm)"
  let ?cs = "NewSession cnow mn ?sid sk rk"
  let ?ss = "(NewSession nowNs (r_migrate R) ?sid rk sk)\<lparr>sendEpochPtr := Some \<lparr>ep_gcm = rk, ep_nonce = 0\<rparr>, recvGCM := Some sk\<rparr>"
  let ?sh = "\<lparr>sh_EphemeralPub = dh_pub C srvEph, sh_EncryptedSessionToken = tokNonce @ gcm_seal G sk tokNonce (put32 ?sid) [],
      sh_SessionID = ?sid, sh_MaxConnsPerClient = mc, sh_ChunkSize = chs, sh_ProtoVersion = None, sh_FingerprintWeights = None\<rparr>"
  have ID: "ID ?ss = ?sid" by (simp add: NewSession_def)
  show thesis
  proof (rule that [of ?sh ?ss ?cs])
    show "HandleClientHelloWithVersion C G now nowNs R \<lparr>ch_EphemeralPub = dh_pub C ephSk, ch_EncryptedClientID = e\<rparr> srv mc chs v sm =
       (Ok (?sh, ?ss, cid), sm\<lparr>nextID := ID ?ss, sessions := (sessions sm)(ID ?ss \<mapsto> ?ss)\<rparr>)"
      by (simp add: HandleClientHelloWithVersion_def dec GenerateKeyPair_def rnd(2,4) ComputeSharedSecret_def
          pubs s keys Create_ok [OF lens(2,1)] Let_def ID tok del: session.update_convs)
    show "mirrored ?cs ?ss" using lens by (simp add: mirrored_def NewSession_def)
    show "CompleteHandshakeWithVersion C G cnow mn state (?sh\<lparr>sh_ProtoVersion := pv, sh_FingerprintWeights := fw\<rparr>) v = Ok ?cs" for pv fw
      by (simp add: CompleteHandshakeWithVersion_def state ComputeSharedSecret_def pubs s keys tok)
  qed (simp_all add: NewSession_def)
qed

lemma handshake_run_agrees:
  assumes C: "dh_ok C" "hkdf_ok C" "box_ok C" and G: "gcm_ok G"
    and srv: "keyPair_ok C srv" and cid: "length cid = 16"
    and rnd: "length ephSk = 32" "length boxNonce = 24" "r_eph R = Some srvEph" "length srvEph = 32"
      "r_token R = Some tokNonce" "length tokNonce = NonceSize"
    and clocks: "clock_ok clientNow" "clock_ok serverNow" "\<bar>serverNow - clientNow\<bar> \<le> HandshakeDriftWindowSecs"
  obtains cs ss sm' where
    "handshake_run C G clientNow ephSk boxNonce cid serverNow R srv v sm = (Ok (cs, ss, cid), sm')"
    "mirrored cs ss" "sessions sm' (ID ss) = Some ss"
proof -
  let ?state = "\<lparr>cs_Ephemeral = \<lparr>kp_Public = dh_pub C ephSk, kp_Private = ephSk\<rparr>, cs_ClientID = cid, cs_ServerPub = kp_Public srv\<rparr>"
  obtain e where hello: "NewClientHello C clientNow (Some ephSk) (Some boxNonce) cid (kp_Public srv) =
      Ok (\<lparr>ch_EphemeralPub = dh_pub C ephSk, ch_EncryptedClientID = e\<rparr>, ?state)"
    and dec: "DecryptClientID C serverNow e (dh_pub C ephSk) srv = Ok cid"
    using NewClientHello_wire [OF C(1,3) srv cid rnd(1,2), of clientNow] clocks by metis
  obtain sh ss cs where a:
    "HandleClientHelloWithVersion C G serverNow 0 R \<lparr>ch_EphemeralPub = dh_pub C ephSk, ch_EncryptedClientID = e\<rparr> srv 0 0 v sm =
       (Ok (sh, ss, cid), sm\<lparr>nextID := ID ss, sessions := (sessions sm)(ID ss \<mapsto> ss)\<rparr>)" "mirrored cs ss"
    "\<And>pv fw. CompleteHandshakeWithVersion C G 0 [] ?state (sh\<lparr>sh_ProtoVersion := pv, sh_FingerprintWeights := fw\<rparr>) v = Ok cs"
    "sh_ProtoVersion sh = None" "sh_FingerprintWeights sh = None"
    by (rule server_client_agree [OF C(1,2) G rnd(1,3-6) dec, where state = ?state and nowNs = 0 and mc = 0 and chs = 0
          and v = v and sm = sm and cnow = 0 and mn = "[]"]) simp_all
  have "sh\<lparr>sh_ProtoVersion := None, sh_FingerprintWeights := None\<rparr> = sh" using a(4,5) by (cases sh) simp
  with a(3) [of None None] have "CompleteHandshakeWithVersion C G 0 [] ?state sh v = Ok cs" by simp
  with a(1) have "handshake_run C G clientNow ephSk boxNonce cid serverNow R srv v sm =
      (Ok (cs, ss, cid), sm\<lparr>nextID := ID ss, sessions := (sessions sm)(ID ss \<mapsto> ss)\<rparr>)"
    unfolding handshake_run_def hello by simp
  with a(2) show thesis using that by simp
qed

subsection \<open>Traffic between mirrored sessions\<close>

lemma DecryptChunk_sealed:
  "\<lbrakk>gcm_ok G; length nonce = NonceSize; length k = 32\<rbrakk> \<Longrightarrow>
     DecryptChunk G (nonce @ gcm_seal G k nonce (marshal c) []) k = Ok c"
  by (simp add: DecryptChunk_def newGCM_def gcm_okD wire_simps MinChunk_def)

lemma mirrored_down:
  assumes "gcm_ok G" "pool_ok P" "mirrored cs ss"
  shows "\<exists>w P'. fst (EncryptChunk G P rnd c ss) = Ok (w, P') \<and> fst (DecryptChunkSafe G now w cs) = Ok c"
proof -
  let ?n = "counter_nonce 0"
  have ss: "\<not> destroyed ss" "sendEpochPtr ss = Some \<lparr>ep_gcm = SendKey ss, ep_nonce = 0\<rparr>"
    and cs: "\<not> destroyed cs" "recvGCM cs = None" "RecvKey cs = SendKey ss" "length (SendKey ss) = 32"
    using assms(3) by (auto simp: mirrored_def)
  obtain P' where "fst (EncryptChunk G P rnd c ss) = Ok (?n @ gcm_seal G (SendKey ss) ?n (marshal c) [], P')"
    using EncryptChunk_epoch [OF assms(2) ss, of G rnd c] by auto
  moreover have "DecryptChunk G (?n @ gcm_seal G (SendKey ss) ?n (marshal c) []) (RecvKey cs) = Ok c"
    unfolding cs(3) by (rule DecryptChunk_sealed [OF assms(1) _ cs(4)]) simp
  ultimately show ?thesis using cs(1,2) by (auto simp: DecryptChunkSafe_def)
qed

lemma mirrored_up:
  assumes "gcm_ok G" "mirrored cs ss" "length nonce = NonceSize"
  shows "\<exists>w P'. fst (EncryptChunk G P (Some nonce) c cs) = Ok (w, P') \<and> fst (DecryptChunkSafe G now w ss) = Ok c"
proof -
  have ss: "\<not> destroyed ss" "recvGCM ss = Some (RecvKey ss)"
    and cs: "\<not> destroyed cs" "sendEpochPtr cs = None" "SendKey cs = RecvKey ss" "length (RecvKey ss) = 32"
    using assms(2) by (auto simp: mirrored_def)
  have "fst (EncryptChunk G P (Some nonce) c cs) = Ok (nonce @ gcm_seal G (RecvKey ss) nonce (marshal c) [], P)"
    using cs by (simp add: EncryptChunk_def Encrypt_def newGCM_def)
  with DecryptChunkSafe_current [OF assms(1) ss assms(3)] show ?thesis by simp
qed

subsection \<open>Concrete primitives\<close>

text \<open>Primitives that satisfy the three hypotheses, to apply the theorems to concrete inputs.\<close>

definition xor_crypto :: crypto where
  "xor_crypto = \<lparr>dh_pub = (\<lambda>sk. sk), dh = (\<lambda>a b. Some (map2 (XOR) a b)),
     hkdf = (\<lambda>ikm salt info n. take n (ikm @ zeros n)),
     box_seal = (\<lambda>m n p s. m @ zeros 16),
     box_open = (\<lambda>b n p s. if 16 \<le> length b \<and> drop (length b - 16) b = zeros 16
                              then Some (take (length b - 16) b) else None),
     hmac = (\<lambda>k m. take 32 (k @ m @ zeros 32))\<rparr>"

lemma map2_xor_commute: "map2 (XOR) a b = map2 (XOR) b (a :: bytes)"
  by (rule nth_equalityI) (simp_all add: ac_simps)

lemma xor_crypto_ok: "dh_ok xor_crypto" "hkdf_ok xor_crypto" "box_ok xor_crypto"
proof -
  have "min a n + (n - a) = n" for a n :: nat by arith
  then show "hkdf_ok xor_crypto" by (simp add: hkdf_ok_def xor_crypto_def)
qed (simp_all add: dh_ok_def box_ok_def xor_crypto_def map2_xor_commute)

definition demo_server :: keyPair where
  "demo_server = \<lparr>kp_Public = replicate 32 9, kp_Private = replicate 32 9\<rparr>"

definition demo_random :: hs_random where
  "demo_random = \<lparr>r_eph = Some (replicate 32 5), r_migrate = replicate 16 1, r_token = Some (zeros 12)\<rparr>"

lemma keyPair_ok_demo_server: "keyPair_ok xor_crypto demo_server"
  by (simp add: keyPair_ok_def demo_server_def xor_crypto_def)

subsection \<open>Properties\<close>



text \<open>The identity a client encrypts is decoded by the server exactly when it has 16 bytes and the
  clocks are within 300 s; an identity the encoder accepts but that is shorter than 16 bytes is
  always rejected by the decoder.\<close>

theorem client_id_decoding:
  assumes "box_ok C" "dh_ok C" "keyPair_ok C cl" "keyPair_ok C srv" "length nonce = 24" "length cid \<le> 16"
    and "clock_ok clientNow" "clock_ok serverNow"
  shows "\<exists>e. EncryptClientID C clientNow (Some nonce) cid (kp_Public srv) cl = Ok e \<and>
     DecryptClientID C serverNow e (kp_Public cl) srv =
       (if length cid \<noteq> 16 then Err BadEncSize
        else if \<bar>serverNow - clientNow\<bar> \<le> HandshakeDriftWindowSecs then Ok cid else Err TimestampExpired)"
  unfolding EncryptClientID_wire [OF assms(6,3,4,2)]
  using DecryptClientID_boxed [OF assms(1-5) refl assms(6), of serverNow "of_int clientNow"]
    sint_diff_clock [OF assms(8,7)] by auto

theorem client_id_decoding_witness:
  "\<exists>e. EncryptClientID xor_crypto 5 (Some (zeros 24)) [1, 2, 3] (kp_Public demo_server) demo_server = Ok e \<and>
     DecryptClientID xor_crypto 5 e (kp_Public demo_server) demo_server = Err BadEncSize"
  using client_id_decoding [OF xor_crypto_ok(3,1) keyPair_ok_demo_server keyPair_ok_demo_server, of "zeros 24" "[1, 2, 3]" 5 5]
  by (simp add: clock_ok_def)

text \<open>A stream proof is bound to its client, its stream and its session: if the proof issued for
  one triple verifies for another, two distinct inputs collide under HMAC.\<close>

theorem stream_proof_binding:
  assumes "length n = 16" "length n' = 16" "VerifyStreamProof C (ComputeStreamProof C k cid gs n) k cid' gs' n'"
  shows "(cid, gs, n) = (cid', gs', n') \<or> (\<exists>x y. x \<noteq> y \<and> arr32 (hmac C k x) = arr32 (hmac C k y))"
proof (cases "cid @ put16 gs @ n = cid' @ put16 gs' @ n'")
  case True
  then have "cid = cid' \<and> put16 gs @ n = put16 gs' @ n'" using assms(1,2) by (simp add: append_eq_append_conv)
  then have "cid = cid'" "put16 gs = put16 gs'" "n = n'" by (simp_all add: append_eq_append_conv)
  moreover have "gs = gs'" using \<open>put16 gs = put16 gs'\<close> get_put_whole(1) by metis
  ultimately show ?thesis by simp
next
  case False
  moreover have "arr32 (hmac C k (cid @ put16 gs @ n)) = arr32 (hmac C k (cid' @ put16 gs' @ n'))"
    using assms(3) by (simp add: VerifyStreamProof_def ComputeStreamProof_def)
  ultimately show ?thesis by metis
qed

theorem stream_proof_binding_witness:
  "([1::byte], 3::u16, zeros 16) = ([1], 3, zeros 16) \<or> (\<exists>x y. x \<noteq> y \<and> arr32 (hmac xor_crypto [7] x) = arr32 (hmac xor_crypto [7] y))"
  by (rule stream_proof_binding) (simp_all add: VerifyStreamProof_def)

text \<open>The key schedule binds the protocol version: sessions of different versions (or of
  different client identities, for keys of fixed length) feed different info strings to HKDF,
  so a stripped version byte cannot lead both sides to the same keys except by an HKDF
  collision.\<close>

theorem key_schedule_binding:
  assumes "length cp = 32" "length sp = 32" "length cp' = 32" "length sp' = 32"
  shows "session_info v cp sp cid = session_info v' cp' sp' cid' \<longleftrightarrow> v = v' \<and> cp = cp' \<and> sp = sp' \<and> cid = cid'"
  using assms by (auto simp: session_info_def)

theorem key_schedule_binding_witness:
  "session_info 0 (zeros 32) (zeros 32) [1] \<noteq> session_info 1 (zeros 32) (zeros 32) [1]"
  using key_schedule_binding [of "zeros 32" "zeros 32" "zeros 32" "zeros 32" 0 "[1]" 1 "[1]"] by simp

end
