(* ===== verification/Rate_Limit.thy ===== *)
theory Rate_Limit
  imports Prelude "HOL-Library.AList"
begin

section \<open>Rate limits and client attribution\<close>

text \<open>
  Models \<open>RateLimiter\<close> and \<open>clientIPFromRequest\<close> of \<open>src/server/ratelimit.go\<close> and the soft
  counter of \<open>src/server/clientid_exempt.go\<close>.  Go strings are byte strings; a Go map is an
  association list with distinct keys, so that its size (which the code tests) computes.
  Instants are nanoseconds and the monotonic clock is an argument.

  Shown: the limiter admits at most \<open>maxRate\<close> attempts of an address inside any window of
  the configured length, over any interleaving of attempts of all addresses and cleanups,
  and its table never outgrows its cap; the address the proxy walk attributes does not
  depend on what a client writes to the left of the first untrusted hop.
\<close>


subsection \<open>The counter-and-window limiter\<close>

record rateLimiter =
  attempts :: "(gostring \<times> instant list) list"
  maxRate :: int
  rl_window :: int

definition maxRateLimitEntries :: nat where "maxRateLimitEntries = 10000"

definition Minute :: int where "Minute = 60 * 1000000000"

definition NewRateLimiter :: "int \<Rightarrow> int \<Rightarrow> rateLimiter" where
  "NewRateLimiter mr window =
     \<lparr>attempts = [], maxRate = (if mr = 0 then 5 else mr), rl_window = (if window = 0 then Minute else window)\<rparr>"

definition Allow :: "instant \<Rightarrow> gostring \<Rightarrow> rateLimiter \<Rightarrow> bool \<times> rateLimiter" where
  "Allow now ip rl =
     (let cutoff = now - rl_window rl
      in if map_of (attempts rl) ip = None \<and> maxRateLimitEntries \<le> length (attempts rl) then (False, rl)
         else let times = (case map_of (attempts rl) ip of None \<Rightarrow> [] | Some ts \<Rightarrow> ts);
                  valid = filter (\<lambda>t. cutoff < t) times
              in if int (length valid) \<ge> maxRate rl
                 then (False, rl\<lparr>attempts := AList.update ip valid (attempts rl)\<rparr>)
                 else (True, rl\<lparr>attempts := AList.update ip (valid @ [now]) (attempts rl)\<rparr>))"

text \<open>\<open>Cleanup\<close>: every entry loses its stale times, an entry without times is deleted.\<close>

definition RateLimiterCleanup :: "instant \<Rightarrow> rateLimiter \<Rightarrow> rateLimiter" where
  "RateLimiterCleanup now rl =
     (let cutoff = now - rl_window rl
      in rl\<lparr>attempts := filter (\<lambda>(ip, ts). ts \<noteq> [])
                          (map (\<lambda>(ip, ts). (ip, filter (\<lambda>t. cutoff < t) ts)) (attempts rl))\<rparr>)"

definition rl_inv :: "rateLimiter \<Rightarrow> bool" where
  "rl_inv rl \<longleftrightarrow> distinct (map fst (attempts rl)) \<and> length (attempts rl) \<le> maxRateLimitEntries"

lemma Allow_params [simp]: "maxRate (snd (Allow now ip rl)) = maxRate rl" "rl_window (snd (Allow now ip rl)) = rl_window rl"
  by (auto simp: Allow_def Let_def)

lemma Cleanup_params [simp]: "maxRate (RateLimiterCleanup now rl) = maxRate rl" "rl_window (RateLimiterCleanup now rl) = rl_window rl"
  by (auto simp: RateLimiterCleanup_def Let_def)

lemma length_update: "length (AList.update k v al) = (if k \<in> fst ` set al then length al else Suc (length al))"
  by (induction al) auto

lemma rl_inv_Allow: "rl_inv rl \<Longrightarrow> rl_inv (snd (Allow now ip rl))"
  by (auto simp: rl_inv_def Allow_def Let_def length_update distinct_update not_le map_of_eq_None_iff)

lemma filter_map_keys:
  assumes "\<And>p. fst (f p) = fst p" "distinct (map fst al)"
  shows "distinct (map fst (filter P (map f al)))" "length (filter P (map f al)) \<le> length al"
proof -
  have "map fst (map f al) = map fst al" using assms(1) by (induction al) auto
  with assms(2) show "distinct (map fst (filter P (map f al)))" by (metis distinct_map_filter)
  show "length (filter P (map f al)) \<le> length al" by (metis length_filter_le length_map)
qed

lemma rl_inv_Cleanup:
  assumes "rl_inv rl" shows "rl_inv (RateLimiterCleanup now rl)"
  using assms filter_map_keys [of "\<lambda>(ip, ts). (ip, filter (\<lambda>t. now - rl_window rl < t) ts)" "attempts rl" "\<lambda>(ip, ts). ts \<noteq> []"]
  unfolding rl_inv_def RateLimiterCleanup_def Let_def by (simp add: case_prod_beta) (meson le_trans length_filter_le)

text \<open>The times stored for an address; what both operations do to them.\<close>

definition stored :: "gostring \<Rightarrow> rateLimiter \<Rightarrow> instant list" where
  "stored ip rl = (case map_of (attempts rl) ip of None \<Rightarrow> [] | Some ts \<Rightarrow> ts)"

lemma stored_Cleanup:
  "distinct (map fst (attempts rl)) \<Longrightarrow> stored ip (RateLimiterCleanup now rl) = filter (\<lambda>t. now - rl_window rl < t) (stored ip rl)"
proof -
  let ?f = "filter (\<lambda>t. now - rl_window rl < t)"
  have "distinct (map fst al) \<Longrightarrow>
     (case map_of (filter (\<lambda>(ip, ts). ts \<noteq> []) (map (\<lambda>(ip, ts). (ip, ?f ts)) al)) ip of None \<Rightarrow> [] | Some ts \<Rightarrow> ts) =
     ?f (case map_of al ip of None \<Rightarrow> [] | Some ts \<Rightarrow> ts)" for al :: "(gostring \<times> instant list) list"
  proof (induction al)
    case (Cons p al)
    obtain k ts where p: "p = (k, ts)" by force
    show ?case
    proof (cases "k = ip")
      case True
      with Cons.prems p have no: "ip \<notin> fst ` set al" by simp
      then have "map_of (filter (\<lambda>(ip, ts). ts \<noteq> []) (map (\<lambda>(ip, ts). (ip, ?f ts)) al)) ip = None"
        by (auto simp: map_of_eq_None_iff image_iff)
      with True p show ?thesis by auto
    next
      case False
      with Cons p show ?thesis by auto
    qed
  qed simp
  then show "distinct (map fst (attempts rl)) \<Longrightarrow> ?thesis"
    by (simp add: stored_def RateLimiterCleanup_def Let_def)
qed

lemma stored_Allow_other: "ip' \<noteq> ip \<Longrightarrow> stored ip' (snd (Allow now ip rl)) = stored ip' rl"
  by (auto simp: stored_def Allow_def Let_def update_conv')

lemma Allow_stored:
  "fst (Allow now ip rl) \<Longrightarrow> int (length (filter (\<lambda>t. now - rl_window rl < t) (stored ip rl))) < maxRate rl \<and>
     stored ip (snd (Allow now ip rl)) = filter (\<lambda>t. now - rl_window rl < t) (stored ip rl) @ [now]"
  by (auto simp: stored_def Allow_def Let_def update_conv' split: if_splits)

lemma Allow_refused_stored:
  "\<not> fst (Allow now ip rl) \<Longrightarrow> stored ip (snd (Allow now ip rl)) = stored ip rl \<or>
     stored ip (snd (Allow now ip rl)) = filter (\<lambda>t. now - rl_window rl < t) (stored ip rl)"
  by (auto simp: stored_def Allow_def Let_def update_conv' split: if_splits)

subsection \<open>Runs: at most \<open>maxRate\<close> admissions per window\<close>

datatype rl_op = RlAllow instant gostring | RlCleanup instant

fun rl_time :: "rl_op \<Rightarrow> instant" where
  "rl_time (RlAllow now ip) = now"
| "rl_time (RlCleanup now) = now"

text \<open>A run returns the final limiter and the log of admissions, oldest first.\<close>

fun rl_step :: "rl_op \<Rightarrow> rateLimiter \<times> (instant \<times> gostring) list \<Rightarrow> rateLimiter \<times> (instant \<times> gostring) list" where
  "rl_step (RlAllow now ip) (rl, log) =
     (case Allow now ip rl of (ok, rl') \<Rightarrow> (rl', if ok then log @ [(now, ip)] else log))"
| "rl_step (RlCleanup now) (rl, log) = (RateLimiterCleanup now rl, log)"

definition rl_run :: "rl_op list \<Rightarrow> rateLimiter \<Rightarrow> rateLimiter \<times> (instant \<times> gostring) list" where
  "rl_run ops rl = fold rl_step ops (rl, [])"

definition admitted :: "gostring \<Rightarrow> (instant \<times> gostring) list \<Rightarrow> instant list" where
  "admitted ip log = map fst (filter (\<lambda>p. snd p = ip) log)"

text \<open>
  Invariant of a run up to clock reading \<open>now\<close>: past admissions are ordered; the stored times
  contain every admission that a window ending now or later can still see; and every window
  that ends at an admission holds at most \<open>maxRate\<close> of them.
\<close>

definition in_window :: "int \<Rightarrow> instant \<Rightarrow> instant list \<Rightarrow> instant list" where
  "in_window w t ts = filter (\<lambda>x. t - w < x \<and> x \<le> t) ts"

definition rl_log_inv :: "int \<Rightarrow> int \<Rightarrow> instant \<Rightarrow> gostring \<Rightarrow> instant list \<Rightarrow> instant list \<Rightarrow> bool" where
  "rl_log_inv m w now ip st adm \<longleftrightarrow>
     (\<forall>x \<in> set adm. x \<le> now) \<and> sorted adm \<and>
     (\<forall>t \<ge> now. filter (\<lambda>x. t - w < x) st = filter (\<lambda>x. t - w < x) adm) \<and>
     (\<forall>x \<in> set adm. int (length (in_window w x adm)) \<le> m)"

lemma rl_log_inv_later:
  "\<lbrakk>rl_log_inv m w now ip st adm; now \<le> now'\<rbrakk> \<Longrightarrow> rl_log_inv m w now' ip st adm"
  by (auto simp: rl_log_inv_def)

lemma filter_filter_later:
  fixes w now t :: int
  assumes "now \<le> t" shows "filter (\<lambda>x. t - w < x) (filter (\<lambda>x. now - w < x) xs) = filter (\<lambda>x. t - w < x) xs"
  using assms by (induction xs) auto

lemma rl_log_inv_trim:
  "rl_log_inv m w now ip st adm \<Longrightarrow> rl_log_inv m w now ip (filter (\<lambda>x. now - w < x) st) adm"
  by (simp add: rl_log_inv_def filter_filter_later del: filter_filter)

lemma rl_log_inv_admit:
  assumes inv: "rl_log_inv m w now ip st adm" and room: "int (length (filter (\<lambda>x. now - w < x) st)) < m"
    and w: "0 < w"
  shows "rl_log_inv m w now ip (filter (\<lambda>x. now - w < x) st @ [now]) (adm @ [now])"
proof -
  have le: "\<forall>x \<in> set adm. x \<le> now" and sorted: "sorted adm"
    and st: "\<And>t. now \<le> t \<Longrightarrow> filter (\<lambda>x. t - w < x) st = filter (\<lambda>x. t - w < x) adm"
    and old: "\<And>x. x \<in> set adm \<Longrightarrow> int (length (in_window w x adm)) \<le> m"
    using inv by (auto simp: rl_log_inv_def)
  have now: "in_window w now (adm @ [now]) = filter (\<lambda>x. now - w < x) adm @ [now]"
    using le w by (auto simp: in_window_def intro: filter_cong)
  have new: "int (length (in_window w now (adm @ [now]))) \<le> m"
    using room st [of now] by (simp add: now)
  have before: "int (length (in_window w x (adm @ [now]))) \<le> m" if "x \<in> set adm" for x
    using old [OF that] new that le by (cases "x = now") (auto simp: in_window_def)
  show ?thesis
    unfolding rl_log_inv_def
    using le sorted st new before
    by (auto simp: filter_filter_later sorted_append simp del: filter_filter)
qed

lemma rl_log_inv_window:
  assumes inv: "rl_log_inv m w now ip st adm" and m: "0 \<le> m"
  shows "int (length (in_window w t adm)) \<le> m"
proof (cases "in_window w t adm = []")
  case True
  with m show ?thesis by simp
next
  case False
  define x where "x = last (in_window w t adm)"
  have "sorted (in_window w t adm)" using inv by (simp add: rl_log_inv_def in_window_def sorted_filter [where f = id, simplified])
  then have top: "y \<le> x" if "y \<in> set (in_window w t adm)" for y
    using that False unfolding x_def by (metis append_butlast_last_id in_set_conv_decomp last_in_set sorted_append
        list.set_intros(1) set_ConsD set_append UnE empty_iff list.set(1) order_refl)
  have x: "x \<in> set adm" "x \<le> t" using last_in_set [OF False] by (auto simp: x_def in_window_def)
  have "in_window w t adm = filter (\<lambda>y. t - w < y \<and> y \<le> t) (in_window w x adm)"
    using top x by (auto simp: in_window_def intro!: filter_cong)
  then have "length (in_window w t adm) \<le> length (in_window w x adm)" by simp
  moreover have "int (length (in_window w x adm)) \<le> m" using inv x by (simp add: rl_log_inv_def)
  ultimately show ?thesis by linarith
qed

lemma admitted_snoc: "admitted ip (log @ [(now, ip')]) = (if ip' = ip then admitted ip log @ [now] else admitted ip log)"
  by (simp add: admitted_def)

lemma rl_step_log_inv:
  assumes inv: "rl_inv rl" "rl_log_inv (maxRate rl) (rl_window rl) now ip (stored ip rl) (admitted ip log)"
    and w: "0 < rl_window rl" and later: "now \<le> rl_time op" and step: "rl_step op (rl, log) = (rl', log')"
  shows "rl_inv rl'" "maxRate rl' = maxRate rl" "rl_window rl' = rl_window rl"
    "rl_log_inv (maxRate rl) (rl_window rl) (rl_time op) ip (stored ip rl') (admitted ip log')"
proof -
  have P: "rl_inv rl' \<and> maxRate rl' = maxRate rl \<and> rl_window rl' = rl_window rl \<and>
    rl_log_inv (maxRate rl) (rl_window rl) (rl_time op) ip (stored ip rl') (admitted ip log')"
  proof (cases op)
    case (RlAllow t ip')
    then have rl': "rl' = snd (Allow t ip' rl)" and log': "log' = (if fst (Allow t ip' rl) then log @ [(t, ip')] else log)"
      using step by (auto split: prod.splits)
    have inv': "rl_log_inv (maxRate rl) (rl_window rl) t ip (stored ip rl) (admitted ip log)"
      using rl_log_inv_later [OF inv(2)] later RlAllow by simp
    have "rl_log_inv (maxRate rl) (rl_window rl) t ip (stored ip rl') (admitted ip log')"
    proof (cases "ip' = ip")
      case False
      with inv' show ?thesis by (simp add: rl' log' stored_Allow_other admitted_snoc)
    next
      case True
      with inv' w Allow_stored [of t ip rl] Allow_refused_stored [of t ip rl] show ?thesis
        by (cases "fst (Allow t ip rl)")
          (auto simp: rl' log' admitted_snoc rl_log_inv_admit rl_log_inv_trim)
    qed
    with RlAllow show ?thesis by (simp add: rl' rl_inv_Allow inv(1))
  next
    case (RlCleanup t)
    then have "rl' = RateLimiterCleanup t rl" "log' = log" using step by auto
    moreover have "rl_log_inv (maxRate rl) (rl_window rl) t ip (stored ip rl) (admitted ip log)"
      using rl_log_inv_later [OF inv(2)] later RlCleanup by simp
    moreover have "distinct (map fst (attempts rl))" using inv(1) by (simp add: rl_inv_def)
    ultimately show ?thesis using RlCleanup inv(1)
      by (simp add: rl_inv_Cleanup stored_Cleanup rl_log_inv_trim)
  qed
  then show "rl_inv rl'" "maxRate rl' = maxRate rl" "rl_window rl' = rl_window rl"
    "rl_log_inv (maxRate rl) (rl_window rl) (rl_time op) ip (stored ip rl') (admitted ip log')" by auto
qed

lemma rl_fold_log_inv:
  assumes "rl_inv rl" "rl_log_inv (maxRate rl) (rl_window rl) now ip (stored ip rl) (admitted ip log)"
    "0 < rl_window rl" "sorted (now # map rl_time ops)"
  shows "\<exists>now'. rl_inv (fst (fold rl_step ops (rl, log))) \<and> rl_log_inv (maxRate rl) (rl_window rl) now' ip
     (stored ip (fst (fold rl_step ops (rl, log)))) (admitted ip (snd (fold rl_step ops (rl, log))))"
  using assms
proof (induction ops arbitrary: rl log now)
  case Nil
  then show ?case by auto
next
  case (Cons op ops)
  obtain rl' log' where step: "rl_step op (rl, log) = (rl', log')" by force
  note s = rl_step_log_inv [OF Cons.prems(1-3) _ step]
  from Cons.prems(4) have le: "now \<le> rl_time op" and sorted: "sorted (rl_time op # map rl_time ops)" by auto
  from Cons.IH [of rl' "rl_time op" log'] s [OF le] Cons.prems(3) sorted show ?case by (simp add: step)
qed

lemma rl_log_inv_start: "rl_log_inv m w now ip (stored ip (NewRateLimiter a b)) (admitted ip [])"
  by (simp add: rl_log_inv_def stored_def NewRateLimiter_def admitted_def)

lemma rl_inv_new: "rl_inv (NewRateLimiter a b)"
  by (simp add: rl_inv_def NewRateLimiter_def)

subsection \<open>The per-client soft counter (clientid\_exempt.go)\<close>

record softCounter =
  sc_count :: int
  winStart :: instant

record exemption =
  softLimit :: int
  softWindow :: int
  soft :: "gostring \<rightharpoonup> softCounter"

definition AllowExempted :: "instant \<Rightarrow> gostring \<Rightarrow> exemption \<Rightarrow> bool \<times> exemption" where
  "AllowExempted now clientID e =
     (if length clientID = 0 then (False, e)
      else if softLimit e \<le> 0 then (True, e)
      else let c = (case soft e clientID of
                      None \<Rightarrow> \<lparr>sc_count = 0, winStart = now\<rparr>
                    | Some c \<Rightarrow> if now - winStart c > softWindow e then \<lparr>sc_count = 0, winStart = now\<rparr> else c)
           in if sc_count c \<ge> softLimit e then (False, e\<lparr>soft := (soft e)(clientID \<mapsto> c)\<rparr>)
              else (True, e\<lparr>soft := (soft e)(clientID \<mapsto> c\<lparr>sc_count := sc_count c + 1\<rparr>)\<rparr>))"

text \<open>The cache's eviction callback: the counter of the evicted client is dropped.\<close>

definition soft_evict :: "gostring \<Rightarrow> exemption \<Rightarrow> exemption" where
  "soft_evict key e = e\<lparr>soft := (soft e)(key := None)\<rparr>"

definition soft_inv :: "exemption \<Rightarrow> bool" where
  "soft_inv e \<longleftrightarrow> (\<forall>k c. soft e k = Some c \<longrightarrow> 0 \<le> sc_count c \<and> sc_count c \<le> softLimit e)"

lemma soft_inv_AllowExempted: "soft_inv e \<Longrightarrow> soft_inv (snd (AllowExempted now k e))"
  by (auto simp: soft_inv_def AllowExempted_def Let_def split: option.splits if_splits) (metis order_antisym)

lemma soft_inv_evict: "soft_inv e \<Longrightarrow> soft_inv (soft_evict k e)"
  by (simp add: soft_inv_def soft_evict_def)

subsection \<open>Attribution of the client address\<close>

definition is_space :: "byte \<Rightarrow> bool" where
  "is_space b \<longleftrightarrow> b = 0x20 \<or> (0x09 \<le> b \<and> b \<le> 0x0D)"

definition TrimSpace :: "gostring \<Rightarrow> gostring" where
  "TrimSpace s = rev (dropWhile is_space (rev (dropWhile is_space s)))"

text \<open>\<open>strings.Split(s, ",")\<close>\<close>

fun split_comma :: "gostring \<Rightarrow> gostring list" where
  "split_comma [] = [[]]"
| "split_comma (b # bs) =
     (if b = 0x2C then [] # split_comma bs
      else case split_comma bs of [] \<Rightarrow> [[b]] | p # ps \<Rightarrow> (b # p) # ps)"

text \<open>The walk from the right: first untrusted hop, if any.\<close>

fun rightmost_untrusted :: "(gostring \<Rightarrow> bool) \<Rightarrow> gostring list \<Rightarrow> gostring option" where
  "rightmost_untrusted trusted [] = None"
| "rightmost_untrusted trusted (h # hs) =
     (case rightmost_untrusted trusted hs of
        Some x \<Rightarrow> Some x
      | None \<Rightarrow> if \<not> trusted h then Some h else None)"

text \<open>
  \<open>clientIPFromRequest\<close>; \<open>remoteHost\<close> is the host part of \<open>r.RemoteAddr\<close>, \<open>trusted\<close> the
  membership test of the trusted-proxy set, \<open>xff\<close> the header's value (empty when absent).
\<close>

definition clientIPFromRequest :: "gostring \<Rightarrow> gostring \<Rightarrow> bool \<Rightarrow> (gostring \<Rightarrow> bool) \<Rightarrow> gostring" where
  "clientIPFromRequest remoteHost xff behindProxy trusted =
     (if \<not> behindProxy then remoteHost
      else if xff = [] then remoteHost
      else let parts = split_comma xff;
               chain = map TrimSpace parts @ (if remoteHost \<noteq> [] \<and> remoteHost \<noteq> [0x40] then [remoteHost] else [])
           in case rightmost_untrusted trusted chain of
                Some h \<Rightarrow> h
              | None \<Rightarrow> (case parts of
                            [] \<Rightarrow> remoteHost
                          | p # _ \<Rightarrow> if TrimSpace p \<noteq> [] then TrimSpace p else remoteHost))"

lemma rightmost_untrusted_append:
  "rightmost_untrusted tr (xs @ ys) =
     (case rightmost_untrusted tr ys of Some h \<Rightarrow> Some h | None \<Rightarrow> rightmost_untrusted tr xs)"
  by (induction xs) (auto split: option.splits)

lemma rightmost_untrusted_Some:
  "rightmost_untrusted tr xs = Some h \<longleftrightarrow> (\<exists>ys zs. xs = ys @ h # zs \<and> \<not> tr h \<and> (\<forall>z \<in> set zs. tr z))"
proof (induction xs)
  case (Cons x xs)
  have none: "rightmost_untrusted tr xs = None \<longleftrightarrow> (\<forall>z \<in> set xs. tr z)" for xs
    by (induction xs) (auto split: option.splits)
  show ?case
  proof (cases "rightmost_untrusted tr xs")
    case None
    then have "\<forall>z \<in> set xs. tr z" by (simp add: none)
    with None show ?thesis by (auto simp: Cons_eq_append_conv)
  next
    case (Some a)
    then have "\<not> (\<forall>z \<in> set xs. tr z)" using none by (metis option.distinct(1))
    with Some Cons show ?thesis by (auto simp: Cons_eq_append_conv) 
  qed
qed simp

lemma split_comma_nonempty: "split_comma s \<noteq> []"
  by (induction s) (auto split: list.splits)

lemma split_comma_append: "split_comma (a @ [0x2C] @ b) = split_comma a @ split_comma b"
proof (induction a)
  case (Cons x a)
  with split_comma_nonempty [of a] show ?case by (auto split: list.splits)
qed simp

subsection \<open>Properties\<close>

text \<open>The limiter keeps its promise: over any interleaving of attempts (of all addresses) and
  cleanups with a monotonic clock, an address has at most \<open>maxRate\<close> admissions inside any
  window of the configured length, and the table stays within its cap.\<close>

theorem at_most_maxRate_per_window:
  assumes "sorted (map rl_time ops)" "0 \<le> mr" "0 \<le> w" "rl = NewRateLimiter mr w"
  shows "int (length (in_window (rl_window rl) t (admitted ip (snd (rl_run ops rl))))) \<le> maxRate rl \<and>
     length (attempts (fst (rl_run ops rl))) \<le> maxRateLimitEntries"
proof -
  have pos: "0 < rl_window rl" "0 \<le> maxRate rl" using assms(2-4) by (auto simp: NewRateLimiter_def Minute_def)
  have start: "rl_log_inv (maxRate rl) (rl_window rl) start ip (stored ip rl) (admitted ip [])" for start
    unfolding assms(4) by (rule rl_log_inv_start)
  have "\<exists>start. sorted (start # map rl_time ops)" using assms(1)
    by (cases ops) (auto intro: exI [of _ "rl_time (hd ops)"])
  then obtain start where "sorted (start # map rl_time ops)" by blast
  from rl_fold_log_inv [OF _ start pos(1) this] rl_inv_new rl_log_inv_window [OF _ pos(2)] show ?thesis
    unfolding assms(4) rl_run_def rl_inv_def by blast
qed

theorem at_most_maxRate_per_window_witness:
  "admitted [1] (snd (rl_run [RlAllow 0 [1], RlAllow 1 [1], RlAllow 2 [1], RlCleanup 50, RlAllow 101 [1]] (NewRateLimiter 2 100))) = [0, 1, 101] \<and>
   int (length (in_window 100 101 (admitted [1] (snd (rl_run [RlAllow 0 [1], RlAllow 1 [1], RlAllow 2 [1], RlCleanup 50, RlAllow 101 [1]] (NewRateLimiter 2 100)))))) \<le> 2"
  using at_most_maxRate_per_window [of "[RlAllow 0 [1], RlAllow 1 [1], RlAllow 2 [1], RlCleanup 50, RlAllow 101 [1]]" 2 100 "NewRateLimiter 2 100" 101 "[1]"]
  by (simp add: NewRateLimiter_def rl_run_def Allow_def Let_def maxRateLimitEntries_def RateLimiterCleanup_def admitted_def)

text \<open>A client cannot forge its address: whatever it puts in front of the part of
  \<open>X-Forwarded-For\<close> that the proxies append, the attributed address is the same, as long as
  that part (or the peer itself) contains an untrusted hop.\<close>

theorem forged_prefix_ignored:
  assumes "rightmost_untrusted trusted (map TrimSpace (split_comma suffix) @
      (if remote \<noteq> [] \<and> remote \<noteq> [0x40] then [remote] else [])) = Some h"
  shows "clientIPFromRequest remote (forged @ [0x2C] @ suffix) True trusted = h"
proof -
  let ?peer = "if remote \<noteq> [] \<and> remote \<noteq> [0x40] then [remote] else []"
  have "rightmost_untrusted trusted (map TrimSpace (split_comma (forged @ [0x2C] @ suffix)) @ ?peer) = Some h"
    unfolding split_comma_append map_append append_assoc
    using assms by (subst rightmost_untrusted_append) simp
  then show ?thesis unfolding clientIPFromRequest_def Let_def by simp
qed

theorem forged_prefix_ignored_witness:
  "clientIPFromRequest [0x6c] ([0x78, 0x78] @ [0x2C] @ [0x20, 0x31, 0x2C, 0x6c]) True (\<lambda>h. h = [0x6c]) = [0x31]"
  by (rule forged_prefix_ignored) (simp add: TrimSpace_def is_space_def)

end
