(* ===== verification/Client_Auth.thy ===== *)
theory Client_Auth
  imports Rate_Limit
begin

section \<open>Client authorisation and the device quota\<close>

text \<open>
  Models \<open>ClientAuth\<close> of \<open>src/server/ratelimit.go\<close>: the whitelist, the per-user device
  limits and the two session tables.  Every method runs under the one lock and is one
  definition.  A Go map is a partial function; \<open>activeSessions\<close> keeps the order of its
  slices.

  The invariant \<open>ca_inv\<close> ties the tables together: a user's list holds, without repetition,
  exactly the sessions its client identifiers currently own.  It is what makes the quota
  honest: the count a check reads is the number of distinct devices.
\<close>

record clientAuth =
  authorized :: "gostring \<Rightarrow> bool"
  openMode :: bool
  userLimits :: "gostring \<rightharpoonup> int"
  activeSessions :: "gostring \<rightharpoonup> u32 list"
  clientSession :: "gostring \<rightharpoonup> u32"
  defaultMax :: int

definition NewClientAuth :: "gostring list \<Rightarrow> clientAuth" where
  "NewClientAuth clientIDs =
     \<lparr>authorized = (\<lambda>c. c \<in> set clientIDs), openMode = (clientIDs = []), userLimits = Map.empty,
      activeSessions = Map.empty, clientSession = Map.empty, defaultMax = 3\<rparr>"

definition IsAuthorized :: "gostring \<Rightarrow> clientAuth \<Rightarrow> bool" where
  "IsAuthorized clientID ca = (if openMode ca then True else authorized ca clientID)"

definition IsOpenMode :: "clientAuth \<Rightarrow> bool" where
  "IsOpenMode ca = openMode ca"

definition AddClient :: "gostring \<Rightarrow> clientAuth \<Rightarrow> clientAuth" where
  "AddClient clientID ca = ca\<lparr>authorized := (authorized ca)(clientID := True), openMode := False\<rparr>"

definition RemoveClient :: "gostring \<Rightarrow> clientAuth \<Rightarrow> clientAuth" where
  "RemoveClient clientID ca = ca\<lparr>authorized := (authorized ca)(clientID := False)\<rparr>"

text \<open>\<open>parseUserID\<close>: the part before the first colon.\<close>

definition parseUserID :: "gostring \<Rightarrow> gostring" where
  "parseUserID clientID = takeWhile (\<lambda>b. b \<noteq> 0x3A) clientID"

definition SetUserLimit :: "gostring \<Rightarrow> int \<Rightarrow> clientAuth \<Rightarrow> clientAuth" where
  "SetUserLimit userID m ca = ca\<lparr>userLimits := (userLimits ca)(userID \<mapsto> m)\<rparr>"

text \<open>A missing key of a Go map of slices reads as the empty slice.\<close>

definition active :: "clientAuth \<Rightarrow> gostring \<Rightarrow> u32 list" where
  "active ca u = (case activeSessions ca u of None \<Rightarrow> [] | Some l \<Rightarrow> l)"

definition limit_of :: "clientAuth \<Rightarrow> gostring \<Rightarrow> int" where
  "limit_of ca userID = (case userLimits ca userID of Some ul \<Rightarrow> ul | None \<Rightarrow> defaultMax ca)"

definition removeSessionLocked :: "gostring \<Rightarrow> u32 \<Rightarrow> clientAuth \<Rightarrow> clientAuth" where
  "removeSessionLocked userID sid ca =
     (let l = active ca userID;
          ca1 = (if sid \<in> set l then ca\<lparr>activeSessions := (activeSessions ca)(userID \<mapsto> remove1 sid l)\<rparr> else ca)
      in if length (active ca1 userID) = 0
         then ca1\<lparr>activeSessions := (activeSessions ca1)(userID := None)\<rparr> else ca1)"

text \<open>The registration both admission paths end with.\<close>

definition register :: "gostring \<Rightarrow> gostring \<Rightarrow> u32 \<Rightarrow> clientAuth \<Rightarrow> clientAuth" where
  "register userID clientID sid ca =
     ca\<lparr>activeSessions := (activeSessions ca)(userID \<mapsto> active ca userID @ [sid]),
        clientSession := (clientSession ca)(clientID \<mapsto> sid)\<rparr>"

definition AdmitSession :: "gostring \<Rightarrow> u32 \<Rightarrow> clientAuth \<Rightarrow> bool \<times> clientAuth" where
  "AdmitSession clientID sid ca =
     (if openMode ca then (True, ca)
      else let userID = parseUserID clientID
           in case clientSession ca clientID of
                Some prev \<Rightarrow> (True, register userID clientID sid (removeSessionLocked userID prev ca))
              | None \<Rightarrow>
                  if int (length (active ca userID)) \<ge> limit_of ca userID then (False, ca)
                  else (True, register userID clientID sid ca))"

definition CheckDeviceLimit :: "gostring \<Rightarrow> clientAuth \<Rightarrow> bool" where
  "CheckDeviceLimit clientID ca =
     (if openMode ca then True
      else if clientSession ca clientID \<noteq> None then True
      else int (length (active ca (parseUserID clientID))) < limit_of ca (parseUserID clientID))"

definition OnSessionCreated :: "gostring \<Rightarrow> u32 \<Rightarrow> clientAuth \<Rightarrow> clientAuth" where
  "OnSessionCreated clientID sid ca =
     (let userID = parseUserID clientID;
          ca1 = (case clientSession ca clientID of
                   Some prev \<Rightarrow> removeSessionLocked userID prev ca | None \<Rightarrow> ca)
      in register userID clientID sid ca1)"

text \<open>An absent client reads as session 0, which no session has.\<close>

definition OnSessionDestroyed :: "gostring \<Rightarrow> u32 \<Rightarrow> clientAuth \<Rightarrow> clientAuth" where
  "OnSessionDestroyed clientID sid ca =
     (let ca1 = removeSessionLocked (parseUserID clientID) sid ca
      in if (case clientSession ca1 clientID of None \<Rightarrow> 0 | Some x \<Rightarrow> x) = sid
         then ca1\<lparr>clientSession := (clientSession ca1)(clientID := None)\<rparr> else ca1)"

definition SyncClients :: "gostring list \<Rightarrow> (gostring \<rightharpoonup> int) \<Rightarrow> clientAuth \<Rightarrow> clientAuth" where
  "SyncClients clients limits ca =
     (let newUser = (\<lambda>u. u \<in> set (map parseUserID clients));
          removed = (\<lambda>u. activeSessions ca u \<noteq> None \<and> \<not> newUser u)
      in ca\<lparr>clientSession := (\<lambda>c. if removed (parseUserID c) then None else clientSession ca c),
            activeSessions := (\<lambda>u. if removed u then None else activeSessions ca u),
            authorized := (\<lambda>c. c \<in> set clients),
            openMode := False,
            userLimits := limits\<rparr>)"

definition GetAndDestroyClientSession :: "gostring \<Rightarrow> clientAuth \<Rightarrow> (u32 \<times> bool) \<times> clientAuth" where
  "GetAndDestroyClientSession clientID ca =
     (let ca1 = ca\<lparr>authorized := (authorized ca)(clientID := False)\<rparr>
      in case clientSession ca1 clientID of
           None \<Rightarrow> ((0, False), ca1)
         | Some sid \<Rightarrow>
             (let ca2 = removeSessionLocked (parseUserID clientID) sid ca1
              in ((sid, True), ca2\<lparr>clientSession := (clientSession ca2)(clientID := None)\<rparr>)))"

definition ActiveSessionCount :: "gostring \<Rightarrow> clientAuth \<Rightarrow> nat" where
  "ActiveSessionCount userID ca = length (active ca userID)"

subsection \<open>The tables agree\<close>

definition ca_inv :: "clientAuth \<Rightarrow> bool" where
  "ca_inv ca \<longleftrightarrow>
     (\<forall>u. distinct (active ca u)) \<and>
     (\<forall>u sid. sid \<in> set (active ca u) \<longleftrightarrow> (\<exists>c. clientSession ca c = Some sid \<and> parseUserID c = u)) \<and>
     (\<forall>c d sid. clientSession ca c = Some sid \<longrightarrow> clientSession ca d = Some sid \<longrightarrow> c = d)"

lemma ca_invD:
  assumes "ca_inv ca"
  shows "distinct (active ca u)"
    and "sid \<in> set (active ca u) \<longleftrightarrow> (\<exists>c. clientSession ca c = Some sid \<and> parseUserID c = u)"
    and "\<lbrakk>clientSession ca c = Some sid; clientSession ca d = Some sid\<rbrakk> \<Longrightarrow> c = d"
  using assms unfolding ca_inv_def by blast+

lemma active_removeSessionLocked [simp]:
  "active (removeSessionLocked u sid ca) v = (if v = u then remove1 sid (active ca u) else active ca v)"
  by (auto simp: removeSessionLocked_def Let_def active_def remove1_idem)

lemma clientSession_removeSessionLocked [simp]: "clientSession (removeSessionLocked u sid ca) = clientSession ca"
  by (simp add: removeSessionLocked_def Let_def)

lemma limit_removeSessionLocked [simp]: "limit_of (removeSessionLocked u sid ca) v = limit_of ca v"
  by (simp add: removeSessionLocked_def Let_def limit_of_def split: option.split)

lemma openMode_removeSessionLocked [simp]: "openMode (removeSessionLocked u sid ca) = openMode ca"
  by (simp add: removeSessionLocked_def Let_def)

lemma active_register [simp]:
  "active (register u c sid ca) v = (if v = u then active ca u @ [sid] else active ca v)"
  by (simp add: register_def active_def)

lemma clientSession_register [simp]: "clientSession (register u c sid ca) = (clientSession ca)(c \<mapsto> sid)"
  by (simp add: register_def)

lemma limit_register [simp]: "limit_of (register u c sid ca) v = limit_of ca v"
  by (simp add: register_def limit_of_def split: option.split)

text \<open>Releasing a client's own session, and giving a free session to a client that has none.\<close>

definition release :: "gostring \<Rightarrow> clientAuth \<Rightarrow> clientAuth" where
  "release c ca = ca\<lparr>clientSession := (clientSession ca)(c := None)\<rparr>"

lemma active_release [simp]: "active (release c ca) u = active ca u"
  by (simp add: release_def active_def)

lemma clientSession_release [simp]: "clientSession (release c ca) = (clientSession ca)(c := None)"
  by (simp add: release_def)

lemma ca_inv_release:
  assumes inv: "ca_inv ca" and own: "clientSession ca c = Some sid"
  shows "ca_inv (release c (removeSessionLocked (parseUserID c) sid ca))"
proof -
  note D = ca_invD [OF inv]
  have sole: "d = c" if "clientSession ca d = Some sid" for d using D(3) [OF that own] .
  let ?ca = "release c (removeSessionLocked (parseUserID c) sid ca)"
  have cs: "clientSession ?ca d = Some x \<longleftrightarrow> clientSession ca d = Some x \<and> x \<noteq> sid" for d x
    using own sole [of d] by (cases "d = c") auto
  have "x \<in> set (active ?ca u) \<longleftrightarrow> (\<exists>d. clientSession ?ca d = Some x \<and> parseUserID d = u)" for x u
    unfolding cs using D(2) [of x u] own by (cases "u = parseUserID c") (auto simp: set_remove1_eq [OF D(1)] dest: sole)
  moreover have "distinct (active ?ca u)" for u using D(1) by simp
  moreover have "a = b" if "clientSession ?ca a = Some x" "clientSession ?ca b = Some x" for a b x
    using that D(3) [of a x b] unfolding cs by blast
  ultimately show ?thesis unfolding ca_inv_def by blast
qed

lemma ca_inv_register:
  assumes inv: "ca_inv ca" and free: "clientSession ca c = None" and fresh: "sid \<notin> ran (clientSession ca)"
  shows "ca_inv (register (parseUserID c) c sid ca)"
proof -
  note D = ca_invD [OF inv]
  have new: "clientSession ca d \<noteq> Some sid" for d using fresh by (auto simp: ran_def)
  have no: "sid \<notin> set (active ca u)" for u using D(2) [of sid u] new by auto
  let ?ca = "register (parseUserID c) c sid ca"
  have cs: "clientSession ?ca d = Some x \<longleftrightarrow> clientSession ca d = Some x \<or> d = c \<and> x = sid" for d x
    using free by auto
  have "x \<in> set (active ?ca u) \<longleftrightarrow> (\<exists>d. clientSession ?ca d = Some x \<and> parseUserID d = u)" for x u
    unfolding cs using D(2) [of x u] by auto
  moreover have "distinct (active ?ca u)" for u using D(1) no by simp
  moreover have "a = b" if "clientSession ?ca a = Some x" "clientSession ?ca b = Some x" for a b x
    using that D(3) [of a x b] new [of a] new [of b] unfolding cs by auto
  ultimately show ?thesis unfolding ca_inv_def by blast
qed

text \<open>Both ways of registering, in one form: release what the client had, then register.\<close>

lemma register_after_remove:
  "register u c sid (removeSessionLocked u prev ca) = register u c sid (release c (removeSessionLocked u prev ca))"
  by (simp add: register_def release_def active_def split: option.split)

lemma ca_inv_reconnect:
  assumes inv: "ca_inv ca" and own: "clientSession ca c = Some prev" and fresh: "sid \<notin> ran (clientSession ca)"
  shows "ca_inv (register (parseUserID c) c sid (removeSessionLocked (parseUserID c) prev ca))"
  unfolding register_after_remove using fresh
  by (intro ca_inv_register ca_inv_release [OF inv own]) (auto simp: ran_def)

lemma ca_inv_AdmitSession:
  "\<lbrakk>ca_inv ca; sid \<notin> ran (clientSession ca)\<rbrakk> \<Longrightarrow> ca_inv (snd (AdmitSession c sid ca))"
  by (auto simp: AdmitSession_def Let_def ca_inv_reconnect ca_inv_register split: option.splits)

lemma ca_inv_OnSessionCreated:
  "\<lbrakk>ca_inv ca; sid \<notin> ran (clientSession ca)\<rbrakk> \<Longrightarrow> ca_inv (OnSessionCreated c sid ca)"
  by (auto simp: OnSessionCreated_def Let_def ca_inv_reconnect ca_inv_register split: option.splits)

text \<open>A destroyed session is registered to its own client or to nobody.\<close>

lemma removeSessionLocked_absent:
  assumes "sid \<notin> set (active ca u)"
  shows "active (removeSessionLocked u sid ca) = active ca"
  using assms by (auto simp: fun_eq_iff remove1_idem)

lemma ca_inv_cong:
  "\<lbrakk>active ca = active cb; clientSession ca = clientSession cb\<rbrakk> \<Longrightarrow> ca_inv ca \<longleftrightarrow> ca_inv cb"
  by (simp add: ca_inv_def)

lemma ca_inv_OnSessionDestroyed:
  assumes inv: "ca_inv ca" and sid: "sid \<noteq> 0" and owner: "\<And>d. clientSession ca d = Some sid \<Longrightarrow> d = c"
  shows "ca_inv (OnSessionDestroyed c sid ca)"
proof (cases "clientSession ca c = Some sid")
  case True
  then show ?thesis using ca_inv_release [OF inv True] by (simp add: OnSessionDestroyed_def Let_def release_def)
next
  case False
  with owner have "clientSession ca d \<noteq> Some sid" for d by blast
  then have "sid \<notin> set (active ca (parseUserID c))" using ca_invD(2) [OF inv] by blast
  then have "active (removeSessionLocked (parseUserID c) sid ca) = active ca" by (rule removeSessionLocked_absent)
  with inv have "ca_inv (removeSessionLocked (parseUserID c) sid ca)"
    using ca_inv_cong by (metis clientSession_removeSessionLocked)
  with False sid show ?thesis by (simp add: OnSessionDestroyed_def Let_def split: option.splits)
qed

lemma ca_inv_GetAndDestroy: "ca_inv ca \<Longrightarrow> ca_inv (snd (GetAndDestroyClientSession c ca))"
proof -
  assume inv: "ca_inv ca"
  let ?ca = "ca\<lparr>authorized := (authorized ca)(c := False)\<rparr>"
  have inv': "ca_inv ?ca" using inv ca_inv_cong [of ca ?ca] by (simp add: active_def [abs_def])
  show ?thesis
  proof (cases "clientSession ca c")
    case None
    with inv' show ?thesis by (simp add: GetAndDestroyClientSession_def Let_def)
  next
    case (Some sid)
    then have "clientSession ?ca c = Some sid" by simp
    from ca_inv_release [OF inv' this] Some show ?thesis
      by (simp add: GetAndDestroyClientSession_def Let_def release_def)
  qed
qed

lemma ca_inv_SyncClients: "ca_inv ca \<Longrightarrow> ca_inv (SyncClients cs ls ca)"
proof -
  assume inv: "ca_inv ca"
  let ?new = "\<lambda>u. u \<in> set (map parseUserID cs)"
  let ?rem = "\<lambda>u. activeSessions ca u \<noteq> None \<and> \<not> ?new u"
  have act: "active (SyncClients cs ls ca) u = (if ?rem u then [] else active ca u)" for u
    by (simp add: SyncClients_def active_def Let_def)
  have cs: "clientSession (SyncClients cs ls ca) c = (if ?rem (parseUserID c) then None else clientSession ca c)" for c
    by (simp add: SyncClients_def Let_def)
  show ?thesis using ca_invD [OF inv] unfolding ca_inv_def act cs by (auto split: if_splits)
qed

subsection \<open>Runs of the authenticator\<close>

datatype ca_op =
    CaAdmit gostring u32
  | CaDestroyed gostring u32
  | CaGetAndDestroy gostring
  | CaAdd gostring
  | CaRemove gostring
  | CaSetLimit gostring int
  | CaSync "gostring list" "gostring \<rightharpoonup> int"

fun ca_step :: "ca_op \<Rightarrow> clientAuth \<Rightarrow> clientAuth" where
  "ca_step (CaAdmit c sid) ca = snd (AdmitSession c sid ca)"
| "ca_step (CaDestroyed c sid) ca = OnSessionDestroyed c sid ca"
| "ca_step (CaGetAndDestroy c) ca = snd (GetAndDestroyClientSession c ca)"
| "ca_step (CaAdd c) ca = AddClient c ca"
| "ca_step (CaRemove c) ca = RemoveClient c ca"
| "ca_step (CaSetLimit u m) ca = SetUserLimit u m ca"
| "ca_step (CaSync cs ls) ca = SyncClients cs ls ca"

text \<open>
  What the server guarantees of its calls: an admitted identifier is not in use (identifiers
  come from the session manager), and a session is reported destroyed under the client it was
  admitted for (the tunnel records both).
\<close>

fun ca_call_ok :: "clientAuth \<Rightarrow> ca_op \<Rightarrow> bool" where
  "ca_call_ok ca (CaAdmit c sid) = (sid \<noteq> 0 \<and> (\<forall>d. clientSession ca d \<noteq> Some sid))"
| "ca_call_ok ca (CaDestroyed c sid) = (sid \<noteq> 0 \<and> (\<forall>d. clientSession ca d = Some sid \<longrightarrow> d = c))"
| "ca_call_ok ca _ = True"

fun ca_run :: "ca_op list \<Rightarrow> clientAuth \<Rightarrow> clientAuth option" where
  "ca_run [] ca = Some ca"
| "ca_run (op # ops) ca = (if ca_call_ok ca op then ca_run ops (ca_step op ca) else None)"

lemma ca_inv_new: "ca_inv (NewClientAuth cs)"
  by (simp add: ca_inv_def NewClientAuth_def active_def)

lemma active_frame [simp]:
  "active (AddClient c ca) = active ca" "active (RemoveClient c ca) = active ca" "active (SetUserLimit u m ca) = active ca"
  "clientSession (AddClient c ca) = clientSession ca" "clientSession (RemoveClient c ca) = clientSession ca"
  "clientSession (SetUserLimit u m ca) = clientSession ca"
  by (simp_all add: AddClient_def RemoveClient_def SetUserLimit_def active_def fun_eq_iff)

lemma ca_inv_step: "\<lbrakk>ca_inv ca; ca_call_ok ca op\<rbrakk> \<Longrightarrow> ca_inv (ca_step op ca)"
  by (cases op)
    (auto simp: ca_inv_AdmitSession ran_def ca_inv_OnSessionDestroyed ca_inv_GetAndDestroy ca_inv_SyncClients
      intro: ca_inv_cong [THEN iffD1, rotated 2])

lemma ca_inv_run: "\<lbrakk>ca_inv ca; ca_run ops ca = Some ca'\<rbrakk> \<Longrightarrow> ca_inv ca'"
  by (induction ops arbitrary: ca) (auto split: if_splits dest: ca_inv_step)

subsection \<open>The quota\<close>

definition quota_ok :: "clientAuth \<Rightarrow> bool" where
  "quota_ok ca \<longleftrightarrow> (\<forall>u. int (ActiveSessionCount u ca) \<le> max 0 (limit_of ca u))"

fun keeps_limits :: "ca_op \<Rightarrow> bool" where
  "keeps_limits (CaSetLimit u m) = False"
| "keeps_limits (CaSync cs ls) = False"
| "keeps_limits _ = True"

lemma AdmitSession_count:
  assumes inv: "ca_inv ca"
  shows "ActiveSessionCount u (snd (AdmitSession c sid ca)) =
     (if \<not> openMode ca \<and> fst (AdmitSession c sid ca) \<and> clientSession ca c = None \<and> u = parseUserID c
      then Suc (ActiveSessionCount u ca) else ActiveSessionCount u ca)"
proof (cases "clientSession ca c")
  case None
  then show ?thesis by (auto simp: AdmitSession_def ActiveSessionCount_def Let_def)
next
  case (Some prev)
  then have mem: "prev \<in> set (active ca (parseUserID c))" using ca_invD(2) [OF inv] by blast
  then have "Suc (length (remove1 prev (active ca (parseUserID c)))) = length (active ca (parseUserID c))"
    by (metis One_nat_def Suc_pred length_pos_if_in_set length_remove1)
  with Some mem show ?thesis by (auto simp: AdmitSession_def ActiveSessionCount_def Let_def)
qed

lemma limit_step: "keeps_limits op \<Longrightarrow> limit_of (ca_step op ca) u = limit_of ca u"
proof (cases op)
  case (CaAdmit c sid)
  then show ?thesis by (simp add: AdmitSession_def Let_def split: option.split)
next
  case (CaDestroyed c sid)
  have "limit_of (ca\<lparr>clientSession := x\<rparr>) u = limit_of ca u" for ca x by (simp add: limit_of_def split: option.split)
  with CaDestroyed show ?thesis by (simp add: OnSessionDestroyed_def Let_def split: option.split)
next
  case (CaGetAndDestroy c)
  have "limit_of (ca\<lparr>clientSession := x\<rparr>) u = limit_of ca u" "limit_of (ca\<lparr>authorized := y\<rparr>) u = limit_of ca u" for ca x y
    by (simp_all add: limit_of_def split: option.split)
  with CaGetAndDestroy show ?thesis by (simp add: GetAndDestroyClientSession_def Let_def split: option.split)
qed (auto simp: AddClient_def RemoveClient_def limit_of_def split: option.split)

lemma shrink_count:
  "ActiveSessionCount u (OnSessionDestroyed c sid ca) \<le> ActiveSessionCount u ca"
  "ActiveSessionCount u (snd (GetAndDestroyClientSession c ca)) \<le> ActiveSessionCount u ca"
proof -
  have act: "active (ca\<lparr>clientSession := x\<rparr>) = active ca" "active (ca\<lparr>authorized := y\<rparr>) = active ca" for ca x y
    by (simp_all add: active_def fun_eq_iff)
  have len: "length (remove1 x l) \<le> length l" for x :: u32 and l by (simp add: length_remove1)
  show "ActiveSessionCount u (OnSessionDestroyed c sid ca) \<le> ActiveSessionCount u ca"
    using len by (simp add: OnSessionDestroyed_def ActiveSessionCount_def Let_def act)
  show "ActiveSessionCount u (snd (GetAndDestroyClientSession c ca)) \<le> ActiveSessionCount u ca"
    using len by (simp add: GetAndDestroyClientSession_def ActiveSessionCount_def Let_def act split: option.split)
qed

lemma AdmitSession_gate:
  assumes "\<not> openMode ca" "clientSession ca c = None" "fst (AdmitSession c sid ca)"
  shows "int (ActiveSessionCount (parseUserID c) ca) < limit_of ca (parseUserID c)"
  using assms by (auto simp: AdmitSession_def Let_def ActiveSessionCount_def split: if_splits)

lemma quota_step:
  assumes inv: "ca_inv ca" and q: "quota_ok ca" and op: "keeps_limits op"
  shows "quota_ok (ca_step op ca)"
proof -
  have q: "int (ActiveSessionCount u ca) \<le> max 0 (limit_of ca u)" for u using q by (simp add: quota_ok_def)
  have "int (ActiveSessionCount u (ca_step op ca)) \<le> max 0 (limit_of ca u)" for u
  proof (cases op)
    case (CaAdmit c sid)
    with q [of u] AdmitSession_gate [of ca c sid] show ?thesis
      by (auto simp: AdmitSession_count [OF inv])
  next
    case (CaDestroyed c sid)
    with q [of u] shrink_count(1) [of u c sid ca] show ?thesis by simp
  next
    case (CaGetAndDestroy c)
    with q [of u] shrink_count(2) [of u c ca] show ?thesis by simp
  qed (use q [of u] op in \<open>auto simp: ActiveSessionCount_def\<close>)
  then show ?thesis by (simp add: quota_ok_def limit_step [OF op])
qed

lemma quota_run:
  assumes "ca_inv ca" "quota_ok ca" "list_all keeps_limits ops" "ca_run ops ca = Some ca'"
  shows "quota_ok ca'"
  using assms
  by (induction ops arbitrary: ca) (auto split: if_splits dest: quota_step ca_inv_step)

subsection \<open>Properties\<close>

text \<open>After any sequence of admissions, destructions and management calls the session tables
  agree: a user's list is free of repetitions and holds exactly the sessions that the user's
  client identifiers own, and no session belongs to two clients.\<close>

theorem auth_tables_agree:
  assumes "ca_run ops (NewClientAuth cs) = Some ca"
  shows "ca_inv ca"
  using ca_inv_run [OF ca_inv_new assms] .

lemmas demo_simps = AdmitSession_def OnSessionDestroyed_def NewClientAuth_def Let_def register_def
  removeSessionLocked_def active_def parseUserID_def limit_of_def

theorem auth_tables_agree_witness:
  "\<exists>ca. ca_run [CaAdmit [1, 0x3A, 2] 5, CaAdmit [1, 0x3A, 2] 6] (NewClientAuth [[1, 0x3A, 2]]) = Some ca \<and>
     ca_inv ca \<and> active ca [1] = [6]"
proof -
  have "\<exists>ca. ca_run [CaAdmit [1, 0x3A, 2] 5, CaAdmit [1, 0x3A, 2] 6] (NewClientAuth [[1, 0x3A, 2]]) = Some ca \<and> active ca [1] = [6]"
    by (simp add: demo_simps)
  then obtain ca where "ca_run [CaAdmit [1, 0x3A, 2] 5, CaAdmit [1, 0x3A, 2] 6] (NewClientAuth [[1, 0x3A, 2]]) = Some ca"
      "active ca [1] = [6]" by (elim exE conjE)
  with auth_tables_agree [OF this(1)] show ?thesis by (intro exI conjI)
qed

text \<open>C35. The device quota is never exceeded: starting without sessions, whatever clients connect,
  reconnect and leave (the limits unchanged), no user ever has more registered sessions than
  its limit.\<close>

theorem device_quota_respected:
  assumes "start = (NewClientAuth cs)\<lparr>defaultMax := m, userLimits := ul\<rparr>"
    and "ca_run ops start = Some ca" "list_all keeps_limits ops"
  shows "int (ActiveSessionCount u ca) \<le> max 0 (limit_of start u)"
proof -
  have no: "clientSession start = Map.empty" "active start v = []" for v
    using assms(1) by (simp_all add: NewClientAuth_def active_def)
  then have start: "quota_ok start" "ca_inv start" by (simp_all add: quota_ok_def ActiveSessionCount_def ca_inv_def)
  have lim: "ca_run ops ca0 = Some ca \<Longrightarrow> list_all keeps_limits ops \<Longrightarrow> limit_of ca v = limit_of ca0 v" for ops ca0 v
    by (induction ops arbitrary: ca0) (auto split: if_splits simp: limit_step)
  from quota_run [OF start(2,1) assms(3,2)] lim [OF assms(2,3)] show ?thesis by (simp add: quota_ok_def)
qed

theorem device_quota_respected_witness:
  "\<exists>ca. ca_run [CaAdmit [1, 0x3A, 1] 5, CaAdmit [1, 0x3A, 2] 6, CaAdmit [1, 0x3A, 3] 7]
       ((NewClientAuth [[1]])\<lparr>defaultMax := 2, userLimits := Map.empty\<rparr>) = Some ca \<and>
     int (ActiveSessionCount [1] ca) \<le> 2 \<and> ActiveSessionCount [1] ca = 2"
proof -
  let ?ops = "[CaAdmit [1, 0x3A, 1] 5, CaAdmit [1, 0x3A, 2] 6, CaAdmit [1, 0x3A, 3] 7]"
  let ?s = "(NewClientAuth [[1]])\<lparr>defaultMax := 2, userLimits := Map.empty\<rparr>"
  have "\<exists>ca. ca_run ?ops ?s = Some ca \<and> ActiveSessionCount [1] ca = 2"
    by (simp add: demo_simps ActiveSessionCount_def)
  then obtain ca where ca: "ca_run ?ops ?s = Some ca" "ActiveSessionCount [1] ca = 2" by blast
  have "int (ActiveSessionCount [1] ca) \<le> max 0 (limit_of ?s [1])"
    by (rule device_quota_respected [OF refl ca(1)]) simp
  with ca show ?thesis by auto
qed

end
