(* ===== verification/Server_Handshake.thy ===== *)
theory Server_Handshake
  imports Handshake Client_Auth
begin

section \<open>The server's handshake handler\<close>

text \<open>
  Models \<open>handleHandshakeNew\<close> of \<open>src/server/handler.go\<close> with the state it works on (session
  manager, replay cache, client authenticator, soft counters, tunnel table) and the part of
  \<open>NewHandler\<close> that sizes the replay cache.  What the environment decides is in the record
  \<open>hs_env\<close>: the verdict of the per-address limiter, the lookup in the exemption cache (a
  third-party LRU), the load gauge, the clock readings in the order the code takes them, and
  the random bytes.

  Shown: a rejected handshake leaves no session, no tunnel and no quota entry; a completed one
  publishes exactly one session, mirrored at the client; and what the replay gate guarantees:
  a window of more than twice the drift window (plus the handler's own delay) stops every
  replay, the window \<open>NewHandler\<close> settles for does not.
\<close>

datatype decoy_reason =
    DecoyReasonBackpressure | DecoyReasonMaxClients | DecoyReasonAuthFail | DecoyReasonReplayDetected
  | DecoyReasonHandshakeFail | DecoyReasonDeviceLimit | DecoyReasonInternal

datatype hs_reply = Decoy decoy_reason | RateLimited bool | HelloReply serverHello

record hs_config =
  MaxConnsPerClient :: byte
  MaxClients :: nat
  FingerprintWeights :: "(string \<rightharpoonup> int) option"

record handler =
  h_sessions :: sessionManager
  h_replay :: replayCache
  h_auth :: clientAuth
  h_exempt :: "exemption option"
  h_marked :: "gostring list"          \<comment> \<open>\<open>MarkSeen\<close> calls\<close>
  h_tunnels :: "u32 \<rightharpoonup> gostring"       \<comment> \<open>tunnel of a session, by its client identifier\<close>

record hs_env =
  e_allow :: bool
  e_isExempt :: "gostring \<Rightarrow> bool"
  e_reject :: bool
  e_keys :: "u32 list"                 \<comment> \<open>the keys of the session table, for \<open>Count\<close>\<close>
  e_tDecrypt :: int
  e_tAccept :: int
  e_tHello :: int
  e_nowNs :: instant
  e_R :: hs_random
  e_chunkSize :: u16
  e_respOk :: bool

text \<open>
  The exemption detour of a rate-limited request: the identity of an exempt client, whose
  soft counter then decides; \<open>Inl\<close> is the reply that ends the request.
\<close>

definition exemption_gate ::
  "crypto \<Rightarrow> hs_env \<Rightarrow> bytes \<Rightarrow> bytes \<Rightarrow> keyPair \<Rightarrow> handler \<Rightarrow> (hs_reply + gostring option) \<times> handler" where
  "exemption_gate C env ephPub enc serverKey h =
     (if e_allow env then (Inr None, h)
      else case h_exempt h of
        None \<Rightarrow> (Inl (RateLimited False), h)
      | Some ex \<Rightarrow>
          (case DecryptClientID C (e_tDecrypt env) enc ephPub serverKey of
             Ok cid \<Rightarrow>
               if length cid \<noteq> 0 \<and> e_isExempt env cid
               then (case AllowExempted (e_nowNs env) cid ex of
                       (True, ex') \<Rightarrow> (Inr (Some cid), h\<lparr>h_exempt := Some ex'\<rparr>)
                     | (False, ex') \<Rightarrow> (Inl (RateLimited True), h\<lparr>h_exempt := Some ex'\<rparr>))
               else (Inl (RateLimited False), h)
           | _ \<Rightarrow> (Inl (RateLimited False), h)))"

text \<open>Decryption of the identity (unless the detour already did it) and the replay cache.\<close>

definition hello_gate ::
  "crypto \<Rightarrow> hs_env \<Rightarrow> gostring option \<Rightarrow> bytes \<Rightarrow> bytes \<Rightarrow> keyPair \<Rightarrow> replayCache \<Rightarrow>
   (hs_reply + gostring) \<times> replayCache" where
  "hello_gate C env cached ephPub enc serverKey rc =
     (case (case cached of Some cid \<Rightarrow> Some cid
            | None \<Rightarrow> (case DecryptClientID C (e_tDecrypt env) enc ephPub serverKey of Ok cid \<Rightarrow> Some cid | _ \<Rightarrow> None)) of
        None \<Rightarrow> (Inl (Decoy DecoyReasonAuthFail), rc)
      | Some cid \<Rightarrow>
          (case Accept enc (e_tAccept env) rc of
             (True, rc') \<Rightarrow> (Inr cid, rc')
           | (False, rc') \<Rightarrow> (Inl (Decoy DecoyReasonReplayDetected), rc')))"

text \<open>After the session exists: authorisation, quota, tunnel, response.\<close>

definition admit_hello ::
  "hs_config \<Rightarrow> hs_env \<Rightarrow> gostring \<Rightarrow> serverHello \<Rightarrow> session \<Rightarrow> handler \<Rightarrow> hs_reply \<times> handler" where
  "admit_hello cfg env cid sh s h =
     (if \<not> IsAuthorized cid (h_auth h)
      then (Decoy DecoyReasonAuthFail, h\<lparr>h_sessions := snd (Remove (ID s) (h_sessions h))\<rparr>)
      else case AdmitSession cid (ID s) (h_auth h) of
        (False, au) \<Rightarrow>
          (Decoy DecoyReasonDeviceLimit, h\<lparr>h_auth := au, h_sessions := snd (Remove (ID s) (h_sessions h))\<rparr>)
      | (True, au) \<Rightarrow>
          (let h1 = h\<lparr>h_auth := au, h_tunnels := (h_tunnels h)(ID s \<mapsto> cid),
                      h_marked := (case h_exempt h of None \<Rightarrow> h_marked h | Some _ \<Rightarrow> h_marked h @ [cid])\<rparr>;
               sh1 = sh\<lparr>sh_ProtoVersion := Some 1, sh_FingerprintWeights := FingerprintWeights cfg\<rparr>
           in if \<not> e_respOk env then (Decoy DecoyReasonInternal, h1)
              else (HelloReply sh1,
                    h1\<lparr>h_sessions := (h_sessions h1)\<lparr>sessions :=
                         (sessions (h_sessions h1))(ID s \<mapsto> s\<lparr>AttachedAt := e_nowNs env\<rparr>)\<rparr>\<rparr>)))"

definition handleHandshakeNew ::
  "crypto \<Rightarrow> gcm \<Rightarrow> hs_config \<Rightarrow> hs_env \<Rightarrow> bytes \<Rightarrow> bytes \<Rightarrow> keyPair \<Rightarrow> handler \<Rightarrow> hs_reply \<times> handler" where
  "handleHandshakeNew C G cfg env ephPub enc serverKey h =
     (case exemption_gate C env ephPub enc serverKey h of
        (Inl r, h1) \<Rightarrow> (r, h1)
      | (Inr cached, h1) \<Rightarrow>
        if e_reject env then (Decoy DecoyReasonBackpressure, h1)
        else if Count (e_keys env) (h_sessions h1) \<ge> MaxClients cfg then (Decoy DecoyReasonMaxClients, h1)
        else (case hello_gate C env cached ephPub enc serverKey (h_replay h1) of
          (Inl r, rc) \<Rightarrow> (r, h1\<lparr>h_replay := rc\<rparr>)
        | (Inr cid, rc) \<Rightarrow>
          (case HandleClientHelloWithVersion C G (e_tHello env) (e_nowNs env) (e_R env)
                  \<lparr>ch_EphemeralPub = ephPub, ch_EncryptedClientID = enc\<rparr> serverKey
                  (MaxConnsPerClient cfg) (e_chunkSize env) 1 (h_sessions h1) of
             (Ok (sh, s, _), sm) \<Rightarrow> admit_hello cfg env cid sh s (h1\<lparr>h_replay := rc, h_sessions := sm\<rparr>)
           | (_, sm) \<Rightarrow> (Decoy DecoyReasonHandshakeFail, h1\<lparr>h_replay := rc, h_sessions := sm\<rparr>))))"

text \<open>The replay-cache parameters of \<open>NewHandler\<close>, window in nanoseconds.\<close>

definition handler_replay_cache :: "int \<Rightarrow> int \<Rightarrow> replayCache" where
  "handler_replay_cache cfgMax cfgWindow =
     (let replayMax = (if cfgMax \<le> 0 then 10000 else cfgMax);
          w0 = (if cfgWindow \<le> 0 then 5 * 60 * Second else cfgWindow);
          driftWindow = HandshakeDriftWindowSecs * Second;
          replayWindow = (if w0 < driftWindow then driftWindow else w0)
      in NewReplayCache replayMax replayWindow)"

subsection \<open>A rejected handshake leaves nothing behind\<close>

lemma exemption_gate_frame:
  assumes "exemption_gate C env ep enc sk h = (r, h1)"
  shows "h_sessions h1 = h_sessions h" "h_replay h1 = h_replay h" "h_auth h1 = h_auth h" "h_tunnels h1 = h_tunnels h"
    "h_marked h1 = h_marked h"
  using assms by (auto simp: exemption_gate_def split: if_splits option.splits outcome.splits prod.splits bool.splits)

lemma HandleClientHello_session:
  assumes "HandleClientHelloWithVersion C G t now R hello srv mc chs v sm = (Ok (sh, s, cid), sm')"
  shows "\<exists>sk rk k1 k2. s = (NewSession now (r_migrate R) (draw_id (nextID sm)) rk sk)
       \<lparr>sendEpochPtr := Some \<lparr>ep_gcm = k1, ep_nonce = 0\<rparr>, recvGCM := Some k2\<rparr>"
    and "sm' = sm\<lparr>nextID := draw_id (nextID sm), sessions := (sessions sm)(draw_id (nextID sm) \<mapsto> s)\<rparr>"
  using assms
  by (auto simp: HandleClientHelloWithVersion_def Create_def Let_def split: outcome.splits prod.splits)

lemma HandleClientHello_ID:
  assumes "HandleClientHelloWithVersion C G t now R hello srv mc chs v sm = (Ok (sh, s, cid), sm')"
  shows "ID s = draw_id (nextID sm)" "AttachedAt s = 0"
  using HandleClientHello_session(1) [OF assms] by (auto simp: NewSession_def)

text \<open>The session table after \<open>Create\<close> and \<open>Remove\<close> of the new session is the old one.\<close>

lemma Remove_created:
  assumes "sessions sm sid = None"
  shows "sessions (snd (Remove sid (sm\<lparr>nextID := n, sessions := (sessions sm)(sid \<mapsto> s)\<rparr>))) = sessions sm"
  using assms by (auto simp: Remove_def)

lemma admit_hello_reject:
  assumes "admit_hello cfg env cid sh s h = (r, h')" "\<And>x. r \<noteq> HelloReply x" "r \<noteq> Decoy DecoyReasonInternal"
  shows "h_sessions h' = snd (Remove (ID s) (h_sessions h))" "h_auth h' = h_auth h" "h_tunnels h' = h_tunnels h"
  using assms
  by (auto simp: admit_hello_def AdmitSession_def Let_def split: if_splits prod.splits bool.splits option.splits)

lemma HandleClientHello_fails_clean:
  assumes "HandleClientHelloWithVersion C G t now R hello srv mc chs v sm = (r, sm')"
    "\<And>x. r \<noteq> Ok x" "r_token R \<noteq> None"
  shows "sm' = sm"
proof -
  have tok: "\<exists>tk. encryptSessionToken G (r_token R) sid k = Ok tk" if "length k \<in> {16, 24, 32}" for sid k
    using that assms(3) by (auto simp: encryptSessionToken_def newGCM_def)
  have crt: "length rk \<in> {16, 24, 32} \<and> length sk \<in> {16, 24, 32}" if "Create now n sk rk sm = (Ok s, sm1)" for n sk rk s sm1
    using that by (auto simp: Create_def newGCM_def split: if_splits)
  have err: "sm1 = sm" if "Create now n sk rk sm = (Err e, sm1)" for n sk rk e sm1
    using that by (auto simp: Create_def newGCM_def Let_def split: if_splits)
  have pan: "sm1 = sm" if "Create now n sk rk sm = (Panic, sm1)" for n sk rk sm1
    using that by (auto simp: Create_def newGCM_def Let_def split: if_splits)
  show ?thesis using assms(1,2)
    by (auto simp: HandleClientHelloWithVersion_def split: outcome.splits prod.splits dest: err pan crt)
      (metis crt tok outcome.distinct(1,3))+
qed

lemma handleHandshakeNew_rejected:
  assumes run: "handleHandshakeNew C G cfg env ep enc sk h = (r, h')"
    and rej: "\<And>x. r \<noteq> HelloReply x" "r \<noteq> Decoy DecoyReasonInternal"
    and fresh: "sessions (h_sessions h) (draw_id (nextID (h_sessions h))) = None" and rnd: "r_token (e_R env) \<noteq> None"
  shows "sessions (h_sessions h') = sessions (h_sessions h) \<and> h_auth h' = h_auth h \<and> h_tunnels h' = h_tunnels h"
proof -
  obtain g h1 where g: "exemption_gate C env ep enc sk h = (g, h1)" by force
  note f = exemption_gate_frame [OF g]
  show ?thesis
  proof (cases g)
    case (Inl x)
    with run g f show ?thesis by (simp add: handleHandshakeNew_def)
  next
    case (Inr cached)
    let ?hello = "\<lparr>ch_EphemeralPub = ep, ch_EncryptedClientID = enc\<rparr>"
    obtain q rc where q: "hello_gate C env cached ep enc sk (h_replay h1) = (q, rc)" by force
    obtain o' sm where o: "HandleClientHelloWithVersion C G (e_tHello env) (e_nowNs env) (e_R env) ?hello sk
        (MaxConnsPerClient cfg) (e_chunkSize env) 1 (h_sessions h1) = (o', sm)" by force
    consider (early) "h_sessions h' = h_sessions h1" "h_auth h' = h_auth h1" "h_tunnels h' = h_tunnels h1"
      | (failed) "\<And>x. o' \<noteq> Ok x" "h_sessions h' = sm" "h_auth h' = h_auth h1" "h_tunnels h' = h_tunnels h1"
      | (admit) sh s c cid where "o' = Ok (sh, s, c)"
          "admit_hello cfg env cid sh s (h1\<lparr>h_replay := rc, h_sessions := sm\<rparr>) = (r, h')"
      using run g Inr q o
      by (auto simp: handleHandshakeNew_def split: if_splits sum.splits prod.splits outcome.splits)
    then show ?thesis
    proof cases
      case early
      with f show ?thesis by simp
    next
      case failed
      with HandleClientHello_fails_clean [OF o] rnd f show ?thesis by simp
    next
      case admit
      note s = HandleClientHello_session(2) [OF o [unfolded admit(1)]] HandleClientHello_ID(1) [OF o [unfolded admit(1)]]
      from admit_hello_reject [OF admit(2) rej] Remove_created [OF fresh] s f show ?thesis by simp
    qed
  qed
qed

subsection \<open>Reconnection\<close>

text \<open>
  A client that already has a session and completes another handshake keeps both sessions in
  the session table, while the quota counts one.
\<close>

lemma handleHandshakeNew_success:
  assumes run: "handleHandshakeNew C G cfg env ep enc sk h = (HelloReply sh, h')"
  obtains s cid rc sh0 c where
    "hello_gate C env (case exemption_gate C env ep enc sk h of (Inr x, _) \<Rightarrow> x | _ \<Rightarrow> None) ep enc sk (h_replay h) = (Inr cid, rc)"
    "HandleClientHelloWithVersion C G (e_tHello env) (e_nowNs env) (e_R env)
        \<lparr>ch_EphemeralPub = ep, ch_EncryptedClientID = enc\<rparr> sk (MaxConnsPerClient cfg) (e_chunkSize env) 1 (h_sessions h)
      = (Ok (sh0, s, c), (h_sessions h)\<lparr>nextID := ID s, sessions := (sessions (h_sessions h))(ID s \<mapsto> s)\<rparr>)"
    "ID s = draw_id (nextID (h_sessions h))"
    "sh = sh0\<lparr>sh_ProtoVersion := Some 1, sh_FingerprintWeights := FingerprintWeights cfg\<rparr>"
    "IsAuthorized cid (h_auth h)" "AdmitSession cid (ID s) (h_auth h) = (True, h_auth h')"
    "sessions (h_sessions h') = (sessions (h_sessions h))(ID s \<mapsto> s\<lparr>AttachedAt := e_nowNs env\<rparr>)"
    "h_tunnels h' = (h_tunnels h)(ID s \<mapsto> cid)" "h_replay h' = rc"
proof -
  obtain g h1 where g: "exemption_gate C env ep enc sk h = (g, h1)" by force
  note f = exemption_gate_frame [OF g]
  obtain cached where cached: "g = Inr cached"
    using run g by (cases g) (auto simp: handleHandshakeNew_def exemption_gate_def split: if_splits option.splits outcome.splits prod.splits bool.splits)
  let ?hello = "\<lparr>ch_EphemeralPub = ep, ch_EncryptedClientID = enc\<rparr>"
  obtain cid rc sh0 s c sm where q: "hello_gate C env cached ep enc sk (h_replay h) = (Inr cid, rc)"
    and o: "HandleClientHelloWithVersion C G (e_tHello env) (e_nowNs env) (e_R env) ?hello sk
        (MaxConnsPerClient cfg) (e_chunkSize env) 1 (h_sessions h) = (Ok (sh0, s, c), sm)"
    and a: "admit_hello cfg env cid sh0 s (h1\<lparr>h_replay := rc, h_sessions := sm\<rparr>) = (HelloReply sh, h')"
    using run g cached f
    by (auto simp: handleHandshakeNew_def hello_gate_def split: if_splits sum.splits prod.splits outcome.splits option.splits bool.splits)
  note sm = HandleClientHello_session(2) [OF o] and sid = HandleClientHello_ID(1) [OF o]
  have adm: "IsAuthorized cid (h_auth h1)" "AdmitSession cid (ID s) (h_auth h1) = (True, h_auth h')"
    "h_tunnels h' = (h_tunnels h1)(ID s \<mapsto> cid)"
    "sh = sh0\<lparr>sh_ProtoVersion := Some 1, sh_FingerprintWeights := FingerprintWeights cfg\<rparr>"
    "sessions (h_sessions h') = (sessions sm)(ID s \<mapsto> s\<lparr>AttachedAt := e_nowNs env\<rparr>)" "h_replay h' = rc"
    using a by (auto simp: admit_hello_def Let_def split: if_splits prod.splits bool.splits)
  show thesis
    by (rule that [of cid rc sh0 s c]) (use q o sm sid adm f g cached in \<open>simp_all\<close>)
qed

lemma handleHandshakeNew_reconnect:
  assumes run: "handleHandshakeNew C G cfg env ep enc sk h = (HelloReply sh, h')"
    and inv: "ca_inv (h_auth h)" and other: "old \<noteq> draw_id (nextID (h_sessions h))"
  shows "sessions (h_sessions h') old = sessions (h_sessions h) old"
  using run other by (elim handleHandshakeNew_success) auto

subsection \<open>Completion\<close>

lemma handleHandshakeNew_completes:
  assumes C: "dh_ok C" "hkdf_ok C" and G: "gcm_ok G"
    and rnd: "length ephSk = 32" "r_eph (e_R env) = Some srvEph" "length srvEph = 32"
      "r_token (e_R env) = Some tokNonce" "length tokNonce = NonceSize"
    and dec: "DecryptClientID C (e_tDecrypt env) e (dh_pub C ephSk) srv = Ok cid"
      "DecryptClientID C (e_tHello env) e (dh_pub C ephSk) srv = Ok cid"
    and state: "cs_Ephemeral state = \<lparr>kp_Public = dh_pub C ephSk, kp_Private = ephSk\<rparr>" "cs_ClientID state = cid"
    and env: "e_allow env" "\<not> e_reject env" "Count (e_keys env) (h_sessions h) < MaxClients cfg" "e_respOk env"
    and replay: "fst (Accept e (e_tAccept env) (h_replay h))"
    and auth: "IsAuthorized cid (h_auth h)" "fst (AdmitSession cid (draw_id (nextID (h_sessions h))) (h_auth h))"
  obtains sh h' cs ss where
    "handleHandshakeNew C G cfg env (dh_pub C ephSk) e srv h = (HelloReply sh, h')"
    "CompleteHandshake C G cnow mn state (Some sh) = Ok cs" "mirrored cs ss"
    "ID cs = draw_id (nextID (h_sessions h))" "sessions (h_sessions h') (ID cs) = Some ss"
    "AttachedAt ss = e_nowNs env" "h_tunnels h' (ID cs) = Some cid"
proof -
  let ?sid = "draw_id (nextID (h_sessions h))"
  obtain sh ss cs where a:
    "HandleClientHelloWithVersion C G (e_tHello env) (e_nowNs env) (e_R env)
        \<lparr>ch_EphemeralPub = dh_pub C ephSk, ch_EncryptedClientID = e\<rparr> srv (MaxConnsPerClient cfg) (e_chunkSize env) 1 (h_sessions h) =
       (Ok (sh, ss, cid), (h_sessions h)\<lparr>nextID := ID ss, sessions := (sessions (h_sessions h))(ID ss \<mapsto> ss)\<rparr>)"
    "ID ss = ?sid" "mirrored cs ss"
    "\<And>pv fw. CompleteHandshakeWithVersion C G cnow mn state (sh\<lparr>sh_ProtoVersion := pv, sh_FingerprintWeights := fw\<rparr>) 1 = Ok cs"
    by (rule server_client_agree [OF C G rnd dec(2) state, where nowNs = "e_nowNs env" and mc = "MaxConnsPerClient cfg"
          and chs = "e_chunkSize env" and v = 1 and sm = "h_sessions h" and cnow = cnow and mn = mn]) simp_all
  obtain rc where rc: "Accept e (e_tAccept env) (h_replay h) = (True, rc)" using replay by (metis prod.collapse eq_True)
  obtain au where au: "AdmitSession cid ?sid (h_auth h) = (True, au)" using auth(2) by (metis prod.collapse eq_True)
  let ?sh = "sh\<lparr>sh_ProtoVersion := Some 1, sh_FingerprintWeights := FingerprintWeights cfg\<rparr>"
  let ?ss = "ss\<lparr>AttachedAt := e_nowNs env\<rparr>"
  have run: "\<exists>h'. handleHandshakeNew C G cfg env (dh_pub C ephSk) e srv h = (HelloReply ?sh, h') \<and>
      sessions (h_sessions h') ?sid = Some ?ss \<and> h_tunnels h' ?sid = Some cid"
    using a(2) env auth(1) rc au
    by (simp add: handleHandshakeNew_def exemption_gate_def hello_gate_def dec(1) a(1) admit_hello_def Let_def)
  have "ID cs = ?sid" "mirrored cs ?ss" using a(2,3) by (auto simp: mirrored_def)
  moreover have "CompleteHandshake C G cnow mn state (Some ?sh) = Ok cs"
    using a(4) by (simp add: CompleteHandshake_def)
  ultimately show thesis using that run by (metis session.select_convs(8) session.surjective session.update_convs(8))
qed

subsection \<open>The replay gate\<close>

lemma hello_gate_accepts:
  assumes "hello_gate C env None ep enc sk rc = (Inr cid, rc')"
  shows "DecryptClientID C (e_tDecrypt env) enc ep sk = Ok cid" "Accept enc (e_tAccept env) rc = (True, rc')"
  using assms by (auto simp: hello_gate_def split: outcome.splits option.splits prod.splits bool.splits)

lemma hello_gate_no_replay:
  assumes first: "hello_gate C env1 None ep enc sk rc = (Inr cid, rc1)"
    and inv: "rc_inv rc" and clocks: "clock_ok (e_tDecrypt env1)" "clock_ok (e_tDecrypt env2)"
    and order: "e_tDecrypt env1 \<le> e_tAccept env1" "e_tAccept env1 \<le> e_tAccept env2"
    and delay: "e_tAccept env2 - e_tDecrypt env2 \<le> d"
    and wide: "2 * HandshakeDriftWindowSecs + d < windowSecs rc"
    and between: "\<And>op. op \<in> set ops \<Longrightarrow> e_tAccept env1 \<le> rc_time op \<and> rc_time op \<le> e_tAccept env2"
    and few: "length ops < maxSize rc"
  shows "\<exists>r. fst (hello_gate C env2 None ep enc sk (rc_run ops rc1)) = Inl r"
proof (rule ccontr)
  assume "\<not> ?thesis"
  then obtain cid2 rc2 where second: "hello_gate C env2 None ep enc sk (rc_run ops rc1) = (Inr cid2, rc2)"
    by (metis old.sum.exhaust prod.collapse)
  note a1 = hello_gate_accepts [OF first] and a2 = hello_gate_accepts [OF second]
  obtain m1 where m1: "box_open C (drop 24 enc) (take 24 enc) (arr32 ep) (arr32 (kp_Private sk)) = Some m1"
    "\<bar>e_tDecrypt env1 - sint (hello_ts m1)\<bar> \<le> HandshakeDriftWindowSecs"
    using DecryptClientID_fresh [OF clocks(1) a1(1)] by metis
  obtain m2 where m2: "box_open C (drop 24 enc) (take 24 enc) (arr32 ep) (arr32 (kp_Private sk)) = Some m2"
    "\<bar>e_tDecrypt env2 - sint (hello_ts m2)\<bar> \<le> HandshakeDriftWindowSecs"
    using DecryptClientID_fresh [OF clocks(2) a2(1)] by metis
  from m1 m2 have near: "e_tAccept env2 - e_tAccept env1 < windowSecs rc" using order delay wide by simp
  have rc1: "rc1 = snd (Accept enc (e_tAccept env1) rc)" using a1(2) by simp
  have inv1: "rc_inv rc1" using Accept_refines(1) [OF inv] by (simp add: rc1)
  have "remembered enc (e_tAccept env1) 0 (rc_abs rc1)"
    using remembered_after_accept [OF inv, of enc "e_tAccept env1"] a1(2) by simp
  moreover have "\<bar>rc_time op - e_tAccept env1\<bar> < windowSecs rc1" if "op \<in> set ops" for op
    using between [OF that] near by (simp add: rc1)
  ultimately have "remembered enc (e_tAccept env1) (0 + length ops) (rc_abs (rc_run ops rc1))"
    using few by (intro remembered_run [OF inv1]) (simp_all add: rc1)
  then have "\<not> fst (Accept enc (e_tAccept env2) (rc_run ops rc1))"
    using near order by (intro remembered_refused [OF rc_inv_run [OF inv1]]) (auto simp: rc1)
  with a2(2) show False by simp
qed

text \<open>
  The window \<open>NewHandler\<close> settles for by default is the drift window itself.  A hello whose
  sender's clock runs 300 s ahead is accepted when it arrives and again 300 s later.
\<close>

lemma handler_replay_cache_default:
  "rc_inv (handler_replay_cache 0 0)" "windowSecs (handler_replay_cache 0 0) = 300" "maxSize (handler_replay_cache 0 0) = 10000"
  "index (handler_replay_cache 0 0) = Map.empty"
  unfolding handler_replay_cache_def NewReplayCache_def Let_def
  by (rule rc_inv_new, simp_all add: NewReplayCacheWithOptions_def Second_def HandshakeDriftWindowSecs_def)

subsection \<open>A concrete server\<close>

definition demo_handler :: handler where
  "demo_handler = \<lparr>h_sessions = \<lparr>sessions = Map.empty, sm_timeout = 9, nextID = 41\<rparr>,
     h_replay = handler_replay_cache 0 0, h_auth = NewClientAuth [replicate 16 2], h_exempt = None,
     h_marked = [], h_tunnels = Map.empty\<rparr>"

definition demo_config :: hs_config where
  "demo_config = \<lparr>MaxConnsPerClient = 8, MaxClients = 500, FingerprintWeights = None\<rparr>"

definition demo_env :: "int \<Rightarrow> hs_env" where
  "demo_env t = \<lparr>e_allow = True, e_isExempt = (\<lambda>_. False), e_reject = False, e_keys = [], e_tDecrypt = t,
     e_tAccept = t, e_tHello = t, e_nowNs = t * Second, e_R = demo_random, e_chunkSize = 12288, e_respOk = True\<rparr>"

text \<open>The hello of a client whose clock reads \<open>t\<close>.\<close>

definition demo_hello :: "int \<Rightarrow> bytes" where
  "demo_hello t = zeros 24 @ put64 (of_int t) @ [16] @ replicate 16 2 @ zeros 16"

lemma demo_hello_decodes:
  assumes "clock_ok t" "clock_ok t'" "\<bar>t' - t\<bar> \<le> 300"
  shows "DecryptClientID xor_crypto t' (demo_hello t) (replicate 32 3) demo_server = Ok (replicate 16 2)"
proof -
  let ?cl = "\<lparr>kp_Public = replicate 32 3, kp_Private = replicate 32 3\<rparr>"
  have cl: "keyPair_ok xor_crypto ?cl" by (simp add: keyPair_ok_def xor_crypto_def)
  have "demo_hello t = zeros 24 @ box_seal xor_crypto (put64 (of_int t) @ [of_nat (length (replicate 16 (2::byte)))] @ replicate 16 2)
      (zeros 24) (dh_pub xor_crypto (kp_Private demo_server)) (kp_Private ?cl)"
    by (simp add: demo_hello_def xor_crypto_def)
  from DecryptClientID_boxed [OF xor_crypto_ok(3,1) cl keyPair_ok_demo_server _ this, of t'] assms show ?thesis
    by (simp add: sint_diff_clock HandshakeDriftWindowSecs_def)
qed

subsection \<open>Properties\<close>

text \<open>C25. A handshake that ends in a decoy or rate-limit reply leaves nothing behind: the session
  table, the quota tables and the tunnel table are what they were, although the session was
  already created when authorisation or the quota said no (the random source working and the
  response encodable).\<close>

theorem rejected_handshake_leaves_nothing:
  assumes "handleHandshakeNew C G cfg env ep enc sk h = (r, h')"
    and "\<forall>x. r \<noteq> HelloReply x" "r \<noteq> Decoy DecoyReasonInternal"
    and "sessions (h_sessions h) (draw_id (nextID (h_sessions h))) = None" "r_token (e_R env) \<noteq> None"
  shows "sessions (h_sessions h') = sessions (h_sessions h) \<and> h_auth h' = h_auth h \<and> h_tunnels h' = h_tunnels h"
  by (rule handleHandshakeNew_rejected [OF assms(1) _ assms(3-5)]) (use assms(2) in blast)

theorem rejected_handshake_leaves_nothing_witness:
  "\<exists>r h'. handleHandshakeNew xor_crypto tag_gcm demo_config (demo_env 1000) (replicate 32 3) [] demo_server demo_handler = (r, h') \<and>
     r = Decoy DecoyReasonAuthFail \<and>
     sessions (h_sessions h') = sessions (h_sessions demo_handler) \<and> h_auth h' = h_auth demo_handler \<and> h_tunnels h' = h_tunnels demo_handler"
proof -
  obtain r h' where run: "handleHandshakeNew xor_crypto tag_gcm demo_config (demo_env 1000) (replicate 32 3) [] demo_server demo_handler = (r, h')"
    by force
  then have r: "r = Decoy DecoyReasonAuthFail"
    by (simp add: handleHandshakeNew_def exemption_gate_def demo_env_def hello_gate_def DecryptClientID_def EncryptedClientIDSize_def
        Count_def demo_config_def split: if_splits)
  with rejected_handshake_leaves_nothing [OF run] run show ?thesis
    by (simp add: demo_handler_def demo_env_def demo_random_def)
qed

text \<open>A replay window of more than twice the drift window (plus the handler's own delay) is
  enough: a hello that was accepted once is turned away whenever it comes back, as long as
  fewer than \<open>maxSize\<close> cache operations lie between.\<close>

theorem wide_window_stops_replay:
  assumes "hello_gate C env1 None ep enc sk rc = (Inr cid, rc1)"
    and "rc_inv rc" "clock_ok (e_tDecrypt env1)" "clock_ok (e_tDecrypt env2)"
    and "e_tDecrypt env1 \<le> e_tAccept env1" "e_tAccept env1 \<le> e_tAccept env2" "e_tAccept env2 - e_tDecrypt env2 \<le> d"
    and "2 * HandshakeDriftWindowSecs + d < windowSecs rc"
    and "\<forall>op \<in> set ops. e_tAccept env1 \<le> rc_time op \<and> rc_time op \<le> e_tAccept env2" "length ops < maxSize rc"
  shows "\<exists>r. fst (hello_gate C env2 None ep enc sk (rc_run ops rc1)) = Inl r"
  by (rule hello_gate_no_replay [OF assms(1-8) _ assms(10)]) (use assms(9) in blast)

theorem wide_window_stops_replay_witness:
  "\<exists>rc1. hello_gate xor_crypto (demo_env 1000) None (replicate 32 3) (demo_hello 1300) demo_server
        (NewReplayCacheWithOptions 10 (601 * Second)) = (Inr (replicate 16 2), rc1) \<and>
     (\<exists>r. fst (hello_gate xor_crypto (demo_env 1600) None (replicate 32 3) (demo_hello 1300) demo_server (rc_run [] rc1)) = Inl r)"
proof -
  let ?rc = "NewReplayCacheWithOptions 10 (601 * Second)"
  have rc: "windowSecs ?rc = 601" "maxSize ?rc = 10" "index ?rc = Map.empty"
    by (simp_all add: NewReplayCacheWithOptions_def Second_def)
  have "DecryptClientID xor_crypto 1000 (demo_hello 1300) (replicate 32 3) demo_server = Ok (replicate 16 2)"
    by (rule demo_hello_decodes) (simp_all add: clock_ok_def)
  moreover have "fst (Accept (demo_hello 1300) 1000 ?rc)" using rc by (simp add: Accept_def split: prod.split)
  ultimately have first: "\<exists>rc1. hello_gate xor_crypto (demo_env 1000) None (replicate 32 3) (demo_hello 1300) demo_server ?rc = (Inr (replicate 16 2), rc1)"
    by (auto simp: hello_gate_def demo_env_def split: prod.splits bool.splits)
  then obtain rc1 where first: "hello_gate xor_crypto (demo_env 1000) None (replicate 32 3) (demo_hello 1300) demo_server ?rc = (Inr (replicate 16 2), rc1)" ..
  have "\<exists>r. fst (hello_gate xor_crypto (demo_env 1600) None (replicate 32 3) (demo_hello 1300) demo_server (rc_run [] rc1)) = Inl r"
    by (rule wide_window_stops_replay [OF first rc_inv_new, where d = 0])
      (simp_all add: demo_env_def clock_ok_def rc HandshakeDriftWindowSecs_def)
  with first show ?thesis by blast
qed

text \<open>The window \<open>NewHandler\<close> settles for is too small: it is the drift window itself, so a hello
  whose sender's clock runs 300 s ahead of the server's passes the gate when it is first sent at
  time \<open>t\<close> and passes again, verbatim, at \<open>t + 300\<close>.\<close>

theorem default_window_admits_replay:
  assumes "box_ok C" "dh_ok C" "keyPair_ok C cl" "keyPair_ok C srv" "length nonce = 24" "length cid = 16"
    and "clock_ok t" "clock_ok (t + 300)"
    and "EncryptClientID C (t + 300) (Some nonce) cid (kp_Public srv) cl = Ok enc"
    and "e_tDecrypt env1 = t" "e_tAccept env1 = t" "e_tDecrypt env2 = t + 300" "e_tAccept env2 = t + 300"
  shows "\<exists>rc1 rc2. hello_gate C env1 None (kp_Public cl) enc srv (handler_replay_cache 0 0) = (Inr cid, rc1) \<and>
     hello_gate C env2 None (kp_Public cl) enc srv rc1 = (Inr cid, rc2)"
proof -
  let ?rc = "handler_replay_cache 0 0"
  note rc = handler_replay_cache_default
  have enc: "enc = nonce @ box_seal C (put64 (of_int (t + 300)) @ [of_nat (length cid)] @ cid) nonce
      (dh_pub C (kp_Private srv)) (kp_Private cl)"
    using EncryptClientID_wire [of cid C cl srv "t + 300" nonce] assms(2-4,6,9) by simp
  have dec: "DecryptClientID C now enc (kp_Public cl) srv = Ok cid" if "clock_ok now" "\<bar>now - (t + 300)\<bar> \<le> 300" for now
    using DecryptClientID_boxed [OF assms(1-5) enc, of now] assms(6) that sint_diff_clock [OF that(1) assms(8)]
    by (simp add: HandshakeDriftWindowSecs_def)
  let ?rc1 = "snd (Accept enc t ?rc)"
  have a1: "fst (Accept enc t ?rc)" using Accept_fresh(1) [OF rc(1)] rc(4) by simp
  have abs: "map_of (rc_abs ?rc1) enc = Some t"
    by (rule remembered_map_of [OF remembered_after_accept [OF rc(1) a1]])
  have a2: "fst (Accept enc (t + 300) ?rc1)"
    using abs rc(2) by (simp add: Accept_abs(1) [OF Accept_refines(1) [OF rc(1)]] spec_rc_accept_def)
  have "hello_gate C env1 None (kp_Public cl) enc srv ?rc = (Inr cid, ?rc1)"
    using dec [of t] assms(7,10,11) a1 by (auto simp: hello_gate_def split: prod.splits bool.splits)
  moreover have "\<exists>rc2. hello_gate C env2 None (kp_Public cl) enc srv ?rc1 = (Inr cid, rc2)"
    using dec [of "t + 300"] assms(8,12,13) a2 by (auto simp: hello_gate_def split: prod.splits bool.splits)
  ultimately show ?thesis by blast
qed

theorem default_window_admits_replay_witness:
  "\<exists>enc rc1 rc2. EncryptClientID xor_crypto 1300 (Some (zeros 24)) (replicate 16 2) (kp_Public demo_server) demo_server = Ok enc \<and>
     hello_gate xor_crypto (demo_env 1000) None (kp_Public demo_server) enc demo_server (handler_replay_cache 0 0) = (Inr (replicate 16 2), rc1) \<and>
     hello_gate xor_crypto (demo_env 1300) None (kp_Public demo_server) enc demo_server rc1 = (Inr (replicate 16 2), rc2)"
proof -
  obtain enc where enc: "EncryptClientID xor_crypto 1300 (Some (zeros 24)) (replicate 16 2) (kp_Public demo_server) demo_server = Ok enc"
    using EncryptClientID_wire [OF _ keyPair_ok_demo_server keyPair_ok_demo_server xor_crypto_ok(1), of "replicate 16 2" 1300 "zeros 24"] by auto
  have "\<exists>rc1 rc2. hello_gate xor_crypto (demo_env 1000) None (kp_Public demo_server) enc demo_server (handler_replay_cache 0 0) = (Inr (replicate 16 2), rc1) \<and>
     hello_gate xor_crypto (demo_env 1300) None (kp_Public demo_server) enc demo_server rc1 = (Inr (replicate 16 2), rc2)"
    by (rule default_window_admits_replay [OF xor_crypto_ok(3,1) keyPair_ok_demo_server keyPair_ok_demo_server, where t = 1000 and nonce = "zeros 24"])
      (use enc in \<open>simp_all add: clock_ok_def demo_env_def\<close>)
  with enc show ?thesis by blast
qed

text \<open>A client that completes another handshake keeps its earlier session: the quota counts one
  device before and after, but the session table holds both sessions and both tunnels.\<close>

theorem reconnect_keeps_old_session:
  assumes "handleHandshakeNew C G cfg env ep enc sk h = (HelloReply sh, h')"
    and "ca_inv (h_auth h)" "\<not> openMode (h_auth h)" "h_tunnels h' (draw_id (nextID (h_sessions h))) = Some cid"
    and "clientSession (h_auth h) cid = Some old" "sessions (h_sessions h) old = Some s" "old \<noteq> draw_id (nextID (h_sessions h))"
  shows "ActiveSessionCount u (h_auth h') = ActiveSessionCount u (h_auth h) \<and>
     sessions (h_sessions h') old = Some s \<and> h_tunnels h' old = h_tunnels h old \<and>
     sessions (h_sessions h') (draw_id (nextID (h_sessions h))) \<noteq> None"
  using assms(1)
proof (elim handleHandshakeNew_success)
  fix s' cid' rc sh0 c
  assume ID: "ID s' = draw_id (nextID (h_sessions h))" and adm: "AdmitSession cid' (ID s') (h_auth h) = (True, h_auth h')"
    and tab: "sessions (h_sessions h') = (sessions (h_sessions h))(ID s' \<mapsto> s'\<lparr>AttachedAt := e_nowNs env\<rparr>)"
    and tun: "h_tunnels h' = (h_tunnels h)(ID s' \<mapsto> cid')"
  have "cid' = cid" using tun ID assms(4) by simp
  with AdmitSession_count [OF assms(2), of u cid "ID s'"] adm assms(5)
  have "ActiveSessionCount u (h_auth h') = ActiveSessionCount u (h_auth h)" by simp
  with tab tun ID assms(6,7) show ?thesis by simp
qed

definition demo_connected :: handler where
  "demo_connected = demo_handler\<lparr>
     h_auth := (NewClientAuth [replicate 16 2])\<lparr>activeSessions := [replicate 16 2 \<mapsto> [41]], clientSession := [replicate 16 2 \<mapsto> 41]\<rparr>,
     h_sessions := \<lparr>sessions = [41 \<mapsto> demo_sender], sm_timeout = 9, nextID = 41\<rparr>\<rparr>"

lemma parseUserID_demo: "parseUserID (replicate 16 2) = replicate 16 2"
  by (simp add: parseUserID_def takeWhile_eq_all_conv)

lemma demo_connected_auth: "ca_inv (h_auth demo_connected)" "\<not> openMode (h_auth demo_connected)"
  "IsAuthorized (replicate 16 2) (h_auth demo_connected)" "fst (AdmitSession (replicate 16 2) sid (h_auth demo_connected))"
  by (auto simp: demo_connected_def demo_handler_def ca_inv_def active_def NewClientAuth_def IsAuthorized_def
      AdmitSession_def Let_def parseUserID_demo split: if_splits)

lemma demo_run:
  assumes "h_replay h = handler_replay_cache 0 0" "IsAuthorized (replicate 16 2) (h_auth h)"
    "fst (AdmitSession (replicate 16 2) (draw_id (nextID (h_sessions h))) (h_auth h))"
  shows "\<exists>sh h'. handleHandshakeNew xor_crypto tag_gcm demo_config (demo_env 1000) (replicate 32 3) (demo_hello 1000) demo_server h
     = (HelloReply sh, h') \<and> h_tunnels h' (draw_id (nextID (h_sessions h))) = Some (replicate 16 2)"
proof -
  let ?state = "\<lparr>cs_Ephemeral = \<lparr>kp_Public = dh_pub xor_crypto (replicate 32 3), kp_Private = replicate 32 3\<rparr>,
      cs_ClientID = replicate 16 2, cs_ServerPub = []\<rparr>"
  have pub: "dh_pub xor_crypto (replicate 32 3) = replicate 32 3" by (simp add: xor_crypto_def)
  have dec: "DecryptClientID xor_crypto 1000 (demo_hello 1000) (replicate 32 3) demo_server = Ok (replicate 16 2)"
    by (rule demo_hello_decodes) (simp_all add: clock_ok_def)
  have acc: "fst (Accept (demo_hello 1000) 1000 (h_replay h))"
    using Accept_fresh(1) [OF handler_replay_cache_default(1)] handler_replay_cache_default(4) assms(1) by simp
  show ?thesis
    by (rule handleHandshakeNew_completes [OF xor_crypto_ok(1,2) gcm_ok_tag_gcm, where ephSk = "replicate 32 3" and env = "demo_env 1000"
          and e = "demo_hello 1000" and srv = demo_server and cid = "replicate 16 2" and h = h and cfg = demo_config
          and srvEph = "replicate 32 5" and tokNonce = "zeros 12" and state = ?state and cnow = 0 and mn = "[]"])
      (use dec acc assms pub in \<open>auto simp: demo_env_def demo_random_def NonceSize_def Count_def demo_config_def\<close>)
qed

theorem reconnect_keeps_old_session_witness:
  "\<exists>sh h'. handleHandshakeNew xor_crypto tag_gcm demo_config (demo_env 1000) (replicate 32 3) (demo_hello 1000) demo_server
        demo_connected = (HelloReply sh, h') \<and>
     ActiveSessionCount (replicate 16 2) (h_auth h') = 1 \<and> sessions (h_sessions h') 41 = Some demo_sender \<and>
     sessions (h_sessions h') 42 \<noteq> None"
proof -
  have sid: "draw_id (nextID (h_sessions demo_connected)) = 42" by (simp add: demo_connected_def draw_id_def)
  obtain sh h' where run: "handleHandshakeNew xor_crypto tag_gcm demo_config (demo_env 1000) (replicate 32 3) (demo_hello 1000) demo_server
      demo_connected = (HelloReply sh, h')" and tun: "h_tunnels h' (draw_id (nextID (h_sessions demo_connected))) = Some (replicate 16 2)"
    using demo_run [of demo_connected] demo_connected_auth(3,4) by (auto simp: demo_connected_def demo_handler_def)
  have "ActiveSessionCount (replicate 16 2) (h_auth demo_connected) = 1"
    by (simp add: ActiveSessionCount_def active_def demo_connected_def)
  with reconnect_keeps_old_session [OF run demo_connected_auth(1,2) tun, of 41 demo_sender "replicate 16 2"] run show ?thesis
    by (simp add: sid) (simp add: demo_connected_def)
qed

text \<open>A handshake that passes every gate completes on both sides: the handler answers with a
  hello from which the client derives a session that mirrors the published one (marked as
  attached, with a tunnel for the client's identity), so either side decrypts what the other
  encrypts.\<close>

theorem handler_completes_handshake:
  assumes "dh_ok C" "hkdf_ok C" "box_ok C" "gcm_ok G" "keyPair_ok C srv" "length cid = 16"
    and "length ephSk = 32" "length boxNonce = 24" "r_eph (e_R env) = Some srvEph" "length srvEph = 32"
      "r_token (e_R env) = Some tokNonce" "length tokNonce = NonceSize"
    and "clock_ok clientNow" "clock_ok (e_tDecrypt env)" "clock_ok (e_tHello env)"
      "\<bar>e_tDecrypt env - clientNow\<bar> \<le> HandshakeDriftWindowSecs" "\<bar>e_tHello env - clientNow\<bar> \<le> HandshakeDriftWindowSecs"
    and "NewClientHello C clientNow (Some ephSk) (Some boxNonce) cid (kp_Public srv) = Ok (hello, state)"
    and "e_allow env" "\<not> e_reject env" "Count (e_keys env) (h_sessions h) < MaxClients cfg" "e_respOk env"
    and "fst (Accept (ch_EncryptedClientID hello) (e_tAccept env) (h_replay h))"
    and "IsAuthorized cid (h_auth h)" "fst (AdmitSession cid (draw_id (nextID (h_sessions h))) (h_auth h))"
  shows "\<exists>sh h' cs ss.
     handleHandshakeNew C G cfg env (ch_EphemeralPub hello) (ch_EncryptedClientID hello) srv h = (HelloReply sh, h') \<and>
     CompleteHandshake C G cnow mn state (Some sh) = Ok cs \<and> mirrored cs ss \<and>
     sessions (h_sessions h') (ID cs) = Some ss \<and> AttachedAt ss = e_nowNs env \<and> h_tunnels h' (ID cs) = Some cid"
proof -
  let ?state = "\<lparr>cs_Ephemeral = \<lparr>kp_Public = dh_pub C ephSk, kp_Private = ephSk\<rparr>, cs_ClientID = cid, cs_ServerPub = kp_Public srv\<rparr>"
  obtain e where wire: "NewClientHello C clientNow (Some ephSk) (Some boxNonce) cid (kp_Public srv) =
      Ok (\<lparr>ch_EphemeralPub = dh_pub C ephSk, ch_EncryptedClientID = e\<rparr>, ?state)"
    and dec: "DecryptClientID C (e_tDecrypt env) e (dh_pub C ephSk) srv = Ok cid" "DecryptClientID C (e_tHello env) e (dh_pub C ephSk) srv = Ok cid"
    using NewClientHello_wire [OF assms(1,3,5,6,7,8), of clientNow] assms(13-17) by metis
  have hello: "hello = \<lparr>ch_EphemeralPub = dh_pub C ephSk, ch_EncryptedClientID = e\<rparr>" and state: "state = ?state"
    using wire assms(18) by simp_all
  show ?thesis unfolding hello state
    by (rule handleHandshakeNew_completes [OF assms(1,2,4,7,9-12) dec, where state = ?state and h = h and cfg = cfg and cnow = cnow and mn = mn])
      (use assms(19-25) hello in auto)
qed

theorem handler_completes_handshake_witness:
  "\<exists>hello state sh h' cs ss. NewClientHello xor_crypto 1100 (Some (replicate 32 3)) (Some (zeros 24)) (replicate 16 2) (kp_Public demo_server) = Ok (hello, state) \<and>
     handleHandshakeNew xor_crypto tag_gcm demo_config (demo_env 1000) (ch_EphemeralPub hello) (ch_EncryptedClientID hello) demo_server demo_handler = (HelloReply sh, h') \<and>
     CompleteHandshake xor_crypto tag_gcm 0 [] state (Some sh) = Ok cs \<and> mirrored cs ss"
proof -
  obtain e where wire: "\<exists>state. NewClientHello xor_crypto 1100 (Some (replicate 32 3)) (Some (zeros 24)) (replicate 16 2) (kp_Public demo_server) =
      Ok (\<lparr>ch_EphemeralPub = dh_pub xor_crypto (replicate 32 3), ch_EncryptedClientID = e\<rparr>, state)"
    using NewClientHello_wire [OF xor_crypto_ok(1,3) keyPair_ok_demo_server, of "replicate 16 2" "replicate 32 3" "zeros 24" 1100]
    by (metis length_replicate length_zeros)
  then obtain state where wire: "NewClientHello xor_crypto 1100 (Some (replicate 32 3)) (Some (zeros 24)) (replicate 16 2) (kp_Public demo_server) =
      Ok (\<lparr>ch_EphemeralPub = dh_pub xor_crypto (replicate 32 3), ch_EncryptedClientID = e\<rparr>, state)" ..
  have acc: "fst (Accept e 1000 (handler_replay_cache 0 0))"
    using Accept_fresh(1) [OF handler_replay_cache_default(1)] handler_replay_cache_default(4) by simp
  have auth: "IsAuthorized (replicate 16 2) (h_auth demo_handler)" "fst (AdmitSession (replicate 16 2) sid (h_auth demo_handler))" for sid
    by (simp_all add: demo_handler_def IsAuthorized_def NewClientAuth_def AdmitSession_def Let_def active_def limit_of_def)
  from handler_completes_handshake [OF xor_crypto_ok(1-3) gcm_ok_tag_gcm keyPair_ok_demo_server _ _ _ _ _ _ _ _ _ _ _ _ wire,
      where env = "demo_env 1000" and srvEph = "replicate 32 5" and tokNonce = "zeros 12" and h = demo_handler and cfg = demo_config and cnow = 0 and mn = "[]"]
    acc auth wire show ?thesis
    by (simp add: demo_env_def demo_random_def NonceSize_def clock_ok_def HandshakeDriftWindowSecs_def Count_def demo_config_def demo_handler_def) blast
qed

end
