(* ===== verification/Stream_Credit.thy ===== *)
theory Stream_Credit
  imports Prelude
begin

section \<open>Per-stream send credit of the server\<close>

text \<open>
  Models \<open>src/server/stream_credit.go\<close>: the negotiated window, and the credit object that the
  relay loop waits on before it reads its target.  Every method runs under the object's
  mutex and is one definition; a wait that would block is \<open>None\<close>.
\<close>

definition negotiateFlowWindow :: "u32 \<Rightarrow> u32 \<Rightarrow> u32" where
  "negotiateFlowWindow clientWindow serverMax =
     (if clientWindow = 0 then 0 else if clientWindow > serverMax then serverMax else clientWindow)"

definition negotiateMigration :: "bool \<Rightarrow> bool \<Rightarrow> bool" where
  "negotiateMigration serverEnabled clientAdvertised \<longleftrightarrow> serverEnabled \<and> clientAdvertised"

record streamCredit =
  available :: int
  cr_closed :: bool

definition newStreamCredit :: "int \<Rightarrow> streamCredit" where
  "newStreamCredit window = \<lparr>available = window, cr_closed = False\<rparr>"

definition waitForCredit :: "bool \<Rightarrow> streamCredit \<Rightarrow> int option" where
  "waitForCredit isDone c =
     (if available c \<le> 0 \<and> \<not> cr_closed c
      then (if isDone then Some (- 1) else None)
      else if cr_closed c then Some (- 1) else Some (available c))"

definition credit_consume :: "nat \<Rightarrow> streamCredit \<Rightarrow> streamCredit" where
  "credit_consume n c = c\<lparr>available := available c - int n\<rparr>"

definition credit_add :: "u32 \<Rightarrow> int \<Rightarrow> streamCredit \<Rightarrow> streamCredit" where
  "credit_add delta window c =
     (let a = available c + int (unat delta);
          capLimit = 2 * window
      in c\<lparr>available := (if a > capLimit then capLimit else a)\<rparr>)"

definition credit_close :: "streamCredit \<Rightarrow> streamCredit" where
  "credit_close c = c\<lparr>cr_closed := True\<rparr>"

definition credit_snapshot :: "streamCredit \<Rightarrow> int" where
  "credit_snapshot c = available c"

lemma negotiateFlowWindow_le: "negotiateFlowWindow c m \<le> m \<and> negotiateFlowWindow c m \<le> c"
  by (auto simp: negotiateFlowWindow_def)

text \<open>A sender that reads no more than the credit it was given keeps the credit nonnegative and capped.\<close>

datatype credit_op = CrRead nat | CrAdd u32 | CrClose

fun credit_step :: "int \<Rightarrow> credit_op \<Rightarrow> streamCredit \<Rightarrow> streamCredit" where
  "credit_step w (CrRead n) c =
     (case waitForCredit False c of
        Some got \<Rightarrow> if 0 < got \<and> int n \<le> got then credit_consume n c else c
      | None \<Rightarrow> c)"
| "credit_step w (CrAdd d) c = credit_add d w c"
| "credit_step w CrClose c = credit_close c"

lemma credit_step_bounds:
  "\<lbrakk>0 \<le> w; 0 \<le> available c; available c \<le> 2 * w\<rbrakk> \<Longrightarrow>
     0 \<le> available (credit_step w op c) \<and> available (credit_step w op c) \<le> 2 * w"
  by (cases op)
    (auto simp: waitForCredit_def credit_consume_def credit_add_def credit_close_def Let_def split: option.splits)

subsection \<open>Properties\<close>

text \<open>The credit of a stream never goes below zero and never exceeds twice the window, over any
  sequence of reads within the granted credit, window updates of any size and closing; and once
  closed, every wait returns at once and refuses.\<close>

theorem credit_stays_bounded:
  assumes "0 \<le> w"
  shows "0 \<le> available (fold (credit_step w) ops (newStreamCredit w)) \<and>
     available (fold (credit_step w) ops (newStreamCredit w)) \<le> 2 * w \<and>
     waitForCredit isDone (credit_close (fold (credit_step w) ops (newStreamCredit w))) = Some (- 1)"
proof -
  have "0 \<le> available (fold (credit_step w) ops c) \<and> available (fold (credit_step w) ops c) \<le> 2 * w"
    if "0 \<le> available c" "available c \<le> 2 * w" for c
    using that by (induction ops arbitrary: c) (use credit_step_bounds [OF assms] in auto)
  then show ?thesis using assms by (simp add: newStreamCredit_def waitForCredit_def credit_close_def)
qed

theorem credit_stays_bounded_witness:
  "available (fold (credit_step 10) [CrRead 7, CrAdd 100, CrRead 20, CrRead 1] (newStreamCredit 10)) = 0 \<and>
   0 \<le> available (fold (credit_step 10) [CrRead 7, CrAdd 100, CrRead 20, CrRead 1] (newStreamCredit 10))"
  using credit_stays_bounded [of 10 "[CrRead 7, CrAdd 100, CrRead 20, CrRead 1]"]
  by (simp add: newStreamCredit_def waitForCredit_def credit_consume_def credit_add_def)

end
