(* ===== verification/Relay.thy ===== *)
theory Relay
  imports Stream_Credit Rate_Limit Frames Handshake
begin

section \<open>Migratable relays and their registry\<close>

text \<open>
  Models \<open>src/server/relay_registry.go\<close> and the code of \<open>src/server/websocket.go\<close> that drives
  it (\<open>handleMigrateOrResume\<close>, the FIN branch, the cleanup of a dying WebSocket session).
  Entries are heap objects: the registry maps (client, stream) to an address, while relay
  loops, timers and cleanups hold addresses of their own, also of entries that have left the
  map.  A slot (crypto session and writer of one WebSocket) is a number; what is enqueued on
  it is returned as a list of events.  A goroutine's critical section, or one
  compare-and-swap with the teardown it authorises, is one definition; the concurrent
  behaviour is the set of all sequences of them.
\<close>

type_synonym slot = nat

record downFrame =
  df_seq :: u64
  df_data :: bytes

subsection \<open>Bounded buffers\<close>

record boundedBuffer =
  bb_frames :: "downFrame list"
  bb_bytes :: nat
  bb_max :: nat

definition newBoundedBuffer :: "nat \<Rightarrow> boundedBuffer" where
  "newBoundedBuffer m = \<lparr>bb_frames = [], bb_bytes = 0, bb_max = m\<rparr>"

definition Push :: "downFrame \<Rightarrow> boundedBuffer \<Rightarrow> bool \<times> boundedBuffer" where
  "Push f b =
     (if bb_bytes b + length (df_data f) > bb_max b then (False, b)
      else (True, b\<lparr>bb_frames := bb_frames b @ [f], bb_bytes := bb_bytes b + length (df_data f)\<rparr>))"

definition byteLen :: "boundedBuffer \<Rightarrow> nat" where
  "byteLen b = bb_bytes b"

definition drainAll :: "boundedBuffer \<Rightarrow> downFrame list \<times> boundedBuffer" where
  "drainAll b = (bb_frames b, b\<lparr>bb_frames := [], bb_bytes := 0\<rparr>)"

definition evictUpTo :: "u64 \<Rightarrow> boundedBuffer \<Rightarrow> boundedBuffer" where
  "evictUpTo ackedSeq b =
     (let kept = filter (\<lambda>f. \<not> df_seq f \<le> ackedSeq) (bb_frames b)
      in b\<lparr>bb_frames := kept, bb_bytes := sum_list (map (\<lambda>f. length (df_data f)) kept)\<rparr>)"

definition tailFrames :: "boundedBuffer \<Rightarrow> downFrame list" where
  "tailFrames b = bb_frames b"

definition frame_bytes :: "downFrame list \<Rightarrow> nat" where
  "frame_bytes fs = sum_list (map (\<lambda>f. length (df_data f)) fs)"

definition bb_inv :: "boundedBuffer \<Rightarrow> bool" where
  "bb_inv b \<longleftrightarrow> bb_bytes b = frame_bytes (bb_frames b) \<and> bb_bytes b \<le> bb_max b"

lemma frame_bytes_filter: "frame_bytes (filter P fs) \<le> frame_bytes fs"
  by (induction fs) (auto simp: frame_bytes_def)

lemma bb_inv_ops:
  "bb_inv (newBoundedBuffer m)"
  "bb_inv b \<Longrightarrow> bb_inv (snd (Push f b))"
  "bb_inv b \<Longrightarrow> bb_inv (snd (drainAll b))"
  "bb_inv b \<Longrightarrow> bb_inv (evictUpTo a b)"
  using frame_bytes_filter [of "\<lambda>f. \<not> df_seq f \<le> a" "bb_frames b"]
  by (auto simp: bb_inv_def newBoundedBuffer_def Push_def drainAll_def evictUpTo_def Let_def frame_bytes_def)

subsection \<open>Entries\<close>

datatype relay_state = stActive | stOrphaned | stClosing

record relayEntry =
  originClientID :: gostring
  globalStreamID :: u16
  originSessionNonce :: bytes
  tc_closes :: nat                 \<comment> \<open>calls of \<open>tc.Close()\<close>\<close>
  bound :: "slot option"
  rstate :: relay_state
  orphanedAt :: instant
  downSeqCounter :: u64
  downBuffer :: boundedBuffer
  unackedTail :: boundedBuffer
  holdsFD :: bool
  destClosed :: bool
  lastDownlinkNs :: instant
  credit :: "streamCredit option"
  reader_closed :: bool            \<comment> \<open>\<open>closeCh\<close> is closed\<close>

datatype wire_event = DataSeq slot u16 downFrame | DataFlat slot u16 bytes | StreamClose slot u16

text \<open>The entry a CONNECT registers.\<close>

definition newRelayEntry :: "gostring \<Rightarrow> u16 \<Rightarrow> bytes \<Rightarrow> nat \<Rightarrow> streamCredit option \<Rightarrow> slot \<Rightarrow> relayEntry" where
  "newRelayEntry clientID sid nonce flowWindow cr b =
     \<lparr>originClientID = clientID, globalStreamID = sid, originSessionNonce = nonce, tc_closes = 0,
      bound = Some b, rstate = stActive, orphanedAt = 0, downSeqCounter = 0,
      downBuffer = newBoundedBuffer flowWindow, unackedTail = newBoundedBuffer flowWindow,
      holdsFD = False, destClosed = False, lastDownlinkNs = 0, credit = cr, reader_closed = False\<rparr>"

definition closeReader :: "relayEntry \<Rightarrow> relayEntry" where
  "closeReader e =
     (if reader_closed e then e
      else e\<lparr>reader_closed := True, credit := map_option credit_close (credit e)\<rparr>)"

definition onStreamAck :: "u64 \<Rightarrow> relayEntry \<Rightarrow> relayEntry" where
  "onStreamAck ackedSeq e =
     e\<lparr>unackedTail := evictUpTo ackedSeq (unackedTail e), downBuffer := evictUpTo ackedSeq (downBuffer e)\<rparr>"

definition resendTail :: "relayEntry \<Rightarrow> downFrame list" where
  "resendTail e = tailFrames (unackedTail e)"

definition enqueueDownFrame :: "slot \<Rightarrow> bool \<Rightarrow> relayEntry \<Rightarrow> downFrame \<Rightarrow> wire_event" where
  "enqueueDownFrame b migrateEnabled e f =
     (if migrateEnabled then DataSeq b (globalStreamID e) f else DataFlat b (globalStreamID e) (df_data f))"

text \<open>One round of \<open>routeDownFrame\<close>'s loop; \<open>RouteBlocks\<close> is \<open>cond.Wait()\<close>.\<close>

datatype route = RouteSend slot downFrame | RouteBuffered | RouteDead | RouteBlocks

definition routeDownFrame :: "bytes \<Rightarrow> relayEntry \<Rightarrow> route \<times> relayEntry" where
  "routeDownFrame data e =
     (if reader_closed e then (RouteDead, e)
      else if rstate e = stClosing then (RouteDead, e)
      else let buffered =
             (let seq = downSeqCounter e + 1
              in case Push \<lparr>df_seq = seq, df_data = data\<rparr> (downBuffer e) of
                   (True, db) \<Rightarrow> (RouteBuffered, e\<lparr>downBuffer := db, downSeqCounter := seq\<rparr>)
                 | (False, _) \<Rightarrow> (RouteBlocks, e))
           in case bound e of
                Some b \<Rightarrow>
                  if byteLen (downBuffer e) = 0
                  then let seq = downSeqCounter e + 1;
                           frame = \<lparr>df_seq = seq, df_data = data\<rparr>
                       in (RouteSend b frame,
                           e\<lparr>downSeqCounter := seq, unackedTail := snd (Push frame (unackedTail e))\<rparr>)
                  else buffered
              | None \<Rightarrow> buffered)"

text \<open>
  One round of \<open>relayLoop\<close>: \<open>data\<close> is what \<open>tc.Read\<close> returned (at most the credit and the
  buffer), \<open>eof\<close> its error.  The wait at the top of the loop tests for a missing credit; the call
  of \<open>consume\<close> at the bottom does not, and locks the mutex of a nil object.
\<close>

datatype round_end = RoundGoes | RoundEnds | RoundPanics

definition relay_round ::
  "instant \<Rightarrow> bytes \<Rightarrow> bool \<Rightarrow> bool \<Rightarrow> relayEntry \<Rightarrow> wire_event list \<times> relayEntry \<times> round_end" where
  "relay_round now data eof migrateEnabled e =
     (let finish = (\<lambda>evs e1. if eof then (evs, e1\<lparr>destClosed := True\<rparr>, RoundEnds) else (evs, e1, RoundGoes));
          consume = (\<lambda>evs e1.
            (case credit e1 of
               None \<Rightarrow> (evs, e1\<lparr>lastDownlinkNs := now\<rparr>, RoundPanics)
             | Some c \<Rightarrow> finish evs (e1\<lparr>lastDownlinkNs := now, credit := Some (credit_consume (length data) c)\<rparr>)))
      in if data = [] then finish [] e
         else case routeDownFrame data e of
           (RouteDead, e1) \<Rightarrow> ([], e1, RoundEnds)
         | (RouteBlocks, e1) \<Rightarrow> ([], e1, RoundGoes)
         | (RouteBuffered, e1) \<Rightarrow> consume [] e1
         | (RouteSend b f, e1) \<Rightarrow> consume [enqueueDownFrame b migrateEnabled e1 f] e1)"

definition reassociate ::
  "slot \<Rightarrow> bool \<Rightarrow> bool \<Rightarrow> bool \<Rightarrow> relayEntry \<Rightarrow> u64 \<times> wire_event list \<times> relayEntry" where
  "reassociate b migrateEnabled aDead originDeathTeardown e =
     (let resumeDownSeq = downSeqCounter e;
          (buffered, db) = drainAll (downBuffer e);
          resend = (if aDead then tailFrames (unackedTail e) else []);
          e1 = e\<lparr>downBuffer := db\<rparr>;
          evs = map (enqueueDownFrame b migrateEnabled e1) buffered @ map (enqueueDownFrame b migrateEnabled e1) resend @
                (if originDeathTeardown \<and> destClosed e1 then [StreamClose b (globalStreamID e1)] else [])
      in (resumeDownSeq, evs, e1))"

definition toOrphaned :: "instant \<Rightarrow> relayEntry \<Rightarrow> bool \<times> relayEntry" where
  "toOrphaned now e =
     (if rstate e = stActive then (True, e\<lparr>rstate := stOrphaned, orphanedAt := now\<rparr>) else (False, e))"

subsection \<open>The registry\<close>

record relayRegistry =
  byClient :: "((gostring \<times> u16) \<times> nat) list"
  heap :: "nat \<Rightarrow> relayEntry"
  next_addr :: nat
  maxOrphanedPerClient :: int
  maxOrphanedTotal :: int
  orphanFDBudget :: int
  evictIdleThreshold :: int
  originDeathTeardown :: bool
  orphanedFDInUse :: int
  orphanFDRejected :: nat
  orphanedEvictedLimit :: nat

definition defaultEvictIdleThreshold :: int where "defaultEvictIdleThreshold = 2 * 1000000000"

definition newRelayRegistry :: relayRegistry where
  "newRelayRegistry = \<lparr>byClient = [], heap = (\<lambda>_. newRelayEntry [] 0 [] 0 None 0), next_addr = 0,
     maxOrphanedPerClient = 0, maxOrphanedTotal = 0, orphanFDBudget = 0, evictIdleThreshold = 0,
     originDeathTeardown = False, orphanedFDInUse = 0, orphanFDRejected = 0, orphanedEvictedLimit = 0\<rparr>"

definition setLimits :: "int \<Rightarrow> int \<Rightarrow> int \<Rightarrow> relayRegistry \<Rightarrow> relayRegistry" where
  "setLimits perClient tot fdBudget r =
     r\<lparr>maxOrphanedPerClient := perClient, maxOrphanedTotal := tot, orphanFDBudget := fdBudget,
       evictIdleThreshold := (if evictIdleThreshold r \<le> 0 then defaultEvictIdleThreshold else evictIdleThreshold r)\<rparr>"

definition setOriginDeathTeardown :: "bool \<Rightarrow> relayRegistry \<Rightarrow> relayRegistry" where
  "setOriginDeathTeardown enabled r = r\<lparr>originDeathTeardown := enabled\<rparr>"

definition put :: "nat \<Rightarrow> relayEntry \<Rightarrow> relayRegistry \<Rightarrow> relayRegistry" where
  "put a e r = r\<lparr>heap := (heap r)(a := e)\<rparr>"

definition reg_add :: "gostring \<Rightarrow> u16 \<Rightarrow> nat \<Rightarrow> relayRegistry \<Rightarrow> relayRegistry" where
  "reg_add clientID sid a r = r\<lparr>byClient := AList.update (clientID, sid) a (byClient r)\<rparr>"

definition reg_find :: "gostring \<Rightarrow> u16 \<Rightarrow> relayRegistry \<Rightarrow> nat option" where
  "reg_find clientID sid r = map_of (byClient r) (clientID, sid)"

definition reg_remove :: "gostring \<Rightarrow> u16 \<Rightarrow> relayRegistry \<Rightarrow> relayRegistry" where
  "reg_remove clientID sid r = r\<lparr>byClient := AList.delete (clientID, sid) (byClient r)\<rparr>"

definition entriesForSession :: "gostring \<Rightarrow> slot \<Rightarrow> relayRegistry \<Rightarrow> nat list" where
  "entriesForSession clientID sess r =
     map snd (filter (\<lambda>((c, s), a). c = clientID \<and> bound (heap r a) = Some sess) (byClient r))"

definition hasBoundEntriesForSession :: "gostring \<Rightarrow> slot \<Rightarrow> relayRegistry \<Rightarrow> bool" where
  "hasBoundEntriesForSession clientID sess r =
     list_ex (\<lambda>((c, s), a). c = clientID \<and> bound (heap r a) = Some sess) (byClient r)"

definition countForClient :: "gostring \<Rightarrow> relayRegistry \<Rightarrow> nat" where
  "countForClient clientID r = length (filter (\<lambda>((c, s), a). c = clientID) (byClient r))"

definition totalCount :: "relayRegistry \<Rightarrow> nat" where
  "totalCount r = length (byClient r)"

text \<open>A CONNECT: a new entry, registered under its client and stream.\<close>

definition connect_relay :: "gostring \<Rightarrow> u16 \<Rightarrow> bytes \<Rightarrow> nat \<Rightarrow> streamCredit option \<Rightarrow> slot \<Rightarrow> relayRegistry \<Rightarrow> relayRegistry" where
  "connect_relay clientID sid nonce flowWindow cr b r =
     reg_add clientID sid (next_addr r)
       ((put (next_addr r) (newRelayEntry clientID sid nonce flowWindow cr b) r)\<lparr>next_addr := Suc (next_addr r)\<rparr>)"

definition releaseOrphanFD :: "nat \<Rightarrow> relayRegistry \<Rightarrow> relayRegistry" where
  "releaseOrphanFD a r =
     (if holdsFD (heap r a)
      then (put a ((heap r a)\<lparr>holdsFD := False\<rparr>) r)\<lparr>orphanedFDInUse := orphanedFDInUse r - 1\<rparr>
      else r)"

text \<open>What every winner of the swap to \<open>stClosing\<close> does: unregister, stop the reader, close the egress.\<close>

definition teardown :: "nat \<Rightarrow> relayRegistry \<Rightarrow> relayRegistry" where
  "teardown a r =
     (let e = heap r a;
          e1 = closeReader (e\<lparr>rstate := stClosing\<rparr>);
          e2 = e1\<lparr>tc_closes := Suc (tc_closes e1)\<rparr>
      in put a e2 (reg_remove (originClientID e) (globalStreamID e) r))"

text \<open>The body of the grace timer's goroutine after its sleep.\<close>

definition grace_expire :: "nat \<Rightarrow> relayRegistry \<Rightarrow> bool \<times> relayRegistry" where
  "grace_expire a r =
     (if rstate (heap r a) = stOrphaned then (True, releaseOrphanFD a (teardown a r)) else (False, r))"

text \<open>The least recently used idle orphan among the candidates, in iteration order.\<close>

fun pick_victim :: "relayRegistry \<Rightarrow> nat option \<Rightarrow> instant \<Rightarrow> nat option \<Rightarrow> nat list \<Rightarrow> nat option" where
  "pick_victim r except cutoff victim [] = victim"
| "pick_victim r except cutoff victim (a # as) =
     (if Some a = except then pick_victim r except cutoff victim as
      else if rstate (heap r a) \<noteq> stOrphaned then pick_victim r except cutoff victim as
      else if lastDownlinkNs (heap r a) > cutoff then pick_victim r except cutoff victim as
      else case victim of
             None \<Rightarrow> pick_victim r except cutoff (Some a) as
           | Some v \<Rightarrow> if lastDownlinkNs (heap r a) < lastDownlinkNs (heap r v)
                       then pick_victim r except cutoff (Some a) as
                       else pick_victim r except cutoff victim as)"

text \<open>The swap and the teardown of a chosen victim, which others may have moved meanwhile.\<close>

definition evict_victim :: "nat \<Rightarrow> relayRegistry \<Rightarrow> relayRegistry" where
  "evict_victim v r =
     (if rstate (heap r v) = stOrphaned
      then let r1 = releaseOrphanFD v (teardown v r) in r1\<lparr>orphanedEvictedLimit := Suc (orphanedEvictedLimit r1)\<rparr>
      else r)"

definition scope_entries :: "gostring \<Rightarrow> relayRegistry \<Rightarrow> nat list" where
  "scope_entries scope r =
     map snd (if scope \<noteq> [] then filter (\<lambda>((c, s), a). c = scope) (byClient r) else byClient r)"

definition evictIdleOrphanExcept :: "instant \<Rightarrow> gostring \<Rightarrow> nat option \<Rightarrow> relayRegistry \<Rightarrow> relayRegistry" where
  "evictIdleOrphanExcept now scope except r =
     (let threshold = (if evictIdleThreshold r \<le> 0 then defaultEvictIdleThreshold else evictIdleThreshold r);
          cutoff = now - threshold
      in case pick_victim r except cutoff None (scope_entries scope r) of
           None \<Rightarrow> r
         | Some v \<Rightarrow> evict_victim v r)"

definition evictIdleOrphan :: "instant \<Rightarrow> gostring \<Rightarrow> relayRegistry \<Rightarrow> relayRegistry" where
  "evictIdleOrphan now scope r = evictIdleOrphanExcept now scope None r"

text \<open>\<open>admitOrphan\<close>: the decision, which may evict, and the charge that follows a positive one.\<close>

definition admit_decide :: "instant \<Rightarrow> gostring \<Rightarrow> nat \<Rightarrow> relayRegistry \<Rightarrow> bool \<times> relayRegistry" where
  "admit_decide now clientID a r =
     (if orphanFDBudget r \<le> 0 \<or> orphanedFDInUse r \<ge> orphanFDBudget r
      then (False, r\<lparr>orphanFDRejected := Suc (orphanFDRejected r)\<rparr>)
      else
        let over1 = (\<lambda>r. maxOrphanedPerClient r > 0 \<and> int (countForClient clientID r) > maxOrphanedPerClient r);
            over2 = (\<lambda>r. maxOrphanedTotal r > 0 \<and> int (totalCount r) > maxOrphanedTotal r);
            r1 = (if over1 r then evictIdleOrphanExcept now clientID (Some a) r else r)
        in if over1 r1 then (False, r1)
           else let r2 = (if over2 r1 then evictIdleOrphanExcept now [] (Some a) r1 else r1)
                in if over2 r2 then (False, r2) else (True, r2))"

definition admit_charge :: "nat \<Rightarrow> relayRegistry \<Rightarrow> relayRegistry" where
  "admit_charge a r =
     (put a ((heap r a)\<lparr>holdsFD := True\<rparr>) r)\<lparr>orphanedFDInUse := orphanedFDInUse r + 1\<rparr>"

definition admitOrphan :: "instant \<Rightarrow> gostring \<Rightarrow> nat \<Rightarrow> relayRegistry \<Rightarrow> bool \<times> relayRegistry" where
  "admitOrphan now clientID a r =
     (case admit_decide now clientID a r of
        (True, r1) \<Rightarrow> (True, admit_charge a r1)
      | (False, r1) \<Rightarrow> (False, r1))"

definition signalStreamEnd :: "bool \<Rightarrow> nat \<Rightarrow> relayRegistry \<Rightarrow> wire_event list \<times> relayRegistry" where
  "signalStreamEnd migrateEnabled a r =
     (if \<not> migrateEnabled then ([], r)
      else let e = heap r a
           in if rstate e = stActive
              then ((case bound e of
                       Some b \<Rightarrow> if originDeathTeardown r then [StreamClose b (globalStreamID e)] else []
                     | None \<Rightarrow> []),
                    releaseOrphanFD a (teardown a r))
              else if rstate e = stOrphaned then ([], put a (e\<lparr>destClosed := True\<rparr>) r)
              else ([], r))"

subsection \<open>The WebSocket side (websocket.go)\<close>

text \<open>The FIN branch of the reader loop.\<close>

definition fin_relay :: "gostring \<Rightarrow> u16 \<Rightarrow> relayRegistry \<Rightarrow> relayRegistry" where
  "fin_relay clientID sid r =
     (case reg_find clientID sid r of
        None \<Rightarrow> r
      | Some a \<Rightarrow> if rstate (heap r a) \<noteq> stClosing then releaseOrphanFD a (teardown a r) else r)"

datatype migrate_reply = MigrateNoReply | MigrateOK u16 u64 | MigrateFail u16 byte

text \<open>\<open>handleMigrateOrResume\<close> on the new slot \<open>b\<close>; \<open>masterKey\<close> is the server's key material.\<close>

definition handleMigrateOrResume ::
  "crypto \<Rightarrow> bytes \<Rightarrow> byte \<Rightarrow> bytes \<Rightarrow> gostring \<Rightarrow> slot \<Rightarrow> bool \<Rightarrow> relayRegistry \<Rightarrow>
   migrate_reply \<times> wire_event list \<times> relayRegistry" where
  "handleMigrateOrResume C masterKey flag payload clientID b migrateEnabled r =
     (case ParseMigrateFrame payload of
        Ok (sid, proof) \<Rightarrow>
          (case reg_find clientID sid r of
             None \<Rightarrow> (MigrateFail sid MigrateReasonNotFound, [], r)
           | Some a \<Rightarrow>
             if \<not> VerifyStreamProof C proof (DeriveServerPerClientKey C masterKey clientID) clientID sid
                   (originSessionNonce (heap r a))
             then (MigrateFail sid MigrateReasonBadProof, [], r)
             else
               let aDead = (flag = FlagResume);
                   r1 = put a ((heap r a)\<lparr>bound := Some b\<rparr>) r
               in if flag = FlagResume \<and> rstate (heap r1 a) \<noteq> stOrphaned
                  then (MigrateFail sid MigrateReasonGraceExpired, [], r1)
                  else
                    let r2 = (if flag = FlagResume
                              then releaseOrphanFD a (put a ((heap r1 a)\<lparr>rstate := stActive\<rparr>) r1) else r1)
                    in case reassociate b migrateEnabled aDead (originDeathTeardown r2) (heap r2 a) of
                         (resumeSeq, evs, e) \<Rightarrow> (MigrateOK sid resumeSeq, evs, put a e r2))
      | _ \<Rightarrow> (MigrateNoReply, [], r))"

text \<open>The cleanup of a dying session, entry by entry; \<open>True\<close> marks an entry whose grace timer is armed.\<close>

definition orphan_entry :: "instant \<Rightarrow> gostring \<Rightarrow> nat \<Rightarrow> relayRegistry \<Rightarrow> bool \<times> relayRegistry" where
  "orphan_entry now clientID a r =
     (if rstate (heap r a) \<noteq> stActive then (False, r)
      else case admitOrphan now clientID a r of
        (False, r1) \<Rightarrow> (False, if rstate (heap r1 a) = stActive then teardown a r1 else r1)
      | (True, r1) \<Rightarrow>
          (case toOrphaned now (heap r1 a) of
             (True, e) \<Rightarrow> (True, put a e r1)
           | (False, _) \<Rightarrow> (False, releaseOrphanFD a r1)))"

fun orphan_entries :: "instant \<Rightarrow> gostring \<Rightarrow> nat list \<Rightarrow> relayRegistry \<Rightarrow> nat list \<times> relayRegistry" where
  "orphan_entries now clientID [] r = ([], r)"
| "orphan_entries now clientID (a # as) r =
     (case orphan_entry now clientID a r of (armed, r1) \<Rightarrow>
        case orphan_entries now clientID as r1 of (ts, r2) \<Rightarrow> (if armed then a # ts else ts, r2))"

definition session_death :: "instant \<Rightarrow> gostring \<Rightarrow> slot \<Rightarrow> relayRegistry \<Rightarrow> nat list \<times> relayRegistry" where
  "session_death now clientID sess r = orphan_entries now clientID (entriesForSession clientID sess r) r"

subsection \<open>All interleavings\<close>

text \<open>
  One step of any goroutine, on an entry it holds the address of.  The decision and the charge
  of an admission are separate steps, as they are in the code; \<open>RDeath\<close> is the whole cleanup
  of a session that nothing interleaves with.
\<close>

datatype relay_op =
    RConnect gostring u16 bytes nat "streamCredit option" slot
  | RDecide instant gostring nat
  | RCharge nat
  | ROrphan instant nat
  | RRelease nat
  | RReject nat
  | RDeath instant gostring slot
  | RGrace nat
  | RFin gostring u16
  | RSignal nat
  | RMigrate crypto bytes byte bytes gostring slot
  | RRound instant bytes bool nat
  | RAck nat u64
  | RCredit nat u32 int

fun relay_step :: "relay_op \<Rightarrow> relayRegistry \<Rightarrow> relayRegistry" where
  "relay_step (RConnect c s n w cr b) r = connect_relay c s n w cr b r"
| "relay_step (RDecide now c a) r = snd (admit_decide now c a r)"
| "relay_step (RCharge a) r = admit_charge a r"
| "relay_step (ROrphan now a) r = put a (snd (toOrphaned now (heap r a))) r"
| "relay_step (RRelease a) r = releaseOrphanFD a r"
| "relay_step (RReject a) r = (if rstate (heap r a) = stActive then teardown a r else r)"
| "relay_step (RDeath now c sess) r = snd (session_death now c sess r)"
| "relay_step (RGrace a) r = snd (grace_expire a r)"
| "relay_step (RFin c s) r = fin_relay c s r"
| "relay_step (RSignal a) r = snd (signalStreamEnd True a r)"
| "relay_step (RMigrate C k flag p c b) r = snd (snd (handleMigrateOrResume C k flag p c b True r))"
| "relay_step (RRound now d eof a) r = put a (fst (snd (relay_round now d eof True (heap r a)))) r"
| "relay_step (RAck a s) r = put a (onStreamAck s (heap r a)) r"
| "relay_step (RCredit a d w) r = put a ((heap r a)\<lparr>credit := map_option (credit_add d w) (credit (heap r a))\<rparr>) r"

definition relay_run :: "relay_op list \<Rightarrow> relayRegistry \<Rightarrow> relayRegistry" where
  "relay_run ops r = fold relay_step ops r"

subsection \<open>The protocol of an entry\<close>

text \<open>
  What any goroutine may do to the heap and the map: changes that leave identity, egress and
  teardown status of every entry alone (\<open>quiet\<close>, which includes moving between active and
  orphaned), the teardown of an entry that is not closing yet, and a CONNECT.
\<close>

definition quiet :: "relayEntry \<Rightarrow> relayEntry \<Rightarrow> bool" where
  "quiet e e' \<longleftrightarrow> originClientID e' = originClientID e \<and> globalStreamID e' = globalStreamID e \<and>
     originSessionNonce e' = originSessionNonce e \<and> tc_closes e' = tc_closes e \<and> reader_closed e' = reader_closed e \<and>
     (rstate e' = stClosing \<longleftrightarrow> rstate e = stClosing)"

inductive atom :: "relayRegistry \<Rightarrow> relayRegistry \<Rightarrow> bool" where
  atom_quiet: "\<lbrakk>\<forall>a. quiet (heap r a) (heap r' a); byClient r' = byClient r; next_addr r' = next_addr r\<rbrakk> \<Longrightarrow> atom r r'"
| atom_close: "rstate (heap r a) \<noteq> stClosing \<Longrightarrow> atom r (teardown a r)"
| atom_connect: "atom r (connect_relay c s n w cr b r)"

abbreviation evolves :: "relayRegistry \<Rightarrow> relayRegistry \<Rightarrow> bool" where
  "evolves \<equiv> atom\<^sup>*\<^sup>*"

lemma quiet_refl [simp]: "quiet e e"
  by (simp add: quiet_def)

lemma quiet_trans: "\<lbrakk>quiet e f; quiet f g\<rbrakk> \<Longrightarrow> quiet e g"
  by (simp add: quiet_def)

lemma quiet_updates [simp]:
  "quiet e (e\<lparr>credit := c\<rparr>)" "quiet e (e\<lparr>bound := bo\<rparr>)" "quiet e (e\<lparr>holdsFD := h\<rparr>)" "quiet e (e\<lparr>destClosed := h\<rparr>)"
  "quiet e (onStreamAck s e)" "quiet e (snd (toOrphaned now e))"
  "quiet e (snd (routeDownFrame d e))" "quiet e (snd (snd (reassociate b m ad od e)))"
  by (auto simp: quiet_def onStreamAck_def toOrphaned_def reassociate_def drainAll_def routeDownFrame_def Let_def
      split: option.split prod.split bool.split)

lemma quiet_relay_round [simp]: "quiet e (fst (snd (relay_round now d eof m e)))"
proof -
  obtain x e1 where x: "routeDownFrame d e = (x, e1)" by force
  then have "quiet e e1" using quiet_updates(7) [of e d] by simp
  with x show ?thesis by (simp add: relay_round_def Let_def quiet_def split: route.split option.split)
qed

lemma heap_put [simp]: "heap (put a e r) = (heap r)(a := e)" "byClient (put a e r) = byClient r"
  "next_addr (put a e r) = next_addr r" "orphanedFDInUse (put a e r) = orphanedFDInUse r"
  by (simp_all add: put_def)

lemma put_put [simp]: "put a e (put a e' r) = put a e r"
  by (simp add: put_def)

definition calm :: "relayRegistry \<Rightarrow> relayRegistry \<Rightarrow> bool" where
  "calm r r' \<longleftrightarrow> (\<forall>a. quiet (heap r a) (heap r' a)) \<and> byClient r' = byClient r \<and> next_addr r' = next_addr r"

lemma calm_atom: "calm r r' \<Longrightarrow> evolves r r'"
  by (auto simp: calm_def intro: atom_quiet)

lemma calm_put: "quiet (heap r a) e \<Longrightarrow> calm r (put a e r)"
  by (simp add: calm_def)

lemma calm_release: "calm r (releaseOrphanFD a r)" "calm r (admit_charge a r)"
  by (simp_all add: calm_def releaseOrphanFD_def admit_charge_def)

lemma calm_trans: "\<lbrakk>calm r s; calm s t\<rbrakk> \<Longrightarrow> calm r t"
  unfolding calm_def by (metis quiet_trans)

lemma calm_migrate: "calm r (snd (snd (handleMigrateOrResume C k flag p c b m r)))"
proof -
  have re: "calm r (put a (snd (snd (reassociate b' m' ad od (heap r' a)))) r')" if "calm r r'" for r' a b' m' ad od
    by (rule calm_trans [OF that calm_put]) simp
  have bind: "calm r (put a ((heap r a)\<lparr>bound := x\<rparr>) r)" for a x by (rule calm_put) simp
  have revive: "calm r (releaseOrphanFD a (put a ((heap r a)\<lparr>bound := x, rstate := stActive\<rparr>) r))"
    if "rstate (heap r a) = stOrphaned" for a x
    by (rule calm_trans [OF calm_put calm_release(1)]) (simp add: quiet_def that)
  have refl: "calm r r" by (simp add: calm_def)
  have both: "calm r (put a (snd (snd (reassociate b' m' ad od ((heap r a)\<lparr>bound := x\<rparr>)))) r)" for a b' m' ad od x
    by (rule calm_put) (rule quiet_trans [OF quiet_updates(2) quiet_updates(8)])
  from re [OF revive] show ?thesis unfolding handleMigrateOrResume_def Let_def case_prod_beta
    by (simp add: refl bind both split: outcome.split option.split)
qed

lemma evolves_close: "rstate (heap r a) \<noteq> stClosing \<Longrightarrow> evolves r (releaseOrphanFD a (teardown a r))"
  by (rule rtranclp_trans [OF r_into_rtranclp calm_atom]) (auto intro: atom_close calm_release)

lemma evolves_evict: "evolves r (evictIdleOrphanExcept now sc ex r)"
proof -
  have "evolves r (r'\<lparr>orphanedEvictedLimit := n\<rparr>)" if "evolves r r'" for r' n
    by (rule rtranclp_trans [OF that calm_atom]) (simp add: calm_def)
  then show ?thesis
    by (simp add: evictIdleOrphanExcept_def evict_victim_def Let_def evolves_close split: option.split)
qed

lemma evolves_admit_decide: "evolves r (snd (admit_decide now c a r))"
proof -
  have "evolves r (evictIdleOrphanExcept now sc ex (evictIdleOrphanExcept now' sc' ex' r))" for sc ex sc' ex' now now'
    by (rule rtranclp_trans) (rule evolves_evict)+
  moreover have "evolves r (r\<lparr>orphanFDRejected := n\<rparr>)" for n by (rule calm_atom) (simp add: calm_def)
  ultimately show ?thesis by (simp add: admit_decide_def Let_def evolves_evict)
qed

lemma evolves_orphan_entry: "evolves r (snd (orphan_entry now c a r))"
proof -
  obtain adm r1 where d: "admit_decide now c a r = (adm, r1)" by force
  with evolves_admit_decide [of r now c a] have r1: "evolves r r1" by simp
  let ?r2 = "admit_charge a r1"
  from r1 calm_atom [OF calm_release(2)] have r2: "evolves r ?r2" by (rule rtranclp_trans)
  obtain w e where t: "toOrphaned now (heap ?r2 a) = (w, e)" by force
  with calm_put [of ?r2 a e] quiet_updates(6) [of "heap ?r2 a" now] have "calm ?r2 (put a e ?r2)" by simp
  with r2 have "evolves r (put a e ?r2)" by (meson calm_atom rtranclp_trans)
  moreover have "evolves r (releaseOrphanFD a ?r2)" using r2 calm_atom [OF calm_release(1)] by (rule rtranclp_trans)
  moreover have "evolves r (teardown a r1)" if "rstate (heap r1 a) = stActive"
    using r1 atom_close [of r1 a] that by (simp add: rtranclp.rtrancl_into_rtrancl)
  ultimately show ?thesis using d t r1 by (simp add: orphan_entry_def admitOrphan_def split: bool.split)
qed

lemma orphan_entries_fold: "snd (orphan_entries now c as r) = fold (\<lambda>a r. snd (orphan_entry now c a r)) as r"
  by (induction as arbitrary: r) (simp_all add: case_prod_beta)

lemma evolves_death: "evolves r (snd (session_death now c sess r))"
proof -
  have "evolves r (fold (\<lambda>a r. snd (orphan_entry now c a r)) as r)" for as
    by (induction as arbitrary: r) (simp, metis evolves_orphan_entry fold_simps(2) rtranclp_trans)
  then show ?thesis by (simp add: session_death_def orphan_entries_fold)
qed

lemma evolves_step: "evolves r (relay_step op r)"
proof (cases op)
  case (RReject a)
  then show ?thesis using atom_close [of r a] by auto
qed (auto simp: evolves_admit_decide evolves_death signalStreamEnd_def grace_expire_def fin_relay_def Let_def evolves_close
      atom_connect calm_atom [OF calm_release(1)] calm_atom [OF calm_release(2)] calm_atom [OF calm_put] calm_atom [OF calm_migrate]
      r_into_rtranclp [of atom] split: option.split)

lemma evolves_run: "evolves r (relay_run ops r)"
  unfolding relay_run_def by (induction ops arbitrary: r) (simp, metis evolves_step fold_simps(2) rtranclp_trans)

subsection \<open>What the protocol keeps\<close>

definition entry_ok :: "relayEntry \<Rightarrow> bool" where
  "entry_ok e \<longleftrightarrow> tc_closes e = (if rstate e = stClosing then 1 else 0) \<and> (reader_closed e \<longleftrightarrow> rstate e = stClosing)"

text \<open>The map holds only allocated, live entries, under their own key.\<close>

definition relay_inv :: "relayRegistry \<Rightarrow> bool" where
  "relay_inv r \<longleftrightarrow> (\<forall>a. entry_ok (heap r a)) \<and> distinct (map fst (byClient r)) \<and>
     (\<forall>c s a. reg_find c s r = Some a \<longrightarrow>
        a < next_addr r \<and> originClientID (heap r a) = c \<and> globalStreamID (heap r a) = s \<and> rstate (heap r a) \<noteq> stClosing)"

lemma entry_ok_quiet: "\<lbrakk>entry_ok e; quiet e e'\<rbrakk> \<Longrightarrow> entry_ok e'"
  by (simp add: entry_ok_def quiet_def)

lemma heap_teardown:
  "heap (teardown a r) = (heap r)(a := (closeReader ((heap r a)\<lparr>rstate := stClosing\<rparr>))\<lparr>tc_closes := Suc (tc_closes (heap r a))\<rparr>)"
  "next_addr (teardown a r) = next_addr r"
  by (simp_all add: teardown_def Let_def reg_remove_def closeReader_def)

lemma reg_find_teardown:
  "reg_find c s (teardown a r) =
     (if c = originClientID (heap r a) \<and> s = globalStreamID (heap r a) then None else reg_find c s r)"
  by (simp add: teardown_def Let_def reg_find_def reg_remove_def delete_conv')

lemma reg_find_connect:
  "reg_find c s (connect_relay c' s' n w cr b r) = (if c = c' \<and> s = s' then Some (next_addr r) else reg_find c s r)"
  by (simp add: connect_relay_def reg_find_def reg_add_def update_conv')

lemma relay_inv_atom: "\<lbrakk>atom r r'; relay_inv r\<rbrakk> \<Longrightarrow> relay_inv r'"
proof (induction rule: atom.induct)
  case (atom_quiet r r')
  have "reg_find c s r' = reg_find c s r" for c s using atom_quiet by (simp add: reg_find_def)
  moreover have "quiet (heap r a) (heap r' a)" "entry_ok (heap r a)" for a using atom_quiet by (simp_all add: relay_inv_def)
  moreover from this have "entry_ok (heap r' a)" for a using entry_ok_quiet by blast
  ultimately show ?case using atom_quiet(2,3,4) unfolding relay_inv_def quiet_def by simp
next
  case (atom_close r a)
  then have a: "entry_ok (heap r a)" by (simp add: relay_inv_def)
  have "entry_ok (heap (teardown a r) b)" for b
    using atom_close a by (simp add: heap_teardown relay_inv_def entry_ok_def closeReader_def)
  moreover have "b \<noteq> a" if "reg_find c s (teardown a r) = Some b" for c s b
    using that atom_close(2) by (auto simp: reg_find_teardown relay_inv_def split: if_splits)
  moreover have "distinct (map fst (byClient (teardown a r)))"
    using atom_close(2) by (simp add: relay_inv_def teardown_def Let_def reg_remove_def distinct_delete)
  ultimately show ?case using atom_close(2)
    unfolding relay_inv_def heap_teardown by (auto simp: reg_find_teardown split: if_splits)
next
  case (atom_connect r c s n w cr b)
  then show ?case unfolding relay_inv_def reg_find_connect
    by (auto simp: connect_relay_def reg_add_def newRelayEntry_def entry_ok_def less_Suc_eq intro!: distinct_update)
qed

lemma relay_inv_evolves: "\<lbrakk>evolves r r'; relay_inv r\<rbrakk> \<Longrightarrow> relay_inv r'"
  by (induction rule: rtranclp_induct) (auto intro: relay_inv_atom)

lemma closing_stays:
  assumes "evolves r r'" "a < next_addr r" "rstate (heap r a) = stClosing"
  shows "rstate (heap r' a) = stClosing \<and> tc_closes (heap r' a) = tc_closes (heap r a) \<and> a < next_addr r'"
  using assms
proof (induction rule: rtranclp_induct)
  case (step s t)
  from step(2) show ?case using step(3) [OF step(4,5)]
  proof cases
    case atom_quiet
    then show ?thesis using step(3) [OF step(4,5)] by (simp add: quiet_def)
  next
    case (atom_close b)
    then show ?thesis using step(3) [OF step(4,5)] by (auto simp: heap_teardown)
  next
    case atom_connect
    then show ?thesis using step(3) [OF step(4,5)] by (simp add: connect_relay_def reg_add_def)
  qed
qed simp

definition configured_registry :: "int \<Rightarrow> int \<Rightarrow> int \<Rightarrow> bool \<Rightarrow> relayRegistry" where
  "configured_registry perClient tot fdBudget odt = setOriginDeathTeardown odt (setLimits perClient tot fdBudget newRelayRegistry)"

lemma configured_registry_simps [simp]:
  "heap (configured_registry p t f o') = (\<lambda>_. newRelayEntry [] 0 [] 0 None 0)"
  "byClient (configured_registry p t f o') = []" "next_addr (configured_registry p t f o') = 0"
  "orphanedFDInUse (configured_registry p t f o') = 0" "orphanFDBudget (configured_registry p t f o') = f"
  by (simp_all add: configured_registry_def setOriginDeathTeardown_def setLimits_def newRelayRegistry_def)

lemma relay_inv_configured: "relay_inv (configured_registry p t f o')"
  by (simp add: relay_inv_def reg_find_def entry_ok_def newRelayEntry_def)

subsection \<open>The descriptor budget of orphans\<close>

definition orphans :: "relayRegistry \<Rightarrow> nat set" where
  "orphans r = {a. rstate (heap r a) = stOrphaned}"

definition fd_inv :: "int \<Rightarrow> relayRegistry \<Rightarrow> bool" where
  "fd_inv f r \<longleftrightarrow> orphanFDBudget r = f \<and> finite (orphans r) \<and> orphanedFDInUse r = int (card (orphans r)) \<and>
     orphanedFDInUse r \<le> max 0 f \<and> (\<forall>a. holdsFD (heap r a) \<longleftrightarrow> rstate (heap r a) = stOrphaned) \<and>
     (\<forall>a. rstate (heap r a) = stOrphaned \<longrightarrow> a < next_addr r)"

text \<open>The steps in which the cleanup of a session is not interleaved with others.\<close>

fun atomic_cleanup :: "relay_op \<Rightarrow> bool" where
  "atomic_cleanup (RCharge a) \<longleftrightarrow> False"
| "atomic_cleanup (ROrphan now a) \<longleftrightarrow> False"
| "atomic_cleanup (RRelease a) \<longleftrightarrow> False"
| "atomic_cleanup _ \<longleftrightarrow> True"

lemma orphans_update:
  "heap r' = (heap r)(a := e) \<Longrightarrow> orphans r' = (if rstate e = stOrphaned then insert a (orphans r) else orphans r - {a})"
  by (auto simp: orphans_def)

lemma fd_inv_same:
  assumes "fd_inv f r" "heap r' = (heap r)(a := e)" "holdsFD e = holdsFD (heap r a)"
    "rstate e = stOrphaned \<longleftrightarrow> rstate (heap r a) = stOrphaned" "orphanedFDInUse r' = orphanedFDInUse r"
    "orphanFDBudget r' = orphanFDBudget r" "next_addr r \<le> next_addr r'"
  shows "fd_inv f r'"
proof -
  have "orphans r' = orphans r" using assms(2,4) by (auto simp: orphans_def)
  moreover have "a' < next_addr r'" if "rstate (heap r' a') = stOrphaned" for a'
    using that assms(1,2,4,7) by (fastforce simp: fd_inv_def split: if_splits)
  ultimately show ?thesis using assms(1-6) by (simp add: fd_inv_def)
qed

lemma fd_inv_put:
  "\<lbrakk>fd_inv f r; holdsFD e = holdsFD (heap r a); rstate e = stOrphaned \<longleftrightarrow> rstate (heap r a) = stOrphaned\<rbrakk> \<Longrightarrow> fd_inv f (put a e r)"
  by (rule fd_inv_same [of f r _ a e]) (simp_all add: put_def)

lemma fd_inv_leave:
  assumes "fd_inv f r" "heap r' = (heap r)(a := e)" "\<not> holdsFD e" "rstate e \<noteq> stOrphaned"
    "orphanedFDInUse r' = orphanedFDInUse r - (if holdsFD (heap r a) then 1 else 0)"
    "orphanFDBudget r' = orphanFDBudget r" "next_addr r' = next_addr r"
  shows "fd_inv f r' \<and> orphanedFDInUse r' \<le> orphanedFDInUse r"
proof -
  have o: "orphans r' = orphans r - {a}" using orphans_update [OF assms(2)] assms(4) by simp
  have a: "holdsFD (heap r a) \<longleftrightarrow> a \<in> orphans r" and fin: "finite (orphans r)"
    and n: "orphanedFDInUse r = int (card (orphans r))" using assms(1) by (simp_all add: fd_inv_def orphans_def)
  have "orphanedFDInUse r' = int (card (orphans r'))"
  proof (cases "a \<in> orphans r")
    case True
    with fin have "card (orphans r) = Suc (card (orphans r - {a}))" by (metis card.remove)
    then show ?thesis using True assms(5) a n o by simp
  qed (simp add: assms(5) a n o)
  moreover have "orphanedFDInUse r' \<le> orphanedFDInUse r" by (simp add: assms(5))
  moreover from this have "orphanedFDInUse r' \<le> max 0 f" using assms(1) unfolding fd_inv_def by linarith
  ultimately show ?thesis using assms fin o by (simp add: fd_inv_def)
qed

lemma fd_inv_close: "fd_inv f r \<Longrightarrow> fd_inv f (releaseOrphanFD a (teardown a r)) \<and>
    orphanedFDInUse (releaseOrphanFD a (teardown a r)) \<le> orphanedFDInUse r"
proof (rule fd_inv_leave)
  let ?e = "(closeReader ((heap r a)\<lparr>rstate := stClosing\<rparr>))\<lparr>tc_closes := Suc (tc_closes (heap r a)), holdsFD := False\<rparr>"
  show "heap (releaseOrphanFD a (teardown a r)) = (heap r)(a := ?e)"
    by (auto simp: releaseOrphanFD_def heap_teardown closeReader_def fun_upd_def)
qed (simp_all add: releaseOrphanFD_def teardown_def Let_def closeReader_def reg_remove_def put_def)

lemma fd_inv_revive:
  "fd_inv f r \<Longrightarrow> fd_inv f (releaseOrphanFD a (put a ((heap r a)\<lparr>bound := x, rstate := stActive\<rparr>) r))"
proof (rule fd_inv_leave [THEN conjunct1])
  show "heap (releaseOrphanFD a (put a ((heap r a)\<lparr>bound := x, rstate := stActive\<rparr>) r)) =
      (heap r)(a := (heap r a)\<lparr>bound := x, rstate := stActive, holdsFD := False\<rparr>)"
    by (auto simp: releaseOrphanFD_def fun_upd_def)
qed (simp_all add: releaseOrphanFD_def put_def)

lemma fd_inv_teardown: "\<lbrakk>fd_inv f r; rstate (heap r a) \<noteq> stOrphaned\<rbrakk> \<Longrightarrow> fd_inv f (teardown a r)"
  by (rule fd_inv_same [OF _ heap_teardown(1)]) (simp_all add: teardown_def Let_def closeReader_def reg_remove_def put_def)

lemma fd_inv_counters [simp]:
  "fd_inv f (r\<lparr>orphanedEvictedLimit := n\<rparr>) = fd_inv f r" "fd_inv f (r\<lparr>orphanFDRejected := n\<rparr>) = fd_inv f r"
  by (simp_all add: fd_inv_def orphans_def)

lemma fd_inv_evict:
  assumes "fd_inv f r"
  shows "fd_inv f (evictIdleOrphanExcept now sc ex r) \<and>
    orphanedFDInUse (evictIdleOrphanExcept now sc ex r) \<le> orphanedFDInUse r \<and>
    next_addr (evictIdleOrphanExcept now sc ex r) = next_addr r \<and>
    (rstate (heap r a) = stActive \<longrightarrow> heap (evictIdleOrphanExcept now sc ex r) a = heap r a)"
  using fd_inv_close [OF assms] assms
  by (auto simp: evictIdleOrphanExcept_def evict_victim_def Let_def releaseOrphanFD_def heap_teardown split: option.split)

lemma fd_inv_admit_decide:
  assumes "fd_inv f r" "admit_decide now c a r = (adm, r1)"
  shows "fd_inv f r1 \<and> next_addr r1 = next_addr r \<and> (adm \<longrightarrow> orphanedFDInUse r1 < f) \<and>
    (rstate (heap r a) = stActive \<longrightarrow> heap r1 a = heap r a)"
proof -
  have f: "orphanFDBudget r = f" using assms(1) by (simp add: fd_inv_def)
  define e1 where "e1 = evictIdleOrphanExcept now c (Some a) r"
  note x1 = fd_inv_evict [OF assms(1), of now c "Some a" a, folded e1_def]
  note x2 = fd_inv_evict [OF assms(1), of now "[]" "Some a" a]
  note x3 = fd_inv_evict [of f e1 now "[]" "Some a" a]
  show ?thesis using assms f x1 x2 x3 unfolding admit_decide_def Let_def e1_def [symmetric]
    by (auto split: if_splits)
qed

lemma fd_inv_orphan:
  assumes "fd_inv f r" "rstate (heap r a) = stActive" "orphanedFDInUse r < f" "a < next_addr r"
  shows "fd_inv f (put a (snd (toOrphaned now (heap (admit_charge a r) a))) (admit_charge a r))" (is "fd_inv f ?r'")
proof -
  have h: "heap ?r' = (heap r)(a := (heap r a)\<lparr>holdsFD := True, rstate := stOrphaned, orphanedAt := now\<rparr>)"
    using assms(2) by (simp add: toOrphaned_def admit_charge_def fun_upd_def fun_eq_iff)
  have "a \<notin> orphans r" using assms(2) by (simp add: orphans_def)
  moreover have "orphans ?r' = insert a (orphans r)" using orphans_update [OF h] by simp
  moreover have "orphanedFDInUse ?r' = orphanedFDInUse r + 1" "orphanFDBudget ?r' = orphanFDBudget r" "next_addr ?r' = next_addr r"
    by (simp_all add: admit_charge_def put_def)
  ultimately show ?thesis using assms h unfolding fd_inv_def by auto
qed

lemma fd_inv_orphan_entry:
  assumes "fd_inv f r" "a < next_addr r"
  shows "fd_inv f (snd (orphan_entry now c a r)) \<and> next_addr (snd (orphan_entry now c a r)) = next_addr r"
proof (cases "rstate (heap r a) = stActive")
  case True
  obtain adm r1 where d: "admit_decide now c a r = (adm, r1)" by force
  note r1 = fd_inv_admit_decide [OF assms(1) d]
  have act: "rstate (heap r1 a) = stActive" using r1 True by simp
  obtain e where t: "toOrphaned now (heap (admit_charge a r1) a) = (True, e)"
    using act by (simp add: toOrphaned_def admit_charge_def)
  have "snd (orphan_entry now c a r) = (if adm then put a e (admit_charge a r1) else teardown a r1)"
    using True d act t by (simp add: orphan_entry_def admitOrphan_def)
  moreover have "next_addr (admit_charge a r1) = next_addr r1" by (simp add: admit_charge_def put_def)
  ultimately show ?thesis
    using fd_inv_orphan [of f r1 a now] fd_inv_teardown [of f r1 a] r1 act assms(2) t by (simp add: heap_teardown)
qed (simp add: orphan_entry_def assms(1))

lemma fd_inv_death:
  assumes "fd_inv f r" "relay_inv r"
  shows "fd_inv f (snd (session_death now c sess r))"
proof -
  have "fd_inv f (fold (\<lambda>a r. snd (orphan_entry now c a r)) as s)" if "fd_inv f s" "\<forall>a \<in> set as. a < next_addr s" for as s
    using that fd_inv_orphan_entry by (induction as arbitrary: s) auto
  moreover have "a < next_addr r" if "a \<in> set (entriesForSession c sess r)" for a
  proof -
    from that obtain s where "((c, s), a) \<in> set (byClient r)" by (auto simp: entriesForSession_def)
    with assms(2) have "reg_find c s r = Some a" by (simp add: relay_inv_def reg_find_def)
    with assms(2) show ?thesis by (simp add: relay_inv_def)
  qed
  ultimately show ?thesis using assms(1) by (simp add: session_death_def orphan_entries_fold)
qed

lemma fd_inv_migrate: "fd_inv f r \<Longrightarrow> fd_inv f (snd (snd (handleMigrateOrResume C k flag p c b m r)))"
proof -
  assume r: "fd_inv f r"
  have re: "fd_inv f (put a (snd (snd (reassociate b' m' ad od (heap r' a)))) r')" if "fd_inv f r'" for r' a b' m' ad od
    by (rule fd_inv_put [OF that]) (simp_all add: reassociate_def Let_def drainAll_def)
  have bind: "fd_inv f (put a ((heap r a)\<lparr>bound := x\<rparr>) r)" for a x by (rule fd_inv_put [OF r]) simp_all
  have both: "fd_inv f (put a (snd (snd (reassociate b' m' ad od ((heap r a)\<lparr>bound := x\<rparr>)))) r)" for a b' m' ad od x
    by (rule fd_inv_put [OF r]) (simp_all add: reassociate_def Let_def drainAll_def)
  from re [OF fd_inv_revive [OF r]] show ?thesis unfolding handleMigrateOrResume_def Let_def case_prod_beta
    by (simp add: r bind both split: outcome.split option.split)
qed

lemma fd_inv_connect: "fd_inv f r \<Longrightarrow> fd_inv f (connect_relay c s n w cr b r)"
proof (rule fd_inv_same [where a = "next_addr r" and e = "newRelayEntry c s n w cr b"])
  assume r: "fd_inv f r"
  then have "rstate (heap r (next_addr r)) \<noteq> stOrphaned" unfolding fd_inv_def by blast
  with r show "rstate (newRelayEntry c s n w cr b) = stOrphaned \<longleftrightarrow> rstate (heap r (next_addr r)) = stOrphaned"
    "holdsFD (newRelayEntry c s n w cr b) = holdsFD (heap r (next_addr r))" by (simp_all add: newRelayEntry_def fd_inv_def)
qed (simp_all add: connect_relay_def reg_add_def put_def)

lemma fd_inv_relay_round: "fd_inv f r \<Longrightarrow> fd_inv f (put a (fst (snd (relay_round now d eof m (heap r a)))) r)"
proof (rule fd_inv_put)
  obtain x e1 where x: "routeDownFrame d (heap r a) = (x, e1)" by force
  then have "holdsFD e1 = holdsFD (heap r a) \<and> rstate e1 = rstate (heap r a)"
    by (auto simp: routeDownFrame_def Let_def split: option.splits prod.splits bool.splits if_splits)
  with x show "holdsFD (fst (snd (relay_round now d eof m (heap r a)))) = holdsFD (heap r a)"
    "rstate (fst (snd (relay_round now d eof m (heap r a)))) = stOrphaned \<longleftrightarrow> rstate (heap r a) = stOrphaned"
    by (simp_all add: relay_round_def Let_def split: route.split option.split)
qed

lemma fd_inv_signal: "fd_inv f r \<Longrightarrow> fd_inv f (snd (signalStreamEnd m a r))"
  using fd_inv_close [of f r a] fd_inv_put [of f r "(heap r a)\<lparr>destClosed := True\<rparr>" a] by (simp add: signalStreamEnd_def Let_def)

lemma fd_inv_step:
  assumes "fd_inv f r" "relay_inv r" "atomic_cleanup op"
  shows "fd_inv f (relay_step op r)"
proof (cases op)
  case (RDecide now c a)
  then show ?thesis using fd_inv_admit_decide [OF assms(1)] by (cases "admit_decide now c a r") auto
next
  case (RAck a s)
  then show ?thesis using fd_inv_put [OF assms(1)] by (simp add: onStreamAck_def)
next
  case (RFin c s)
  then show ?thesis using assms(1) fd_inv_close [OF assms(1)] by (simp add: fin_relay_def split: option.split)
qed (use assms fd_inv_close [OF assms(1)] in \<open>simp_all add: fd_inv_connect fd_inv_relay_round fd_inv_signal fd_inv_death
      fd_inv_migrate fd_inv_put fd_inv_teardown grace_expire_def\<close>)

lemma fd_inv_run:
  assumes "fd_inv f r" "relay_inv r" "list_all atomic_cleanup ops"
  shows "fd_inv f (relay_run ops r)"
  using assms unfolding relay_run_def
  by (induction ops arbitrary: r) (auto intro: fd_inv_step relay_inv_evolves [OF evolves_step])

lemmas relay_eval = connect_relay_def reg_add_def put_def session_death_def entriesForSession_def orphan_entry_def
  admitOrphan_def admit_decide_def admit_charge_def toOrphaned_def newRelayEntry_def Let_def countForClient_def totalCount_def
  teardown_def reg_remove_def closeReader_def reg_find_def releaseOrphanFD_def grace_expire_def

subsection \<open>Properties\<close>


text \<open>The registry never hands out a dead relay: whatever has happened, the entry that a
  MIGRATE, a RESUME or a FIN finds under a client and a stream was created for exactly that
  client and stream and is not closing.\<close>

theorem registered_relays_live:
  "case reg_find c s (relay_run ops (configured_registry p t f odt)) of
     None \<Rightarrow> True
   | Some a \<Rightarrow> originClientID (heap (relay_run ops (configured_registry p t f odt)) a) = c \<and>
       globalStreamID (heap (relay_run ops (configured_registry p t f odt)) a) = s \<and>
       rstate (heap (relay_run ops (configured_registry p t f odt)) a) \<noteq> stClosing \<and>
       tc_closes (heap (relay_run ops (configured_registry p t f odt)) a) = 0"
proof -
  have "relay_inv (relay_run ops (configured_registry p t f odt))"
    by (rule relay_inv_evolves [OF evolves_run relay_inv_configured])
  then show ?thesis by (auto simp: relay_inv_def entry_ok_def split: option.split)
qed

text \<open>C40. The descriptors pinned by orphaned relays stay within the budget: over any sequence of
  CONNECTs, session deaths, timers, evictions, FINs, origin failures and RESUMEs in which the
  cleanup of a session is not interleaved with other steps, the counter equals the number of
  orphaned relays and never exceeds the configured budget.\<close>

theorem orphan_descriptors_within_budget:
  assumes "list_all atomic_cleanup ops"
  shows "orphanedFDInUse (relay_run ops (configured_registry p t f odt)) =
       int (card {a. rstate (heap (relay_run ops (configured_registry p t f odt)) a) = stOrphaned}) \<and>
     orphanedFDInUse (relay_run ops (configured_registry p t f odt)) \<le> max 0 f"
proof -
  have "fd_inv f (configured_registry p t f odt)" by (simp add: fd_inv_def orphans_def newRelayEntry_def)
  from fd_inv_run [OF this relay_inv_configured assms] show ?thesis by (simp add: fd_inv_def orphans_def)
qed

theorem orphan_descriptors_within_budget_witness:
  "orphanedFDInUse (relay_run [RConnect [99] 1 [] 64 None 5, RConnect [99] 2 [] 64 None 5, RDeath 100 [99] 5]
       (configured_registry 10 10 1 False)) = 1 \<and>
   orphanedFDInUse (relay_run [RConnect [99] 1 [] 64 None 5, RConnect [99] 2 [] 64 None 5, RDeath 100 [99] 5]
       (configured_registry 10 10 1 False)) \<le> max 0 1"
  using orphan_descriptors_within_budget [of "[RConnect [99] 1 [] 64 None 5, RConnect [99] 2 [] 64 None 5, RDeath 100 [99] 5]" 10 10 1 False]
  by (simp add: relay_run_def configured_registry_def setOriginDeathTeardown_def setLimits_def newRelayRegistry_def
      relay_eval defaultEvictIdleThreshold_def)

subsection \<open>Races the registry does not exclude\<close>

text \<open>A RESUME with the proof the server issued, on an orphaned entry.\<close>

definition resume_op :: "crypto \<Rightarrow> bytes \<Rightarrow> byte \<Rightarrow> gostring \<Rightarrow> u16 \<Rightarrow> bytes \<Rightarrow> slot \<Rightarrow> relay_op" where
  "resume_op C k flag c s nonce b =
     RMigrate C k flag (BuildMigrateFrame s (ComputeStreamProof C (DeriveServerPerClientKey C k c) c s nonce)) c b"

lemma length_ComputeStreamProof [simp]: "length (ComputeStreamProof C k c s n) = 32"
  by (simp add: ComputeStreamProof_def arr32_def go_copy_def zeros_def)

lemma parse_resume [simp]:
  "ParseMigrateFrame (BuildMigrateFrame s (ComputeStreamProof C k c s' n)) = Ok (s, ComputeStreamProof C k c s' n)"
  using migrate_frame.roundtrip [of "(s, ComputeStreamProof C k c s' n)"] by simp

lemmas relay_trace = relay_run_def relay_eval resume_op_def handleMigrateOrResume_def VerifyStreamProof_def reassociate_def drainAll_def
  configured_registry_def setOriginDeathTeardown_def setLimits_def newRelayRegistry_def defaultEvictIdleThreshold_def

text \<open>
  The grace timer of an earlier orphaning is not disarmed by a RESUME: it closes the relay
  whenever it finds it orphaned again, however recently.
\<close>

lemma stale_timer_cuts_second_grace:
  assumes "0 < f"
  shows "let r = relay_run [RConnect c s n w None 1, RDeath t0 c 1, resume_op C k FlagResume c s n 2, RDeath t1 c 2, RGrace 0]
           (configured_registry 0 0 f False)
         in rstate (heap r 0) = stClosing \<and> orphanedAt (heap r 0) = t1"
  using assms by (simp add: relay_trace FlagResume_def)

text \<open>
  A MIGRATE is answered positively also on an orphaned relay, but leaves it orphaned: the
  grace timer then closes the stream the client believes to have moved.
\<close>

lemma migrate_of_orphan_dies:
  assumes "0 < f"
  shows "let r = relay_run [RConnect c s n w None 1, RDeath t0 c 1] (configured_registry 0 0 f False);
             r' = relay_run [resume_op C k FlagMigrate c s n 2, RGrace 0] r
         in fst (handleMigrateOrResume C k FlagMigrate
                   (BuildMigrateFrame s (ComputeStreamProof C (DeriveServerPerClientKey C k c) c s n)) c 2 True r) = MigrateOK s 0 \<and>
            rstate (heap r' 0) = stClosing \<and> bound (heap r' 0) = Some 2"
  using assms by (simp add: relay_trace FlagResume_def FlagMigrate_def)

text \<open>
  Entries are unregistered by key: the timer of a relay that was superseded by a new CONNECT
  with the same client and stream removes the new, active relay from the registry.
\<close>

lemma timer_unregisters_successor:
  assumes "0 < f"
  shows "let r = relay_run [RConnect c s n w None 1, RDeath t0 c 1, RConnect c s n' w' None 2, RGrace 0] (configured_registry 0 0 f False)
         in reg_find c s r = None \<and> rstate (heap r 1) = stActive \<and> originClientID (heap r 1) = c \<and> globalStreamID (heap r 1) = s"
  using assms by (simp add: relay_trace)

text \<open>Three races the registry does not exclude, on a registry with a positive descriptor budget:
  the grace timer of an earlier orphaning, which a RESUME does not disarm, closes the relay during
  its next grace period; a MIGRATE of an orphaned relay is answered positively but the timer still
  closes it; and the timer of a relay whose client and stream a later CONNECT has reused removes
  the new, active relay from the registry.\<close>

theorem registry_races:
  assumes "0 < f"
  shows "(let r = relay_run [RConnect c s n w None 1, RDeath t0 c 1, resume_op C k FlagResume c s n 2, RDeath t1 c 2, RGrace 0]
            (configured_registry 0 0 f False)
          in rstate (heap r 0) = stClosing \<and> orphanedAt (heap r 0) = t1) \<and>
    (let r = relay_run [RConnect c s n w None 1, RDeath t0 c 1] (configured_registry 0 0 f False);
         r' = relay_run [resume_op C k FlagMigrate c s n 2, RGrace 0] r
     in fst (handleMigrateOrResume C k FlagMigrate
               (BuildMigrateFrame s (ComputeStreamProof C (DeriveServerPerClientKey C k c) c s n)) c 2 True r) = MigrateOK s 0 \<and>
        rstate (heap r' 0) = stClosing \<and> bound (heap r' 0) = Some 2) \<and>
    (let r = relay_run [RConnect c s n w None 1, RDeath t0 c 1, RConnect c s n' w' None 2, RGrace 0] (configured_registry 0 0 f False)
     in reg_find c s r = None \<and> rstate (heap r 1) = stActive \<and> originClientID (heap r 1) = c \<and> globalStreamID (heap r 1) = s)"
  using stale_timer_cuts_second_grace [OF assms] migrate_of_orphan_dies [OF assms] timer_unregisters_successor [OF assms]
  by (intro conjI)

theorem registry_races_witness:
  "let r = relay_run [RConnect [99] 5 (replicate 16 1) 64 None 1, RDeath 10 [99] 1, RConnect [99] 5 (replicate 16 2) 64 None 2, RGrace 0]
     (configured_registry 0 0 1 False)
   in reg_find [99] 5 r = None \<and> rstate (heap r 1) = stActive \<and> originClientID (heap r 1) = [99] \<and> globalStreamID (heap r 1) = 5"
  by (rule registry_races [THEN conjunct2, THEN conjunct2]) simp

end
