(* ===== verification/Reassembler.thy ===== *)
theory Reassembler
  imports Prelude "HOL-Library.AList"
begin

section \<open>The downlink reassembler of the client\<close>

text \<open>
  Models \<open>src/proxy/socks5/reassembler.go\<close>: frames of a stream arrive in any order, possibly
  more than once (a migration resends the unacknowledged tail), and leave in the order of
  their 64-bit sequence numbers.  \<open>pending\<close> is the Go map as an association list, so that its
  size computes; the delivery loop is a recursion that terminates because every round deletes
  an entry.

  Shown: whatever the arrival order and the duplicates, what comes out is exactly the longest
  gapless prefix of the frames that arrived, each frame once and in order, and the byte count
  is that of the frames held back.
\<close>

datatype reasmStatus = reasmOK | reasmDup | reasmOverflow

record reassembler =
  expectedSeq :: u64
  pending :: "(u64 \<times> bytes) list"
  bufBytes :: int
  maxBytes :: int

definition newReassembler :: "int \<Rightarrow> reassembler" where
  "newReassembler mb = \<lparr>expectedSeq = 1, pending = [], bufBytes = 0, maxBytes = mb\<rparr>"

function drain_loop ::
  "u64 \<Rightarrow> (u64 \<times> bytes) list \<Rightarrow> int \<Rightarrow> bytes list \<Rightarrow> bytes list \<times> u64 \<times> (u64 \<times> bytes) list \<times> int" where
  "drain_loop expected pend bytes out =
     (case map_of pend expected of
        None \<Rightarrow> (out, expected, pend, bytes)
      | Some nf \<Rightarrow> drain_loop (expected + 1) (AList.delete expected pend) (bytes - int (length nf)) (out @ [nf]))"
  by pat_completeness auto

lemma length_delete_less: "map_of al k = Some v \<Longrightarrow> length (AList.delete k al) < length al"
proof -
  assume "map_of al k = Some v"
  then have "k \<in> fst ` set al" by (metis domI dom_map_of_conv_image_fst)
  then show ?thesis by (auto simp: AList.delete_eq intro: length_filter_less)
qed

termination drain_loop
  by (relation "measure (\<lambda>(e, pend, b, out). length pend)") (auto simp: length_delete_less)

declare drain_loop.simps [simp del]

definition push :: "u64 \<Rightarrow> bytes \<Rightarrow> reassembler \<Rightarrow> (bytes list \<times> reasmStatus) \<times> reassembler" where
  "push seq data r =
     (if seq < expectedSeq r then (([], reasmDup), r)
      else let (pend, b) = (if map_of (pending r) seq = None
                            then (AList.update seq data (pending r), bufBytes r + int (length data))
                            else (pending r, bufBytes r));
               (out, e, pend', b') = drain_loop (expectedSeq r) pend b [];
               r' = r\<lparr>expectedSeq := e, pending := pend', bufBytes := b'\<rparr>
           in ((out, if b' > maxBytes r then reasmOverflow else reasmOK), r'))"

definition hasGap :: "reassembler \<Rightarrow> bool" where
  "hasGap r \<longleftrightarrow> length (pending r) > 0"

subsection \<open>The sender's numbering\<close>

text \<open>
  Frame \<open>i\<close> (counting from 1) carries \<open>D i\<close>; \<open>held D k S pend\<close>: of the arrived frames \<open>S\<close>,
  those above the delivered prefix \<open>1..k\<close> are pending, under their 64-bit numbers.
\<close>

definition frames_ok :: "nat set \<Rightarrow> bool" where
  "frames_ok S \<longleftrightarrow> finite S \<and> (\<forall>i \<in> S. 1 \<le> i \<and> i < 2 ^ 64 - 1)"

definition held :: "(nat \<Rightarrow> bytes) \<Rightarrow> nat \<Rightarrow> nat set \<Rightarrow> (u64 \<times> bytes) list \<Rightarrow> bool" where
  "held D k S pend \<longleftrightarrow> distinct (map fst pend) \<and>
     (\<forall>s v. map_of pend s = Some v \<longleftrightarrow> (\<exists>i \<in> S. k < i \<and> s = of_nat i \<and> v = D i))"

definition held_bytes :: "(u64 \<times> bytes) list \<Rightarrow> int" where
  "held_bytes pend = sum_list (map (\<lambda>p. int (length (snd p))) pend)"

lemma unat_of_nat_u64: "i < 2 ^ 64 \<Longrightarrow> unat (of_nat i :: u64) = i"
  by (simp add: unat_of_nat)

lemma of_nat_u64_eq: "\<lbrakk>i < 2 ^ 64; j < 2 ^ 64\<rbrakk> \<Longrightarrow> (of_nat i :: u64) = of_nat j \<longleftrightarrow> i = j"
  using unat_of_nat_u64 by metis

lemma held_mapD: "\<lbrakk>held D k S pend; map_of pend s = Some v\<rbrakk> \<Longrightarrow> \<exists>i \<in> S. k < i \<and> s = of_nat i \<and> v = D i"
  by (simp add: held_def)

lemma held_next:
  assumes "frames_ok S" "held D k S pend" "k < 2 ^ 64 - 1"
  shows "map_of pend (of_nat (Suc k)) = (if Suc k \<in> S then Some (D (Suc k)) else None)"
proof -
  have "map_of pend (of_nat (Suc k)) = Some v \<longleftrightarrow> Suc k \<in> S \<and> v = D (Suc k)" for v
  proof -
    have "i = Suc k" if "i \<in> S" "(of_nat (Suc k) :: u64) = of_nat i" for i
      using that assms(1,3) of_nat_u64_eq [of "Suc k" i] by (auto simp: frames_ok_def simp del: of_nat_Suc)
    with assms(2) show ?thesis unfolding held_def by (metis lessI)
  qed
  then show ?thesis by (metis not_None_eq)
qed

lemma held_advance:
  assumes "frames_ok S" "held D k S pend" "Suc k \<in> S"
  shows "held D (Suc k) S (AList.delete (of_nat (Suc k)) pend)"
proof -
  have ne: "(of_nat i :: u64) \<noteq> of_nat (Suc k)" if "i \<in> S" "i \<noteq> Suc k" for i
    using that assms(1,3) of_nat_u64_eq [of i "Suc k"] by (fastforce simp: frames_ok_def simp del: of_nat_Suc)
  have "map_of (AList.delete (of_nat (Suc k)) pend) s = Some v \<longleftrightarrow> (\<exists>i \<in> S. Suc k < i \<and> s = of_nat i \<and> v = D i)" for s v
  proof -
    have "map_of (AList.delete (of_nat (Suc k)) pend) s = Some v \<longleftrightarrow> s \<noteq> of_nat (Suc k) \<and> map_of pend s = Some v"
      by (simp add: delete_conv' del: of_nat_Suc)
    also have "\<dots> \<longleftrightarrow> s \<noteq> of_nat (Suc k) \<and> (\<exists>i \<in> S. k < i \<and> s = of_nat i \<and> v = D i)"
      using assms(2) by (simp add: held_def del: of_nat_Suc)
    also have "\<dots> \<longleftrightarrow> (\<exists>i \<in> S. Suc k < i \<and> s = of_nat i \<and> v = D i)"
      using ne by (metis Suc_lessI less_SucI less_irrefl Suc_lessD)
    finally show ?thesis .
  qed
  moreover have "distinct (map fst (AList.delete (of_nat (Suc k)) pend))"
    using assms(2) by (simp add: held_def distinct_delete del: of_nat_Suc)
  ultimately show ?thesis by (simp add: held_def del: of_nat_Suc)
qed

lemma held_bytes_delete:
  "\<lbrakk>distinct (map fst pend); map_of pend k = Some v\<rbrakk> \<Longrightarrow> held_bytes (AList.delete k pend) = held_bytes pend - int (length v)"
proof (induction pend)
  case (Cons p pend)
  show ?case
  proof (cases "fst p = k")
    case True
    with Cons.prems have "AList.delete k pend = pend" by (auto intro: delete_idem)
    with True Cons.prems show ?thesis by (cases p) (auto simp: held_bytes_def)
  next
    case False
    with Cons show ?thesis by (cases p) (auto simp: held_bytes_def)
  qed
qed simp

text \<open>The delivery loop, started behind prefix \<open>k\<close>, stops behind the longest gapless prefix.\<close>

lemma drain_loop_delivers:
  assumes S: "frames_ok S" and h: "held D k S pend" and b: "b = held_bytes pend" and k: "k < 2 ^ 64 - 1"
  shows "\<exists>k' pend'. drain_loop (of_nat (Suc k)) pend b out =
       (out @ map D [Suc k..<Suc k'], of_nat (Suc k'), pend', held_bytes pend') \<and>
     k \<le> k' \<and> k' < 2 ^ 64 - 1 \<and> held D k' S pend' \<and> {Suc k..k'} \<subseteq> S \<and> Suc k' \<notin> S"
  using h b k
proof (induction "length pend" arbitrary: k pend b out rule: less_induct)
  case less
  note next' = held_next [OF S less.prems(1,3)]
  show ?case
  proof (cases "Suc k \<in> S")
    case False
    with next' less.prems show ?thesis
      by (subst drain_loop.simps) (auto simp del: of_nat_Suc intro!: exI [of _ k])
  next
    case True
    let ?pend = "AList.delete (of_nat (Suc k)) pend"
    have m: "map_of pend (of_nat (Suc k)) = Some (D (Suc k))" using next' True by simp
    have d: "distinct (map fst pend)" using less.prems(1) by (simp add: held_def)
    have k1: "Suc k < 2 ^ 64 - 1" using S True by (auto simp: frames_ok_def)
    obtain k' pend' where IH: "drain_loop (of_nat (Suc (Suc k))) ?pend (held_bytes ?pend) (out @ [D (Suc k)]) =
        ((out @ [D (Suc k)]) @ map D [Suc (Suc k)..<Suc k'], of_nat (Suc k'), pend', held_bytes pend')"
      "Suc k \<le> k'" "k' < 2 ^ 64 - 1" "held D k' S pend'" "{Suc (Suc k)..k'} \<subseteq> S" "Suc k' \<notin> S"
      using less.hyps [OF length_delete_less [OF m] held_advance [OF S less.prems(1) True] refl k1] by metis
    have "drain_loop (of_nat (Suc k)) pend b out =
        drain_loop (of_nat (Suc (Suc k))) ?pend (held_bytes ?pend) (out @ [D (Suc k)])"
    proof -
      have "(of_nat (Suc k) :: u64) + 1 = of_nat (Suc (Suc k))" by simp
      then show ?thesis
        unfolding drain_loop.simps [of "of_nat (Suc k)" pend] m by (simp add: less.prems(2) held_bytes_delete [OF d m] del: of_nat_Suc)
    qed
    also have "\<dots> = (out @ map D [Suc k..<Suc k'], of_nat (Suc k'), pend', held_bytes pend')"
      using IH(1,2) by (simp add: upt_rec [of "Suc k" "Suc k'"] del: of_nat_Suc upt_Suc)
    finally have run: "drain_loop (of_nat (Suc k)) pend b out =
        (out @ map D [Suc k..<Suc k'], of_nat (Suc k'), pend', held_bytes pend')" .
    have "{Suc k..k'} = insert (Suc k) {Suc (Suc k)..k'}" using IH(2) by auto
    with True IH(5) have sub: "{Suc k..k'} \<subseteq> S" by simp
    have "k \<le> k'" using IH(2) by simp
    with run sub IH(3,4,6) show ?thesis by blast
  qed
qed

subsection \<open>Runs\<close>

fun reasm_run :: "(u64 \<times> bytes) list \<Rightarrow> reassembler \<Rightarrow> bytes list \<times> reassembler" where
  "reasm_run [] r = ([], r)"
| "reasm_run ((seq, data) # ps) r =
     (case push seq data r of ((out, st), r') \<Rightarrow>
        case reasm_run ps r' of (outs, r'') \<Rightarrow> (out @ outs, r''))"

definition reasm_inv :: "(nat \<Rightarrow> bytes) \<Rightarrow> nat \<Rightarrow> nat set \<Rightarrow> reassembler \<Rightarrow> bool" where
  "reasm_inv D k S r \<longleftrightarrow> k < 2 ^ 64 - 1 \<and> expectedSeq r = of_nat (Suc k) \<and> held D k S (pending r) \<and>
     bufBytes r = held_bytes (pending r) \<and> {1..k} \<subseteq> S \<and> Suc k \<notin> S"

lemma reasm_inv_new: "reasm_inv D 0 {} (newReassembler mb)"
  by (simp add: reasm_inv_def newReassembler_def held_def held_bytes_def)

lemma held_bytes_update: "map_of pend s = None \<Longrightarrow> held_bytes (AList.update s d pend) = held_bytes pend + int (length d)"
  by (induction pend) (auto simp: held_bytes_def split: if_splits)

lemma held_insert:
  assumes S: "frames_ok (insert i S)" and h: "held D k S pend" and i: "k < i"
  shows "map_of pend (of_nat i) = None \<Longrightarrow> held D k (insert i S) (AList.update (of_nat i) (D i) pend)"
    and "map_of pend (of_nat i) \<noteq> None \<Longrightarrow> i \<in> S"
proof -
  show "i \<in> S" if "map_of pend (of_nat i) \<noteq> None"
  proof -
    from that obtain v where "map_of pend (of_nat i) = Some v" by blast
    from held_mapD [OF h this] obtain j where "j \<in> S" "(of_nat i :: u64) = of_nat j" by blast
    with S of_nat_u64_eq [of i j] show ?thesis by (fastforce simp: frames_ok_def)
  qed
  assume none: "map_of pend (of_nat i) = None"
  then have old: "(of_nat j :: u64) \<noteq> of_nat i" if "j \<in> S" "k < j" for j
    using that h unfolding held_def by (metis option.distinct(1))
  have "map_of (AList.update (of_nat i) (D i) pend) s = Some v \<longleftrightarrow> (\<exists>j \<in> insert i S. k < j \<and> s = of_nat j \<and> v = D j)" for s v
  proof -
    have "map_of (AList.update (of_nat i) (D i) pend) s = Some v \<longleftrightarrow>
        (if s = of_nat i then v = D i else map_of pend s = Some v)" by (auto simp: update_conv')
    also have "\<dots> \<longleftrightarrow> (\<exists>j \<in> insert i S. k < j \<and> s = of_nat j \<and> v = D j)"
      using h old i unfolding held_def by (metis insert_iff)
    finally show ?thesis .
  qed
  with h show "held D k (insert i S) (AList.update (of_nat i) (D i) pend)"
    by (simp add: held_def distinct_update)
qed

lemma reasm_inv_push:
  assumes inv: "reasm_inv D k S r" and S: "frames_ok (insert i S)"
  shows "\<exists>k' st r'. push (of_nat i) (D i) r = ((map D [Suc k..<Suc k'], st), r') \<and> k \<le> k' \<and> reasm_inv D k' (insert i S) r'"
proof -
  have k: "k < 2 ^ 64 - 1" and e: "expectedSeq r = of_nat (Suc k)" and h: "held D k S (pending r)"
    and b: "bufBytes r = held_bytes (pending r)" and pre: "{1..k} \<subseteq> S" "Suc k \<notin> S"
    using inv by (auto simp: reasm_inv_def)
  have i: "1 \<le> i" "i < 2 ^ 64 - 1" using S by (auto simp: frames_ok_def)
  have lt: "(of_nat i :: u64) < of_nat (Suc k) \<longleftrightarrow> i \<le> k"
    using i k by (simp add: word_less_nat_alt unat_of_nat_u64 del: of_nat_Suc) linarith
  show ?thesis
  proof (cases "i \<le> k")
    case True
    then have "i \<in> S" using pre i by auto
    then have "insert i S = S" by auto
    with True lt e inv show ?thesis by (intro exI [of _ k]) (simp add: push_def del: of_nat_Suc)
  next
    case False
    define pend where "pend = (if map_of (pending r) (of_nat i) = None then AList.update (of_nat i) (D i) (pending r) else pending r)"
    have h': "held D k (insert i S) pend"
      using held_insert [OF S h] False h by (auto simp: pend_def insert_absorb)
    have b': "(if map_of (pending r) (of_nat i) = None then bufBytes r + int (length (D i)) else bufBytes r) = held_bytes pend"
      by (simp add: b pend_def held_bytes_update)
    obtain k' pend' where d: "drain_loop (of_nat (Suc k)) pend (held_bytes pend) [] =
        ([] @ map D [Suc k..<Suc k'], of_nat (Suc k'), pend', held_bytes pend')"
      "k \<le> k'" "k' < 2 ^ 64 - 1" "held D k' (insert i S) pend'" "{Suc k..k'} \<subseteq> insert i S" "Suc k' \<notin> insert i S"
      using drain_loop_delivers [OF S h' refl k, of "[]"] by blast
    have "push (of_nat i) (D i) r = (([] @ map D [Suc k..<Suc k'], if held_bytes pend' > maxBytes r then reasmOverflow else reasmOK),
        r\<lparr>expectedSeq := of_nat (Suc k'), pending := pend', bufBytes := held_bytes pend'\<rparr>)"
      using False lt d(1) b' unfolding push_def e pend_def by (auto simp del: of_nat_Suc split: if_splits)
    moreover have "{1..k'} \<subseteq> insert i S"
    proof -
      have "{1..k'} \<subseteq> {1..k} \<union> {Suc k..k'}" by auto
      with pre(1) d(5) show ?thesis by blast
    qed
    then have "reasm_inv D k' (insert i S) (r\<lparr>expectedSeq := of_nat (Suc k'), pending := pend', bufBytes := held_bytes pend'\<rparr>)"
      using d by (simp add: reasm_inv_def del: of_nat_Suc)
    ultimately show ?thesis using d(2) by auto
  qed
qed

lemma reasm_run_delivers:
  assumes "reasm_inv D k S r" "frames_ok (S \<union> set is)"
  shows "\<exists>k' r'. reasm_run (map (\<lambda>i. (of_nat i, D i)) is) r = (map D [Suc k..<Suc k'], r') \<and> k \<le> k' \<and> reasm_inv D k' (S \<union> set is) r'"
  using assms
proof (induction "is" arbitrary: k S r)
  case Nil
  then show ?case by (intro exI [of _ k] exI [of _ r]) simp
next
  case (Cons i js)
  have "frames_ok (insert i S)" using Cons.prems(2) by (auto simp: frames_ok_def)
  then obtain k1 st r1 where p: "push (of_nat i) (D i) r = ((map D [Suc k..<Suc k1], st), r1)" "k \<le> k1" "reasm_inv D k1 (insert i S) r1"
    using reasm_inv_push [OF Cons.prems(1)] by blast
  obtain k' r' where q: "reasm_run (map (\<lambda>i. (of_nat i, D i)) js) r1 = (map D [Suc k1..<Suc k'], r')" "k1 \<le> k'"
      "reasm_inv D k' (insert i S \<union> set js) r'"
    using Cons.IH [OF p(3)] Cons.prems(2) by auto
  have "[Suc k..<Suc k1] @ [Suc k1..<Suc k'] = [Suc k..<Suc k']"
    using p(2) q(2) by (metis Suc_le_mono le_add_diff_inverse upt_add_eq_append)
  then have "reasm_run (map (\<lambda>i. (of_nat i, D i)) (i # js)) r = (map D [Suc k..<Suc k'], r')"
    by (simp add: p(1) q(1) map_append [symmetric] del: map_append upt_Suc)
  with p(2) q show ?case by (intro exI [of _ k'] exI [of _ r']) simp
qed

subsection \<open>Properties\<close>

text \<open>Exactly-once, in-order delivery: whatever order the frames of a stream arrive in and however
  often they are repeated, the reassembler has handed on the frames \<open>1, 2, \<dots>, k\<close>, each once and
  in this order, where \<open>k\<close> is the end of the longest gapless prefix of the frames that arrived.\<close>

theorem reassembler_delivers_prefix:
  assumes "\<forall>i \<in> set is. 1 \<le> i \<and> i < 2 ^ 64 - 1"
  shows "\<exists>k r. reasm_run (map (\<lambda>i. (of_nat i, D i)) is) (newReassembler mb) = (map D [1..<Suc k], r) \<and>
     {1..k} \<subseteq> set is \<and> Suc k \<notin> set is"
proof -
  have "frames_ok ({} \<union> set is)" using assms by (simp add: frames_ok_def)
  from reasm_run_delivers [OF reasm_inv_new [of D mb] this] show ?thesis
    by (auto simp: reasm_inv_def simp del: upt_Suc of_nat_Suc)
qed

theorem reassembler_delivers_prefix_witness:
  "\<exists>k r. reasm_run (map (\<lambda>i. (of_nat i, [of_nat i])) [2, 3, 1, 2, 5]) (newReassembler 100) = (map (\<lambda>i. [of_nat i]) [1..<Suc k], r) \<and>
     {1..k} \<subseteq> set [2, 3, 1, 2, 5] \<and> Suc k \<notin> set [2, 3, 1, 2, 5]"
  by (rule reassembler_delivers_prefix) simp

text \<open>The memory of the reassembler is what it reports: along every run the byte count is the
  sum of the frames held back, and a gap is reported exactly when some frame beyond the
  delivered prefix has arrived.\<close>

theorem reassembler_accounts_gap:
  assumes "\<forall>i \<in> set is. 1 \<le> i \<and> i < 2 ^ 64 - 1" "reasm_run (map (\<lambda>i. (of_nat i, D i)) is) (newReassembler mb) = (out, r)"
  shows "bufBytes r = held_bytes (pending r) \<and> (hasGap r \<longleftrightarrow> list_ex (\<lambda>i. length out < i) is)"
proof -
  have "frames_ok ({} \<union> set is)" using assms by (simp add: frames_ok_def)
  from reasm_run_delivers [OF reasm_inv_new [of D mb] this] assms(2)
  obtain k where k: "out = map D [1..<Suc k]" "reasm_inv D k (set is) r" by auto
  then have h: "held D k (set is) (pending r)" by (simp add: reasm_inv_def)
  have "pending r \<noteq> [] \<longleftrightarrow> (\<exists>i \<in> set is. k < i)"
    using h unfolding held_def by (metis list.exhaust map_of_Cons_code(2) map_of.simps(1) option.distinct(1) prod.exhaust)
  moreover have "length out = k" by (simp add: k(1) del: upt_Suc)
  ultimately show ?thesis using k(2) by (simp add: hasGap_def reasm_inv_def list_ex_iff)
qed

theorem reassembler_accounts_gap_witness:
  "\<exists>out r. reasm_run (map (\<lambda>i. (of_nat i, [7])) [1, 3]) (newReassembler 100) = (out, r) \<and> bufBytes r = held_bytes (pending r) \<and>
     (hasGap r \<longleftrightarrow> list_ex (\<lambda>i. length out < i) [1, 3])"
proof -
  obtain out r where run: "reasm_run (map (\<lambda>i. (of_nat i, [7])) [1, 3]) (newReassembler 100) = (out, r)" by force
  from reassembler_accounts_gap [OF _ run] run show ?thesis by auto
qed

end
