(* ===== verification/Downlink.thy ===== *)
theory Downlink
  imports Relay Reassembler
begin

section \<open>The downlink of a migratable stream, end to end\<close>

text \<open>
  Joins the server's relay (\<open>relayLoop\<close>, \<open>onStreamAck\<close>, \<open>reassociate\<close> of
  \<open>src/server/relay_registry.go\<close>) with the client's reassembler
  (\<open>src/proxy/socks5/reassembler.go\<close>).  A stream's history is a list of steps of one entry: the
  egress yields bytes, an acknowledgement arrives, the stream is moved to another slot (MIGRATE)
  or resumed after the death of its slot (RESUME).

  Shown: the frames of a stream are numbered 1, 2, 3, \<dots> without gaps, whatever slots they go
  to; and as long as the unacknowledged frames fit into the retransmission buffer, a RESUME sends
  again exactly the frames above the acknowledged prefix, so that the client delivers the whole
  stream whatever the dead slot lost.  The buffer is as large as one window, but the send credit
  may reach two: the last lemma shows a history in which a frame is lost for good.
\<close>

datatype down_op = DData instant bytes | DAck nat | DCredit u32 int | DMove slot bool

definition down_step :: "down_op \<Rightarrow> relayEntry \<Rightarrow> wire_event list \<times> relayEntry" where
  "down_step op e =
     (case op of
        DData now d \<Rightarrow> (case relay_round now d False True e of (evs, e', _) \<Rightarrow> (evs, e'))
      | DAck s \<Rightarrow> ([], onStreamAck (of_nat s) e)
      | DCredit d w \<Rightarrow> ([], e\<lparr>credit := map_option (credit_add d w) (credit e)\<rparr>)
      | DMove b aDead \<Rightarrow>
          (case reassociate b True aDead False (e\<lparr>bound := Some b\<rparr>) of (_, evs, e') \<Rightarrow> (evs, e')))"

fun down_run :: "down_op list \<Rightarrow> relayEntry \<Rightarrow> wire_event list \<times> relayEntry" where
  "down_run [] e = ([], e)"
| "down_run (op # ops) e =
     (case down_step op e of (evs, e1) \<Rightarrow> case down_run ops e1 of (evs', e2) \<Rightarrow> (evs @ evs', e2))"

text \<open>What the egress has yielded, the highest acknowledgement, and the frame with number \<open>i\<close>.\<close>

fun yielded :: "down_op list \<Rightarrow> bytes list" where
  "yielded [] = []"
| "yielded (DData now d # ops) = d # yielded ops"
| "yielded (_ # ops) = yielded ops"

fun acked :: "down_op list \<Rightarrow> nat" where
  "acked [] = 0"
| "acked (DAck s # ops) = max s (acked ops)"
| "acked (_ # ops) = acked ops"

definition frame :: "bytes list \<Rightarrow> nat \<Rightarrow> downFrame" where
  "frame ds i = \<lparr>df_seq = of_nat i, df_data = ds ! (i - 1)\<rparr>"

text \<open>
  A history in which the peers behave: reads return something, acknowledgements are for frames
  that were sent, and every frame finds room in the retransmission buffer.  \<open>n\<close> frames have been
  sent, \<open>u\<close> lists the lengths of the unacknowledged ones with their numbers.
\<close>

fun fits :: "nat \<Rightarrow> nat \<Rightarrow> (nat \<times> nat) list \<Rightarrow> down_op list \<Rightarrow> bool" where
  "fits w n u [] \<longleftrightarrow> n < 2 ^ 64 - 2"
| "fits w n u (DData now d # ops) \<longleftrightarrow>
     d \<noteq> [] \<and> sum_list (map snd u) + length d \<le> w \<and> fits w (Suc n) (u @ [(Suc n, length d)]) ops"
| "fits w n u (DAck s # ops) \<longleftrightarrow> s \<le> n \<and> fits w n (filter (\<lambda>p. s < fst p) u) ops"
| "fits w n u (_ # ops) \<longleftrightarrow> fits w n u ops"

text \<open>The state of the entry after \<open>ds\<close> was sent and \<open>k\<close> acknowledged.\<close>

definition down_inv :: "nat \<Rightarrow> bytes list \<Rightarrow> nat \<Rightarrow> relayEntry \<Rightarrow> bool" where
  "down_inv w ds k e \<longleftrightarrow> k \<le> length ds \<and> length ds < 2 ^ 64 - 2 \<and> \<not> reader_closed e \<and> rstate e \<noteq> stClosing \<and> bound e \<noteq> None \<and> credit e \<noteq> None \<and>
     downSeqCounter e = of_nat (length ds) \<and> bb_frames (downBuffer e) = [] \<and> bb_bytes (downBuffer e) = 0 \<and>
     bb_max (unackedTail e) = w \<and> bb_inv (unackedTail e) \<and> bb_frames (unackedTail e) = map (frame ds) [Suc k..<Suc (length ds)]"

definition unacked :: "bytes list \<Rightarrow> nat \<Rightarrow> (nat \<times> nat) list" where
  "unacked ds k = map (\<lambda>i. (i, length (ds ! (i - 1)))) [Suc k..<Suc (length ds)]"

lemma down_inv_new: "down_inv w [] 0 (newRelayEntry c s n w (Some cr) b)"
  by (simp add: down_inv_def newRelayEntry_def newBoundedBuffer_def bb_inv_def frame_bytes_def)

lemma fits_bound: "fits w n u ops \<Longrightarrow> n < 2 ^ 64 - 2"
  by (induction w n u ops rule: fits.induct) auto

lemma frame_snoc: "\<lbrakk>1 \<le> i; i \<le> length ds\<rbrakk> \<Longrightarrow> frame (ds @ [d]) i = frame ds i"
  by (cases i) (simp_all add: frame_def nth_append)

lemma map_frame_snoc: "k \<le> length ds \<Longrightarrow>
    map (frame (ds @ [d])) [Suc k..<Suc (Suc (length ds))] = map (frame ds) [Suc k..<Suc (length ds)] @ [frame (ds @ [d]) (Suc (length ds))]"
  by (auto simp: frame_snoc)

lemma bb_bytes_unacked:
  assumes "down_inv w ds k e"
  shows "bb_bytes (unackedTail e) = sum_list (map snd (unacked ds k))"
  using assms by (simp add: down_inv_def bb_inv_def frame_bytes_def unacked_def frame_def o_def)

lemma unacked_snoc: "k \<le> length ds \<Longrightarrow> unacked (ds @ [d]) k = unacked ds k @ [(Suc (length ds), length d)]"
  by (auto simp: unacked_def nth_append)

lemma filter_upt_less: "filter (\<lambda>i. s < i) [Suc k..<Suc n] = [Suc (max s k)..<Suc n]"
  by (induction n) (auto simp: max_def)

lemma unacked_ack: "filter (\<lambda>p. s < fst p) (unacked ds k) = unacked ds (max s k)"
  by (simp add: unacked_def filter_map o_def filter_upt_less del: upt_Suc)

lemma down_step_data:
  assumes inv: "down_inv w ds k e" and room: "d \<noteq> []" "sum_list (map snd (unacked ds k)) + length d \<le> w" "Suc (length ds) < 2 ^ 64 - 2"
  shows "\<exists>b e'. bound e = Some b \<and>
    down_step (DData now d) e = ([DataSeq b (globalStreamID e) (frame (ds @ [d]) (Suc (length ds)))], e') \<and>
    down_inv w (ds @ [d]) k e' \<and> globalStreamID e' = globalStreamID e"
proof -
  obtain b cr where b: "bound e = Some b" "credit e = Some cr" using inv by (auto simp: down_inv_def)
  let ?f = "\<lparr>df_seq = downSeqCounter e + 1, df_data = d\<rparr>"
  have f: "?f = frame (ds @ [d]) (Suc (length ds))" using inv by (simp add: down_inv_def frame_def add.commute)
  have p: "fst (Push ?f (unackedTail e))" using inv room(2) bb_bytes_unacked [OF inv] by (simp add: Push_def down_inv_def)
  then have fr: "bb_frames (snd (Push ?f (unackedTail e))) = map (frame (ds @ [d])) [Suc k..<Suc (length (ds @ [d]))]"
    using inv map_frame_snoc [of k ds d] f by (auto simp: Push_def down_inv_def simp del: upt_Suc split: if_splits)
  have bb: "bb_inv (snd (Push ?f (unackedTail e)))" using inv by (simp add: down_inv_def bb_inv_ops(2))
  have mx: "bb_max (snd (Push ?f (unackedTail e))) = w" using inv by (simp add: Push_def down_inv_def)
  have "routeDownFrame d e = (RouteSend b ?f, e\<lparr>downSeqCounter := downSeqCounter e + 1, unackedTail := snd (Push ?f (unackedTail e))\<rparr>)"
    using inv b by (simp add: routeDownFrame_def Let_def down_inv_def byteLen_def)
  then show ?thesis using inv b room(1,3) fr bb mx f
    by (intro exI [of _ b]) (simp add: down_step_def relay_round_def Let_def enqueueDownFrame_def down_inv_def del: upt_Suc split: option.split)
qed

lemma down_step_ack:
  assumes "down_inv w ds k e" "s \<le> length ds"
  shows "\<exists>e'. down_step (DAck s) e = ([], e') \<and> down_inv w ds (max s k) e' \<and> globalStreamID e' = globalStreamID e"
proof -
  have le: "df_seq (frame ds i) \<le> of_nat s \<longleftrightarrow> i \<le> s" if "i < Suc (length ds)" for i
    using that assms by (simp add: frame_def down_inv_def word_le_nat_alt unat_of_nat_u64)
  have "filter (\<lambda>f. \<not> df_seq f \<le> of_nat s) (map (frame ds) [Suc k..<Suc (length ds)]) =
      map (frame ds) (filter (\<lambda>i. s < i) [Suc k..<Suc (length ds)])"
    unfolding filter_map o_def using le by (intro arg_cong [of _ _ "map (frame ds)"] filter_cong refl) (auto simp del: upt_Suc)
  then have fr: "bb_frames (evictUpTo (of_nat s) (unackedTail e)) = map (frame ds) [Suc (max s k)..<Suc (length ds)]"
    using assms(1) by (simp add: evictUpTo_def down_inv_def filter_upt_less del: upt_Suc)
  show ?thesis using assms fr bb_inv_ops(4) [of "unackedTail e" "of_nat s"]
    by (simp add: down_step_def onStreamAck_def down_inv_def evictUpTo_def Let_def del: upt_Suc)
qed

lemma down_step_move:
  assumes "down_inv w ds k e"
  shows "\<exists>e'. down_step (DMove b aDead) e =
      (if aDead then map (\<lambda>i. DataSeq b (globalStreamID e) (frame ds i)) [Suc k..<Suc (length ds)] else [], e') \<and>
    down_inv w ds k e' \<and> globalStreamID e' = globalStreamID e"
  using assms
  by (simp add: down_step_def reassociate_def drainAll_def tailFrames_def enqueueDownFrame_def down_inv_def Let_def o_def del: upt_Suc)

lemma down_run_inv:
  assumes "down_inv w ds k e" "fits w (length ds) (unacked ds k) ops"
  shows "down_inv w (ds @ yielded ops) (max k (acked ops)) (snd (down_run ops e)) \<and>
    globalStreamID (snd (down_run ops e)) = globalStreamID e"
  using assms
proof (induction ops arbitrary: ds k e)
  case (Cons op ops)
  have step: ?case if "down_step op e = (evs, e1)" "down_inv w ds' k' e1" "fits w (length ds') (unacked ds' k') ops"
      "ds' @ yielded ops = ds @ yielded (op # ops)" "max k' (acked ops) = max k (acked (op # ops))"
      "globalStreamID e1 = globalStreamID e" for evs e1 ds' k'
    using Cons.IH [OF that(2,3)] that by (simp add: case_prod_beta)
  show ?case
  proof (cases op)
    case (DData now d)
    have k: "k \<le> length ds" using Cons.prems(1) by (simp add: down_inv_def)
    have f: "d \<noteq> []" "sum_list (map snd (unacked ds k)) + length d \<le> w"
      "fits w (length (ds @ [d])) (unacked (ds @ [d]) k) ops" using Cons.prems(2) DData unacked_snoc [OF k] by simp_all
    from down_step_data [OF Cons.prems(1) f(1,2), of now] fits_bound [OF f(3)]
    obtain evs e1 where "down_step (DData now d) e = (evs, e1)" "down_inv w (ds @ [d]) k e1" "globalStreamID e1 = globalStreamID e" by auto
    with step f(3) DData show ?thesis by simp
  next
    case (DAck s)
    from Cons.prems(2) DAck have f: "s \<le> length ds" "fits w (length ds) (unacked ds (max s k)) ops" by (simp_all add: unacked_ack)
    from down_step_ack [OF Cons.prems(1) f(1)]
    obtain e1 where "down_step (DAck s) e = ([], e1)" "down_inv w ds (max s k) e1" "globalStreamID e1 = globalStreamID e" by auto
    with step f(2) DAck show ?thesis by (simp add: ac_simps)
  next
    case (DCredit d u)
    then show ?thesis using step [of "[]" "e\<lparr>credit := map_option (credit_add d u) (credit e)\<rparr>" ds k] Cons.prems
      by (simp add: down_step_def down_inv_def)
  next
    case (DMove b aDead)
    from down_step_move [OF Cons.prems(1), of b aDead]
    obtain evs e1 where "down_step (DMove b aDead) e = (evs, e1)" "down_inv w ds k e1" "globalStreamID e1 = globalStreamID e" by auto
    with step Cons.prems(2) DMove show ?thesis by simp
  qed
qed simp

fun wire_frame :: "wire_event \<Rightarrow> u64 \<times> bytes" where
  "wire_frame (DataSeq b sid f) = (df_seq f, df_data f)"
| "wire_frame (DataFlat b sid d) = (0, d)"
| "wire_frame (StreamClose b sid) = (0, [])"

lemmas down_eval = down_step_def relay_round_def routeDownFrame_def enqueueDownFrame_def Push_def byteLen_def Let_def

subsection \<open>Properties\<close>

text \<open>C3. A stream survives the death of its slot: after any history of reads, acknowledgements,
  window updates and moves in which the unacknowledged frames fit the retransmission buffer, a
  RESUME sends again exactly the frames above the acknowledged prefix, in order and on the new slot;
  and whatever subset of the earlier frames reached the client, in whatever order and however often,
  as long as it includes what the client acknowledged, the client's reassembler has then handed on
  everything the egress yielded, once and in order.\<close>

theorem resume_delivers_everything:
  assumes "fits w 0 [] ops" "down_run ops (newRelayEntry c sid nonce w (Some cr) b) = (evs, e)"
    "down_step (DMove b' True) e = (resent, e')"
    "set arrived \<subseteq> {1..length (yielded ops)}" "{1..acked ops} \<subseteq> set arrived"
  shows "resent = map (\<lambda>i. DataSeq b' sid (frame (yielded ops) i)) [Suc (acked ops)..<Suc (length (yielded ops))] \<and>
    fst (reasm_run (map (\<lambda>i. (of_nat i, yielded ops ! (i - 1))) arrived @ map wire_frame resent) (newReassembler mb)) = yielded ops"
proof -
  let ?ds = "yielded ops" and ?n = "length (yielded ops)"
  have e: "down_inv w ?ds (acked ops) e" "globalStreamID e = sid"
    using down_run_inv [OF down_inv_new [of w c sid nonce cr b], of ops] assms(1,2)
    by (simp_all add: unacked_def newRelayEntry_def)
  have res: "resent = map (\<lambda>i. DataSeq b' sid (frame ?ds i)) [Suc (acked ops)..<Suc ?n]"
    using down_step_move [OF e(1), of b' True] assms(3) e(2) by (simp del: upt_Suc)
  let ?is = "arrived @ [Suc (acked ops)..<Suc ?n]"
  have n: "?n < 2 ^ 64 - 2" "acked ops \<le> ?n" using e(1) by (simp_all add: down_inv_def)
  have "set ?is = {1..?n}" using assms(4,5) n(2) by (auto simp del: upt_Suc)
  moreover have fo: "\<forall>i \<in> set ?is. 1 \<le> i \<and> i < 2 ^ 64 - 1" using calculation n(1) by auto
  moreover obtain k r where k: "reasm_run (map (\<lambda>i. (of_nat i, ?ds ! (i - 1))) ?is) (newReassembler mb) = (map (\<lambda>i. ?ds ! (i - 1)) [1..<Suc k], r)"
      "{1..k} \<subseteq> set ?is" "Suc k \<notin> set ?is"
    using reasm_run_delivers [OF reasm_inv_new [of "\<lambda>i. ?ds ! (i - 1)" mb], of ?is] fo
    by (auto simp: frames_ok_def reasm_inv_def simp del: upt_Suc of_nat_Suc)
  ultimately have "k = ?n" by auto
  moreover have "map (\<lambda>i. ?ds ! (i - 1)) [1..<Suc ?n] = ?ds" by (rule nth_equalityI) (simp_all del: upt_Suc)
  moreover have "map wire_frame resent = map (\<lambda>i. (of_nat i, ?ds ! (i - 1))) [Suc (acked ops)..<Suc ?n]"
    by (simp add: res frame_def o_def del: upt_Suc)
  ultimately have "fst (reasm_run (map (\<lambda>i. (of_nat i, ?ds ! (i - 1))) arrived @ map wire_frame resent) (newReassembler mb)) = ?ds"
    using k(1) by (simp only: map_append fst_conv)
  with res show ?thesis by blast
qed

theorem resume_delivers_everything_witness:
  "fits 4 0 [] [DData 0 [7, 8], DData 1 [9], DAck 1, DData 2 [5, 6]] \<and>
   fst (reasm_run (map (\<lambda>i. (of_nat i, yielded [DData 0 [7, 8], DData 1 [9], DAck 1, DData 2 [5, 6]] ! (i - 1))) [1, 3] @
     map wire_frame (fst (down_step (DMove 2 True) (snd (down_run [DData 0 [7, 8], DData 1 [9], DAck 1, DData 2 [5, 6]]
       (newRelayEntry [99] 3 [] 4 (Some (newStreamCredit 4)) 1)))))) (newReassembler 100)) = [[7, 8], [9], [5, 6]]"
proof -
  let ?ops = "[DData 0 [7, 8], DData 1 [9], DAck 1, DData 2 [5, 6]]"
  have fits: "fits 4 0 [] ?ops" by simp
  obtain evs e where run: "down_run ?ops (newRelayEntry [99] 3 [] 4 (Some (newStreamCredit 4)) 1) = (evs, e)" by force
  obtain re e' where mv: "down_step (DMove 2 True) e = (re, e')" by force
  have "set [1, 3] \<subseteq> {1..length (yielded ?ops)}" "{1..acked ?ops} \<subseteq> set [1, 3]" by auto
  from resume_delivers_everything [OF fits run mv this, of 100, THEN conjunct2] have
    "fst (reasm_run (map (\<lambda>i. (of_nat i, yielded ?ops ! (i - 1))) [1, 3] @ map wire_frame re) (newReassembler 100)) = [[7, 8], [9], [5, 6]]"
    by (simp only: yielded.simps)
  with fits show ?thesis by (simp only: run mv snd_conv fst_conv simp_thms)
qed

text \<open>The retransmission buffer is too small for the credit: with a window of \<open>w\<close> bytes, a
  client that takes \<open>w\<close> bytes and returns the credit before its (throttled) acknowledgement is
  processed lets the server send \<open>w\<close> more; the second frame does not fit the buffer, its loss
  there is ignored, and if the slot dies before delivering it, a RESUME resends only the first
  frame: the client never receives the second.\<close>

theorem tail_overflow_loses_frame:
  assumes "0 < w" "length d1 = w" "length d2 = w" "w < 2 ^ 32"
  shows "let e0 = newRelayEntry c sid nonce w (Some (newStreamCredit (int w))) b;
      e1 = snd (down_step (DData t1 d1) e0);
      e2 = snd (down_step (DCredit (of_nat w) (int w)) e1);
      e3 = snd (down_step (DData t2 d2) e2)
    in map_option (waitForCredit False) (credit e2) = Some (Some (int w)) \<and>
       fst (down_step (DData t2 d2) e2) = [DataSeq b sid \<lparr>df_seq = 2, df_data = d2\<rparr>] \<and>
       fst (down_step (DMove b' True) e3) = [DataSeq b' sid \<lparr>df_seq = 1, df_data = d1\<rparr>]"
proof -
  have u: "unat (of_nat w :: u32) = w" using assms(4) by (simp add: unat_of_nat)
  have ne: "d1 \<noteq> []" "d2 \<noteq> []" using assms(1-3) by auto
  define e1 where "e1 = snd (down_step (DData t1 d1) (newRelayEntry c sid nonce w (Some (newStreamCredit (int w))) b))"
  have e1: "credit e1 = Some \<lparr>available = 0, cr_closed = False\<rparr>" "bound e1 = Some b" "globalStreamID e1 = sid"
    "downSeqCounter e1 = 1" "bb_frames (unackedTail e1) = [\<lparr>df_seq = 1, df_data = d1\<rparr>]" "bb_bytes (unackedTail e1) = w"
    "bb_max (unackedTail e1) = w" "bb_frames (downBuffer e1) = []" "bb_bytes (downBuffer e1) = 0" "\<not> reader_closed e1" "rstate e1 = stActive"
    "\<not> destClosed e1"
    using ne assms(2) by (simp_all add: e1_def down_eval newRelayEntry_def newBoundedBuffer_def newStreamCredit_def credit_consume_def)
  then show ?thesis unfolding Let_def e1_def [symmetric] using ne assms(1,3) u
    by (simp add: down_eval credit_add_def waitForCredit_def reassociate_def drainAll_def tailFrames_def)
qed

theorem tail_overflow_loses_frame_witness:
  "fst (down_step (DMove 9 True) (snd (down_step (DData 2 [3, 4]) (snd (down_step (DCredit 2 2) (snd (down_step (DData 1 [1, 2])
     (newRelayEntry [99] 5 [] 2 (Some (newStreamCredit 2)) 8)))))))) = [DataSeq 9 5 \<lparr>df_seq = 1, df_data = [1, 2]\<rparr>]"
  using tail_overflow_loses_frame [of 2 "[1, 2]" "[3, 4]" "[99]" 5 "[]" 8 1 2 9] by (simp add: Let_def)

end
