(* ===== verification/Client_Streams.thy ===== *)
theory Client_Streams
  imports Frames "HOL-Library.AList"
begin

section \<open>Streams of the client: identifiers, channels and consumed-byte credit\<close>

text \<open>
  Models the per-stream state of \<open>src/client/client.go\<close> (\<open>NextStreamID\<close>, the two kinds of
  stream channel, routing of downlink frames, migration proofs, acknowledgement throttling)
  and the credit sender of \<open>src/client/stream_flow.go\<close>.  Go maps are association lists; a
  channel is the list of the items it holds, bounded by its capacity, and a send that finds
  it full takes the \<open>default\<close> branch of the \<open>select\<close>, which records the loss and drops the
  item.  The critical sections of \<open>streamMu\<close> are one definition each; \<open>now\<close> is what
  \<open>time.Now().UnixNano()\<close> returned.
\<close>

subsection \<open>State\<close>

record streamFlowState =
  pendingDelta :: u64
  flow_win :: u64
  lastSentNs :: int

record clientStreams =
  streamCounter :: u16
  streamChans :: "(u16 \<times> bytes list) list"
  streamFramesChans :: "(u16 \<times> (u64 \<times> bytes) list) list"
  streamFlow :: "(u16 \<times> streamFlowState) list"
  streamProof :: "(u16 \<times> bytes) list"
  streamAckLast :: "(u16 \<times> int) list"
  flowControlEnabled :: bool
  flowWindow :: u64
  overflows :: "(u16 \<times> nat) list"     \<comment> \<open>calls of \<open>recordBufferOverflow\<close>, newest first\<close>

definition newClientStreams :: clientStreams where
  "newClientStreams = \<lparr>streamCounter = 0, streamChans = [], streamFramesChans = [], streamFlow = [],
     streamProof = [], streamAckLast = [], flowControlEnabled = False, flowWindow = 0, overflows = []\<rparr>"

definition maxClientStreams :: nat where "maxClientStreams = 4096"
definition streamChanCap :: nat where "streamChanCap = 512"

definition maxFlowWindow :: u64 where "maxFlowWindow = 6 * 2 ^ 20"
definition creditWatchdogNs :: int where "creditWatchdogNs = 200 * 1000000"
definition creditFlushFloor :: u64 where "creditFlushFloor = 32 * 1024"
definition streamAckThrottleInterval :: int where "streamAckThrottleInterval = 50 * 1000000"

subsection \<open>Stream identifiers\<close>

definition id_in_use :: "clientStreams \<Rightarrow> u16 \<Rightarrow> bool" where
  "id_in_use c sid \<longleftrightarrow> sid \<in> fst ` set (streamChans c) \<or> sid \<in> fst ` set (streamFramesChans c)"

definition next_counter :: "u16 \<Rightarrow> u16" where
  "next_counter k = (if k + 1 = 0 then 1 else k + 1)"

text \<open>The loop body runs at most 65535 times; \<open>n\<close> is the number of rounds left.\<close>

fun next_id_loop :: "nat \<Rightarrow> (u16 \<Rightarrow> bool) \<Rightarrow> u16 \<Rightarrow> u16" where
  "next_id_loop 0 used k = k"
| "next_id_loop (Suc n) used k =
     (let k' = next_counter k in if \<not> used k' then k' else next_id_loop n used k')"

definition NextStreamID :: "clientStreams \<Rightarrow> u16 \<times> clientStreams" where
  "NextStreamID c =
     (let k = next_id_loop 65535 (id_in_use c) (streamCounter c) in (k, c\<lparr>streamCounter := k\<rparr>))"

subsection \<open>Registration and routing\<close>

definition arm_flow :: "u16 \<Rightarrow> clientStreams \<Rightarrow> clientStreams" where
  "arm_flow sid c =
     (if flowControlEnabled c
      then c\<lparr>streamFlow := AList.update sid \<lparr>pendingDelta = 0, flow_win = flowWindow c, lastSentNs = 0\<rparr>
               (streamFlow c)\<rparr>
      else c)"

definition RegisterStream :: "u16 \<Rightarrow> clientStreams \<Rightarrow> clientStreams option" where
  "RegisterStream sid c =
     (if length (streamChans c) \<ge> maxClientStreams then None
      else Some (arm_flow sid (c\<lparr>streamChans := AList.update sid [] (streamChans c)\<rparr>)))"

definition RegisterStreamSeq :: "u16 \<Rightarrow> clientStreams \<Rightarrow> clientStreams option" where
  "RegisterStreamSeq sid c =
     (if length (streamChans c) + length (streamFramesChans c) \<ge> maxClientStreams then None
      else Some (arm_flow sid (c\<lparr>streamFramesChans := AList.update sid [] (streamFramesChans c)\<rparr>)))"

definition UnregisterStream :: "u16 \<Rightarrow> clientStreams \<Rightarrow> clientStreams" where
  "UnregisterStream sid c =
     c\<lparr>streamChans := AList.delete sid (streamChans c),
       streamFramesChans := AList.delete sid (streamFramesChans c),
       streamFlow := AList.delete sid (streamFlow c),
       streamProof := AList.delete sid (streamProof c),
       streamAckLast := AList.delete sid (streamAckLast c),
       overflows := filter (\<lambda>(k, _). k \<noteq> sid) (overflows c)\<rparr>"

text \<open>The channel part of \<open>handleStreamClose\<close>: both channels are closed and forgotten.\<close>

definition close_chans :: "u16 \<Rightarrow> clientStreams \<Rightarrow> clientStreams" where
  "close_chans sid c =
     c\<lparr>streamChans := AList.delete sid (streamChans c),
       streamFramesChans := AList.delete sid (streamFramesChans c)\<rparr>"

definition HasStream :: "u16 \<Rightarrow> clientStreams \<Rightarrow> bool" where
  "HasStream sid c \<longleftrightarrow> map_of (streamChans c) sid \<noteq> None \<or> map_of (streamFramesChans c) sid \<noteq> None"

definition RouteToStream :: "u16 \<Rightarrow> bytes \<Rightarrow> clientStreams \<Rightarrow> clientStreams" where
  "RouteToStream sid data c =
     (case map_of (streamChans c) sid of
        None \<Rightarrow> c
      | Some q \<Rightarrow>
          if length q < streamChanCap then c\<lparr>streamChans := AList.update sid (q @ [data]) (streamChans c)\<rparr>
          else c\<lparr>overflows := (sid, length data) # overflows c\<rparr>)"

definition RouteToStreamSeq :: "u16 \<Rightarrow> u64 \<Rightarrow> bytes \<Rightarrow> clientStreams \<Rightarrow> clientStreams" where
  "RouteToStreamSeq sid seq data c =
     (case map_of (streamFramesChans c) sid of
        None \<Rightarrow> c
      | Some q \<Rightarrow>
          if length q < streamChanCap
          then c\<lparr>streamFramesChans := AList.update sid (q @ [(seq, data)]) (streamFramesChans c)\<rparr>
          else c\<lparr>overflows := (sid, length data) # overflows c\<rparr>)"

subsection \<open>Control messages and proofs\<close>

definition connectOKMarker :: bytes where
  "connectOKMarker = [0x43, 0x4F, 0x4E, 0x4E, 0x45, 0x43, 0x54, 0x5F, 0x4F, 0x4B]"   \<comment> \<open>CONNECT_OK\<close>

definition connectFailMarker :: bytes where
  "connectFailMarker = [0x43, 0x4F, 0x4E, 0x4E, 0x45, 0x43, 0x54, 0x5F, 0x46, 0x41, 0x49, 0x4C]"   \<comment> \<open>CONNECT_FAIL\<close>

definition parseConnectOKProof :: "bytes \<Rightarrow> bytes option" where
  "parseConnectOKProof body =
     (if length body \<noteq> length connectOKMarker + 32 then None
      else if take (length connectOKMarker) body \<noteq> connectOKMarker then None
      else Some (drop (length connectOKMarker) body))"

definition isStreamControlMsg :: "bytes \<Rightarrow> bool" where
  "isStreamControlMsg body \<longleftrightarrow> body = connectOKMarker \<or> body = connectFailMarker \<or>
     parseConnectOKProof body \<noteq> None"

definition StoreStreamProof :: "u16 \<Rightarrow> bytes \<Rightarrow> clientStreams \<Rightarrow> clientStreams" where
  "StoreStreamProof sid proof c = c\<lparr>streamProof := AList.update sid proof (streamProof c)\<rparr>"

definition StreamProof :: "clientStreams \<Rightarrow> u16 \<Rightarrow> bytes option" where
  "StreamProof c sid = map_of (streamProof c) sid"

text \<open>
  The throttle of \<open>sendStreamAckThrottled\<close>; \<open>jitter\<close> is the random part of its window,
  between 0 and half the interval.  The first component says whether the acknowledgement
  is sent.
\<close>

definition sendStreamAckThrottled :: "int \<Rightarrow> int \<Rightarrow> u16 \<Rightarrow> bool \<Rightarrow> clientStreams \<Rightarrow> bool \<times> clientStreams" where
  "sendStreamAckThrottled now jitter sid forced c =
     (let window = streamAckThrottleInterval + jitter;
          skip = (\<not> forced \<and> (case map_of (streamAckLast c) sid of
                                 None \<Rightarrow> False | Some prev \<Rightarrow> now - prev < window))
      in if skip then (False, c)
         else (True, c\<lparr>streamAckLast := AList.update sid now (streamAckLast c)\<rparr>))"

subsection \<open>Credit sender (stream\_flow.go)\<close>

definition clampFlowWindow :: "u64 \<Rightarrow> u64" where
  "clampFlowWindow w = (if w > maxFlowWindow then maxFlowWindow else w)"

text \<open>\<open>flowWindowFromEnv\<close> after \<open>TrimSpace\<close>; \<open>parse\<close> is \<open>strconv.ParseUint\<close>.\<close>

definition flowWindowFromEnv :: "(bytes \<Rightarrow> u64 option) \<Rightarrow> bytes \<Rightarrow> u64 \<Rightarrow> u64" where
  "flowWindowFromEnv parse v dflt =
     (if v = [] then clampFlowWindow dflt
      else case parse v of
             None \<Rightarrow> clampFlowWindow dflt
           | Some n \<Rightarrow> if n = 0 then 0 else clampFlowWindow n)"

definition EnableFlowControl :: "u64 \<Rightarrow> clientStreams \<Rightarrow> clientStreams" where
  "EnableFlowControl window c =
     (if flowControlEnabled c then c else c\<lparr>flowControlEnabled := True, flowWindow := window\<rparr>)"

definition OnStreamConsumed :: "u16 \<Rightarrow> int \<Rightarrow> clientStreams \<Rightarrow> clientStreams" where
  "OnStreamConsumed sid n c =
     (if \<not> flowControlEnabled c \<or> n \<le> 0 then c
      else case map_of (streamFlow c) sid of
             None \<Rightarrow> c
           | Some st \<Rightarrow> c\<lparr>streamFlow :=
               AList.update sid (st\<lparr>pendingDelta := pendingDelta st + of_int n\<rparr>) (streamFlow c)\<rparr>)"

text \<open>
  One stream of a tick.  \<open>send\<close> is \<open>sendWindowUpdate\<close>, which may change the transport state
  \<open>t\<close> and says whether the frame was enqueued; the delta it gets is cut to 32 bits.
\<close>

definition credit_due :: "int \<Rightarrow> streamFlowState \<Rightarrow> bool" where
  "credit_due now st \<longleftrightarrow> pendingDelta st \<noteq> 0 \<and>
     \<not> (pendingDelta st < creditFlushFloor \<and>
        \<not> (lastSentNs st \<noteq> 0 \<and> now - lastSentNs st \<ge> creditWatchdogNs))"

definition credit_item ::
  "(u16 \<Rightarrow> u32 \<Rightarrow> 't \<Rightarrow> bool \<times> 't) \<Rightarrow> int \<Rightarrow> u16 \<times> streamFlowState \<Rightarrow> 't \<Rightarrow> streamFlowState \<times> 't" where
  "credit_item send now it t =
     (let (sid, st) = it
      in if \<not> credit_due now st then (st, t)
         else let (ok, t') = send sid (ucast (pendingDelta st)) t
              in (if ok then st\<lparr>pendingDelta := 0, lastSentNs := now\<rparr> else st, t'))"

fun credit_scan ::
  "(u16 \<Rightarrow> u32 \<Rightarrow> 't \<Rightarrow> bool \<times> 't) \<Rightarrow> int \<Rightarrow> (u16 \<times> streamFlowState) list \<Rightarrow> 't \<Rightarrow>
   (u16 \<times> streamFlowState) list \<times> 't" where
  "credit_scan send now [] t = ([], t)"
| "credit_scan send now ((sid, st) # its) t =
     (let (st', t1) = credit_item send now (sid, st) t;
          (its', t2) = credit_scan send now its t1
      in ((sid, st') # its', t2))"

definition creditSenderTick ::
  "(u16 \<Rightarrow> u32 \<Rightarrow> 't \<Rightarrow> bool \<times> 't) \<Rightarrow> int \<Rightarrow> clientStreams \<Rightarrow> 't \<Rightarrow> clientStreams \<times> 't" where
  "creditSenderTick send now c t =
     (let (fl, t') = credit_scan send now (streamFlow c) t in (c\<lparr>streamFlow := fl\<rparr>, t'))"

subsection \<open>Identifiers are fresh\<close>

lemma unat_numeral_eq_65535: "unat (65535 :: u16) = 65535"
  by simp

lemma unat_next_counter: "unat (next_counter k) = unat k mod 65535 + 1"
proof (cases "k = 65535")
  case False
  then have "unat k \<noteq> 65535" by (metis unsigned_word_eqI unat_numeral_eq_65535)
  then have "unat k < 65535" using unat_bound [of k] by simp
  then have "unat (k + 1) = unat k + 1" by (simp add: unat_word_ariths)
  then show ?thesis using \<open>unat k < 65535\<close> by (auto simp: next_counter_def)
qed (simp add: next_counter_def)

lemma next_counter_nonzero: "next_counter k \<noteq> 0"
  using unat_next_counter [of k] by auto

lemma unat_next_counter_iter:
  "unat ((next_counter ^^ Suc n) k) = (unat k + n) mod 65535 + 1"
proof (induction n)
  case (Suc n)
  have "unat ((next_counter ^^ Suc (Suc n)) k) = Suc ((unat k + n) mod 65535) mod 65535 + 1"
    using Suc by (simp add: unat_next_counter)
  then show ?case by (simp add: mod_Suc_eq)
qed (simp add: unat_next_counter)

lemma next_id_loop_finds:
  assumes "\<not> used ((next_counter ^^ Suc m) k)" "m < n"
  shows "\<not> used (next_id_loop n used k) \<and> next_id_loop n used k \<noteq> 0"
  using assms
proof (induction n arbitrary: m k)
  case (Suc n)
  show ?case
  proof (cases "used (next_counter k)")
    case True
    then obtain m' where m: "m = Suc m'" using Suc.prems(1) by (cases m) auto
    have "\<not> used ((next_counter ^^ Suc m') (next_counter k))"
      using Suc.prems(1) by (simp add: m funpow_swap1)
    then show ?thesis using Suc.IH [of m' "next_counter k"] Suc.prems(2) True by (simp add: m Let_def)
  qed (simp add: Let_def next_counter_nonzero)
qed simp

text \<open>Every nonzero identifier is tried within the 65535 rounds.\<close>

lemma next_counter_reaches:
  assumes "sid \<noteq> 0" obtains m where "m < 65535" "(next_counter ^^ Suc m) k = sid"
proof -
  have s: "1 \<le> unat sid" "unat sid < 65536"
    using assms unat_bound [of sid] by (auto simp: unat_gt_0 Suc_le_eq)
  define m where "m = (unat sid - 1 + (65536 * 65535 - unat k)) mod 65535"
  have k: "unat k < 65536" using unat_bound [of k] by simp
  have "(unat k + m) mod 65535 = (unat k + (unat sid - 1 + (65536 * 65535 - unat k))) mod 65535"
    by (simp add: m_def mod_simps)
  also have "\<dots> = (unat sid - 1 + 65536 * 65535) mod 65535" using k by (simp add: algebra_simps)
  also have "\<dots> = unat sid - 1" using s mod_mult_self1 [of "unat sid - 1" 65536 65535] by simp
  finally have "unat ((next_counter ^^ Suc m) k) = unat sid"
    using s unat_next_counter_iter [of m k] by simp
  then show ?thesis using that [of m] by (simp add: m_def unsigned_word_eqI)
qed

lemma NextStreamID_unused:
  assumes "sid \<noteq> 0" "\<not> id_in_use c sid"
  shows "\<not> id_in_use c (fst (NextStreamID c)) \<and> fst (NextStreamID c) \<noteq> 0"
proof -
  obtain m where "m < 65535" "(next_counter ^^ Suc m) (streamCounter c) = sid"
    using next_counter_reaches [OF assms(1)] .
  then show ?thesis
    using next_id_loop_finds [of "id_in_use c" m "streamCounter c" 65535] assms(2)
    by (simp add: NextStreamID_def Let_def)
qed

text \<open>
  Runs of the identifier allocator and the two registrations.  Neither table outgrows its
  limit, so the loop of \<open>NextStreamID\<close> always finds a free identifier.
\<close>

datatype table_op = OpNextID | OpRegister u16 | OpRegisterSeq u16 | OpUnregister u16 | OpCloseChans u16

fun table_step :: "table_op \<Rightarrow> clientStreams \<Rightarrow> clientStreams" where
  "table_step OpNextID c = snd (NextStreamID c)"
| "table_step (OpRegister sid) c = (case RegisterStream sid c of None \<Rightarrow> c | Some c' \<Rightarrow> c')"
| "table_step (OpRegisterSeq sid) c = (case RegisterStreamSeq sid c of None \<Rightarrow> c | Some c' \<Rightarrow> c')"
| "table_step (OpUnregister sid) c = UnregisterStream sid c"
| "table_step (OpCloseChans sid) c = close_chans sid c"

definition table_run :: "table_op list \<Rightarrow> clientStreams" where
  "table_run ops = fold table_step ops newClientStreams"

definition tables_bounded :: "clientStreams \<Rightarrow> bool" where
  "tables_bounded c \<longleftrightarrow> length (streamChans c) \<le> maxClientStreams \<and> length (streamFramesChans c) \<le> maxClientStreams"

lemma length_update_le: "length (AList.update k v xs) \<le> Suc (length xs)"
  by (induction xs) auto

lemma length_delete_le: "length (AList.delete k xs) \<le> length xs"
  by (simp add: AList.delete_eq)

lemma tables_bounded_step: "tables_bounded c \<Longrightarrow> tables_bounded (table_step op c)"
proof (cases op)
  case (OpRegister sid)
  assume "tables_bounded c"
  then show ?thesis
    using OpRegister length_update_le [of sid "[]" "streamChans c"]
    by (auto simp: tables_bounded_def RegisterStream_def arm_flow_def)
next
  case (OpRegisterSeq sid)
  assume "tables_bounded c"
  then show ?thesis
    using OpRegisterSeq length_update_le [of sid "[]" "streamFramesChans c"]
    by (auto simp: tables_bounded_def RegisterStreamSeq_def arm_flow_def)
qed (auto simp: tables_bounded_def NextStreamID_def Let_def UnregisterStream_def close_chans_def
    intro: le_trans [OF length_delete_le])

lemma tables_bounded_run: "tables_bounded (table_run ops)"
proof -
  have "tables_bounded c \<Longrightarrow> tables_bounded (fold table_step ops c)" for c
    by (induction ops arbitrary: c) (simp_all add: tables_bounded_step)
  then show ?thesis by (simp add: table_run_def tables_bounded_def newClientStreams_def)
qed

lemma free_id_exists:
  assumes "tables_bounded c" shows "\<exists>sid. sid \<noteq> 0 \<and> \<not> id_in_use c sid"
proof (rule ccontr)
  let ?used = "insert 0 (fst ` set (streamChans c) \<union> fst ` set (streamFramesChans c))"
  assume "\<not> ?thesis"
  then have "UNIV = ?used" by (auto simp: id_in_use_def)
  then have "CARD(u16) = card ?used" by simp
  also have "\<dots> \<le> Suc (card (fst ` set (streamChans c)) + card (fst ` set (streamFramesChans c)))"
    using card_Un_le [of "fst ` set (streamChans c)" "fst ` set (streamFramesChans c)"]
    by (simp add: card_insert_if)
  also have "\<dots> \<le> Suc (maxClientStreams + maxClientStreams)"
    using assms card_image_le [of "set (streamChans c)" fst] card_image_le [of "set (streamFramesChans c)" fst]
      card_length [of "streamChans c"] card_length [of "streamFramesChans c"]
    by (simp add: tables_bounded_def)
  finally show False by (simp add: maxClientStreams_def card_word)
qed

text \<open>In every run of the stream table, \<open>NextStreamID\<close> returns an identifier that is not zero and
  that no registered stream of either kind uses; its fallback is never taken.
\<close>

theorem stream_ids_fresh:
  "fst (NextStreamID (table_run ops)) \<noteq> 0 \<and> \<not> id_in_use (table_run ops) (fst (NextStreamID (table_run ops)))"
  using free_id_exists [OF tables_bounded_run, of ops] NextStreamID_unused by blast

subsection \<open>Channels overflow by frames, not by bytes\<close>

lemma RouteToStream_fold:
  "map_of (streamChans c) sid = Some q \<Longrightarrow> length q \<le> streamChanCap \<Longrightarrow>
   map_of (streamChans (fold (RouteToStream sid) ds c)) sid = Some (take streamChanCap (q @ ds))"
proof (induction ds arbitrary: c q)
  case (Cons d ds)
  show ?case
  proof (cases "length q < streamChanCap")
    case True
    then have "map_of (streamChans (RouteToStream sid d c)) sid = Some (q @ [d])"
      using Cons.prems by (simp add: RouteToStream_def update_conv')
    from Cons.IH [OF this] True show ?thesis by simp
  next
    case False
    then have "map_of (streamChans (RouteToStream sid d c)) sid = Some q"
      using Cons.prems by (simp add: RouteToStream_def)
    from Cons.IH [OF this Cons.prems(2)] False Cons.prems(2) show ?thesis by simp
  qed
qed simp

text \<open>A stream that is behind keeps exactly the first 512 of the frames routed to it and loses the
  others, whatever their size: frames far below the flow-control window overflow the channel.
\<close>

theorem small_frames_overflow:
  assumes "map_of (streamChans c) sid = Some []" "streamChanCap < length ds"
  shows "map_of (streamChans (fold (RouteToStream sid) ds c)) sid = Some (take 512 ds) \<and>
     take 512 ds \<noteq> ds"
  using RouteToStream_fold [OF assms(1), of ds] assms(2) by (auto simp: streamChanCap_def take_all_iff dest: arg_cong [of _ _ length])

theorem small_frames_overflow_witness:
  "\<exists>ds :: bytes list. sum_list (map length ds) < unat maxFlowWindow \<and>
     (\<exists>c. map_of (streamChans (fold (RouteToStream 5) ds c)) 5 = Some (take 512 ds) \<and> take 512 ds \<noteq> ds)"
proof -
  define ds :: "bytes list" where "ds = replicate 513 [1]"
  have "map_of (streamChans (newClientStreams\<lparr>streamChans := [(5, [])]\<rparr>)) 5 = Some []" "streamChanCap < length ds"
    by (simp_all add: ds_def streamChanCap_def)
  from small_frames_overflow [OF this]
  have "map_of (streamChans (fold (RouteToStream 5) ds (newClientStreams\<lparr>streamChans := [(5, [])]\<rparr>))) 5 = Some (take 512 ds)"
    "take 512 ds \<noteq> ds" by auto
  moreover have "sum_list (map length ds) < unat maxFlowWindow"
    by (simp add: ds_def sum_list_replicate maxFlowWindow_def)
  ultimately show ?thesis by blast
qed

end
