(* ===== verification/Flow_Control.thy ===== *)
theory Flow_Control
  imports Client_Streams Stream_Credit
begin

section \<open>Flow control end to end\<close>

text \<open>
  Closes the loop between the credit sender of the client (\<open>Client_Streams\<close>) and the send
  credit of the server (\<open>Stream_Credit\<close>) for one stream.  The relay loop reads at most the
  credit it was given and consumes it; the application consumes bytes that arrived, which is
  \<open>OnStreamConsumed\<close>; a tick of the credit sender turns consumed bytes into WINDOW\_UPDATE
  frames, which the server adds to the credit.  Nothing bounds how long a frame is on the
  way, and a tick may fail to enqueue its frame.

  Shown: the bytes of a window are conserved, so a stream never holds more than its window of
  unconsumed data; and whether a stream that has used up its credit gets any back depends on
  the negotiated window alone.
\<close>

record flowLoop =
  fl_credit :: streamCredit
  fl_wire :: int                        \<comment> \<open>bytes read by the relay, not yet consumed by the application\<close>
  fl_client :: clientStreams
  fl_updates :: "(u16 \<times> u32) list"      \<comment> \<open>WINDOW\_UPDATE frames on the way to the server\<close>

datatype flow_op =
    FlowSend nat                        \<comment> \<open>the relay reads and sends that many bytes\<close>
  | FlowConsume nat                     \<comment> \<open>the application consumes that many bytes\<close>
  | FlowTick int "u16 \<Rightarrow> bool"           \<comment> \<open>a tick at that instant; which streams' frames can be enqueued\<close>
  | FlowUpdate                          \<comment> \<open>the server handles the oldest WINDOW\_UPDATE\<close>

definition enqueue_update :: "(u16 \<Rightarrow> bool) \<Rightarrow> u16 \<Rightarrow> u32 \<Rightarrow> (u16 \<times> u32) list \<Rightarrow> bool \<times> (u16 \<times> u32) list" where
  "enqueue_update okf k d t = (if okf k then (True, t @ [(k, d)]) else (False, t))"

fun flow_step :: "u32 \<Rightarrow> u16 \<Rightarrow> flow_op \<Rightarrow> flowLoop \<Rightarrow> flowLoop" where
  "flow_step w sid (FlowSend n) s =
     (case waitForCredit False (fl_credit s) of
        Some got \<Rightarrow> if 0 < got \<and> int n \<le> got
                    then s\<lparr>fl_credit := credit_consume n (fl_credit s), fl_wire := fl_wire s + int n\<rparr> else s
      | None \<Rightarrow> s)"
| "flow_step w sid (FlowConsume n) s =
     (if int n \<le> fl_wire s
      then s\<lparr>fl_wire := fl_wire s - int n, fl_client := OnStreamConsumed sid (int n) (fl_client s)\<rparr> else s)"
| "flow_step w sid (FlowTick now okf) s =
     (let (c, t) = creditSenderTick (enqueue_update okf) now (fl_client s) (fl_updates s)
      in s\<lparr>fl_client := c, fl_updates := t\<rparr>)"
| "flow_step w sid FlowUpdate s =
     (case fl_updates s of
        [] \<Rightarrow> s
      | (k, d) # us \<Rightarrow>
          s\<lparr>fl_updates := us,
            fl_credit := (if k = sid then credit_add d (uint w) (fl_credit s) else fl_credit s)\<rparr>)"

definition flow_run :: "u32 \<Rightarrow> u16 \<Rightarrow> flow_op list \<Rightarrow> flowLoop \<Rightarrow> flowLoop" where
  "flow_run w sid ops s = fold (flow_step w sid) ops s"

text \<open>The loop of a stream that was registered after flow control was negotiated with window \<open>w\<close>.\<close>

definition flow_start :: "u32 \<Rightarrow> u16 \<Rightarrow> clientStreams \<Rightarrow> flowLoop" where
  "flow_start w sid c = \<lparr>fl_credit = newStreamCredit (uint w), fl_wire = 0, fl_client = c, fl_updates = []\<rparr>"

definition fresh_flow :: "u32 \<Rightarrow> u16 \<Rightarrow> clientStreams \<Rightarrow> bool" where
  "fresh_flow w sid c \<longleftrightarrow> flowControlEnabled c \<and> distinct (map fst (streamFlow c)) \<and>
     map_of (streamFlow c) sid = Some \<lparr>pendingDelta = 0, flow_win = ucast w, lastSentNs = 0\<rparr>"

definition updates_for :: "u16 \<Rightarrow> (u16 \<times> u32) list \<Rightarrow> int" where
  "updates_for sid us = sum_list (map (\<lambda>(k, d). if k = sid then uint d else 0) us)"

lemma updates_for_simps [simp]:
  "updates_for sid [] = 0"
  "updates_for sid ((k, d) # us) = (if k = sid then uint d else 0) + updates_for sid us"
  "updates_for sid (us @ vs) = updates_for sid us + updates_for sid vs"
  by (simp_all add: updates_for_def)

lemma updates_for_nonneg: "0 \<le> updates_for sid us"
  unfolding updates_for_def by (induction us) auto

lemma enqueue_simps:
  "fst (enqueue_update okf k d t) = okf k"
  "snd (enqueue_update okf k d t) = (if okf k then t @ [(k, d)] else t)"
  by (simp_all add: enqueue_update_def)

subsection \<open>What a tick does to one stream\<close>

lemma credit_scan_keys [simp]: "map fst (fst (credit_scan send now its t)) = map fst its"
  by (induction its arbitrary: t) (auto simp: split_def Let_def)

lemma credit_scan_other:
  "sid \<notin> fst ` set its \<Longrightarrow>
   updates_for sid (snd (credit_scan (enqueue_update okf) now its t)) = updates_for sid t"
  by (induction its arbitrary: t) (auto simp: split_def Let_def credit_item_def enqueue_simps)

lemma credit_scan_stream:
  assumes "distinct (map fst its)" "map_of its sid = Some st"
  shows "map_of (fst (credit_scan (enqueue_update okf) now its t)) sid =
           Some (if credit_due now st \<and> okf sid then st\<lparr>pendingDelta := 0, lastSentNs := now\<rparr> else st) \<and>
         updates_for sid (snd (credit_scan (enqueue_update okf) now its t)) =
           updates_for sid t + (if credit_due now st \<and> okf sid then uint (ucast (pendingDelta st) :: u32) else 0)"
  using assms
proof (induction its arbitrary: t)
  case (Cons p its)
  obtain k st' where p: "p = (k, st')" by (cases p)
  show ?case
  proof (cases "k = sid")
    case True
    then have "sid \<notin> fst ` set its" "st' = st" using Cons.prems p by auto
    then show ?thesis
      using True p by (auto simp: split_def Let_def credit_item_def enqueue_simps credit_scan_other)
  next
    case False
    then have "map_of its sid = Some st" "distinct (map fst its)" using Cons.prems p by auto
    then show ?thesis
      using Cons.IH False p by (auto simp: split_def Let_def credit_item_def enqueue_simps)
  qed
qed simp

subsection \<open>Conservation\<close>

definition flow_inv :: "u32 \<Rightarrow> u16 \<Rightarrow> flowLoop \<Rightarrow> bool" where
  "flow_inv w sid s \<longleftrightarrow> flowControlEnabled (fl_client s) \<and> distinct (map fst (streamFlow (fl_client s))) \<and>
     0 \<le> available (fl_credit s) \<and> \<not> cr_closed (fl_credit s) \<and> 0 \<le> fl_wire s \<and>
     (\<exists>st. map_of (streamFlow (fl_client s)) sid = Some st \<and>
        available (fl_credit s) + fl_wire s + uint (pendingDelta st) + updates_for sid (fl_updates s)
          = uint w)"

lemma flow_invE:
  assumes "flow_inv w sid s"
  obtains st where "map_of (streamFlow (fl_client s)) sid = Some st"
    "available (fl_credit s) + fl_wire s + uint (pendingDelta st) + updates_for sid (fl_updates s)
       = uint w"
    "0 \<le> available (fl_credit s)" "0 \<le> fl_wire s" "\<not> cr_closed (fl_credit s)"
    "flowControlEnabled (fl_client s)" "distinct (map fst (streamFlow (fl_client s)))"
  using assms unfolding flow_inv_def by blast

lemma flow_inv_start: "fresh_flow w sid c \<Longrightarrow> flow_inv w sid (flow_start w sid c)"
  by (simp add: flow_inv_def flow_start_def fresh_flow_def newStreamCredit_def)

lemma uint_add_consumed:
  assumes "uint (x :: u64) + int n < 2 ^ 64"
  shows "uint (x + of_int (int n)) = uint x + int n"
proof -
  have "uint (of_nat n :: u64) = int n mod 2 ^ 64" by (simp add: unsigned_of_nat take_bit_eq_mod zmod_int)
  moreover have "int n < 2 ^ 64" using assms uint_nonnegative [of x] by linarith
  ultimately show ?thesis using assms by (simp add: uint_word_ariths)
qed

lemma uint_w_bound: "uint (w :: u32) < 2 ^ 32" "0 \<le> uint (v :: 'a::len word)"
  using uint_bounded [of w] by simp_all

lemma distinct_AList_update: "distinct (map fst xs) \<Longrightarrow> distinct (map fst (AList.update k v xs))"
  by (rule AList.distinct_update)

lemma flow_inv_consume:
  assumes "flow_inv w sid s" shows "flow_inv w sid (flow_step w sid (FlowConsume n) s)"
proof (cases "int n \<le> fl_wire s \<and> 0 < n")
  case True
  obtain st where st: "map_of (streamFlow (fl_client s)) sid = Some st"
    "available (fl_credit s) + fl_wire s + uint (pendingDelta st) + updates_for sid (fl_updates s)
       = uint w"
    and r: "0 \<le> available (fl_credit s)" "0 \<le> fl_wire s" "\<not> cr_closed (fl_credit s)"
    "flowControlEnabled (fl_client s)" "distinct (map fst (streamFlow (fl_client s)))"
    using flow_invE [OF assms] .
  have "uint (pendingDelta st) + int n < 2 ^ 64"
    using st(2) r True uint_w_bound(1) [of w] updates_for_nonneg [of sid "fl_updates s"] by simp
  then have u: "uint (pendingDelta st + of_int (int n)) = uint (pendingDelta st) + int n"
    by (rule uint_add_consumed)
  then show ?thesis
    using True st r by (simp add: flow_inv_def OnStreamConsumed_def update_conv' distinct_AList_update)
next
  case False
  then show ?thesis using assms by (auto simp: OnStreamConsumed_def)
qed

lemma flow_inv_tick:
  assumes "flow_inv w sid s" shows "flow_inv w sid (flow_step w sid (FlowTick now okf) s)"
proof -
  obtain st where st: "map_of (streamFlow (fl_client s)) sid = Some st"
    "available (fl_credit s) + fl_wire s + uint (pendingDelta st) + updates_for sid (fl_updates s)
       = uint w"
    and r: "0 \<le> available (fl_credit s)" "0 \<le> fl_wire s" "\<not> cr_closed (fl_credit s)"
    "flowControlEnabled (fl_client s)" "distinct (map fst (streamFlow (fl_client s)))"
    using flow_invE [OF assms] .
  have "uint (pendingDelta st) < 2 ^ 32"
    using st(2) r uint_w_bound(1) [of w] updates_for_nonneg [of sid "fl_updates s"] by simp
  then have "uint (ucast (pendingDelta st) :: u32) = uint (pendingDelta st)"
    by (simp add: unsigned_ucast_eq take_bit_int_eq_self)
  then show ?thesis
    using r st(2) credit_scan_stream [OF r(5) st(1), of okf now "fl_updates s"]
    by (cases "credit_due now st \<and> okf sid")
      (auto simp: flow_inv_def creditSenderTick_def split_def Let_def simp del: map_of_eq_Some_iff)
qed

lemma flow_inv_step: "flow_inv w sid s \<Longrightarrow> flow_inv w sid (flow_step w sid op s)"
proof (cases op)
  case (FlowSend n)
  assume "flow_inv w sid s"
  then show ?thesis
    using FlowSend by (auto simp: flow_inv_def waitForCredit_def credit_consume_def)
next
  case FlowUpdate
  assume i: "flow_inv w sid s"
  then obtain st where st: "map_of (streamFlow (fl_client s)) sid = Some st"
    "available (fl_credit s) + fl_wire s + uint (pendingDelta st) + updates_for sid (fl_updates s)
       = uint w"
    and r: "0 \<le> available (fl_credit s)" "0 \<le> fl_wire s" "\<not> cr_closed (fl_credit s)"
    "flowControlEnabled (fl_client s)" "distinct (map fst (streamFlow (fl_client s)))"
    using flow_invE by metis
  show ?thesis
  proof (cases "fl_updates s")
    case (Cons u us)
    obtain k d where "u = (k, d)" by (cases u)
    moreover have "available (fl_credit s) + uint d \<le> 2 * uint w" if "k = sid"
      using st(2) r that updates_for_nonneg [of sid us] uint_w_bound(2) [of "pendingDelta st"]
        uint_w_bound(2) [of w] \<open>u = (k, d)\<close> Cons
      by (simp only: updates_for_simps simp_thms if_True)
    ultimately show ?thesis
      using FlowUpdate Cons st r by (auto simp: flow_inv_def credit_add_def Let_def)
  qed (use FlowUpdate i in simp)
qed (simp_all only: flow_inv_consume flow_inv_tick)

lemma flow_inv_run: "flow_inv w sid s \<Longrightarrow> flow_inv w sid (flow_run w sid ops s)"
  unfolding flow_run_def by (induction ops arbitrary: s) (auto simp: flow_inv_step)

subsection \<open>Credit comes back, if the window is not too small\<close>

lemma flow_run_simps [simp]:
  "flow_run w sid [] s = s"
  "flow_run w sid (op # ops) s = flow_run w sid ops (flow_step w sid op s)"
  by (simp_all add: flow_run_def)

lemma drain_updates:
  "fl_updates (flow_run w sid (replicate (length (fl_updates s)) FlowUpdate) s) = [] \<and>
   fl_client (flow_run w sid (replicate (length (fl_updates s)) FlowUpdate) s) = fl_client s \<and>
   fl_wire (flow_run w sid (replicate (length (fl_updates s)) FlowUpdate) s) = fl_wire s"
proof (induction "fl_updates s" arbitrary: s)
  case (Cons u us)
  obtain k d where u: "u = (k, d)" by (cases u)
  show ?case
    using Cons.hyps(1) [of "flow_step w sid FlowUpdate s"] Cons.hyps(2) u
    by (simp flip: Cons.hyps(2))
qed simp

text \<open>
  A stream whose credit is used up, whose data the application has consumed and which has no
  update on the way has its whole window waiting in \<open>pendingDelta\<close>.
\<close>

lemma blocked_pending:
  assumes "flow_inv w sid s" "available (fl_credit s) = 0" "fl_wire s = 0" "updates_for sid (fl_updates s) = 0"
  obtains st where "map_of (streamFlow (fl_client s)) sid = Some st" "uint (pendingDelta st) = uint w"
proof -
  obtain st where "map_of (streamFlow (fl_client s)) sid = Some st"
    "available (fl_credit s) + fl_wire s + uint (pendingDelta st) + updates_for sid (fl_updates s) = uint w"
    using flow_invE [OF assms(1)] by blast
  then show ?thesis using that [of st] assms(2-4) by simp
qed

lemma credit_returned:
  assumes i: "flow_inv w sid s" and b: "available (fl_credit s) = 0" "fl_wire s = 0"
    "updates_for sid (fl_updates s) = 0"
    and w: "uint creditFlushFloor \<le> uint w" and ok: "okf sid"
    and s1_def: "s1 = flow_step w sid (FlowTick now okf) s"
  shows "available (fl_credit (flow_run w sid (replicate (length (fl_updates s1)) FlowUpdate) s1)) = uint w"
proof -
  obtain st where st: "map_of (streamFlow (fl_client s)) sid = Some st" "uint (pendingDelta st) = uint w"
    using blocked_pending [OF i b] .
  have "uint (pendingDelta st) \<ge> uint creditFlushFloor" using st w by simp
  then have due: "credit_due now st"
    by (auto simp: credit_due_def word_less_def creditFlushFloor_def)
  define s2 where "s2 = flow_run w sid (replicate (length (fl_updates s1)) FlowUpdate) s1"
  have d: "distinct (map fst (streamFlow (fl_client s)))" using i by (simp add: flow_inv_def)
  have c1: "map_of (streamFlow (fl_client s1)) sid = Some (st\<lparr>pendingDelta := 0, lastSentNs := now\<rparr>)"
    using credit_scan_stream [OF d st(1), of okf now "fl_updates s"] due ok
    by (simp add: s1_def creditSenderTick_def split_def Let_def)
  have w1: "fl_wire s1 = 0" using b by (simp add: s1_def split_def Let_def)
  have "flow_inv w sid s1" using flow_inv_tick [OF i] by (simp only: s1_def)
  then have "flow_inv w sid s2" unfolding s2_def by (rule flow_inv_run)
  then show ?thesis
    using drain_updates [of w sid s1] c1 w1 unfolding s2_def [symmetric] by (auto elim!: flow_invE)
qed



text \<open>
  Below that size the loop stops for good: the consumed bytes never reach the 32 KiB that make
  a tick send, and the watchdog for waiting tails only watches streams that have sent an
  update before.
\<close>

definition stuck :: "u32 \<Rightarrow> u16 \<Rightarrow> flowLoop \<Rightarrow> bool" where
  "stuck w sid s \<longleftrightarrow> flow_inv w sid s \<and>
     (\<exists>st. map_of (streamFlow (fl_client s)) sid = Some st \<and> uint (pendingDelta st) = uint w \<and> lastSentNs st = 0)"

lemma stuckD:
  assumes "stuck w sid s"
  shows "available (fl_credit s) = 0 \<and> fl_wire s = 0 \<and> updates_for sid (fl_updates s) = 0"
proof -
  obtain st where "map_of (streamFlow (fl_client s)) sid = Some st" "uint (pendingDelta st) = uint w"
    and i: "flow_inv w sid s"
    using assms by (auto simp: stuck_def)
  then have "available (fl_credit s) + fl_wire s + updates_for sid (fl_updates s) = 0"
    by (auto simp: flow_inv_def)
  moreover have "0 \<le> available (fl_credit s)" "0 \<le> fl_wire s" using i by (auto simp: flow_inv_def)
  ultimately show ?thesis using updates_for_nonneg [of sid "fl_updates s"] by linarith
qed

lemma stuck_step:
  assumes "stuck w sid s" "uint w < uint creditFlushFloor"
  shows "stuck w sid (flow_step w sid op s)"
proof -
  obtain st where st: "map_of (streamFlow (fl_client s)) sid = Some st" "uint (pendingDelta st) = uint w"
    "lastSentNs st = 0" and i: "flow_inv w sid s"
    using assms(1) by (auto simp: stuck_def)
  have nd: "\<not> credit_due now st" for now
    using st assms(2) by (simp add: credit_due_def word_less_def)
  have d: "distinct (map fst (streamFlow (fl_client s)))" using i by (simp add: flow_inv_def)
  have "map_of (streamFlow (fl_client (flow_step w sid op s))) sid = Some st"
  proof (cases op)
    case (FlowTick now okf)
    then show ?thesis
      using credit_scan_stream [OF d st(1), of okf now "fl_updates s"] nd [of now]
      by (simp add: creditSenderTick_def split_def Let_def)
  next
    case (FlowConsume n)
    then show ?thesis using st stuckD [OF assms(1)] by (auto simp: OnStreamConsumed_def)
  qed (use st in \<open>auto simp: split_def split: option.split list.split\<close>)
  then show ?thesis using flow_inv_step [OF i] st by (simp add: stuck_def)
qed

lemma stuck_run:
  assumes "stuck w sid s" "uint w < uint creditFlushFloor"
  shows "stuck w sid (flow_run w sid ops s)"
  using assms by (induction ops arbitrary: s) (auto simp: stuck_step)

text \<open>A negotiated window below 32 KiB wedges a stream: once the relay has sent a full window and
  the application has consumed all of it, no later sequence of ticks, updates and reads, at
  whatever instants, ever gives the relay credit again, although every consumed byte was
  reported.
\<close>

theorem small_window_wedges:
  assumes "fresh_flow w sid c" "w \<noteq> 0" "uint w < uint creditFlushFloor"
    and "s = flow_run w sid ops (flow_run w sid [FlowSend (unat w), FlowConsume (unat w)] (flow_start w sid c))"
  shows "waitForCredit False (fl_credit s) = None \<and> fl_wire s = 0"
proof -
  define s0 where "s0 = flow_run w sid [FlowSend (unat w), FlowConsume (unat w)] (flow_start w sid c)"
  have pos: "0 < uint w" using assms(2) by (simp add: word_neq_0_conv word_less_def)
  have c: "map_of (streamFlow c) sid = Some \<lparr>pendingDelta = 0, flow_win = ucast w, lastSentNs = 0\<rparr>"
    "flowControlEnabled c"
    using assms(1) by (auto simp: fresh_flow_def)
  have e: "uint (0 + of_int (int (unat w)) :: u64) = uint w"
    using uint_add_consumed [of 0 "unat w"] uint_w_bound(1) [of w] by simp
  have "\<exists>st. map_of (streamFlow (fl_client s0)) sid = Some st \<and> uint (pendingDelta st) = uint w \<and> lastSentNs st = 0"
    using c pos e
    by (simp add: s0_def flow_start_def newStreamCredit_def waitForCredit_def credit_consume_def
        OnStreamConsumed_def update_conv' unat_gt_0)
  moreover have "flow_inv w sid s0" unfolding s0_def by (rule flow_inv_run [OF flow_inv_start [OF assms(1)]])
  ultimately have "stuck w sid s0" unfolding stuck_def by blast
  then have st: "stuck w sid s" unfolding assms(4) s0_def [symmetric] by (rule stuck_run [OF _ assms(3)])
  then have "\<not> cr_closed (fl_credit s)" by (simp add: stuck_def flow_inv_def)
  then show ?thesis using stuckD [OF st] by (simp add: waitForCredit_def)
qed

theorem small_window_wedges_witness:
  "\<exists>c. waitForCredit False (fl_credit (flow_run 16384 1 [FlowTick 10 (\<lambda>_. True), FlowTick 999999999999 (\<lambda>_. True)]
         (flow_run 16384 1 [FlowSend (unat (16384 :: u32)), FlowConsume (unat (16384 :: u32))] (flow_start 16384 1 c)))) = None"
proof -
  define c where "c = newClientStreams\<lparr>flowControlEnabled := True,
     streamFlow := [(1, \<lparr>pendingDelta = 0, flow_win = 16384, lastSentNs = 0\<rparr>)]\<rparr>"
  have "fresh_flow 16384 1 c" by (simp add: fresh_flow_def c_def newClientStreams_def)
  then show ?thesis
    using small_window_wedges [OF _ _ _ refl, of 16384 1 c "[FlowTick 10 (\<lambda>_. True), FlowTick 999999999999 (\<lambda>_. True)]"]
    by (intro exI [of _ c]) (simp only: creditFlushFloor_def, simp)
qed

end
