(* ===== verification/Ws_Pool.thy ===== *)
theory Ws_Pool
  imports Session Client_Streams
begin

section \<open>The WebSocket pool of the client: slots, cells and the stream table\<close>

text \<open>
  Models the data of \<open>src/client/ws_pool.go\<close> and \<open>src/client/stream_entry.go\<close> and the
  operations that do not change the life cycle of a slot: slot states, capacity and quota
  rules, assignment and release of streams, pending CONNECT counters, the routing of frames
  to slots and of downlink frames to streams.

  Go pointers to slots and stream entries are addresses: \<open>slot_objs\<close> and \<open>entry_objs\<close> list the
  objects ever allocated, \<open>slots\<close> holds the address in each cell and \<open>streamMap\<close> the address
  of each stream's entry.  Operations that act on a captured \<open>*poolSlot\<close> take an address, so
  that a cell can be recycled under them as in the code.  Every operation is one definition
  that runs without interruption unless it blocks on the network; \<open>now\<close> is \<open>time.Now()\<close>.
  A slot owns its session, a transport is named by a number and \<open>wire\<close> logs what was handed
  to the transports.  The 32-bit counters of a slot are integers: they count streams, of which
  there are at most 65536.  Log lines and statistics are left out.
\<close>

subsection \<open>Slots, entries and the pool\<close>

datatype slotState = slotConnecting | slotReady | slotDead | slotDraining

datatype slotDeathCause =
    deathCauseNatural | deathCausePreemptiveRotation | deathCauseDrainTeardown | deathCauseAgeCut
  | deathCauseNetworkChange

fun slotDeathCause_String :: "slotDeathCause \<Rightarrow> string" where
  "slotDeathCause_String deathCauseNatural = ''natural''"
| "slotDeathCause_String deathCausePreemptiveRotation = ''preemptive_rotation''"
| "slotDeathCause_String deathCauseDrainTeardown = ''drain_teardown''"
| "slotDeathCause_String deathCauseAgeCut = ''age_cut''"
| "slotDeathCause_String deathCauseNetworkChange = ''network_change''"

record poolSlot =
  slot_transport :: "nat option"
  slot_session :: "session option"
  slot_state :: slotState
  slot_streams :: int
  pendingConnects :: int
  generation :: u64
  slot_index :: nat
  downBytes :: int
  lastDeathNs :: int
  readerActive :: bool
  ageExposureAccrued :: bool
  rotationDeferredNs :: int
  startedAtNs :: int
  byteBudget :: int
  staggerOffsetNs :: int
  nextDrainAttemptNs :: int
  isSticky :: bool
  slot_flowWindow :: "u64 option"
  migrateNegotiated :: bool
  migrationThresholdNs :: int

definition new_slot :: "nat \<Rightarrow> poolSlot" where
  "new_slot idx = \<lparr>slot_transport = None, slot_session = None, slot_state = slotConnecting, slot_streams = 0,
     pendingConnects = 0, generation = 0, slot_index = idx, downBytes = 0, lastDeathNs = 0,
     readerActive = False, ageExposureAccrued = False, rotationDeferredNs = 0, startedAtNs = 0,
     byteBudget = 0, staggerOffsetNs = 0, nextDrainAttemptNs = 0, isSticky = False,
     slot_flowWindow = None, migrateNegotiated = False, migrationThresholdNs = 0\<rparr>"

record streamEntry =
  slotIdx :: nat
  lastWriteNs :: int
  migrating :: bool
  migrationScheduled :: bool

definition newStreamEntry :: "int \<Rightarrow> nat \<Rightarrow> streamEntry" where
  "newStreamEntry now idx = \<lparr>slotIdx = idx, lastWriteNs = now, migrating = False, migrationScheduled = False\<rparr>"

datatype wire_event = DataFrame nat bytes | ControlFrame nat bytes | CloseTransport nat

text \<open>Goroutines the pool starts; their bodies are modelled as separate operations.\<close>

datatype goroutine =
    GoReconnect nat | GoReconnectFast nat | GoReconnectNetworkChange nat
  | GoConnectReserve nat nat | GoDrainWatchdog nat nat int | GoSlotReader nat | GoMigrateStream u16 | GoStartDrain nat

record poolConfig =
  poolSize :: nat
  maxPendingPerSlot :: int
  maxStreamsPerSlot :: int
  maxSlotAge :: int
  gracefulDrain :: bool
  drainHardCap :: int
  drainIdleThreshold :: int
  stickyMaxDrainAge :: int
  stickyMaxTotalBytes :: int
  stickyMaxSlots :: int
  floorProduct :: int                 \<comment> \<open>\<open>math.Floor(float64(poolSize) * effectiveFloorFraction())\<close>\<close>
  meltdownThreshold :: int
  meltdownCooldown :: int
  byteBudgetMinInterval :: int
  ageCutMinAge :: int

record wsPool =
  cfg :: poolConfig
  slots :: "nat option list"
  slot_objs :: "poolSlot list"
  streamMap :: "(u16 \<times> nat) list"
  entry_objs :: "streamEntry list"
  client :: clientStreams
  stickyDrainCount :: int
  inflightDrains :: int
  reserveConnectFailures :: "int list"
  migrateEnabled :: bool
  migrateCapable :: bool
  consecutiveMigrateTimeouts :: int
  recentDeaths :: int
  meltdownUntil :: int
  recentMeltdownNs :: int
  wire :: "wire_event list"
  spawned :: "goroutine list"

definition allocSlots :: "poolConfig \<Rightarrow> wsPool" where
  "allocSlots C = \<lparr>cfg = C, slots = replicate (2 * poolSize C) None, slot_objs = [], streamMap = [], entry_objs = [],
     client = newClientStreams, stickyDrainCount = 0, inflightDrains = 0,
     reserveConnectFailures = replicate (2 * poolSize C) 0, migrateEnabled = False, migrateCapable = False,
     consecutiveMigrateTimeouts = 0, recentDeaths = 0, meltdownUntil = 0, recentMeltdownNs = 0, wire = [],
     spawned = []\<rparr>"

text \<open>Reading and writing cells and objects.\<close>

definition slotAt :: "wsPool \<Rightarrow> nat \<Rightarrow> nat option" where
  "slotAt p idx = (if idx < length (slots p) then slots p ! idx else None)"

definition storeSlot :: "nat \<Rightarrow> nat option \<Rightarrow> wsPool \<Rightarrow> wsPool" where
  "storeSlot idx a p = (if idx < length (slots p) then p\<lparr>slots := (slots p)[idx := a]\<rparr> else p)"

definition obj :: "wsPool \<Rightarrow> nat \<Rightarrow> poolSlot" where
  "obj p a = slot_objs p ! a"

definition upd_obj :: "nat \<Rightarrow> (poolSlot \<Rightarrow> poolSlot) \<Rightarrow> wsPool \<Rightarrow> wsPool" where
  "upd_obj a f p = p\<lparr>slot_objs := (slot_objs p)[a := f (slot_objs p ! a)]\<rparr>"

definition alloc_obj :: "poolSlot \<Rightarrow> wsPool \<Rightarrow> nat \<times> wsPool" where
  "alloc_obj s p = (length (slot_objs p), p\<lparr>slot_objs := slot_objs p @ [s]\<rparr>)"

definition entry :: "wsPool \<Rightarrow> u16 \<Rightarrow> streamEntry option" where
  "entry p sid = map_option (\<lambda>e. entry_objs p ! e) (map_of (streamMap p) sid)"

definition upd_entry :: "nat \<Rightarrow> (streamEntry \<Rightarrow> streamEntry) \<Rightarrow> wsPool \<Rightarrow> wsPool" where
  "upd_entry e f p = p\<lparr>entry_objs := (entry_objs p)[e := f (entry_objs p ! e)]\<rparr>"

definition store_entry :: "u16 \<Rightarrow> streamEntry \<Rightarrow> wsPool \<Rightarrow> wsPool" where
  "store_entry sid e p = p\<lparr>entry_objs := entry_objs p @ [e],
     streamMap := AList.update sid (length (entry_objs p)) (streamMap p)\<rparr>"

definition getState :: "wsPool \<Rightarrow> nat \<Rightarrow> slotState" where
  "getState p a = slot_state (obj p a)"

definition go :: "goroutine \<Rightarrow> wsPool \<Rightarrow> wsPool" where
  "go g p = p\<lparr>spawned := spawned p @ [g]\<rparr>"

definition emit :: "wire_event \<Rightarrow> wsPool \<Rightarrow> wsPool" where
  "emit w p = p\<lparr>wire := wire p @ [w]\<rparr>"

subsection \<open>Slot transitions\<close>

definition decStreamsFloor :: "poolSlot \<Rightarrow> poolSlot" where
  "decStreamsFloor s = (if slot_streams s \<le> 0 then s else s\<lparr>slot_streams := slot_streams s - 1\<rparr>)"

definition tryMarkDead :: "poolSlot \<Rightarrow> bool \<times> poolSlot" where
  "tryMarkDead s = (if slot_state s = slotDead then (False, s) else (True, s\<lparr>slot_state := slotDead\<rparr>))"

definition tryMarkDraining :: "poolSlot \<Rightarrow> bool \<times> poolSlot" where
  "tryMarkDraining s = (if slot_state s = slotReady then (True, s\<lparr>slot_state := slotDraining\<rparr>) else (False, s))"

definition shouldExitReader :: "poolSlot \<Rightarrow> u64 \<Rightarrow> bool" where
  "shouldExitReader s capturedGen \<longleftrightarrow> generation s \<noteq> capturedGen"

definition cellIsOverwritable :: "wsPool \<Rightarrow> nat option \<Rightarrow> bool" where
  "cellIsOverwritable p prev =
     (case prev of None \<Rightarrow> True | Some a \<Rightarrow> getState p a \<noteq> slotReady \<and> getState p a \<noteq> slotDraining)"

subsection \<open>Capacity and quotas\<close>

definition is_ready :: "wsPool \<Rightarrow> nat option \<Rightarrow> bool" where
  "is_ready p c = (case c of None \<Rightarrow> False | Some a \<Rightarrow> getState p a = slotReady)"

definition readyCapacity :: "wsPool \<Rightarrow> int" where
  "readyCapacity p = int (length (filter (is_ready p) (slots p)))"

definition HealthySlots :: "wsPool \<Rightarrow> int" where
  "HealthySlots p = int (length (filter (is_ready p) (slots p)))"

definition readyCapacityFloor :: "poolConfig \<Rightarrow> int" where
  "readyCapacityFloor C =
     (let floor = floorProduct C;
          floor = (if floor < 1 then 1 else floor)
      in if floor \<ge> int (poolSize C) then int (poolSize C) - 1 else floor)"

definition maxConcurrentDrains :: "poolConfig \<Rightarrow> int" where
  "maxConcurrentDrains C =
     (let mcd = int ((poolSize C + 1) div 2);
          mcd = (if mcd \<ge> int (poolSize C) then int (poolSize C) - 1 else mcd)
      in if mcd < 1 then 1 else mcd)"

definition effectiveStickyMaxSlots :: "poolConfig \<Rightarrow> int" where
  "effectiveStickyMaxSlots C =
     (if stickyMaxSlots C > 0 then stickyMaxSlots C
      else if stickyMaxSlots C < 0 then 0
      else let half = int (poolSize C div 2) in if half < 1 then 1 else half)"

definition markSticky :: "nat \<Rightarrow> wsPool \<Rightarrow> wsPool" where
  "markSticky a p =
     (if isSticky (obj p a) then p
      else upd_obj a (\<lambda>s. s\<lparr>isSticky := True\<rparr>) p\<lparr>stickyDrainCount := stickyDrainCount p + 1\<rparr>)"

definition releaseSticky :: "nat \<Rightarrow> wsPool \<Rightarrow> wsPool" where
  "releaseSticky a p =
     (if isSticky (obj p a)
      then upd_obj a (\<lambda>s. s\<lparr>isSticky := False\<rparr>) p\<lparr>stickyDrainCount := stickyDrainCount p - 1\<rparr> else p)"

definition stickyQuotaAvailable :: "nat \<Rightarrow> wsPool \<Rightarrow> bool" where
  "stickyQuotaAvailable a p =
     (if isSticky (obj p a) then True
      else if stickyDrainCount p \<ge> effectiveStickyMaxSlots (cfg p) then False
      else if readyCapacity p \<le> readyCapacityFloor (cfg p) then False
      else True)"

fun state_count :: "wsPool \<Rightarrow> nat option list \<Rightarrow> slotState \<Rightarrow> int" where
  "state_count p [] st = 0"
| "state_count p (None # cs) st = state_count p cs st"
| "state_count p (Some a # cs) st = (if getState p a = st then 1 else 0) + state_count p cs st"

text \<open>\<open>poolStateCounts\<close>: alive, dead, connecting, draining, empty.\<close>

definition poolStateCounts :: "wsPool \<Rightarrow> int \<times> int \<times> int \<times> int \<times> int" where
  "poolStateCounts p = (state_count p (slots p) slotReady, state_count p (slots p) slotDead,
     state_count p (slots p) slotConnecting, state_count p (slots p) slotDraining,
     int (length (filter (\<lambda>c. c = None) (slots p))))"

definition countDeadSlots :: "wsPool \<Rightarrow> int \<times> int" where
  "countDeadSlots p = (state_count p (slots p) slotDead, int (poolSize (cfg p)))"

definition severeMeltdown :: "int \<Rightarrow> int \<Rightarrow> bool" where
  "severeMeltdown dead slotTotal = (if slotTotal \<le> 0 then False else dead * 2 \<ge> slotTotal)"

subsection \<open>Choosing a slot\<close>

text \<open>
  The scans of \<open>AssignStream\<close>, \<open>rotateMinLoadedSlot\<close> and the emergency eviction share one
  shape: walk the cells in order, skip those without a score, keep the first of the smallest
  score, starting from the largest 32-bit value.
\<close>

fun min_scan :: "('c \<Rightarrow> nat \<Rightarrow> int option) \<Rightarrow> nat \<Rightarrow> 'c list \<Rightarrow> nat option \<times> int \<Rightarrow> nat option \<times> int" where
  "min_scan score i [] best = best"
| "min_scan score i (c # cs) (idx, low) =
     min_scan score (Suc i) cs
       (case score c i of
          Some s \<Rightarrow> if s < low then (Some i, s) else (idx, low)
        | None \<Rightarrow> (idx, low))"

definition MaxInt32 :: int where "MaxInt32 = 2 ^ 31 - 1"

definition pick_min :: "('c \<Rightarrow> nat \<Rightarrow> int option) \<Rightarrow> 'c list \<Rightarrow> nat option" where
  "pick_min score cs = fst (min_scan score 0 cs (None, MaxInt32))"

definition slotFreshnessPenaltyWindow :: int where "slotFreshnessPenaltyWindow = 30 * 1000000000"

definition pass_score :: "wsPool \<Rightarrow> int \<Rightarrow> bool \<Rightarrow> nat option \<Rightarrow> nat \<Rightarrow> int option" where
  "pass_score p now allowFresh c i =
     (case c of
        None \<Rightarrow> None
      | Some a \<Rightarrow>
          if getState p a \<noteq> slotReady then None
          else if maxStreamsPerSlot (cfg p) > 0 \<and> slot_streams (obj p a) \<ge> maxStreamsPerSlot (cfg p) then None
          else if \<not> allowFresh \<and> lastDeathNs (obj p a) > 0 \<and>
                  now - lastDeathNs (obj p a) < slotFreshnessPenaltyWindow then None
          else Some (pendingConnects (obj p a) * 4 + slot_streams (obj p a)))"

definition load_score :: "wsPool \<Rightarrow> nat option \<Rightarrow> nat \<Rightarrow> int option" where
  "load_score p c i =
     (case c of None \<Rightarrow> None | Some a \<Rightarrow> if getState p a \<noteq> slotReady then None else Some (slot_streams (obj p a)))"

fun first_some :: "nat \<Rightarrow> 'a option list \<Rightarrow> nat option" where
  "first_some i [] = None"
| "first_some i (c # cs) = (if c \<noteq> None then Some i else first_some (Suc i) cs)"

definition assign_pick :: "wsPool \<Rightarrow> int \<Rightarrow> nat option" where
  "assign_pick p now =
     (case pick_min (pass_score p now False) (slots p) of
        Some i \<Rightarrow> Some i
      | None \<Rightarrow>
     (case pick_min (pass_score p now True) (slots p) of
        Some i \<Rightarrow> Some i
      | None \<Rightarrow>
     (case pick_min (load_score p) (slots p) of
        Some i \<Rightarrow> Some i
      | None \<Rightarrow> first_some 0 (slots p))))"

subsection \<open>The stream table\<close>

definition AssignStream :: "int \<Rightarrow> u16 \<Rightarrow> wsPool \<Rightarrow> wsPool" where
  "AssignStream now sid p =
     (case assign_pick p now of
        None \<Rightarrow> p
      | Some minIdx \<Rightarrow>
          if map_of (streamMap p) sid \<noteq> None then p
          else store_entry sid (newStreamEntry now minIdx)
                 (case slotAt p minIdx of
                    None \<Rightarrow> p
                  | Some a \<Rightarrow> upd_obj a (\<lambda>s. s\<lparr>slot_streams := slot_streams s + 1\<rparr>) p))"

definition with_slot_of :: "wsPool \<Rightarrow> u16 \<Rightarrow> nat option" where
  "with_slot_of p sid = (case entry p sid of None \<Rightarrow> None | Some e \<Rightarrow> slotAt p (slotIdx e))"

definition IncrPending :: "u16 \<Rightarrow> wsPool \<Rightarrow> wsPool" where
  "IncrPending sid p =
     (case with_slot_of p sid of
        None \<Rightarrow> p | Some a \<Rightarrow> upd_obj a (\<lambda>s. s\<lparr>pendingConnects := pendingConnects s + 1\<rparr>) p)"

definition DecrPending :: "u16 \<Rightarrow> wsPool \<Rightarrow> wsPool" where
  "DecrPending sid p =
     (case with_slot_of p sid of
        None \<Rightarrow> p | Some a \<Rightarrow> upd_obj a (\<lambda>s. s\<lparr>pendingConnects := pendingConnects s - 1\<rparr>) p)"

definition SlotPending :: "wsPool \<Rightarrow> u16 \<Rightarrow> int" where
  "SlotPending p sid = (case with_slot_of p sid of None \<Rightarrow> 0 | Some a \<Rightarrow> pendingConnects (obj p a))"

definition AllSlotsAtMaxPending :: "wsPool \<Rightarrow> bool" where
  "AllSlotsAtMaxPending p =
     (let ready = filter (is_ready p) (slots p)
      in ready \<noteq> [] \<and> list_all (\<lambda>c. pendingConnects (obj p (the c)) \<ge> maxPendingPerSlot (cfg p)) ready)"

text \<open>\<open>LoadAndDelete\<close> of the stream's entry, then the clamped decrement on the slot now in its cell.\<close>

definition drop_entry :: "u16 \<Rightarrow> wsPool \<Rightarrow> wsPool" where
  "drop_entry sid p =
     (case entry p sid of
        None \<Rightarrow> p
      | Some e \<Rightarrow>
          let p1 = p\<lparr>streamMap := AList.delete sid (streamMap p)\<rparr>
          in case slotAt p1 (slotIdx e) of None \<Rightarrow> p1 | Some a \<Rightarrow> upd_obj a decStreamsFloor p1)"

definition ReleaseStream :: "u16 \<Rightarrow> wsPool \<Rightarrow> wsPool" where
  "ReleaseStream sid p = drop_entry sid p"

definition handleStreamClose :: "u16 \<Rightarrow> wsPool \<Rightarrow> wsPool" where
  "handleStreamClose sid p = drop_entry sid p\<lparr>client := close_chans sid (client (drop_entry sid p))\<rparr>"

subsection \<open>Writing\<close>

definition SessionForStream :: "wsPool \<Rightarrow> u16 \<Rightarrow> session option" where
  "SessionForStream p sid = (case with_slot_of p sid of None \<Rightarrow> None | Some a \<Rightarrow> slot_session (obj p a))"

fun first_writable :: "wsPool \<Rightarrow> nat option list \<Rightarrow> nat option" where
  "first_writable p [] = None"
| "first_writable p (None # cs) = first_writable p cs"
| "first_writable p (Some a # cs) =
     (if getState p a = slotReady \<and> slot_transport (obj p a) \<noteq> None then Some a else first_writable p cs)"

text \<open>
  The address of the slot a stream's frames go to.  The boolean of a write says whether a slot
  took the frame: the result of that transport is then what the code returns, and \<open>False\<close> is
  the pool's own error.
\<close>

definition stream_slot :: "wsPool \<Rightarrow> u16 \<Rightarrow> nat option" where
  "stream_slot p sid =
     (case with_slot_of p sid of
        None \<Rightarrow> None
      | Some a \<Rightarrow> if slot_transport (obj p a) \<noteq> None \<and>
                     (getState p a = slotReady \<or> getState p a = slotDraining) then Some a else None)"

definition touch_stream :: "int \<Rightarrow> u16 \<Rightarrow> wsPool \<Rightarrow> wsPool" where
  "touch_stream now sid p =
     (case map_of (streamMap p) sid of None \<Rightarrow> p | Some e \<Rightarrow> upd_entry e (\<lambda>x. x\<lparr>lastWriteNs := now\<rparr>) p)"

definition WriteMessage :: "bytes \<Rightarrow> wsPool \<Rightarrow> bool \<times> wsPool" where
  "WriteMessage data p =
     (case first_writable p (slots p) of
        None \<Rightarrow> (False, p) | Some a \<Rightarrow> (True, emit (DataFrame (the (slot_transport (obj p a))) data) p))"

definition WriteControlMessage :: "bytes \<Rightarrow> wsPool \<Rightarrow> bool \<times> wsPool" where
  "WriteControlMessage data p =
     (case first_writable p (slots p) of
        None \<Rightarrow> (False, p) | Some a \<Rightarrow> (True, emit (ControlFrame (the (slot_transport (obj p a))) data) p))"

definition WriteMessageForStream :: "int \<Rightarrow> u16 \<Rightarrow> bytes \<Rightarrow> wsPool \<Rightarrow> bool \<times> wsPool" where
  "WriteMessageForStream now sid data p =
     (case stream_slot p sid of
        None \<Rightarrow> WriteMessage data p
      | Some a \<Rightarrow> (True, emit (DataFrame (the (slot_transport (obj p a))) data) (touch_stream now sid p)))"

definition WriteControlMessageForStream :: "int \<Rightarrow> u16 \<Rightarrow> bytes \<Rightarrow> wsPool \<Rightarrow> bool \<times> wsPool" where
  "WriteControlMessageForStream now sid data p =
     (case stream_slot p sid of
        None \<Rightarrow> WriteControlMessage data p
      | Some a \<Rightarrow> (True, emit (ControlFrame (the (slot_transport (obj p a))) data) (touch_stream now sid p)))"

text \<open>\<open>room\<close> says whether the control queue of a transport has room (\<open>TryWriteControlMessage\<close>).\<close>

definition TryWriteControlMessageForStream ::
  "(nat \<Rightarrow> bool) \<Rightarrow> int \<Rightarrow> u16 \<Rightarrow> bytes \<Rightarrow> wsPool \<Rightarrow> bool \<times> wsPool" where
  "TryWriteControlMessageForStream room now sid data p =
     (case stream_slot p sid of
        None \<Rightarrow> (False, p)
      | Some a \<Rightarrow>
          let t = the (slot_transport (obj p a))
          in if room t then (True, touch_stream now sid (emit (ControlFrame t data) p)) else (False, p))"

subsection \<open>Activity of a slot's streams (stream\_entry.go)\<close>

definition attached :: "wsPool \<Rightarrow> nat \<Rightarrow> streamEntry list" where
  "attached p idx = filter (\<lambda>e. slotIdx e = idx) (map (\<lambda>(_, e). entry_objs p ! e) (streamMap p))"

record drainStreamSnapshot =
  snap_total :: nat
  idleAge30sCount :: nat
  activeCount :: nat
  maxStreamAgeMs :: int
  minStreamAgeMs :: int

definition Millisecond :: int where "Millisecond = 1000000"
definition idleThresholdMs :: int where "idleThresholdMs = 30000"

text \<open>The quotient of Go truncates towards zero; a negative age is then clamped to 0.\<close>

definition age_ms :: "int \<Rightarrow> streamEntry \<Rightarrow> int" where
  "age_ms now e = (let d = now - lastWriteNs e in if d < 0 then 0 else d div Millisecond)"

definition snap_entry :: "int \<Rightarrow> streamEntry \<Rightarrow> drainStreamSnapshot \<Rightarrow> drainStreamSnapshot" where
  "snap_entry now e s =
     (let s = s\<lparr>snap_total := snap_total s + 1\<rparr>;
          ageMs = age_ms now e;
          s = (if ageMs \<ge> idleThresholdMs \<or> migrating e then s\<lparr>idleAge30sCount := idleAge30sCount s + 1\<rparr>
               else s\<lparr>activeCount := activeCount s + 1\<rparr>);
          s = (if snap_total s = 1 \<or> ageMs > maxStreamAgeMs s then s\<lparr>maxStreamAgeMs := ageMs\<rparr> else s)
      in if snap_total s = 1 \<or> ageMs < minStreamAgeMs s then s\<lparr>minStreamAgeMs := ageMs\<rparr> else s)"

definition snapshotDrainStreams :: "wsPool \<Rightarrow> nat \<Rightarrow> int \<Rightarrow> drainStreamSnapshot" where
  "snapshotDrainStreams p idx now =
     fold (snap_entry now) (attached p idx)
       \<lparr>snap_total = 0, idleAge30sCount = 0, activeCount = 0, maxStreamAgeMs = 0, minStreamAgeMs = 0\<rparr>"

text \<open>The early exit of the loop does not change what \<open>allStreamsIdle\<close> returns.\<close>

fun idle_loop :: "int \<Rightarrow> int \<Rightarrow> streamEntry list \<Rightarrow> bool" where
  "idle_loop now threshold [] = True"
| "idle_loop now threshold (e # es) =
     (if migrating e then idle_loop now threshold es
      else if now - lastWriteNs e < threshold then False else idle_loop now threshold es)"

definition allStreamsIdle :: "wsPool \<Rightarrow> nat \<Rightarrow> int \<Rightarrow> int \<Rightarrow> bool" where
  "allStreamsIdle p idx threshold now \<longleftrightarrow> attached p idx \<noteq> [] \<and> idle_loop now threshold (attached p idx)"

subsection \<open>Downlink frames\<close>

definition routeDownlinkFlagData :: "nat \<Rightarrow> u16 \<Rightarrow> chunk \<Rightarrow> wsPool \<Rightarrow> wsPool" where
  "routeDownlinkFlagData a sid c p =
     (if \<not> migrateNegotiated (obj p a) then p\<lparr>client := RouteToStream sid (drop 2 (Payload c)) (client p)\<rparr>
      else if isStreamControlMsg (drop 2 (Payload c))
      then p\<lparr>client := RouteToStreamSeq sid 0 (drop 2 (Payload c)) (client p)\<rparr>
      else case ParseStreamDataSeq (Payload c) of
             Ok (k, downSeq, sdata) \<Rightarrow> p\<lparr>client := RouteToStreamSeq k downSeq sdata (client p)\<rparr>
           | _ \<Rightarrow> handleStreamClose sid p)"

text \<open>
  The part of the loop body of \<open>slotReaderWithClient\<close> after a successful \<open>ReadMessage\<close>, up to
  the rotation check, for the reader of cell \<open>idx\<close> that captured slot \<open>a\<close>.
  \<open>migrateReply\<close> is \<open>resolveMigrateReplyPayload\<close>, which only wakes the goroutine that waits.
\<close>

definition reader_deliver :: "int \<Rightarrow> nat \<Rightarrow> nat \<Rightarrow> chunk \<Rightarrow> wsPool \<Rightarrow> wsPool" where
  "reader_deliver now idx a c p =
     (if length (Payload c) < 2 then p
      else let sid = get16 (Payload c)
           in case entry p sid of
                Some e \<Rightarrow>
                  if slotIdx e \<noteq> idx then p
                  else let p1 = touch_stream now sid p
                       in if Flags c = FlagUDP then p1\<lparr>client := RouteToStream sid (Payload c) (client p1)\<rparr>
                          else routeDownlinkFlagData a sid c p1
              | None \<Rightarrow>
                  if Flags c = FlagUDP then p\<lparr>client := RouteToStream sid (Payload c) (client p)\<rparr>
                  else routeDownlinkFlagData a sid c p)"

definition reader_frame ::
  "gcm \<Rightarrow> (bytes \<Rightarrow> wsPool \<Rightarrow> wsPool) \<Rightarrow> int \<Rightarrow> nat \<Rightarrow> nat \<Rightarrow> bytes \<Rightarrow> wsPool \<Rightarrow> wsPool" where
  "reader_frame G migrateReply now idx a data p =
     (case slot_session (obj p a) of
        None \<Rightarrow> p
      | Some ses \<Rightarrow>
          let (r, ses1, _) = DecryptChunkSafe G now data ses;
              p1 = upd_obj a (\<lambda>s. s\<lparr>slot_session := Some ses1\<rparr>) p
          in case r of
               Ok c \<Rightarrow>
                 if Flags c = FlagMigrate \<or> Flags c = FlagResume then migrateReply (Payload c) p1
                 else if Flags c = FlagStreamClose
                 then (case ParseStreamCloseFrame (Payload c) of Ok sid \<Rightarrow> handleStreamClose sid p1 | _ \<Rightarrow> p1)
                 else let (ok, ses2) = SessionAcceptSeqNum now (SeqNum c) ses1;
                          p2 = upd_obj a (\<lambda>s. s\<lparr>slot_session := Some ses2\<rparr>) p1
                      in if ok then reader_deliver now idx a c p2 else p2
             | _ \<Rightarrow> p1)"

subsection \<open>The scans find the best slot\<close>

text \<open>What a scan is meant to find: the first cell of the smallest score.\<close>

definition best_cell :: "('c \<Rightarrow> nat \<Rightarrow> int option) \<Rightarrow> 'c list \<Rightarrow> nat \<Rightarrow> bool" where
  "best_cell score cs i \<longleftrightarrow> i < length cs \<and>
     (\<exists>s. score (cs ! i) i = Some s \<and> s < MaxInt32 \<and>
        (\<forall>j < length cs. \<forall>t. score (cs ! j) j = Some t \<longrightarrow> s < t \<or> s = t \<and> i \<le> j))"

text \<open>The loop invariant of \<open>min_scan\<close> after the first \<open>n\<close> cells.\<close>

definition scan_inv :: "('c \<Rightarrow> nat \<Rightarrow> int option) \<Rightarrow> 'c list \<Rightarrow> nat \<Rightarrow> nat option \<times> int \<Rightarrow> bool" where
  "scan_inv score cs n best \<longleftrightarrow>
     (case best of
        (None, low) \<Rightarrow> low = MaxInt32 \<and> (\<forall>j < n. \<forall>t. score (cs ! j) j = Some t \<longrightarrow> MaxInt32 \<le> t)
      | (Some i, low) \<Rightarrow> i < n \<and> low < MaxInt32 \<and> score (cs ! i) i = Some low \<and>
          (\<forall>j < n. \<forall>t. score (cs ! j) j = Some t \<longrightarrow> low < t \<or> low = t \<and> i \<le> j))"

lemma scan_inv_step:
  assumes "scan_inv score cs n (idx, low)" "n < length cs"
  shows "scan_inv score cs (Suc n)
     (case score (cs ! n) n of
        Some s \<Rightarrow> if s < low then (Some n, s) else (idx, low) | None \<Rightarrow> (idx, low))"
  using assms by (cases idx) (fastforce simp: scan_inv_def less_Suc_eq split: option.split)+

lemma scan_inv_run:
  assumes "scan_inv score (xs @ cs) (length xs) best"
  shows "scan_inv score (xs @ cs) (length (xs @ cs)) (min_scan score (length xs) cs best)"
  using assms
proof (induction cs arbitrary: xs best)
  case (Cons c cs)
  obtain idx low where b: "best = (idx, low)" by (cases best)
  show ?case
    using Cons.IH [of "xs @ [c]"] scan_inv_step [of score "xs @ c # cs" "length xs" idx low] Cons.prems
    by (simp add: b)
qed simp

lemma scan_inv_pick: "scan_inv score cs (length cs) (min_scan score 0 cs (None, MaxInt32))"
  using scan_inv_run [of score "[]" cs "(None, MaxInt32)"] by (simp add: scan_inv_def)

lemma pick_min_iff: "pick_min score cs = Some i \<longleftrightarrow> best_cell score cs i"
proof
  obtain idx low where m: "min_scan score 0 cs (None, MaxInt32) = (idx, low)" by fastforce
  have inv: "scan_inv score cs (length cs) (idx, low)" using scan_inv_pick [of score cs] by (simp add: m)
  show "pick_min score cs = Some i \<Longrightarrow> best_cell score cs i"
    using inv by (auto simp: pick_min_def m scan_inv_def best_cell_def)
  assume b: "best_cell score cs i"
  then show "pick_min score cs = Some i"
    using inv by (cases idx) (fastforce simp: pick_min_def m scan_inv_def best_cell_def)+
qed

lemma pick_min_None_iff:
  "pick_min score cs = None \<longleftrightarrow> (\<forall>j < length cs. \<forall>t. score (cs ! j) j = Some t \<longrightarrow> MaxInt32 \<le> t)"
proof -
  obtain idx low where m: "min_scan score 0 cs (None, MaxInt32) = (idx, low)" by fastforce
  have "scan_inv score cs (length cs) (idx, low)" using scan_inv_pick [of score cs] by (simp add: m)
  then show ?thesis by (cases idx) (fastforce simp: pick_min_def m scan_inv_def)+
qed

lemma first_some_shift: "first_some (Suc i) cs = map_option Suc (first_some i cs)"
  by (induction cs arbitrary: i) auto

lemma first_some_spec:
  "first_some 0 cs = Some k \<longleftrightarrow> k < length cs \<and> cs ! k \<noteq> None \<and> (\<forall>j < k. cs ! j = None)"
proof (induction cs arbitrary: k)
  case (Cons c cs)
  show ?case by (cases k) (auto simp: first_some_shift Cons All_less_Suc2)
qed simp

text \<open>
  The rule \<open>AssignStream\<close> is meant to follow, read off its documentation: the best slot that
  is ready, has room and did not just die; failing that one that is ready and has room;
  failing that the ready slot with the fewest streams; failing that the first cell in use.
\<close>

definition has_score :: "('c \<Rightarrow> nat \<Rightarrow> int option) \<Rightarrow> 'c list \<Rightarrow> bool" where
  "has_score score cs \<longleftrightarrow> (\<exists>j < length cs. \<exists>t < MaxInt32. score (cs ! j) j = Some t)"

definition slot_choice :: "wsPool \<Rightarrow> int \<Rightarrow> nat \<Rightarrow> bool" where
  "slot_choice p now i \<longleftrightarrow>
     (if has_score (pass_score p now False) (slots p) then best_cell (pass_score p now False) (slots p) i
      else if has_score (pass_score p now True) (slots p) then best_cell (pass_score p now True) (slots p) i
      else if has_score (load_score p) (slots p) then best_cell (load_score p) (slots p) i
      else i < length (slots p) \<and> slots p ! i \<noteq> None \<and> (\<forall>j < i. slots p ! j = None))"

lemma has_score_iff: "has_score score cs \<longleftrightarrow> pick_min score cs \<noteq> None"
  by (auto simp: has_score_def pick_min_None_iff not_le)

lemma assign_pick_iff: "assign_pick p now = Some i \<longleftrightarrow> slot_choice p now i"
  unfolding assign_pick_def slot_choice_def has_score_iff
  by (auto simp: pick_min_iff [symmetric] first_some_spec split: option.split)

lemma slot_choice_unique: "slot_choice p now i \<Longrightarrow> slot_choice p now j \<Longrightarrow> i = j"
  by (simp flip: assign_pick_iff)

lemma slot_choice_cell:
  assumes "slot_choice p now i" obtains a where "i < length (slots p)" "slots p ! i = Some a"
  using assms
  by (auto simp: slot_choice_def best_cell_def pass_score_def load_score_def split: if_splits option.splits)

subsection \<open>Counts and limits\<close>

lemma poolStateCounts_sum:
  "(case poolStateCounts p of (alive, dead, connecting, draining, vacant) \<Rightarrow>
      alive + dead + connecting + draining + vacant) = int (length (slots p))"
proof -
  have "state_count p cs slotReady + state_count p cs slotDead + state_count p cs slotConnecting +
        state_count p cs slotDraining + int (length (filter (\<lambda>c. c = None) cs)) = int (length cs)" for cs
  proof (induction cs)
    case (Cons c cs)
    show ?case
      using Cons.IH by (cases c) (auto, (cases "getState p (the c)"; simp)+)
  qed simp
  then show ?thesis by (simp add: poolStateCounts_def)
qed

lemma maxConcurrentDrains_bounds:
  "1 \<le> maxConcurrentDrains C \<and> (2 \<le> poolSize C \<longrightarrow> maxConcurrentDrains C \<le> int (poolSize C) - 1)"
  by (auto simp: maxConcurrentDrains_def Let_def)

lemma readyCapacityFloor_bounds:
  "readyCapacityFloor C \<le> int (poolSize C) - 1 \<and> (2 \<le> poolSize C \<longrightarrow> 1 \<le> readyCapacityFloor C) \<and>
   (poolSize C = 1 \<longrightarrow> readyCapacityFloor C = 0)"
  by (auto simp: readyCapacityFloor_def Let_def)

subsection \<open>Invariant of the stream table\<close>

declare map_of_eq_Some_iff [simp del]

definition streams_on :: "wsPool \<Rightarrow> nat \<Rightarrow> u16 set" where
  "streams_on p i = {sid. \<exists>e. entry p sid = Some e \<and> slotIdx e = i}"

definition table_ok :: "wsPool \<Rightarrow> bool" where
  "table_ok p \<longleftrightarrow> distinct (map fst (streamMap p)) \<and>
     (\<forall>sid e. map_of (streamMap p) sid = Some e \<longrightarrow> e < length (entry_objs p)) \<and>
     (\<forall>k l e. map_of (streamMap p) k = Some e \<longrightarrow> map_of (streamMap p) l = Some e \<longrightarrow> k = l)"

definition cells_ok :: "wsPool \<Rightarrow> bool" where
  "cells_ok p \<longleftrightarrow> (\<forall>i a. slotAt p i = Some a \<longrightarrow> a < length (slot_objs p)) \<and>
     (\<forall>i j a. slotAt p i = Some a \<longrightarrow> slotAt p j = Some a \<longrightarrow> i = j)"

text \<open>
  A slot in a cell never counts more streams than the table binds to that cell, and never a
  negative number.  It may count fewer: a slot that replaces another starts at 0 although
  streams may still name its cell.
\<close>

definition counts_ok :: "wsPool \<Rightarrow> bool" where
  "counts_ok p \<longleftrightarrow> (\<forall>i a. slotAt p i = Some a \<longrightarrow>
     0 \<le> slot_streams (obj p a) \<and> slot_streams (obj p a) \<le> int (card (streams_on p i)))"

definition wspool_ok :: "wsPool \<Rightarrow> bool" where
  "wspool_ok p \<longleftrightarrow> length (slots p) = 2 * poolSize (cfg p) \<and> table_ok p \<and> cells_ok p \<and> counts_ok p"

lemma finite_streams_on [simp]: "finite (streams_on p i)"
  by simp

lemma length_attached:
  assumes "table_ok p" shows "length (attached p i) = card (streams_on p i)"
proof -
  let ?xs = "filter (\<lambda>(sid, e). slotIdx (entry_objs p ! e) = i) (streamMap p)"
  have d: "distinct (map fst (streamMap p))" using assms by (simp add: table_ok_def)
  have "length (attached p i) = length ?xs"
    by (simp add: attached_def filter_map comp_def split_def)
  also have "\<dots> = card (fst ` set ?xs)"
    using distinct_card [of "map fst ?xs"] distinct_map_filter [OF d] by simp
  also have "fst ` set ?xs = streams_on p i"
    using d by (force simp: streams_on_def entry_def image_iff map_of_eq_Some_iff)
  finally show ?thesis .
qed

lemma entry_simps [simp]:
  "entry (upd_obj a f p) = entry p"
  "entry (emit w p) = entry p" "entry (go g p) = entry p"
  "entry (p\<lparr>slots := cs\<rparr>) = entry p" "entry (p\<lparr>client := c\<rparr>) = entry p"
  "entry (p\<lparr>slot_objs := os\<rparr>) = entry p"
  "entry (p\<lparr>stickyDrainCount := n\<rparr>) = entry p" "entry (p\<lparr>inflightDrains := n\<rparr>) = entry p"
  by (auto simp: entry_def upd_obj_def emit_def go_def fun_eq_iff)

lemma slotAt_simps [simp]:
  "slotAt (upd_obj a f p) = slotAt p" "slotAt (emit w p) = slotAt p" "slotAt (go g p) = slotAt p"
  "slotAt (p\<lparr>client := c\<rparr>) = slotAt p" "slotAt (p\<lparr>streamMap := m\<rparr>) = slotAt p"
  "slotAt (upd_entry e h p) = slotAt p" "slotAt (store_entry sid x p) = slotAt p"
  "slotAt (p\<lparr>stickyDrainCount := n\<rparr>) = slotAt p" "slotAt (p\<lparr>inflightDrains := n\<rparr>) = slotAt p"
  by (auto simp: slotAt_def upd_obj_def emit_def go_def upd_entry_def store_entry_def fun_eq_iff)

lemma obj_simps [simp]:
  "obj (emit w p) = obj p" "obj (go g p) = obj p" "obj (p\<lparr>client := c\<rparr>) = obj p"
  "obj (p\<lparr>streamMap := m\<rparr>) = obj p" "obj (upd_entry e h p) = obj p" "obj (store_entry sid x p) = obj p"
  "obj (p\<lparr>slots := cs\<rparr>) = obj p"
  "obj (p\<lparr>stickyDrainCount := n\<rparr>) = obj p" "obj (p\<lparr>inflightDrains := n\<rparr>) = obj p"
  by (auto simp: obj_def emit_def go_def upd_entry_def store_entry_def fun_eq_iff)

lemma obj_upd_obj: "a < length (slot_objs p) \<Longrightarrow> obj (upd_obj a f p) b = (if b = a then f (obj p a) else obj p b)"
  by (auto simp: obj_def upd_obj_def)

lemma obj_upd_valid: "b < length (slot_objs p) \<Longrightarrow> obj (upd_obj a f p) b = (if b = a then f (obj p a) else obj p b)"
  by (auto simp: obj_def upd_obj_def)

lemma length_upd_obj [simp]: "length (slot_objs (upd_obj a f p)) = length (slot_objs p)"
  by (simp add: upd_obj_def)

lemma entry_store:
  assumes "table_ok p" shows "entry (store_entry sid x p) = (entry p)(sid \<mapsto> x)"
proof
  fix k
  have "e < length (entry_objs p)" if "map_of (streamMap p) k = Some e" for e
    using assms that by (auto simp: table_ok_def)
  then show "entry (store_entry sid x p) k = ((entry p)(sid \<mapsto> x)) k"
    by (cases "map_of (streamMap p) k") (auto simp: entry_def store_entry_def update_conv' nth_append)
qed

lemma entry_drop: "entry (drop_entry sid p) = (entry p)(sid := None)"
  by (auto simp: drop_entry_def entry_def delete_conv' Let_def upd_obj_def fun_eq_iff split: option.split)

lemma streams_on_upd_entry:
  assumes "table_ok p" "\<And>x. slotIdx (f x) = slotIdx x"
  shows "streams_on (upd_entry e f p) = streams_on p"
proof -
  have "slotIdx ((entry_objs p)[e := f (entry_objs p ! e)] ! k) = slotIdx (entry_objs p ! k)"
    if "k < length (entry_objs p)" for k
    using that by (cases "k = e") (simp_all add: assms(2))
  then have "map_of (streamMap p) sid = Some k \<Longrightarrow>
      slotIdx ((entry_objs p)[e := f (entry_objs p ! e)] ! k) = slotIdx (entry_objs p ! k)" for sid k
    using assms(1) by (auto simp: table_ok_def)
  then show ?thesis by (auto simp: streams_on_def entry_def upd_entry_def fun_eq_iff)
qed

lemma streams_on_simps [simp]:
  "streams_on (upd_obj a f p) = streams_on p"
  "streams_on (emit w p) = streams_on p" "streams_on (go g p) = streams_on p"
  "streams_on (p\<lparr>slots := cs\<rparr>) = streams_on p" "streams_on (p\<lparr>client := c\<rparr>) = streams_on p"
  "streams_on (p\<lparr>stickyDrainCount := n\<rparr>) = streams_on p" "streams_on (p\<lparr>inflightDrains := n\<rparr>) = streams_on p"
  by (auto simp: streams_on_def fun_eq_iff)

lemma streams_on_store:
  assumes "table_ok p"
  shows "streams_on (store_entry sid x p) i =
    (if slotIdx x = i then insert sid (streams_on p i) else streams_on p i - {sid})"
  by (auto simp: streams_on_def entry_store [OF assms])

lemma streams_on_drop: "streams_on (drop_entry sid p) i = streams_on p i - {sid}"
  by (auto simp: streams_on_def entry_drop)

text \<open>How the invariant passes through the primitive updates.\<close>

lemma table_ok_simps [simp]:
  "table_ok (upd_obj a f p) = table_ok p" "table_ok (emit w p) = table_ok p" "table_ok (go g p) = table_ok p"
  "table_ok (p\<lparr>slots := cs\<rparr>) = table_ok p" "table_ok (p\<lparr>client := c\<rparr>) = table_ok p"
  "table_ok (upd_entry e h p) = table_ok p"
  "table_ok (p\<lparr>stickyDrainCount := n\<rparr>) = table_ok p" "table_ok (p\<lparr>inflightDrains := n\<rparr>) = table_ok p"
  by (auto simp: table_ok_def upd_obj_def emit_def go_def upd_entry_def)

lemma table_ok_store:
  assumes "table_ok p" shows "table_ok (store_entry sid x p)"
proof -
  have "distinct (map fst (AList.update sid n (streamMap p)))" for n
    using assms by (simp add: table_ok_def AList.distinct_update)
  moreover have "e < length (entry_objs p)" if "map_of (streamMap p) k = Some e" for k e
    using assms that by (simp add: table_ok_def)
  ultimately show ?thesis
    using assms unfolding table_ok_def store_entry_def
    by (simp add: update_conv' less_Suc_eq) (metis less_irrefl)
qed

lemma table_ok_drop: "table_ok p \<Longrightarrow> table_ok (drop_entry sid p)"
  by (auto simp: table_ok_def drop_entry_def Let_def upd_obj_def AList.distinct_delete delete_conv'
      split: option.split)

lemma wspool_okD:
  assumes "wspool_ok p"
  shows "length (slots p) = 2 * poolSize (cfg p)" "table_ok p" "cells_ok p" "counts_ok p"
  using assms by (auto simp: wspool_ok_def)

lemma slotAt_valid: "cells_ok p \<Longrightarrow> slotAt p i = Some a \<Longrightarrow> a < length (slot_objs p)"
  by (auto simp: cells_ok_def)

lemma slotAt_inj: "cells_ok p \<Longrightarrow> slotAt p i = Some a \<Longrightarrow> slotAt p j = Some a \<Longrightarrow> i = j"
  by (auto simp: cells_ok_def)

lemma slotAt_eq_iff: "cells_ok p \<Longrightarrow> slotAt p i = Some a \<Longrightarrow> slotAt p j = Some b \<Longrightarrow> a = b \<longleftrightarrow> i = j"
  using slotAt_inj by fastforce

lemma cells_ok_simps [simp]:
  "cells_ok (upd_obj a f p) = cells_ok p" "cells_ok (emit w p) = cells_ok p" "cells_ok (go g p) = cells_ok p"
  "cells_ok (p\<lparr>client := c\<rparr>) = cells_ok p" "cells_ok (p\<lparr>streamMap := m\<rparr>) = cells_ok p"
  "cells_ok (upd_entry e h p) = cells_ok p" "cells_ok (store_entry sid x p) = cells_ok p"
  "cells_ok (p\<lparr>stickyDrainCount := n\<rparr>) = cells_ok p" "cells_ok (p\<lparr>inflightDrains := n\<rparr>) = cells_ok p"
  by (auto simp: cells_ok_def) (auto simp: upd_obj_def emit_def go_def upd_entry_def store_entry_def)

lemma cells_ok_drop: "cells_ok p \<Longrightarrow> cells_ok (drop_entry sid p)"
  by (auto simp: drop_entry_def Let_def split: option.split)

lemma slotAt_drop [simp]: "slotAt (drop_entry sid p) = slotAt p"
  by (auto simp: drop_entry_def Let_def split: option.split)

lemma counts_ok_upd_obj:
  assumes "counts_ok p" "cells_ok p"
    and "\<And>s. 0 \<le> slot_streams s \<Longrightarrow> 0 \<le> slot_streams (f s) \<and> slot_streams (f s) \<le> slot_streams s"
  shows "counts_ok (upd_obj a f p)"
proof -
  have "0 \<le> slot_streams (obj (upd_obj a f p) b) \<and> slot_streams (obj (upd_obj a f p) b) \<le> int (card (streams_on p i))"
    if "slotAt p i = Some b" for i b
  proof -
    have "b < length (slot_objs p)" using assms(2) that by (rule slotAt_valid)
    moreover have "0 \<le> slot_streams (obj p b)" "slot_streams (obj p b) \<le> int (card (streams_on p i))"
      using assms(1) that by (auto simp: counts_ok_def)
    ultimately show ?thesis
      using assms(3) [of "obj p b"] by (cases "b = a") (auto simp: obj_def upd_obj_def)
  qed
  then show ?thesis by (simp add: counts_ok_def)
qed

lemma slots_simps [simp]:
  "slots (upd_obj a f p) = slots p" "slots (emit w p) = slots p" "slots (go g p) = slots p"
  "slots (upd_entry e h p) = slots p" "slots (store_entry sid x p) = slots p"
  "cfg (upd_obj a f p) = cfg p" "cfg (emit w p) = cfg p" "cfg (go g p) = cfg p"
  "cfg (upd_entry e h p) = cfg p" "cfg (store_entry sid x p) = cfg p"
  by (auto simp: upd_obj_def emit_def go_def upd_entry_def store_entry_def)

lemma slots_drop [simp]: "slots (drop_entry sid p) = slots p" "cfg (drop_entry sid p) = cfg p"
  by (auto simp: drop_entry_def Let_def split: option.split)

lemma wspool_ok_upd_obj:
  assumes "wspool_ok p"
    and "\<And>s. 0 \<le> slot_streams s \<Longrightarrow> 0 \<le> slot_streams (f s) \<and> slot_streams (f s) \<le> slot_streams s"
  shows "wspool_ok (upd_obj a f p)"
  using assms by (simp add: wspool_ok_def counts_ok_upd_obj)

lemma wspool_ok_simps [simp]:
  "wspool_ok (emit w p) = wspool_ok p" "wspool_ok (go g p) = wspool_ok p" "wspool_ok (p\<lparr>client := c\<rparr>) = wspool_ok p"
  "wspool_ok (p\<lparr>stickyDrainCount := n\<rparr>) = wspool_ok p" "wspool_ok (p\<lparr>inflightDrains := n\<rparr>) = wspool_ok p"
  by (simp_all add: wspool_ok_def counts_ok_def)

lemma wspool_ok_upd_entry:
  assumes "wspool_ok p" "\<And>x. slotIdx (f x) = slotIdx x" shows "wspool_ok (upd_entry e f p)"
  using assms streams_on_upd_entry [of p f e] by (simp add: wspool_ok_def counts_ok_def)

text \<open>Binding a stream to a cell and counting it on the slot there.\<close>

lemma wspool_ok_bind:
  assumes ok: "wspool_ok p" and new: "entry p sid = None" and x: "slotIdx x = i"
  shows "wspool_ok (store_entry sid x
     (case slotAt p i of None \<Rightarrow> p | Some a \<Rightarrow> upd_obj a (\<lambda>s. s\<lparr>slot_streams := slot_streams s + 1\<rparr>) p))"
    (is "wspool_ok (store_entry sid x ?q)")
proof -
  have c: "cells_ok p" and t: "table_ok p" and n: "counts_ok p" using wspool_okD [OF ok] by auto
  have tq: "table_ok ?q" and cq: "cells_ok ?q" and sq: "slotAt ?q = slotAt p" and oq: "streams_on ?q = streams_on p"
    using c t by (auto split: option.split)
  have card: "card (streams_on (store_entry sid x ?q) j) = card (streams_on p j) + (if j = i then 1 else 0)" for j
  proof -
    have "sid \<notin> streams_on p j" using new by (simp add: streams_on_def)
    then show ?thesis using x by (cases "j = i") (simp_all add: streams_on_store [OF tq] oq)
  qed
  have "0 \<le> slot_streams (obj ?q b) \<and> slot_streams (obj ?q b) \<le> int (card (streams_on (store_entry sid x ?q) j))"
    if b: "slotAt p j = Some b" for j b
  proof (cases "slotAt p i")
    case (Some a)
    have "b = a \<longleftrightarrow> j = i" by (rule slotAt_eq_iff [OF c b Some])
    moreover have "0 \<le> slot_streams (obj p b)" "slot_streams (obj p b) \<le> int (card (streams_on p j))"
      using n b by (auto simp: counts_ok_def)
    ultimately show ?thesis using Some card [of j] slotAt_valid [OF c Some] by (auto simp: obj_upd_obj)
  qed (use n b card [of j] in \<open>auto simp: counts_ok_def\<close>)
  then show ?thesis
    using ok tq cq sq by (auto simp: wspool_ok_def counts_ok_def table_ok_store split: option.split)
qed

text \<open>Dropping a stream's entry and discounting it.\<close>

lemma obj_drop:
  assumes c: "cells_ok p" and b: "slotAt p j = Some b"
  shows "obj (drop_entry sid p) b =
    (if \<exists>e. entry p sid = Some e \<and> slotIdx e = j then decStreamsFloor (obj p b) else obj p b)"
proof (cases "entry p sid")
  case (Some e)
  show ?thesis
  proof (cases "slotAt p (slotIdx e)")
    case a: (Some a)
    have v: "a < length (slot_objs (p\<lparr>streamMap := AList.delete sid (streamMap p)\<rparr>))"
      using slotAt_valid [OF c a] by simp
    have d: "drop_entry sid p = upd_obj a decStreamsFloor (p\<lparr>streamMap := AList.delete sid (streamMap p)\<rparr>)"
      using Some a by (simp add: drop_entry_def Let_def)
    show ?thesis
    proof (cases "slotIdx e = j")
      case True
      then show ?thesis using a b Some by (simp add: d obj_upd_obj [OF v])
    next
      case False
      then have "b \<noteq> a" using slotAt_inj [OF c a] b by metis
      then show ?thesis using Some False by (simp add: d obj_upd_obj [OF v])
    qed
  next
    case None
    then show ?thesis using Some b by (auto simp: drop_entry_def Let_def)
  qed
qed (simp add: drop_entry_def)

lemma wspool_ok_drop:
  assumes ok: "wspool_ok p" shows "wspool_ok (drop_entry sid p)"
proof -
  have c: "cells_ok p" and n: "counts_ok p" using wspool_okD [OF ok] by auto
  have "0 \<le> slot_streams (obj (drop_entry sid p) b) \<and>
        slot_streams (obj (drop_entry sid p) b) \<le> int (card (streams_on p j - {sid}))"
    if b: "slotAt p j = Some b" for j b
  proof -
    have k: "0 \<le> slot_streams (obj p b)" "slot_streams (obj p b) \<le> int (card (streams_on p j))"
      using n b by (auto simp: counts_ok_def)
    show ?thesis
    proof (cases "sid \<in> streams_on p j")
      case True
      then have "card (streams_on p j) = Suc (card (streams_on p j - {sid}))"
        by (rule card.remove [OF finite_streams_on])
      moreover obtain e where "entry p sid = Some e" "slotIdx e = j" using True by (auto simp: streams_on_def)
      ultimately show ?thesis using k by (simp add: obj_drop [OF c b] decStreamsFloor_def)
    next
      case False
      then have "\<not> (\<exists>e. entry p sid = Some e \<and> slotIdx e = j)" by (simp add: streams_on_def)
      then have "obj (drop_entry sid p) b = obj p b" by (simp only: obj_drop [OF c b] if_False)
      then show ?thesis using k False by simp
    qed
  qed
  then show ?thesis
    using ok by (simp add: wspool_ok_def counts_ok_def streams_on_drop table_ok_drop cells_ok_drop)
qed

lemma wspool_ok_AssignStream: "wspool_ok p \<Longrightarrow> wspool_ok (AssignStream now sid p)"
  using wspool_ok_bind [of p sid] by (auto simp: AssignStream_def entry_def newStreamEntry_def split: option.split)

lemma wspool_ok_table_ops:
  assumes "wspool_ok p"
  shows "wspool_ok (ReleaseStream sid p)" "wspool_ok (handleStreamClose sid p)" "wspool_ok (IncrPending sid p)"
    "wspool_ok (DecrPending sid p)" "wspool_ok (touch_stream now sid p)"
  using assms
  by (auto simp: ReleaseStream_def handleStreamClose_def IncrPending_def DecrPending_def touch_stream_def
      intro!: wspool_ok_drop wspool_ok_upd_obj wspool_ok_upd_entry split: option.split)

lemma wspool_ok_allocSlots: "wspool_ok (allocSlots C)"
  by (auto simp: wspool_ok_def allocSlots_def table_ok_def cells_ok_def counts_ok_def slotAt_def)

end
