(* ===== verification/Ws_Pool_Life.thy ===== *)
theory Ws_Pool_Life
  imports Ws_Pool Handshake
begin

section \<open>The WebSocket pool of the client: life cycle of its slots\<close>

text \<open>
  Models how slots of \<open>src/client/ws_pool.go\<close> are connected, die, are drained and are rotated,
  with \<open>src/client/ws_pool_drain.go\<close>, \<open>src/client/migrate_watchdog.go\<close> and
  \<open>src/client/migrate_send.go\<close>.  What the network answers is an argument: the outcome of a
  handshake and upgrade, and in \<open>sendEnv\<close> the replies to MIGRATE and RESUME frames and the room
  in the control queues.  A goroutine that the code starts is recorded in \<open>spawned\<close>; the
  operations it performs are the definitions below, so that a run of the pool is a sequence of
  them in any order.  \<open>connectSlot\<close> waits for the network between installing its slot and
  publishing it: it has two definitions, and other operations may run in between.
\<close>

subsection \<open>Connecting a slot\<close>

text \<open>
  The handshake part of \<open>connectSlot\<close>.  \<open>reply\<close> is \<open>SendHandshake\<close> followed by the parsing of the
  response, \<open>None\<close> for any of their errors.  The first component is what is left in
  \<open>slot.session\<close>, the second says whether the handshake succeeded.
\<close>

definition slot_handshake ::
  "crypto \<Rightarrow> gcm \<Rightarrow> int \<Rightarrow> instant \<Rightarrow> bytes option \<Rightarrow> bytes option \<Rightarrow> bytes \<Rightarrow> bytes \<Rightarrow> bytes \<Rightarrow>
   (clientHello \<Rightarrow> serverHello option) \<Rightarrow> session option \<times> bool" where
  "slot_handshake C G now nowNs ephRnd nonceRnd mnonce clientID serverPub reply =
     (case NewClientHello C now ephRnd nonceRnd clientID serverPub of
        Ok (hello, clientState) \<Rightarrow>
          (case reply hello of
             None \<Rightarrow> (None, False)
           | Some serverHello \<Rightarrow>
               (case CompleteHandshake C G nowNs mnonce clientState (Some serverHello) of
                  Ok session \<Rightarrow>
                    (case InitSendEpoch session of
                       (Ok _, session') \<Rightarrow> (Some session', True)
                     | (_, session') \<Rightarrow> (Some session', False))
                | _ \<Rightarrow> (None, False)))
      | _ \<Rightarrow> (None, False))"

text \<open>What \<open>UpgradeToWS\<close> negotiated and the values \<open>connectSlot\<close> samples for the new slot.\<close>

record upgraded =
  up_transport :: nat
  up_flow :: "u64 option"
  up_migrate :: bool
  up_byteBudget :: int
  up_staggerOffset :: int
  up_migrationThreshold :: int

datatype connectErr = ErrCellOccupied | ErrRateLimited | ErrConnectFailed

definition connectSlot_install :: "nat \<Rightarrow> wsPool \<Rightarrow> nat option \<times> wsPool" where
  "connectSlot_install idx p =
     (if \<not> cellIsOverwritable p (slotAt p idx) then (None, p)
      else let (a, p1) = alloc_obj (new_slot idx) p in (Some a, storeSlot idx (Some a) p1))"

definition connectSlot_fail :: "nat \<Rightarrow> session option \<Rightarrow> wsPool \<Rightarrow> wsPool" where
  "connectSlot_fail a ses p = upd_obj a (\<lambda>s. s\<lparr>slot_session := ses, slot_state := slotDead\<rparr>) p"

definition resetMigrateHysteresis :: "wsPool \<Rightarrow> wsPool" where
  "resetMigrateHysteresis p = p\<lparr>consecutiveMigrateTimeouts := 0, migrateCapable := True\<rparr>"

definition connectSlot_ready :: "int \<Rightarrow> nat \<Rightarrow> session \<Rightarrow> upgraded \<Rightarrow> wsPool \<Rightarrow> wsPool" where
  "connectSlot_ready now a ses up p =
     (let p1 = (case up_flow up of
                  None \<Rightarrow> p | Some w \<Rightarrow> p\<lparr>client := EnableFlowControl w (client p)\<rparr>);
          p2 = (if up_migrate up then resetMigrateHysteresis (p1\<lparr>migrateEnabled := True\<rparr>) else p1)
      in upd_obj a (\<lambda>s. s\<lparr>slot_session := Some ses, slot_transport := Some (up_transport up),
           slot_flowWindow := up_flow up, migrateNegotiated := up_migrate up, downBytes := 0,
           rotationDeferredNs := 0, byteBudget := up_byteBudget up, staggerOffsetNs := up_staggerOffset up,
           migrationThresholdNs := up_migrationThreshold up, startedAtNs := now, readerActive := False,
           generation := generation s + 1, slot_state := slotReady\<rparr>) p2)"

text \<open>The whole of \<open>connectSlot\<close> when nothing runs in between.\<close>

definition connectSlot ::
  "int \<Rightarrow> nat \<Rightarrow> session option \<times> bool \<Rightarrow> (connectErr, upgraded) outcome \<Rightarrow> wsPool \<Rightarrow>
   connectErr option \<times> wsPool" where
  "connectSlot now idx hs up p =
     (case connectSlot_install idx p of
        (None, p1) \<Rightarrow> (Some ErrCellOccupied, p1)
      | (Some a, p1) \<Rightarrow>
          (case (hs, up) of
             ((Some ses, True), Ok u) \<Rightarrow> (None, connectSlot_ready now a ses u p1)
           | ((ses, True), Err e) \<Rightarrow> (Some e, connectSlot_fail a ses p1)
           | ((ses, _), _) \<Rightarrow> (Some ErrConnectFailed, connectSlot_fail a ses p1)))"

subsection \<open>Migration frames (migrate\_send.go)\<close>

datatype migrateReply = ReplyOK | ReplyFail | NoReply
datatype migrateResult = migrateResultOK | migrateResultFail | migrateResultTimeout | migrateResultNoSend

record sendEnv =
  env_gcm :: gcm
  env_buf :: bufpool
  env_rnd :: "bytes option"
  env_room :: "nat \<Rightarrow> bool"
  env_reply :: "u16 \<Rightarrow> nat \<Rightarrow> migrateReply"
  env_budget :: nat                     \<comment> \<open>streams that fit into \<open>emergencyEvictMigrateBudget\<close>\<close>

definition migrateHysteresisThreshold :: int where "migrateHysteresisThreshold = 3"

definition MigrateCapable :: "wsPool \<Rightarrow> bool" where
  "MigrateCapable p \<longleftrightarrow> migrateEnabled p \<and> migrateCapable p"

definition noteMigrateTimeout :: "wsPool \<Rightarrow> wsPool" where
  "noteMigrateTimeout p =
     (let n = consecutiveMigrateTimeouts p + 1; p1 = p\<lparr>consecutiveMigrateTimeouts := n\<rparr>
      in if n = migrateHysteresisThreshold \<and> migrateCapable p1 then p1\<lparr>migrateCapable := False\<rparr> else p1)"

definition noteMigrateAck :: "wsPool \<Rightarrow> wsPool" where
  "noteMigrateAck p = p\<lparr>consecutiveMigrateTimeouts := 0\<rparr>"

definition slotForMigrate :: "wsPool \<Rightarrow> nat \<Rightarrow> nat option" where
  "slotForMigrate p targetIdx =
     (case slotAt p targetIdx of
        None \<Rightarrow> None
      | Some a \<Rightarrow> if slot_transport (obj p a) = None \<or> slot_session (obj p a) = None then None
                  else if getState p a \<noteq> slotReady \<and> getState p a \<noteq> slotDraining then None else Some a)"

text \<open>Numbering and encrypting a chunk on the session of slot \<open>a\<close>.\<close>

definition encrypt_on :: "sendEnv \<Rightarrow> nat \<Rightarrow> (session \<Rightarrow> u32 \<Rightarrow> chunk) \<Rightarrow> wsPool \<Rightarrow> bytes option \<times> wsPool" where
  "encrypt_on E a mk p =
     (case slot_session (obj p a) of
        None \<Rightarrow> (None, p)
      | Some ses \<Rightarrow>
          let (seq, ses1) = NextSeqNum ses;
              (r, ses2, _) = EncryptChunk (env_gcm E) (env_buf E) (env_rnd E) (mk ses seq) ses1;
              p1 = upd_obj a (\<lambda>s. s\<lparr>slot_session := Some ses2\<rparr>) p
          in (case r of Ok (enc, _) \<Rightarrow> (Some enc, p1) | _ \<Rightarrow> (None, p1)))"

definition sendMigrate :: "sendEnv \<Rightarrow> u16 \<Rightarrow> byte \<Rightarrow> nat \<Rightarrow> wsPool \<Rightarrow> migrateResult \<times> wsPool" where
  "sendMigrate E sid kind targetIdx p =
     (case StreamProof (client p) sid of
        None \<Rightarrow> (migrateResultNoSend, p)
      | Some proof \<Rightarrow>
     (case slotForMigrate p targetIdx of
        None \<Rightarrow> (migrateResultNoSend, p)
      | Some a \<Rightarrow>
     (case encrypt_on E a (\<lambda>ses seq. \<lparr>SessionID = ID ses, SeqNum = seq, Flags = kind,
                                     Payload = BuildMigrateFrame sid proof\<rparr>) p of
        (None, p1) \<Rightarrow> (migrateResultNoSend, p1)
      | (Some enc, p1) \<Rightarrow>
          let t = the (slot_transport (obj p a))
          in if \<not> env_room E t then (migrateResultNoSend, p1)
             else let p2 = emit (ControlFrame t enc) p1
                  in case env_reply E sid targetIdx of
                       ReplyOK \<Rightarrow> (migrateResultOK, noteMigrateAck p2)
                     | ReplyFail \<Rightarrow> (migrateResultFail, noteMigrateAck p2)
                     | NoReply \<Rightarrow> (migrateResultTimeout, noteMigrateTimeout p2))))"

subsection \<open>Moving streams (migrate\_watchdog.go)\<close>

fun young_scan :: "wsPool \<Rightarrow> nat \<Rightarrow> nat \<Rightarrow> nat option list \<Rightarrow> (nat \<times> int) option \<Rightarrow> (nat \<times> int) option" where
  "young_scan p agingIdx i [] best = best"
| "young_scan p agingIdx i (c # cs) best =
     young_scan p agingIdx (Suc i) cs
       (if i = agingIdx then best
        else case c of
               None \<Rightarrow> best
             | Some a \<Rightarrow>
                 if getState p a \<noteq> slotReady then best
                 else let started = startedAtNs (obj p a)
                      in if started = 0 then best
                         else case best of
                                None \<Rightarrow> Some (i, started)
                              | Some (b, bs) \<Rightarrow> if started > bs then Some (i, started) else Some (b, bs))"

definition selectYoungTargetSlot :: "wsPool \<Rightarrow> nat \<Rightarrow> nat option" where
  "selectYoungTargetSlot p agingIdx = map_option fst (young_scan p agingIdx 0 (slots p) None)"

definition rebindStreamToSlot :: "int \<Rightarrow> u16 \<Rightarrow> nat \<Rightarrow> wsPool \<Rightarrow> wsPool" where
  "rebindStreamToSlot now sid targetIdx p =
     (case entry p sid of
        None \<Rightarrow> p
      | Some e \<Rightarrow>
          if slotIdx e = targetIdx then p
          else let dst = slotAt p targetIdx; src = slotAt p (slotIdx e);
                   p1 = (case dst of
                           None \<Rightarrow> p | Some a \<Rightarrow> upd_obj a (\<lambda>s. s\<lparr>slot_streams := slot_streams s + 1\<rparr>) p);
                   p2 = store_entry sid (newStreamEntry now targetIdx) p1
               in case src of None \<Rightarrow> p2 | Some a \<Rightarrow> upd_obj a decStreamsFloor p2)"

text \<open>\<open>migrateStream\<close> up to the wait for the reply (claim and choice of the target), and after it.\<close>

definition migrate_claim :: "u16 \<Rightarrow> wsPool \<Rightarrow> (nat \<times> nat) option \<times> wsPool" where
  "migrate_claim sid p =
     (if \<not> MigrateCapable p then (None, p)
      else case map_of (streamMap p) sid of
             None \<Rightarrow> (None, p)
           | Some e \<Rightarrow>
               if migrating (entry_objs p ! e) then (None, p)
               else case selectYoungTargetSlot p (slotIdx (entry_objs p ! e)) of
                      None \<Rightarrow> (None, p)
                    | Some targetIdx \<Rightarrow> (Some (e, targetIdx), upd_entry e (\<lambda>x. x\<lparr>migrating := True\<rparr>) p))"

definition migrate_finish :: "int \<Rightarrow> u16 \<Rightarrow> nat \<Rightarrow> nat \<Rightarrow> migrateResult \<Rightarrow> wsPool \<Rightarrow> wsPool" where
  "migrate_finish now sid e targetIdx res p =
     (if res = migrateResultOK then rebindStreamToSlot now sid targetIdx p
      else upd_entry e (\<lambda>x. x\<lparr>migrating := False\<rparr>) p)"

definition migrateStream :: "sendEnv \<Rightarrow> int \<Rightarrow> u16 \<Rightarrow> wsPool \<Rightarrow> wsPool" where
  "migrateStream E now sid p =
     (case migrate_claim sid p of
        (None, p1) \<Rightarrow> p1
      | (Some (e, targetIdx), p1) \<Rightarrow>
          (case sendMigrate E sid FlagMigrate targetIdx p1 of (res, p2) \<Rightarrow> migrate_finish now sid e targetIdx res p2))"

definition schedule_stream :: "nat \<Rightarrow> u16 \<times> nat \<Rightarrow> wsPool \<Rightarrow> wsPool" where
  "schedule_stream agingIdx kv p =
     (let (sid, e) = kv; x = entry_objs p ! e
      in if slotIdx x \<noteq> agingIdx \<or> migrating x \<or> migrationScheduled x then p
         else go (GoMigrateStream sid) (upd_entry e (\<lambda>x. x\<lparr>migrationScheduled := True\<rparr>) p))"

definition scheduleSlotMigration :: "nat \<Rightarrow> wsPool \<Rightarrow> wsPool" where
  "scheduleSlotMigration agingIdx p = fold (schedule_stream agingIdx) (streamMap p) p"

subsection \<open>Death of a slot\<close>

definition sendSlotSessionFIN :: "sendEnv \<Rightarrow> nat \<Rightarrow> wsPool \<Rightarrow> wsPool" where
  "sendSlotSessionFIN E a p =
     (if slot_session (obj p a) = None then p
      else case slot_transport (obj p a) of
             None \<Rightarrow> p
           | Some t \<Rightarrow>
               (case encrypt_on E a (\<lambda>ses seq. NewSessionFinChunk (ID ses) seq) p of
                  (None, p1) \<Rightarrow> p1 | (Some enc, p1) \<Rightarrow> emit (ControlFrame t enc) p1))"

datatype resumeOutcome = resumeOutcomeKept | resumeOutcomeBreak

definition resumeStreamOnDeath ::
  "sendEnv \<Rightarrow> int \<Rightarrow> u16 \<Rightarrow> nat \<Rightarrow> nat \<Rightarrow> wsPool \<Rightarrow> resumeOutcome \<times> wsPool" where
  "resumeStreamOnDeath E now sid e deadIdx p =
     (if migrating (entry_objs p ! e) then (resumeOutcomeKept, p)
      else case selectYoungTargetSlot p deadIdx of
             None \<Rightarrow> (resumeOutcomeBreak, p)
           | Some targetIdx \<Rightarrow>
               (case sendMigrate E sid FlagResume targetIdx (upd_entry e (\<lambda>x. x\<lparr>migrating := True\<rparr>) p) of
                  (res, p1) \<Rightarrow>
                    if res \<noteq> migrateResultOK
                    then (resumeOutcomeBreak, upd_entry e (\<lambda>x. x\<lparr>migrating := False\<rparr>) p1)
                    else (resumeOutcomeKept, rebindStreamToSlot now sid targetIdx p1)))"

text \<open>One visit of the \<open>Range\<close> loop of \<open>handleSlotDeath\<close>.\<close>

definition death_stream :: "sendEnv \<Rightarrow> int \<Rightarrow> bool \<Rightarrow> nat \<Rightarrow> u16 \<Rightarrow> wsPool \<Rightarrow> wsPool" where
  "death_stream E now migrationOn idx sid p =
     (case map_of (streamMap p) sid of
        None \<Rightarrow> p
      | Some e \<Rightarrow>
          if slotIdx (entry_objs p ! e) \<noteq> idx then p
          else if migrationOn
          then (case resumeStreamOnDeath E now sid e idx p of
                  (resumeOutcomeKept, p1) \<Rightarrow> p1
                | (resumeOutcomeBreak, p1) \<Rightarrow> handleStreamClose sid p1)
          else handleStreamClose sid p)"

definition recordSlotDeath :: "int \<Rightarrow> wsPool \<Rightarrow> wsPool" where
  "recordSlotDeath now p =
     (let deaths = recentDeaths p + 1; p1 = p\<lparr>recentDeaths := deaths\<rparr>
      in if deaths \<ge> meltdownThreshold (cfg p) \<and> (meltdownUntil p = 0 \<or> now \<ge> meltdownUntil p)
         then p1\<lparr>meltdownUntil := now + meltdownCooldown (cfg p), recentMeltdownNs := now\<rparr> else p1)"

text \<open>The decrement that \<open>recordSlotDeath\<close> schedules for the end of the window.\<close>

definition death_expires :: "wsPool \<Rightarrow> wsPool" where
  "death_expires p = p\<lparr>recentDeaths := recentDeaths p - 1\<rparr>"

definition meltdownWaitDuration :: "int \<Rightarrow> wsPool \<Rightarrow> int" where
  "meltdownWaitDuration now p =
     (if meltdownUntil p = 0 then 0 else let wait = meltdownUntil p - now in if wait \<le> 0 then 0 else wait)"

text \<open>The last part of \<open>handleSlotDeath\<close>: what happens to the cell, by cause.\<close>

definition death_dispatch :: "int \<Rightarrow> nat \<Rightarrow> slotDeathCause \<Rightarrow> wsPool \<Rightarrow> wsPool" where
  "death_dispatch now idx cause p =
     (case cause of
        deathCauseNatural \<Rightarrow> go (GoReconnect idx) (recordSlotDeath now p)
      | deathCauseAgeCut \<Rightarrow> go (GoReconnectFast idx) p
      | deathCauseNetworkChange \<Rightarrow> go (GoReconnectNetworkChange idx) p
      | deathCausePreemptiveRotation \<Rightarrow> go (GoReconnect idx) p
      | deathCauseDrainTeardown \<Rightarrow> storeSlot idx None p)"

definition close_transport :: "nat \<Rightarrow> wsPool \<Rightarrow> wsPool" where
  "close_transport a p = (case slot_transport (obj p a) of None \<Rightarrow> p | Some t \<Rightarrow> emit (CloseTransport t) p)"

definition accrueAgeExposure :: "nat \<Rightarrow> wsPool \<Rightarrow> wsPool" where
  "accrueAgeExposure a p =
     (if startedAtNs (obj p a) \<le> 0 then p else upd_obj a (\<lambda>s. s\<lparr>ageExposureAccrued := True\<rparr>) p)"

definition sends_fin :: "slotDeathCause \<Rightarrow> bool" where
  "sends_fin cause \<longleftrightarrow> cause \<noteq> deathCauseNatural \<and> cause \<noteq> deathCauseAgeCut \<and> cause \<noteq> deathCauseNetworkChange"

definition handleSlotDeath :: "sendEnv \<Rightarrow> int \<Rightarrow> nat \<Rightarrow> slotDeathCause \<Rightarrow> wsPool \<Rightarrow> wsPool" where
  "handleSlotDeath E now idx cause p =
     (case slotAt p idx of
        None \<Rightarrow> p
      | Some a \<Rightarrow>
          if \<not> fst (tryMarkDead (obj p a)) then p
          else let p1 = upd_obj a (\<lambda>s. (snd (tryMarkDead s))\<lparr>lastDeathNs := now\<rparr>) p;
                   p2 = accrueAgeExposure a p1;
                   p3 = fold (death_stream E now (migrateEnabled p2) idx) (map fst (streamMap p2)) p2;
                   p4 = upd_obj a (\<lambda>s. s\<lparr>slot_streams := 0, pendingConnects := 0\<rparr>) p3;
                   p5 = (if sends_fin cause then sendSlotSessionFIN E a p4 else p4)
               in death_dispatch now idx cause (close_transport a p5))"

definition NetworkChanged :: "sendEnv \<Rightarrow> int \<Rightarrow> wsPool \<Rightarrow> wsPool" where
  "NetworkChanged E now p =
     fold (\<lambda>idx q. case slotAt p idx of
                     None \<Rightarrow> q
                   | Some a \<Rightarrow> if getState q a = slotDead then q else handleSlotDeath E now idx deathCauseNetworkChange q)
       [0..<length (slots p)] (p\<lparr>recentMeltdownNs := now\<rparr>)"

text \<open>\<open>Close\<close>: a FIN on every ready slot, then every transport closed and every session destroyed.\<close>

definition close_slot :: "nat option \<Rightarrow> wsPool \<Rightarrow> wsPool" where
  "close_slot c p =
     (case c of None \<Rightarrow> p
      | Some a \<Rightarrow> upd_obj a (\<lambda>s. s\<lparr>slot_session := map_option Destroy (slot_session s)\<rparr>) (close_transport a p))"

definition fin_slot :: "sendEnv \<Rightarrow> nat option \<Rightarrow> wsPool \<Rightarrow> wsPool" where
  "fin_slot E c p =
     (case c of None \<Rightarrow> p | Some a \<Rightarrow> if getState p a \<noteq> slotReady then p else sendSlotSessionFIN E a p)"

definition Close :: "sendEnv \<Rightarrow> wsPool \<Rightarrow> wsPool" where
  "Close E p = (let p1 = fold (fin_slot E) (slots p) p in fold close_slot (slots p1) p1)"

subsection \<open>Draining (ws\_pool\_drain.go)\<close>

definition Second :: int where "Second = 1000000000"
definition drainPollInterval :: int where "drainPollInterval = 500 * Millisecond"
definition stickyRecheckInterval :: int where "stickyRecheckInterval = 5 * Second"
definition drainRevertBackoff :: int where "drainRevertBackoff = 30 * Second"
definition drainStormBrakeBackoff :: int where "drainStormBrakeBackoff = 5 * Second"
definition drainCatastrophicBackoff :: int where "drainCatastrophicBackoff = 150 * Second"
definition emergencyEvictAgeMultiplier :: int where "emergencyEvictAgeMultiplier = 2"

text \<open>
  \<open>computeReserveBackoff\<close> before its jitter: half a second, doubled per failure, at most 30 s.
\<close>

definition reserveConnectInitialBackoff :: int where "reserveConnectInitialBackoff = 500 * Millisecond"
definition reserveConnectMaxBackoff :: int where "reserveConnectMaxBackoff = 30 * Second"

definition reserve_delay :: "int \<Rightarrow> int" where
  "reserve_delay failures =
     (let failures = (if failures < 1 then 1 else failures);
          shift = (if failures - 1 > 30 then 30 else failures - 1);
          delay = reserveConnectInitialBackoff * 2 ^ nat shift
      in if delay > reserveConnectMaxBackoff \<or> delay \<le> 0 then reserveConnectMaxBackoff else delay)"

fun free_scan :: "nat \<Rightarrow> nat option list \<Rightarrow> nat option" where
  "free_scan i [] = None"
| "free_scan i (c # cs) = (if c = None then Some i else free_scan (Suc i) cs)"

definition claimFreeSlot :: "wsPool \<Rightarrow> nat option \<times> wsPool" where
  "claimFreeSlot p =
     (case free_scan 0 (slots p) of
        None \<Rightarrow> (None, p)
      | Some i \<Rightarrow> let (a, p1) = alloc_obj (new_slot 0) p in (Some i, storeSlot i (Some a) p1))"

datatype healingSkipReason = healingNotNeededCapacityFull | healingBlockedNoFreeCell | healingProceeds

definition claimFreeCellForHealingWithReason :: "wsPool \<Rightarrow> nat option \<times> healingSkipReason" where
  "claimFreeCellForHealingWithReason p =
     (let healthy = state_count p (slots p) slotReady + state_count p (slots p) slotConnecting
      in if healthy \<ge> int (poolSize (cfg p)) then (None, healingNotNeededCapacityFull)
         else case free_scan 0 (slots p) of
                None \<Rightarrow> (None, healingBlockedNoFreeCell)
              | Some i \<Rightarrow> (Some i, healingProceeds))"

definition bump_generation :: "nat \<Rightarrow> wsPool \<Rightarrow> wsPool" where
  "bump_generation a p = upd_obj a (\<lambda>s. s\<lparr>generation := generation s + 1\<rparr>) p"

text \<open>
  \<open>tryForceEvictIdleSlot\<close>: the first ready slot without streams.  The second look at the
  counter, after the state change, sees the same value when nothing runs in between.
\<close>

fun idle_scan :: "wsPool \<Rightarrow> nat \<Rightarrow> nat \<Rightarrow> nat option list \<Rightarrow> nat option" where
  "idle_scan p skipIdx i [] = None"
| "idle_scan p skipIdx i (c # cs) =
     (case c of
        None \<Rightarrow> idle_scan p skipIdx (Suc i) cs
      | Some a \<Rightarrow>
          if i \<noteq> skipIdx \<and> getState p a = slotReady \<and> slot_streams (obj p a) = 0 then Some i
          else idle_scan p skipIdx (Suc i) cs)"

definition evict :: "sendEnv \<Rightarrow> int \<Rightarrow> nat \<Rightarrow> nat \<Rightarrow> wsPool \<Rightarrow> wsPool" where
  "evict E now i a p = handleSlotDeath E now i deathCauseDrainTeardown (bump_generation a p)"

definition tryForceEvictIdleSlot :: "sendEnv \<Rightarrow> int \<Rightarrow> nat \<Rightarrow> wsPool \<Rightarrow> bool \<times> wsPool" where
  "tryForceEvictIdleSlot E now skipIdx p =
     (case idle_scan p skipIdx 0 (slots p) of
        None \<Rightarrow> (False, p)
      | Some i \<Rightarrow>
          let a = the (slotAt p i)
          in (True, evict E now i a (upd_obj a (\<lambda>s. snd (tryMarkDraining s)) p)))"

definition evict_score :: "wsPool \<Rightarrow> nat \<Rightarrow> nat option \<Rightarrow> nat \<Rightarrow> int option" where
  "evict_score p skipIdx c i = (if i = skipIdx then None else load_score p c i)"

definition migrateVictimStreams :: "sendEnv \<Rightarrow> int \<Rightarrow> nat \<Rightarrow> wsPool \<Rightarrow> wsPool" where
  "migrateVictimStreams E now victimIdx p =
     (let victimIDs = map fst (filter (\<lambda>(sid, e). slotIdx (entry_objs p ! e) = victimIdx) (streamMap p))
      in fold (migrateStream E now) (take (env_budget E) victimIDs) p)"

definition tryEmergencyEvictMinStreamsSlot :: "sendEnv \<Rightarrow> int \<Rightarrow> nat \<Rightarrow> wsPool \<Rightarrow> bool \<times> wsPool" where
  "tryEmergencyEvictMinStreamsSlot E now skipIdx p =
     (case pick_min (evict_score p skipIdx) (slots p) of
        None \<Rightarrow> (False, p)
      | Some i \<Rightarrow>
          let a = the (slotAt p i);
              p1 = upd_obj a (\<lambda>s. snd (tryMarkDraining s)) p;
              p2 = (if MigrateCapable p1 then migrateVictimStreams E now i p1 else p1)
          in (True, evict E now i a p2))"

definition drainTargetOverAged :: "int \<Rightarrow> nat \<Rightarrow> wsPool \<Rightarrow> bool" where
  "drainTargetOverAged now a p \<longleftrightarrow> maxSlotAge (cfg p) > 0 \<and> startedAtNs (obj p a) \<noteq> 0 \<and>
     now - startedAtNs (obj p a) \<ge> emergencyEvictAgeMultiplier * maxSlotAge (cfg p)"

definition defer_drain :: "nat \<Rightarrow> int \<Rightarrow> wsPool \<Rightarrow> wsPool" where
  "defer_drain a until p = upd_obj a (\<lambda>s. s\<lparr>nextDrainAttemptNs := until\<rparr>) p"

definition claim_or_evict :: "sendEnv \<Rightarrow> int \<Rightarrow> nat \<Rightarrow> nat \<Rightarrow> wsPool \<Rightarrow> nat option \<times> wsPool" where
  "claim_or_evict E now oldIdx a p =
     (case claimFreeSlot p of
        (Some i, p1) \<Rightarrow> (Some i, p1)
      | (None, p1) \<Rightarrow>
          (case tryForceEvictIdleSlot E now oldIdx p1 of
             (True, p2) \<Rightarrow> claimFreeSlot p2
           | (False, p2) \<Rightarrow>
               if drainTargetOverAged now a p2
               then (case tryEmergencyEvictMinStreamsSlot E now oldIdx p2 of
                       (True, p3) \<Rightarrow> claimFreeSlot p3 | (False, p3) \<Rightarrow> (None, p3))
               else (None, p2)))"

definition startDrain :: "sendEnv \<Rightarrow> int \<Rightarrow> nat \<Rightarrow> wsPool \<Rightarrow> wsPool" where
  "startDrain E now oldIdx p =
     (if \<not> gracefulDrain (cfg p) then p
      else case slotAt p oldIdx of
        None \<Rightarrow> p
      | Some a \<Rightarrow>
          if inflightDrains p + 1 > maxConcurrentDrains (cfg p)
          then defer_drain a (now + drainStormBrakeBackoff) p
          else if readyCapacity p < readyCapacityFloor (cfg p)
          then defer_drain a (now + (if readyCapacity p < int (poolSize (cfg p) div 2)
                                     then drainCatastrophicBackoff else drainStormBrakeBackoff)) p
          else if \<not> fst (tryMarkDraining (obj p a)) then p
          else (case claim_or_evict E now oldIdx a (upd_obj a (\<lambda>s. snd (tryMarkDraining s)) p) of
                  (None, p1) \<Rightarrow>
                    defer_drain a (now + drainRevertBackoff)
                      (upd_obj a (\<lambda>s. if slot_state s = slotDraining then s\<lparr>slot_state := slotReady\<rparr> else s) p1)
                | (Some newIdx, p1) \<Rightarrow>
                    go (GoDrainWatchdog oldIdx a now) (go (GoConnectReserve newIdx oldIdx)
                      (p1\<lparr>inflightDrains := inflightDrains p1 + 1\<rparr>))))"

text \<open>\<open>connectReserveSlot\<close> after \<open>connectSlot\<close> returned.\<close>

definition connectReserveSlot_done :: "nat \<Rightarrow> connectErr option \<Rightarrow> wsPool \<Rightarrow> wsPool" where
  "connectReserveSlot_done newIdx err p =
     (case err of
        Some ErrCellOccupied \<Rightarrow> p
      | Some _ \<Rightarrow>
          let p1 = p\<lparr>reserveConnectFailures := (reserveConnectFailures p)[newIdx := reserveConnectFailures p ! newIdx + 1]\<rparr>;
              p2 = (case slotAt p1 newIdx of
                      Some a \<Rightarrow> if getState p1 a \<noteq> slotReady then storeSlot newIdx None p1 else p1
                    | None \<Rightarrow> p1)
          in go (GoReconnect newIdx) p2
      | None \<Rightarrow> go (GoSlotReader newIdx) (p\<lparr>reserveConnectFailures := (reserveConnectFailures p)[newIdx := 0]\<rparr>))"

subsection \<open>The drain watchdog\<close>

datatype finishCause =
    finishStreamsZero | finishIdle | finishHardCap | finishStickyAgeBackstop | finishStickyBytesBackstop
  | finishStickyQuotaDenied | finishPhantom

text \<open>
  What the watchdog of the drain of slot \<open>a\<close> in cell \<open>idx\<close>, started at \<open>start\<close>, keeps between
  two events: the instant \<open>phantomSeenAt\<close>, \<open>None\<close> for the zero time.
\<close>

definition isPhantomCounter :: "wsPool \<Rightarrow> nat \<Rightarrow> nat \<Rightarrow> int \<Rightarrow> int option \<Rightarrow> bool \<times> int option" where
  "isPhantomCounter p idx a now seen =
     (if slot_streams (obj p a) \<le> 0 then (False, None)
      else if snap_total (snapshotDrainStreams p idx now) \<noteq> 0 then (False, None)
      else case seen of
             None \<Rightarrow> (False, Some now)
           | Some t \<Rightarrow> if now - t < drainPollInterval then (False, seen) else (True, seen))"

text \<open>The two branches of the watchdog's \<open>select\<close>: the reason to tear down, if any.\<close>

definition watchdog_tick :: "wsPool \<Rightarrow> nat \<Rightarrow> nat \<Rightarrow> int \<Rightarrow> int option \<Rightarrow> finishCause option \<times> int option" where
  "watchdog_tick p idx a now seen =
     (if slot_streams (obj p a) = 0 then (Some finishStreamsZero, seen)
      else let (phantom, seen') = isPhantomCounter p idx a now seen
           in if phantom then (Some finishPhantom, seen')
              else if drainIdleThreshold (cfg p) > 0 \<and> allStreamsIdle p idx (drainIdleThreshold (cfg p)) now
              then (Some finishIdle, seen') else (None, seen'))"

definition watchdog_deadline ::
  "wsPool \<Rightarrow> nat \<Rightarrow> nat \<Rightarrow> int \<Rightarrow> int \<Rightarrow> int option \<Rightarrow> finishCause option \<times> int option" where
  "watchdog_deadline p idx a start now seen =
     (if stickyMaxDrainAge (cfg p) \<le> 0 \<or> \<not> drainIdleThreshold (cfg p) > 0 then (Some finishHardCap, seen)
      else let (phantom, seen') = isPhantomCounter p idx a now seen
           in (if phantom then Some finishPhantom
               else if slot_streams (obj p a) = 0 then Some finishStreamsZero
               else if allStreamsIdle p idx (drainIdleThreshold (cfg p)) now then Some finishIdle
               else if now - start \<ge> stickyMaxDrainAge (cfg p) then Some finishStickyAgeBackstop
               else if downBytes (obj p a) \<ge> stickyMaxTotalBytes (cfg p) then Some finishStickyBytesBackstop
               else if isSticky (obj p a) \<and> readyCapacity p \<le> readyCapacityFloor (cfg p)
               then Some finishStickyQuotaDenied
               else if \<not> stickyQuotaAvailable a p then Some finishStickyQuotaDenied
               else None, seen'))"

text \<open>\<open>tearDown\<close> and the deferred calls of the watchdog.\<close>

definition watchdog_finish :: "sendEnv \<Rightarrow> int \<Rightarrow> nat \<Rightarrow> nat \<Rightarrow> wsPool \<Rightarrow> wsPool" where
  "watchdog_finish E now idx a p =
     (let p1 = handleSlotDeath E now idx deathCauseDrainTeardown (bump_generation a (accrueAgeExposure a p));
          p2 = releaseSticky a p1
      in p2\<lparr>inflightDrains := inflightDrains p2 - 1\<rparr>)"

definition watchdog_extend :: "nat \<Rightarrow> wsPool \<Rightarrow> wsPool" where
  "watchdog_extend a p = markSticky a p"

text \<open>
  The deadline branch as a loop: the timer fires first at \<open>start + drainHardCap\<close> and then every
  \<open>stickyRecheckInterval\<close>.  The pool it finds at each instant, and what the ticks in between
  left in \<open>phantomSeenAt\<close>, are arbitrary functions of the instant.
\<close>

function deadline_loop ::
  "poolConfig \<Rightarrow> (int \<Rightarrow> wsPool) \<Rightarrow> (int \<Rightarrow> int option) \<Rightarrow> nat \<Rightarrow> nat \<Rightarrow> int \<Rightarrow> int \<Rightarrow> finishCause \<times> int" where
  "deadline_loop C pool seen idx a start t =
     (case fst (watchdog_deadline ((pool t)\<lparr>cfg := C\<rparr>) idx a start t (seen t)) of
        Some c \<Rightarrow> (c, t)
      | None \<Rightarrow> deadline_loop C pool seen idx a start (t + stickyRecheckInterval))"
  by pat_completeness auto

text \<open>A deadline that extends the drain fires before \<open>stickyMaxDrainAge\<close> has passed.\<close>

lemma watchdog_extends:
  assumes "fst (watchdog_deadline p idx a start now seen) = None"
  shows "now - start < stickyMaxDrainAge (cfg p)" "0 < stickyMaxDrainAge (cfg p)" "0 < drainIdleThreshold (cfg p)"
  using assms by (auto simp: watchdog_deadline_def Let_def split: prod.splits if_splits)

termination deadline_loop
proof (relation "measure (\<lambda>(C, pool, seen, idx, a, start, t). nat (start + stickyMaxDrainAge C + stickyRecheckInterval - t))")
  fix C and pool :: "int \<Rightarrow> wsPool" and seen idx a start t
  assume "fst (watchdog_deadline ((pool t)\<lparr>cfg := C\<rparr>) idx a start t (seen t)) = None"
  from watchdog_extends(1) [OF this] have "t - start < stickyMaxDrainAge C" by simp
  then show "((C, pool, seen, idx, a, start, t + stickyRecheckInterval), C, pool, seen, idx, a, start, t)
      \<in> measure (\<lambda>(C, pool, seen, idx, a, start, t). nat (start + stickyMaxDrainAge C + stickyRecheckInterval - t))"
    by (simp add: stickyRecheckInterval_def Second_def)
qed simp

declare deadline_loop.simps [simp del]

lemma deadline_loop_bound:
  "snd (deadline_loop C pool seen idx a start t) \<le> max t (start + stickyMaxDrainAge C + stickyRecheckInterval) \<and>
   (stickyMaxDrainAge C \<le> 0 \<longrightarrow> snd (deadline_loop C pool seen idx a start t) = t)"
proof (induction C pool seen idx a start t rule: deadline_loop.induct)
  case (1 C pool seen idx a start t)
  show ?case
  proof (cases "fst (watchdog_deadline ((pool t)\<lparr>cfg := C\<rparr>) idx a start t (seen t))")
    case None
    then show ?thesis
      using 1 [OF None] watchdog_extends [OF None] by (subst (1 2) deadline_loop.simps) auto
  qed (subst (1 2) deadline_loop.simps, simp)
qed

subsection \<open>Rotation\<close>

definition slotRotationGraceWithActiveStreams :: int where
  "slotRotationGraceWithActiveStreams = 30 * Second"

definition fireRotation :: "sendEnv \<Rightarrow> int \<Rightarrow> nat \<Rightarrow> wsPool \<Rightarrow> wsPool" where
  "fireRotation E now idx p = handleSlotDeath E now idx deathCausePreemptiveRotation p"

datatype rotateReason = ReasonAge | ReasonByteBudget

definition maybeRotateSlot ::
  "sendEnv \<Rightarrow> int \<Rightarrow> nat \<Rightarrow> nat \<Rightarrow> rotateReason \<Rightarrow> wsPool \<Rightarrow> bool \<times> wsPool" where
  "maybeRotateSlot E now idx a reason p =
     (let s = obj p a;
          deferredAt = rotationDeferredNs s;
          graceExpired = (deferredAt \<noteq> 0 \<and> now - deferredAt \<ge> slotRotationGraceWithActiveStreams);
          deferTo = (\<lambda>t. upd_obj a (\<lambda>s. s\<lparr>rotationDeferredNs := t\<rparr>) p)
      in if \<not> graceExpired \<and> readyCapacity p < readyCapacityFloor (cfg p)
         then (False, if deferredAt = 0 then deferTo now else p)
         else if slot_streams s = 0 then (True, fireRotation E now idx p)
         else if deferredAt = 0
         then (False, deferTo (if reason = ReasonByteBudget \<and> poolSize (cfg p) > 1
                               then now + staggerOffsetNs s else now))
         else if graceExpired then (True, fireRotation E now idx p)
         else (False, p))"

text \<open>
  One cell of \<open>rotationWatchdogSweep\<close>.  \<open>adapted\<close> is \<open>ageAdapter.Threshold()\<close>, 0 when it has none.
\<close>

definition sweep_slot :: "sendEnv \<Rightarrow> int \<Rightarrow> int \<Rightarrow> nat \<times> nat option \<Rightarrow> wsPool \<Rightarrow> wsPool" where
  "sweep_slot E now adapted cell p =
     (case cell of
        (idx, None) \<Rightarrow> p
      | (idx, Some a) \<Rightarrow>
          if getState p a \<noteq> slotReady \<or> nextDrainAttemptNs (obj p a) > now \<or> startedAtNs (obj p a) = 0 then p
          else let started = startedAtNs (obj p a);
                   migThresh = migrationThresholdNs (obj p a);
                   p1 = (if migThresh > 0 \<and> now - started \<ge> migThresh \<and> MigrateCapable p \<and> slot_streams (obj p a) > 0
                         then scheduleSlotMigration idx p else p);
                   baseMaxAge = (if adapted > 0 then adapted else maxSlotAge (cfg p1))
               in if now - started < baseMaxAge + staggerOffsetNs (obj p1 a) then p1
                  else if gracefulDrain (cfg p1) then startDrain E now idx p1
                  else snd (maybeRotateSlot E now idx a ReasonAge p1))"

definition rotationWatchdogSweep :: "sendEnv \<Rightarrow> int \<Rightarrow> int \<Rightarrow> wsPool \<Rightarrow> wsPool" where
  "rotationWatchdogSweep E now adapted p = fold (sweep_slot E now adapted) (enumerate 0 (slots p)) p"

text \<open>
  \<open>legacyRotateOneSlot\<close>: the part before the wait, and the part after it.  \<open>hs\<close> and \<open>up\<close> are what
  the network would answer to \<open>connectSlot\<close>.
\<close>

definition legacy_begin :: "nat \<Rightarrow> wsPool \<Rightarrow> nat option \<times> wsPool" where
  "legacy_begin minIdx p =
     (case slotAt p minIdx of
        None \<Rightarrow> (None, p) | Some a \<Rightarrow> (Some a, upd_obj a (\<lambda>s. s\<lparr>slot_state := slotDraining\<rparr>) p))"

definition legacy_reconnect ::
  "int \<Rightarrow> nat \<Rightarrow> nat \<Rightarrow> session option \<times> bool \<Rightarrow> (connectErr, upgraded) outcome \<Rightarrow> wsPool \<Rightarrow> wsPool" where
  "legacy_reconnect now minIdx a hs up p =
     (let p1 = close_transport a (bump_generation a p);
          p2 = upd_obj a (\<lambda>s. s\<lparr>slot_session := map_option Destroy (slot_session s)\<rparr>) p1
      in case connectSlot now minIdx hs up p2 of
           (None, p3) \<Rightarrow> go (GoSlotReader minIdx) p3
         | (Some _, p3) \<Rightarrow> go (GoReconnect minIdx) p3)"

definition rotateMinLoadedSlot :: "sendEnv \<Rightarrow> int \<Rightarrow> wsPool \<Rightarrow> wsPool" where
  "rotateMinLoadedSlot E now p =
     (case pick_min (load_score p) (slots p) of
        None \<Rightarrow> p
      | Some minIdx \<Rightarrow> if gracefulDrain (cfg p) then startDrain E now minIdx p else snd (legacy_begin minIdx p))"

text \<open>The rotation check at the end of the reader's loop body, for a frame of \<open>n\<close> bytes.\<close>

definition byteBudgetRotationAllowed :: "int \<Rightarrow> int \<Rightarrow> bool" where
  "byteBudgetRotationAllowed slotAge minInterval = (if minInterval \<le> 0 then True else slotAge \<ge> minInterval)"

definition reader_rotation :: "sendEnv \<Rightarrow> int \<Rightarrow> nat \<Rightarrow> nat \<Rightarrow> int \<Rightarrow> int \<Rightarrow> wsPool \<Rightarrow> wsPool" where
  "reader_rotation E now idx a slotAge n p =
     (if byteBudget (obj p a) \<le> 0 then p
      else let newBytes = downBytes (obj p a) + n;
               p1 = upd_obj a (\<lambda>s. s\<lparr>downBytes := newBytes\<rparr>) p
           in if newBytes \<ge> byteBudget (obj p a) \<and> byteBudgetRotationAllowed slotAge (byteBudgetMinInterval (cfg p))
              then if gracefulDrain (cfg p)
                   then if getState p1 a = slotReady
                        then go (GoStartDrain idx) (upd_obj a (\<lambda>s. s\<lparr>downBytes := 0\<rparr>) p1) else p1
                   else snd (maybeRotateSlot E now idx a ReasonByteBudget p1)
              else p1)"

subsection \<open>The reconnect loop\<close>

definition maxHealingRetargets :: nat where "maxHealingRetargets = 3"

definition slotBackoffDuration :: "nat \<Rightarrow> int \<Rightarrow> int" where
  "slotBackoffDuration attempt jitter =
     (let d = 5 * Second * 2 ^ (min attempt 6) + jitter in if d > 60 * Second then 60 * Second else d)"

text \<open>
  State of one loop: the cell, the attempt number, how often it changed cells and whether the
  last attempt was rate limited.  One round is: the recycle guard, then the connection
  attempt, whose outcome the network decides.  \<open>revived\<close> says whether the pause before the
  round was cut short by another slot's success.
\<close>

record reconnectLoop =
  rl_idx :: nat
  rl_attempt :: int
  rl_retargets :: nat
  rl_limited :: bool

datatype loopNext = LoopStop | LoopAgain reconnectLoop

definition heal_or_stop :: "reconnectLoop \<Rightarrow> wsPool \<Rightarrow> loopNext" where
  "heal_or_stop L p =
     (if rl_retargets L \<ge> maxHealingRetargets then LoopStop
      else case claimFreeCellForHealingWithReason p of
             (Some free, _) \<Rightarrow> LoopAgain (L\<lparr>rl_idx := free, rl_retargets := rl_retargets L + 1, rl_attempt := rl_attempt L + 1\<rparr>)
           | (None, _) \<Rightarrow> LoopStop)"

definition cell_recycled :: "nat \<Rightarrow> wsPool \<Rightarrow> bool" where
  "cell_recycled idx p = (case slotAt p idx of None \<Rightarrow> False | Some a \<Rightarrow> getState p a \<noteq> slotDead)"

definition reconnect_round ::
  "int \<Rightarrow> bool \<Rightarrow> session option \<times> bool \<Rightarrow> (connectErr, upgraded) outcome \<Rightarrow> reconnectLoop \<Rightarrow> wsPool \<Rightarrow>
   loopNext \<times> wsPool" where
  "reconnect_round now revived hs up L p =
     (let L1 = (if revived \<and> \<not> rl_limited L then L\<lparr>rl_attempt := - 1\<rparr> else L)
      in if cell_recycled (rl_idx L1) p then (heal_or_stop L1 p, p)
         else case connectSlot now (rl_idx L1) hs up p of
                (None, p1) \<Rightarrow> (LoopStop, go (GoSlotReader (rl_idx L1)) p1)
              | (Some ErrCellOccupied, p1) \<Rightarrow> (heal_or_stop L1 p1, p1)
              | (Some ErrRateLimited, p1) \<Rightarrow> (LoopAgain (L1\<lparr>rl_limited := True, rl_attempt := rl_attempt L1 + 1\<rparr>), p1)
              | (Some ErrConnectFailed, p1) \<Rightarrow> (LoopAgain (L1\<lparr>rl_limited := False, rl_attempt := rl_attempt L1 + 1\<rparr>), p1))"

end
