(* ===== verification/Ws_Pool_Inv.thy ===== *)
theory Ws_Pool_Inv
  imports Ws_Pool_Life "HOL-Library.Multiset"
begin

section \<open>The WebSocket pool of the client: invariants and what they give\<close>

text \<open>
  Every operation of the life cycle keeps the invariant of the stream table, in any order of
  operations, with the installation and the completion of a connection as separate steps.
  From it follow the statements about counters, drains and deaths that the comments of the
  source rely on; the runs at the end show the orders of operations for which the code does
  not do what it means to.
\<close>

subsection \<open>Updates that leave the table and the counters alone\<close>

definition same_table :: "wsPool \<Rightarrow> wsPool \<Rightarrow> bool" where
  "same_table p q \<longleftrightarrow> cfg q = cfg p \<and> slots q = slots p \<and> streamMap q = streamMap p \<and>
     entry_objs q = entry_objs p \<and> length (slot_objs q) = length (slot_objs p) \<and>
     (\<forall>a < length (slot_objs p). slot_streams (obj q a) = slot_streams (obj p a) \<and>
        slot_state (obj q a) = slot_state (obj p a) \<and> startedAtNs (obj q a) = startedAtNs (obj p a) \<and>
        isSticky (obj q a) = isSticky (obj p a) \<and> lastDeathNs (obj q a) = lastDeathNs (obj p a)) \<and>
     stickyDrainCount q = stickyDrainCount p \<and> inflightDrains q = inflightDrains p"

lemma same_table_refl [simp]: "same_table p p"
  by (simp add: same_table_def)

lemma same_table_trans: "same_table p q \<Longrightarrow> same_table q r \<Longrightarrow> same_table p r"
  by (simp add: same_table_def)

lemma same_table_entry: "same_table p q \<Longrightarrow> entry q = entry p"
  by (auto simp: same_table_def entry_def fun_eq_iff)

lemma same_table_slotAt: "same_table p q \<Longrightarrow> slotAt q = slotAt p"
  by (auto simp: same_table_def slotAt_def fun_eq_iff)

lemma same_table_ok:
  assumes "same_table p q" "wspool_ok p" shows "wspool_ok q"
proof -
  have s: "slotAt q = slotAt p" "entry q = entry p" using assms(1) by (simp_all add: same_table_slotAt same_table_entry)
  have "slotAt p i = Some a \<Longrightarrow> slot_streams (obj q a) = slot_streams (obj p a)" for i a
    using assms slotAt_valid [of p i a] by (auto simp: same_table_def wspool_ok_def)
  moreover have "streams_on q = streams_on p" by (simp add: streams_on_def fun_eq_iff s)
  ultimately show ?thesis
    using assms s by (simp add: wspool_ok_def table_ok_def cells_ok_def counts_ok_def same_table_def)
qed

lemma same_table_emit [simp]: "same_table p (emit w q) = same_table p q"
  by (simp add: same_table_def emit_def obj_def)

lemma same_table_go [simp]: "same_table p (go g q) = same_table p q"
  by (simp add: same_table_def go_def obj_def)

lemma same_table_session: "same_table p (upd_obj a (\<lambda>s. s\<lparr>slot_session := x\<rparr>) p)"
  by (simp add: same_table_def obj_upd_valid) (simp add: upd_obj_def)

lemma same_table_encrypt_on: "same_table p (snd (encrypt_on E a mk p))"
  by (auto simp: encrypt_on_def Let_def split_def same_table_session split: option.split outcome.split)

lemma same_table_notes [simp]:
  "same_table p (noteMigrateAck q) = same_table p q" "same_table p (noteMigrateTimeout q) = same_table p q"
  by (auto simp: same_table_def noteMigrateAck_def noteMigrateTimeout_def Let_def obj_def)

lemma same_table_sendMigrate: "same_table p (snd (sendMigrate E sid kind t p))"
proof -
  have e: "same_table p q" if "encrypt_on E a mk p = (r, q)" for a mk r q
    using same_table_encrypt_on [of p E a mk] that by simp
  show ?thesis
    unfolding sendMigrate_def
    by (auto simp: Let_def dest: e split: option.split migrateReply.split prod.split)
qed

lemma same_table_FIN: "same_table p (sendSlotSessionFIN E a p)"
proof -
  have e: "same_table p q" if "encrypt_on E a mk p = (r, q)" for mk r q
    using same_table_encrypt_on [of p E a mk] that by simp
  show ?thesis
    unfolding sendSlotSessionFIN_def by (auto dest: e split: option.split prod.split)
qed

lemma same_table_close [simp]: "same_table p (close_transport a q) = same_table p q"
  by (simp add: close_transport_def split: option.split)

subsection \<open>Cells\<close>

lemma slotAt_storeSlot: "slotAt (storeSlot i x p) j = (if j = i \<and> i < length (slots p) then x else slotAt p j)"
  by (auto simp: slotAt_def storeSlot_def)

lemma storeSlot_simps [simp]:
  "entry (storeSlot i x p) = entry p" "obj (storeSlot i x p) = obj p" "table_ok (storeSlot i x p) = table_ok p"
  "streams_on (storeSlot i x p) = streams_on p" "cfg (storeSlot i x p) = cfg p"
  "length (slots (storeSlot i x p)) = length (slots p)" "slot_objs (storeSlot i x p) = slot_objs p"
  by (auto simp: storeSlot_def obj_def fun_eq_iff)

lemma wspool_ok_clear: "wspool_ok p \<Longrightarrow> wspool_ok (storeSlot i None p)"
  unfolding wspool_ok_def
  by (auto simp: cells_ok_def counts_ok_def slotAt_storeSlot split: if_splits)

lemma alloc_simps:
  assumes "alloc_obj s p = (a, q)"
  shows "a = length (slot_objs p)" "slotAt q = slotAt p" "entry q = entry p" "slots q = slots p" "cfg q = cfg p"
    "slot_objs q = slot_objs p @ [s]" "streams_on q = streams_on p" "table_ok q = table_ok p"
    "obj q a = s" "b < length (slot_objs p) \<Longrightarrow> obj q b = obj p b"
  using assms
  by (auto simp: alloc_obj_def slotAt_def entry_def streams_on_def table_ok_def obj_def fun_eq_iff nth_append)

lemma wspool_ok_install:
  assumes ok: "wspool_ok p" and al: "alloc_obj s p = (a, q)" and s: "slot_streams s = 0"
  shows "wspool_ok (storeSlot i (Some a) q)"
proof -
  note A = alloc_simps [OF al]
  have v: "b < length (slot_objs p)" if "slotAt p j = Some b" for j b
    using ok that by (auto simp: wspool_ok_def cells_ok_def)
  have "0 \<le> slot_streams (obj q b) \<and> slot_streams (obj q b) \<le> int (card (streams_on p j))"
    if "slotAt p j = Some b" for j b
    using ok that A(10) [OF v [OF that]] by (auto simp: wspool_ok_def counts_ok_def)
  moreover have "b \<noteq> a" if "slotAt p j = Some b" for j b
    using v [OF that] by (simp add: A(1))
  moreover have "slot_streams (obj q a) = 0" using A(9) s by simp
  ultimately show ?thesis
    using ok v A(1) unfolding wspool_ok_def
    by (auto simp: A(2-8) cells_ok_def counts_ok_def slotAt_storeSlot less_SucI split: if_splits)
qed

subsection \<open>Moving a stream\<close>

lemma rebind_eq:
  assumes "entry p sid = Some e" "slotIdx e \<noteq> t"
  shows "rebindStreamToSlot now sid t p =
    (let p2 = store_entry sid (newStreamEntry now t)
       (case slotAt p t of None \<Rightarrow> p | Some d \<Rightarrow> upd_obj d (\<lambda>s. s\<lparr>slot_streams := slot_streams s + 1\<rparr>) p)
     in case slotAt p (slotIdx e) of None \<Rightarrow> p2 | Some a \<Rightarrow> upd_obj a decStreamsFloor p2)"
  using assms by (simp add: rebindStreamToSlot_def Let_def)

lemma slot_objs_store_entry [simp]: "slot_objs (store_entry sid x p) = slot_objs p"
  by (simp add: store_entry_def)

lemma streams_rebind:
  assumes "cells_ok p" "entry p sid = Some e" "slotIdx e \<noteq> t" "slotAt p j = Some b"
  shows "slot_streams (obj (rebindStreamToSlot now sid t p) b) =
    (if j = t then slot_streams (obj p b) + 1
     else if j = slotIdx e then slot_streams (decStreamsFloor (obj p b)) else slot_streams (obj p b))"
proof -
  let ?p1 = "case slotAt p t of None \<Rightarrow> p | Some d \<Rightarrow> upd_obj d (\<lambda>s. s\<lparr>slot_streams := slot_streams s + 1\<rparr>) p"
  have v: "b < length (slot_objs p)" using assms(1,4) by (rule slotAt_valid)
  then have v1: "b < length (slot_objs ?p1)" by (simp split: option.split)
  have o1: "obj ?p1 b = (if j = t then (obj p b)\<lparr>slot_streams := slot_streams (obj p b) + 1\<rparr> else obj p b)"
  proof (cases "slotAt p t")
    case (Some d)
    have "b = d \<longleftrightarrow> j = t" by (rule slotAt_eq_iff [OF assms(1,4) Some])
    then show ?thesis using Some v by (cases "j = t") (simp_all add: obj_upd_valid)
  qed (use assms(4) in auto)
  show ?thesis
  proof (cases "slotAt p (slotIdx e)")
    case (Some a)
    have "b = a \<longleftrightarrow> j = slotIdx e" by (rule slotAt_eq_iff [OF assms(1,4) Some])
    then show ?thesis
      using Some v1 o1 assms(3)
      by (cases "j = slotIdx e") (simp_all add: rebind_eq [OF assms(2,3)] Let_def obj_upd_valid)
  next
    case None
    then have "j \<noteq> slotIdx e" using assms(4) by auto
    then show ?thesis using None o1 by (simp add: rebind_eq [OF assms(2,3)] Let_def)
  qed
qed

lemma rebind_frame:
  assumes "table_ok p" "entry p sid = Some e" "slotIdx e \<noteq> t"
  shows "slotAt (rebindStreamToSlot now sid t p) = slotAt p"
    and "entry (rebindStreamToSlot now sid t p) = (entry p)(sid \<mapsto> newStreamEntry now t)"
    and "table_ok (rebindStreamToSlot now sid t p)"
    and "slots (rebindStreamToSlot now sid t p) = slots p" "cfg (rebindStreamToSlot now sid t p) = cfg p"
    and "length (slot_objs (rebindStreamToSlot now sid t p)) = length (slot_objs p)"
proof -
  let ?p1 = "case slotAt p t of None \<Rightarrow> p | Some d \<Rightarrow> upd_obj d (\<lambda>s. s\<lparr>slot_streams := slot_streams s + 1\<rparr>) p"
  have t1: "table_ok ?p1" using assms(1) by (simp split: option.split)
  have e1: "entry ?p1 = entry p" by (simp split: option.split)
  show "slotAt (rebindStreamToSlot now sid t p) = slotAt p"
    "slots (rebindStreamToSlot now sid t p) = slots p" "cfg (rebindStreamToSlot now sid t p) = cfg p"
    "length (slot_objs (rebindStreamToSlot now sid t p)) = length (slot_objs p)"
    by (auto simp: rebind_eq [OF assms(2,3)] Let_def split: option.split)
  show "entry (rebindStreamToSlot now sid t p) = (entry p)(sid \<mapsto> newStreamEntry now t)"
    using entry_store [OF t1, of sid "newStreamEntry now t"]
    by (auto simp: rebind_eq [OF assms(2,3)] Let_def e1 split: option.split)
  show "table_ok (rebindStreamToSlot now sid t p)"
    using table_ok_store [OF t1] by (simp add: rebind_eq [OF assms(2,3)] Let_def split: option.split)
qed

lemma wspool_ok_rebind:
  assumes ok: "wspool_ok p" shows "wspool_ok (rebindStreamToSlot now sid t p)"
proof (cases "\<exists>e. entry p sid = Some e \<and> slotIdx e \<noteq> t")
  case True
  then obtain e where e: "entry p sid = Some e" "slotIdx e \<noteq> t" by blast
  have c: "cells_ok p" and tb: "table_ok p" and n: "counts_ok p" using wspool_okD [OF ok] by auto
  note F = rebind_frame [OF tb e, of now]
  have on: "streams_on (rebindStreamToSlot now sid t p) j =
      (if j = t then insert sid (streams_on p j) else streams_on p j - {sid})" for j
    by (auto simp: streams_on_def F newStreamEntry_def)
  have "0 \<le> slot_streams (obj (rebindStreamToSlot now sid t p) b) \<and>
      slot_streams (obj (rebindStreamToSlot now sid t p) b) \<le> int (card (streams_on (rebindStreamToSlot now sid t p) j))"
    if b: "slotAt p j = Some b" for j b
  proof -
    have k: "0 \<le> slot_streams (obj p b)" "slot_streams (obj p b) \<le> int (card (streams_on p j))"
      using n b by (auto simp: counts_ok_def)
    have "sid \<in> streams_on p j \<longleftrightarrow> j = slotIdx e" using e by (auto simp: streams_on_def)
    moreover have "int (card (streams_on p j - {sid})) = int (card (streams_on p j)) - 1" if "sid \<in> streams_on p j"
      using card.remove [OF finite_streams_on that] by simp
    ultimately have "int (card (streams_on (rebindStreamToSlot now sid t p) j)) =
        int (card (streams_on p j)) + (if j = t then 1 else if j = slotIdx e then - 1 else 0)"
      using e(2) by (cases "j = t"; cases "j = slotIdx e") (simp_all add: on)
    then show ?thesis
      using k e(2) by (auto simp: streams_rebind [OF c e b] decStreamsFloor_def)
  qed
  then show ?thesis
    using ok F c by (simp add: wspool_ok_def counts_ok_def cells_ok_def)
next
  case False
  then show ?thesis using ok by (auto simp: rebindStreamToSlot_def split: option.split)
qed

lemma wspool_ok_sendMigrate: "wspool_ok p \<Longrightarrow> wspool_ok (snd (sendMigrate E sid kind t p))"
  by (rule same_table_ok [OF same_table_sendMigrate])

lemma wspool_ok_migrateFlag: "wspool_ok p \<Longrightarrow> wspool_ok (upd_entry e (\<lambda>x. x\<lparr>migrating := m\<rparr>) p)"
  by (rule wspool_ok_upd_entry) simp_all

lemma wspool_ok_migrate_claim: "wspool_ok p \<Longrightarrow> wspool_ok (snd (migrate_claim sid p))"
  by (auto simp: migrate_claim_def intro: wspool_ok_migrateFlag split: option.split)

lemma wspool_ok_migrate_finish: "wspool_ok p \<Longrightarrow> wspool_ok (migrate_finish now sid e t res p)"
  by (auto simp: migrate_finish_def intro: wspool_ok_migrateFlag wspool_ok_rebind)

lemma wspool_ok_migrateStream: "wspool_ok p \<Longrightarrow> wspool_ok (migrateStream E now sid p)"
  using wspool_ok_migrate_claim [of p sid] wspool_ok_sendMigrate
  by (auto simp: migrateStream_def split_def split: option.split prod.split
      intro!: wspool_ok_migrate_finish)

lemma wspool_ok_fold:
  assumes "\<And>x p. wspool_ok p \<Longrightarrow> wspool_ok (f x p)" "wspool_ok p"
  shows "wspool_ok (fold f xs p)"
  using assms by (induction xs arbitrary: p) auto

lemma wspool_ok_schedule: "wspool_ok p \<Longrightarrow> wspool_ok (scheduleSlotMigration idx p)"
  unfolding scheduleSlotMigration_def
  by (rule wspool_ok_fold) (auto simp: schedule_stream_def Let_def split_def intro: wspool_ok_upd_entry)

subsection \<open>Deaths\<close>

lemma wspool_ok_resume: "wspool_ok p \<Longrightarrow> wspool_ok (snd (resumeStreamOnDeath E now sid e idx p))"
proof -
  assume "wspool_ok p"
  then have s: "wspool_ok (snd (sendMigrate E sid kind t (upd_entry e (\<lambda>x. x\<lparr>migrating := True\<rparr>) p)))" for kind t
    by (intro wspool_ok_sendMigrate wspool_ok_migrateFlag)
  show ?thesis
    using \<open>wspool_ok p\<close> s
    by (auto simp: resumeStreamOnDeath_def split_def intro!: wspool_ok_migrateFlag wspool_ok_rebind
        split: option.split)
qed

lemma wspool_ok_death_stream: "wspool_ok p \<Longrightarrow> wspool_ok (death_stream E now m idx sid p)"
proof -
  assume ok: "wspool_ok p"
  have "wspool_ok q" if "resumeStreamOnDeath E now sid e idx p = (r, q)" for e r q
    using wspool_ok_resume [OF ok, of E now sid e idx] that by simp
  then show ?thesis
    using ok wspool_ok_table_ops(2) by (auto simp: death_stream_def split: option.split prod.split resumeOutcome.split)
qed

lemma wspool_ok_dispatch: "wspool_ok p \<Longrightarrow> wspool_ok (death_dispatch now idx cause p)"
proof -
  assume "wspool_ok p"
  moreover have "same_table p (recordSlotDeath now p)"
    by (simp add: same_table_def recordSlotDeath_def Let_def obj_def)
  ultimately show ?thesis
    by (cases cause) (auto simp: death_dispatch_def wspool_ok_clear intro: same_table_ok)
qed

lemma wspool_ok_accrue: "wspool_ok p \<Longrightarrow> wspool_ok (accrueAgeExposure a p)"
  by (auto simp: accrueAgeExposure_def intro: wspool_ok_upd_obj)

lemma wspool_ok_FIN: "wspool_ok p \<Longrightarrow> wspool_ok (sendSlotSessionFIN E a p)"
  by (rule same_table_ok [OF same_table_FIN])

lemma wspool_ok_close: "wspool_ok p \<Longrightarrow> wspool_ok (close_transport a p)"
  by (rule same_table_ok [of p]) simp_all

lemma wspool_ok_handleSlotDeath: "wspool_ok p \<Longrightarrow> wspool_ok (handleSlotDeath E now idx cause p)"
  unfolding handleSlotDeath_def
  by (auto simp: Let_def tryMarkDead_def intro!: wspool_ok_dispatch wspool_ok_close wspool_ok_FIN wspool_ok_fold
      wspool_ok_death_stream wspool_ok_accrue wspool_ok_upd_obj split: option.split)

lemma wspool_ok_NetworkChanged: "wspool_ok p \<Longrightarrow> wspool_ok (NetworkChanged E now p)"
  unfolding NetworkChanged_def
  by (rule wspool_ok_fold)
    (auto simp: wspool_ok_handleSlotDeath same_table_def obj_def intro: same_table_ok split: option.split)

lemma wspool_ok_Close: "wspool_ok p \<Longrightarrow> wspool_ok (Close E p)"
  unfolding Close_def Let_def close_slot_def fin_slot_def
  by (intro wspool_ok_fold)
    (auto simp: wspool_ok_FIN wspool_ok_close intro: wspool_ok_upd_obj split: option.split)

subsection \<open>Connections and drains\<close>

lemma new_slot_simps [simp]:
  "slot_streams (new_slot i) = 0" "slot_state (new_slot i) = slotConnecting" "lastDeathNs (new_slot i) = 0"
  "isSticky (new_slot i) = False" "slot_transport (new_slot i) = None" "startedAtNs (new_slot i) = 0"
  by (simp_all add: new_slot_def)

lemma wspool_ok_connect_install: "wspool_ok p \<Longrightarrow> wspool_ok (snd (connectSlot_install idx p))"
  by (auto simp: connectSlot_install_def intro: wspool_ok_install [OF _ _ new_slot_simps(1)] split: prod.split)

lemma wspool_ok_connect_fail: "wspool_ok p \<Longrightarrow> wspool_ok (connectSlot_fail a ses p)"
  by (auto simp: connectSlot_fail_def intro: wspool_ok_upd_obj)

lemma wspool_ok_connect_ready: "wspool_ok p \<Longrightarrow> wspool_ok (connectSlot_ready now a ses up p)"
proof -
  assume ok: "wspool_ok p"
  have "same_table p (case up_flow up of None \<Rightarrow> p | Some w \<Rightarrow> p\<lparr>client := EnableFlowControl w (client p)\<rparr>)" (is "same_table p ?p1")
    by (simp add: same_table_def obj_def split: option.split)
  moreover have "same_table ?p1 (if up_migrate up then resetMigrateHysteresis (?p1\<lparr>migrateEnabled := True\<rparr>) else ?p1)"
    by (simp add: same_table_def resetMigrateHysteresis_def obj_def)
  ultimately show ?thesis
    using same_table_ok [OF same_table_trans ok]
    by (auto simp: connectSlot_ready_def Let_def intro!: wspool_ok_upd_obj)
qed

lemma wspool_ok_connectSlot: "wspool_ok p \<Longrightarrow> wspool_ok (snd (connectSlot now idx hs up p))"
proof -
  assume "wspool_ok p"
  then have "wspool_ok q" if "connectSlot_install idx p = (r, q)" for r q
    using wspool_ok_connect_install [of p idx] that by simp
  then show ?thesis
    unfolding connectSlot_def
    by (auto split: prod.split option.split outcome.split bool.split
        intro: wspool_ok_connect_ready wspool_ok_connect_fail)
qed

lemma wspool_ok_claim: "wspool_ok p \<Longrightarrow> wspool_ok (snd (claimFreeSlot p))"
  by (auto simp: claimFreeSlot_def intro: wspool_ok_install [OF _ _ new_slot_simps(1)] split: prod.split option.split)

lemma wspool_ok_evict: "wspool_ok p \<Longrightarrow> wspool_ok (evict E now i a p)"
  unfolding evict_def bump_generation_def by (intro wspool_ok_handleSlotDeath wspool_ok_upd_obj) auto

lemma wspool_ok_mark: "wspool_ok p \<Longrightarrow> wspool_ok (upd_obj a (\<lambda>s. snd (tryMarkDraining s)) p)"
  by (rule wspool_ok_upd_obj) (auto simp: tryMarkDraining_def)

lemma wspool_ok_force: "wspool_ok p \<Longrightarrow> wspool_ok (snd (tryForceEvictIdleSlot E now skip p))"
  by (auto simp: tryForceEvictIdleSlot_def Let_def intro: wspool_ok_evict wspool_ok_mark split: option.split)

lemma wspool_ok_emergency: "wspool_ok p \<Longrightarrow> wspool_ok (snd (tryEmergencyEvictMinStreamsSlot E now skip p))"
  unfolding tryEmergencyEvictMinStreamsSlot_def migrateVictimStreams_def Let_def
  by (auto intro!: wspool_ok_evict wspool_ok_mark wspool_ok_fold wspool_ok_migrateStream split: option.split)

lemma wspool_ok_claim_or_evict: "wspool_ok p \<Longrightarrow> wspool_ok (snd (claim_or_evict E now oldIdx a p))"
proof -
  assume ok: "wspool_ok p"
  have c: "wspool_ok r" if "claimFreeSlot q = (i, r)" "wspool_ok q" for q i r
    using wspool_ok_claim [OF that(2)] that(1) by simp
  have f: "wspool_ok r" if "tryForceEvictIdleSlot E now oldIdx q = (i, r)" "wspool_ok q" for q i r
    using wspool_ok_force [OF that(2), of E now oldIdx] that(1) by simp
  have e: "wspool_ok r" if "tryEmergencyEvictMinStreamsSlot E now oldIdx q = (i, r)" "wspool_ok q" for q i r
    using wspool_ok_emergency [OF that(2), of E now oldIdx] that(1) by simp
  show ?thesis
    unfolding claim_or_evict_def using ok
    by (auto split: prod.split option.split bool.split intro: wspool_ok_claim dest: c f e)
qed

lemma wspool_ok_startDrain: "wspool_ok p \<Longrightarrow> wspool_ok (startDrain E now oldIdx p)"
proof -
  assume ok: "wspool_ok p"
  have d: "wspool_ok q \<Longrightarrow> wspool_ok (defer_drain a t q)" for a t q
    by (auto simp: defer_drain_def intro: wspool_ok_upd_obj)
  have c: "wspool_ok r" if "claim_or_evict E now oldIdx a (upd_obj a (\<lambda>s. snd (tryMarkDraining s)) p) = (i, r)" for a i r
    using wspool_ok_claim_or_evict [OF wspool_ok_mark [OF ok, of a], of E now oldIdx a] that by simp
  show ?thesis
    unfolding startDrain_def using ok
    by (auto split: option.split prod.split intro!: d wspool_ok_upd_obj dest: c)
qed

lemma wspool_ok_reserve_done: "wspool_ok p \<Longrightarrow> wspool_ok (connectReserveSlot_done i err p)"
proof -
  assume "wspool_ok p"
  then have r: "wspool_ok (p\<lparr>reserveConnectFailures := x\<rparr>)" for x
    by (rule same_table_ok [rotated]) (simp add: same_table_def obj_def)
  show ?thesis
    using r \<open>wspool_ok p\<close>
    by (auto simp: connectReserveSlot_done_def Let_def wspool_ok_clear split: option.split connectErr.split)
qed

lemma wspool_ok_sticky: "wspool_ok p \<Longrightarrow> wspool_ok (releaseSticky a p)" "wspool_ok p \<Longrightarrow> wspool_ok (markSticky a p)"
  by (auto simp: releaseSticky_def markSticky_def intro!: wspool_ok_upd_obj)

lemma wspool_ok_watchdog_finish: "wspool_ok p \<Longrightarrow> wspool_ok (watchdog_finish E now idx a p)"
  unfolding watchdog_finish_def bump_generation_def Let_def
  by (simp, intro wspool_ok_sticky wspool_ok_handleSlotDeath wspool_ok_upd_obj wspool_ok_accrue) auto

lemma wspool_ok_maybeRotate: "wspool_ok p \<Longrightarrow> wspool_ok (snd (maybeRotateSlot E now idx a r p))"
  unfolding maybeRotateSlot_def fireRotation_def Let_def
  by (auto intro!: wspool_ok_handleSlotDeath wspool_ok_upd_obj)

lemma wspool_ok_sweep: "wspool_ok p \<Longrightarrow> wspool_ok (rotationWatchdogSweep E now adapted p)"
  unfolding rotationWatchdogSweep_def
  by (rule wspool_ok_fold)
    (auto simp: sweep_slot_def Let_def intro: wspool_ok_schedule wspool_ok_startDrain wspool_ok_maybeRotate
      split: prod.split option.split)

lemma wspool_ok_legacy_begin: "wspool_ok p \<Longrightarrow> wspool_ok (snd (legacy_begin i p))"
  by (auto simp: legacy_begin_def intro: wspool_ok_upd_obj split: option.split)

lemma wspool_ok_legacy_reconnect: "wspool_ok p \<Longrightarrow> wspool_ok (legacy_reconnect now i a hs up p)"
proof -
  assume "wspool_ok p"
  then have "wspool_ok (upd_obj a (\<lambda>s. s\<lparr>slot_session := map_option Destroy (slot_session s)\<rparr>)
      (close_transport a (bump_generation a p)))" (is "wspool_ok ?q")
    by (intro wspool_ok_upd_obj wspool_ok_close) (auto simp: bump_generation_def intro: wspool_ok_upd_obj)
  then have "wspool_ok r" if "connectSlot now i hs up ?q = (x, r)" for x r
    using wspool_ok_connectSlot [of ?q now i hs up] that by simp
  then show ?thesis by (auto simp: legacy_reconnect_def Let_def split: prod.split option.split)
qed

lemma wspool_ok_rotateMin: "wspool_ok p \<Longrightarrow> wspool_ok (rotateMinLoadedSlot E now p)"
  by (auto simp: rotateMinLoadedSlot_def intro: wspool_ok_startDrain wspool_ok_legacy_begin split: option.split)

lemma wspool_ok_reconnect_round: "wspool_ok p \<Longrightarrow> wspool_ok (snd (reconnect_round now rv hs up L p))"
proof -
  assume ok: "wspool_ok p"
  have "wspool_ok r" if "connectSlot now i hs up p = (x, r)" for x r i
    using wspool_ok_connectSlot [OF ok, of now i hs up] that by simp
  then show ?thesis
    using ok by (auto simp: reconnect_round_def Let_def split: prod.split option.split connectErr.split)
qed

lemma wspool_ok_route: "wspool_ok p \<Longrightarrow> wspool_ok (routeDownlinkFlagData a sid c p)"
  using wspool_ok_table_ops(2) by (auto simp: routeDownlinkFlagData_def split: outcome.split prod.split)

lemma wspool_ok_deliver: "wspool_ok p \<Longrightarrow> wspool_ok (reader_deliver now idx a c p)"
  using wspool_ok_table_ops(5) wspool_ok_route
  by (auto simp: reader_deliver_def Let_def split: option.split)

lemma wspool_ok_reader_frame:
  assumes "wspool_ok p" "\<And>b q. wspool_ok q \<Longrightarrow> wspool_ok (mr b q)"
  shows "wspool_ok (reader_frame G mr now idx a data p)"
proof -
  have u: "wspool_ok q \<Longrightarrow> wspool_ok (upd_obj a (\<lambda>s. s\<lparr>slot_session := x\<rparr>) q)" for q x
    by (rule wspool_ok_upd_obj) simp_all
  show ?thesis
    using assms wspool_ok_deliver wspool_ok_table_ops(2) u
    by (auto simp: reader_frame_def Let_def split: option.split prod.split outcome.split)
qed

lemma wspool_ok_reader_rotation: "wspool_ok p \<Longrightarrow> wspool_ok (reader_rotation E now idx a age n p)"
  unfolding reader_rotation_def Let_def
  by (auto intro!: wspool_ok_maybeRotate wspool_ok_upd_obj)

lemma wspool_ok_writes:
  assumes "wspool_ok p"
  shows "wspool_ok (snd (WriteMessageForStream now sid data p))" "wspool_ok (snd (WriteControlMessageForStream now sid data p))"
    "wspool_ok (snd (TryWriteControlMessageForStream room now sid data p))"
  using assms wspool_ok_table_ops(5)
  by (auto simp: WriteMessageForStream_def WriteMessage_def WriteControlMessageForStream_def
      WriteControlMessage_def TryWriteControlMessageForStream_def Let_def split: option.split)

subsection \<open>Drain accounting\<close>

definition is_dog :: "goroutine \<Rightarrow> bool" where
  "is_dog g = (case g of GoDrainWatchdog _ _ _ \<Rightarrow> True | _ \<Rightarrow> False)"

definition dogs :: "wsPool \<Rightarrow> goroutine list" where
  "dogs p = filter is_dog (spawned p)"

definition sticky_slots :: "wsPool \<Rightarrow> nat set" where
  "sticky_slots p = {a. a < length (slot_objs p) \<and> isSticky (obj p a)}"

text \<open>The part of the state the drain counters depend on; almost every operation leaves it alone.\<close>

definition drain_view :: "wsPool \<Rightarrow> poolConfig \<times> int \<times> goroutine list \<times> int \<times> nat set" where
  "drain_view p = (cfg p, inflightDrains p, dogs p, stickyDrainCount p, sticky_slots p)"

lemma drain_view_prims [simp]:
  "drain_view (emit w p) = drain_view p" "drain_view (storeSlot i x p) = drain_view p"
  "drain_view (upd_entry e f p) = drain_view p" "drain_view (store_entry sid y p) = drain_view p"
  "drain_view (p\<lparr>streamMap := m\<rparr>) = drain_view p" "drain_view (p\<lparr>client := c\<rparr>) = drain_view p"
  "drain_view (p\<lparr>migrateEnabled := b\<rparr>) = drain_view p" "drain_view (p\<lparr>recentMeltdownNs := n\<rparr>) = drain_view p"
  "drain_view (p\<lparr>reserveConnectFailures := fs\<rparr>) = drain_view p"
  "drain_view (resetMigrateHysteresis p) = drain_view p" "drain_view (noteMigrateAck p) = drain_view p"
  "drain_view (noteMigrateTimeout p) = drain_view p" "drain_view (recordSlotDeath now p) = drain_view p"
  by (auto simp: drain_view_def dogs_def sticky_slots_def emit_def storeSlot_def upd_entry_def store_entry_def
      resetMigrateHysteresis_def noteMigrateAck_def noteMigrateTimeout_def recordSlotDeath_def Let_def obj_def)

lemma drain_view_upd [simp]:
  assumes "\<And>s. isSticky (f s) = isSticky s" shows "drain_view (upd_obj a f p) = drain_view p"
proof -
  have "isSticky (obj (upd_obj a f p) b) = isSticky (obj p b)" if "b < length (slot_objs p)" for b
    using assms that by (simp add: obj_upd_valid)
  then show ?thesis
    by (auto simp: drain_view_def dogs_def sticky_slots_def) (auto simp: upd_obj_def)
qed

lemma drain_view_go [simp]: "\<not> is_dog g \<Longrightarrow> drain_view (go g p) = drain_view p"
  by (auto simp: drain_view_def dogs_def sticky_slots_def go_def obj_def)

lemma is_dog_simps [simp]:
  "is_dog (GoDrainWatchdog i a t)" "\<not> is_dog (GoReconnect i)" "\<not> is_dog (GoReconnectFast i)"
  "\<not> is_dog (GoReconnectNetworkChange i)" "\<not> is_dog (GoConnectReserve i j)" "\<not> is_dog (GoSlotReader i)"
  "\<not> is_dog (GoMigrateStream sid)" "\<not> is_dog (GoStartDrain i)"
  by (simp_all add: is_dog_def)

lemma drain_view_alloc [simp]: "\<not> isSticky s \<Longrightarrow> drain_view (snd (alloc_obj s p)) = drain_view p"
  by (auto simp: drain_view_def dogs_def sticky_slots_def alloc_obj_def obj_def nth_append less_Suc_eq)

lemma drain_view_fold: "(\<And>x q. drain_view (f x q) = drain_view q) \<Longrightarrow> drain_view (fold f xs p) = drain_view p"
  by (induction xs arbitrary: p) simp_all

lemma isSticky_ops [simp]:
  "isSticky (decStreamsFloor s) = isSticky s" "isSticky (snd (tryMarkDead s)) = isSticky s"
  "isSticky (snd (tryMarkDraining s)) = isSticky s"
  by (simp_all add: decStreamsFloor_def tryMarkDead_def tryMarkDraining_def)

lemma drain_view_encrypt [simp]: "drain_view (snd (encrypt_on E a mk p)) = drain_view p"
  by (simp add: encrypt_on_def Let_def split_def split: option.split outcome.split)

lemma drain_view_encrypt_eq: "encrypt_on E a mk p = (r, q) \<Longrightarrow> drain_view q = drain_view p"
  using drain_view_encrypt [of E a mk p] by simp

lemma drain_view_sendMigrate [simp]: "drain_view (snd (sendMigrate E sid kind t p)) = drain_view p"
  by (auto simp: sendMigrate_def Let_def drain_view_encrypt_eq split: option.split prod.split migrateReply.split)

lemma drain_view_streams [simp]:
  "drain_view (drop_entry sid p) = drain_view p" "drain_view (handleStreamClose sid p) = drain_view p"
  "drain_view (touch_stream now sid p) = drain_view p" "drain_view (rebindStreamToSlot now sid t p) = drain_view p"
  by (simp_all add: drop_entry_def handleStreamClose_def touch_stream_def rebindStreamToSlot_def Let_def
      split: option.split)

lemma drain_view_migrate [simp]:
  "drain_view (snd (migrate_claim sid p)) = drain_view p" "drain_view (migrate_finish now sid e t res p) = drain_view p"
  "drain_view (migrateStream E now sid p) = drain_view p"
proof -
  show c: "drain_view (snd (migrate_claim sid p)) = drain_view p" for p
    by (simp add: migrate_claim_def split: option.split)
  show f: "drain_view (migrate_finish now sid e t res p) = drain_view p" for p e t res
    by (simp add: migrate_finish_def)
  have "drain_view q = drain_view p" if "migrate_claim sid p = (r, q)" for r q
    using c [of p] that by simp
  moreover have "drain_view q = drain_view r" if "sendMigrate E sid k t r = (x, q)" for k t r x q
    using drain_view_sendMigrate [of E sid k t r] that by simp
  ultimately show "drain_view (migrateStream E now sid p) = drain_view p"
    by (auto simp: migrateStream_def f split: option.split prod.split)
qed

lemma drain_view_schedule [simp]: "drain_view (scheduleSlotMigration i p) = drain_view p"
  unfolding scheduleSlotMigration_def
  by (rule drain_view_fold) (simp add: schedule_stream_def Let_def split_def)

lemma drain_view_close [simp]: "drain_view (close_transport a p) = drain_view p"
  by (simp add: close_transport_def split: option.split)

lemma drain_view_FIN [simp]: "drain_view (sendSlotSessionFIN E a p) = drain_view p"
  by (auto simp: sendSlotSessionFIN_def drain_view_encrypt_eq split: option.split prod.split)

lemma drain_view_resume [simp]: "drain_view (snd (resumeStreamOnDeath E now sid e idx p)) = drain_view p"
  using drain_view_sendMigrate [of E sid FlagResume _ "upd_entry e (\<lambda>x. x\<lparr>migrating := True\<rparr>) p"]
  by (auto simp: resumeStreamOnDeath_def split_def split: option.split)

lemma drain_view_death_stream [simp]: "drain_view (death_stream E now m idx sid p) = drain_view p"
proof -
  have "drain_view q = drain_view p" if "resumeStreamOnDeath E now sid e idx p = (r, q)" for e r q
    using drain_view_resume [of E now sid e idx p] that by simp
  then show ?thesis by (auto simp: death_stream_def split: option.split prod.split resumeOutcome.split)
qed

lemma drain_view_handleSlotDeath [simp]: "drain_view (handleSlotDeath E now idx cause p) = drain_view p"
  by (simp add: handleSlotDeath_def Let_def death_dispatch_def accrueAgeExposure_def drain_view_fold
      split: option.split slotDeathCause.split)

lemma drain_view_evict [simp]: "drain_view (evict E now i a p) = drain_view p"
  by (simp add: evict_def bump_generation_def)

lemma drain_view_claim [simp]: "drain_view (snd (claimFreeSlot p)) = drain_view p"
  using drain_view_alloc [of "new_slot 0" p] by (simp add: claimFreeSlot_def split_def Let_def split: option.split)

lemma drain_view_claim_or_evict [simp]: "drain_view (snd (claim_or_evict E now i a p)) = drain_view p"
proof -
  have c: "drain_view r = drain_view q" if "claimFreeSlot q = (x, r)" for q x r
    using drain_view_claim [of q] that by simp
  have "drain_view (snd (tryForceEvictIdleSlot E now i q)) = drain_view q" for q
    by (simp add: tryForceEvictIdleSlot_def Let_def split: option.split)
  then have f: "drain_view r = drain_view q" if "tryForceEvictIdleSlot E now i q = (x, r)" for q x r
    using that by (metis snd_conv)
  have "drain_view (snd (tryEmergencyEvictMinStreamsSlot E now i q)) = drain_view q" for q
    by (simp add: tryEmergencyEvictMinStreamsSlot_def migrateVictimStreams_def Let_def drain_view_fold split: option.split)
  then have e: "drain_view r = drain_view q" if "tryEmergencyEvictMinStreamsSlot E now i q = (x, r)" for q x r
    using that by (metis snd_conv)
  show ?thesis
    by (auto simp: claim_or_evict_def c f e split: prod.split option.split bool.split)
qed

text \<open>
  \<open>drain_bal C n p\<close>: of the watchdogs ever started, all but those in \<open>n\<close> are counted in \<open>inflightDrains\<close>,
  which is within its limit, and \<open>stickyDrainCount\<close> counts the sticky slots.
\<close>

definition drain_bal :: "poolConfig \<Rightarrow> goroutine multiset \<Rightarrow> wsPool \<Rightarrow> bool" where
  "drain_bal C n p \<longleftrightarrow> cfg p = C \<and> n \<subseteq># mset (dogs p) \<and> inflightDrains p = int (length (dogs p)) - int (size n) \<and>
     inflightDrains p \<le> maxConcurrentDrains C \<and> stickyDrainCount p = int (card (sticky_slots p))"

lemma drain_bal_keep: "drain_bal C n p \<Longrightarrow> drain_view q = drain_view p \<Longrightarrow> drain_bal C n q"
  by (simp add: drain_view_def drain_bal_def)

lemma drain_bal_fold: "(\<And>x q. drain_bal C n q \<Longrightarrow> drain_bal C n (f x q)) \<Longrightarrow> drain_bal C n p \<Longrightarrow> drain_bal C n (fold f xs p)"
  by (induction xs arbitrary: p) simp_all

lemma finite_sticky_slots [simp]: "finite (sticky_slots p)"
  by (simp add: sticky_slots_def)

lemma drain_bal_startDrain: "drain_bal C n p \<Longrightarrow> drain_bal C n (startDrain E now idx p)"
proof -
  assume bal: "drain_bal C n p"
  have d: "drain_view (defer_drain a t q) = drain_view q" for a t q by (simp add: defer_drain_def)
  have c: "drain_view q = drain_view p"
    if "claim_or_evict E now idx a (upd_obj a (\<lambda>s. snd (tryMarkDraining s)) p) = (r, q)" for a r q
    using drain_view_claim_or_evict [of E now idx a "upd_obj a (\<lambda>s. snd (tryMarkDraining s)) p"] that by simp
  have g: "drain_bal C n (go (GoDrainWatchdog idx a now) (go (GoConnectReserve i idx) (q\<lparr>inflightDrains := inflightDrains q + 1\<rparr>)))"
    if "drain_view q = drain_view p" "inflightDrains p + 1 \<le> maxConcurrentDrains (cfg p)" for a i q
    using bal that
    by (auto simp: drain_bal_def drain_view_def dogs_def go_def sticky_slots_def obj_def
        intro: subset_mset.order_trans)
  have "drain_view (startDrain E now idx p) = drain_view p \<or>
     (\<exists>a i q. startDrain E now idx p =
          go (GoDrainWatchdog idx a now) (go (GoConnectReserve i idx) (q\<lparr>inflightDrains := inflightDrains q + 1\<rparr>)) \<and>
        drain_view q = drain_view p \<and> inflightDrains p + 1 \<le> maxConcurrentDrains (cfg p))"
    unfolding startDrain_def by (auto simp: d dest: c split: option.split prod.split)
  then show ?thesis using bal drain_bal_keep g by metis
qed

lemma drain_bal_sticky:
  assumes "drain_bal C n p" "a < length (slot_objs p)"
  shows "drain_bal C n (markSticky a p)" "drain_bal C n (releaseSticky a p)"
proof -
  have "sticky_slots (upd_obj a (\<lambda>s. s\<lparr>isSticky := True\<rparr>) p) = insert a (sticky_slots p)"
    "sticky_slots (upd_obj a (\<lambda>s. s\<lparr>isSticky := False\<rparr>) p) = sticky_slots p - {a}"
    using assms(2) by (auto simp: sticky_slots_def obj_upd_valid split: if_splits)
  moreover have "a \<in> sticky_slots p \<longleftrightarrow> isSticky (obj p a)" using assms(2) by (simp add: sticky_slots_def)
  moreover have "sticky_slots (q\<lparr>stickyDrainCount := m\<rparr>) = sticky_slots q" "dogs (q\<lparr>stickyDrainCount := m\<rparr>) = dogs q"
    "dogs (upd_obj a f p) = dogs p" "inflightDrains (upd_obj a f p) = inflightDrains p"
    "stickyDrainCount (upd_obj a f p) = stickyDrainCount p" for q m f
    by (simp_all add: sticky_slots_def dogs_def upd_obj_def obj_def)
  moreover have "int (card (sticky_slots p - {a})) = int (card (sticky_slots p)) - 1" if "a \<in> sticky_slots p"
    using card.remove [OF finite_sticky_slots that] by simp
  ultimately show "drain_bal C n (markSticky a p)" "drain_bal C n (releaseSticky a p)"
    using assms(1) by (simp_all add: drain_bal_def markSticky_def releaseSticky_def)
qed

subsection \<open>Runs of the pool\<close>

text \<open>
  A step is any operation with any arguments: whatever the network, the clock and the
  scheduler may bring.  A captured slot is any slot allocated so far.  A watchdog acts only
  while it runs, that is when it was started and has not ended.
\<close>

datatype pool_op =
    OpAssign int u16 | OpRelease u16 | OpStreamClose u16 | OpIncrPending u16 | OpDecrPending u16
  | OpWrite int u16 bytes | OpWriteControl int u16 bytes | OpTryWriteControl "nat \<Rightarrow> bool" int u16 bytes
  | OpInstall nat | OpConnectFail nat "session option" | OpConnectReady int nat session upgraded
  | OpDeath sendEnv int nat slotDeathCause | OpNetworkChanged sendEnv int | OpDeathExpires
  | OpMigrateClaim u16 | OpSendMigrate sendEnv u16 byte nat | OpMigrateFinish int u16 nat nat migrateResult
  | OpMigrate sendEnv int u16 | OpSweep sendEnv int int | OpRotateMin sendEnv int | OpStartDrain sendEnv int nat
  | OpReserveDone nat "connectErr option"
  | OpTick sendEnv int nat nat int "int option" | OpDeadline sendEnv int nat nat int "int option"
  | OpLegacyReconnect int nat nat "session option \<times> bool" "(connectErr, upgraded) outcome"
  | OpReconnectRound int bool "session option \<times> bool" "(connectErr, upgraded) outcome" reconnectLoop
  | OpReaderFrame gcm int nat nat bytes | OpReaderRotation sendEnv int nat nat int int | OpClose sendEnv

record poolRun =
  run_pool :: wsPool
  ended :: "goroutine multiset"

definition running :: "poolRun \<Rightarrow> goroutine \<Rightarrow> bool" where
  "running r g \<longleftrightarrow> g \<in># mset (dogs (run_pool r)) - ended r"

definition end_dog :: "sendEnv \<Rightarrow> int \<Rightarrow> nat \<Rightarrow> nat \<Rightarrow> int \<Rightarrow> poolRun \<Rightarrow> poolRun" where
  "end_dog E now idx a start r =
     \<lparr>run_pool = watchdog_finish E now idx a (run_pool r), ended = add_mset (GoDrainWatchdog idx a start) (ended r)\<rparr>"

fun plain_step :: "pool_op \<Rightarrow> wsPool \<Rightarrow> wsPool" where
  "plain_step (OpAssign now sid) p = AssignStream now sid p"
| "plain_step (OpRelease sid) p = ReleaseStream sid p"
| "plain_step (OpStreamClose sid) p = handleStreamClose sid p"
| "plain_step (OpIncrPending sid) p = IncrPending sid p"
| "plain_step (OpDecrPending sid) p = DecrPending sid p"
| "plain_step (OpWrite now sid d) p = snd (WriteMessageForStream now sid d p)"
| "plain_step (OpWriteControl now sid d) p = snd (WriteControlMessageForStream now sid d p)"
| "plain_step (OpTryWriteControl room now sid d) p = snd (TryWriteControlMessageForStream room now sid d p)"
| "plain_step (OpInstall idx) p = snd (connectSlot_install idx p)"
| "plain_step (OpConnectFail a ses) p = connectSlot_fail a ses p"
| "plain_step (OpConnectReady now a ses up) p = connectSlot_ready now a ses up p"
| "plain_step (OpDeath E now idx cause) p = handleSlotDeath E now idx cause p"
| "plain_step (OpNetworkChanged E now) p = NetworkChanged E now p"
| "plain_step OpDeathExpires p = death_expires p"
| "plain_step (OpMigrateClaim sid) p = snd (migrate_claim sid p)"
| "plain_step (OpSendMigrate E sid k t) p = snd (sendMigrate E sid k t p)"
| "plain_step (OpMigrateFinish now sid e t res) p = migrate_finish now sid e t res p"
| "plain_step (OpMigrate E now sid) p = migrateStream E now sid p"
| "plain_step (OpSweep E now adapted) p = rotationWatchdogSweep E now adapted p"
| "plain_step (OpRotateMin E now) p = rotateMinLoadedSlot E now p"
| "plain_step (OpStartDrain E now idx) p = startDrain E now idx p"
| "plain_step (OpReserveDone i err) p = connectReserveSlot_done i err p"
| "plain_step (OpLegacyReconnect now i a hs up) p = legacy_reconnect now i a hs up p"
| "plain_step (OpReconnectRound now rv hs up L) p = snd (reconnect_round now rv hs up L p)"
| "plain_step (OpReaderFrame G now idx a d) p = reader_frame G (\<lambda>_ q. q) now idx a d p"
| "plain_step (OpReaderRotation E now idx a age n) p = reader_rotation E now idx a age n p"
| "plain_step (OpClose E) p = Close E p"
| "plain_step (OpTick E now idx a start seen) p = p"
| "plain_step (OpDeadline E now idx a start seen) p = p"

fun pool_step :: "pool_op \<Rightarrow> poolRun \<Rightarrow> poolRun" where
  "pool_step (OpTick E now idx a start seen) r =
     (if running r (GoDrainWatchdog idx a start) \<and> a < length (slot_objs (run_pool r)) \<and>
         fst (watchdog_tick (run_pool r) idx a now seen) \<noteq> None
      then end_dog E now idx a start r else r)"
| "pool_step (OpDeadline E now idx a start seen) r =
     (if running r (GoDrainWatchdog idx a start) \<and> a < length (slot_objs (run_pool r))
      then case fst (watchdog_deadline (run_pool r) idx a start now seen) of
             Some _ \<Rightarrow> end_dog E now idx a start r
           | None \<Rightarrow> r\<lparr>run_pool := watchdog_extend a (run_pool r)\<rparr>
      else r)"
| "pool_step op r = r\<lparr>run_pool := plain_step op (run_pool r)\<rparr>"

definition pool_run :: "poolConfig \<Rightarrow> pool_op list \<Rightarrow> poolRun" where
  "pool_run C ops = fold pool_step ops \<lparr>run_pool = allocSlots C, ended = {#}\<rparr>"

lemma wspool_ok_plain_step: "wspool_ok p \<Longrightarrow> wspool_ok (plain_step op p)"
proof (cases op)
  case OpDeathExpires
  assume "wspool_ok p"
  then show ?thesis
    using OpDeathExpires by (auto simp: death_expires_def same_table_def obj_def intro: same_table_ok)
qed (simp_all add: wspool_ok_AssignStream wspool_ok_table_ops wspool_ok_writes wspool_ok_connect_install
    wspool_ok_connect_fail wspool_ok_connect_ready wspool_ok_handleSlotDeath wspool_ok_NetworkChanged
    wspool_ok_migrate_claim wspool_ok_sendMigrate wspool_ok_migrate_finish wspool_ok_migrateStream wspool_ok_sweep
    wspool_ok_rotateMin wspool_ok_startDrain wspool_ok_reserve_done wspool_ok_legacy_reconnect
    wspool_ok_reconnect_round wspool_ok_reader_frame wspool_ok_reader_rotation wspool_ok_Close)

lemma drain_view_connect [simp]:
  "drain_view (snd (connectSlot_install i p)) = drain_view p" "drain_view (connectSlot_fail a ses p) = drain_view p"
  "drain_view (connectSlot_ready now a ses' up' p) = drain_view p" "drain_view (snd (connectSlot now i hs up p)) = drain_view p"
proof -
  show inst: "drain_view (snd (connectSlot_install i p)) = drain_view p"
    using drain_view_alloc [of "new_slot i" p] by (simp add: connectSlot_install_def split_def Let_def)
  show fail: "drain_view (connectSlot_fail a ses p) = drain_view p" for a ses p by (simp add: connectSlot_fail_def)
  show ready: "drain_view (connectSlot_ready now a ses' up' p) = drain_view p" for a ses' up' p
    by (simp add: connectSlot_ready_def Let_def split: option.split)
  have "drain_view q = drain_view p" if "connectSlot_install i p = (r, q)" for r q using inst that by simp
  then show "drain_view (snd (connectSlot now i hs up p)) = drain_view p"
    by (auto simp: connectSlot_def fail ready split: prod.split option.split outcome.split bool.split)
qed

lemma drain_view_connect_eq: "connectSlot now i hs up p = (r, q) \<Longrightarrow> drain_view q = drain_view p"
  using drain_view_connect(4) [of now i hs up p] by simp

lemma drain_view_rotate [simp]: "drain_view (snd (maybeRotateSlot E now idx a r p)) = drain_view p"
  by (simp add: maybeRotateSlot_def fireRotation_def Let_def)

lemma drain_view_others [simp]:
  "drain_view (AssignStream now sid p) = drain_view p" "drain_view (ReleaseStream sid p) = drain_view p"
  "drain_view (IncrPending sid p) = drain_view p" "drain_view (DecrPending sid p) = drain_view p"
  "drain_view (snd (WriteMessageForStream now sid d p)) = drain_view p"
  "drain_view (snd (WriteControlMessageForStream now sid d p)) = drain_view p"
  "drain_view (snd (TryWriteControlMessageForStream room now sid d p)) = drain_view p"
  "drain_view (NetworkChanged E now p) = drain_view p" "drain_view (death_expires p) = drain_view p"
  "drain_view (connectReserveSlot_done i err p) = drain_view p"
  "drain_view (legacy_reconnect now i a hs up p) = drain_view p"
  "drain_view (snd (reconnect_round now rv hs up L p)) = drain_view p"
  "drain_view (reader_frame G (\<lambda>_ q. q) now idx a d p) = drain_view p"
  "drain_view (reader_rotation E now idx a age n p) = drain_view p" "drain_view (Close E p) = drain_view p"
proof -
  show "drain_view (NetworkChanged E now p) = drain_view p"
    unfolding NetworkChanged_def by (subst drain_view_fold) (simp_all split: option.split)
  show "drain_view (Close E p) = drain_view p"
    by (simp add: Close_def Let_def close_slot_def fin_slot_def drain_view_fold split: option.split)
  show "drain_view (death_expires p) = drain_view p"
    by (simp add: drain_view_def death_expires_def dogs_def sticky_slots_def obj_def)
  show "drain_view (legacy_reconnect now i a hs up p) = drain_view p"
    by (auto simp: legacy_reconnect_def Let_def bump_generation_def drain_view_connect_eq split: prod.split option.split)
  show "drain_view (snd (reconnect_round now rv hs up L p)) = drain_view p"
    by (auto simp: reconnect_round_def Let_def drain_view_connect_eq split: prod.split option.split connectErr.split)
  show "drain_view (reader_frame G (\<lambda>_ q. q) now idx a d p) = drain_view p"
    by (simp add: reader_frame_def reader_deliver_def routeDownlinkFlagData_def Let_def
        split: option.split prod.split outcome.split)
qed (simp_all add: AssignStream_def ReleaseStream_def IncrPending_def DecrPending_def WriteMessageForStream_def
    WriteMessage_def WriteControlMessageForStream_def WriteControlMessage_def TryWriteControlMessageForStream_def
    connectReserveSlot_done_def reader_rotation_def Let_def split: option.split connectErr.split)

lemma drain_bal_sweep: "drain_bal C n p \<Longrightarrow> drain_bal C n (rotationWatchdogSweep E now adapted p)"
  unfolding rotationWatchdogSweep_def
proof (rule drain_bal_fold)
  fix x :: "nat \<times> nat option" and q assume b: "drain_bal C n q"
  have s: "drain_bal C n (scheduleSlotMigration i q)" for i by (rule drain_bal_keep [OF b]) simp
  have r: "drain_bal C n (snd (maybeRotateSlot E now i a rs q'))" if "drain_bal C n q'" for i a rs q'
    by (rule drain_bal_keep [OF that]) simp
  show "drain_bal C n (sweep_slot E now adapted x q)"
    unfolding sweep_slot_def Let_def
    by (auto simp: b s split: prod.split option.split intro!: drain_bal_startDrain r)
qed

lemma drain_bal_rotateMin: "drain_bal C n p \<Longrightarrow> drain_bal C n (rotateMinLoadedSlot E now p)"
proof -
  assume b: "drain_bal C n p"
  have "drain_bal C n (snd (legacy_begin i p))" for i
    by (rule drain_bal_keep [OF b]) (simp add: legacy_begin_def split: option.split)
  then show ?thesis
    using b drain_bal_startDrain by (simp add: rotateMinLoadedSlot_def split: option.split)
qed

lemma drain_bal_plain_step:
  assumes b: "drain_bal C n p" shows "drain_bal C n (plain_step op p)"
proof (cases op)
  case (OpSweep E now adapted)
  then show ?thesis using b by (simp add: drain_bal_sweep)
next
  case (OpRotateMin E now)
  then show ?thesis using b by (simp add: drain_bal_rotateMin)
next
  case (OpStartDrain E now idx)
  then show ?thesis using b by (simp add: drain_bal_startDrain)
qed (rule drain_bal_keep [OF b], simp)+

definition run_ok :: "poolConfig \<Rightarrow> poolRun \<Rightarrow> bool" where
  "run_ok C r \<longleftrightarrow> wspool_ok (run_pool r) \<and> drain_bal C (ended r) (run_pool r)"

text \<open>A death allocates nothing, so the slot a watchdog captured stays allocated.\<close>

lemma length_objs_prims [simp]:
  "length (slot_objs (emit w p)) = length (slot_objs p)" "length (slot_objs (go g p)) = length (slot_objs p)"
  "length (slot_objs (upd_entry e f p)) = length (slot_objs p)"
  "length (slot_objs (noteMigrateAck p)) = length (slot_objs p)"
  "length (slot_objs (noteMigrateTimeout p)) = length (slot_objs p)"
  "length (slot_objs (recordSlotDeath now p)) = length (slot_objs p)"
  "length (slot_objs (close_transport a p)) = length (slot_objs p)"
  "length (slot_objs (drop_entry sid p)) = length (slot_objs p)"
  "length (slot_objs (handleStreamClose sid p)) = length (slot_objs p)"
  "length (slot_objs (rebindStreamToSlot now sid t p)) = length (slot_objs p)"
  by (simp_all add: emit_def go_def upd_entry_def noteMigrateAck_def noteMigrateTimeout_def recordSlotDeath_def
      close_transport_def drop_entry_def handleStreamClose_def rebindStreamToSlot_def Let_def split: option.split)

lemma length_objs_send [simp]:
  "length (slot_objs (snd (sendMigrate E sid k t p))) = length (slot_objs p)"
  "length (slot_objs (sendSlotSessionFIN E a p)) = length (slot_objs p)"
  using same_table_sendMigrate [of p E sid k t] same_table_FIN [of p E a] by (simp_all add: same_table_def)

lemma length_objs_death [simp]: "length (slot_objs (handleSlotDeath E now idx cause p)) = length (slot_objs p)"
proof -
  have r: "length (slot_objs (snd (resumeStreamOnDeath E now sid e idx q))) = length (slot_objs q)" for sid e q
    using length_objs_send(1) [of E sid FlagResume _ "upd_entry e (\<lambda>x. x\<lparr>migrating := True\<rparr>) q"]
    by (auto simp: resumeStreamOnDeath_def split_def split: option.split)
  have "length (slot_objs s) = length (slot_objs q)" if "resumeStreamOnDeath E now sid e idx q = (x, s)" for sid e q x s
    using r [of sid e q] that by simp
  then have "length (slot_objs (death_stream E now m idx sid q)) = length (slot_objs q)" for m sid q
    by (auto simp: death_stream_def split: option.split prod.split resumeOutcome.split)
  then have "length (slot_objs (fold (death_stream E now m idx) xs q)) = length (slot_objs q)" for m xs q
    by (induction xs arbitrary: q) simp_all
  then show ?thesis
    by (simp add: handleSlotDeath_def Let_def death_dispatch_def accrueAgeExposure_def
        split: option.split slotDeathCause.split)
qed

lemma drain_bal_finish:
  assumes b: "drain_bal C n p" and g: "g \<in># mset (dogs p) - n" and a: "a < length (slot_objs p)"
  shows "drain_bal C (add_mset g n) (watchdog_finish E now idx a p)"
proof -
  define p1 where "p1 = handleSlotDeath E now idx deathCauseDrainTeardown (bump_generation a (accrueAgeExposure a p))"
  have v1: "drain_view p1 = drain_view p" by (simp add: p1_def bump_generation_def accrueAgeExposure_def)
  have "a < length (slot_objs p1)" using a by (simp add: p1_def bump_generation_def accrueAgeExposure_def)
  then have r: "drain_bal C n (releaseSticky a p1)" by (rule drain_bal_sticky(2) [OF drain_bal_keep [OF b v1]])
  have "dogs (releaseSticky a p1) = dogs p" using v1 by (simp add: releaseSticky_def drain_view_def dogs_def upd_obj_def)
  then have "add_mset g n \<subseteq># mset (dogs (releaseSticky a p1))"
    using g b by (auto simp: drain_bal_def subseteq_mset_def in_diff_count)
  then show ?thesis
    using r unfolding watchdog_finish_def p1_def [symmetric]
    by (simp add: Let_def drain_bal_def dogs_def sticky_slots_def obj_def)
qed

lemma run_ok_step: "run_ok C r \<Longrightarrow> run_ok C (pool_step op r)"
proof -
  assume ok: "run_ok C r"
  then have w: "wspool_ok (run_pool r)" and b: "drain_bal C (ended r) (run_pool r)" by (auto simp: run_ok_def)
  have e: "run_ok C (end_dog E now idx a start r)"
    if "running r (GoDrainWatchdog idx a start)" "a < length (slot_objs (run_pool r))" for E now idx a start
    using that drain_bal_finish [OF b, of "GoDrainWatchdog idx a start" a E now idx] wspool_ok_watchdog_finish [OF w]
    by (simp add: run_ok_def end_dog_def running_def)
  have p: "run_ok C (r\<lparr>run_pool := plain_step op (run_pool r)\<rparr>)"
    using wspool_ok_plain_step [OF w] drain_bal_plain_step [OF b] by (simp add: run_ok_def)
  show ?thesis
  proof (cases op)
    case (OpTick E now idx a start seen)
    then show ?thesis using e ok by simp
  next
    case (OpDeadline E now idx a start seen)
    then show ?thesis
      using e ok drain_bal_sticky(1) [OF b] wspool_ok_sticky(2) [OF w]
      by (auto simp: run_ok_def watchdog_extend_def split: option.split)
  qed (use p in simp_all)
qed

lemma run_ok_run: "run_ok C (pool_run C ops)"
proof -
  have "run_ok C r \<Longrightarrow> run_ok C (fold pool_step ops r)" for r
    by (induction ops arbitrary: r) (simp_all add: run_ok_step)
  moreover have "run_ok C \<lparr>run_pool = allocSlots C, ended = {#}\<rparr>"
    using wspool_ok_allocSlots [of C] maxConcurrentDrains_bounds [of C]
    by (simp add: run_ok_def drain_bal_def allocSlots_def dogs_def sticky_slots_def)
  ultimately show ?thesis by (simp add: pool_run_def)
qed

end
