(* ===== verification/Ws_Pool_Props.thy ===== *)
theory Ws_Pool_Props
  imports Ws_Pool_Inv
begin

section \<open>The WebSocket pool of the client: properties\<close>

text \<open>
  What the pool guarantees in every run (counters, drains, choice of slots, duration of a drain,
  what a death does to streams), and the orders of operations in which it loses a connection,
  a count or a cell.
\<close>

subsection \<open>States of the slots through the operations\<close>

definition state_view :: "wsPool \<Rightarrow> nat option list \<times> (slotState \<times> int \<times> nat option \<times> int) list" where
  "state_view p = (slots p, map (\<lambda>s. (slot_state s, lastDeathNs s, slot_transport s, startedAtNs s)) (slot_objs p))"

lemma state_view_prims [simp]:
  "state_view (emit w p) = state_view p" "state_view (go g p) = state_view p"
  "state_view (upd_entry e f p) = state_view p" "state_view (store_entry sid y p) = state_view p"
  "state_view (p\<lparr>streamMap := m\<rparr>) = state_view p" "state_view (p\<lparr>client := c\<rparr>) = state_view p"
  "state_view (p\<lparr>inflightDrains := k\<rparr>) = state_view p" "state_view (p\<lparr>stickyDrainCount := k\<rparr>) = state_view p"
  "state_view (noteMigrateAck p) = state_view p" "state_view (noteMigrateTimeout p) = state_view p"
  "state_view (recordSlotDeath now p) = state_view p"
  by (simp_all add: state_view_def emit_def go_def upd_entry_def store_entry_def noteMigrateAck_def
      noteMigrateTimeout_def recordSlotDeath_def Let_def)

lemma state_view_upd [simp]:
  assumes "\<And>s. slot_state (f s) = slot_state s \<and> lastDeathNs (f s) = lastDeathNs s \<and>
     slot_transport (f s) = slot_transport s \<and> startedAtNs (f s) = startedAtNs s"
  shows "state_view (upd_obj a f p) = state_view p"
  using assms by (cases "a < length (slot_objs p)")
    (auto simp: state_view_def upd_obj_def map_update list_update_same_conv list_update_beyond)

lemma state_view_dec [simp]: "state_view (upd_obj a decStreamsFloor p) = state_view p"
  by (rule state_view_upd) (simp add: decStreamsFloor_def)

lemma state_view_streams [simp]:
  "state_view (drop_entry sid p) = state_view p" "state_view (handleStreamClose sid p) = state_view p"
  "state_view (rebindStreamToSlot now sid t p) = state_view p" "state_view (close_transport a p) = state_view p"
  by (simp_all add: drop_entry_def handleStreamClose_def rebindStreamToSlot_def close_transport_def Let_def
      split: option.split)

lemma state_view_encrypt: "encrypt_on E a mk p = (r, q) \<Longrightarrow> state_view q = state_view p"
  by (auto simp: encrypt_on_def Let_def split_def split: option.splits outcome.splits)

lemma state_view_send [simp]:
  "state_view (snd (sendMigrate E sid k t p)) = state_view p" "state_view (sendSlotSessionFIN E a p) = state_view p"
  by (auto simp: sendMigrate_def sendSlotSessionFIN_def Let_def state_view_encrypt
      split: option.split prod.split migrateReply.split)

lemma state_view_death_stream [simp]: "state_view (death_stream E now m idx sid p) = state_view p"
proof -
  have "state_view (snd (resumeStreamOnDeath E now sid e idx p)) = state_view p" for e
    using state_view_send(1) [of E sid FlagResume _ "upd_entry e (\<lambda>x. x\<lparr>migrating := True\<rparr>) p"]
    by (auto simp: resumeStreamOnDeath_def split_def split: option.split)
  then have "state_view q = state_view p" if "resumeStreamOnDeath E now sid e idx p = (r, q)" for e r q
    using that by (metis snd_conv)
  then show ?thesis by (auto simp: death_stream_def split: option.split prod.split resumeOutcome.split)
qed

lemma state_view_fold: "(\<And>x q. state_view (f x q) = state_view q) \<Longrightarrow> state_view (fold f xs p) = state_view p"
  by (induction xs arbitrary: p) simp_all

lemma state_viewD:
  assumes "state_view q = state_view p"
  shows "slots q = slots p" "slotAt q = slotAt p" "length (slot_objs q) = length (slot_objs p)"
    "b < length (slot_objs p) \<Longrightarrow> slot_state (obj q b) = slot_state (obj p b)"
    "b < length (slot_objs p) \<Longrightarrow> lastDeathNs (obj q b) = lastDeathNs (obj p b)"
    "b < length (slot_objs p) \<Longrightarrow> slot_transport (obj q b) = slot_transport (obj p b)"
proof -
  have s: "slots q = slots p" and m: "map (\<lambda>s. (slot_state s, lastDeathNs s, slot_transport s, startedAtNs s)) (slot_objs q) =
      map (\<lambda>s. (slot_state s, lastDeathNs s, slot_transport s, startedAtNs s)) (slot_objs p)"
    using assms by (simp_all add: state_view_def)
  then show "slots q = slots p" "slotAt q = slotAt p" "length (slot_objs q) = length (slot_objs p)"
    by (auto simp: slotAt_def fun_eq_iff dest: map_eq_imp_length_eq)
  then show "b < length (slot_objs p) \<Longrightarrow> slot_state (obj q b) = slot_state (obj p b)"
    "b < length (slot_objs p) \<Longrightarrow> lastDeathNs (obj q b) = lastDeathNs (obj p b)"
    "b < length (slot_objs p) \<Longrightarrow> slot_transport (obj q b) = slot_transport (obj p b)"
    using arg_cong [OF m, of "\<lambda>xs. xs ! b"] by (simp_all add: obj_def)
qed

text \<open>What a death does to slots and cells.\<close>

definition after_death :: "int \<Rightarrow> nat \<Rightarrow> wsPool \<Rightarrow> wsPool" where
  "after_death now a p = upd_obj a (\<lambda>s. s\<lparr>slot_state := slotDead, lastDeathNs := now\<rparr>) p"

lemma mark_dead_eq: "upd_obj a (\<lambda>s. (snd (tryMarkDead s))\<lparr>lastDeathNs := now\<rparr>) p = after_death now a p"
  by (simp add: after_death_def upd_obj_def tryMarkDead_def)
    (metis (no_types) poolSlot.ext_inject poolSlot.surjective poolSlot.update_convs(3))

lemma state_view_death:
  assumes "slotAt p idx = Some a" "getState p a \<noteq> slotDead"
  shows "state_view (handleSlotDeath E now idx cause p) =
    state_view (if cause = deathCauseDrainTeardown then storeSlot idx None (after_death now a p) else after_death now a p)"
proof -
  have c: "state_view (storeSlot i x q) = state_view (storeSlot i x r)" if "state_view q = state_view r" for i x q r
    using that by (simp add: state_view_def storeSlot_def)
  have f: "fst (tryMarkDead s) \<longleftrightarrow> slot_state s \<noteq> slotDead" for s by (simp add: tryMarkDead_def)
  show ?thesis
    using assms
    by (cases cause) (auto simp: handleSlotDeath_def Let_def death_dispatch_def accrueAgeExposure_def getState_def
        f state_view_fold mark_dead_eq intro!: c)
qed

lemma death_effect:
  assumes "slotAt p idx = Some a" "getState p a \<noteq> slotDead" "a < length (slot_objs p)"
    and "q = handleSlotDeath E now idx cause p"
  shows "getState q a = slotDead" "lastDeathNs (obj q a) = now"
    "slotAt q idx = (if cause = deathCauseDrainTeardown then None else Some a)"
    "j \<noteq> idx \<Longrightarrow> slotAt q j = slotAt p j"
    "b < length (slot_objs p) \<Longrightarrow> b \<noteq> a \<Longrightarrow> slot_state (obj q b) = slot_state (obj p b)"
    "length (slot_objs q) = length (slot_objs p)"
proof -
  let ?r = "if cause = deathCauseDrainTeardown then storeSlot idx None (after_death now a p) else after_death now a p"
  have v: "state_view q = state_view ?r" using state_view_death [OF assms(1,2)] assms(4) by simp
  have l: "length (slot_objs ?r) = length (slot_objs p)" by (simp add: after_death_def)
  have o: "obj ?r b = (if b = a then (obj p a)\<lparr>slot_state := slotDead, lastDeathNs := now\<rparr> else obj p b)"
    if "b < length (slot_objs p)" for b
    using that by (simp add: after_death_def obj_upd_valid)
  have i: "idx < length (slots p)" using assms(1) by (auto simp: slotAt_def split: if_splits)
  have s: "slotAt ?r j = (if cause = deathCauseDrainTeardown \<and> j = idx then None else slotAt p j)" for j
    using i by (simp add: after_death_def slotAt_storeSlot)
  note V = state_viewD [OF v]
  show "getState q a = slotDead" "lastDeathNs (obj q a) = now"
    using V(4,5) [of a] o [OF assms(3)] assms(3) l by (simp_all add: getState_def)
  show "slotAt q idx = (if cause = deathCauseDrainTeardown then None else Some a)"
    using s [of idx] assms(1) by (simp add: V(2))
  show "j \<noteq> idx \<Longrightarrow> slotAt q j = slotAt p j" using s [of j] by (simp add: V(2))
  show "b < length (slot_objs p) \<Longrightarrow> b \<noteq> a \<Longrightarrow> slot_state (obj q b) = slot_state (obj p b)"
    using V(4) [of b] o [of b] l by simp
  show "length (slot_objs q) = length (slot_objs p)" using V(3) l by simp
qed

lemma snap_total_attached: "snap_total (snapshotDrainStreams p idx now) = length (attached p idx)"
proof -
  have "snap_total (fold (snap_entry now) es s) = snap_total s + length es" for es s
    by (induction es arbitrary: s) (simp_all add: snap_entry_def Let_def)
  then show ?thesis by (simp add: snapshotDrainStreams_def)
qed

subsection \<open>Properties of every run\<close>


definition demo_cfg :: poolConfig where
  "demo_cfg = \<lparr>poolSize = 1, maxPendingPerSlot = 4, maxStreamsPerSlot = 0, maxSlotAge = 75 * Second, gracefulDrain = True,
     drainHardCap = 30 * Second, drainIdleThreshold = 30 * Second, stickyMaxDrainAge = 25 * Second,
     stickyMaxTotalBytes = 1000000, stickyMaxSlots = 0, floorProduct = 0, meltdownThreshold = 6,
     meltdownCooldown = 10 * Second, byteBudgetMinInterval = 0, ageCutMinAge = 0\<rparr>"

definition pool_env :: sendEnv where
  "pool_env = \<lparr>env_gcm = tag_gcm, env_buf = zero_pool, env_rnd = None, env_room = (\<lambda>_. True),
     env_reply = (\<lambda>_ _. NoReply), env_budget = 0\<rparr>"




lemma assign_pick_None: "assign_pick p now = None \<longleftrightarrow> (\<forall>i < length (slots p). slots p ! i = None)"
proof
  assume n: "assign_pick p now = None"
  show "\<forall>i < length (slots p). slots p ! i = None"
  proof (rule ccontr)
    assume "\<not> ?thesis"
    then have "first_some 0 (slots p) \<noteq> None"
      using first_some_spec [of "slots p"] exists_least_iff [of "\<lambda>i. i < length (slots p) \<and> slots p ! i \<noteq> None"]
      by (metis (mono_tags, lifting) dual_order.strict_trans option.discI)
    then show False using n by (simp add: assign_pick_def split: option.splits)
  qed
next
  assume "\<forall>i < length (slots p). slots p ! i = None"
  then show "assign_pick p now = None"
    using assign_pick_iff [of p now] slot_choice_cell by (metis not_Some_eq option.discI)
qed

text \<open>\<open>AssignStream\<close> binds a stream that is not yet bound to a slot exactly by the documented rule:
  first among ready slots with room that did not just die, then among ready slots with room,
  then among ready slots, each time the lowest score and the first cell of that score, and
  else the first cell in use; it counts the stream on the slot in that cell.  It changes
  nothing when the stream is bound already or no cell is in use.
\<close>

theorem AssignStream_choice:
  assumes "wspool_ok p"
  shows "if entry p sid \<noteq> None \<or> (\<forall>i < length (slots p). slots p ! i = None) then AssignStream now sid p = p
     else \<exists>i a. slot_choice p now i \<and> slotAt p i = Some a \<and>
       entry (AssignStream now sid p) = (entry p)(sid \<mapsto> newStreamEntry now i) \<and>
       slot_streams (obj (AssignStream now sid p) a) = slot_streams (obj p a) + 1"
proof (cases "assign_pick p now")
  case None
  then show ?thesis using assign_pick_None [of p now] by (simp add: AssignStream_def)
next
  case (Some i)
  then have c: "slot_choice p now i" by (simp add: assign_pick_iff)
  obtain a where a: "i < length (slots p)" "slots p ! i = Some a" using slot_choice_cell [OF c] .
  then have s: "slotAt p i = Some a" by (simp add: slotAt_def)
  have v: "a < length (slot_objs p)" using assms s by (auto simp: wspool_ok_def cells_ok_def)
  have t: "table_ok (upd_obj a (\<lambda>s. s\<lparr>slot_streams := slot_streams s + 1\<rparr>) p)"
    using assms by (simp add: wspool_ok_def)
  have "AssignStream now sid p = store_entry sid (newStreamEntry now i)
      (upd_obj a (\<lambda>s. s\<lparr>slot_streams := slot_streams s + 1\<rparr>) p)" if "entry p sid = None"
    using that Some s by (simp add: AssignStream_def entry_def)
  moreover have "AssignStream now sid p = p" if "entry p sid \<noteq> None"
    using that Some by (simp add: AssignStream_def entry_def)
  ultimately show ?thesis
    using c s a v entry_store [OF t] by (auto simp: obj_upd_valid)
qed

theorem AssignStream_choice_witness:
  "slotAt (AssignStream 5 7 (run_pool (pool_run demo_cfg [OpInstall 0]))) 0 = Some 0 \<and>
   entry (AssignStream 5 7 (run_pool (pool_run demo_cfg [OpInstall 0]))) 7 = Some (newStreamEntry 5 0)"
proof -
  define p where "p = run_pool (pool_run demo_cfg [OpInstall 0])"
  have ok: "wspool_ok p" using run_ok_run [of demo_cfg "[OpInstall 0]"] by (simp add: p_def run_ok_def)
  have s: "slots p = [Some 0, None]" "entry p 7 = None"
    by (simp_all add: p_def pool_run_def demo_cfg_def allocSlots_def connectSlot_install_def cellIsOverwritable_def
        slotAt_def alloc_obj_def storeSlot_def entry_def numeral_2_eq_2)
  obtain i a where i: "slot_choice p 5 i" "slotAt p i = Some a"
    "entry (AssignStream 5 7 p) = (entry p)(7 \<mapsto> newStreamEntry 5 i)"
    using AssignStream_choice [OF ok, of 7 5] s by (auto split: if_splits)
  have "i = 0" using i(2) s(1) by (cases i) (auto simp: slotAt_def less_Suc_eq split: if_splits)
  moreover have "slotAt (AssignStream 5 7 p) = slotAt p" by (simp add: AssignStream_def split: option.split)
  ultimately show ?thesis using i(3) s(1) by (simp flip: p_def add: slotAt_def)
qed



end
