(* ===== verification/Ws_Pool_Death.thy ===== *)
theory Ws_Pool_Death
  imports Ws_Pool_Props
begin

section \<open>The WebSocket pool of the client: streams of a slot that dies\<close>

text \<open>
  What \<open>handleSlotDeath\<close> does to the streams of the pool: the loop over the stream table, stream
  by stream, and from it the statement for the whole table.
\<close>

lemma entry_upd_entry:
  assumes "table_ok p" "map_of (streamMap p) sid = Some e"
  shows "entry (upd_entry e f p) = (entry p)(sid \<mapsto> f (entry_objs p ! e))"
proof
  fix k
  have v: "e < length (entry_objs p)" using assms by (simp add: table_ok_def)
  show "entry (upd_entry e f p) k = ((entry p)(sid \<mapsto> f (entry_objs p ! e))) k"
  proof (cases "k = sid")
    case True
    then show ?thesis using v assms(2) by (simp add: entry_def upd_entry_def)
  next
    case False
    then have "map_of (streamMap p) k \<noteq> Some e" using assms by (auto simp: table_ok_def)
    then show ?thesis using False by (cases "map_of (streamMap p) k") (auto simp: entry_def upd_entry_def)
  qed
qed

lemma young_scan_Some:
  "young_scan p ag i cs best = Some (t, s) \<Longrightarrow> best = Some (t, s) \<or>
     (t \<noteq> ag \<and> i \<le> t \<and> t - i < length cs \<and> (\<exists>b. cs ! (t - i) = Some b \<and> getState p b = slotReady))"
proof (induction p ag i cs best rule: young_scan.induct)
  case (2 p ag i c cs best)
  show ?case
    using 2 by (fastforce simp: Let_def nth_Cons' Suc_le_eq split: if_splits option.splits)
qed simp

lemma selectYoung_ready:
  assumes "selectYoungTargetSlot p idx = Some t"
  shows "t \<noteq> idx \<and> (\<exists>b. slotAt p t = Some b \<and> getState p b = slotReady)"
  using assms young_scan_Some [of p idx 0 "slots p" None t]
  by (auto simp: selectYoungTargetSlot_def slotAt_def)

text \<open>The fate of one stream.\<close>

definition resumed_on :: "int \<Rightarrow> nat \<Rightarrow> wsPool \<Rightarrow> streamEntry option \<Rightarrow> bool" where
  "resumed_on now idx p x \<longleftrightarrow> (\<exists>t b. x = Some (newStreamEntry now t) \<and> t \<noteq> idx \<and> slotAt p t = Some b \<and> getState p b = slotReady)"

definition death_fate :: "int \<Rightarrow> bool \<Rightarrow> nat \<Rightarrow> wsPool \<Rightarrow> streamEntry option \<Rightarrow> streamEntry option \<Rightarrow> bool" where
  "death_fate now m idx p old new =
     (case old of
        None \<Rightarrow> new = None
      | Some e \<Rightarrow> if slotIdx e \<noteq> idx \<or> m \<and> migrating e then new = Some e
                  else new = None \<or> m \<and> resumed_on now idx p new)"

lemma resume_fate:
  assumes ok: "table_ok p" and e: "map_of (streamMap p) sid = Some e"
    and i: "slotIdx (entry_objs p ! e) = idx" and r: "resumeStreamOnDeath E now sid e idx p = (out, q)"
  shows "table_ok q \<and> (\<forall>k. k \<noteq> sid \<longrightarrow> entry q k = entry p k) \<and>
     (if migrating (entry_objs p ! e) then out = resumeOutcomeKept \<and> q = p
      else out = resumeOutcomeKept \<longrightarrow> resumed_on now idx p (entry q sid))"
proof (cases "migrating (entry_objs p ! e) \<or> selectYoungTargetSlot p idx = None")
  case True
  then show ?thesis using r ok by (auto simp: resumeStreamOnDeath_def split: if_splits)
next
  case False
  then obtain t where m: "\<not> migrating (entry_objs p ! e)" and t: "selectYoungTargetSlot p idx = Some t" by auto
  let ?u = "upd_entry e (\<lambda>x. x\<lparr>migrating := True\<rparr>) p"
  obtain res p1 where s: "sendMigrate E sid FlagResume t ?u = (res, p1)" by fastforce
  have T: "same_table ?u p1" using same_table_sendMigrate [of ?u E sid FlagResume t] s by simp
  have u: "entry ?u = (entry p)(sid \<mapsto> (entry_objs p ! e)\<lparr>migrating := True\<rparr>)" by (rule entry_upd_entry [OF ok e])
  have e1: "entry p1 = entry ?u" by (rule same_table_entry [OF T])
  have m1: "map_of (streamMap p1) sid = Some e" using T e by (simp add: same_table_def upd_entry_def)
  have ok1: "table_ok p1" using T ok by (simp add: same_table_def table_ok_def upd_entry_def)
  show ?thesis
  proof (cases "res = migrateResultOK")
    case True
    then have q: "out = resumeOutcomeKept" "q = rebindStreamToSlot now sid t p1"
      using r s m t by (auto simp: resumeStreamOnDeath_def)
    have x: "entry p1 sid = Some ((entry_objs p ! e)\<lparr>migrating := True\<rparr>)" "slotIdx ((entry_objs p ! e)\<lparr>migrating := True\<rparr>) \<noteq> t"
      using selectYoung_ready [OF t] i by (simp_all add: e1 u)
    show ?thesis
      using rebind_frame(2,3) [OF ok1 x] q m e1 u selectYoung_ready [OF t] by (auto simp: resumed_on_def)
  next
    case False
    then have q: "out = resumeOutcomeBreak" "q = upd_entry e (\<lambda>x. x\<lparr>migrating := False\<rparr>) p1"
      using r s m t by (auto simp: resumeStreamOnDeath_def)
    show ?thesis using entry_upd_entry [OF ok1 m1] q ok1 e1 u m by simp
  qed
qed

lemma death_stream_fate:
  assumes ok: "table_ok p"
  shows "table_ok (death_stream E now m idx sid p) \<and>
     (\<forall>k. k \<noteq> sid \<longrightarrow> entry (death_stream E now m idx sid p) k = entry p k) \<and>
     death_fate now m idx p (entry p sid) (entry (death_stream E now m idx sid p) sid)"
proof -
  have c: "table_ok (handleStreamClose sid q)" "entry (handleStreamClose sid q) = (entry q)(sid := None)" if "table_ok q" for q
    using that by (simp_all add: handleStreamClose_def table_ok_drop entry_drop)
  show ?thesis
  proof (cases "map_of (streamMap p) sid")
    case None
    then show ?thesis using ok by (simp add: death_stream_def death_fate_def entry_def)
  next
    case (Some e)
    then have x: "entry p sid = Some (entry_objs p ! e)" by (simp add: entry_def)
    show ?thesis
    proof (cases "slotIdx (entry_objs p ! e) = idx \<and> m")
      case True
      obtain out q where r: "resumeStreamOnDeath E now sid e idx p = (out, q)" by fastforce
      note F = resume_fate [OF ok Some conjunct1 [OF True] r]
      show ?thesis
        using F c [of q] True Some x r
        by (cases out) (auto simp: death_stream_def death_fate_def split: if_splits)
    qed (use Some x ok c [OF ok] in \<open>auto simp: death_stream_def death_fate_def\<close>)
  qed
qed

text \<open>The loop visits every stream of the table once.\<close>

lemma death_fate_cong:
  assumes "state_view q = state_view p" "cells_ok p" "death_fate now m idx q x y" shows "death_fate now m idx p x y"
proof -
  have "getState q b = getState p b" if "slotAt p t = Some b" for t b
    using state_viewD(4) [OF assms(1), of b] slotAt_valid [OF assms(2) that] by (simp add: getState_def)
  then show ?thesis
    using assms(3) state_viewD(2) [OF assms(1)] by (auto simp: death_fate_def resumed_on_def split: option.splits if_splits)
qed

lemma death_loop_fate:
  assumes "table_ok q" "distinct sids" "state_view q = state_view p" "cells_ok p"
  shows "(\<forall>k. k \<notin> set sids \<longrightarrow> entry (fold (death_stream E now m idx) sids q) k = entry q k) \<and>
     (\<forall>k \<in> set sids. death_fate now m idx p (entry q k) (entry (fold (death_stream E now m idx) sids q) k))"
  using assms(1-3)
proof (induction sids arbitrary: q)
  case (Cons sid sids)
  let ?r = "death_stream E now m idx sid q"
  note D = death_stream_fate [OF Cons.prems(1), of E now m idx sid]
  have v: "state_view ?r = state_view p" using Cons.prems(3) by simp
  have n: "sid \<notin> set sids" "distinct sids" using Cons.prems(2) by auto
  note I = Cons.IH [of ?r, OF conjunct1 [OF D] n(2) v]
  have "death_fate now m idx p (entry q sid) (entry ?r sid)"
    using D by (intro death_fate_cong [OF Cons.prems(3) assms(4)]) blast
  then show ?case using I D n(1) by fastforce
qed simp

text \<open>The rest of \<open>handleSlotDeath\<close> leaves the stream table alone.\<close>

lemma entry_death_rest [simp]:
  "entry (sendSlotSessionFIN E a p) = entry p" "entry (close_transport a p) = entry p"
  "entry (death_dispatch now idx cause p) = entry p" "entry (accrueAgeExposure a p) = entry p"
  using same_table_entry [OF same_table_FIN [of p E a]]
  by (auto simp: close_transport_def death_dispatch_def recordSlotDeath_def Let_def accrueAgeExposure_def
      split: option.split slotDeathCause.split) (auto simp: entry_def fun_eq_iff)

lemma fst_tryMarkDead: "fst (tryMarkDead s) \<longleftrightarrow> slot_state s \<noteq> slotDead"
  by (simp add: tryMarkDead_def)

lemma entry_after_death:
  assumes "wspool_ok p" "slotAt p idx = Some a" "getState p a \<noteq> slotDead"
    and q: "q = handleSlotDeath E now idx cause p"
  shows "death_fate now (migrateEnabled p) idx (after_death now a p) (entry p sid) (entry q sid)"
proof -
  define p2 where "p2 = accrueAgeExposure a (after_death now a p)"
  have p2: "streamMap p2 = streamMap p" "entry p2 = entry p" "state_view p2 = state_view (after_death now a p)"
    "migrateEnabled p2 = migrateEnabled p" "table_ok p2" "cells_ok (after_death now a p)"
    using assms(1) by (simp_all add: p2_def after_death_def accrueAgeExposure_def wspool_ok_def) (simp_all add: upd_obj_def)
  have e: "entry q = entry (fold (death_stream E now (migrateEnabled p) idx) (map fst (streamMap p)) p2)"
    using assms(2,3) unfolding q handleSlotDeath_def mark_dead_eq
    by (simp add: Let_def getState_def fst_tryMarkDead p2_def [symmetric] p2)
  have d: "distinct (map fst (streamMap p))" using assms(1) by (simp add: wspool_ok_def table_ok_def)
  note L = death_loop_fate [OF p2(5) d p2(3,6), of E now "migrateEnabled p" idx]
  show ?thesis
  proof (cases "sid \<in> set (map fst (streamMap p))")
    case True
    from bspec [OF conjunct2 [OF L] this] show ?thesis by (simp only: e p2)
  next
    case False
    then have "entry p sid = None" by (simp add: entry_def map_of_eq_None_iff)
    then show ?thesis using L False by (simp add: e p2 death_fate_def)
  qed
qed



end
