(* ===== verification/Ws_Pool_Races.thy ===== *)
theory Ws_Pool_Races
  imports Ws_Pool_Death
begin

section \<open>The WebSocket pool of the client: orders of operations that lose a slot\<close>

text \<open>
  The pool identifies a slot sometimes by its address and sometimes by its cell.  The statements
  below are about orders of operations in which the two come apart: a drain that tears down
  the successor of its slot, two connections in one cell, a rotation that its own guard
  rejects, and a cell whose new slot does not know its streams.  Each witness is a run of the
  pool from its initial state.
\<close>

definition demo_session :: session where
  "demo_session = NewSession 0 (replicate 16 1) 1 (replicate 32 1) (replicate 32 2)"

definition demo_up :: upgraded where
  "demo_up = \<lparr>up_transport = 7, up_flow = None, up_migrate = False, up_byteBudget = 0, up_staggerOffset = 0,
     up_migrationThreshold = 0\<rparr>"

lemmas run_simps = pool_run_def demo_cfg_def demo_up_def allocSlots_def connectSlot_install_def cellIsOverwritable_def
  connectSlot_ready_def slotAt_def alloc_obj_def storeSlot_def new_slot_def getState_def obj_def upd_obj_def numeral_2_eq_2
  go_def

text \<open>A drain watchdog tears down by cell.  When its slot died meanwhile and the cell holds a
  ready successor, the next tick finds the old slot without streams and tears down: it marks
  the successor dead, empties the cell and ends the successor's connection.
\<close>

theorem drain_teardown_hits_successor:
  assumes "wspool_ok (run_pool r)" "running r (GoDrainWatchdog idx b start)"
    and "slotAt (run_pool r) idx = Some a" "getState (run_pool r) a = slotReady"
    and "b < length (slot_objs (run_pool r))" "slot_streams (obj (run_pool r) b) = 0"
    and "q = run_pool (pool_step (OpTick E now idx b start seen) r)"
  shows "getState q a = slotDead \<and> slotAt q idx = None"
proof -
  define p where "p = bump_generation b (accrueAgeExposure b (run_pool r))"
  have s: "state_view p = state_view (run_pool r)" by (simp add: p_def bump_generation_def accrueAgeExposure_def)
  have v: "a < length (slot_objs (run_pool r))" using assms(1,3) by (auto simp: wspool_ok_def intro: slotAt_valid)
  have p: "slotAt p idx = Some a" "getState p a \<noteq> slotDead" "a < length (slot_objs p)"
    using state_viewD [OF s] v assms(3,4) by (simp_all add: getState_def)
  have "q = (releaseSticky b (handleSlotDeath E now idx deathCauseDrainTeardown p))
      \<lparr>inflightDrains := inflightDrains (releaseSticky b (handleSlotDeath E now idx deathCauseDrainTeardown p)) - 1\<rparr>"
    using assms(2,5-7) by (simp add: end_dog_def watchdog_finish_def watchdog_tick_def p_def Let_def)
  moreover have "state_view (releaseSticky b h) = state_view h" for h by (simp add: releaseSticky_def)
  ultimately have e: "state_view q = state_view (handleSlotDeath E now idx deathCauseDrainTeardown p)" by simp
  note D = death_effect [OF p, where q = "handleSlotDeath E now idx deathCauseDrainTeardown p", OF refl]
  show ?thesis
    using state_viewD(2) [OF e] state_viewD(4) [OF e, of a] D(1,3,6) p(3) by (simp add: getState_def)
qed

definition successor_run :: "pool_op list" where
  "successor_run = [OpInstall 0, OpConnectReady 1 0 demo_session demo_up, OpStartDrain pool_env 2 0,
     OpDeath pool_env 3 0 deathCauseAgeCut, OpInstall 0, OpConnectReady 4 2 demo_session demo_up]"

theorem drain_teardown_hits_successor_witness:
  "\<exists>r. r = pool_run demo_cfg successor_run \<and> slotAt (run_pool r) 0 = Some 2 \<and> getState (run_pool r) 2 = slotReady \<and>
     getState (run_pool (pool_step (OpTick pool_env 5 0 0 2 None) r)) 2 = slotDead"
proof -
  define r where "r = pool_run demo_cfg successor_run"
  have ok: "wspool_ok (run_pool r)" using run_ok_run [of demo_cfg successor_run] by (simp add: r_def run_ok_def)
  have s: "slotAt (run_pool r) 0 = Some 2" "getState (run_pool r) 2 = slotReady" "0 < length (slot_objs (run_pool r))"
    "slot_streams (obj (run_pool r) 0) = 0" "running r (GoDrainWatchdog 0 0 2)"
    by (simp_all add: r_def successor_run_def run_simps startDrain_def maxConcurrentDrains_def readyCapacity_def
        readyCapacityFloor_def is_ready_def tryMarkDraining_def claim_or_evict_def claimFreeSlot_def handleSlotDeath_def
        tryMarkDead_def accrueAgeExposure_def sends_fin_def close_transport_def death_dispatch_def emit_def
        running_def dogs_def is_dog_def)
  show ?thesis
    using drain_teardown_hits_successor [OF ok s(5,1,2,3,4) refl, of pool_env 5 None] s(1,2) r_def by blast
qed

text \<open>What the first half of \<open>connectSlot\<close> leaves, and what the second half adds.\<close>

lemma install_effect:
  assumes "connectSlot_install idx p = (Some a, p1)" "idx < length (slots p)"
  shows "a = length (slot_objs p)" "slot_objs p1 = slot_objs p @ [new_slot idx]" "obj p1 a = new_slot idx"
    "slotAt p1 i = (if i = idx then Some a else slotAt p i)" "length (slots p1) = length (slots p)" "entry p1 = entry p"
  using assms
  by (auto simp: connectSlot_install_def alloc_obj_def Let_def slotAt_storeSlot obj_def split: if_splits)
    (auto simp: slotAt_def storeSlot_def)

lemma ready_effect:
  assumes "a < length (slot_objs p)"
  shows "getState (connectSlot_ready now a ses up p) a = slotReady"
    "slot_transport (obj (connectSlot_ready now a ses up p) a) = Some (up_transport up)"
    "slot_streams (obj (connectSlot_ready now a ses up p) a) = slot_streams (obj p a)"
    "slotAt (connectSlot_ready now a ses up p) = slotAt p" "entry (connectSlot_ready now a ses up p) = entry p"
proof -
  have r: "slotAt (resetMigrateHysteresis h) = slotAt h" "entry (resetMigrateHysteresis h) = entry h"
    "obj (resetMigrateHysteresis h) = obj h" "slot_objs (resetMigrateHysteresis h) = slot_objs h"
    "slotAt (h\<lparr>migrateEnabled := True\<rparr>) = slotAt h" "entry (h\<lparr>migrateEnabled := True\<rparr>) = entry h"
    "obj (h\<lparr>migrateEnabled := True\<rparr>) = obj h" for h
    by (auto simp: resetMigrateHysteresis_def slotAt_def entry_def obj_def fun_eq_iff)
  show "slotAt (connectSlot_ready now a ses up p) = slotAt p" "entry (connectSlot_ready now a ses up p) = entry p"
    by (simp_all add: connectSlot_ready_def Let_def r split: option.split)
  show "getState (connectSlot_ready now a ses up p) a = slotReady"
    "slot_transport (obj (connectSlot_ready now a ses up p) a) = Some (up_transport up)"
    "slot_streams (obj (connectSlot_ready now a ses up p) a) = slot_streams (obj p a)"
    using assms by (simp_all add: connectSlot_ready_def Let_def getState_def obj_upd_valid r split: option.split)
qed

text \<open>The guard of \<open>connectSlot\<close> lets a second call install its slot over the slot of a call that
  still waits for the network.  When the first call then completes, its slot is ready with an
  open connection and stands in no cell: nothing in the pool reaches it any more.
\<close>

theorem connect_overlap_orphans:
  assumes "wspool_ok p" "idx < length (slots p)" "connectSlot_install idx p = (Some a, p1)"
  shows "\<exists>b p2. connectSlot_install idx p1 = (Some b, p2) \<and>
     getState (connectSlot_ready now a ses up p2) a = slotReady \<and>
     slot_transport (obj (connectSlot_ready now a ses up p2) a) = Some (up_transport up) \<and>
     (\<forall>i. slotAt (connectSlot_ready now a ses up p2) i \<noteq> Some a)"
proof -
  note I = install_effect [OF assms(3,2)]
  have i1: "idx < length (slots p1)" using assms(2) I(5) by simp
  have "cellIsOverwritable p1 (slotAt p1 idx)" using I(3,4) by (simp add: cellIsOverwritable_def getState_def)
  then obtain b p2 where b: "connectSlot_install idx p1 = (Some b, p2)"
    by (fastforce simp: connectSlot_install_def alloc_obj_def)
  note J = install_effect [OF b i1]
  have v: "a < length (slot_objs p2)" using I(1,2) J(2) by simp
  have "slotAt p2 i \<noteq> Some a" for i
    using assms(1) I(1,2,4) J(1,4) slotAt_valid [of p i a] by (auto simp: wspool_ok_def)
  then show ?thesis using b ready_effect [OF v] by auto
qed

theorem connect_overlap_orphans_witness:
  "\<exists>b p2. connectSlot_install 0 (snd (connectSlot_install 0 (allocSlots demo_cfg))) = (Some b, p2) \<and>
     getState (connectSlot_ready 3 0 demo_session demo_up p2) 0 = slotReady \<and>
     (\<forall>i. slotAt (connectSlot_ready 3 0 demo_session demo_up p2) i \<noteq> Some 0)"
proof -
  have "connectSlot_install 0 (allocSlots demo_cfg) = (Some 0, snd (connectSlot_install 0 (allocSlots demo_cfg)))"
    by (simp add: run_simps)
  moreover have "0 < length (slots (allocSlots demo_cfg))" by (simp add: run_simps)
  ultimately show ?thesis
    using connect_overlap_orphans [OF wspool_ok_allocSlots, of 0 demo_cfg 0 _ 3 demo_session demo_up] by blast
qed

text \<open>The rotation without graceful drain strands its cell: when \<open>legacyRotateOneSlot\<close> comes to
  reconnect, its own slot is still draining in the cell, so \<open>connectSlot\<close> refuses; the
  connection is closed, the session destroyed, the slot stays in its cell as draining, and no
  reconnect loop for that cell will ever change the pool.
\<close>

theorem legacy_rotation_strands:
  assumes "slotAt p idx = Some a" "a < length (slot_objs p)" "getState p a = slotDraining" "slot_transport (obj p a) = Some t"
    and "q = legacy_reconnect now idx a hs up p"
  shows "slotAt q idx = Some a \<and> getState q a = slotDraining \<and> CloseTransport t \<in> set (wire q) \<and>
     spawned q = spawned p @ [GoReconnect idx] \<and>
     (\<forall>now rv hs up L. rl_idx L = idx \<longrightarrow> snd (reconnect_round now rv hs up L q) = q)"
proof -
  define p2 where "p2 = upd_obj a (\<lambda>s. s\<lparr>slot_session := map_option Destroy (slot_session s)\<rparr>)
     (close_transport a (bump_generation a p))"
  have s: "slotAt p2 idx = Some a" "getState p2 a = slotDraining" "CloseTransport t \<in> set (wire p2)" "spawned p2 = spawned p"
    using assms(1-4)
    by (simp_all add: p2_def close_transport_def bump_generation_def getState_def obj_upd_valid)
      (simp_all add: upd_obj_def emit_def)
  have "connectSlot now idx hs up p2 = (Some ErrCellOccupied, p2)" using s
    by (simp add: connectSlot_def connectSlot_install_def cellIsOverwritable_def)
  then have q: "q = go (GoReconnect idx) p2" by (simp add: assms(5) legacy_reconnect_def p2_def [symmetric] Let_def)
  have "slotAt q idx = Some a" "getState q a = slotDraining" using s by (simp_all add: q getState_def)
  moreover from this have "cell_recycled idx q" by (simp add: cell_recycled_def)
  ultimately show ?thesis
    using s by (auto simp: reconnect_round_def Let_def) (simp_all add: q go_def)
qed

theorem legacy_rotation_strands_witness:
  "\<exists>p. p = snd (legacy_begin 0 (run_pool (pool_run demo_cfg [OpInstall 0, OpConnectReady 1 0 demo_session demo_up]))) \<and>
     getState (legacy_reconnect 9 0 0 (Some demo_session, True) (Ok demo_up) p) 0 = slotDraining"
proof -
  define p where "p = snd (legacy_begin 0 (run_pool (pool_run demo_cfg [OpInstall 0, OpConnectReady 1 0 demo_session demo_up])))"
  have "slotAt p 0 = Some 0" "0 < length (slot_objs p)" "getState p 0 = slotDraining" "slot_transport (obj p 0) = Some 7"
    by (simp_all add: p_def run_simps legacy_begin_def)
  from legacy_rotation_strands [OF this refl] show ?thesis using p_def by blast
qed

text \<open>A slot that replaces another in its cell starts with no streams although the stream table
  still binds streams to the cell: such a stream is served by the new slot, which counts none
  of them, and a drain of that slot ends at its first tick however active they are.
\<close>

theorem reconnect_forgets_streams:
  assumes "idx < length (slots p)" "connectSlot_install idx p = (Some a, p1)" "entry p sid = Some e" "slotIdx e = idx"
    and "q = connectSlot_ready now a ses up p1"
  shows "entry q sid = Some e \<and> stream_slot q sid = Some a \<and> slot_streams (obj q a) = 0 \<and>
     fst (watchdog_tick q idx a now' seen) = Some finishStreamsZero"
proof -
  note I = install_effect [OF assms(2,1)]
  have v: "a < length (slot_objs p1)" using I(1,2) by simp
  note R = ready_effect [OF v, of now ses up, folded assms(5)]
  have "entry q sid = Some e" "slotAt q idx = Some a" "slot_streams (obj q a) = 0"
    using assms(3) I R by simp_all
  then show ?thesis using assms(4) R by (simp add: stream_slot_def with_slot_of_def watchdog_tick_def)
qed

theorem reconnect_forgets_streams_witness:
  "\<exists>q. stream_slot q 7 = Some 1 \<and> slot_streams (obj q 1) = 0"
proof -
  define p where "p = run_pool (pool_run demo_cfg [OpInstall 0, OpAssign 5 7])"
  have "0 < length (slots p)" "connectSlot_install 0 p = (Some 1, snd (connectSlot_install 0 p))"
    "entry p 7 = Some (newStreamEntry 5 0)" "slotIdx (newStreamEntry 5 0) = 0"
    by (simp_all add: p_def run_simps AssignStream_def assign_pick_def pick_min_def entry_def
        pass_score_def load_score_def store_entry_def newStreamEntry_def)
  from reconnect_forgets_streams [OF this refl] show ?thesis by blast
qed

end
