(* ===== verification/Net_Addr.thy ===== *)
theory Net_Addr
  imports Prelude
begin

section \<open>Addresses: what the program uses of packages net and netip\<close>

text \<open>
  The functions of Go's packages \<open>net\<close> and \<open>net/netip\<close> that decide where the program dials:
  splitting and joining of host and port, parsing and printing of addresses, prefixes and the
  predicates on addresses.  Go strings are byte lists.  A \<open>net.IP\<close> is a byte list (4 or 16
  long, nil is the empty list); a \<open>netip.Addr\<close> is a value of \<open>ipaddr\<close>.
\<close>

subsection \<open>Bytes of text\<close>

abbreviation (input) chr_colon :: byte where "chr_colon \<equiv> 58"
abbreviation (input) chr_dot :: byte where "chr_dot \<equiv> 46"
abbreviation (input) chr_percent :: byte where "chr_percent \<equiv> 37"
abbreviation (input) chr_lbrack :: byte where "chr_lbrack \<equiv> 91"
abbreviation (input) chr_rbrack :: byte where "chr_rbrack \<equiv> 93"

definition is_digit :: "byte \<Rightarrow> bool" where
  "is_digit c \<longleftrightarrow> 48 \<le> c \<and> c \<le> 57"

text \<open>\<open>%d\<close> of a natural number.\<close>

fun itoa :: "nat \<Rightarrow> gostring" where
  "itoa n = (if n < 10 then [48 + of_nat n] else itoa (n div 10) @ [48 + of_nat (n mod 10)])"

declare itoa.simps [simp del]

text \<open>Positions of the first and the last occurrence of a byte (\<open>IndexByte\<close>, \<open>last\<close>).\<close>

fun index_byte :: "byte \<Rightarrow> gostring \<Rightarrow> nat option" where
  "index_byte c [] = None"
| "index_byte c (x # xs) = (if x = c then Some 0 else map_option Suc (index_byte c xs))"

definition last_byte :: "byte \<Rightarrow> gostring \<Rightarrow> nat option" where
  "last_byte c s = map_option (\<lambda>i. length s - Suc i) (index_byte c (rev s))"

subsection \<open>Host and port\<close>

definition SplitHostPort :: "gostring \<Rightarrow> (gostring \<times> gostring) option" where
  "SplitHostPort hp =
     (case last_byte chr_colon hp of
        None \<Rightarrow> None
      | Some i \<Rightarrow>
          let finish = (\<lambda>host j k. if chr_lbrack \<in> set (drop j hp) \<or> chr_rbrack \<in> set (drop k hp) then None
                                   else Some (host, drop (Suc i) hp))
          in if hp ! 0 = chr_lbrack
             then (case index_byte chr_rbrack hp of
                     None \<Rightarrow> None
                   | Some e \<Rightarrow> if Suc e = i then finish (take (e - 1) (drop 1 hp)) 1 (Suc e) else None)
             else let host = take i hp in if chr_colon \<in> set host then None else finish host 0 0)"

definition JoinHostPort :: "gostring \<Rightarrow> gostring \<Rightarrow> gostring" where
  "JoinHostPort host port =
     (if chr_colon \<in> set host then [chr_lbrack] @ host @ [chr_rbrack, chr_colon] @ port
      else host @ [chr_colon] @ port)"

lemma index_byte_None: "index_byte c xs = None \<longleftrightarrow> c \<notin> set xs"
  by (induction xs) auto

lemma index_byte_append: "c \<notin> set xs \<Longrightarrow> index_byte c (xs @ c # ys) = Some (length xs)"
  by (induction xs) auto

lemma last_byte_append: "c \<notin> set ys \<Longrightarrow> last_byte c (xs @ c # ys) = Some (length xs)"
  using index_byte_append [of c "rev ys" "rev xs"] by (simp add: last_byte_def)

lemma split_join_host_port:
  assumes "set host \<inter> {chr_lbrack, chr_rbrack} = {}" "set port \<inter> {chr_colon, chr_lbrack, chr_rbrack} = {}"
  shows "SplitHostPort (JoinHostPort host port) = Some (host, port)"
proof (cases "chr_colon \<in> set host")
  case True
  have l: "last_byte chr_colon ((chr_lbrack # host @ [chr_rbrack]) @ chr_colon # port) = Some (length (chr_lbrack # host @ [chr_rbrack]))"
    by (rule last_byte_append) (use assms in auto)
  have r: "index_byte chr_rbrack ((chr_lbrack # host) @ chr_rbrack # chr_colon # port) = Some (length (chr_lbrack # host))"
    by (rule index_byte_append) (use assms in auto)
  show ?thesis using l r True assms by (auto simp: SplitHostPort_def JoinHostPort_def Let_def)
next
  case False
  have l: "last_byte chr_colon (host @ chr_colon # port) = Some (length host)"
    by (rule last_byte_append) (use assms in auto)
  have "(host @ chr_colon # port) ! 0 \<noteq> chr_lbrack" using assms by (cases host) auto
  then show ?thesis using l False assms by (auto simp: SplitHostPort_def JoinHostPort_def Let_def)
qed

subsection \<open>Parsing addresses\<close>

datatype ipaddr = IP4 bytes | IP6 bytes gostring   \<comment> \<open>4 bytes; 16 bytes and the zone\<close>

text \<open>\<open>parseIPv4Fields\<close>: \<open>val\<close> and \<open>digLen\<close> describe the current octet, \<open>fields\<close> the finished ones.\<close>

fun ip4_fields :: "nat \<Rightarrow> nat \<Rightarrow> bytes \<Rightarrow> gostring \<Rightarrow> bytes option" where
  "ip4_fields val digLen fields [] = (if length fields < 3 then None else Some (fields @ [of_nat val]))"
| "ip4_fields val digLen fields (c # cs) =
     (if is_digit c
      then if digLen = 1 \<and> val = 0 then None
           else let v = val * 10 + (unat c - 48) in if v > 255 then None else ip4_fields v (Suc digLen) fields cs
      else if c = chr_dot
      then if digLen = 0 \<or> cs = [] then None
           else if length fields = 3 then None else ip4_fields 0 0 (fields @ [of_nat val]) cs
      else None)"

definition parseIPv4 :: "gostring \<Rightarrow> bytes option" where
  "parseIPv4 s = ip4_fields 0 0 [] s"

definition hex_val :: "byte \<Rightarrow> nat option" where
  "hex_val c =
     (if is_digit c then Some (unat c - 48)
      else if 97 \<le> c \<and> c \<le> 102 then Some (unat c - 87)
      else if 65 \<le> c \<and> c \<le> 70 then Some (unat c - 55) else None)"

text \<open>
  The hex group at the front of \<open>s\<close>: its value and the number of digits; \<open>None\<close> for more than
  four digits.  With at most four digits the accumulator cannot exceed 16 bits.
\<close>

fun hex_group :: "nat \<Rightarrow> nat \<Rightarrow> gostring \<Rightarrow> (nat \<times> nat) option" where
  "hex_group acc off [] = Some (acc, off)"
| "hex_group acc off (c # cs) =
     (case hex_val c of
        None \<Rightarrow> Some (acc, off)
      | Some d \<Rightarrow> if off > 3 then None else hex_group (acc * 16 + d) (Suc off) cs)"

text \<open>
  The loop of \<open>parseIPv6\<close>: \<open>ip\<close> the bytes so far, \<open>e\<close> the position of the ellipsis.  The result
  is the rest of the string, the bytes and the ellipsis.  Each round stores two bytes, and
  the loop ends at 16, so nine rounds of fuel are enough.
\<close>

fun ip6_loop :: "nat \<Rightarrow> bytes \<Rightarrow> nat option \<Rightarrow> gostring \<Rightarrow> (gostring \<times> bytes \<times> nat option) option" where
  "ip6_loop 0 ip e s = None"
| "ip6_loop (Suc n) ip e s =
     (if length ip \<ge> 16 then Some (s, ip, e)
      else case hex_group 0 0 s of
        None \<Rightarrow> None
      | Some (acc, off) \<Rightarrow>
          if off = 0 then None
          else if off < length s \<and> s ! off = chr_dot
          then if e = None \<and> length ip \<noteq> 12 then None
               else if length ip + 4 > 16 then None
               else (case ip4_fields 0 0 [] s of None \<Rightarrow> None | Some fs \<Rightarrow> Some ([], ip @ fs, e))
          else let ip' = ip @ [of_nat (acc div 256), of_nat acc]; s' = drop off s
               in (case s' of
                     [] \<Rightarrow> Some ([], ip', e)
                   | c # s1 \<Rightarrow>
                       if c \<noteq> chr_colon \<or> s1 = [] then None
                       else if hd s1 = chr_colon
                       then if e \<noteq> None then None
                            else if tl s1 = [] then Some ([], ip', Some (length ip'))
                            else ip6_loop n ip' (Some (length ip')) (tl s1)
                       else ip6_loop n ip' e s1))"

definition ip6_expand :: "bytes \<Rightarrow> nat option \<Rightarrow> bytes option" where
  "ip6_expand ip e =
     (if length ip < 16
      then case e of None \<Rightarrow> None | Some k \<Rightarrow> Some (take k ip @ zeros (16 - length ip) @ drop k ip)
      else if e \<noteq> None then None else Some ip)"

definition parseIPv6 :: "gostring \<Rightarrow> (bytes \<times> gostring) option" where
  "parseIPv6 in_s =
     (let (s, zone, bad) = (case index_byte chr_percent in_s of
                              None \<Rightarrow> (in_s, [], False)
                            | Some i \<Rightarrow> (take i in_s, drop (Suc i) in_s, drop (Suc i) in_s = []));
          lead = (take 2 s = [chr_colon, chr_colon]);
          s1 = (if lead then drop 2 s else s)
      in if bad then None
         else if lead \<and> s1 = [] then Some (zeros 16, zone)
         else case ip6_loop 9 [] (if lead then Some 0 else None) s1 of
                None \<Rightarrow> None
              | Some (rest, ip, e) \<Rightarrow>
                  if rest \<noteq> [] then None else map_option (\<lambda>a. (a, zone)) (ip6_expand ip e))"

text \<open>\<open>ParseAddr\<close> looks for the first of \<open>. : %\<close>.\<close>

fun addr_kind :: "gostring \<Rightarrow> byte option" where
  "addr_kind [] = None"
| "addr_kind (c # cs) = (if c = chr_dot \<or> c = chr_colon \<or> c = chr_percent then Some c else addr_kind cs)"

definition ParseAddr :: "gostring \<Rightarrow> ipaddr option" where
  "ParseAddr s =
     (if addr_kind s = Some chr_dot then map_option IP4 (parseIPv4 s)
      else if addr_kind s = Some chr_colon then map_option (\<lambda>(a, z). IP6 a z) (parseIPv6 s)
      else None)"

definition v4InV6Prefix :: bytes where
  "v4InV6Prefix = zeros 10 @ [255, 255]"

definition As16 :: "ipaddr \<Rightarrow> bytes" where
  "As16 a = (case a of IP4 b \<Rightarrow> v4InV6Prefix @ b | IP6 b z \<Rightarrow> b)"

definition ParseIP :: "gostring \<Rightarrow> bytes option" where
  "ParseIP s =
     (case ParseAddr s of
        None \<Rightarrow> None
      | Some a \<Rightarrow> (case a of IP6 b z \<Rightarrow> if z \<noteq> [] then None else Some b | IP4 b \<Rightarrow> Some (As16 a)))"

subsection \<open>Forms of an address\<close>

definition To4 :: "bytes \<Rightarrow> bytes option" where
  "To4 ip = (if length ip = 4 then Some ip
     else if length ip = 16 \<and> take 12 ip = v4InV6Prefix then Some (drop 12 ip) else None)"

definition To16 :: "bytes \<Rightarrow> bytes option" where
  "To16 ip = (if length ip = 4 then Some (v4InV6Prefix @ ip) else if length ip = 16 then Some ip else None)"

definition Is4 :: "ipaddr \<Rightarrow> bool" where "Is4 a = (case a of IP4 _ \<Rightarrow> True | IP6 _ _ \<Rightarrow> False)"
definition Is6 :: "ipaddr \<Rightarrow> bool" where "Is6 a = (case a of IP4 _ \<Rightarrow> False | IP6 _ _ \<Rightarrow> True)"
definition Is4In6 :: "ipaddr \<Rightarrow> bool" where
  "Is4In6 a = (case a of IP4 _ \<Rightarrow> False | IP6 b _ \<Rightarrow> take 12 b = v4InV6Prefix)"

definition Unmap :: "ipaddr \<Rightarrow> ipaddr" where
  "Unmap a = (case a of IP6 b z \<Rightarrow> if take 12 b = v4InV6Prefix then IP4 (drop 12 b) else a | IP4 b \<Rightarrow> a)"

definition addr_ok :: "ipaddr \<Rightarrow> bool" where
  "addr_ok a = (case a of IP4 b \<Rightarrow> length b = 4 | IP6 b z \<Rightarrow> length b = 16)"

lemma length_v4InV6Prefix [simp]: "length v4InV6Prefix = 12"
  by (simp add: v4InV6Prefix_def)

lemma To4_mapped: "length b = 4 \<Longrightarrow> To4 (v4InV6Prefix @ b) = Some b"
  by (simp add: To4_def)

lemma To4_length: "To4 ip = Some b \<Longrightarrow> length b = 4"
  by (auto simp: To4_def split: if_splits)

text \<open>What the parsers return has the right length.\<close>

lemma ip4_fields_length: "ip4_fields v l fs s = Some b \<Longrightarrow> length fs \<le> 3 \<Longrightarrow> length b = 4"
  by (induction v l fs s rule: ip4_fields.induct) (auto simp: Let_def split: if_splits)

lemma ip6_loop_length:
  "ip6_loop n ip e s = Some (r, ip', e') \<Longrightarrow> even (length ip) \<Longrightarrow> length ip \<le> 16 \<Longrightarrow> length ip' \<le> 16"
proof (induction n arbitrary: ip e s)
  case (Suc n)
  show ?case
  proof (cases "16 \<le> length ip")
    case True then show ?thesis using Suc.prems by simp
  next
    case False
    then have "length ip + 2 \<le> 16" using Suc.prems(2) by presburger
    with False Suc.prems show ?thesis
      by (auto simp: Let_def dest!: ip4_fields_length Suc.IH split: option.splits if_splits list.splits)
  qed
qed simp

lemma parseIPv6_length: "parseIPv6 s = Some (b, z) \<Longrightarrow> length b = 16"
  by (auto simp: parseIPv6_def ip6_expand_def Let_def split: option.splits if_splits prod.splits dest!: ip6_loop_length)

lemma ParseAddr_ok: "ParseAddr s = Some a \<Longrightarrow> addr_ok a"
  by (auto simp: ParseAddr_def addr_ok_def parseIPv4_def dest: ip4_fields_length parseIPv6_length split: if_splits)

lemma ParseIP_length: "ParseIP s = Some ip \<Longrightarrow> length ip = 16"
  by (auto simp: ParseIP_def As16_def addr_ok_def dest!: ParseAddr_ok split: option.splits ipaddr.splits if_splits)

subsection \<open>Printing\<close>

definition ip4_string :: "bytes \<Rightarrow> gostring" where
  "ip4_string b = itoa (unat (b ! 0)) @ [chr_dot] @ itoa (unat (b ! 1)) @ [chr_dot] @
     itoa (unat (b ! 2)) @ [chr_dot] @ itoa (unat (b ! 3))"

definition hex_digit :: "nat \<Rightarrow> byte" where
  "hex_digit d = (if d < 10 then 48 + of_nat d else 87 + of_nat d)"

fun itohex :: "nat \<Rightarrow> gostring" where
  "itohex n = (if n < 16 then [hex_digit n] else itohex (n div 16) @ [hex_digit (n mod 16)])"

declare itohex.simps [simp del]

definition group6 :: "bytes \<Rightarrow> nat \<Rightarrow> nat" where
  "group6 b i = unat (b ! (2 * i)) * 256 + unat (b ! (2 * i + 1))"

text \<open>The longest run of at least two zero groups, the first of that length (\<open>appendTo6\<close>).\<close>

definition zero_run :: "bytes \<Rightarrow> nat \<Rightarrow> nat" where
  "zero_run b i = length (takeWhile (\<lambda>j. group6 b j = 0) [i..<8])"

fun best_run :: "bytes \<Rightarrow> nat list \<Rightarrow> (nat \<times> nat) option \<Rightarrow> (nat \<times> nat) option" where
  "best_run b [] best = best"
| "best_run b (i # is) best =
     (let l = zero_run b i
      in best_run b is (if 2 \<le> l \<and> (case best of None \<Rightarrow> True | Some (s, m) \<Rightarrow> m < l) then Some (i, l) else best))"

definition ip6_string :: "bytes \<Rightarrow> gostring" where
  "ip6_string b =
     (let groups = (\<lambda>is. case is of [] \<Rightarrow> [] | i # js \<Rightarrow> itohex (group6 b i) @ concat (map (\<lambda>j. chr_colon # itohex (group6 b j)) js))
      in case best_run b [0..<8] None of
           None \<Rightarrow> groups [0..<8]
         | Some (s, l) \<Rightarrow> groups [0..<s] @ [chr_colon, chr_colon] @ groups [s + l..<8])"

text \<open>\<open>net.IP.String\<close> for the lengths the program prints.\<close>

definition ip_String :: "bytes \<Rightarrow> gostring" where
  "ip_String ip = (case To4 ip of Some b \<Rightarrow> ip4_string b | None \<Rightarrow> ip6_string ip)"

lemma digit_byte:
  assumes "d < 10"
  shows "is_digit (48 + of_nat d)" "unat (48 + of_nat d :: byte) = 48 + d"
proof -
  have u: "unat (48 + of_nat d :: byte) = 48 + d" using assms by (simp add: unat_word_ariths unat_of_nat)
  then show "unat (48 + of_nat d :: byte) = 48 + d" .
  show "is_digit (48 + of_nat d)" using assms u by (simp add: is_digit_def word_le_nat_alt)
qed

lemma itoa_cases:
  "n < 10 \<Longrightarrow> itoa n = [48 + of_nat n]"
  "10 \<le> n \<Longrightarrow> n < 100 \<Longrightarrow> itoa n = [48 + of_nat (n div 10), 48 + of_nat (n mod 10)]"
  "100 \<le> n \<Longrightarrow> n < 1000 \<Longrightarrow>
     itoa n = [48 + of_nat (n div 100), 48 + of_nat (n div 10 mod 10), 48 + of_nat (n mod 10)]"
  by (auto simp: itoa.simps [of n] itoa.simps [of "n div 10"] itoa.simps [of "n div 10 div 10"]
      div_mult2_eq [of n 10 10, simplified])

lemma ip4_fields_itoa:
  assumes "n < 256"
  shows "\<exists>l > 0. ip4_fields 0 0 fs (itoa n @ rest) = ip4_fields n l fs rest"
proof -
  consider "n < 10" | "10 \<le> n" "n < 100" | "100 \<le> n" "n < 1000" using assms by linarith
  then show ?thesis
  proof cases
    case 1
    then show ?thesis by (intro exI [of _ 1]) (simp add: itoa_cases digit_byte)
  next
    case 2
    then have "n div 10 < 10" "n div 10 \<noteq> 0" "n div 10 * 10 + n mod 10 = n" "n div 10 < 256" by auto
    with 2 assms show ?thesis by (intro exI [of _ "Suc (Suc 0)"]) (simp add: itoa_cases digit_byte Let_def)
  next
    case 3
    have d: "n div 100 < 10" "n div 100 \<noteq> 0" "n div 10 mod 10 < 10" using 3 by auto
    have "n div 10 div 10 * 10 + n div 10 mod 10 = n div 10" by (rule div_mult_mod_eq)
    then have "n div 100 * 10 + n div 10 mod 10 = n div 10" by (simp add: div_mult2_eq [of n 10 10, simplified])
    moreover have small: "\<not> 255 < n div 10" using assms by (simp add: not_less)
    ultimately show ?thesis
      using 3 assms d by (intro exI [of _ "Suc (Suc (Suc 0))"]) (simp add: itoa_cases digit_byte Let_def small)
  qed
qed

lemma ip4_fields_dot:
  assumes "n < 256" "length fs < 3" "rest \<noteq> []"
  shows "ip4_fields 0 0 fs (itoa n @ chr_dot # rest) = ip4_fields 0 0 (fs @ [of_nat n]) rest"
  using ip4_fields_itoa [OF assms(1), of fs "chr_dot # rest"] assms(2,3) by (auto simp: is_digit_def)

lemma itoa_not_Nil [simp]: "itoa n \<noteq> []"
  by (simp add: itoa.simps)

lemma byte_nat_bound: "unat (b :: byte) < 256"
  using unat_bound [of b] by simp

lemma parse_ip4_string:
  assumes "length b = 4" shows "parseIPv4 (ip4_string b) = Some b"
proof -
  obtain x0 x1 x2 x3 where b: "b = [x0, x1, x2, x3]"
    using assms by (auto simp: numeral_eq_Suc length_Suc_conv)
  obtain l where "ip4_fields 0 0 [x0, x1, x2] (itoa (unat x3) @ []) = ip4_fields (unat x3) l [x0, x1, x2] []"
    using ip4_fields_itoa [OF byte_nat_bound] by blast
  then show ?thesis by (simp add: b ip4_string_def parseIPv4_def ip4_fields_dot byte_nat_bound)
qed

subsection \<open>Leading bits\<close>

definition bitAt :: "bytes \<Rightarrow> nat \<Rightarrow> byte" where
  "bitAt addr i = drop_bit (7 - i mod 8) (addr ! (i div 8)) AND 1"

definition same_bits :: "nat \<Rightarrow> bytes \<Rightarrow> bytes \<Rightarrow> bool" where
  "same_bits n a b \<longleftrightarrow> list_all (\<lambda>i. bitAt a i = bitAt b i) [0..<n]"

lemma bitAt_eq_iff: "bitAt a i = bitAt b j \<longleftrightarrow> bit (a ! (i div 8)) (7 - i mod 8) = bit (b ! (j div 8)) (7 - j mod 8)"
proof -
  have "bitAt x k = of_bool (bit (x ! (k div 8)) (7 - k mod 8))" for x k
    by (simp add: bitAt_def and_one_eq bit_iff_odd_drop_bit mod_2_eq_odd)
  then show ?thesis by simp
qed

lemma drop_bit_eq_top:
  fixes x y :: byte
  assumes "r \<le> 8"
  shows "drop_bit (8 - r) x = drop_bit (8 - r) y \<longleftrightarrow> (\<forall>k < r. bit x (7 - k) = bit y (7 - k))"
proof
  assume "drop_bit (8 - r) x = drop_bit (8 - r) y"
  then have b: "bit x (8 - r + m) = bit y (8 - r + m)" for m by (metis bit_drop_bit_eq comp_apply)
  show "\<forall>k < r. bit x (7 - k) = bit y (7 - k)"
  proof (intro allI impI)
    fix k assume "k < r"
    then have "8 - r + (r - 1 - k) = 7 - k" using assms by linarith
    then show "bit x (7 - k) = bit y (7 - k)" using b [of "r - 1 - k"] by simp
  qed
next
  assume h: "\<forall>k < r. bit x (7 - k) = bit y (7 - k)"
  show "drop_bit (8 - r) x = drop_bit (8 - r) y"
  proof (rule bit_word_eqI)
    fix m assume "m < LENGTH(8)"
    show "bit (drop_bit (8 - r) x) m = bit (drop_bit (8 - r) y) m"
    proof (cases "8 - r + m < 8")
      case True
      then have "7 - (8 - r + m) < r" "7 - (7 - (8 - r + m)) = 8 - r + m" using assms by auto
      then show ?thesis using h by (metis bit_drop_bit_eq comp_apply)
    next
      case False
      then show ?thesis using bit_imp_le_length [of x "8 - r + m"] bit_imp_le_length [of y "8 - r + m"]
        by (auto simp: bit_drop_bit_eq)
    qed
  qed
qed

lemma same_bits_octets:
  "same_bits n a b \<longleftrightarrow> (\<forall>j < n div 8. a ! j = b ! j) \<and>
     drop_bit (8 - n mod 8) (a ! (n div 8)) = drop_bit (8 - n mod 8) (b ! (n div 8))"
proof -
  let ?e = "\<lambda>j k. bit (a ! j) (7 - k) = bit (b ! j) (7 - k)"
  have byte: "x = y \<longleftrightarrow> (\<forall>k < 8. bit x (7 - k) = bit y (7 - k))" for x y :: byte
    using drop_bit_eq_top [of 8 x y] by simp
  have "same_bits n a b \<longleftrightarrow> (\<forall>i < n. ?e (i div 8) (i mod 8))"
    by (auto simp: same_bits_def list_all_iff bitAt_eq_iff)
  also have "\<dots> \<longleftrightarrow> (\<forall>j < n div 8. \<forall>k < 8. ?e j k) \<and> (\<forall>k < n mod 8. ?e (n div 8) k)"
  proof safe
    fix j k :: nat assume h: "\<forall>i < n. ?e (i div 8) (i mod 8)" and jk: "j < n div 8" "k < 8"
    have "j * 8 + k < n" using jk by (metis (no_types) add_less_mono1 div_mult_mod_eq less_eq_Suc_le mult_Suc mult_le_mono1 not_less order_le_less_trans trans_le_add1 add.commute less_le_trans)
    with h have "?e ((j * 8 + k) div 8) ((j * 8 + k) mod 8)" by blast
    then show "bit (a ! j) (7 - k) \<Longrightarrow> bit (b ! j) (7 - k)" "bit (b ! j) (7 - k) \<Longrightarrow> bit (a ! j) (7 - k)" using jk by auto
  next
    fix k assume h: "\<forall>i < n. ?e (i div 8) (i mod 8)" and k: "k < n mod 8"
    have "n div 8 * 8 + k < n" using k by (metis add_less_cancel_left div_mult_mod_eq)
    with h have "?e ((n div 8 * 8 + k) div 8) ((n div 8 * 8 + k) mod 8)" by blast
    moreover have "k < 8" using k mod_less_divisor [of 8 n] by linarith
    ultimately show "bit (a ! (n div 8)) (7 - k) \<Longrightarrow> bit (b ! (n div 8)) (7 - k)"
      "bit (b ! (n div 8)) (7 - k) \<Longrightarrow> bit (a ! (n div 8)) (7 - k)" by auto
  next
    fix i assume h: "\<forall>j < n div 8. \<forall>k < 8. ?e j k" "\<forall>k < n mod 8. ?e (n div 8) k" and i: "i < n"
    have "i div 8 < n div 8 \<or> i div 8 = n div 8 \<and> i mod 8 < n mod 8"
      using i by (metis div_le_mono div_mult_mod_eq le_neq_implies_less less_imp_le nat_add_left_cancel_less)
    then have "?e (i div 8) (i mod 8)" using h by (metis mod_less_divisor zero_less_numeral)
    then show "bit (a ! (i div 8)) (7 - i mod 8) \<Longrightarrow> bit (b ! (i div 8)) (7 - i mod 8)"
      "bit (b ! (i div 8)) (7 - i mod 8) \<Longrightarrow> bit (a ! (i div 8)) (7 - i mod 8)" by auto
  qed
  also have "\<dots> \<longleftrightarrow> (\<forall>j < n div 8. a ! j = b ! j) \<and>
     drop_bit (8 - n mod 8) (a ! (n div 8)) = drop_bit (8 - n mod 8) (b ! (n div 8))"
    using byte drop_bit_eq_top [of "n mod 8"] by simp
  finally show ?thesis .
qed

lemma drop_bit_byte_eq: "drop_bit k x = drop_bit k (y :: byte) \<longleftrightarrow> unat x div 2 ^ k = unat y div 2 ^ k"
proof -
  have "unat (drop_bit k z) = unat z div 2 ^ k" for z :: byte
    by (rule trans [OF unat_drop_bit_eq drop_bit_eq_div])
  then show ?thesis by (simp only: word_unat_eq_iff)
qed

lemma same_bits_small:
  "same_bits 4 a y \<longleftrightarrow> unat (a ! 0) div 16 = unat (y ! 0) div 16"
  "same_bits 8 a y \<longleftrightarrow> a ! 0 = y ! 0"
  "same_bits 10 a y \<longleftrightarrow> a ! 0 = y ! 0 \<and> unat (a ! 1) div 64 = unat (y ! 1) div 64"
  "same_bits 12 a y \<longleftrightarrow> a ! 0 = y ! 0 \<and> unat (a ! 1) div 16 = unat (y ! 1) div 16"
  "same_bits 15 a y \<longleftrightarrow> a ! 0 = y ! 0 \<and> unat (a ! 1) div 2 = unat (y ! 1) div 2"
  "same_bits 16 a y \<longleftrightarrow> a ! 0 = y ! 0 \<and> a ! 1 = y ! 1"
proof -
  have z: "unat (b :: byte) div 256 = 0" for b using byte_nat_bound [of b] by simp
  have two: "(\<forall>j < 2. P j) \<longleftrightarrow> P 0 \<and> P (1::nat)" for P by (auto simp: less_2_cases_iff)
  show "same_bits 4 a y \<longleftrightarrow> unat (a ! 0) div 16 = unat (y ! 0) div 16"
    "same_bits 8 a y \<longleftrightarrow> a ! 0 = y ! 0"
    "same_bits 10 a y \<longleftrightarrow> a ! 0 = y ! 0 \<and> unat (a ! 1) div 64 = unat (y ! 1) div 64"
    "same_bits 12 a y \<longleftrightarrow> a ! 0 = y ! 0 \<and> unat (a ! 1) div 16 = unat (y ! 1) div 16"
    "same_bits 15 a y \<longleftrightarrow> a ! 0 = y ! 0 \<and> unat (a ! 1) div 2 = unat (y ! 1) div 2"
    "same_bits 16 a y \<longleftrightarrow> a ! 0 = y ! 0 \<and> a ! 1 = y ! 1"
    by (simp_all add: same_bits_octets drop_bit_byte_eq z two)
qed

end
