(* ===== verification/Bypass.thy ===== *)
theory Bypass
  imports Net_Addr
begin

section \<open>Split tunnelling: prefix tries and the bypass dialer\<close>

text \<open>
  Models \<open>src/client/bypassroute\<close>: the radix trie (\<open>trie.go\<close>), the packed list of prefixes
  (\<open>cidrblob/blob.go\<close>), the reserved ranges (\<open>reserved.go\<close>), the include/exclude pair
  (\<open>loader.go\<close>) and the decision of the bypass dialer (\<open>dialer.go\<close>).  The nodes of a trie are
  never shared, so a trie is a tree.  The locale \<open>prefix_set\<close> is what the dialer relies on: a
  collection of prefixes that answers whether some prefix in it covers an address.  The trie
  and the plain list of IPv6 prefixes both provide it.  A \<open>netip.Prefix\<close> is a record; its
  length is \<open>-1\<close> when it is invalid.
\<close>

subsection \<open>Prefixes\<close>

record prefix =
  pfx_addr :: ipaddr
  pfx_bits :: int

definition PrefixFrom :: "ipaddr \<Rightarrow> int \<Rightarrow> prefix" where
  "PrefixFrom a n =
     \<lparr>pfx_addr = (case a of IP4 b \<Rightarrow> a | IP6 b z \<Rightarrow> IP6 b []),
      pfx_bits = (if 0 \<le> n \<and> n \<le> (case a of IP4 _ \<Rightarrow> 32 | IP6 _ _ \<Rightarrow> 128) then n else - 1)\<rparr>"

text \<open>\<open>netip.Prefix.Contains\<close>.\<close>

definition Contains :: "prefix \<Rightarrow> ipaddr \<Rightarrow> bool" where
  "Contains p a \<longleftrightarrow> 0 \<le> pfx_bits p \<and>
     (case (pfx_addr p, a) of
        (IP4 x, IP4 y) \<Rightarrow> same_bits (nat (pfx_bits p)) x y
      | (IP6 x _, IP6 y z) \<Rightarrow> z = [] \<and> same_bits (nat (pfx_bits p)) x y
      | _ \<Rightarrow> False)"

definition prefix_ok :: "prefix \<Rightarrow> bool" where
  "prefix_ok p \<longleftrightarrow> addr_ok (pfx_addr p) \<and> pfx_bits p \<le> (if Is4 (pfx_addr p) then 32 else 128)"

subsection \<open>Collections of prefixes\<close>

locale prefix_set =
  fixes pfx_empty :: 't and pfx_insert :: "prefix \<Rightarrow> 't \<Rightarrow> 't" and pfx_match :: "'t \<Rightarrow> ipaddr \<Rightarrow> bool"
    and covers :: "prefix \<Rightarrow> ipaddr \<Rightarrow> bool" and good :: "'t \<Rightarrow> bool"
  assumes good_empty: "good pfx_empty"
    and good_insert: "good t \<Longrightarrow> good (pfx_insert p t)"
    and match_empty: "\<not> pfx_match pfx_empty a"
    and match_insert: "good t \<Longrightarrow> pfx_match (pfx_insert p t) a \<longleftrightarrow> covers p a \<or> pfx_match t a"
begin

lemma match_fold:
  assumes "good t"
  shows "good (fold pfx_insert ps t) \<and> (pfx_match (fold pfx_insert ps t) a \<longleftrightarrow> (\<exists>p \<in> set ps. covers p a) \<or> pfx_match t a)"
  using assms by (induction ps arbitrary: t) (auto simp: good_insert match_insert)

lemma match_build: "pfx_match (fold pfx_insert ps pfx_empty) a \<longleftrightarrow> (\<exists>p \<in> set ps. covers p a)"
  using match_fold [OF good_empty] by (simp add: match_empty)

lemma match_mono: "set ps \<subseteq> set qs \<Longrightarrow> pfx_match (fold pfx_insert ps pfx_empty) a \<Longrightarrow> pfx_match (fold pfx_insert qs pfx_empty) a"
  by (auto simp: match_build)

end

subsection \<open>The trie (trie.go)\<close>

datatype node = Node (child0: "node option") (child1: "node option") (leaf: bool)

record trie =
  root :: node
  trie_size :: nat

definition new_node :: node where "new_node = Node None None False"

definition New :: trie where "New = \<lparr>root = new_node, trie_size = 0\<rparr>"

definition child :: "byte \<Rightarrow> node \<Rightarrow> node option" where
  "child b n = (if b = 0 then child0 n else child1 n)"

definition set_child :: "byte \<Rightarrow> node \<Rightarrow> node \<Rightarrow> node" where
  "set_child b c n = (if b = 0 then Node (Some c) (child1 n) (leaf n) else Node (child0 n) (Some c) (leaf n))"

text \<open>The loop of \<open>Insert\<close> over the bits of the prefix, and the marking of the node it ends at.\<close>

fun insert_path :: "byte list \<Rightarrow> node \<Rightarrow> bool \<times> node" where
  "insert_path [] cur = (\<not> leaf cur, Node (child0 cur) (child1 cur) True)"
| "insert_path (b # bs) cur =
     (let (new, c) = insert_path bs (case child b cur of None \<Rightarrow> new_node | Some n \<Rightarrow> n)
      in (new, set_child b c cur))"

definition path_bits :: "bytes \<Rightarrow> nat \<Rightarrow> byte list" where
  "path_bits addr n = map (bitAt addr) [0..<n]"

definition Insert :: "prefix \<Rightarrow> trie \<Rightarrow> trie" where
  "Insert p t =
     (case pfx_addr p of
        IP6 _ _ \<Rightarrow> t
      | IP4 addr \<Rightarrow>
          if pfx_bits p < 0 \<or> pfx_bits p > 32 then t
          else let (new, r) = insert_path (path_bits addr (nat (pfx_bits p))) (root t)
               in \<lparr>root = r, trie_size = trie_size t + (if new then 1 else 0)\<rparr>)"

text \<open>The loop of \<open>Match\<close>, after the test of the root.\<close>

fun match_path :: "byte list \<Rightarrow> node \<Rightarrow> bool" where
  "match_path [] cur = False"
| "match_path (b # bs) cur =
     (case child b cur of None \<Rightarrow> False | Some n \<Rightarrow> if leaf n then True else match_path bs n)"

definition Match :: "trie \<Rightarrow> ipaddr \<Rightarrow> bool" where
  "Match t ip =
     (case ip of IP6 _ _ \<Rightarrow> False | IP4 addr \<Rightarrow> if leaf (root t) then True else match_path (path_bits addr 32) (root t))"

definition Size :: "trie \<Rightarrow> nat" where "Size t = trie_size t"

subsection \<open>The trie holds exactly the inserted prefixes\<close>

text \<open>The paths of the marked nodes.\<close>

fun marked :: "byte list \<Rightarrow> node \<Rightarrow> bool" where
  "marked [] n = leaf n"
| "marked (b # bs) n = (case child b n of None \<Rightarrow> False | Some c \<Rightarrow> marked bs c)"

lemma bitAt_cases: "bitAt a i = 0 \<or> bitAt a i = 1"
  by (simp add: bitAt_def and_one_eq mod_2_eq_odd)

lemma marked_new [simp]: "\<not> marked bs new_node"
  by (cases bs) (auto simp: new_node_def child_def)

lemma marked_insert:
  "set (xs @ ys) \<subseteq> {0, 1} \<Longrightarrow> marked ys (snd (insert_path xs n)) \<longleftrightarrow> ys = xs \<or> marked ys n"
proof (induction xs arbitrary: ys n)
  case Nil
  show ?case by (cases ys) (auto simp: child_def)
next
  case (Cons b bs)
  show ?case
  proof (cases ys)
    case Nil
    then show ?thesis by (simp add: split_def Let_def set_child_def)
  next
    case (Cons c cs)
    define m where "m = (case child b n of None \<Rightarrow> new_node | Some x \<Rightarrow> x)"
    have i: "marked cs (snd (insert_path bs m)) \<longleftrightarrow> cs = bs \<or> marked cs m"
      by (rule Cons.IH) (use Cons.prems Cons in auto)
    have k: "child c (set_child b (snd (insert_path bs m)) n) =
        (if c = b then Some (snd (insert_path bs m)) else child c n)"
      using Cons.prems Cons by (auto simp: child_def set_child_def)
    have "marked cs m \<longleftrightarrow> marked (b # cs) n" by (simp add: m_def split: option.split)
    then show ?thesis
      using i k Cons by (auto simp: split_def Let_def m_def [symmetric])
  qed
qed

lemma insert_path_new: "fst (insert_path xs n) \<longleftrightarrow> \<not> marked xs n"
  by (induction xs arbitrary: n) (auto simp: split_def Let_def split: option.split)

lemma ex_le_Suc: "(\<exists>k \<le> Suc m. P k) \<longleftrightarrow> P 0 \<or> (\<exists>k \<le> m. P (Suc k))"
  by (metis Suc_le_mono not0_implies_Suc zero_le)

lemma match_path_iff:
  "leaf n \<or> match_path bs n \<longleftrightarrow> (\<exists>k \<le> length bs. marked (take k bs) n)"
proof (induction bs arbitrary: n)
  case (Cons b bs)
  have "(\<exists>k \<le> length (b # bs). marked (take k (b # bs)) n) \<longleftrightarrow>
      leaf n \<or> (\<exists>k \<le> length bs. marked (b # take k bs) n)"
    using ex_le_Suc [of "length bs" "\<lambda>k. marked (take k (b # bs)) n"] by simp
  then show ?case using Cons.IH by (auto split: option.splits)
qed simp

lemma path_bits_binary: "set (path_bits a n) \<subseteq> {0, 1}"
  using bitAt_cases by (auto simp: path_bits_def)

lemma take_path_bits: "k \<le> n \<Longrightarrow> take k (path_bits a n) = path_bits a k"
  by (simp add: path_bits_def take_map)

lemma same_bits_iff: "same_bits n a b \<longleftrightarrow> path_bits a n = path_bits b n"
  by (auto simp: same_bits_def path_bits_def list_all_iff)

lemma length_path_bits [simp]: "length (path_bits a n) = n"
  by (simp add: path_bits_def)

definition covers4 :: "prefix \<Rightarrow> ipaddr \<Rightarrow> bool" where
  "covers4 p a \<longleftrightarrow> Is4 (pfx_addr p) \<and> pfx_bits p \<le> 32 \<and> Contains p a"

lemma Match_marked:
  "Match t (IP4 a) \<longleftrightarrow> (\<exists>k \<le> 32. marked (path_bits a k) (root t))"
  using match_path_iff [of "root t" "path_bits a 32"] by (auto simp: Match_def take_path_bits)

lemma Match_Insert: "Match (Insert p t) a \<longleftrightarrow> covers4 p a \<or> Match t a"
proof (cases a)
  case (IP6 b z)
  then show ?thesis by (auto simp: Match_def covers4_def Contains_def Is4_def split: ipaddr.splits)
next
  case (IP4 b)
  show ?thesis
  proof (cases "Is4 (pfx_addr p) \<and> 0 \<le> pfx_bits p \<and> pfx_bits p \<le> 32")
    case True
    then obtain x where x: "pfx_addr p = IP4 x" by (auto simp: Is4_def split: ipaddr.splits)
    define n where "n = nat (pfx_bits p)"
    have n: "n \<le> 32" "nat (pfx_bits p) = n" using True by (auto simp: n_def)
    have "root (Insert p t) = snd (insert_path (path_bits x n) (root t))"
      using True x by (simp add: Insert_def n_def split_def Let_def)
    moreover have "marked (path_bits b k) (snd (insert_path (path_bits x n) (root t))) \<longleftrightarrow>
        path_bits b k = path_bits x n \<or> marked (path_bits b k) (root t)" for k
      by (rule marked_insert) (use path_bits_binary in auto)
    ultimately have "Match (Insert p t) (IP4 b) \<longleftrightarrow> (\<exists>k \<le> 32. path_bits b k = path_bits x n) \<or> Match t (IP4 b)"
      by (auto simp: Match_marked)
    moreover have "(\<exists>k \<le> 32. path_bits b k = path_bits x n) \<longleftrightarrow> path_bits x n = path_bits b n"
      using n(1) by (metis length_path_bits)
    ultimately show ?thesis
      using True x n(2) IP4 by (simp add: covers4_def Contains_def same_bits_iff)
  next
    case False
    then have "Insert p t = t" "\<not> covers4 p a"
      by (auto simp: Insert_def covers4_def Contains_def Is4_def split: ipaddr.splits)
    then show ?thesis by simp
  qed
qed

lemma Match_New: "\<not> Match New a"
proof -
  have "\<not> match_path bs new_node" for bs by (cases bs) (auto simp: new_node_def child_def)
  then show ?thesis by (simp add: Match_def New_def split: ipaddr.split) (simp add: new_node_def)
qed

interpretation ts: prefix_set New Insert Match covers4 "\<lambda>_. True"
  by unfold_locales (auto simp: Match_Insert Match_New)

text \<open>The IPv6 ranges are a list that is searched from the front (\<open>isReservedIPv6\<close>).\<close>

definition any_contains :: "prefix list \<Rightarrow> ipaddr \<Rightarrow> bool" where
  "any_contains ps a \<longleftrightarrow> list_ex (\<lambda>p. Contains p a) ps"

interpretation ls: prefix_set "[]" "\<lambda>p ps. ps @ [p]" any_contains Contains "\<lambda>_. True"
  by unfold_locales (auto simp: any_contains_def)

definition masked_keys :: "prefix list \<Rightarrow> byte list set" where
  "masked_keys ps = {path_bits x (nat (pfx_bits p)) | p x. p \<in> set ps \<and> pfx_addr p = IP4 x \<and> 0 \<le> pfx_bits p \<and> pfx_bits p \<le> 32}"

definition size_inv :: "byte list set \<Rightarrow> trie \<Rightarrow> bool" where
  "size_inv K t \<longleftrightarrow> finite K \<and> K \<subseteq> {bs. set bs \<subseteq> {0, 1}} \<and> trie_size t = card K \<and>
     (\<forall>bs. set bs \<subseteq> {0, 1} \<longrightarrow> (marked bs (root t) \<longleftrightarrow> bs \<in> K))"

lemma size_inv_Insert:
  assumes "size_inv K t"
  shows "size_inv (K \<union> masked_keys [p]) (Insert p t)"
proof (cases "Is4 (pfx_addr p) \<and> 0 \<le> pfx_bits p \<and> pfx_bits p \<le> 32")
  case True
  then obtain x where x: "pfx_addr p = IP4 x" by (auto simp: Is4_def split: ipaddr.splits)
  let ?b = "path_bits x (nat (pfx_bits p))"
  have k: "masked_keys [p] = {?b}" using True x by (auto simp: masked_keys_def)
  have I: "Insert p t = \<lparr>root = snd (insert_path ?b (root t)), trie_size = trie_size t + (if \<not> marked ?b (root t) then 1 else 0)\<rparr>"
    using True x by (simp add: Insert_def split_def Let_def insert_path_new)
  have b: "set ?b \<subseteq> {0, 1}" by (rule path_bits_binary)
  have "marked bs (snd (insert_path ?b (root t))) \<longleftrightarrow> bs = ?b \<or> marked bs (root t)" if "set bs \<subseteq> {0, 1}" for bs
    by (rule marked_insert) (use b that in auto)
  then show ?thesis using assms b by (auto simp: size_inv_def k I card_insert_if insert_absorb)
next
  case False
  then have "Insert p t = t" "masked_keys [p] = {}"
    by (auto simp: Insert_def masked_keys_def Is4_def split: ipaddr.splits)
  then show ?thesis using assms by simp
qed

lemma size_inv_fold: "size_inv K t \<Longrightarrow> size_inv (K \<union> masked_keys ps) (fold Insert ps t)"
proof (induction ps arbitrary: K t)
  case (Cons p ps)
  have "K \<union> masked_keys (p # ps) = (K \<union> masked_keys [p]) \<union> masked_keys ps" by (auto simp: masked_keys_def)
  then show ?case using Cons.IH [OF size_inv_Insert [OF Cons.prems]] by simp
qed (simp add: masked_keys_def)

text \<open>C26. The trie agrees with its specification: after any sequence of insertions an address matches
  exactly when some inserted IPv4 prefix of a valid length contains it, and the size is the
  number of different prefixes, whatever the order and however often each was inserted.
\<close>

theorem trie_exact:
  "(Match (fold Insert ps New) a \<longleftrightarrow>
      (\<exists>p \<in> set ps. Is4 (pfx_addr p) \<and> pfx_bits p \<le> 32 \<and> Contains p a)) \<and>
   Size (fold Insert ps New) = card (masked_keys ps)"
proof -
  have "size_inv {} New" by (auto simp: size_inv_def New_def)
  from size_inv_fold [OF this, of ps] show ?thesis
    by (auto simp: ts.match_build covers4_def size_inv_def Size_def)
qed

subsection \<open>Packed prefixes (cidrblob/blob.go)\<close>

fun Encode :: "prefix list \<Rightarrow> bytes option" where
  "Encode [] = Some []"
| "Encode (p # ps) =
     (case pfx_addr p of
        IP6 _ _ \<Rightarrow> None
      | IP4 ip \<Rightarrow>
          if pfx_bits p < 0 \<or> pfx_bits p > 32 then None
          else map_option (\<lambda>out. ip @ [of_int (pfx_bits p)] @ out) (Encode ps))"

function decode_loop :: "bytes \<Rightarrow> prefix list" where
  "decode_loop blob =
     (if blob = [] then []
      else PrefixFrom (IP4 (take 4 blob)) (uint (blob ! 4)) # decode_loop (drop 5 blob))"
  by pat_completeness auto
termination by (relation "measure length") auto

declare decode_loop.simps [simp del]

definition Decode :: "bytes \<Rightarrow> prefix list option" where
  "Decode blob = (if length blob mod 5 \<noteq> 0 then None else Some (decode_loop blob))"

lemma decode_encode:
  assumes "list_all prefix_ok ps" "Encode ps = Some blob" shows "length blob = 5 * length ps \<and> decode_loop blob = ps"
  using assms
proof (induction ps arbitrary: blob)
  case Nil
  then show ?case by (simp add: decode_loop.simps)
next
  case (Cons p ps)
  obtain ip n out where p: "p = \<lparr>pfx_addr = IP4 ip, pfx_bits = n\<rparr>" "0 \<le> n" "n \<le> 32" "Encode ps = Some out"
    and b: "blob = ip @ [of_int n] @ out" and l: "length ip = 4"
    using Cons.prems by (cases p) (auto simp: prefix_ok_def addr_ok_def split: ipaddr.splits if_splits)
  have u: "uint (of_int n :: byte) = n" using p(2,3) by (simp add: uint_word_of_int_eq take_bit_eq_mod)
  have "decode_loop blob = PrefixFrom (IP4 ip) n # decode_loop out"
    using l u by (subst decode_loop.simps) (simp add: b nth_append)
  then show ?case using Cons.IH [of out] Cons.prems p b l by (auto simp: PrefixFrom_def)
qed

subsection \<open>Reserved ranges (reserved.go)\<close>

definition pfx4 :: "nat list \<Rightarrow> int \<Rightarrow> prefix" where
  "pfx4 b n = \<lparr>pfx_addr = IP4 (map of_nat b), pfx_bits = n\<rparr>"

definition groups6 :: "nat list \<Rightarrow> bytes" where
  "groups6 gs = concat (map (\<lambda>g. [of_nat (g div 256), of_nat g]) gs)"

definition pfx6 :: "nat list \<Rightarrow> int \<Rightarrow> prefix" where
  "pfx6 gs n = \<lparr>pfx_addr = IP6 (groups6 gs) [], pfx_bits = n\<rparr>"

text \<open>Each range with its \<open>drop\<close> field.\<close>

definition reservedRanges :: "(prefix \<times> bool) list" where
  "reservedRanges =
     [(pfx4 [0, 0, 0, 0] 8, True), (pfx4 [10, 0, 0, 0] 8, False), (pfx4 [127, 0, 0, 0] 8, True),
      (pfx4 [169, 254, 0, 0] 16, True), (pfx4 [172, 16, 0, 0] 12, False), (pfx4 [192, 168, 0, 0] 16, False),
      (pfx4 [224, 0, 0, 0] 4, True), (pfx4 [240, 0, 0, 0] 4, True)]"

definition reservedRangesV6 :: "(prefix \<times> bool) list" where
  "reservedRangesV6 =
     [(pfx6 [0, 0, 0, 0, 0, 0, 0, 1] 128, True), (pfx6 [0, 0, 0, 0, 0, 0, 0, 0] 128, True),
      (pfx6 [0xFE80, 0, 0, 0, 0, 0, 0, 0] 10, True), (pfx6 [0xFF00, 0, 0, 0, 0, 0, 0, 0] 8, True),
      (pfx6 [0xFD00, 0xEC2, 0, 0, 0, 0, 0, 0x254] 128, True), (pfx6 [0xFC00, 0, 0, 0, 0, 0, 0, 0] 7, False)]"

definition reservedTrie :: trie where
  "reservedTrie = fold Insert (map fst reservedRanges) New"

definition unreachableTrie :: trie where
  "unreachableTrie = fold Insert (map fst (filter snd reservedRanges)) New"

definition isReservedIPv4 :: "ipaddr \<Rightarrow> bool" where
  "isReservedIPv4 a \<longleftrightarrow> Is4 a \<and> Match reservedTrie a"

definition isUnreachableReserved :: "ipaddr \<Rightarrow> bool" where
  "isUnreachableReserved a \<longleftrightarrow> Is4 a \<and> Match unreachableTrie a"

definition isReservedIPv6 :: "ipaddr \<Rightarrow> bool" where
  "isReservedIPv6 a \<longleftrightarrow> Is6 a \<and> \<not> Is4In6 a \<and> any_contains (map fst reservedRangesV6) a"

definition isUnreachableReservedIPv6 :: "ipaddr \<Rightarrow> bool" where
  "isUnreachableReservedIPv6 a \<longleftrightarrow> Is6 a \<and> \<not> Is4In6 a \<and> any_contains (map fst (filter snd reservedRangesV6)) a"

subsection \<open>Include minus exclude (loader.go)\<close>

record adminOverride =
  Adds :: "prefix list"
  Excl :: "prefix list"

record resolved =
  res_include :: "trie option"
  res_exclude :: "trie option"
  res_prefixes :: "prefix list"

definition ResolvedMatch :: "resolved \<Rightarrow> ipaddr \<Rightarrow> bool" where
  "ResolvedMatch r ip =
     (case res_include r of
        None \<Rightarrow> False
      | Some t \<Rightarrow> if \<not> Match t ip then False
                  else (case res_exclude r of Some x \<Rightarrow> \<not> Match x ip | None \<Rightarrow> True))"

text \<open>
  \<open>Load\<close>.  The embedded list is the result of \<open>loadEmbedded\<close> when the source asks for it, an
  argument here; the list of additional prefixes is empty in the source.
\<close>

definition Load :: "prefix list option option \<Rightarrow> adminOverride option \<Rightarrow> resolved option" where
  "Load embedded override =
     (let add = (\<lambda>p (t, ps). if \<not> Is4 (pfx_addr p) then (t, ps) else (Insert p t, ps @ [p]));
          base = (case embedded of
                    None \<Rightarrow> Some (New, [])
                  | Some None \<Rightarrow> None
                  | Some (Some e) \<Rightarrow> Some (fold add e (New, [])))
      in case base of
           None \<Rightarrow> None
         | Some st \<Rightarrow>
             (case override of
                None \<Rightarrow> Some \<lparr>res_include = Some (fst st), res_exclude = Some New, res_prefixes = snd st\<rparr>
              | Some ov \<Rightarrow>
                  let st' = fold add (Adds ov) st
                  in Some \<lparr>res_include = Some (fst st'), res_exclude = Some (fold Insert (Excl ov) New), res_prefixes = snd st'\<rparr>))"

fun snapshot_loop :: "trie option \<Rightarrow> prefix list \<Rightarrow> prefix list \<Rightarrow> prefix list" where
  "snapshot_loop ex out [] = out"
| "snapshot_loop ex out (p # ps) =
     (if (case ex of Some x \<Rightarrow> Match x (pfx_addr p) | None \<Rightarrow> False) then snapshot_loop ex out ps
      else if p \<in> set out then snapshot_loop ex out ps
      else snapshot_loop ex (out @ [p]) ps)"

definition SnapshotPrefixes :: "resolved option \<Rightarrow> prefix list" where
  "SnapshotPrefixes r = (case r of None \<Rightarrow> [] | Some r \<Rightarrow> snapshot_loop (res_exclude r) [] (res_prefixes r))"

subsection \<open>The dialer (dialer.go)\<close>

definition isPinnedDoHResolver :: "ipaddr \<Rightarrow> bool" where
  "isPinnedDoHResolver a \<longleftrightarrow> a = IP4 [1, 1, 1, 1] \<or> a = IP4 [94, 140, 14, 140]"

datatype route = routeTunnel | routeDirect | routeDrop

text \<open>\<open>dst\<close> is the destination of the metadata: \<open>None\<close> without metadata or with an invalid address.\<close>

definition bypass_route :: "resolved option \<Rightarrow> ipaddr option \<Rightarrow> route" where
  "bypass_route res dst =
     (case dst of
        None \<Rightarrow> routeTunnel
      | Some addr0 \<Rightarrow>
          let addr = Unmap addr0
          in if \<not> Is4 addr
             then if isUnreachableReservedIPv6 addr then routeDrop
                  else if isReservedIPv6 addr then routeDirect else routeTunnel
             else if isUnreachableReserved addr then routeDrop
             else if isReservedIPv4 addr then routeDirect
             else if isPinnedDoHResolver addr then routeTunnel
             else case res of
                    None \<Rightarrow> routeTunnel
                  | Some r \<Rightarrow> if ResolvedMatch r addr then routeDirect else routeTunnel)"

subsection \<open>Reserved ranges by octets\<close>

text \<open>An IPv4 range of the reserved table covers an address by its first two octets.\<close>

lemma contains_pfx4:
  "Contains (pfx4 [a, b, c, d] n) (IP4 y) \<longleftrightarrow> 0 \<le> n \<and> same_bits (nat n) [of_nat a, of_nat b, of_nat c, of_nat d] y"
  by (simp add: Contains_def pfx4_def)

definition drop4 :: "nat \<Rightarrow> nat \<Rightarrow> bool" where
  "drop4 w x \<longleftrightarrow> w = 0 \<or> w = 127 \<or> w = 169 \<and> x = 254 \<or> 224 \<le> w"

definition lan4 :: "nat \<Rightarrow> nat \<Rightarrow> bool" where
  "lan4 w x \<longleftrightarrow> w = 10 \<or> w = 172 \<and> 16 \<le> x \<and> x \<le> 31 \<or> w = 192 \<and> x = 168"

lemma reserved4:
  assumes "length y = 4"
  shows "isUnreachableReserved (IP4 y) \<longleftrightarrow> drop4 (unat (y ! 0)) (unat (y ! 1))"
    and "isReservedIPv4 (IP4 y) \<longleftrightarrow> drop4 (unat (y ! 0)) (unat (y ! 1)) \<or> lan4 (unat (y ! 0)) (unat (y ! 1))"
proof -
  have c: "covers4 (pfx4 [a, b, c, d] n) (IP4 y) \<longleftrightarrow> n \<le> 32 \<and> Contains (pfx4 [a, b, c, d] n) (IP4 y)" for a b c d n
    by (auto simp: covers4_def pfx4_def Is4_def)
  have w: "unat (y ! 0) < 256" by (rule byte_nat_bound)
  have hi: "14 = unat (y ! 0) div 16 \<or> 15 = unat (y ! 0) div 16 \<longleftrightarrow> 224 \<le> unat (y ! 0)" using w by linarith
  have mid: "1 = unat (y ! 1) div 16 \<longleftrightarrow> 16 \<le> unat (y ! 1) \<and> unat (y ! 1) \<le> 31" by linarith
  have "isUnreachableReserved (IP4 y) \<longleftrightarrow>
      unat (y ! 0) = 0 \<or> unat (y ! 0) = 127 \<or> unat (y ! 0) = 169 \<and> unat (y ! 1) = 254 \<or>
      14 = unat (y ! 0) div 16 \<or> 15 = unat (y ! 0) div 16"
    by (simp add: isUnreachableReserved_def unreachableTrie_def Match_Insert Match_New reservedRanges_def Is4_def c contains_pfx4
        same_bits_small word_unat_eq_iff unat_of_nat disj_ac)
  then show d: "isUnreachableReserved (IP4 y) \<longleftrightarrow> drop4 (unat (y ! 0)) (unat (y ! 1))" using hi by (simp add: drop4_def)
  have "isReservedIPv4 (IP4 y) \<longleftrightarrow>
      unat (y ! 0) = 0 \<or> unat (y ! 0) = 10 \<or> unat (y ! 0) = 127 \<or> unat (y ! 0) = 169 \<and> unat (y ! 1) = 254 \<or>
      unat (y ! 0) = 172 \<and> 1 = unat (y ! 1) div 16 \<or> unat (y ! 0) = 192 \<and> unat (y ! 1) = 168 \<or>
      14 = unat (y ! 0) div 16 \<or> 15 = unat (y ! 0) div 16"
    by (simp add: isReservedIPv4_def reservedTrie_def Match_Insert Match_New reservedRanges_def Is4_def c contains_pfx4
        same_bits_small word_unat_eq_iff unat_of_nat disj_ac)
  then show "isReservedIPv4 (IP4 y) \<longleftrightarrow> drop4 (unat (y ! 0)) (unat (y ! 1)) \<or> lan4 (unat (y ! 0)) (unat (y ! 1))"
    unfolding drop4_def lan4_def hi [symmetric] mid [symmetric] by blast
qed

subsection \<open>Properties\<close>

text \<open>The packed list of prefixes round-trips: every list of well-formed IPv4 prefixes is encoded
  in five bytes each, and decoding gives it back.
\<close>

theorem cidr_blob_roundtrip:
  assumes "list_all prefix_ok ps" "list_all (\<lambda>p. Is4 (pfx_addr p) \<and> 0 \<le> pfx_bits p) ps"
  shows "\<exists>blob. Encode ps = Some blob \<and> length blob = 5 * length ps \<and> Decode blob = Some ps"
proof -
  have "Encode ps \<noteq> None" using assms
    by (induction ps) (auto simp: Is4_def prefix_ok_def split: ipaddr.splits)
  then obtain blob where b: "Encode ps = Some blob" by blast
  show ?thesis using decode_encode [OF assms(1) b] b by (simp add: Decode_def)
qed

theorem cidr_blob_roundtrip_witness:
  "\<exists>blob. Encode [pfx4 [10, 0, 0, 0] 8] = Some blob \<and> length blob = 5 \<and> Decode blob = Some [pfx4 [10, 0, 0, 0] 8]"
  using cidr_blob_roundtrip [of "[pfx4 [10, 0, 0, 0] 8]"] by (simp add: prefix_ok_def addr_ok_def pfx4_def Is4_def)

lemma Insert_not4: "\<not> Is4 (pfx_addr p) \<Longrightarrow> Insert p t = t"
  by (auto simp: Insert_def Is4_def split: ipaddr.splits)

lemma load_fold:
  "fold (\<lambda>p (t, ps). if \<not> Is4 (pfx_addr p) then (t, ps) else (Insert p t, ps @ [p])) xs (t, qs) =
     (fold Insert xs t, qs @ filter (\<lambda>p. Is4 (pfx_addr p)) xs)"
  by (induction xs arbitrary: t qs) (auto simp: Insert_not4)

lemma Load_eq:
  "Load (Some (Some e)) (Some ov) =
     Some \<lparr>res_include = Some (fold Insert (e @ Adds ov) New), res_exclude = Some (fold Insert (Excl ov) New),
       res_prefixes = filter (\<lambda>p. Is4 (pfx_addr p)) (e @ Adds ov)\<rparr>"
  by (simp add: Load_def load_fold Let_def)

text \<open>C27. The bypass dialer decides every IPv4 destination, also one written as a mapped IPv6 address,
  by this rule: addresses no physical interface can reach are dropped; the private networks
  go direct; the pinned resolvers go through the tunnel; of the others exactly those go direct
  that an included prefix covers and no excluded one does.
\<close>

theorem bypass_route_exact:
  assumes "Load (Some (Some e)) (Some ov) = Some r" "Unmap a = IP4 y" "length y = 4"
  shows "bypass_route (Some r) (Some a) =
     (let w = unat (y ! 0); x = unat (y ! 1)
      in if w = 0 \<or> w = 127 \<or> w = 169 \<and> x = 254 \<or> 224 \<le> w then routeDrop
         else if w = 10 \<or> w = 172 \<and> 16 \<le> x \<and> x \<le> 31 \<or> w = 192 \<and> x = 168 then routeDirect
         else if y = [1, 1, 1, 1] \<or> y = [94, 140, 14, 140] then routeTunnel
         else if (\<exists>p \<in> set e \<union> set (Adds ov). covers4 p (IP4 y)) \<and> \<not> (\<exists>p \<in> set (Excl ov). covers4 p (IP4 y))
         then routeDirect else routeTunnel)"
proof -
  let ?w = "unat (y ! 0)" and ?x = "unat (y ! 1)"
  have m: "ResolvedMatch r (IP4 y) \<longleftrightarrow>
      (\<exists>p \<in> set e \<union> set (Adds ov). covers4 p (IP4 y)) \<and> \<not> (\<exists>p \<in> set (Excl ov). covers4 p (IP4 y))"
    using assms(1) unfolding Load_eq
    by (auto simp: ResolvedMatch_def ts.match_build simp del: fold_append)
  have "Is4 (IP4 y)" by (simp add: Is4_def)
  then have "bypass_route (Some r) (Some a) =
     (if drop4 ?w ?x then routeDrop else if lan4 ?w ?x then routeDirect
      else if isPinnedDoHResolver (IP4 y) then routeTunnel
      else if ResolvedMatch r (IP4 y) then routeDirect else routeTunnel)"
    using reserved4 [OF assms(3)] by (cases "drop4 ?w ?x") (simp_all add: bypass_route_def assms(2) Let_def)
  then show ?thesis
    unfolding Let_def m drop4_def [symmetric] lan4_def [symmetric] isPinnedDoHResolver_def by simp
qed

theorem bypass_route_exact_witness:
  "\<exists>r. bypass_route (Some r) (Some (IP6 (v4InV6Prefix @ [5, 1, 2, 3]) [])) = routeTunnel \<and>
     bypass_route (Some r) (Some (IP4 [5, 2, 2, 3])) = routeDirect"
proof -
  define ov where "ov = \<lparr>Adds = [pfx4 [5, 0, 0, 0] 8], Excl = [pfx4 [5, 1, 0, 0] 16]\<rparr>"
  obtain r where r: "Load (Some (Some [])) (Some ov) = Some r" by (simp add: Load_eq)
  have c: "covers4 (pfx4 [5, 0, 0, 0] 8) (IP4 [5, 1, 2, 3])" "covers4 (pfx4 [5, 1, 0, 0] 16) (IP4 [5, 1, 2, 3])"
    "covers4 (pfx4 [5, 0, 0, 0] 8) (IP4 [5, 2, 2, 3])" "\<not> covers4 (pfx4 [5, 1, 0, 0] 16) (IP4 [5, 2, 2, 3])"
    by (simp_all add: covers4_def contains_pfx4 same_bits_small) (simp_all add: pfx4_def Is4_def)
  have "Unmap (IP6 (v4InV6Prefix @ [5, 1, 2, 3]) []) = IP4 [5, 1, 2, 3]" "Unmap (IP4 [5, 2, 2, 3]) = IP4 [5, 2, 2, 3]"
    by (simp_all add: Unmap_def)
  from bypass_route_exact [OF r this(1)] bypass_route_exact [OF r this(2)] c show ?thesis
    by (intro exI [of _ r]) (simp add: ov_def)
qed

lemma snapshot_loop_set:
  "set (snapshot_loop ex out ps) = set out \<union> {p \<in> set ps. \<not> (case ex of Some x \<Rightarrow> Match x (pfx_addr p) | None \<Rightarrow> False)}"
  by (induction ex out ps rule: snapshot_loop.induct) (auto split: option.splits)

text \<open>The list of prefixes exported to the firewall is not fail-secure: it keeps every included
  prefix whose network address is not excluded, with all the addresses inside it that an
  exclusion covers and that the dialer therefore sends through the tunnel.
\<close>

theorem snapshot_keeps_excluded:
  assumes "res_exclude r = Some x" "p \<in> set (res_prefixes r)" "\<not> Match x (pfx_addr p)" "Contains p a" "Match x a"
  shows "p \<in> set (SnapshotPrefixes (Some r)) \<and> Contains p a \<and> \<not> ResolvedMatch r a"
  using assms by (auto simp: SnapshotPrefixes_def snapshot_loop_set ResolvedMatch_def split: option.split)

theorem snapshot_keeps_excluded_witness:
  "\<exists>r p. Load (Some (Some [])) (Some \<lparr>Adds = [p], Excl = [pfx4 [5, 1, 0, 0] 16]\<rparr>) = Some r \<and>
     p \<in> set (SnapshotPrefixes (Some r)) \<and> Contains p (IP4 [5, 1, 2, 3]) \<and> \<not> ResolvedMatch r (IP4 [5, 1, 2, 3])"
proof -
  define p where "p = pfx4 [5, 0, 0, 0] 8"
  define x where "x = fold Insert [pfx4 [5, 1, 0, 0] 16] New"
  obtain r where r: "Load (Some (Some [])) (Some \<lparr>Adds = [p], Excl = [pfx4 [5, 1, 0, 0] 16]\<rparr>) = Some r" by (simp add: Load_eq)
  have "res_exclude r = Some x" "p \<in> set (res_prefixes r)"
    using r by (auto simp: Load_eq x_def p_def pfx4_def Is4_def)
  moreover have "\<not> Match x (pfx_addr p)" "Match x (IP4 [5, 1, 2, 3])" "Contains p (IP4 [5, 1, 2, 3])"
    by (simp_all add: x_def p_def Match_Insert Match_New covers4_def pfx4_def Contains_def Is4_def same_bits_small)
  ultimately show ?thesis using snapshot_keeps_excluded r by blast
qed

end
