(* ===== verification/Safe_Dial.thy ===== *)
theory Safe_Dial
  imports Net_Addr
begin

section \<open>Guarded dialling on the server and the client\<close>

text \<open>
  Models \<open>src/server/safedial.go\<close> and \<open>src/proxy/socks5/direct.go\<close>: the address filters and the
  two functions that resolve a target, check what they got and dial it.  The resolver is an
  argument: \<open>lookup host\<close> is what \<open>LookupIPAddr\<close> returns, \<open>None\<close> for an error.  The result says
  what is dialled: \<open>DialIP\<close> an address that was checked, \<open>DialTarget\<close> the string of the request.
\<close>

subsection \<open>Networks (net.IPNet)\<close>

record ipnet =
  net_ip :: bytes
  net_bits :: nat

definition mask_byte :: "nat \<Rightarrow> nat \<Rightarrow> byte" where
  "mask_byte n j = (let k = min 8 (n - 8 * j) in push_bit (8 - k) (mask k))"

definition net_contains :: "ipnet \<Rightarrow> bytes \<Rightarrow> bool" where
  "net_contains n ip =
     (let x = (case To4 ip of Some b \<Rightarrow> b | None \<Rightarrow> ip)
      in length x = length (net_ip n) \<and>
         list_all (\<lambda>j. net_ip n ! j AND mask_byte (net_bits n) j = x ! j AND mask_byte (net_bits n) j) [0..<length x])"

definition net4 :: "nat list \<Rightarrow> nat \<Rightarrow> ipnet" where
  "net4 b n = \<lparr>net_ip = map of_nat b, net_bits = n\<rparr>"

definition net6 :: "nat list \<Rightarrow> nat \<Rightarrow> ipnet" where
  "net6 gs n = \<lparr>net_ip = concat (map (\<lambda>g. [of_nat (g div 256), of_nat g]) gs), net_bits = n\<rparr>"

definition privateNets :: "ipnet list" where
  "privateNets =
     [net4 [127, 0, 0, 0] 8, net4 [10, 0, 0, 0] 8, net4 [172, 16, 0, 0] 12, net4 [192, 168, 0, 0] 16,
      net4 [169, 254, 0, 0] 16, net6 [0, 0, 0, 0, 0, 0, 0, 1] 128, net6 [0xFC00, 0, 0, 0, 0, 0, 0, 0] 7,
      net6 [0xFE80, 0, 0, 0, 0, 0, 0, 0] 10, net4 [100, 64, 0, 0] 10, net4 [0, 0, 0, 0] 8,
      net6 [0x64, 0xFF9B, 0, 0, 0, 0, 0, 0] 96, net6 [0x64, 0xFF9B, 1, 0, 0, 0, 0, 0] 48,
      net6 [0x2002, 0, 0, 0, 0, 0, 0, 0] 16, net6 [0x2001, 0, 0, 0, 0, 0, 0, 0] 32,
      net6 [0x100, 0, 0, 0, 0, 0, 0, 0] 64, net4 [198, 18, 0, 0] 15, net4 [255, 255, 255, 255] 32]"

subsection \<open>Predicates of net.IP\<close>

definition ip_Equal :: "bytes \<Rightarrow> bytes \<Rightarrow> bool" where
  "ip_Equal a b =
     (if length a = length b then a = b
      else if length a = 4 \<and> length b = 16 then take 12 b = v4InV6Prefix \<and> a = drop 12 b
      else if length a = 16 \<and> length b = 4 then take 12 a = v4InV6Prefix \<and> drop 12 a = b else False)"

definition IsUnspecified :: "bytes \<Rightarrow> bool" where
  "IsUnspecified ip \<longleftrightarrow> ip_Equal ip (v4InV6Prefix @ zeros 4) \<or> ip_Equal ip (zeros 16)"

definition IsMulticast :: "bytes \<Rightarrow> bool" where
  "IsMulticast ip =
     (case To4 ip of Some b \<Rightarrow> b ! 0 AND 0xF0 = 0xE0 | None \<Rightarrow> length ip = 16 \<and> ip ! 0 = 0xFF)"

definition IsLinkLocalMulticast :: "bytes \<Rightarrow> bool" where
  "IsLinkLocalMulticast ip =
     (case To4 ip of
        Some b \<Rightarrow> b ! 0 = 224 \<and> b ! 1 = 0 \<and> b ! 2 = 0
      | None \<Rightarrow> length ip = 16 \<and> ip ! 0 = 0xFF \<and> ip ! 1 AND 0x0F = 2)"

definition IsLoopback :: "bytes \<Rightarrow> bool" where
  "IsLoopback ip = (case To4 ip of Some b \<Rightarrow> b ! 0 = 127 | None \<Rightarrow> ip_Equal ip (zeros 15 @ [1]))"

definition IsPrivate :: "bytes \<Rightarrow> bool" where
  "IsPrivate ip =
     (case To4 ip of
        Some b \<Rightarrow> b ! 0 = 10 \<or> b ! 0 = 172 \<and> b ! 1 AND 0xF0 = 16 \<or> b ! 0 = 192 \<and> b ! 1 = 168
      | None \<Rightarrow> length ip = 16 \<and> ip ! 0 AND 0xFE = 0xFC)"

definition IsLinkLocalUnicast :: "bytes \<Rightarrow> bool" where
  "IsLinkLocalUnicast ip =
     (case To4 ip of
        Some b \<Rightarrow> b ! 0 = 169 \<and> b ! 1 = 254
      | None \<Rightarrow> length ip = 16 \<and> ip ! 0 = 0xFE \<and> ip ! 1 AND 0xC0 = 0x80)"

subsection \<open>The server's filter and SafeDial\<close>

definition isPrivateIP :: "bytes \<Rightarrow> bool" where
  "isPrivateIP ip =
     (if ip = [] then True
      else if IsUnspecified ip \<or> IsMulticast ip \<or> IsLinkLocalMulticast ip then True
      else list_ex (\<lambda>n. net_contains n ip) privateNets)"

datatype dial = DialIP bytes gostring | DialTarget gostring

datatype dialErr = ErrInvalidTarget | ErrMissingPort | ErrCannotResolve | ErrPrivateTarget | ErrNoValidIP

text \<open>The loop over the resolved addresses: the first address, unless one of them is private.\<close>

fun first_public :: "bytes option \<Rightarrow> bytes list \<Rightarrow> (dialErr, bytes option) outcome" where
  "first_public valid [] = Ok valid"
| "first_public valid (ip # ips) =
     (if isPrivateIP ip then Err ErrPrivateTarget
      else first_public (if valid = None then Some ip else valid) ips)"

definition SafeDial :: "(gostring \<Rightarrow> bytes list option) \<Rightarrow> gostring \<Rightarrow> (dialErr, dial) outcome" where
  "SafeDial lookup target =
     (case SplitHostPort target of
        None \<Rightarrow> Err ErrInvalidTarget
      | Some (host, port) \<Rightarrow>
          if port = [] then Err ErrMissingPort
          else case lookup host of
                 None \<Rightarrow>
                   (case ParseIP host of
                      None \<Rightarrow> Err ErrCannotResolve
                    | Some ip \<Rightarrow> if isPrivateIP ip then Err ErrPrivateTarget else Ok (DialTarget target))
               | Some ips \<Rightarrow>
                   (case first_public None ips of
                      Ok (Some ip) \<Rightarrow> Ok (DialIP ip port)
                    | Ok None \<Rightarrow> Err ErrNoValidIP
                    | Err e \<Rightarrow> Err e
                    | Panic \<Rightarrow> Panic))"

subsection \<open>The client's filter and DirectDial\<close>

definition isUnsafeDirectIP :: "bytes \<Rightarrow> bool" where
  "isUnsafeDirectIP ip \<longleftrightarrow> ip = [] \<or> IsLoopback ip \<or> IsPrivate ip \<or> IsLinkLocalUnicast ip \<or>
     IsLinkLocalMulticast ip \<or> IsUnspecified ip"

datatype directResult = ReplyHostUnreachable | ReplyNotAllowed | DirectRelay bytes gostring

fun first_safe :: "bytes option \<Rightarrow> bytes list \<Rightarrow> (unit, bytes option) outcome" where
  "first_safe safe [] = Ok safe"
| "first_safe safe (ip # ips) =
     (if isUnsafeDirectIP ip then Err () else first_safe (if safe = None then Some ip else safe) ips)"

definition DirectDial :: "(gostring \<Rightarrow> bytes list option) \<Rightarrow> gostring \<Rightarrow> directResult" where
  "DirectDial lookup destAddr =
     (case SplitHostPort destAddr of
        None \<Rightarrow> ReplyHostUnreachable
      | Some (host, port) \<Rightarrow>
          if host = [] \<or> port = [] then ReplyHostUnreachable
          else case ParseIP host of
                 Some literal \<Rightarrow> if isUnsafeDirectIP literal then ReplyNotAllowed else DirectRelay literal port
               | None \<Rightarrow>
                   (case lookup host of
                      None \<Rightarrow> ReplyHostUnreachable
                    | Some ips \<Rightarrow>
                        if ips = [] then ReplyHostUnreachable
                        else case first_safe None ips of
                               Err _ \<Rightarrow> ReplyNotAllowed
                             | Ok (Some ip) \<Rightarrow> DirectRelay ip port
                             | _ \<Rightarrow> ReplyHostUnreachable))"

subsection \<open>Masks and leading bits\<close>

lemma and_top_eq:
  fixes x y :: byte
  assumes "k \<le> 8"
  shows "x AND push_bit (8 - k) (mask k) = y AND push_bit (8 - k) (mask k) \<longleftrightarrow> drop_bit (8 - k) x = drop_bit (8 - k) y"
proof -
  have len: "i < 8" if "bit z i" for z :: byte and i using bit_imp_le_length [OF that] by simp
  have "bit (z AND push_bit (8 - k) (mask k)) i \<longleftrightarrow> 8 - k \<le> i \<and> bit z i" for z :: byte and i
    using assms bit_imp_le_length [of z i] by (auto simp: bit_simps)
  then have "x AND push_bit (8 - k) (mask k) = y AND push_bit (8 - k) (mask k) \<longleftrightarrow> (\<forall>i \<ge> 8 - k. bit x i = bit y i)"
    by (simp add: Bit_Operations.bit_eq_iff) (use len in blast)
  also have "\<dots> \<longleftrightarrow> drop_bit (8 - k) x = drop_bit (8 - k) y"
  proof
    assume h: "\<forall>i \<ge> 8 - k. bit x i = bit y i"
    show "drop_bit (8 - k) x = drop_bit (8 - k) y" by (rule bit_word_eqI) (simp add: bit_drop_bit_eq h)
  next
    assume h: "drop_bit (8 - k) x = drop_bit (8 - k) y"
    have "bit x i = bit y i" if "8 - k \<le> i" for i
      using arg_cong [OF h, of "\<lambda>z. bit z (i - (8 - k))"] that by (simp add: bit_drop_bit_eq)
    then show "\<forall>i \<ge> 8 - k. bit x i = bit y i" by blast
  qed
  finally show ?thesis .
qed

lemma net_contains_iff:
  assumes "length (net_ip n) = length x" "net_bits n \<le> 8 * length x" "x = (case To4 ip of Some b \<Rightarrow> b | None \<Rightarrow> ip)"
  shows "net_contains n ip \<longleftrightarrow> same_bits (net_bits n) (net_ip n) x"
proof -
  let ?b = "net_bits n" and ?a = "net_ip n"
  have m: "u AND mask_byte ?b j = v AND mask_byte ?b j \<longleftrightarrow>
      (if j < ?b div 8 then u = v else j \<noteq> ?b div 8 \<or> drop_bit (8 - ?b mod 8) u = drop_bit (8 - ?b mod 8) v)" for u v :: byte and j
  proof -
    consider "j < ?b div 8" | "j = ?b div 8" | "j > ?b div 8" by linarith
    then show ?thesis
    proof cases
      case 1
      then have "8 * j + 8 \<le> ?b" by (metis Suc_leI div_times_less_eq_dividend mult.commute mult_Suc_right add.commute mult_le_mono2 order_trans times_div_less_eq_dividend)
      then have "min 8 (?b - 8 * j) = 8" by simp
      then show ?thesis using 1 and_top_eq [of 8 u v] by (simp add: mask_byte_def)
    next
      case 2
      have "?b - 8 * (?b div 8) = ?b mod 8" by (simp add: minus_mult_div_eq_mod)
      then have "min 8 (?b - 8 * j) = ?b mod 8" using 2 mod_less_divisor [of 8 ?b] by (simp add: min_def less_imp_le)
      then show ?thesis using 2 and_top_eq [of "?b mod 8" u v] by (simp add: mask_byte_def Let_def less_imp_le)
    next
      case 3
      have "?b < 8 * (?b div 8 + 1)" by presburger
      then have "?b \<le> 8 * j" using 3 by linarith
      then show ?thesis using 3 by (simp add: mask_byte_def)
    qed
  qed
  have "(\<forall>j < length x. ?a ! j AND mask_byte ?b j = x ! j AND mask_byte ?b j) \<longleftrightarrow> same_bits ?b ?a x"
  proof (cases "?b div 8 < length x")
    case True
    then show ?thesis by (auto simp: m same_bits_octets)
  next
    case False
    then have e: "?b div 8 = length x" "?b mod 8 = 0" using assms(2)
      by (metis div_le_mono div_mult_self1_is_m le_antisym not_le zero_less_numeral, metis assms(2) div_le_mono div_mult_self1_is_m dvd_imp_mod_0 dvd_triv_left le_antisym not_le times_div_less_eq_dividend zero_less_numeral)
    have "drop_bit 8 (z :: byte) = 0" for z by (rule bit_word_eqI) (use bit_imp_le_length in \<open>fastforce simp: bit_drop_bit_eq\<close>)
    then show ?thesis using e by (auto simp: m same_bits_octets)
  qed
  then show ?thesis using assms by (simp add: net_contains_def Let_def list_all_iff Ball_def)
qed

subsection \<open>What the filters reject\<close>

lemma net4_contains:
  assumes "To4 ip = Some y" "n \<le> 32"
  shows "net_contains (net4 [a, b, c, d] n) ip \<longleftrightarrow> same_bits n [of_nat a, of_nat b, of_nat c, of_nat d] y"
proof -
  have "net_contains (net4 [a, b, c, d] n) ip \<longleftrightarrow> same_bits (net_bits (net4 [a, b, c, d] n)) (net_ip (net4 [a, b, c, d] n)) y"
    by (rule net_contains_iff) (use assms To4_length [OF assms(1)] in \<open>simp_all add: net4_def\<close>)
  then show ?thesis by (simp add: net4_def)
qed

lemma net6_contains:
  assumes "To4 ip = None" "length ip = 16" "n \<le> 128"
  shows "net_contains (net6 [a, b, c, d, e, f, g, h] n) ip \<longleftrightarrow>
     same_bits n (net_ip (net6 [a, b, c, d, e, f, g, h] n)) ip"
proof -
  have "net_contains (net6 [a, b, c, d, e, f, g, h] n) ip \<longleftrightarrow>
      same_bits (net_bits (net6 [a, b, c, d, e, f, g, h] n)) (net_ip (net6 [a, b, c, d, e, f, g, h] n)) ip"
    by (rule net_contains_iff) (use assms in \<open>simp_all add: net6_def\<close>)
  then show ?thesis by (simp add: net6_def)
qed

lemma net_contains_family:
  "To4 ip = Some y \<Longrightarrow> \<not> net_contains (net6 [a, b, c, d, e, f, g, h] n) ip"
  "To4 ip = None \<Longrightarrow> length ip = 16 \<Longrightarrow> \<not> net_contains (net4 [a, b, c, d] n) ip"
  using To4_length by (auto simp: net_contains_def net4_def net6_def)

lemma high_nibble: "(x :: byte) AND 0xF0 = v AND 0xF0 \<longleftrightarrow> unat x div 16 = unat v div 16"
  using and_top_eq [of 4 x v] by (simp add: mask_eq_exp_minus_1 drop_bit_byte_eq push_bit_eq_mult)

lemma same_bits_take:
  assumes "n \<le> length a" "n \<le> length b" shows "same_bits (8 * n) a b \<longleftrightarrow> take n a = take n b"
proof -
  have "drop_bit 8 (z :: byte) = 0" for z by (rule bit_word_eqI) (use bit_imp_le_length in \<open>fastforce simp: bit_drop_bit_eq\<close>)
  then show ?thesis using assms by (auto simp: same_bits_octets list_eq_iff_nth_eq)
qed

lemma IsUnspecified4: "To4 ip = Some y \<Longrightarrow> IsUnspecified ip \<longleftrightarrow> y = zeros 4"
proof -
  assume y: "To4 ip = Some y"
  have v: "take 12 (zeros 16) \<noteq> v4InV6Prefix"
  proof -
    have "take 12 (zeros 16) ! 10 \<noteq> v4InV6Prefix ! 10" by (simp add: zeros_def v4InV6Prefix_def nth_append)
    then show ?thesis by metis
  qed
  consider "length ip = 4" "y = ip" | "length ip = 16" "ip = v4InV6Prefix @ y" "length y = 4"
    using y by (auto simp: To4_def split: if_splits) (metis append_take_drop_id)
  then show ?thesis
  proof cases
    case 1
    then show ?thesis using v by (auto simp: IsUnspecified_def ip_Equal_def)
  next
    case 2
    have "ip \<noteq> zeros 16" using 2 v by (metis append_eq_conv_conj length_v4InV6Prefix)
    then show ?thesis using 2 by (auto simp: IsUnspecified_def ip_Equal_def)
  qed
qed

lemma private_ranges4:
  assumes "To4 ip = Some y"
  shows "isPrivateIP ip \<longleftrightarrow>
     (let w = unat (y ! 0); x = unat (y ! 1)
      in w = 0 \<or> w = 10 \<or> w = 127 \<or> w = 100 \<and> 64 \<le> x \<and> x \<le> 127 \<or> w = 169 \<and> x = 254 \<or>
         w = 172 \<and> 16 \<le> x \<and> x \<le> 31 \<or> w = 192 \<and> x = 168 \<or> w = 198 \<and> 18 \<le> x \<and> x \<le> 19 \<or>
         224 \<le> w \<and> w \<le> 239 \<or> y = [255, 255, 255, 255])"
proof -
  let ?w = "unat (y ! 0)" and ?x = "unat (y ! 1)"
  have l: "length y = 4" by (rule To4_length [OF assms])
  have z: "IsUnspecified ip \<Longrightarrow> ?w = 0" by (simp add: IsUnspecified4 [OF assms] zeros_def)
  have ll: "IsLinkLocalMulticast ip \<Longrightarrow> 224 \<le> ?w \<and> ?w \<le> 239" using assms by (simp add: IsLinkLocalMulticast_def)
  have mc: "IsMulticast ip \<longleftrightarrow> 224 \<le> ?w \<and> ?w \<le> 239"
    using high_nibble [of "y ! 0" "0xE0"] assms by (simp add: IsMulticast_def) linarith
  have bc: "same_bits 32 [255, 255, 255, 255] y \<longleftrightarrow> y = [255, 255, 255, 255]"
    using same_bits_take [of 4 "[255, 255, 255, 255]" y] l by auto
  have nets: "list_ex (\<lambda>n. net_contains n ip) privateNets \<longleftrightarrow>
      ?w = 127 \<or> ?w = 10 \<or> (?w = 172 \<and> 1 = ?x div 16) \<or> (?w = 192 \<and> ?x = 168) \<or> (?w = 169 \<and> ?x = 254) \<or>
      (?w = 100 \<and> 1 = ?x div 64) \<or> ?w = 0 \<or> (?w = 198 \<and> 9 = ?x div 2) \<or> y = [255, 255, 255, 255]"
    using bc by (simp add: privateNets_def net4_contains [OF assms] net_contains_family(1) [OF assms]
        same_bits_small word_unat_eq_iff unat_of_nat disj_ac)
  have r: "1 = ?x div 16 \<longleftrightarrow> 16 \<le> ?x \<and> ?x \<le> 31" "1 = ?x div 64 \<longleftrightarrow> 64 \<le> ?x \<and> ?x \<le> 127" "9 = ?x div 2 \<longleftrightarrow> 18 \<le> ?x \<and> ?x \<le> 19"
    by linarith+
  have "ip \<noteq> []" using assms by (auto simp: To4_def)
  then have "isPrivateIP ip \<longleftrightarrow> IsUnspecified ip \<or> IsMulticast ip \<or> IsLinkLocalMulticast ip \<or> list_ex (\<lambda>n. net_contains n ip) privateNets"
    by (auto simp: isPrivateIP_def)
  then show ?thesis
    unfolding Let_def nets mc r using z ll by blast
qed

text \<open>On IPv4 addresses, in the four-byte form as well as mapped into IPv6, the server's filter
  rejects exactly the ranges it is meant to: this network, the three private networks,
  carrier-grade NAT, loopback, link-local with the metadata service, benchmarking,
  multicast and the limited broadcast address.
\<close>

theorem private_ipv4_exact:
  assumes "To4 ip = Some y"
  shows "isPrivateIP ip \<longleftrightarrow>
     (let w = unat (y ! 0); x = unat (y ! 1)
      in w = 0 \<or> w = 10 \<or> w = 127 \<or> w = 100 \<and> 64 \<le> x \<and> x \<le> 127 \<or> w = 169 \<and> x = 254 \<or>
         w = 172 \<and> 16 \<le> x \<and> x \<le> 31 \<or> w = 192 \<and> x = 168 \<or> w = 198 \<and> 18 \<le> x \<and> x \<le> 19 \<or>
         224 \<le> w \<and> w \<le> 239 \<or> y = [255, 255, 255, 255])"
  using assms by (rule private_ranges4)

theorem private_ipv4_exact_witness:
  "isPrivateIP (v4InV6Prefix @ [169, 254, 169, 254]) \<and> \<not> isPrivateIP [8, 8, 8, 8]"
  using private_ipv4_exact [of "v4InV6Prefix @ [169, 254, 169, 254]" "[169, 254, 169, 254]"]
    private_ipv4_exact [of "[8, 8, 8, 8]" "[8, 8, 8, 8]"]
  by (simp add: To4_def)

lemma first_public_Ok:
  "first_public valid ips = Ok r \<Longrightarrow>
     list_all (\<lambda>ip. \<not> isPrivateIP ip) ips \<and> r = (if valid \<noteq> None then valid else if ips = [] then None else Some (hd ips))"
  by (induction valid ips rule: first_public.induct) (auto split: if_splits)


lemma seven_bits: "same_bits 7 a y \<longleftrightarrow> unat (a ! 0) div 2 = unat (y ! 0) div 2"
  by (simp add: same_bits_octets drop_bit_byte_eq)

lemma top_seven: "(x :: byte) AND 0xFE = v AND 0xFE \<longleftrightarrow> unat x div 2 = unat v div 2"
  using and_top_eq [of 7 x v] by (simp add: mask_eq_exp_minus_1 drop_bit_byte_eq push_bit_eq_mult)

lemma top_two: "(x :: byte) AND 0xC0 = v AND 0xC0 \<longleftrightarrow> unat x div 64 = unat v div 64"
  using and_top_eq [of 2 x v] by (simp add: mask_eq_exp_minus_1 drop_bit_byte_eq push_bit_eq_mult)

lemma unsafe_private:
  assumes "length ip = 4 \<or> length ip = 16" "isUnsafeDirectIP ip" shows "isPrivateIP ip"
proof (cases "To4 ip")
  case (Some y)
  have h: "y ! 1 AND 0xF0 = 16 \<longleftrightarrow> 16 \<le> unat (y ! 1) \<and> unat (y ! 1) \<le> 31"
    using high_nibble [of "y ! 1" 16] by simp linarith
  have "IsUnspecified ip \<or> IsLinkLocalMulticast ip \<Longrightarrow> isPrivateIP ip" by (auto simp: isPrivateIP_def)
  moreover have "IsLoopback ip \<or> IsPrivate ip \<or> IsLinkLocalUnicast ip \<Longrightarrow> isPrivateIP ip"
    unfolding private_ranges4 [OF Some] IsLoopback_def IsPrivate_def IsLinkLocalUnicast_def Some option.case h
    by auto
  ultimately show ?thesis using assms(1) assms(2) by (auto simp: isUnsafeDirectIP_def)
next
  case None
  then have l: "length ip = 16" using assms(1) by (auto simp: To4_def)
  note N = net6_contains [OF None l] net_contains_family(2) [OF None l]
  have "IsUnspecified ip \<or> IsLinkLocalMulticast ip \<Longrightarrow> isPrivateIP ip" by (auto simp: isPrivateIP_def)
  moreover have "isPrivateIP ip" if "IsLoopback ip"
  proof -
    have "ip = zeros 15 @ [1]" using that None l by (simp add: IsLoopback_def ip_Equal_def)
    moreover have "net_ip (net6 [0, 0, 0, 0, 0, 0, 0, 1] 128) = zeros 15 @ [1]"
    proof -
      have "net_ip (net6 [0, 0, 0, 0, 0, 0, 0, 1] 128) = [0, 0, 0, 0, 0, 0, 0, 0, 0, 0, 0, 0, 0, 0, 0, 1]" by (simp add: net6_def)
      moreover have "zeros 15 @ [1] = [0, 0, 0, 0, 0, 0, 0, 0, 0, 0, 0, 0, 0, 0, 0, 1]" by (simp add: zeros_def numeral_eq_Suc)
      ultimately show ?thesis by simp
    qed
    moreover have "same_bits 128 ip ip" by (simp add: same_bits_def list_all_iff)
    ultimately have "net_contains (net6 [0, 0, 0, 0, 0, 0, 0, 1] 128) ip" using N(1) [of 128 0 0 0 0 0 0 0 1] by simp
    then show ?thesis by (simp add: isPrivateIP_def privateNets_def)
  qed
  moreover have "isPrivateIP ip" if "IsPrivate ip"
  proof -
    have "unat (ip ! 0) div 2 = 126"
      using that None top_seven [of "ip ! 0" "0xFC"] by (simp add: IsPrivate_def)
    then have "net_contains (net6 [0xFC00, 0, 0, 0, 0, 0, 0, 0] 7) ip"
      using N(1) [of 7 "0xFC00" 0 0 0 0 0 0 0] by (simp add: seven_bits) (simp add: net6_def)
    then show ?thesis by (simp add: isPrivateIP_def privateNets_def)
  qed
  moreover have "isPrivateIP ip" if "IsLinkLocalUnicast ip"
  proof -
    have "ip ! 0 = 0xFE" "unat (ip ! 1) div 64 = 2"
      using that None top_two [of "ip ! 1" "0x80"] by (simp_all add: IsLinkLocalUnicast_def)
    then have "net_contains (net6 [0xFE80, 0, 0, 0, 0, 0, 0, 0] 10) ip"
      using N(1) [of 10 "0xFE80" 0 0 0 0 0 0 0] by (simp add: same_bits_small) (simp add: net6_def)
    then show ?thesis by (simp add: isPrivateIP_def privateNets_def)
  qed
  ultimately show ?thesis using assms(2) l by (auto simp: isUnsafeDirectIP_def)
qed

text \<open>The client's filter for direct connections is weaker than the server's, which it is said to
  mirror: every address it rejects the server rejects too, but it lets through carrier-grade
  NAT, the benchmark network of the tunnel device, multicast and the IPv6 forms that embed an
  IPv4 address such as loopback.
\<close>

theorem direct_guard_weaker:
  "(\<forall>ip. (length ip = 4 \<or> length ip = 16) \<and> isUnsafeDirectIP ip \<longrightarrow> isPrivateIP ip) \<and>
   (\<forall>ip \<in> {[100, 64, 0, 1], [198, 18, 0, 1], [239, 1, 2, 3], net_ip (net6 [0x64, 0xFF9B, 0, 0, 0, 0, 0x7F00, 1] 128)}.
      isPrivateIP ip \<and> \<not> isUnsafeDirectIP ip)"
proof -
  have z: "zeros 4 = [0, 0, 0, 0]" by (simp add: zeros_def numeral_eq_Suc)
  define n where "n = net_ip (net6 [0x64, 0xFF9B, 0, 0, 0, 0, 0x7F00, 1] 128)"
  have n: "n = [0, 100, 255, 155, 0, 0, 0, 0, 0, 0, 0, 0, 127, 0, 0, 1]" by (simp add: n_def net6_def)
  have t: "To4 n = None" by (simp add: n To4_def v4InV6Prefix_def zeros_def)
  have "net_contains (net6 [0x64, 0xFF9B, 0, 0, 0, 0, 0, 0] 96) n"
    using net6_contains [OF t, of 96 "0x64" "0xFF9B" 0 0 0 0 0 0] same_bits_take [of 12 "net_ip (net6 [0x64, 0xFF9B, 0, 0, 0, 0, 0, 0] 96)" n]
    by (simp add: n net6_def)
  then have "isPrivateIP n" by (simp add: isPrivateIP_def privateNets_def)
  moreover have "\<not> isUnsafeDirectIP n"
  proof -
    have "n ! 1 = 100" "(zeros 15 @ [1]) ! 1 = 0" "(v4InV6Prefix @ zeros 4) ! 1 = 0" "zeros 16 ! 1 = 0"
      by (simp_all add: n zeros_def v4InV6Prefix_def nth_append)
    then have "n \<noteq> zeros 15 @ [1]" "n \<noteq> v4InV6Prefix @ zeros 4" "n \<noteq> zeros 16" by force+
    moreover have "length n = 16" "n \<noteq> []" "n ! 0 = 0" by (simp_all add: n)
    ultimately show ?thesis
      by (simp add: isUnsafeDirectIP_def t IsLoopback_def IsPrivate_def IsLinkLocalUnicast_def IsLinkLocalMulticast_def
          IsUnspecified_def ip_Equal_def)
  qed
  moreover have "isPrivateIP [100, 64, 0, 1]" "isPrivateIP [198, 18, 0, 1]" "isPrivateIP [239, 1, 2, 3]"
    by (simp_all add: private_ranges4 To4_def)
  moreover have "\<not> isUnsafeDirectIP [100, 64, 0, 1]" "\<not> isUnsafeDirectIP [198, 18, 0, 1]" "\<not> isUnsafeDirectIP [239, 1, 2, 3]"
    by (simp_all add: isUnsafeDirectIP_def IsLoopback_def IsPrivate_def IsLinkLocalUnicast_def IsLinkLocalMulticast_def To4_def
        IsUnspecified4 z)
  ultimately show ?thesis using unsafe_private by (auto simp: n_def)
qed

theorem direct_guard_weaker_witness:
  "isUnsafeDirectIP [127, 0, 0, 1] \<and> isPrivateIP [127, 0, 0, 1] \<and> isPrivateIP [100, 64, 0, 1] \<and> \<not> isUnsafeDirectIP [100, 64, 0, 1]"
proof -
  have u: "isUnsafeDirectIP [127, 0, 0, 1]" by (simp add: isUnsafeDirectIP_def IsLoopback_def To4_def)
  then have "isPrivateIP [127, 0, 0, 1]" using direct_guard_weaker by simp
  with u show ?thesis using direct_guard_weaker by simp
qed

end
