(* ===== verification/Routing.thy ===== *)
theory Routing
  imports Safe_Dial "HOL-Library.Sublist"
begin

section \<open>The client's routing rules\<close>

text \<open>
  Models \<open>src/client/routing.go\<close>: the patterns of the block, force and bypass lists and the
  decision for a host.  \<open>ParseCIDR\<close> and \<open>IPNet.Contains\<close> are those of package net.  The lower
  case of a string beyond ASCII needs the Unicode tables, so it is the argument \<open>uni\<close>; the
  theorems hold for every \<open>uni\<close>.
\<close>

subsection \<open>Library functions\<close>

abbreviation (input) chr_slash :: byte where "chr_slash \<equiv> 47"
abbreviation (input) chr_star :: byte where "chr_star \<equiv> 42"

definition lower_byte :: "byte \<Rightarrow> byte" where
  "lower_byte c = (if 65 \<le> c \<and> c \<le> 90 then c + 32 else c)"

definition ToLower :: "(gostring \<Rightarrow> gostring) \<Rightarrow> gostring \<Rightarrow> gostring" where
  "ToLower uni s = (if list_all (\<lambda>c. c < 128) s then map lower_byte s else uni s)"

text \<open>\<open>dtoi\<close> of the whole string: decimal digits only, below \<open>0xFFFFFF\<close> at every digit.\<close>

fun dtoi_loop :: "nat \<Rightarrow> gostring \<Rightarrow> nat option" where
  "dtoi_loop n [] = Some n"
| "dtoi_loop n (c # cs) =
     (if \<not> is_digit c then None
      else let n' = n * 10 + (unat c - 48) in if n' \<ge> 0xFFFFFF then None else dtoi_loop n' cs)"

definition dtoi :: "gostring \<Rightarrow> nat option" where
  "dtoi s = (if s = [] then None else dtoi_loop 0 s)"

text \<open>
  \<open>ParseCIDR\<close>: the network keeps 4 bytes for a dotted address and 16 otherwise.
  \<open>networkNumberAndMask\<close> then shortens a network of IPv4-mapped addresses to its last 4 bytes;
  such a network has at least 96 bits.
\<close>

definition mask_ip :: "bytes \<Rightarrow> nat \<Rightarrow> bytes" where
  "mask_ip ip n = map (\<lambda>j. ip ! j AND mask_byte n j) [0..<length ip]"

definition ParseCIDR :: "gostring \<Rightarrow> ipnet option" where
  "ParseCIDR s =
     (case index_byte chr_slash s of
        None \<Rightarrow> None
      | Some i \<Rightarrow>
          (case ParseAddr (take i s) of
             None \<Rightarrow> None
           | Some a \<Rightarrow>
               let ip = (case a of IP4 b \<Rightarrow> b | IP6 b z \<Rightarrow> b); zone = (case a of IP4 b \<Rightarrow> [] | IP6 b z \<Rightarrow> z)
               in if zone \<noteq> [] then None
                  else case dtoi (drop (Suc i) s) of
                         None \<Rightarrow> None
                       | Some n \<Rightarrow> if n > 8 * length ip then None else Some \<lparr>net_ip = mask_ip ip n, net_bits = n\<rparr>))"

definition networkNumberAndMask :: "ipnet \<Rightarrow> ipnet" where
  "networkNumberAndMask n =
     (case To4 (net_ip n) of
        Some b \<Rightarrow> \<lparr>net_ip = b, net_bits = (if length (net_ip n) = 16 then net_bits n - 96 else net_bits n)\<rparr>
      | None \<Rightarrow> n)"

definition cidr_contains :: "ipnet \<Rightarrow> bytes \<Rightarrow> bool" where
  "cidr_contains n ip = net_contains (networkNumberAndMask n) ip"

subsection \<open>Matchers and the router\<close>

datatype action = ActionTunnel | ActionDirect | ActionBlock

record matcher =
  pattern :: gostring
  cidr :: "ipnet option"

record routingConfig =
  cfg_Block :: "gostring list"
  cfg_Force :: "gostring list"
  cfg_Bypass :: "gostring list"

record router =
  r_block :: "matcher list"
  r_force :: "matcher list"
  r_bypass :: "matcher list"

definition newMatcher :: "(gostring \<Rightarrow> gostring) \<Rightarrow> gostring \<Rightarrow> matcher" where
  "newMatcher uni p =
     (case ParseCIDR p of
        Some n \<Rightarrow> \<lparr>pattern = [], cidr = Some n\<rparr>
      | None \<Rightarrow> \<lparr>pattern = ToLower uni p, cidr = None\<rparr>)"

definition matcher_matches :: "(gostring \<Rightarrow> gostring) \<Rightarrow> matcher \<Rightarrow> gostring \<Rightarrow> bool" where
  "matcher_matches uni m host0 =
     (let host = ToLower uni host0; p = pattern m
      in case cidr m of
           Some n \<Rightarrow> (case ParseIP host of None \<Rightarrow> False | Some ip \<Rightarrow> cidr_contains n ip)
         | None \<Rightarrow>
             if take 2 p = [chr_star, chr_dot] then suffix (drop 1 p) host
             else host = p \<or> suffix (chr_dot # p) host)"

definition NewRouter :: "(gostring \<Rightarrow> gostring) \<Rightarrow> routingConfig \<Rightarrow> router" where
  "NewRouter uni cfg =
     \<lparr>r_block = map (newMatcher uni) (cfg_Block cfg), r_force = map (newMatcher uni) (cfg_Force cfg),
      r_bypass = map (newMatcher uni) (cfg_Bypass cfg)\<rparr>"

definition Decide :: "(gostring \<Rightarrow> gostring) \<Rightarrow> router \<Rightarrow> gostring \<Rightarrow> action" where
  "Decide uni r addr =
     (let host = (case SplitHostPort addr of Some (h, p) \<Rightarrow> h | None \<Rightarrow> addr);
          hit = list_ex (\<lambda>m. matcher_matches uni m host)
      in if hit (r_block r) then ActionBlock
         else if hit (r_force r) then ActionTunnel
         else if hit (r_bypass r) then ActionDirect else ActionTunnel)"

subsection \<open>Reference: rules over domain labels\<close>

fun labels :: "gostring \<Rightarrow> gostring list" where
  "labels [] = [[]]"
| "labels (c # cs) = (if c = chr_dot then [] # labels cs else (c # hd (labels cs)) # tl (labels cs))"

fun unlabels :: "gostring list \<Rightarrow> gostring" where
  "unlabels [] = []"
| "unlabels [l] = l"
| "unlabels (l # ls) = l @ chr_dot # unlabels ls"

lemma labels_not_Nil [simp]: "labels s \<noteq> []"
  by (cases s) auto

lemma unlabels_Cons: "unlabels (l # ls) = (if ls = [] then l else l @ chr_dot # unlabels ls)"
  by (cases ls) auto

lemma unlabels_labels [simp]: "unlabels (labels s) = s"
proof (induction s)
  case (Cons c cs)
  obtain l ls where "labels cs = l # ls" by (cases "labels cs") auto
  then show ?case using Cons by (auto simp: unlabels_Cons split: if_splits)
qed simp

lemma labels_append: "labels (xs @ chr_dot # ys) = labels xs @ labels ys"
  by (induction xs) (auto simp: hd_append)

lemma unlabels_append: "xs \<noteq> [] \<Longrightarrow> ys \<noteq> [] \<Longrightarrow> unlabels (xs @ ys) = unlabels xs @ chr_dot # unlabels ys"
  by (induction xs) (auto simp: unlabels_Cons)

lemma strict_label_suffix: "strict_suffix (labels p) (labels h) \<longleftrightarrow> suffix (chr_dot # p) h"
proof
  assume "strict_suffix (labels p) (labels h)"
  then obtain zs where "labels h = zs @ labels p" "zs \<noteq> []" by (auto simp: strict_suffix_def suffix_def)
  then have "h = unlabels zs @ chr_dot # p" by (metis labels_not_Nil unlabels_append unlabels_labels)
  then show "suffix (chr_dot # p) h" by (auto simp: suffix_def)
next
  assume "suffix (chr_dot # p) h"
  then obtain zs where "h = zs @ chr_dot # p" by (auto simp: suffix_def)
  then show "strict_suffix (labels p) (labels h)" by (auto simp: labels_append strict_suffix_def suffix_def)
qed

lemma label_suffix: "suffix (labels p) (labels h) \<longleftrightarrow> h = p \<or> suffix (chr_dot # p) h"
  by (metis strict_label_suffix strict_suffix_def suffix_order.refl unlabels_labels)

text \<open>
  What a rule means: a network rule covers the addresses of its network; \<open>*.d\<close> covers the names
  below the domain \<open>d\<close>, label by label; any other rule covers its domain and the names below it.
\<close>

definition rule_covers :: "(gostring \<Rightarrow> gostring) \<Rightarrow> gostring \<Rightarrow> gostring \<Rightarrow> bool" where
  "rule_covers uni rule host =
     (case ParseCIDR rule of
        Some n \<Rightarrow> (\<exists>ip \<in> set_option (ParseIP (ToLower uni host)). cidr_contains n ip)
      | None \<Rightarrow>
          (let d = ToLower uni rule; h = labels (ToLower uni host)
           in if take 2 d = [chr_star, chr_dot] then strict_suffix (labels (drop 2 d)) h else suffix (labels d) h))"

lemma matches_covers: "matcher_matches uni (newMatcher uni rule) host = rule_covers uni rule host"
proof (cases "ParseCIDR rule")
  case None
  define d where "d = ToLower uni rule"
  have "drop 1 d = chr_dot # drop 2 d" if "take 2 d = [chr_star, chr_dot]"
    using that by (cases d; cases "tl d") auto
  with None show ?thesis
    by (auto simp: newMatcher_def matcher_matches_def rule_covers_def d_def [symmetric] label_suffix strict_label_suffix Let_def)
qed (auto simp: newMatcher_def matcher_matches_def rule_covers_def split: option.splits)

text \<open>C38. The router's decision, for every configuration and destination, is the one of the rules read
  label by label: a block rule that covers the host wins, then a force rule, then a bypass
  rule, and everything else is tunnelled.  In particular no rule for \<open>bank.ru\<close> covers
  \<open>evilbank.ru\<close>.
\<close>
theorem Decide_by_labels:
  "Decide uni (NewRouter uni cfg) addr =
     (let host = (case SplitHostPort addr of Some (h, p) \<Rightarrow> h | None \<Rightarrow> addr);
          covered = list_ex (\<lambda>rule. rule_covers uni rule host)
      in if covered (cfg_Block cfg) then ActionBlock
         else if \<not> covered (cfg_Force cfg) \<and> covered (cfg_Bypass cfg) then ActionDirect else ActionTunnel)"
  by (simp add: Decide_def NewRouter_def matches_covers list_ex_iff Let_def)

text \<open>
  A host written with the root dot (\<open>example.org.\<close>, the same name to a resolver) is covered by no
  domain rule that is written without it.
\<close>

lemma trailing_dot_uncovered:
  assumes "ParseCIDR rule = None" "ToLower uni rule \<noteq> []" "last (ToLower uni rule) \<noteq> chr_dot" "list_all (\<lambda>c. c < 128) host"
    and "\<not> take 2 (ToLower uni rule) = [chr_star, chr_dot]"
  shows "\<not> rule_covers uni rule (host @ [chr_dot])"
proof -
  define d where "d = ToLower uni rule"
  have "ToLower uni (host @ [chr_dot]) = map lower_byte host @ [chr_dot]"
    using assms(4) by (simp add: ToLower_def lower_byte_def)
  moreover have "\<not> suffix (labels d) (labels (map lower_byte host @ [chr_dot]))"
  proof
    assume "suffix (labels d) (labels (map lower_byte host @ [chr_dot]))"
    then have "suffix d (map lower_byte host @ [chr_dot])" by (auto simp only: label_suffix dest: suffix_ConsD)
    then have "\<exists>zs. map lower_byte host @ [chr_dot] = zs @ d" by (simp add: suffix_def)
    then show False using assms(2,3) unfolding d_def [symmetric] by (metis last_appendR last_snoc)
  qed
  ultimately show ?thesis using assms(1,5) by (simp add: rule_covers_def d_def)
qed

end
