(* ===== verification/Socks_Front.thy ===== *)
theory Socks_Front
  imports Safe_Dial
begin

section \<open>The SOCKS5 front end\<close>

text \<open>
  Models \<open>src/proxy/socks5/parse.go\<close>, the negotiation of \<open>server.go\<close> (\<open>handleConn\<close>) and the table of
  UDP senders of \<open>udp.go\<close>.  A buffer with its count \<open>n\<close> of bytes read is the list of those \<open>n\<close>
  bytes; every access of the code is below \<open>n\<close>.
\<close>

subsection \<open>Constants and text\<close>

definition AtypIPv4 :: byte where "AtypIPv4 = 1"
definition AtypDomain :: byte where "AtypDomain = 3"
definition AtypIPv6 :: byte where "AtypIPv6 = 4"
definition CmdConnect :: byte where "CmdConnect = 1"
definition CmdUDPAssociate :: byte where "CmdUDPAssociate = 3"

lemmas socks_consts = AtypIPv4_def AtypDomain_def AtypIPv6_def CmdConnect_def CmdUDPAssociate_def

definition port_at :: "bytes \<Rightarrow> nat \<Rightarrow> nat" where
  "port_at buf i = unat (buf ! i) * 256 + unat (buf ! (i + 1))"

text \<open>
  \<open>Sscanf\<close> with \<open>%d\<close> into a 64-bit integer that was 0: white space (in UTF-8; a newline is an error
  unless it follows a carriage return), a sign, digits; without digits, or outside the range,
  the variable keeps 0.
\<close>

definition lead_space :: "gostring \<Rightarrow> nat option" where
  "lead_space s =
     (if s = [] then Some 0
      else if take 2 s = [13, 10] then Some 2
      else if hd s = 10 then None
      else if hd s \<in> {9, 11, 12, 13, 32} then Some 1
      else if take 2 s \<in> {[0xC2, 0x85], [0xC2, 0xA0]} then Some 2
      else if take 3 s \<in> {[0xE1, 0x9A, 0x80], [0xE2, 0x81, 0x9F], [0xE3, 0x80, 0x80]} \<or>
              take 2 s = [0xE2, 0x80] \<and> length s \<ge> 3 \<and> (0x80 \<le> s ! 2 \<and> s ! 2 \<le> 0x8A \<or> s ! 2 \<in> {0xA8, 0xA9, 0xAF}) then Some 3
      else Some 0)"

fun skip_space :: "gostring \<Rightarrow> gostring option" where
  "skip_space s =
     (case lead_space s of
        None \<Rightarrow> None
      | Some k \<Rightarrow> if k = 0 \<or> s = [] then Some s else skip_space (drop k s))"

declare skip_space.simps [simp del]

definition dec_val :: "gostring \<Rightarrow> nat" where
  "dec_val ds = foldl (\<lambda>v c. v * 10 + (unat c - 48)) 0 ds"

definition scan_d :: "gostring \<Rightarrow> int" where
  "scan_d s =
     (case skip_space s of
        None \<Rightarrow> 0
      | Some s1 \<Rightarrow>
          let signed = (s1 \<noteq> [] \<and> (hd s1 = 43 \<or> hd s1 = 45));
              ds = takeWhile is_digit (if signed then tl s1 else s1);
              v = (if signed \<and> hd s1 = 45 then - int (dec_val ds) else int (dec_val ds))
          in if ds = [] \<or> v < - (2 ^ 63) \<or> 2 ^ 63 \<le> v then 0 else v)"

subsection \<open>Addresses in requests and datagrams\<close>

definition addr_at :: "bytes \<Rightarrow> (gostring \<times> nat) option" where
  "addr_at buf =
     (let n = length buf; atyp = buf ! 3
      in if atyp = AtypIPv4
         then if n < 10 then None
              else Some (ip4_string (take 4 (drop 4 buf)) @ [chr_colon] @ itoa (port_at buf 8), 10)
         else if atyp = AtypDomain
         then if n < 5 then None
              else let domainLen = unat (buf ! 4)
                   in if n < 5 + domainLen + 2 then None
                      else Some (take domainLen (drop 5 buf) @ [chr_colon] @ itoa (port_at buf (5 + domainLen)), 5 + domainLen + 2)
         else if atyp = AtypIPv6
         then if n < 22 then None
              else Some ([chr_lbrack] @ ip_String (take 16 (drop 4 buf)) @ [chr_rbrack, chr_colon] @ itoa (port_at buf 20), 22)
         else None)"

definition ParseDestAddr :: "bytes \<Rightarrow> gostring" where
  "ParseDestAddr buf =
     (if length buf < 4 then [] else case addr_at buf of None \<Rightarrow> [] | Some (a, k) \<Rightarrow> a)"

definition ParseSOCKS5UDPHeader :: "bytes \<Rightarrow> (gostring \<times> nat) option" where
  "ParseSOCKS5UDPHeader buf =
     (if length buf < 4 then None else if buf ! 2 \<noteq> 0 then None else addr_at buf)"

definition BuildSOCKS5UDPHeader :: "gostring \<Rightarrow> bytes \<Rightarrow> bytes option" where
  "BuildSOCKS5UDPHeader addr data =
     (case SplitHostPort addr of
        None \<Rightarrow> None
      | Some (host, portStr) \<Rightarrow>
          let port = scan_d portStr;
              tail = [word_of_int (port div 256), word_of_int (port mod 256)] @ data
          in Some (case ParseIP host of
               None \<Rightarrow> [0, 0, 0, AtypDomain, of_nat (length host)] @ host @ tail
             | Some ip \<Rightarrow>
                 (case To4 ip of
                    Some ip4 \<Rightarrow> [0, 0, 0, AtypIPv4] @ ip4 @ tail
                  | None \<Rightarrow> [0, 0, 0, AtypIPv6] @ the (To16 ip) @ tail)))"

lemma itoa_digits: "list_all is_digit (itoa n)"
proof (induction n rule: itoa.induct)
  case (1 n)
  show ?case
  proof (cases "n < 10")
    case True then show ?thesis by (simp add: itoa.simps [of n] digit_byte)
  next
    case False then show ?thesis using 1 by (simp add: itoa.simps [of n] digit_byte)
  qed
qed

lemma dec_val_itoa: "dec_val (itoa n) = n"
proof (induction n rule: itoa.induct)
  case (1 n)
  show ?case
  proof (cases "n < 10")
    case True then show ?thesis by (simp add: itoa.simps [of n] digit_byte dec_val_def)
  next
    case False then show ?thesis using 1 by (simp add: itoa.simps [of n] digit_byte dec_val_def)
  qed
qed

lemma scan_itoa: assumes "n < 2 ^ 16" shows "scan_d (itoa n) = int n"
proof -
  obtain c cs where c: "itoa n = c # cs" by (cases "itoa n") auto
  then have d: "is_digit c" using itoa_digits [of n] by simp
  then have "48 \<le> unat c" "unat c \<le> 57" by (auto simp: is_digit_def word_le_nat_alt)
  then have ne: "c \<noteq> k" if "unat k < 48 \<or> 57 < unat k" for k using that by auto
  have "lead_space (itoa n) = Some 0" by (auto simp: c lead_space_def ne)
  then have "skip_space (itoa n) = Some (itoa n)" by (simp add: skip_space.simps)
  moreover have t: "takeWhile is_digit (itoa n) = itoa n" using itoa_digits by (simp add: list_all_iff)
  moreover have "\<not> (hd (itoa n) = 43 \<or> hd (itoa n) = 45)" by (simp add: c ne)
  ultimately show ?thesis using assms by (simp add: scan_d_def Let_def dec_val_itoa t)
qed

subsection \<open>Round trip of the UDP header\<close>

text \<open>The address a receiver of the header reads: literal addresses are printed in canonical form.\<close>

definition canonical :: "gostring \<Rightarrow> nat \<Rightarrow> gostring" where
  "canonical host port =
     (case ParseIP host of
        None \<Rightarrow> host
      | Some ip \<Rightarrow> (case To4 ip of Some b \<Rightarrow> ip4_string b | None \<Rightarrow> [chr_lbrack] @ ip_String ip @ [chr_rbrack])) @
     [chr_colon] @ itoa port"

lemma port_bytes:
  assumes "p < 2 ^ 16"
  shows "unat (word_of_int (int p div 256) :: byte) * 256 + unat (word_of_int (int p mod 256) :: byte) = p"
proof -
  have "word_of_int (int p div 256) = (of_nat (p div 256) :: byte)" "word_of_int (int p mod 256) = (of_nat (p mod 256) :: byte)"
    by (metis of_int_of_nat_eq of_nat_numeral zdiv_int, metis of_int_of_nat_eq of_nat_numeral zmod_int)
  moreover have "unat (of_nat (p div 256) :: byte) = p div 256" using assms by (simp add: unat_of_nat)
  moreover have "unat (of_nat (p mod 256) :: byte) = p mod 256" by (simp add: unat_of_nat)
  ultimately show ?thesis by simp
qed

lemma addr_at_header:
  fixes data :: bytes
  assumes "port < 2 ^ 16"
  defines "t \<equiv> [word_of_int (int port div 256), word_of_int (int port mod 256)] @ data"
  shows "length a = 4 \<Longrightarrow> addr_at ([0, 0, 0, AtypIPv4] @ a @ t) = Some (ip4_string a @ [chr_colon] @ itoa port, 10)"
    and "length a = 16 \<Longrightarrow> addr_at ([0, 0, 0, AtypIPv6] @ a @ t) =
           Some ([chr_lbrack] @ ip_String a @ [chr_rbrack, chr_colon] @ itoa port, 22)"
    and "length a < 256 \<Longrightarrow> addr_at ([0, 0, 0, AtypDomain, of_nat (length a)] @ a @ t) =
           Some (a @ [chr_colon] @ itoa port, 5 + length a + 2)"
proof -
  note pb = port_bytes [OF assms(1)]
  show "addr_at ([0, 0, 0, AtypIPv4] @ a @ t) = Some (ip4_string a @ [chr_colon] @ itoa port, 10)" if "length a = 4"
    using that pb by (simp add: addr_at_def t_def socks_consts port_at_def nth_append Let_def)
  show "addr_at ([0, 0, 0, AtypIPv6] @ a @ t) = Some ([chr_lbrack] @ ip_String a @ [chr_rbrack, chr_colon] @ itoa port, 22)"
    if "length a = 16"
    using that pb by (simp add: addr_at_def t_def socks_consts port_at_def nth_append Let_def)
  show "addr_at ([0, 0, 0, AtypDomain, of_nat (length a)] @ a @ t) = Some (a @ [chr_colon] @ itoa port, 5 + length a + 2)"
    if "length a < 256"
    using that pb by (simp add: addr_at_def t_def socks_consts port_at_def nth_append Let_def unat_of_nat)
qed

text \<open>UDP header round trip.  For every destination the header can carry (a port below 65536, a
  name of at most 255 bytes) the header built for it parses, the parsed destination is the
  one given, with a literal address in its canonical spelling, and the data offset is where
  the payload starts.
\<close>
theorem udp_header_roundtrip:
  assumes "SplitHostPort addr = Some (host, itoa port)" "port < 2 ^ 16" "ParseIP host = None \<longrightarrow> length host < 256"
  shows "\<exists>hdr off. BuildSOCKS5UDPHeader addr data = Some hdr \<and>
    ParseSOCKS5UDPHeader hdr = Some (canonical host port, off) \<and> drop off hdr = data"
proof -
  note s = scan_itoa [OF assms(2)] and h = addr_at_header [OF assms(2), where data = data]
  show ?thesis
  proof (cases "ParseIP host")
    case None
    then show ?thesis using assms(1,3) h(3) [of host]
      by (simp add: BuildSOCKS5UDPHeader_def s Let_def ParseSOCKS5UDPHeader_def canonical_def drop_Cons')
  next
    case (Some ip)
    then have l: "length ip = 16" by (rule ParseIP_length)
    show ?thesis
    proof (cases "To4 ip")
      case None
      then show ?thesis using assms(1) Some l h(2) [of ip]
        by (simp add: BuildSOCKS5UDPHeader_def s Let_def ParseSOCKS5UDPHeader_def canonical_def To16_def)
    next
      case (Some b)
      then have "length b = 4" by (rule To4_length)
      then show ?thesis using assms(1) \<open>ParseIP host = Some ip\<close> Some h(1) [of b]
        by (simp add: BuildSOCKS5UDPHeader_def s Let_def ParseSOCKS5UDPHeader_def canonical_def)
    qed
  qed
qed

theorem udp_header_roundtrip_witness:
  "\<exists>hdr off. BuildSOCKS5UDPHeader [97, chr_dot, 98, chr_colon, 53] [1, 2, 3] = Some hdr \<and>
    ParseSOCKS5UDPHeader hdr = Some ([97, chr_dot, 98, chr_colon, 53], off) \<and> drop off hdr = [1, 2, 3]"
proof -
  have i: "itoa 5 = [53]" by (simp add: itoa.simps)
  have h: "SplitHostPort [97, chr_dot, 98, chr_colon, 53] = Some ([97, chr_dot, 98], itoa 5)"
    by (simp add: SplitHostPort_def last_byte_def i)
  have p: "ParseIP [97, chr_dot, 98] = None"
    by (simp add: ParseIP_def ParseAddr_def parseIPv4_def is_digit_def word_le_nat_alt)
  then show ?thesis
    using udp_header_roundtrip [OF h, of "[1, 2, 3]"] by (simp add: canonical_def i)
qed

subsection \<open>Negotiation\<close>

text \<open>
  \<open>handleConn\<close> reads three times: the greeting, with credentials configured the RFC 1929 request,
  and the SOCKS request (at least 7 bytes).  Each argument is what the read delivers, \<open>None\<close> for
  an error.  The result is the bytes written and the handler the connection is given to.
\<close>

record socksServer =
  s_Username :: gostring
  s_Password :: gostring
  s_PerStreamWS :: bool   \<comment> \<open>PerStreamWS is set\<close>
  s_WST :: bool           \<comment> \<open>a WebSocket transport is set\<close>

datatype socksDispatch =
    Dropped
  | HandleTCPConnectWSPerStream gostring
  | HandleTCPConnectWS gostring
  | HandleTCPConnect gostring
  | HandleUDPAssociateWS
  | HandleUDPAssociate

definition ReplyAddrNotSupported :: bytes where "ReplyAddrNotSupported = [5, 8, 0, 1, 0, 0, 0, 0, 0, 0]"
definition ReplyCmdNotSupported :: bytes where "ReplyCmdNotSupported = [5, 7, 0, 1, 0, 0, 0, 0, 0, 0]"

definition check_credentials :: "socksServer \<Rightarrow> bytes option \<Rightarrow> bool" where
  "check_credentials s auth =
     (case auth of
        None \<Rightarrow> False
      | Some buf \<Rightarrow>
          if length buf < 3 \<or> buf ! 0 \<noteq> 1 then False
          else let n = length buf; ulen = unat (buf ! 1)
               in if n < 2 + ulen + 1 then False
                  else let user = take ulen (drop 2 buf); plen = unat (buf ! (2 + ulen))
                       in if n < 2 + ulen + 1 + plen then False
                          else user = s_Username s \<and> take plen (drop (2 + ulen + 1) buf) = s_Password s)"

definition handle_request :: "socksServer \<Rightarrow> bytes option \<Rightarrow> bytes \<times> socksDispatch" where
  "handle_request s req =
     (case req of
        None \<Rightarrow> ([], Dropped)
      | Some buf \<Rightarrow>
          if length buf < 7 then ([], Dropped)
          else if buf ! 1 = CmdConnect
          then let dest = ParseDestAddr buf
               in if dest = [] then (ReplyAddrNotSupported, Dropped)
                  else ([], if s_PerStreamWS s then HandleTCPConnectWSPerStream dest
                            else if s_WST s then HandleTCPConnectWS dest else HandleTCPConnect dest)
          else if buf ! 1 = CmdUDPAssociate
          then ([], if s_WST s then HandleUDPAssociateWS else HandleUDPAssociate)
          else (ReplyCmdNotSupported, Dropped))"

definition handleConn :: "socksServer \<Rightarrow> bytes option \<Rightarrow> bytes option \<Rightarrow> bytes option \<Rightarrow> bytes \<times> socksDispatch" where
  "handleConn s greeting auth req =
     (case greeting of
        None \<Rightarrow> ([], Dropped)
      | Some g \<Rightarrow>
          if length g < 2 \<or> g ! 0 \<noteq> 5 then ([], Dropped)
          else if s_Username s \<noteq> []
          then if \<not> check_credentials s auth then ([5, 2, 1, 1], Dropped)
               else (let (w, d) = handle_request s req in ([5, 2, 1, 0] @ w, d))
          else (let (w, d) = handle_request s req in ([5, 0] @ w, d)))"

lemma check_credentials_iff:
  "check_credentials s (Some buf) \<longleftrightarrow>
     (\<exists>rest. buf = [1, of_nat (length (s_Username s))] @ s_Username s @ [of_nat (length (s_Password s))] @ s_Password s @ rest) \<and>
     length (s_Username s) < 256 \<and> length (s_Password s) < 256"
  (is "?l \<longleftrightarrow> ?r")
proof
  assume ?l
  then have n: "3 \<le> length buf" "buf ! 0 = 1" by (auto simp: check_credentials_def split: if_splits)
  then obtain u xs where b: "buf = 1 # u # xs" by (cases buf; cases "tl buf") auto
  define ul where "ul = unat u"
  with \<open>?l\<close> n b have l: "ul < length xs" "take ul xs = s_Username s" "length xs \<ge> ul + 1 + unat (xs ! ul)"
    "take (unat (xs ! ul)) (drop (ul + 1) xs) = s_Password s"
    by (auto simp: check_credentials_def Let_def split: if_splits)
  have x: "xs = take ul xs @ [xs ! ul] @ take (unat (xs ! ul)) (drop (ul + 1) xs) @ drop (ul + 1 + unat (xs ! ul)) xs"
    using l(1,3) by (metis Cons_nth_drop_Suc Suc_eq_plus1 append_Cons append_Nil append_take_drop_id drop_drop add.commute)
  have "length (s_Username s) = ul" "length (s_Password s) = unat (xs ! ul)"
    using l(1,3) by (simp_all add: l(2,4) [symmetric])
  then show ?r using b x l(2,4) byte_nat_bound [of u] byte_nat_bound [of "xs ! ul"] by (auto simp: ul_def)
next
  assume ?r
  then show ?l by (auto simp: check_credentials_def Let_def nth_append unat_of_nat)
qed

lemma handle_request_dispatch:
  "snd (handle_request s req) \<noteq> Dropped \<longleftrightarrow>
     (\<exists>buf. req = Some buf \<and> 7 \<le> length buf \<and> (buf ! 1 = CmdConnect \<and> ParseDestAddr buf \<noteq> [] \<or> buf ! 1 = CmdUDPAssociate))"
  by (auto simp: handle_request_def Let_def socks_consts not_less split: option.splits)

text \<open>C37. Who gets through the negotiation.  With a user name configured, a connection reaches a relay
  handler exactly when it greets with version 5, its next message is the RFC 1929 encoding of
  the configured name and password (each shorter than 256 bytes), and its request is a
  CONNECT with a destination or a UDP ASSOCIATE.  Everything else is closed.
\<close>
theorem socks_negotiation_exact:
  assumes "s_Username s \<noteq> []"
  shows "snd (handleConn s greeting auth req) \<noteq> Dropped \<longleftrightarrow>
    (\<exists>g. greeting = Some g \<and> 2 \<le> length g \<and> g ! 0 = 5) \<and>
    (\<exists>rest. auth = Some ([1, of_nat (length (s_Username s))] @ s_Username s @ [of_nat (length (s_Password s))] @ s_Password s @ rest)) \<and>
    length (s_Username s) < 256 \<and> length (s_Password s) < 256 \<and>
    (\<exists>buf. req = Some buf \<and> 7 \<le> length buf \<and> (buf ! 1 = CmdConnect \<and> ParseDestAddr buf \<noteq> [] \<or> buf ! 1 = CmdUDPAssociate))"
proof -
  have "snd (handleConn s greeting auth req) \<noteq> Dropped \<longleftrightarrow>
    (\<exists>g. greeting = Some g \<and> 2 \<le> length g \<and> g ! 0 = 5) \<and> check_credentials s auth \<and> snd (handle_request s req) \<noteq> Dropped"
    using assms by (auto simp: handleConn_def not_less split: option.splits prod.splits)
  moreover have "check_credentials s auth \<longleftrightarrow>
    (\<exists>rest. auth = Some ([1, of_nat (length (s_Username s))] @ s_Username s @ [of_nat (length (s_Password s))] @ s_Password s @ rest)) \<and>
    length (s_Username s) < 256 \<and> length (s_Password s) < 256"
  proof (cases auth)
    case None then show ?thesis by (simp add: check_credentials_def)
  next
    case (Some buf) show ?thesis unfolding Some check_credentials_iff by simp
  qed
  ultimately show ?thesis unfolding handle_request_dispatch by blast
qed

theorem socks_negotiation_exact_witness:
  "snd (handleConn \<lparr>s_Username = [117], s_Password = [112], s_PerStreamWS = False, s_WST = True\<rparr> (Some [5, 1, 2])
     (Some [1, 1, 117, 1, 112]) (Some [5, 1, 0, 1, 8, 8, 8, 8, 0, 53])) \<noteq> Dropped"
proof -
  let ?s = "\<lparr>s_Username = [117], s_Password = [112], s_PerStreamWS = False, s_WST = True\<rparr>"
  have "ParseDestAddr [5, 1, 0, 1, 8, 8, 8, 8, 0, 53] \<noteq> []"
    by (simp add: ParseDestAddr_def addr_at_def socks_consts ip4_string_def)
  then show ?thesis using socks_negotiation_exact [of ?s "Some [5, 1, 2]" "Some [1, 1, 117, 1, 112]" "Some [5, 1, 0, 1, 8, 8, 8, 8, 0, 53]"]
    by (simp add: socks_consts)
qed

text \<open>
  \<open>io.ReadAtLeast\<close> asks for 7 bytes, three less than the shortest IPv4 request: a request whose
  first segment carries 7 to 9 bytes is refused although the rest is on its way.
\<close>

lemma fragmented_request_refused:
  assumes "length buf \<in> {7, 8, 9}" "buf ! 1 = CmdConnect" "buf ! 3 = AtypIPv4"
  shows "handle_request s (Some buf) = (ReplyAddrNotSupported, Dropped)"
  using assms by (auto simp: handle_request_def ParseDestAddr_def addr_at_def Let_def)

subsection \<open>Senders of a UDP association\<close>

record udpAddr =
  u_IP :: bytes
  u_Port :: int
  u_Zone :: gostring

definition maxUDPDestinations :: nat where "maxUDPDestinations = 512"

text \<open>
  One goroutine reads the association's socket, so the swap of \<open>pinnedIP\<close> succeeds exactly when
  the pointer is nil.  \<open>byDest\<close> is the map, newest entry first, one entry per key.
\<close>

record udpSenderSet =
  pinnedIP :: "bytes option"
  lastAddr :: "udpAddr option"
  byDest :: "(gostring \<times> udpAddr) list"

definition map_put :: "'k \<Rightarrow> 'v \<Rightarrow> ('k \<times> 'v) list \<Rightarrow> ('k \<times> 'v) list" where
  "map_put k v m = (k, v) # filter (\<lambda>e. fst e \<noteq> k) m"

definition udp_accept :: "udpAddr option \<Rightarrow> gostring \<Rightarrow> udpSenderSet \<Rightarrow> bool \<times> udpSenderSet" where
  "udp_accept src dest s =
     (case src of
        None \<Rightarrow> (False, s)
      | Some addr \<Rightarrow>
          let s1 = (if pinnedIP s = None then s\<lparr>pinnedIP := Some (u_IP addr)\<rparr> else s)
          in if pinnedIP s \<noteq> None \<and> \<not> ip_Equal (the (pinnedIP s)) (u_IP addr) then (False, s)
             else let s2 = s1\<lparr>lastAddr := Some addr\<rparr>
                  in (True, if dest = [] then s2
                            else let m = (if maxUDPDestinations \<le> length (byDest s2) then [] else byDest s2)
                                 in s2\<lparr>byDest := map_put dest addr m\<rparr>))"

definition replyTo :: "gostring \<Rightarrow> udpSenderSet \<Rightarrow> udpAddr option" where
  "replyTo src s =
     (if src \<noteq> [] then case map_of (byDest s) src of Some a \<Rightarrow> Some a | None \<Rightarrow> lastAddr s else lastAddr s)"

definition no_senders :: udpSenderSet where
  "no_senders = \<lparr>pinnedIP = None, lastAddr = None, byDest = []\<rparr>"

text \<open>The datagrams of an association in the order they are read.\<close>

definition udp_run :: "(udpAddr option \<times> gostring) list \<Rightarrow> udpSenderSet" where
  "udp_run ds = fold (\<lambda>(src, dest) s. snd (udp_accept src dest s)) ds no_senders"

definition senders :: "udpSenderSet \<Rightarrow> udpAddr set" where
  "senders s = set_option (lastAddr s) \<union> snd ` set (byDest s)"

definition senders_ok :: "udpAddr set \<Rightarrow> udpSenderSet \<Rightarrow> bool" where
  "senders_ok A s \<longleftrightarrow> senders s \<subseteq> A \<and> length (byDest s) \<le> maxUDPDestinations \<and>
     (pinnedIP s = None \<longrightarrow> senders s = {}) \<and>
     (\<forall>a \<in> senders s. ip_Equal (the (pinnedIP s)) (u_IP a))"

lemma ip_Equal_refl [simp]: "ip_Equal a a"
  by (simp add: ip_Equal_def)

lemma map_put_simps [simp]:
  "map_of (map_put k v m) k = Some v"
  "snd ` set (map_put k v m) \<subseteq> insert v (snd ` set m)"
  "length (map_put k v m) \<le> Suc (length m)"
  by (auto simp: map_put_def)

lemma senders_ok_accept:
  assumes "senders_ok A s" shows "senders_ok (A \<union> set_option src) (snd (udp_accept src dest s))"
proof (cases src)
  case None then show ?thesis using assms by (simp add: udp_accept_def)
next
  case (Some a)
  show ?thesis
  proof (cases "pinnedIP s \<noteq> None \<and> \<not> ip_Equal (the (pinnedIP s)) (u_IP a)")
    case True
    then show ?thesis using assms Some by (auto simp: udp_accept_def senders_ok_def)
  next
    case False
    define m where "m = (if maxUDPDestinations \<le> length (byDest s) then [] else byDest s)"
    define s' where "s' = snd (udp_accept src dest s)"
    have p: "pinnedIP s' = Some (case pinnedIP s of None \<Rightarrow> u_IP a | Some i \<Rightarrow> i)" and l: "lastAddr s' = Some a"
      and b: "byDest s' = (if dest = [] then byDest s else map_put dest a m)"
      using False by (auto simp: s'_def Some udp_accept_def m_def Let_def split: option.splits)
    have m: "set m \<subseteq> set (byDest s)" "length m < maxUDPDestinations" by (auto simp: m_def maxUDPDestinations_def)
    then have sub: "senders s' \<subseteq> insert a (senders s)"
      by (auto simp: senders_def l b map_put_def image_iff split: if_splits)
    moreover have "length (map_put dest a m) \<le> maxUDPDestinations"
      using m(2) by (intro order_trans [OF map_put_simps(3)]) simp
    then have "length (byDest s') \<le> maxUDPDestinations" using assms by (auto simp: b senders_ok_def)
    moreover have "ip_Equal (the (pinnedIP s')) (u_IP c)" if "c \<in> insert a (senders s)" for c
      using that False assms p by (cases "pinnedIP s") (auto simp: senders_ok_def)
    ultimately show ?thesis using assms p Some unfolding s'_def [symmetric] senders_ok_def by auto
  qed
qed

lemma senders_ok_run: "senders_ok (\<Union> (set_option ` fst ` set ds)) (udp_run ds)"
proof (induction ds rule: rev_induct)
  case Nil then show ?case by (simp add: udp_run_def no_senders_def senders_ok_def senders_def)
next
  case (snoc d ds)
  obtain src dest where d: "d = (src, dest)" by fastforce
  have "udp_run (ds @ [d]) = snd (udp_accept src dest (udp_run ds))" by (simp add: udp_run_def d)
  then show ?case using senders_ok_accept [OF snoc, of src dest] by (simp add: d Un_commute)
qed

lemma replyTo_sender: "replyTo x s = Some a \<Longrightarrow> a \<in> senders s"
  by (auto simp: replyTo_def senders_def intro: rev_image_eqI dest!: map_of_SomeD split: if_splits option.splits)

text \<open>Replies of a UDP association.  Whatever datagrams arrive, a reply only ever goes to an
  address that sent one and has the pinned IP of the association; the table never exceeds
  its bound; and right after a datagram is accepted for a destination, a reply from that
  destination goes to its sender.
\<close>
theorem udp_replies:
  "(\<forall>x a. replyTo x (udp_run ds) = Some a \<longrightarrow>
      (\<exists>d. (Some a, d) \<in> set ds) \<and> ip_Equal (the (pinnedIP (udp_run ds))) (u_IP a)) \<and>
   length (byDest (udp_run ds)) \<le> maxUDPDestinations \<and>
   (fst (udp_accept (Some a) dest (udp_run ds)) \<longrightarrow>
      replyTo dest (udp_run (ds @ [(Some a, dest)])) = Some a)"
proof (intro conjI allI impI)
  note ok = senders_ok_run [of ds]
  show "length (byDest (udp_run ds)) \<le> maxUDPDestinations" using ok by (simp add: senders_ok_def)
  fix x b assume "replyTo x (udp_run ds) = Some b"
  then have "b \<in> senders (udp_run ds)" by (rule replyTo_sender)
  then have "b \<in> \<Union> (set_option ` fst ` set ds)" "ip_Equal (the (pinnedIP (udp_run ds))) (u_IP b)"
    using ok by (auto simp: senders_ok_def)
  then show "\<exists>d. (Some b, d) \<in> set ds" "ip_Equal (the (pinnedIP (udp_run ds))) (u_IP b)"
    by force+
next
  assume "fst (udp_accept (Some a) dest (udp_run ds))"
  then show "replyTo dest (udp_run (ds @ [(Some a, dest)])) = Some a"
    by (auto simp: udp_run_def udp_accept_def replyTo_def Let_def split: if_splits option.splits)
qed

theorem udp_replies_witness:
  "let a = \<lparr>u_IP = [127, 0, 0, 1], u_Port = 4000, u_Zone = []\<rparr>; b = \<lparr>u_IP = [127, 0, 0, 1], u_Port = 4001, u_Zone = []\<rparr>
   in replyTo [57] (udp_run [(Some a, [56]), (Some b, [57])]) = Some b \<and> replyTo [56] (udp_run [(Some a, [56]), (Some b, [57])]) = Some a"
proof -
  let ?a = "\<lparr>u_IP = [127, 0, 0, 1], u_Port = 4000, u_Zone = []\<rparr>" and ?b = "\<lparr>u_IP = [127, 0, 0, 1], u_Port = 4001, u_Zone = []\<rparr>"
  have "fst (udp_accept (Some ?b) [57] (udp_run [(Some ?a, [56])]))"
    by (simp add: udp_run_def udp_accept_def no_senders_def)
  then have "replyTo [57] (udp_run ([(Some ?a, [56])] @ [(Some ?b, [57])])) = Some ?b"
    using udp_replies [of "[(Some ?a, [56])]" ?b "[57]"] by blast
  then show ?thesis by (simp add: udp_run_def udp_accept_def no_senders_def replyTo_def map_put_def maxUDPDestinations_def)
qed

text \<open>
  The table is cleared when a datagram finds it at its bound, also when its destination already
  has an entry and nothing would grow: with exactly 512 destinations in use every datagram
  empties the table.
\<close>

lemma full_table_cleared:
  assumes "length (byDest s) = maxUDPDestinations" "fst (udp_accept (Some a) dest s)" "dest \<noteq> []"
  shows "byDest (snd (udp_accept (Some a) dest s)) = [(dest, a)]"
  using assms by (auto simp: udp_accept_def map_put_def Let_def split: if_splits)

end
