(* ===== verification/Ws_Writer.thy ===== *)
theory Ws_Writer
  imports Prelude
begin

section \<open>The asynchronous WebSocket writer\<close>

text \<open>
  Models \<open>src/core/wsasyncwriter.go\<close>: two bounded channels, control and data, the goroutine \<open>Run\<close>
  that drains them onto one connection, and the calls that fill them.  A call to an enqueue
  function takes two steps, its test of \<open>done\<close> and its select, and other goroutines run between
  them: \<open>pend\<close> holds the calls that have passed the test.  \<open>Run\<close> is one step per channel
  operation; where Go's select has several ready cases the argument \<open>sel\<close> picks one.  The
  connection is the list \<open>wire\<close> of frames that were written; whether a write succeeds is an
  argument.  \<open>accepted\<close> logs the calls that returned nil and \<open>failed\<close> the frame of the write
  that failed.
\<close>

subsection \<open>State\<close>

datatype wchan = ChControl | ChOutbound

record wsOutboundMsg =
  w_msgType :: int
  w_data :: bytes

datatype runpc = Phase1 | WaitBoth | DrainControl | DrainData | RunExit bool   \<comment> \<open>the flag: Run returned an error\<close>

record wsAsyncWriter =
  ch_control :: "wsOutboundMsg list"
  ch_outbound :: "wsOutboundMsg list"
  cap_outbound :: nat
  w_done :: bool
  w_pc :: runpc
  pend :: "(wchan \<times> wsOutboundMsg) list"
  accepted :: "(wchan \<times> wsOutboundMsg) list"
  wire :: "(wchan \<times> wsOutboundMsg) list"
  failed :: "(wchan \<times> wsOutboundMsg) list"

definition NewWSAsyncWriter :: "int \<Rightarrow> wsAsyncWriter" where
  "NewWSAsyncWriter bufSize =
     \<lparr>ch_control = [], ch_outbound = [], cap_outbound = nat (if bufSize < 1 then 1 else bufSize), w_done = False,
      w_pc = Phase1, pend = [], accepted = [], wire = [], failed = []\<rparr>"

subsection \<open>Producers\<close>

definition queue :: "wchan \<Rightarrow> wsAsyncWriter \<Rightarrow> wsOutboundMsg list" where
  "queue k w = (case k of ChControl \<Rightarrow> ch_control w | ChOutbound \<Rightarrow> ch_outbound w)"

definition chan_cap :: "wchan \<Rightarrow> wsAsyncWriter \<Rightarrow> nat" where
  "chan_cap k w = (case k of ChControl \<Rightarrow> 64 | ChOutbound \<Rightarrow> cap_outbound w)"

definition push_chan :: "wchan \<Rightarrow> wsOutboundMsg \<Rightarrow> wsAsyncWriter \<Rightarrow> wsAsyncWriter" where
  "push_chan k m w =
     (case k of
        ChControl \<Rightarrow> w\<lparr>ch_control := ch_control w @ [m], accepted := accepted w @ [(k, m)]\<rparr>
      | ChOutbound \<Rightarrow> w\<lparr>ch_outbound := ch_outbound w @ [m], accepted := accepted w @ [(k, m)]\<rparr>)"

text \<open>
  The first select of \<open>Enqueue\<close>, \<open>EnqueueControl\<close> and \<open>TryEnqueueControl\<close>: a closed writer
  refuses the call, which then has no further step.
\<close>

definition enqueue_check :: "wchan \<Rightarrow> wsOutboundMsg \<Rightarrow> wsAsyncWriter \<Rightarrow> wsAsyncWriter" where
  "enqueue_check k m w = (if w_done w then w else w\<lparr>pend := (k, m) # pend w\<rparr>)"

text \<open>
  The second select of \<open>Enqueue\<close> and \<open>EnqueueControl\<close>: it blocks (\<open>None\<close>) while the channel is full
  and the writer open; with room and a closed writer both cases are ready and \<open>closed\<close> chooses.
\<close>

definition enqueue_send :: "bool \<Rightarrow> wchan \<Rightarrow> wsOutboundMsg \<Rightarrow> wsAsyncWriter \<Rightarrow> wsAsyncWriter option" where
  "enqueue_send closed k m w =
     (if (k, m) \<notin> set (pend w) then None
      else let w' = w\<lparr>pend := remove1 (k, m) (pend w)\<rparr>
           in if closed then (if w_done w then Some w' else None)
              else if length (queue k w) < chan_cap k w then Some (push_chan k m w') else None)"

text \<open>The second select of \<open>TryEnqueueControl\<close>, which has a default case instead of \<open>done\<close>.\<close>

definition try_send :: "wsOutboundMsg \<Rightarrow> wsAsyncWriter \<Rightarrow> wsAsyncWriter option" where
  "try_send m w =
     (if (ChControl, m) \<notin> set (pend w) then None
      else let w' = w\<lparr>pend := remove1 (ChControl, m) (pend w)\<rparr>
           in Some (if length (ch_control w) < 64 then push_chan ChControl m w' else w'))"

definition CloseWriter :: "wsAsyncWriter \<Rightarrow> wsAsyncWriter" where
  "CloseWriter w = w\<lparr>w_done := True\<rparr>"

subsection \<open>The writer goroutine\<close>

text \<open>
  \<open>writeFrame\<close> and the error branch after it: a failed write closes \<open>done\<close> (a second close is
  skipped by \<open>closeOnce\<close>) and ends \<open>Run\<close>; a good one goes on at \<open>nxt\<close>.
\<close>

definition writeFrame :: "bool \<Rightarrow> wchan \<Rightarrow> wsOutboundMsg \<Rightarrow> runpc \<Rightarrow> wsAsyncWriter \<Rightarrow> wsAsyncWriter" where
  "writeFrame ok k m nxt w =
     (if ok then w\<lparr>wire := wire w @ [(k, m)], w_pc := nxt\<rparr>
      else w\<lparr>failed := [(k, m)], w_done := True, w_pc := RunExit True\<rparr>)"

datatype wsel = SelControl | SelOutbound | SelDone

text \<open>
  \<open>drainRemaining\<close> is reached with \<open>done\<close> closed.  The branch of \<open>Run\<close> for a closed data channel is
  dead: nothing closes that channel.
\<close>

definition drainRemaining :: "bool \<Rightarrow> wsAsyncWriter \<Rightarrow> wsAsyncWriter option" where
  "drainRemaining ok w =
     (case w_pc w of
        DrainControl \<Rightarrow>
          Some (case ch_control w of
                  [] \<Rightarrow> w\<lparr>w_pc := DrainData\<rparr>
                | m # ms \<Rightarrow> writeFrame ok ChControl m DrainControl (w\<lparr>ch_control := ms\<rparr>))
      | DrainData \<Rightarrow>
          Some (case ch_outbound w of
                  [] \<Rightarrow> w\<lparr>w_pc := RunExit False\<rparr>
                | m # ms \<Rightarrow> writeFrame ok ChOutbound m DrainData (w\<lparr>ch_outbound := ms\<rparr>))
      | _ \<Rightarrow> None)"

definition RunStep :: "wsel \<Rightarrow> bool \<Rightarrow> wsAsyncWriter \<Rightarrow> wsAsyncWriter option" where
  "RunStep sel ok w =
     (case w_pc w of
        Phase1 \<Rightarrow>
          Some (case ch_control w of
                  [] \<Rightarrow> w\<lparr>w_pc := WaitBoth\<rparr>
                | m # ms \<Rightarrow> writeFrame ok ChControl m Phase1 (w\<lparr>ch_control := ms\<rparr>))
      | WaitBoth \<Rightarrow>
          (case sel of
             SelControl \<Rightarrow>
               (case ch_control w of [] \<Rightarrow> None
                | m # ms \<Rightarrow> Some (writeFrame ok ChControl m Phase1 (w\<lparr>ch_control := ms\<rparr>)))
           | SelOutbound \<Rightarrow>
               (case ch_outbound w of [] \<Rightarrow> None
                | m # ms \<Rightarrow> Some (writeFrame ok ChOutbound m Phase1 (w\<lparr>ch_outbound := ms\<rparr>)))
           | SelDone \<Rightarrow> if w_done w then Some (w\<lparr>w_pc := DrainControl\<rparr>) else None)
      | RunExit e \<Rightarrow> None
      | _ \<Rightarrow> drainRemaining ok w)"

subsection \<open>Runs\<close>

datatype wact =
    ACheck wchan wsOutboundMsg
  | ASend bool wchan wsOutboundMsg
  | ATry wsOutboundMsg
  | AClose
  | ARun wsel bool

fun wstep :: "wact \<Rightarrow> wsAsyncWriter \<Rightarrow> wsAsyncWriter option" where
  "wstep (ACheck k m) w = Some (enqueue_check k m w)"
| "wstep (ASend c k m) w = enqueue_send c k m w"
| "wstep (ATry m) w = try_send m w"
| "wstep AClose w = Some (CloseWriter w)"
| "wstep (ARun sel ok) w = RunStep sel ok w"

fun wsteps :: "wact list \<Rightarrow> wsAsyncWriter \<Rightarrow> wsAsyncWriter option" where
  "wsteps [] w = Some w"
| "wsteps (a # as) w = (case wstep a w of None \<Rightarrow> None | Some w' \<Rightarrow> wsteps as w')"

inductive wreach :: "wsAsyncWriter \<Rightarrow> bool" where
  init: "wreach (NewWSAsyncWriter n)"
| step: "wreach w \<Longrightarrow> wstep a w = Some w' \<Longrightarrow> wreach w'"

subsection \<open>Conservation of frames\<close>

definition frames :: "wchan \<Rightarrow> (wchan \<times> wsOutboundMsg) list \<Rightarrow> wsOutboundMsg list" where
  "frames k xs = map snd (filter (\<lambda>x. fst x = k) xs)"

lemma frames_simps [simp]:
  "frames k [] = []"
  "frames k (xs @ ys) = frames k xs @ frames k ys"
  "frames k ((j, m) # xs) = (if j = k then m # frames k xs else frames k xs)"
  by (simp_all add: frames_def)

definition draining :: "runpc \<Rightarrow> bool" where
  "draining p = (case p of Phase1 \<Rightarrow> False | WaitBoth \<Rightarrow> False | _ \<Rightarrow> True)"

definition winv :: "wsAsyncWriter \<Rightarrow> bool" where
  "winv w \<longleftrightarrow> (\<forall>k. frames k (accepted w) = frames k (wire w) @ frames k (failed w) @ queue k w \<and>
                 length (queue k w) \<le> chan_cap k w) \<and>
     (failed w \<noteq> [] \<longrightarrow> w_pc w = RunExit True) \<and> (draining (w_pc w) \<longrightarrow> w_done w)"

named_theorems writer_defs

lemmas [writer_defs] = queue_def chan_cap_def push_chan_def enqueue_check_def enqueue_send_def try_send_def
  CloseWriter_def writeFrame_def drainRemaining_def RunStep_def draining_def

lemma all_wchan: "(\<forall>k. P k) \<longleftrightarrow> P ChControl \<and> P ChOutbound"
  by (metis wchan.exhaust)

lemma winv_init: "winv (NewWSAsyncWriter n)"
  by (simp add: winv_def NewWSAsyncWriter_def queue_def draining_def split: wchan.split)

lemma winv_step:
  assumes "winv w" "wstep a w = Some w'" shows "winv w'"
proof (cases a)
  case (ARun sel ok)
  have f: "failed w = []" if "w_pc w \<noteq> RunExit True" using assms(1) that by (auto simp: winv_def)
  show ?thesis
    using assms f unfolding ARun winv_def all_wchan
    by (auto simp: writer_defs split: runpc.splits list.splits wsel.splits if_splits)
qed (use assms in \<open>auto simp: winv_def all_wchan writer_defs Let_def split: if_splits wchan.splits\<close>)

lemma wreach_inv: "wreach w \<Longrightarrow> winv w"
  by (induction rule: wreach.induct) (auto intro: winv_init winv_step)

lemma wsteps_reach: "wreach w \<Longrightarrow> wsteps as w = Some w' \<Longrightarrow> wreach w'"
  by (induction as arbitrary: w) (auto split: option.splits intro: wreach.step)

subsection \<open>The loop ends after a close\<close>

text \<open>Steps the loop can still make when nobody enqueues: each frame costs at most a write and a return to phase 1.\<close>

fun pc_rank :: "runpc \<Rightarrow> nat" where
  "pc_rank Phase1 = 4" | "pc_rank WaitBoth = 3" | "pc_rank DrainControl = 2" | "pc_rank DrainData = 1" | "pc_rank (RunExit e) = 0"

definition loop_bound :: "wsAsyncWriter \<Rightarrow> nat" where
  "loop_bound w = 2 * (length (ch_control w) + length (ch_outbound w)) + pc_rank (w_pc w)"

lemma RunStep_bound: "RunStep sel ok w = Some w' \<Longrightarrow> loop_bound w' < loop_bound w"
  by (auto simp: writer_defs loop_bound_def split: runpc.splits list.splits wsel.splits if_splits)

lemma loop_run_bound: "wsteps (map (\<lambda>(s, ok). ARun s ok) xs) w = Some w' \<Longrightarrow> length xs + loop_bound w' \<le> loop_bound w"
proof (induction xs arbitrary: w)
  case (Cons x xs)
  obtain s ok where x: "x = (s, ok)" by fastforce
  obtain v where v: "RunStep s ok w = Some v" "wsteps (map (\<lambda>(s, ok). ARun s ok) xs) v = Some w'"
    using Cons.prems by (auto simp: x split: option.splits)
  show ?case using Cons.IH [OF v(2)] RunStep_bound [OF v(1)] by simp
qed simp

lemma RunStep_keeps: "RunStep s ok w = Some w' \<Longrightarrow> accepted w' = accepted w \<and> (w_done w \<longrightarrow> w_done w') \<and> pend w' = pend w"
  by (auto simp: writer_defs split: runpc.splits list.splits wsel.splits if_splits)

lemma loop_run_keeps: "wsteps (map (\<lambda>(s, ok). ARun s ok) xs) w = Some w' \<Longrightarrow> accepted w' = accepted w \<and> (w_done w \<longrightarrow> w_done w')"
proof (induction xs arbitrary: w)
  case (Cons x xs)
  then show ?case by (cases x) (auto split: option.splits dest: RunStep_keeps)
qed simp

lemma RunStep_progress: "w_done w \<Longrightarrow> (\<forall>e. w_pc w \<noteq> RunExit e) \<Longrightarrow> \<exists>s w'. RunStep s ok w = Some w'"
  by (cases "w_pc w") (auto simp: RunStep_def drainRemaining_def intro!: exI [of _ SelDone])

definition drained :: "wsAsyncWriter \<Rightarrow> bool" where
  "drained w \<longleftrightarrow> (w_pc w = DrainData \<longrightarrow> ch_control w = []) \<and>
     (w_pc w = RunExit False \<longrightarrow> ch_control w = [] \<and> ch_outbound w = [])"

lemma RunStep_drained: "drained w \<Longrightarrow> RunStep s ok w = Some w' \<Longrightarrow> drained w'"
  by (auto simp: writer_defs drained_def split: runpc.splits list.splits wsel.splits if_splits)

lemma loop_run_drained: "drained w \<Longrightarrow> wsteps (map (\<lambda>(s, ok). ARun s ok) xs) w = Some w' \<Longrightarrow> drained w'"
proof (induction xs arbitrary: w)
  case (Cons x xs)
  then show ?case by (cases x) (auto split: option.splits dest: RunStep_drained)
qed simp

text \<open>C10. Close flushes.  When the writer is closed, no enqueue call is between its two steps and \<open>Run\<close>
  has not begun its final drain, then \<open>Run\<close> alone makes only boundedly many steps whatever the
  select picks and whichever writes fail, it is never stuck before it returns, and when it
  returns nil the frames on the wire are, per channel and in order, all the frames whose
  enqueue call returned nil.
\<close>
theorem close_flushes:
  assumes "wreach w" "w_done w" "pend w = []" "\<not> draining (w_pc w)"
    and "wsteps (map (\<lambda>(s, ok). ARun s ok) xs) w = Some w'"
  shows "length xs \<le> 2 * (length (ch_control w) + length (ch_outbound w)) + 4 \<and>
    ((\<forall>e. w_pc w' \<noteq> RunExit e) \<longrightarrow> (\<exists>s v. RunStep s ok w' = Some v)) \<and>
    (w_pc w' = RunExit False \<longrightarrow> (\<forall>k. frames k (wire w') = frames k (accepted w)))"
proof (intro conjI impI allI)
  have "pc_rank (w_pc w) \<le> 4" by (cases "w_pc w") auto
  then show "length xs \<le> 2 * (length (ch_control w) + length (ch_outbound w)) + 4"
    using loop_run_bound [OF assms(5)] by (simp add: loop_bound_def)
next
  assume "\<forall>e. w_pc w' \<noteq> RunExit e"
  then show "\<exists>s v. RunStep s ok w' = Some v"
    using loop_run_keeps [OF assms(5)] assms(2) by (intro RunStep_progress) auto
next
  fix k assume x: "w_pc w' = RunExit False"
  have "drained w" using assms(4) by (auto simp: drained_def draining_def)
  then have "drained w'" using assms(5) by (rule loop_run_drained)
  then have "queue k w' = []" using x by (cases k) (auto simp: drained_def queue_def)
  moreover have "winv w'" using assms(1,5) by (blast intro: wreach_inv wsteps_reach)
  ultimately show "frames k (wire w') = frames k (accepted w)"
    using x loop_run_keeps [OF assms(5)] by (auto simp: winv_def)
qed

definition ping :: wsOutboundMsg where
  "ping = \<lparr>w_msgType = 2, w_data = [1]\<rparr>"

theorem close_flushes_witness:
  "\<exists>w w'. wreach w \<and> wsteps (map (\<lambda>(s, ok). ARun s ok) [(SelDone, True), (SelOutbound, True), (SelDone, True), (SelDone, True), (SelDone, True), (SelDone, True)]) w = Some w' \<and>
     w_pc w' = RunExit False \<and> frames ChOutbound (wire w') = [ping] \<and> frames ChOutbound (accepted w) = [ping]"
proof -
  let ?as = "[ACheck ChOutbound ping, ASend False ChOutbound ping, AClose]"
  let ?xs = "[(SelDone, True), (SelOutbound, True), (SelDone, True), (SelDone, True), (SelDone, True), (SelDone, True)]"
  obtain w where w: "wsteps ?as (NewWSAsyncWriter 4) = Some w" "w_done w" "pend w = []" "w_pc w = Phase1" "accepted w = [(ChOutbound, ping)]"
    "ch_control w = []" "ch_outbound w = [ping]"
    by (simp add: NewWSAsyncWriter_def writer_defs)
  have r: "wreach w" using wreach.init w(1) by (rule wsteps_reach)
  obtain w' where w': "wsteps (map (\<lambda>(s, ok). ARun s ok) ?xs) w = Some w'" "w_pc w' = RunExit False"
    using w by (simp add: writer_defs)
  have "frames ChOutbound (wire w') = frames ChOutbound (accepted w)"
    using close_flushes [OF r w(2,3) _ w'(1)] w'(2) w(4) by (simp add: draining_def)
  then show ?thesis using r w(5) w' by auto
qed

subsection \<open>Priority of control frames\<close>

text \<open>Along the actions \<open>as\<close> the control channel is never empty, the last state included.\<close>

fun control_waiting :: "wact list \<Rightarrow> wsAsyncWriter \<Rightarrow> bool" where
  "control_waiting [] w = (ch_control w \<noteq> [])"
| "control_waiting (a # as) w = (ch_control w \<noteq> [] \<and> (case wstep a w of None \<Rightarrow> True | Some w' \<Rightarrow> control_waiting as w'))"

lemma wstep_done: "wstep a w = Some w' \<Longrightarrow> w_done w \<Longrightarrow> w_done w'"
  by (cases a) (auto simp: writer_defs Let_def split: runpc.splits list.splits wsel.splits if_splits wchan.splits)

lemma wsteps_done: "wsteps as w = Some w' \<Longrightarrow> w_done w \<Longrightarrow> w_done w'"
  by (induction as arbitrary: w) (auto split: option.splits dest: wstep_done)

text \<open>A data frame can pass a waiting control frame only out of the select, which the loop leaves for phase 1.\<close>

definition may_overtake :: "wsAsyncWriter \<Rightarrow> nat" where
  "may_overtake w = (if w_pc w = WaitBoth then 1 else 0)"

lemma wstep_overtake:
  assumes "wstep a w = Some w'" "ch_control w \<noteq> []" "\<not> draining (w_pc w)"
  shows "length (frames ChOutbound (wire w')) + may_overtake w' \<le> length (frames ChOutbound (wire w)) + may_overtake w"
  using assms
  by (cases a) (auto simp: writer_defs may_overtake_def Let_def split: runpc.splits list.splits wsel.splits if_splits wchan.splits)

lemma wsteps_overtake:
  assumes "wreach w" "control_waiting as w" "wsteps as w = Some w'" "\<not> w_done w'"
  shows "length (frames ChOutbound (wire w')) + may_overtake w' \<le> length (frames ChOutbound (wire w)) + may_overtake w"
  using assms
proof (induction as arbitrary: w)
  case (Cons a as)
  obtain v where v: "wstep a w = Some v" "wsteps as v = Some w'" using Cons.prems(3) by (auto split: option.splits)
  have "\<not> w_done w" using Cons.prems(3,4) wsteps_done by blast
  then have "\<not> draining (w_pc w)" using wreach_inv [OF Cons.prems(1)] by (auto simp: winv_def)
  moreover have "ch_control w \<noteq> []" "control_waiting as v" using Cons.prems(2) v(1) by auto
  ultimately show ?case
    using Cons.IH [OF wreach.step [OF Cons.prems(1) v(1)] _ v(2) Cons.prems(4)] wstep_overtake [OF v(1)] by fastforce
qed simp

text \<open>Control before data.  In every run of producers and \<open>Run\<close> in which the writer stays open and
  the control channel never becomes empty, at most one data frame is written: sustained data
  traffic delays a control frame by one frame.  Frames of the same channel never change order.
\<close>
theorem control_before_data:
  assumes "wreach w" "control_waiting as w" "wsteps as w = Some w'" "\<not> w_done w'"
  shows "length (frames ChOutbound (wire w')) \<le> length (frames ChOutbound (wire w)) + 1 \<and>
    (\<forall>k. frames k (accepted w') = frames k (wire w') @ queue k w')"
proof -
  have "failed w' = [] \<and> winv w'"
    using wreach_inv [OF wsteps_reach [OF assms(1,3)]] assms(4) by (auto simp: winv_def draining_def)
  moreover have "may_overtake w \<le> 1" by (simp add: may_overtake_def)
  ultimately show ?thesis using wsteps_overtake [OF assms] by (auto simp: winv_def)
qed

theorem control_before_data_witness:
  "\<exists>w w'. wreach w \<and> w_pc w = WaitBoth \<and> ch_control w = [ping] \<and> length (frames ChOutbound (wire w)) = 0 \<and>
     wsteps [ARun SelOutbound True] w = Some w' \<and> length (frames ChOutbound (wire w')) = 1 \<and>
     length (frames ChOutbound (wire w')) \<le> length (frames ChOutbound (wire w)) + 1"
proof -
  let ?as = "[ARun SelDone True, ACheck ChOutbound ping, ASend False ChOutbound ping, ACheck ChOutbound ping, ASend False ChOutbound ping,
    ACheck ChControl ping, ASend False ChControl ping]"
  obtain w where w: "wsteps ?as (NewWSAsyncWriter 4) = Some w" "w_pc w = WaitBoth" "ch_control w = [ping]" "wire w = []" "\<not> w_done w"
    "ch_outbound w = [ping, ping]"
    by (simp add: NewWSAsyncWriter_def writer_defs)
  have r: "wreach w" using wreach.init w(1) by (rule wsteps_reach)
  obtain w' where w': "wsteps [ARun SelOutbound True] w = Some w'" "\<not> w_done w'" "frames ChOutbound (wire w') = [ping]" "ch_control w' = [ping]"
    using w by (simp add: writer_defs)
  have "control_waiting [ARun SelOutbound True] w" using w w'(1,4) by (auto split: option.splits)
  then have "length (frames ChOutbound (wire w')) \<le> length (frames ChOutbound (wire w)) + 1"
    using control_before_data [OF r _ w'(1,2)] by simp
  then show ?thesis using r w w' by auto
qed

lemma exited_step: "w_pc v = RunExit False \<Longrightarrow> wstep a v = Some v' \<Longrightarrow> wire v' = wire v \<and> w_pc v' = RunExit False"
  by (cases a) (auto simp: writer_defs Let_def split: if_splits wchan.splits)

lemma exited_wire: "w_pc v = RunExit False \<Longrightarrow> wsteps as v = Some v' \<Longrightarrow> wire v' = wire v"
proof (induction as arbitrary: v)
  case (Cons a as)
  then obtain u where "wstep a v = Some u" "wsteps as u = Some v'" by (auto split: option.splits)
  then show ?case using Cons.IH exited_step [OF Cons.prems(1)] by metis
qed simp

text \<open>An accepted frame can be lost on a graceful close.  A call that has passed its test of \<open>done\<close>
  before \<open>Close\<close> may make its second step after the final drain; its select then has two ready
  cases, and when it picks the channel the call returns nil, yet no step of the writer ever
  writes the frame.
\<close>
theorem accepted_after_drain_lost:
  "\<exists>w. wsteps [ACheck ChOutbound ping, AClose, ARun SelDone True, ARun SelDone True, ARun SelDone True, ARun SelDone True,
       ASend False ChOutbound ping] (NewWSAsyncWriter 4) = Some w \<and>
     accepted w = [(ChOutbound, ping)] \<and> wire w = [] \<and> w_pc w = RunExit False \<and>
     (\<forall>as. map_option wire (wsteps as w) \<in> {None, Some []})"
proof -
  obtain w where w: "wsteps [ACheck ChOutbound ping, AClose, ARun SelDone True, ARun SelDone True, ARun SelDone True, ARun SelDone True,
       ASend False ChOutbound ping] (NewWSAsyncWriter 4) = Some w" "accepted w = [(ChOutbound, ping)]" "wire w = []" "w_pc w = RunExit False"
    by (simp add: NewWSAsyncWriter_def writer_defs)
  have "map_option wire (wsteps as w) \<in> {None, Some []}" for as
    using exited_wire [OF w(4), of as] w(3) by (cases "wsteps as w") auto
  then show ?thesis using w by blast
qed

end
