(* ===== verification/Udp_Relay.thy ===== *)
theory Udp_Relay
  imports Prelude
begin

section \<open>The server's UDP relay\<close>

text \<open>
  Models \<open>src/server/udp_relay.go\<close>: the table of flows keyed by session and stream, each with its
  connected socket and read loop.  A flow is an object with an address, because the read loop
  holds its flow while the table entry may be replaced.  \<open>Send\<close> is two critical sections with
  a dial between them (\<open>send_existing\<close> and \<open>send_insert\<close>), and every operation is a step that
  other goroutines may run between.  A callback is the data its closure captures: the session
  and stream of the call and the address that labels the answers.  Sockets record what was
  written to them; a delivered answer is an event.
\<close>

subsection \<open>State\<close>

type_synonym flowKey = "u32 \<times> u16"

record receiver =
  cb_session :: u32
  cb_stream :: u16
  cb_label :: gostring

record udpFlow =
  f_key :: flowKey                 \<comment> \<open>the key the read loop was started with\<close>
  f_target :: gostring             \<comment> \<open>the address the socket is connected to\<close>
  f_open :: bool
  f_sent :: "bytes list"
  f_lastActive :: instant
  f_onReceive :: receiver
  f_respBytes :: int

record udpRelay =
  flows :: "(flowKey \<times> nat) list"
  flow_heap :: "nat \<Rightarrow> udpFlow option"
  flow_next :: nat
  u_timeout :: int
  maxResp :: int

definition defaultUDPRespCap :: int where "defaultUDPRespCap = 0"

definition NewUDPRelay :: "int \<Rightarrow> udpRelay" where
  "NewUDPRelay timeout =
     \<lparr>flows = [], flow_heap = Map.empty, flow_next = 0, u_timeout = timeout, maxResp = defaultUDPRespCap\<rparr>"

definition SetMaxResp :: "int \<Rightarrow> udpRelay \<Rightarrow> udpRelay" where
  "SetMaxResp n r = r\<lparr>maxResp := n\<rparr>"

definition upd_flow :: "nat \<Rightarrow> (udpFlow \<Rightarrow> udpFlow) \<Rightarrow> udpRelay \<Rightarrow> udpRelay" where
  "upd_flow a f r = (case flow_heap r a of None \<Rightarrow> r | Some fl \<Rightarrow> r\<lparr>flow_heap := (flow_heap r)(a \<mapsto> f fl)\<rparr>)"

text \<open>A write on a closed socket is an error and sends nothing.\<close>

definition sock_write :: "bytes \<Rightarrow> udpFlow \<Rightarrow> udpFlow" where
  "sock_write d fl = (if f_open fl then fl\<lparr>f_sent := f_sent fl @ [d]\<rparr> else fl)"

subsection \<open>Send\<close>

text \<open>
  The first critical section and the write after it; \<open>None\<close> means there is no flow yet and the
  caller resolves and dials.
\<close>

definition send_existing :: "instant \<Rightarrow> flowKey \<Rightarrow> bytes \<Rightarrow> receiver \<Rightarrow> udpRelay \<Rightarrow> udpRelay option" where
  "send_existing now key d cb r =
     (case map_of (flows r) key of
        None \<Rightarrow> None
      | Some a \<Rightarrow> Some (upd_flow a (\<lambda>fl. sock_write d (fl\<lparr>f_lastActive := now, f_onReceive := cb\<rparr>)) r))"

text \<open>
  The second critical section, with the dialled socket: a flow that another call has put there
  meanwhile is used and the new socket closed, otherwise the new flow is entered and its read
  loop started.
\<close>

definition send_insert :: "instant \<Rightarrow> flowKey \<Rightarrow> gostring \<Rightarrow> bytes \<Rightarrow> receiver \<Rightarrow> udpRelay \<Rightarrow> udpRelay" where
  "send_insert now key target d cb r =
     (case map_of (flows r) key of
        Some a \<Rightarrow> upd_flow a (\<lambda>fl. sock_write d (fl\<lparr>f_lastActive := now, f_onReceive := cb\<rparr>)) r
      | None \<Rightarrow>
          let fl = \<lparr>f_key = key, f_target = target, f_open = True, f_sent = [d], f_lastActive = now,
                    f_onReceive = cb, f_respBytes = 0\<rparr>
          in r\<lparr>flows := (key, flow_next r) # flows r, flow_heap := (flow_heap r)(flow_next r \<mapsto> fl),
               flow_next := Suc (flow_next r)\<rparr>)"

definition UDPSend :: "instant \<Rightarrow> flowKey \<Rightarrow> gostring \<Rightarrow> bytes \<Rightarrow> receiver \<Rightarrow> udpRelay \<Rightarrow> udpRelay" where
  "UDPSend now key target d cb r =
     (case send_existing now key d cb r of Some r' \<Rightarrow> r' | None \<Rightarrow> send_insert now key target d cb r)"

subsection \<open>Read loop and removal\<close>

text \<open>One packet of the read loop: the delivered answer, if the cap does not drop it.\<close>

definition readLoop_packet :: "instant \<Rightarrow> nat \<Rightarrow> bytes \<Rightarrow> udpRelay \<Rightarrow> (receiver \<times> bytes) option \<times> udpRelay" where
  "readLoop_packet now a d r =
     (case flow_heap r a of
        None \<Rightarrow> (None, r)
      | Some fl \<Rightarrow>
          if d = [] then (None, r)
          else if maxResp r > 0 \<and> f_respBytes fl + int (length d) > maxResp r then (None, r)
          else (Some (f_onReceive fl, d),
                upd_flow a (\<lambda>f. f\<lparr>f_respBytes := f_respBytes f + int (length d), f_lastActive := now\<rparr>) r))"

definition del_key :: "flowKey \<Rightarrow> (flowKey \<times> nat) list \<Rightarrow> (flowKey \<times> nat) list" where
  "del_key k m = filter (\<lambda>e. fst e \<noteq> k) m"

text \<open>The end of the read loop: its own entry is removed, not one that replaced it.\<close>

definition readLoop_exit :: "nat \<Rightarrow> udpRelay \<Rightarrow> udpRelay" where
  "readLoop_exit a r =
     (case flow_heap r a of
        None \<Rightarrow> r
      | Some fl \<Rightarrow>
          let r1 = (if map_of (flows r) (f_key fl) = Some a then r\<lparr>flows := del_key (f_key fl) (flows r)\<rparr> else r)
          in upd_flow a (\<lambda>f. f\<lparr>f_open := False\<rparr>) r1)"

definition close_flows :: "(flowKey \<times> nat) list \<Rightarrow> udpRelay \<Rightarrow> udpRelay" where
  "close_flows es r = fold (\<lambda>(k, a). upd_flow a (\<lambda>f. f\<lparr>f_open := False\<rparr>)) es r"

definition UDPCleanup :: "instant \<Rightarrow> udpRelay \<Rightarrow> udpRelay" where
  "UDPCleanup now r =
     (let stale = (\<lambda>(k, a). case flow_heap r a of None \<Rightarrow> False | Some fl \<Rightarrow> now - f_lastActive fl > u_timeout r)
      in (close_flows (filter stale (flows r)) r)\<lparr>flows := filter (\<lambda>e. \<not> stale e) (flows r)\<rparr>)"

definition FlowCount :: "udpRelay \<Rightarrow> nat" where
  "FlowCount r = length (flows r)"

definition RemoveFlow :: "flowKey \<Rightarrow> udpRelay \<Rightarrow> udpRelay" where
  "RemoveFlow key r =
     (close_flows (filter (\<lambda>e. fst e = key) (flows r)) r)\<lparr>flows := filter (\<lambda>e. fst e \<noteq> key) (flows r)\<rparr>"

definition RemoveSession :: "u32 \<Rightarrow> udpRelay \<Rightarrow> udpRelay" where
  "RemoveSession sid r =
     (close_flows (filter (\<lambda>e. fst (fst e) = sid) (flows r)) r)\<lparr>flows := filter (\<lambda>e. fst (fst e) \<noteq> sid) (flows r)\<rparr>"

definition CloseUDPRelay :: "udpRelay \<Rightarrow> udpRelay" where
  "CloseUDPRelay r = (close_flows (flows r) r)\<lparr>flows := []\<rparr>"

subsection \<open>Runs\<close>

datatype udpAct =
    USendExisting instant flowKey bytes gostring
  | USendInsert instant flowKey gostring bytes gostring
  | UPacket instant nat bytes
  | UExit nat
  | UCleanup instant
  | URemoveFlow flowKey
  | URemoveSession u32
  | UClose

text \<open>The callback a call of the handler passes: session and stream are those of the key.\<close>

definition reply_cb :: "flowKey \<Rightarrow> gostring \<Rightarrow> receiver" where
  "reply_cb key label = \<lparr>cb_session = fst key, cb_stream = snd key, cb_label = label\<rparr>"

text \<open>The state of a run: the relay and the answers delivered so far, with the flow they came from.\<close>

type_synonym udpRun = "(nat \<times> receiver \<times> bytes) list \<times> udpRelay"

fun udp_step :: "udpAct \<Rightarrow> udpRun \<Rightarrow> udpRun" where
  "udp_step (USendExisting now key d lab) (ev, r) =
     (ev, case send_existing now key d (reply_cb key lab) r of Some r' \<Rightarrow> r' | None \<Rightarrow> r)"
| "udp_step (USendInsert now key target d lab) (ev, r) = (ev, send_insert now key target d (reply_cb key lab) r)"
| "udp_step (UPacket now a d) (ev, r) =
     (case readLoop_packet now a d r of
        (None, r') \<Rightarrow> (ev, r') | (Some (cb, x), r') \<Rightarrow> ((a, cb, x) # ev, r'))"
| "udp_step (UExit a) (ev, r) = (ev, readLoop_exit a r)"
| "udp_step (UCleanup now) (ev, r) = (ev, UDPCleanup now r)"
| "udp_step (URemoveFlow key) (ev, r) = (ev, RemoveFlow key r)"
| "udp_step (URemoveSession sid) (ev, r) = (ev, RemoveSession sid r)"
| "udp_step UClose (ev, r) = (ev, CloseUDPRelay r)"

definition answered :: "nat \<Rightarrow> (nat \<times> receiver \<times> bytes) list \<Rightarrow> nat" where
  "answered a ev = sum_list (map (\<lambda>(b, cb, d). if b = a then length d else 0) ev)"

lemma answered_simps [simp]:
  "answered a [] = 0"
  "answered a ((b, cb, d) # ev) = (if b = a then length d else 0) + answered a ev"
  by (simp_all add: answered_def)

text \<open>What holds of one flow object: its callback fits its key, its counter the answers, its socket the table.\<close>

definition flow_ok :: "udpRun \<Rightarrow> nat \<Rightarrow> udpFlow \<Rightarrow> bool" where
  "flow_ok st a fl \<longleftrightarrow>
     a < flow_next (snd st) \<and>
     (cb_session (f_onReceive fl), cb_stream (f_onReceive fl)) = f_key fl \<and>
     f_respBytes fl = int (answered a (fst st)) \<and>
     (maxResp (snd st) > 0 \<longrightarrow> f_respBytes fl \<le> maxResp (snd st)) \<and>
     (f_open fl \<longleftrightarrow> (f_key fl, a) \<in> set (flows (snd st)))"

definition udp_inv :: "udpRun \<Rightarrow> bool" where
  "udp_inv st \<longleftrightarrow>
     distinct (map fst (flows (snd st))) \<and>
     (\<forall>k a. (k, a) \<in> set (flows (snd st)) \<longrightarrow> (\<exists>fl. flow_heap (snd st) a = Some fl \<and> f_key fl = k)) \<and>
     (\<forall>a fl. flow_heap (snd st) a = Some fl \<longrightarrow> flow_ok st a fl) \<and>
     (\<forall>a cb d. (a, cb, d) \<in> set (fst st) \<longrightarrow>
        (\<exists>fl. flow_heap (snd st) a = Some fl \<and> f_key fl = (cb_session cb, cb_stream cb)))"

lemma upd_flow_simps [simp]:
  "flows (upd_flow a f r) = flows r" "flow_next (upd_flow a f r) = flow_next r"
  "maxResp (upd_flow a f r) = maxResp r" "u_timeout (upd_flow a f r) = u_timeout r"
  "flow_heap (upd_flow a f r) b = (if b = a then map_option f (flow_heap r b) else flow_heap r b)"
  by (auto simp: upd_flow_def split: option.splits)

lemma close_flows_simps [simp]:
  "flows (close_flows es r) = flows r" "flow_next (close_flows es r) = flow_next r" "maxResp (close_flows es r) = maxResp r"
  "flow_heap (close_flows es r) b =
     map_option (\<lambda>fl. if b \<in> snd ` set es then fl\<lparr>f_open := False\<rparr> else fl) (flow_heap r b)"
proof -
  have "flows (close_flows es r) = flows r \<and> flow_next (close_flows es r) = flow_next r \<and> maxResp (close_flows es r) = maxResp r \<and>
    flow_heap (close_flows es r) b = map_option (\<lambda>fl. if b \<in> snd ` set es then fl\<lparr>f_open := False\<rparr> else fl) (flow_heap r b)"
    unfolding close_flows_def
  proof (induction es arbitrary: r)
    case Nil then show ?case by (cases "flow_heap r b") auto
  next
    case (Cons e es) then show ?case by (cases "flow_heap r b"; cases e) auto
  qed
  then show "flows (close_flows es r) = flows r" "flow_next (close_flows es r) = flow_next r" "maxResp (close_flows es r) = maxResp r"
    "flow_heap (close_flows es r) b = map_option (\<lambda>fl. if b \<in> snd ` set es then fl\<lparr>f_open := False\<rparr> else fl) (flow_heap r b)"
    by auto
qed

lemma udp_inv_dest:
  assumes "udp_inv (ev, r)"
  shows "distinct (map fst (flows r))"
    and "(k, a) \<in> set (flows r) \<Longrightarrow> \<exists>fl. flow_heap r a = Some fl \<and> f_key fl = k"
    and "flow_heap r a = Some fl \<Longrightarrow> flow_ok (ev, r) a fl"
    and "(a, cb, d) \<in> set ev \<Longrightarrow> \<exists>fl. flow_heap r a = Some fl \<and> f_key fl = (cb_session cb, cb_stream cb)"
  using assms unfolding udp_inv_def fst_conv snd_conv by blast+

text \<open>Three ways an operation changes the state: flows are removed, one flow is updated, one is entered.\<close>

lemma udp_inv_remove:
  assumes "udp_inv (ev, r)"
  shows "udp_inv (ev, (close_flows (filter P (flows r)) r)\<lparr>flows := filter (\<lambda>e. \<not> P e) (flows r)\<rparr>)"
    (is "udp_inv (ev, ?r)")
proof -
  have key: "f_key fl = k" if "(k, a) \<in> set (flows r)" "flow_heap r a = Some fl" for k a fl
    using udp_inv_dest(2) [OF assms that(1)] that(2) by simp
  have ok: "flow_ok (ev, ?r) a (if a \<in> snd ` set (filter P (flows r)) then fl\<lparr>f_open := False\<rparr> else fl)"
    if "flow_heap r a = Some fl" for a fl
  proof -
    have "flow_ok (ev, r) a fl" using assms that by (simp add: udp_inv_def)
    then show ?thesis using key [OF _ that] by (force simp: flow_ok_def)
  qed
  show ?thesis unfolding udp_inv_def
  proof (intro conjI allI impI)
    show "distinct (map fst (flows (snd (ev, ?r))))" using assms by (auto simp: udp_inv_def distinct_map_filter)
  next
    fix k a assume "(k, a) \<in> set (flows (snd (ev, ?r)))"
    then obtain fl where "flow_heap r a = Some fl" "f_key fl = k" using udp_inv_dest(2) [OF assms, of k a] by auto
    then show "\<exists>fl. flow_heap (snd (ev, ?r)) a = Some fl \<and> f_key fl = k" by auto
  next
    fix a fl assume "flow_heap (snd (ev, ?r)) a = Some fl"
    then show "flow_ok (ev, ?r) a fl" using ok by (auto simp del: set_filter)
  next
    fix a cb d assume "(a, cb, d) \<in> set (fst (ev, ?r))"
    then obtain fl where "flow_heap r a = Some fl" "f_key fl = (cb_session cb, cb_stream cb)"
      using udp_inv_dest(4) [OF assms] by fastforce
    then show "\<exists>fl. flow_heap (snd (ev, ?r)) a = Some fl \<and> f_key fl = (cb_session cb, cb_stream cb)" by auto
  qed
qed

lemma answered_none: "(\<forall>cb d. (a, cb, d) \<notin> set ev) \<Longrightarrow> answered a ev = 0"
  by (induction ev) (simp, force)

lemma udp_inv_update:
  assumes "udp_inv (ev, r)" "\<And>fl. flow_heap r a = Some fl \<Longrightarrow> f_key (f fl) = f_key fl \<and> flow_ok (ev', r) a (f fl)"
    "\<And>b. b \<noteq> a \<Longrightarrow> answered b ev' = answered b ev"
    "\<And>b cb d. (b, cb, d) \<in> set ev' \<Longrightarrow> (b, cb, d) \<in> set ev \<or>
        b = a \<and> (\<exists>fl. flow_heap r a = Some fl \<and> f_key fl = (cb_session cb, cb_stream cb))"
  shows "udp_inv (ev', upd_flow a f r)"
proof -
  have "flow_ok (ev', upd_flow a f r) b fl \<longleftrightarrow> flow_ok (ev', r) b fl" for b fl by (simp add: flow_ok_def)
  moreover have "flow_ok (ev', r) b fl \<longleftrightarrow> flow_ok (ev, r) b fl" if "b \<noteq> a" for b fl
    using assms(3) [OF that] by (simp add: flow_ok_def)
  ultimately show ?thesis using assms(1,2,4) unfolding udp_inv_def by (auto split: if_splits) metis+
qed

lemma udp_inv_enter:
  assumes "udp_inv (ev, r)" "map_of (flows r) key = None"
  shows "udp_inv (ev, send_insert now key target d (reply_cb key lab) r)"
proof -
  have fresh: "flow_heap r (flow_next r) = None"
    using assms(1) by (cases "flow_heap r (flow_next r)") (auto simp: udp_inv_def flow_ok_def)
  then have "(flow_next r, cb, x) \<notin> set ev" for cb x using assms(1) by (fastforce simp: udp_inv_def)
  then have "answered (flow_next r) ev = 0" by (simp add: answered_none)
  moreover have "key \<notin> fst ` set (flows r)" using assms(2) by (simp add: map_of_eq_None_iff)
  ultimately show ?thesis
    using assms fresh unfolding udp_inv_def send_insert_def
    by (auto simp: flow_ok_def reply_cb_def image_iff Let_def split: if_splits) (fastforce | force)+
qed

lemma udp_inv_touch:
  assumes "udp_inv (ev, r)" "map_of (flows r) key = Some a"
  shows "udp_inv (ev, upd_flow a (\<lambda>fl. sock_write d (fl\<lparr>f_lastActive := now, f_onReceive := reply_cb key lab\<rparr>)) r)"
proof (rule udp_inv_update [OF assms(1)])
  have "(key, a) \<in> set (flows r)" using assms(2) by (rule map_of_SomeD)
  then obtain fl where "flow_heap r a = Some fl" "f_key fl = key" using udp_inv_dest(2) [OF assms(1), of key a] by blast
  then show "f_key (sock_write d (g\<lparr>f_lastActive := now, f_onReceive := reply_cb key lab\<rparr>)) = f_key g \<and>
      flow_ok (ev, r) a (sock_write d (g\<lparr>f_lastActive := now, f_onReceive := reply_cb key lab\<rparr>))"
    if "flow_heap r a = Some g" for g
    using that udp_inv_dest(3) [OF assms(1) that] by (auto simp: flow_ok_def sock_write_def reply_cb_def)
qed auto

lemma udp_inv_packet:
  assumes "udp_inv (ev, r)" shows "udp_inv (udp_step (UPacket now a d) (ev, r))"
proof (cases "readLoop_packet now a d r")
  case (Pair ans r')
  show ?thesis
  proof (cases ans)
    case None
    then have "r' = r" using Pair by (auto simp: readLoop_packet_def split: option.splits if_splits)
    then show ?thesis using Pair None assms by simp
  next
    case (Some x)
    then obtain fl where fl: "flow_heap r a = Some fl" "x = (f_onReceive fl, d)"
      "maxResp r > 0 \<longrightarrow> f_respBytes fl + int (length d) \<le> maxResp r"
      "r' = upd_flow a (\<lambda>f. f\<lparr>f_respBytes := f_respBytes f + int (length d), f_lastActive := now\<rparr>) r"
      using Pair by (auto simp: readLoop_packet_def split: option.splits if_splits)
    have ok: "flow_ok (ev, r) a fl" using udp_inv_dest(3) [OF assms fl(1)] .
    have "udp_inv ((a, f_onReceive fl, d) # ev, r')" unfolding fl(4)
      by (rule udp_inv_update [OF assms]) (use fl ok in \<open>auto simp: flow_ok_def\<close>)
    then show ?thesis using Pair Some fl(2) by simp
  qed
qed

lemma filter_key: "(k, a) \<in> set m \<Longrightarrow> distinct (map fst m) \<Longrightarrow> filter (\<lambda>e. fst e = k) m = [(k, a)]"
  by (induction m) (auto simp: filter_empty_conv image_iff)

lemma udp_inv_exit:
  assumes "udp_inv (ev, r)" shows "udp_inv (ev, readLoop_exit a r)"
proof (cases "flow_heap r a")
  case None then show ?thesis using assms by (simp add: readLoop_exit_def)
next
  case (Some fl)
  note d = udp_inv_dest [OF assms]
  show ?thesis
  proof (cases "map_of (flows r) (f_key fl) = Some a")
    case True
    have "filter (\<lambda>e. fst e = f_key fl) (flows r) = [(f_key fl, a)]"
      using map_of_SomeD [OF True] d(1) by (rule filter_key)
    then have "readLoop_exit a r =
      (close_flows (filter (\<lambda>e. fst e = f_key fl) (flows r)) r)\<lparr>flows := filter (\<lambda>e. fst e \<noteq> f_key fl) (flows r)\<rparr>"
      using True Some by (simp add: readLoop_exit_def close_flows_def del_key_def upd_flow_def Let_def)
    then show ?thesis using udp_inv_remove [OF assms, of "\<lambda>e. fst e = f_key fl"] by simp
  next
    case False
    then have "(f_key fl, a) \<notin> set (flows r)" using d(1) by (auto simp: map_of_eq_Some_iff)
    then have "udp_inv (ev, upd_flow a (\<lambda>f. f\<lparr>f_open := False\<rparr>) r)"
      by (intro udp_inv_update [OF assms]) (use Some d(3) [OF Some] in \<open>auto simp: flow_ok_def\<close>)
    then show ?thesis using False Some by (simp add: readLoop_exit_def)
  qed
qed

lemma udp_inv_step: assumes "udp_inv st" shows "udp_inv (udp_step act st)"
proof -
  obtain ev r where st: "st = (ev, r)" by fastforce
  show ?thesis
  proof (cases act)
    case (UPacket now a d) then show ?thesis using udp_inv_packet assms st by blast
  next
    case (USendExisting now key d lab)
    then show ?thesis using udp_inv_touch assms st by (auto simp: send_existing_def split: option.splits)
  next
    case (USendInsert now key target d lab)
    show ?thesis
    proof (cases "map_of (flows r) key")
      case None then show ?thesis using udp_inv_enter assms st USendInsert by simp
    next
      case (Some a) then show ?thesis using udp_inv_touch assms st USendInsert by (simp add: send_insert_def)
    qed
  next
    case UClose
    then show ?thesis using udp_inv_remove [of ev r "\<lambda>_. True"] assms st by (simp add: CloseUDPRelay_def)
  qed (use assms st in \<open>auto simp: UDPCleanup_def RemoveFlow_def RemoveSession_def Let_def intro: udp_inv_exit udp_inv_remove\<close>)
qed

interpretation ur: step_invariant udp_step udp_inv
  by unfold_locales (rule udp_inv_step)

subsection \<open>Isolation, sockets and the response cap\<close>

lemma udp_inv_start: "udp_inv ([], SetMaxResp M (NewUDPRelay t))"
  by (simp add: udp_inv_def NewUDPRelay_def SetMaxResp_def)

lemma maxResp_step: "maxResp (snd (udp_step act st)) = maxResp (snd st)"
  by (cases st; cases act)
    (auto simp: send_existing_def send_insert_def readLoop_packet_def readLoop_exit_def UDPCleanup_def RemoveFlow_def
      RemoveSession_def CloseUDPRelay_def Let_def split: option.splits if_splits)

lemma maxResp_run: "maxResp (snd (fold udp_step acts st)) = maxResp (snd st)"
  by (induction acts arbitrary: st) (simp_all add: maxResp_step)

text \<open>C19. Tenants of the UDP relay are isolated, and it keeps no stray socket.  However the calls and
  read loops of all sessions interleave, an answer is only delivered to the session and
  stream that the flow it came from belongs to; a flow's socket is open exactly while the
  flow is in the table, under one key; and with a response cap no flow ever delivers more.\<close>
theorem udp_relay_isolated:
  assumes "fold udp_step acts ([], SetMaxResp M (NewUDPRelay t)) = (ev, r)"
  shows "(\<forall>(a, cb, d) \<in> set ev. \<exists>fl. flow_heap r a = Some fl \<and> f_key fl = (cb_session cb, cb_stream cb)) \<and>
    (\<forall>a fl. flow_heap r a = Some fl \<longrightarrow> (f_open fl \<longleftrightarrow> (f_key fl, a) \<in> set (flows r))) \<and>
    distinct (map fst (flows r)) \<and>
    (M > 0 \<longrightarrow> (\<forall>a. int (answered a ev) \<le> M))"
proof -
  have inv: "udp_inv (ev, r)" using ur.inv_run [OF udp_inv_start] assms by metis
  have m: "maxResp r = M" using maxResp_run [of acts "([], SetMaxResp M (NewUDPRelay t))"] assms by (simp add: SetMaxResp_def)
  note d = udp_inv_dest [OF inv]
  have "int (answered a ev) \<le> M" if "M > 0" for a
  proof (cases "flow_heap r a")
    case None
    then have "answered a ev = 0" using d(4) by (intro answered_none) fastforce
    then show ?thesis using that by simp
  next
    case (Some fl) then show ?thesis using d(3) [OF Some] m that by (simp add: flow_ok_def)
  qed
  moreover have "f_open fl \<longleftrightarrow> (f_key fl, a) \<in> set (flows r)" if "flow_heap r a = Some fl" for a fl
    using d(3) [OF that] by (simp add: flow_ok_def)
  moreover have "\<forall>(a, cb, x) \<in> set ev. \<exists>fl. flow_heap r a = Some fl \<and> f_key fl = (cb_session cb, cb_stream cb)"
    using d(4) by fast
  ultimately show ?thesis using d(1) by blast
qed

theorem udp_relay_isolated_witness:
  "\<exists>ev r. fold udp_step [USendInsert 0 (1, 1) [65] [9] [65], USendInsert 0 (2, 1) [66] [8] [66], UPacket 1 0 [7], UPacket 1 1 [6, 6, 6]]
     ([], SetMaxResp 2 (NewUDPRelay 60)) = (ev, r) \<and>
   ev = [(0, reply_cb (1, 1) [65], [7])] \<and> int (answered 0 ev) \<le> 2"
proof -
  let ?acts = "[USendInsert 0 (1, 1) [65] [9] [65], USendInsert 0 (2, 1) [66] [8] [66], UPacket 1 0 [7], UPacket 1 1 [6, 6, 6]]"
  obtain ev r where e: "fold udp_step ?acts ([], SetMaxResp 2 (NewUDPRelay 60)) = (ev, r)" by fastforce
  then have "ev = [(0, reply_cb (1, 1) [65], [7])]"
    by (auto simp: send_insert_def NewUDPRelay_def SetMaxResp_def readLoop_packet_def Let_def)
  then show ?thesis using udp_relay_isolated [OF e] e by auto
qed

text \<open>A second destination on a stream is misrouted.  A client's UDP association uses one stream
  for all its destinations, but a flow's socket is connected to the first: what the client
  sends to the second destination goes to the first one, and what the first one then answers
  is labelled as coming from the second.\<close>
theorem second_target_misrouted:
  "let r = UDPSend n2 key B d2 (reply_cb key B) (UDPSend n1 key A d1 (reply_cb key A) (NewUDPRelay t))
   in map_option (\<lambda>fl. (f_target fl, f_sent fl)) (flow_heap r 0) = Some (A, [d1, d2]) \<and> flows r = [(key, 0)] \<and>
      fst (readLoop_packet n3 0 [x] r) = Some (reply_cb key B, [x])"
  by (simp add: UDPSend_def send_existing_def send_insert_def NewUDPRelay_def defaultUDPRespCap_def readLoop_packet_def
      upd_flow_def sock_write_def Let_def)

end
