(* ===== verification/Server_Tunnel.thy ===== *)
theory Server_Tunnel
  imports Session_Manager Client_Auth Udp_Relay Frames Routing Safe_Dial
begin

section \<open>The server's POST data path\<close>

text \<open>
  Models the data path of \<open>src/server/handler.go\<close> (and \<open>registerPOSTStream\<close> of \<open>websocket.go\<close>):
  the tunnel of a session with its bounded channels and multiplexed streams, the dispatch of
  a decrypted chunk, CONNECT with its optimistic buffering, uplink data, the batched downlink,
  UDP, FIN, the download stream and the sweeps that reclaim tunnels.

  Tunnels, streams and target connections are objects with addresses: the dial and relay
  goroutines keep them after the tables have dropped or replaced an entry.  A critical section
  and the network write that follows it is one step; \<open>handleConnect\<close>, which dials between its
  sections, is the steps \<open>connect_begin\<close>, \<open>connect_failed\<close> or \<open>connect_activate\<close>, \<open>connect_flush\<close>
  and \<open>connect_finish\<close>.  A connection records the chunks written to it.  The AEAD and the buffer
  pool are arguments, as in \<open>Session\<close>; a session that has left the table has been destroyed
  (\<open>Session_Manager\<close>), so nothing can be encrypted for it; a chunk is dispatched while its session is
  in the table.  Clock readings, the resolver, the
  reverse lookup and the success of a network write are arguments.
\<close>

subsection \<open>State\<close>

record tconn =
  c_open :: bool
  c_written :: "bytes list"
  c_session :: u32                 \<comment> \<open>the session and the stream it was dialled for\<close>
  c_stream :: u16

record streamConn =
  sc_id :: u16
  sc_session :: u32                \<comment> \<open>the session whose CONNECT made it\<close>
  sc_target :: "nat option"
  sc_pending :: "bytes list"

record tunnel =
  t_session :: u32
  t_client :: gostring
  t_incoming :: "bytes list"
  t_outgoing :: "bytes list"
  t_outgoingUDP :: "bytes list"
  t_done :: bool
  t_download :: bool               \<comment> \<open>\<open>HasDownloadStream\<close>\<close>
  t_wsAttached :: bool
  t_streams :: "(u16 \<times> nat) list"
  t_target :: "nat option"
  t_connected :: bool

record postState =
  p_sessions :: sessionManager
  p_auth :: clientAuth
  p_udp :: "udpRelay option"
  p_tunnels :: "u32 \<rightharpoonup> nat"
  p_tun :: "nat \<rightharpoonup> tunnel"
  p_str :: "nat \<rightharpoonup> streamConn"
  p_con :: "nat \<rightharpoonup> tconn"
  p_next :: nat
  p_active :: int

definition maxStreamsPerSession :: nat where "maxStreamsPerSession = 256"
definition defaultTunnelOutgoingBuffer :: nat where "defaultTunnelOutgoingBuffer = 256"
definition incomingCap :: nat where "incomingCap = 64"
definition outgoingUDPCap :: nat where "outgoingUDPCap = 64"
definition postPendingMax :: nat where "postPendingMax = 64"
definition maxBatchChunks :: nat where "maxBatchChunks = 16"
definition maxBatchBytes :: nat where "maxBatchBytes = 48 * 1024"

definition upd_tun :: "nat \<Rightarrow> (tunnel \<Rightarrow> tunnel) \<Rightarrow> postState \<Rightarrow> postState" where
  "upd_tun a f p = p\<lparr>p_tun := (p_tun p)(a := map_option f (p_tun p a))\<rparr>"

definition upd_str :: "nat \<Rightarrow> (streamConn \<Rightarrow> streamConn) \<Rightarrow> postState \<Rightarrow> postState" where
  "upd_str a f p = p\<lparr>p_str := (p_str p)(a := map_option f (p_str p a))\<rparr>"

definition upd_con :: "nat \<Rightarrow> (tconn \<Rightarrow> tconn) \<Rightarrow> postState \<Rightarrow> postState" where
  "upd_con a f p = p\<lparr>p_con := (p_con p)(a := map_option f (p_con p a))\<rparr>"

definition close_con :: "nat \<Rightarrow> postState \<Rightarrow> postState" where
  "close_con c = upd_con c (\<lambda>x. x\<lparr>c_open := False\<rparr>)"

definition close_cons :: "nat list \<Rightarrow> postState \<Rightarrow> postState" where
  "close_cons = fold close_con"

definition conn_write :: "bool \<Rightarrow> bytes \<Rightarrow> tconn \<Rightarrow> bool \<times> tconn" where
  "conn_write ok d c = (if ok \<and> c_open c then (True, c\<lparr>c_written := c_written c @ [d]\<rparr>) else (False, c))"

definition write_to :: "bool \<Rightarrow> nat \<Rightarrow> bytes \<Rightarrow> postState \<Rightarrow> bool \<times> postState" where
  "write_to ok a d p =
     (case p_con p a of
        None \<Rightarrow> (False, p)
      | Some c \<Rightarrow> (fst (conn_write ok d c), upd_con a (\<lambda>x. snd (conn_write ok d x)) p))"

definition del_stream :: "nat \<Rightarrow> u16 \<Rightarrow> postState \<Rightarrow> postState" where
  "del_stream a sid = upd_tun a (\<lambda>t. t\<lparr>t_streams := filter (\<lambda>e. fst e \<noteq> sid) (t_streams t)\<rparr>)"

definition GetTunnel :: "u32 \<Rightarrow> postState \<Rightarrow> (nat \<times> tunnel) option" where
  "GetTunnel sid p =
     (case p_tunnels p sid of None \<Rightarrow> None | Some a \<Rightarrow> map_option (Pair a) (p_tun p a))"

definition tunnelClientIDForSession :: "u32 \<Rightarrow> postState \<Rightarrow> gostring" where
  "tunnelClientIDForSession sid p = (case GetTunnel sid p of None \<Rightarrow> [] | Some (_, t) \<Rightarrow> t_client t)"

subsection \<open>Replies\<close>

datatype postReply = PostChunks "bytes list" | PostNothing | Post500 | PostDecoy | PostPanic | PostStream

text \<open>A chunk for the session, with the next sequence number; \<open>None\<close> is an encryption error.\<close>

definition seal_chunk :: "gcm \<Rightarrow> bufpool \<Rightarrow> u32 \<Rightarrow> byte \<Rightarrow> bytes \<Rightarrow> postState \<Rightarrow> bytes option \<times> postState" where
  "seal_chunk G P sid flag payload p =
     (case Get sid (p_sessions p) of
        None \<Rightarrow> (None, p)
      | Some s \<Rightarrow>
          (let (seq, s1) = NextSeqNum s;
               (res, s2, _) = EncryptChunk G P None \<lparr>SessionID = ID s, SeqNum = seq, Flags = flag, Payload = payload\<rparr> s1
           in (case res of Ok (w, _) \<Rightarrow> Some w | _ \<Rightarrow> None,
               p\<lparr>p_sessions := (p_sessions p)\<lparr>sessions := (sessions (p_sessions p))(sid \<mapsto> s2)\<rparr>\<rparr>)))"

definition sendAck :: "gcm \<Rightarrow> bufpool \<Rightarrow> u32 \<Rightarrow> postState \<Rightarrow> postReply \<times> postState" where
  "sendAck G P sid p =
     (case seal_chunk G P sid FlagAck [] p of
        (None, p') \<Rightarrow> (PostNothing, p') | (Some w, p') \<Rightarrow> (PostChunks [w], p'))"

text \<open>Here the error is ignored and the body is built over nothing.\<close>

definition handleKeepalive :: "gcm \<Rightarrow> bufpool \<Rightarrow> u32 \<Rightarrow> postState \<Rightarrow> postReply \<times> postState" where
  "handleKeepalive G P sid p =
     (case seal_chunk G P sid FlagAck [] p of
        (None, p') \<Rightarrow> (PostChunks [[]], p') | (Some w, p') \<Rightarrow> (PostChunks [w], p'))"

definition handleControl :: "gcm \<Rightarrow> bufpool \<Rightarrow> u32 \<Rightarrow> postState \<Rightarrow> postReply \<times> postState" where
  "handleControl = handleKeepalive"

definition sendConnectResult :: "gcm \<Rightarrow> bufpool \<Rightarrow> u32 \<Rightarrow> bool \<Rightarrow> postState \<Rightarrow> postReply \<times> postState" where
  "sendConnectResult G P sid ok p =
     (case seal_chunk G P sid FlagData (if ok then map (of_char :: char \<Rightarrow> byte) ''CONNECT_OK'' else map of_char ''CONNECT_FAIL'') p of
        (None, p') \<Rightarrow> (PostChunks [[]], p') | (Some w, p') \<Rightarrow> (PostChunks [w], p'))"

subsection \<open>Uplink data and the batched downlink\<close>

text \<open>Data for a stream: buffered while its target is being dialled, else written to it.\<close>

definition stream_write :: "bool \<Rightarrow> nat \<Rightarrow> u16 \<Rightarrow> nat \<Rightarrow> bytes \<Rightarrow> postState \<Rightarrow> postState" where
  "stream_write ok a streamID sa d p =
     (case p_str p sa of
        None \<Rightarrow> p
      | Some sc \<Rightarrow>
          (case sc_target sc of
             None \<Rightarrow>
               if length (sc_pending sc) < postPendingMax
               then upd_str sa (\<lambda>s. s\<lparr>sc_pending := sc_pending s @ [d]\<rparr>) p else p
           | Some c \<Rightarrow>
               (case write_to ok c d p of
                  (True, p') \<Rightarrow> p'
                | (False, p') \<Rightarrow> close_con c (del_stream a streamID p'))))"

definition data_uplink :: "bool \<Rightarrow> u32 \<Rightarrow> bytes \<Rightarrow> postState \<Rightarrow> postState" where
  "data_uplink ok sid payload p =
     (case GetTunnel sid p of
        None \<Rightarrow> p
      | Some (a, t) \<Rightarrow>
          if payload = [] then p
          else if t_streams t \<noteq> [] then
            (let (streamID, d) = ParseStreamID payload
             in case map_of (t_streams t) streamID of
                  None \<Rightarrow> p
                | Some sa \<Rightarrow> if d = [] then p else stream_write ok a streamID sa d p)
          else case t_target t of
                 Some c \<Rightarrow> snd (write_to ok c payload p)
               | None \<Rightarrow>
                   if length (t_incoming t) < incomingCap
                   then upd_tun a (\<lambda>t. t\<lparr>t_incoming := t_incoming t @ [payload]\<rparr>) p else p)"

text \<open>The first receive and the drain that follows it; \<open>n\<close> chunks of \<open>b\<close> bytes are already taken.\<close>

fun batch_loop :: "nat \<Rightarrow> nat \<Rightarrow> bytes list \<Rightarrow> bytes list \<times> bytes list" where
  "batch_loop n b [] = ([], [])"
| "batch_loop n b (d # ds) =
     (if n < maxBatchChunks \<and> b < maxBatchBytes
      then let (got, rest) = batch_loop (Suc n) (b + length d) ds in (d # got, rest)
      else ([], d # ds))"

definition collect_batch :: "bytes list \<Rightarrow> bytes list \<times> bytes list" where
  "collect_batch q =
     (case q of [] \<Rightarrow> ([], []) | d # ds \<Rightarrow> (let (got, rest) = batch_loop 1 (length d) ds in (d # got, rest)))"

text \<open>Each collected chunk is encrypted on its own; one that fails is skipped.\<close>

fun seal_all :: "gcm \<Rightarrow> bufpool \<Rightarrow> u32 \<Rightarrow> bytes list \<Rightarrow> postState \<Rightarrow> bytes list \<times> postState" where
  "seal_all G P sid [] p = ([], p)"
| "seal_all G P sid (d # ds) p =
     (let (w, p1) = seal_chunk G P sid FlagData d p; (ws, p2) = seal_all G P sid ds p1
      in (case w of None \<Rightarrow> ws | Some x \<Rightarrow> x # ws, p2))"

definition data_collect :: "gcm \<Rightarrow> bufpool \<Rightarrow> u32 \<Rightarrow> postState \<Rightarrow> postReply \<times> postState" where
  "data_collect G P sid p =
     (let (got, p1) = (case GetTunnel sid p of
                         None \<Rightarrow> ([], p)
                       | Some (a, t) \<Rightarrow>
                           if t_download t then ([], p)
                           else (fst (collect_batch (t_outgoing t)),
                                 upd_tun a (\<lambda>t. t\<lparr>t_outgoing := snd (collect_batch (t_outgoing t))\<rparr>) p))
      in if got = []
         then (case seal_chunk G P sid FlagData [] p1 of
                 (None, p2) \<Rightarrow> (Post500, p2) | (Some w, p2) \<Rightarrow> (PostChunks [w], p2))
         else (let (ws, p2) = seal_all G P sid got p1 in (PostChunks ws, p2)))"

definition handleDataChunk :: "gcm \<Rightarrow> bufpool \<Rightarrow> bool \<Rightarrow> u32 \<Rightarrow> bytes \<Rightarrow> postState \<Rightarrow> postReply \<times> postState" where
  "handleDataChunk G P ok sid payload p = data_collect G P sid (data_uplink ok sid payload p)"

subsection \<open>Block list\<close>

definition block_match :: "(gostring \<Rightarrow> gostring) \<Rightarrow> gostring \<Rightarrow> gostring \<Rightarrow> bool" where
  "block_match uni h pat =
     (let q = ToLower uni pat
      in if take 2 q = [chr_star, chr_dot] then suffix (drop 1 q) h
         else h = q \<or> suffix (chr_dot # q) h)"

definition matchesBlockList :: "(gostring \<Rightarrow> gostring) \<Rightarrow> gostring \<Rightarrow> gostring list \<Rightarrow> bool" where
  "matchesBlockList uni host blockDomains = list_ex (block_match uni (ToLower uni host)) blockDomains"

definition trim_dot :: "gostring \<Rightarrow> gostring" where
  "trim_dot s = (if s \<noteq> [] \<and> last s = chr_dot then butlast s else s)"

definition isBlockedDomain ::
  "(gostring \<Rightarrow> gostring) \<Rightarrow> (gostring \<Rightarrow> gostring list option) \<Rightarrow> gostring \<Rightarrow> gostring list \<Rightarrow> bool" where
  "isBlockedDomain uni reverse host blockDomains \<longleftrightarrow>
     matchesBlockList uni host blockDomains \<or>
     (ParseIP host \<noteq> None \<and>
      (case reverse host of
         None \<Rightarrow> False
       | Some ns \<Rightarrow> list_ex (\<lambda>n. matchesBlockList uni (trim_dot n) blockDomains) ns))"

definition host_of :: "gostring \<Rightarrow> gostring" where
  "host_of target = (case SplitHostPort target of Some (h, _) \<Rightarrow> h | None \<Rightarrow> target)"

record postEnv =
  v_uni :: "gostring \<Rightarrow> gostring"
  v_reverse :: "gostring \<Rightarrow> gostring list option"
  v_block :: "gostring list"
  v_resolveUDP :: "gostring \<Rightarrow> (bytes \<times> gostring) option"   \<comment> \<open>the address and its text form with port\<close>

subsection \<open>CONNECT\<close>

definition registerPOSTStream :: "nat \<Rightarrow> u16 \<Rightarrow> nat \<Rightarrow> postState \<Rightarrow> bool \<times> postState" where
  "registerPOSTStream a streamID sa p =
     (case p_tun p a of
        None \<Rightarrow> (False, p)
      | Some t \<Rightarrow>
          if map_of (t_streams t) streamID \<noteq> None then (False, p)
          else if length (t_streams t) \<ge> maxStreamsPerSession then (False, p)
          else (True, upd_tun a (\<lambda>t. t\<lparr>t_streams := (streamID, sa) # t_streams t\<rparr>) p))"

text \<open>
  Up to the dial.  \<open>None\<close>: CONNECT_FAIL; \<open>Some (a, sa, streamID)\<close>: the stream is entered and
  the dial starts.
\<close>

definition connect_begin ::
  "postEnv \<Rightarrow> u32 \<Rightarrow> bytes \<Rightarrow> postState \<Rightarrow> (nat \<times> nat \<times> u16) option \<times> postState" where
  "connect_begin E sid payload p =
     (let (streamID, target) = ParseStreamID payload
      in if target = [] then (None, p)
         else case GetTunnel sid p of
                None \<Rightarrow> (None, p)
              | Some (a, t) \<Rightarrow>
                  if v_block E \<noteq> [] \<and> isBlockedDomain (v_uni E) (v_reverse E) (host_of target) (v_block E) then (None, p)
                  else (let sa = p_next p;
                            p1 = p\<lparr>p_next := Suc sa,
                                   p_str := (p_str p)(sa \<mapsto> \<lparr>sc_id = streamID, sc_session = sid, sc_target = None, sc_pending = []\<rparr>)\<rparr>
                        in case registerPOSTStream a streamID sa p1 of
                             (False, p2) \<Rightarrow> (None, p2)
                           | (True, p2) \<Rightarrow> (Some (a, sa, streamID), p2)))"

definition connect_failed :: "gcm \<Rightarrow> bufpool \<Rightarrow> u32 \<Rightarrow> nat \<Rightarrow> u16 \<Rightarrow> postState \<Rightarrow> postReply \<times> postState" where
  "connect_failed G P sid a streamID p = sendConnectResult G P sid False (del_stream a streamID p)"

text \<open>The dialled connection is published to the stream; the buffered chunks are still to be flushed.\<close>

definition connect_activate :: "u32 \<Rightarrow> nat \<Rightarrow> postState \<Rightarrow> (nat \<times> bytes list) \<times> postState" where
  "connect_activate sid sa p =
     (let c = p_next p; sc = the (p_str p sa)
      in ((c, sc_pending sc),
          upd_str sa (\<lambda>s. s\<lparr>sc_target := Some c, sc_pending := []\<rparr>)
            (p\<lparr>p_next := Suc c,
               p_con := (p_con p)(c \<mapsto> \<lparr>c_open = True, c_written = [], c_session = sid, c_stream = sc_id sc\<rparr>)\<rparr>)))"

definition connect_flush :: "bool \<Rightarrow> nat \<Rightarrow> bytes \<Rightarrow> postState \<Rightarrow> postState" where
  "connect_flush ok c d p = snd (write_to ok c d p)"

definition connect_finish :: "gcm \<Rightarrow> bufpool \<Rightarrow> u32 \<Rightarrow> nat \<Rightarrow> u16 \<Rightarrow> nat \<Rightarrow> postState \<Rightarrow> postReply \<times> postState" where
  "connect_finish G P sid a streamID c p =
     sendConnectResult G P sid True
       (upd_tun a (\<lambda>t. t\<lparr>t_target := (if streamID = 0 then Some c else t_target t), t_connected := True\<rparr>) p)"

text \<open>The handler with nothing running beside it: dial result \<open>dialed\<close>, all writes with outcome \<open>ok\<close>.\<close>

definition handleConnect ::
  "gcm \<Rightarrow> bufpool \<Rightarrow> postEnv \<Rightarrow> bool \<Rightarrow> bool \<Rightarrow> u32 \<Rightarrow> bytes \<Rightarrow> postState \<Rightarrow> postReply \<times> postState" where
  "handleConnect G P E dialed ok sid payload p =
     (case connect_begin E sid payload p of
        (None, p1) \<Rightarrow> sendConnectResult G P sid False p1
      | (Some (a, sa, streamID), p1) \<Rightarrow>
          if \<not> dialed then connect_failed G P sid a streamID p1
          else (case connect_activate sid sa p1 of
                  ((c, pending), p2) \<Rightarrow> connect_finish G P sid a streamID c (fold (connect_flush ok c) pending p2)))"

subsection \<open>Relay from the target\<close>

text \<open>
  A read of the relay goroutine tags the bytes with the stream and sends them to \<open>Outgoing\<close>;
  \<open>None\<close> means the channel is full and the goroutine waits.
\<close>

definition relay_read :: "nat \<Rightarrow> u16 \<Rightarrow> bytes \<Rightarrow> postState \<Rightarrow> postState option" where
  "relay_read a streamID d p =
     (case p_tun p a of
        None \<Rightarrow> None
      | Some t \<Rightarrow>
          if d = [] \<or> t_done t then Some p
          else if length (t_outgoing t) < defaultTunnelOutgoingBuffer
          then Some (upd_tun a (\<lambda>t. t\<lparr>t_outgoing := t_outgoing t @ [put16 streamID @ d]\<rparr>) p)
          else None)"

definition relay_exit :: "nat \<Rightarrow> u16 \<Rightarrow> nat \<Rightarrow> postState \<Rightarrow> postState" where
  "relay_exit a streamID c p = del_stream a streamID (close_con c p)"

subsection \<open>FIN and the sweeps\<close>

definition stream_conns :: "tunnel \<Rightarrow> postState \<Rightarrow> nat list" where
  "stream_conns t p =
     List.map_filter (\<lambda>(_, sa). case p_str p sa of None \<Rightarrow> None | Some sc \<Rightarrow> sc_target sc) (t_streams t)"

definition handleStreamFin :: "u32 \<Rightarrow> u16 \<Rightarrow> postState \<Rightarrow> postState" where
  "handleStreamFin sid streamID p =
     (case GetTunnel sid p of
        None \<Rightarrow> p
      | Some (a, t) \<Rightarrow>
          (let p1 = del_stream a streamID p;
               p2 = (case map_of (t_streams t) streamID of
                       None \<Rightarrow> p1
                     | Some sa \<Rightarrow> (case p_str p sa of
                                    Some sc \<Rightarrow> (case sc_target sc of None \<Rightarrow> p1 | Some c \<Rightarrow> close_con c p1)
                                  | None \<Rightarrow> p1))
           in p2\<lparr>p_udp := map_option (RemoveFlow (sid, streamID)) (p_udp p2)\<rparr>))"

text \<open>What the session FIN and the sweeps do to one tunnel of the table.\<close>

definition drop_tunnel :: "u32 \<Rightarrow> postState \<Rightarrow> postState" where
  "drop_tunnel sid p =
     (case GetTunnel sid p of
        None \<Rightarrow> p
      | Some (a, t) \<Rightarrow>
          (let p1 = (if t_client t = [] then p else p\<lparr>p_auth := OnSessionDestroyed (t_client t) sid (p_auth p)\<rparr>);
               p2 = close_cons (stream_conns t p1 @ (case t_target t of None \<Rightarrow> [] | Some c \<Rightarrow> [c])) p1;
               p3 = upd_tun a (\<lambda>t. t\<lparr>t_done := True\<rparr>) p2
           in p3\<lparr>p_tunnels := (p_tunnels p3)(sid := None)\<rparr>))"

definition udp_remove :: "u32 \<Rightarrow> postState \<Rightarrow> postState" where
  "udp_remove sid p = p\<lparr>p_udp := map_option (RemoveSession sid) (p_udp p)\<rparr>"

definition handleFin :: "u32 \<Rightarrow> postState \<Rightarrow> postState" where
  "handleFin sid p =
     (let p1 = udp_remove sid (drop_tunnel sid p)
      in p1\<lparr>p_sessions := snd (Remove sid (p_sessions p1)), p_active := p_active p1 - 1\<rparr>)"

definition handleFinChunk :: "gcm \<Rightarrow> bufpool \<Rightarrow> u32 \<Rightarrow> bytes \<Rightarrow> postState \<Rightarrow> postReply \<times> postState" where
  "handleFinChunk G P sid payload p =
     sendAck G P sid (if length payload \<ge> 2 then handleStreamFin sid (get16 (take 2 payload)) p else handleFin sid p)"

definition reap_one :: "u32 \<Rightarrow> postState \<Rightarrow> postState" where
  "reap_one sid p =
     (if GetTunnel sid p = None then p else (drop_tunnel sid p)\<lparr>p_active := p_active p - 1\<rparr>)"

definition reapOrphanTunnels :: "u32 list \<Rightarrow> postState \<Rightarrow> postState" where
  "reapOrphanTunnels = fold reap_one"

definition ghostSweepEligible :: "(gostring \<Rightarrow> u32 \<Rightarrow> bool) \<Rightarrow> u32 \<Rightarrow> postState \<Rightarrow> bool" where
  "ghostSweepEligible hasBound sid p =
     (case Get sid (p_sessions p) of
        None \<Rightarrow> False
      | Some _ \<Rightarrow>
          (case GetTunnel sid p of
             None \<Rightarrow> True
           | Some (_, t) \<Rightarrow>
               \<not> t_wsAttached t \<and> \<not> (t_client t \<noteq> [] \<and> hasBound (t_client t) sid)))"

text \<open>
  One tick of \<open>StartCleanup\<close>.  The iteration orders of the session table (for the three sweeps)
  and of the tunnel table are arguments.
\<close>

definition newbornOrphanMaxAge :: int where "newbornOrphanMaxAge = 30 * 1000000000"
definition detachedGhostGrace :: int where "detachedGhostGrace = 15 * 1000000000"

definition reap_expired :: "u32 \<Rightarrow> postState \<Rightarrow> postState" where
  "reap_expired sid p =
     (if GetTunnel sid p = None \<or> Get sid (p_sessions p) \<noteq> None then p
      else (udp_remove sid (drop_tunnel sid p))\<lparr>p_active := p_active p - 1\<rparr>)"

definition tick_newborn :: "instant \<Rightarrow> u32 list \<Rightarrow> postState \<Rightarrow> postState" where
  "tick_newborn now keys p =
     (case CleanupNewbornOrphans now newbornOrphanMaxAge keys (p_sessions p) of
        (ids, _, sm) \<Rightarrow> reapOrphanTunnels ids (p\<lparr>p_sessions := sm\<rparr>))"

definition tick_ghosts :: "(gostring \<Rightarrow> u32 \<Rightarrow> bool) \<Rightarrow> instant \<Rightarrow> u32 list \<Rightarrow> postState \<Rightarrow> postState" where
  "tick_ghosts hasBound now keys p =
     (case CleanupDetachedGhosts now detachedGhostGrace (Some (\<lambda>sid. ghostSweepEligible hasBound sid p)) keys (p_sessions p) of
        (ids, _, sm) \<Rightarrow> reapOrphanTunnels ids (p\<lparr>p_sessions := sm\<rparr>))"

definition tick_expired :: "instant \<Rightarrow> u32 list \<Rightarrow> u32 list \<Rightarrow> postState \<Rightarrow> postState" where
  "tick_expired now keys tkeys p =
     (case Cleanup now keys (p_sessions p) of
        (n, _, sm) \<Rightarrow> (let p1 = p\<lparr>p_sessions := sm\<rparr> in if n > 0 then fold reap_expired tkeys p1 else p1))"

definition cleanup_tick ::
  "(gostring \<Rightarrow> u32 \<Rightarrow> bool) \<Rightarrow> instant \<Rightarrow> u32 list \<Rightarrow> u32 list \<Rightarrow> postState \<Rightarrow> postState" where
  "cleanup_tick hasBound now keys tkeys p =
     (let p1 = p\<lparr>p_udp := map_option (UDPCleanup now) (p_udp p)\<rparr>
      in tick_expired now keys tkeys (tick_ghosts hasBound now keys (tick_newborn now keys p1)))"

subsection \<open>UDP\<close>

text \<open>An answer of the relay, delivered by the callback that \<open>handleUDPData\<close> passed to \<open>Send\<close>.\<close>

definition udp_answer :: "gcm \<Rightarrow> bufpool \<Rightarrow> nat \<Rightarrow> receiver \<Rightarrow> bytes \<Rightarrow> postState \<Rightarrow> postState option" where
  "udp_answer G P a cb d p =
     (case p_tun p a of
        None \<Rightarrow> None
      | Some t \<Rightarrow>
          if t_download t then
            (if t_done t then Some p
             else if length (t_outgoingUDP t) < outgoingUDPCap
             then Some (upd_tun a (\<lambda>t. t\<lparr>t_outgoingUDP := t_outgoingUDP t @ [BuildUDPChunkPayload (cb_stream cb) (cb_label cb) d]\<rparr>) p)
             else None)
          else
            (case seal_chunk G P (cb_session cb) FlagUDP (BuildUDPChunkPayload (cb_stream cb) (cb_label cb) d) p of
               (None, p1) \<Rightarrow> Some p1
             | (Some w, p1) \<Rightarrow>
                 Some (if length (t_outgoing t) < defaultTunnelOutgoingBuffer
                       then upd_tun a (\<lambda>t. t\<lparr>t_outgoing := t_outgoing t @ [w]\<rparr>) p1 else p1)))"

text \<open>The answer of the request takes at most one chunk from \<open>Outgoing\<close>.\<close>

definition udp_collect :: "gcm \<Rightarrow> bufpool \<Rightarrow> u32 \<Rightarrow> nat \<Rightarrow> postState \<Rightarrow> postReply \<times> postState" where
  "udp_collect G P sid a p =
     (case p_tun p a of
        None \<Rightarrow> (Post500, p)
      | Some t \<Rightarrow>
          (let (d, p1) = (if t_download t then ([], p)
                          else case t_outgoing t of
                                 [] \<Rightarrow> ([], p)
                               | x # xs \<Rightarrow> (x, upd_tun a (\<lambda>t. t\<lparr>t_outgoing := xs\<rparr>) p))
           in case seal_chunk G P sid FlagData d p1 of
                (None, p2) \<Rightarrow> (Post500, p2) | (Some w, p2) \<Rightarrow> (PostChunks [w], p2)))"

definition handleUDPData ::
  "gcm \<Rightarrow> bufpool \<Rightarrow> postEnv \<Rightarrow> instant \<Rightarrow> u32 \<Rightarrow> bytes \<Rightarrow> postState \<Rightarrow> postReply \<times> postState" where
  "handleUDPData G P E now sid payload p =
     (case ParseUDPChunk payload of
        Panic \<Rightarrow> (PostPanic, p)
      | Err _ \<Rightarrow> handleKeepalive G P sid p
      | Ok (streamID, targetAddr, d) \<Rightarrow>
          (case p_udp p of
             None \<Rightarrow> handleKeepalive G P sid p
           | Some u \<Rightarrow>
             (case GetTunnel sid p of
                None \<Rightarrow> handleKeepalive G P sid p
              | Some (a, t) \<Rightarrow>
                  if isBlockedDomain (v_uni E) (v_reverse E) (host_of targetAddr) (v_block E) then handleKeepalive G P sid p
                  else (case v_resolveUDP E targetAddr of
                          None \<Rightarrow> handleKeepalive G P sid p
                        | Some (ip, resolved) \<Rightarrow>
                            if isPrivateIP ip then handleKeepalive G P sid p
                            else udp_collect G P sid a
                              (p\<lparr>p_udp := Some (UDPSend now (sid, streamID) resolved d (reply_cb (sid, streamID) targetAddr) u)\<rparr>)))))"

subsection \<open>Download stream\<close>

definition handleDownloadStreamV2 :: "u32 \<Rightarrow> postState \<Rightarrow> postReply \<times> postState" where
  "handleDownloadStreamV2 sid p =
     (case GetTunnel sid p of
        None \<Rightarrow> (PostDecoy, p)
      | Some (a, t) \<Rightarrow>
          if t_download t then (PostDecoy, p)
          else (PostStream, upd_tun a (\<lambda>t. t\<lparr>t_download := True\<rparr>) p))"

definition download_end :: "nat \<Rightarrow> postState \<Rightarrow> postState" where
  "download_end a = upd_tun a (\<lambda>t. t\<lparr>t_download := False\<rparr>)"

text \<open>\<open>writeFrame\<close>: the encrypted chunk behind its length; a chunk that cannot be encrypted is skipped.\<close>

definition write_frame :: "gcm \<Rightarrow> bufpool \<Rightarrow> u32 \<Rightarrow> byte \<Rightarrow> bytes \<Rightarrow> postState \<Rightarrow> bytes option \<times> postState" where
  "write_frame G P sid flag d p =
     map_prod (map_option (\<lambda>w. put32 (of_nat (length w)) @ w)) id (seal_chunk G P sid flag d p)"

datatype dlSelect = DLData | DLUDP | DLKeepalive

text \<open>
  A round of \<open>runDownloadStreamLoop\<close> that does not end it: the frame written to the response, if
  encryption succeeded.  \<open>None\<close>: the case is not ready.
\<close>

definition download_step ::
  "gcm \<Rightarrow> bufpool \<Rightarrow> u32 \<Rightarrow> nat \<Rightarrow> dlSelect \<Rightarrow> postState \<Rightarrow> (bytes option \<times> postState) option" where
  "download_step G P sid a sel p =
     (case p_tun p a of
        None \<Rightarrow> None
      | Some t \<Rightarrow>
          (case sel of
             DLData \<Rightarrow>
               (case t_outgoing t of
                  [] \<Rightarrow> None
                | d # ds \<Rightarrow> Some (write_frame G P sid FlagData d (upd_tun a (\<lambda>t. t\<lparr>t_outgoing := ds\<rparr>) p)))
           | DLUDP \<Rightarrow>
               (case t_outgoingUDP t of
                  [] \<Rightarrow> None
                | d # ds \<Rightarrow> Some (write_frame G P sid FlagUDP d (upd_tun a (\<lambda>t. t\<lparr>t_outgoingUDP := ds\<rparr>) p)))
           | DLKeepalive \<Rightarrow> Some (write_frame G P sid FlagAck [] p)))"

definition BroadcastStreamClose_one :: "gcm \<Rightarrow> bufpool \<Rightarrow> bytes \<Rightarrow> u32 \<Rightarrow> nat \<Rightarrow> postState \<Rightarrow> bool \<times> postState" where
  "BroadcastStreamClose_one G P reason sid a p =
     (case p_tun p a of
        None \<Rightarrow> (False, p)
      | Some t \<Rightarrow>
          (case seal_chunk G P sid FlagFin reason p of
             (None, p1) \<Rightarrow> (False, p1)
           | (Some w, p1) \<Rightarrow>
               if length (t_outgoing t) < defaultTunnelOutgoingBuffer
               then (True, upd_tun a (\<lambda>t. t\<lparr>t_outgoing := t_outgoing t @ [w]\<rparr>) p1)
               else (False, p1)))"

subsection \<open>Dispatch\<close>

definition accept_seq :: "instant \<Rightarrow> u32 \<Rightarrow> u32 \<Rightarrow> postState \<Rightarrow> bool \<times> postState" where
  "accept_seq now sid seq p =
     (case Get sid (p_sessions p) of
        None \<Rightarrow> (False, p)
      | Some s \<Rightarrow>
          (let (ok, s1) = SessionAcceptSeqNum now seq s
           in (ok, p\<lparr>p_sessions := (p_sessions p)\<lparr>sessions := (sessions (p_sessions p))(sid \<mapsto> s1)\<rparr>\<rparr>)))"

definition routeDataChunk ::
  "gcm \<Rightarrow> bufpool \<Rightarrow> postEnv \<Rightarrow> instant \<Rightarrow> bool \<Rightarrow> bool \<Rightarrow> u32 \<Rightarrow> chunk \<Rightarrow> postState \<Rightarrow> postReply \<times> postState" where
  "routeDataChunk G P E now dialed ok sid c p =
     (case accept_seq now sid (SeqNum c) p of
        (False, p1) \<Rightarrow> sendAck G P sid p1
      | (True, p1) \<Rightarrow>
          if Flags c = FlagData then handleDataChunk G P ok sid (Payload c) p1
          else if Flags c = FlagPadding \<or> Flags c = FlagKeepalive then handleKeepalive G P sid p1
          else if Flags c = FlagConnect then handleConnect G P E dialed ok sid (Payload c) p1
          else if Flags c = FlagUDP then handleUDPData G P E now sid (Payload c) p1
          else if Flags c = FlagControl then handleControl G P sid p1
          else if Flags c = FlagFin then handleFinChunk G P sid (Payload c) p1
          else if Flags c = FlagStreamOpen then handleDownloadStreamV2 sid p1
          else handleKeepalive G P sid p1)"

subsection \<open>Runs\<close>

text \<open>
  Requests, dial goroutines, relay goroutines and sweeps interleave.  The run keeps the
  goroutines of \<open>handleConnect\<close> (dialling, flushing) and of the relays, and the data chunks that
  were dispatched so far.
\<close>

record postRun =
  w_post :: postState
  w_dials :: "(u32 \<times> nat \<times> nat \<times> u16) list"
  w_flushes :: "(u32 \<times> nat \<times> u16 \<times> nat \<times> bytes list) list"
  w_relays :: "(nat \<times> u16 \<times> nat) list"
  w_log :: "(u32 \<times> bytes) list"

datatype postAct =
    AOpen u32 gostring                 \<comment> \<open>a handshake enters a tunnel\<close>
  | AData bool u32 bytes
  | ACollect u32
  | AReply u32 byte bytes              \<comment> \<open>an encrypted answer\<close>
  | AConnect u32 bytes
  | ADialFail nat
  | ADialOk nat
  | AFlush bool nat
  | ARelay nat bytes
  | ARelayExit nat
  | AStreamFin u32 u16
  | AFin u32
  | AUdpAnswer nat receiver bytes
  | AUdpData instant u32 bytes
  | AOpenStream u32
  | AEndStream nat
  | ADownload u32 nat dlSelect
  | ABroadcast bytes u32 nat
  | ATick "gostring \<Rightarrow> u32 \<Rightarrow> bool" instant "u32 list" "u32 list"

definition new_tunnel :: "u32 \<Rightarrow> gostring \<Rightarrow> tunnel" where
  "new_tunnel sid cid =
     \<lparr>t_session = sid, t_client = cid, t_incoming = [], t_outgoing = [], t_outgoingUDP = [], t_done = False,
      t_download = False, t_wsAttached = False, t_streams = [], t_target = None, t_connected = False\<rparr>"

definition open_tunnel :: "u32 \<Rightarrow> gostring \<Rightarrow> postState \<Rightarrow> postState" where
  "open_tunnel sid cid p =
     p\<lparr>p_tunnels := (p_tunnels p)(sid \<mapsto> p_next p), p_tun := (p_tun p)(p_next p \<mapsto> new_tunnel sid cid), p_next := Suc (p_next p),
       p_active := p_active p + 1\<rparr>"

definition drop_nth :: "nat \<Rightarrow> 'a list \<Rightarrow> 'a list" where
  "drop_nth i xs = take i xs @ drop (Suc i) xs"

fun post_step :: "gcm \<Rightarrow> bufpool \<Rightarrow> postEnv \<Rightarrow> postAct \<Rightarrow> postRun \<Rightarrow> postRun" where
  "post_step G P E (AOpen sid cid) w = w\<lparr>w_post := open_tunnel sid cid (w_post w)\<rparr>"
| "post_step G P E (AData ok sid payload) w =
     w\<lparr>w_post := data_uplink ok sid payload (w_post w), w_log := (sid, payload) # w_log w\<rparr>"
| "post_step G P E (ACollect sid) w = w\<lparr>w_post := snd (data_collect G P sid (w_post w))\<rparr>"
| "post_step G P E (AReply sid flag payload) w = w\<lparr>w_post := snd (seal_chunk G P sid flag payload (w_post w))\<rparr>"
| "post_step G P E (AConnect sid payload) w =
     (case connect_begin E sid payload (w_post w) of
        (None, p) \<Rightarrow> w\<lparr>w_post := snd (sendConnectResult G P sid False p)\<rparr>
      | (Some (a, sa, streamID), p) \<Rightarrow> w\<lparr>w_post := p, w_dials := w_dials w @ [(sid, a, sa, streamID)]\<rparr>)"
| "post_step G P E (ADialFail i) w =
     (if i < length (w_dials w)
      then (case w_dials w ! i of (sid, a, sa, streamID) \<Rightarrow>
              w\<lparr>w_post := snd (connect_failed G P sid a streamID (w_post w)), w_dials := drop_nth i (w_dials w)\<rparr>)
      else w)"
| "post_step G P E (ADialOk i) w =
     (if i < length (w_dials w)
      then (case w_dials w ! i of (sid, a, sa, streamID) \<Rightarrow>
              (case connect_activate sid sa (w_post w) of
                 ((c, pending), p) \<Rightarrow>
                   w\<lparr>w_post := p, w_dials := drop_nth i (w_dials w), w_flushes := w_flushes w @ [(sid, a, streamID, c, pending)]\<rparr>))
      else w)"
| "post_step G P E (AFlush ok i) w =
     (if i < length (w_flushes w)
      then (case w_flushes w ! i of
              (sid, a, streamID, c, d # ds) \<Rightarrow>
                w\<lparr>w_post := connect_flush ok c d (w_post w), w_flushes := (w_flushes w)[i := (sid, a, streamID, c, ds)]\<rparr>
            | (sid, a, streamID, c, []) \<Rightarrow>
                w\<lparr>w_post := snd (connect_finish G P sid a streamID c (w_post w)), w_flushes := drop_nth i (w_flushes w),
                  w_relays := w_relays w @ [(a, streamID, c)]\<rparr>)
      else w)"
| "post_step G P E (ARelay i d) w =
     (if i < length (w_relays w)
      then (case w_relays w ! i of (a, streamID, c) \<Rightarrow>
              (case relay_read a streamID d (w_post w) of None \<Rightarrow> w | Some p \<Rightarrow> w\<lparr>w_post := p\<rparr>))
      else w)"
| "post_step G P E (ARelayExit i) w =
     (if i < length (w_relays w)
      then (case w_relays w ! i of (a, streamID, c) \<Rightarrow>
              w\<lparr>w_post := relay_exit a streamID c (w_post w), w_relays := drop_nth i (w_relays w)\<rparr>)
      else w)"
| "post_step G P E (AStreamFin sid streamID) w = w\<lparr>w_post := handleStreamFin sid streamID (w_post w)\<rparr>"
| "post_step G P E (AFin sid) w = w\<lparr>w_post := handleFin sid (w_post w)\<rparr>"
| "post_step G P E (AUdpAnswer a cb d) w =
     (case udp_answer G P a cb d (w_post w) of None \<Rightarrow> w | Some p \<Rightarrow> w\<lparr>w_post := p\<rparr>)"
| "post_step G P E (AUdpData now sid payload) w = w\<lparr>w_post := snd (handleUDPData G P E now sid payload (w_post w))\<rparr>"
| "post_step G P E (AOpenStream sid) w = w\<lparr>w_post := snd (handleDownloadStreamV2 sid (w_post w))\<rparr>"
| "post_step G P E (AEndStream a) w = w\<lparr>w_post := download_end a (w_post w)\<rparr>"
| "post_step G P E (ADownload sid a sel) w =
     (case download_step G P sid a sel (w_post w) of None \<Rightarrow> w | Some (_, p) \<Rightarrow> w\<lparr>w_post := p\<rparr>)"
| "post_step G P E (ABroadcast reason sid a) w = w\<lparr>w_post := snd (BroadcastStreamClose_one G P reason sid a (w_post w))\<rparr>"
| "post_step G P E (ATick hasBound now keys tkeys) w = w\<lparr>w_post := cleanup_tick hasBound now keys tkeys (w_post w)\<rparr>"

definition post_start :: "sessionManager \<Rightarrow> clientAuth \<Rightarrow> udpRelay option \<Rightarrow> postRun" where
  "post_start sm ca u =
     \<lparr>w_post = \<lparr>p_sessions = sm, p_auth = ca, p_udp = u, p_tunnels = Map.empty, p_tun = Map.empty, p_str = Map.empty,
                p_con = Map.empty, p_next = 0, p_active = 0\<rparr>,
      w_dials = [], w_flushes = [], w_relays = [], w_log = []\<rparr>"

end
