(* ===== verification/Server_Tunnel_Props.thy ===== *)
theory Server_Tunnel_Props
  imports Server_Tunnel
begin

section \<open>Correctness of the POST data path\<close>

text \<open>
  The well-formedness of the tunnel state and that every step of every goroutine keeps it; from
  it that target connections only receive bytes of their own stream, that the stream table and
  the channels stay within their bounds, and what FIN and the sweeps release.
\<close>

subsection \<open>Well-formedness\<close>

text \<open>The bytes \<open>d\<close> were sent by session \<open>sid\<close> on stream \<open>i\<close>, or raw by a legacy client (stream 0).\<close>

definition sent_on :: "(u32 \<times> bytes) list \<Rightarrow> u32 \<Rightarrow> u16 \<Rightarrow> bytes \<Rightarrow> bool" where
  "sent_on L sid i d \<longleftrightarrow> (\<exists>payload. (sid, payload) \<in> set L \<and> (ParseStreamID payload = (i, d) \<or> i = 0 \<and> payload = d))"

definition stream_ok :: "(u32 \<times> bytes) list \<Rightarrow> (nat \<rightharpoonup> tconn) \<Rightarrow> streamConn \<Rightarrow> bool" where
  "stream_ok L con sc \<longleftrightarrow>
     length (sc_pending sc) \<le> postPendingMax \<and>
     (\<forall>d \<in> set (sc_pending sc). sent_on L (sc_session sc) (sc_id sc) d) \<and>
     (\<forall>c. sc_target sc = Some c \<longrightarrow> (\<exists>x. con c = Some x \<and> c_session x = sc_session sc \<and> c_stream x = sc_id sc))"

definition tunnel_ok :: "(nat \<rightharpoonup> streamConn) \<Rightarrow> (nat \<rightharpoonup> tconn) \<Rightarrow> tunnel \<Rightarrow> bool" where
  "tunnel_ok str con t \<longleftrightarrow>
     distinct (map fst (t_streams t)) \<and> length (t_streams t) \<le> maxStreamsPerSession \<and>
     length (t_incoming t) \<le> incomingCap \<and> length (t_outgoing t) \<le> defaultTunnelOutgoingBuffer \<and>
     length (t_outgoingUDP t) \<le> outgoingUDPCap \<and>
     (\<forall>i sa. (i, sa) \<in> set (t_streams t) \<longrightarrow> (\<exists>sc. str sa = Some sc \<and> sc_id sc = i \<and> sc_session sc = t_session t)) \<and>
     (\<forall>c. t_target t = Some c \<longrightarrow> (\<exists>x. con c = Some x \<and> c_session x = t_session t \<and> c_stream x = 0))"

definition conn_ok :: "(u32 \<times> bytes) list \<Rightarrow> tconn \<Rightarrow> bool" where
  "conn_ok L x \<longleftrightarrow> (\<forall>d \<in> set (c_written x). sent_on L (c_session x) (c_stream x) d)"

definition post_ok :: "(u32 \<times> bytes) list \<Rightarrow> postState \<Rightarrow> bool" where
  "post_ok L p \<longleftrightarrow>
     (\<forall>sid a. p_tunnels p sid = Some a \<longrightarrow> (\<exists>t. p_tun p a = Some t \<and> t_session t = sid)) \<and>
     (\<forall>a t. p_tun p a = Some t \<longrightarrow> a < p_next p \<and> tunnel_ok (p_str p) (p_con p) t) \<and>
     (\<forall>a sc. p_str p a = Some sc \<longrightarrow> a < p_next p \<and> stream_ok L (p_con p) sc) \<and>
     (\<forall>a x. p_con p a = Some x \<longrightarrow> a < p_next p \<and> conn_ok L x)"

lemma post_okD:
  assumes "post_ok L p"
  shows "p_tunnels p sid = Some a \<Longrightarrow> \<exists>t. p_tun p a = Some t \<and> t_session t = sid"
    and "p_tun p a = Some t \<Longrightarrow> a < p_next p \<and> tunnel_ok (p_str p) (p_con p) t"
    and "p_str p a = Some sc \<Longrightarrow> a < p_next p \<and> stream_ok L (p_con p) sc"
    and "p_con p a = Some x \<Longrightarrow> a < p_next p \<and> conn_ok L x"
  using assms unfolding post_ok_def by blast+

text \<open>Only these fields matter.\<close>

lemma post_ok_cong:
  assumes "post_ok L p" "p_tunnels p' = p_tunnels p" "p_tun p' = p_tun p" "p_str p' = p_str p" "p_con p' = p_con p" "p_next p' = p_next p"
  shows "post_ok L p'"
  using assms by (simp add: post_ok_def)

lemma sent_on_mono: "sent_on L sid i d \<Longrightarrow> set L \<subseteq> set L' \<Longrightarrow> sent_on L' sid i d"
  unfolding sent_on_def by blast

lemma post_ok_mono:
  assumes "post_ok L p" "set L \<subseteq> set L'"
  shows "post_ok L' p"
  using assms sent_on_mono [OF _ assms(2)] unfolding post_ok_def stream_ok_def conn_ok_def by meson

text \<open>Connections may change as long as they keep their owner.\<close>

definition con_ext :: "(nat \<rightharpoonup> tconn) \<Rightarrow> (nat \<rightharpoonup> tconn) \<Rightarrow> bool" where
  "con_ext m m' \<longleftrightarrow>
     (\<forall>c x. m c = Some x \<longrightarrow> (\<exists>x'. m' c = Some x' \<and> c_session x' = c_session x \<and> c_stream x' = c_stream x))"

lemma con_extD: "con_ext m m' \<Longrightarrow> m c = Some x \<Longrightarrow> \<exists>x'. m' c = Some x' \<and> c_session x' = c_session x \<and> c_stream x' = c_stream x"
  unfolding con_ext_def by blast

lemma con_ext_ok:
  assumes "con_ext m m'"
  shows "tunnel_ok str m t \<Longrightarrow> tunnel_ok str m' t" and "stream_ok L m sc \<Longrightarrow> stream_ok L m' sc"
  using con_extD [OF assms] unfolding tunnel_ok_def stream_ok_def by metis+

lemma str_ext_ok: "(\<And>b sc. str b = Some sc \<Longrightarrow> str' b = Some sc) \<Longrightarrow> tunnel_ok str con t \<Longrightarrow> tunnel_ok str' con t"
  unfolding tunnel_ok_def by metis

lemma post_ok_con:
  assumes "post_ok L p" "con_ext (p_con p) con" "\<And>a x. con a = Some x \<Longrightarrow> a < p_next p \<and> conn_ok L x"
  shows "post_ok L (p\<lparr>p_con := con\<rparr>)"
  unfolding post_ok_def using post_okD [OF assms(1)] con_ext_ok [OF assms(2)] assms(3) by simp

lemma post_ok_tun:
  assumes "post_ok L p"
    and "\<And>t. p_tun p a = Some t \<Longrightarrow> t_session (f t) = t_session t \<and> tunnel_ok (p_str p) (p_con p) (f t)"
  shows "post_ok L (upd_tun a f p)"
  unfolding post_ok_def using post_okD [OF assms(1)] assms(2) by (simp add: upd_tun_def) blast

text \<open>A tunnel update that leaves streams and legacy target alone only has to respect the channels.\<close>

lemma post_ok_chan:
  assumes "post_ok L p"
    and "\<And>t. t_session (f t) = t_session t \<and> t_streams (f t) = t_streams t \<and> t_target (f t) = t_target t"
    and "\<And>t. p_tun p a = Some t \<Longrightarrow> length (t_incoming (f t)) \<le> incomingCap \<and>
           length (t_outgoing (f t)) \<le> defaultTunnelOutgoingBuffer \<and> length (t_outgoingUDP (f t)) \<le> outgoingUDPCap"
  shows "post_ok L (upd_tun a f p)"
  using assms(1)
proof (rule post_ok_tun)
  fix t assume t: "p_tun p a = Some t"
  show "t_session (f t) = t_session t \<and> tunnel_ok (p_str p) (p_con p) (f t)"
    using conjunct2 [OF post_okD(2) [OF assms(1) t]] assms(2) [of t] assms(3) [OF t] by (simp add: tunnel_ok_def)
qed

lemma chan_caps:
  assumes "post_ok L p" "p_tun p a = Some t"
  shows "length (t_incoming t) \<le> incomingCap" "length (t_outgoing t) \<le> defaultTunnelOutgoingBuffer" "length (t_outgoingUDP t) \<le> outgoingUDPCap"
  using post_okD(2) [OF assms] by (simp_all add: tunnel_ok_def)

subsection \<open>Every operation keeps it\<close>

lemma seal_chunk_frame:
  "p_tunnels (snd (seal_chunk G P sid fl d p)) = p_tunnels p" "p_tun (snd (seal_chunk G P sid fl d p)) = p_tun p"
  "p_str (snd (seal_chunk G P sid fl d p)) = p_str p" "p_con (snd (seal_chunk G P sid fl d p)) = p_con p"
  "p_next (snd (seal_chunk G P sid fl d p)) = p_next p" "p_udp (snd (seal_chunk G P sid fl d p)) = p_udp p"
  "p_auth (snd (seal_chunk G P sid fl d p)) = p_auth p" "p_active (snd (seal_chunk G P sid fl d p)) = p_active p"
  by (simp_all add: seal_chunk_def NextSeqNum_def split: option.splits prod.splits)

lemma post_ok_seal: "post_ok L p \<Longrightarrow> seal_chunk G P sid fl d p = (w, p') \<Longrightarrow> post_ok L p'"
  by (rule post_ok_cong [of L p]) (use seal_chunk_frame [of G P sid fl d p] in simp_all)

lemma post_ok_seal_snd: "post_ok L p \<Longrightarrow> post_ok L (snd (seal_chunk G P sid fl d p))"
  using post_ok_seal [of L p G P sid fl d] by (metis prod.collapse)

lemma post_ok_reply:
  assumes "post_ok L p"
  shows "post_ok L (snd (sendAck G P sid p))" "post_ok L (snd (handleKeepalive G P sid p))" "post_ok L (snd (sendConnectResult G P sid b p))"
  using post_ok_seal_snd [OF assms]
  by (auto simp: sendAck_def handleKeepalive_def sendConnectResult_def post_ok_seal [OF assms] split: prod.split option.split)

lemma post_ok_close: assumes "post_ok L p" shows "post_ok L (close_con c p)"
proof -
  have "post_ok L (p\<lparr>p_con := (p_con p)(c := map_option (\<lambda>x. x\<lparr>c_open := False\<rparr>) (p_con p c))\<rparr>)"
  proof (rule post_ok_con [OF assms])
    show "con_ext (p_con p) ((p_con p)(c := map_option (\<lambda>x. x\<lparr>c_open := False\<rparr>) (p_con p c)))" by (simp add: con_ext_def)
  next
    fix a x assume "((p_con p)(c := map_option (\<lambda>x. x\<lparr>c_open := False\<rparr>) (p_con p c))) a = Some x"
    then show "a < p_next p \<and> conn_ok L x" using post_okD(4) [OF assms] by (auto simp: conn_ok_def split: if_splits)
  qed
  then show ?thesis by (simp add: close_con_def upd_con_def)
qed

lemma post_ok_closes: "post_ok L p \<Longrightarrow> post_ok L (close_cons cs p)"
  by (induction cs arbitrary: p) (simp_all add: close_cons_def post_ok_close)

lemma post_ok_write:
  assumes ok: "post_ok L p" and "\<And>y. p_con p c = Some y \<Longrightarrow> sent_on L (c_session y) (c_stream y) d"
  shows "post_ok L (snd (write_to ok c d p))"
proof (cases "p_con p c")
  case (Some y)
  define m where "m = (p_con p)(c := Some (snd (conn_write ok d y)))"
  have "post_ok L (p\<lparr>p_con := m\<rparr>)"
  proof (rule post_ok_con [OF ok])
    show "con_ext (p_con p) m" using Some by (auto simp: con_ext_def m_def conn_write_def)
  next
    fix a x assume x: "m a = Some x"
    show "a < p_next p \<and> conn_ok L x"
    proof (cases "a = c")
      case True
      have "sent_on L (c_session y) (c_stream y) d" by (rule assms(2) [OF Some])
      then show ?thesis using x True post_okD(4) [OF ok Some] by (auto simp: m_def conn_write_def conn_ok_def split: if_splits)
    next
      case False then show ?thesis using x post_okD(4) [OF ok] by (simp add: m_def)
    qed
  qed
  then show ?thesis using Some by (simp add: write_to_def upd_con_def m_def)
qed (simp add: write_to_def ok)

lemma post_ok_del: "post_ok L p \<Longrightarrow> post_ok L (del_stream a i p)"
  unfolding del_stream_def
proof (rule post_ok_tun)
  fix t assume "post_ok L p" "p_tun p a = Some t"
  then have "tunnel_ok (p_str p) (p_con p) t" using post_okD(2) by blast
  moreover from this have "length (filter (\<lambda>e. fst e \<noteq> i) (t_streams t)) \<le> maxStreamsPerSession"
    by (metis length_filter_le order_trans tunnel_ok_def)
  ultimately show "t_session (t\<lparr>t_streams := filter (\<lambda>e. fst e \<noteq> i) (t_streams t)\<rparr>) = t_session t \<and>
      tunnel_ok (p_str p) (p_con p) (t\<lparr>t_streams := filter (\<lambda>e. fst e \<noteq> i) (t_streams t)\<rparr>)"
    by (simp add: tunnel_ok_def distinct_map_filter)
qed

lemma write_to_frame [simp]:
  "p_tun (snd (write_to ok c d p)) = p_tun p" "p_str (snd (write_to ok c d p)) = p_str p" "p_next (snd (write_to ok c d p)) = p_next p"
  by (simp_all add: write_to_def upd_con_def split: option.splits)

lemma GetTunnel_ok:
  assumes "post_ok L p" "GetTunnel sid p = Some (a, t)"
  shows "p_tunnels p sid = Some a" "p_tun p a = Some t" "t_session t = sid" "tunnel_ok (p_str p) (p_con p) t"
  using assms post_okD(1,2) [OF assms(1)] by (force simp: GetTunnel_def split: option.splits)+

lemma stream_lookup_ok:
  assumes ok: "post_ok L p" and t: "GetTunnel sid p = Some (a, t)" and i: "map_of (t_streams t) i = Some sa"
  shows "\<exists>sc. p_str p sa = Some sc \<and> sc_id sc = i \<and> sc_session sc = sid \<and> stream_ok L (p_con p) sc"
proof -
  have "\<exists>sc. p_str p sa = Some sc \<and> sc_id sc = i \<and> sc_session sc = sid"
    using GetTunnel_ok(3,4) [OF ok t] map_of_SomeD [OF i] by (simp add: tunnel_ok_def)
  then show ?thesis using post_okD(3) [OF ok] by blast
qed

lemma post_ok_str:
  assumes ok: "post_ok L p"
    and f: "\<And>s. p_str p sa = Some s \<Longrightarrow> sc_id (f s) = sc_id s \<and> sc_session (f s) = sc_session s \<and> stream_ok L (p_con p) (f s)"
  shows "post_ok L (upd_str sa f p)"
proof -
  have "tunnel_ok ((p_str p)(sa := map_option f (p_str p sa))) (p_con p) t" if "p_tun p a = Some t" for a t
  proof -
    have "\<exists>sc. ((p_str p)(sa := map_option f (p_str p sa))) b = Some sc \<and> sc_id sc = i \<and> sc_session sc = t_session t"
      if b: "(i, b) \<in> set (t_streams t)" for i b
    proof -
      obtain sc where "p_str p b = Some sc" "sc_id sc = i" "sc_session sc = t_session t"
        using b conjunct2 [OF post_okD(2) [OF ok \<open>p_tun p a = Some t\<close>]] unfolding tunnel_ok_def by blast
      then show ?thesis using f by (cases "b = sa") auto
    qed
    then show ?thesis using conjunct2 [OF post_okD(2) [OF ok \<open>p_tun p a = Some t\<close>]] unfolding tunnel_ok_def by blast
  qed
  moreover have "b < p_next p \<and> stream_ok L (p_con p) sc" if "((p_str p)(sa := map_option f (p_str p sa))) b = Some sc" for b sc
    using that f post_okD(3) [OF ok] by (auto split: if_splits)
  ultimately show ?thesis using post_okD(1,2,4) [OF ok] unfolding post_ok_def upd_str_def by simp
qed

lemma post_ok_stream_write:
  assumes ok: "post_ok L p" and t: "GetTunnel sid p = Some (a, t)" and sa: "map_of (t_streams t) i = Some sa" and d: "sent_on L sid i d"
  shows "post_ok L (stream_write b a i sa d p)"
proof -
  obtain sc where sc: "p_str p sa = Some sc" "sc_id sc = i" "sc_session sc = sid" "stream_ok L (p_con p) sc"
    using stream_lookup_ok [OF ok t sa] by blast
  show ?thesis
  proof (cases "sc_target sc")
    case None
    have "stream_ok L (p_con p) (sc\<lparr>sc_pending := sc_pending sc @ [d]\<rparr>)" if "length (sc_pending sc) < postPendingMax"
      using sc d that by (simp add: stream_ok_def)
    then have "length (sc_pending sc) < postPendingMax \<Longrightarrow> post_ok L (upd_str sa (\<lambda>s. s\<lparr>sc_pending := sc_pending s @ [d]\<rparr>) p)"
      by (intro post_ok_str [OF ok]) (simp add: sc(1))
    then show ?thesis using None sc(1) ok by (simp add: stream_write_def)
  next
    case (Some c)
    then obtain x where "p_con p c = Some x" "c_session x = sid" "c_stream x = i" using sc by (auto simp: stream_ok_def)
    then have "post_ok L (snd (write_to b c d p))" using d by (intro post_ok_write [OF ok]) simp
    then show ?thesis using Some sc(1) post_ok_close [OF post_ok_del]
      by (cases "write_to b c d p") (auto simp: stream_write_def split: bool.split)
  qed
qed

lemma post_ok_data_uplink:
  assumes ok: "post_ok L p" and log: "(sid, payload) \<in> set L"
  shows "post_ok L (data_uplink b sid payload p)"
proof (cases "GetTunnel sid p")
  case None then show ?thesis by (simp add: data_uplink_def ok)
next
  case (Some at)
  obtain a t where t: "GetTunnel sid p = Some (a, t)" using Some by (cases at) auto
  note T = GetTunnel_ok [OF ok t]
  obtain i d where pr: "ParseStreamID payload = (i, d)" by fastforce
  have "sent_on L sid i d" using log pr by (auto simp: sent_on_def)
  then have 1: "post_ok L (stream_write b a i sa d p)" if "map_of (t_streams t) i = Some sa" for sa
    using post_ok_stream_write [OF ok t that] by simp
  have 2: "post_ok L (snd (write_to b c payload p))" if c: "t_target t = Some c" for c
  proof -
    obtain x where "p_con p c = Some x" "c_session x = sid" "c_stream x = 0" using T(3,4) c by (auto simp: tunnel_ok_def)
    moreover have "sent_on L sid 0 payload" using log by (auto simp: sent_on_def)
    ultimately show ?thesis by (intro post_ok_write [OF ok]) simp
  qed
  have 3: "post_ok L (upd_tun a (\<lambda>t. t\<lparr>t_incoming := t_incoming t @ [payload]\<rparr>) p)" if "length (t_incoming t) < incomingCap"
    using chan_caps [OF ok T(2)] that T(2) by (intro post_ok_chan [OF ok]) auto
  show ?thesis using t pr ok 1 2 3 by (simp add: data_uplink_def split: option.split)
qed

lemma batch_loop_split: "fst (batch_loop n b q) @ snd (batch_loop n b q) = q"
  by (induction n b q rule: batch_loop.induct) (auto simp: Let_def split: prod.splits)

lemma collect_batch_split: "fst (collect_batch q) @ snd (collect_batch q) = q"
  by (cases q) (simp_all add: collect_batch_def case_prod_beta batch_loop_split)

lemma collect_batch_le: "length (snd (collect_batch q)) \<le> length q"
  using arg_cong [OF collect_batch_split [of q], of length] by simp

lemma post_ok_seal_all: "post_ok L p \<Longrightarrow> post_ok L (snd (seal_all G P sid ds p))"
proof (induction ds arbitrary: p)
  case (Cons d ds) then show ?case using post_ok_seal [OF Cons.prems] by (fastforce simp: Let_def split: prod.split)
qed simp

lemma post_ok_data_collect:
  assumes ok: "post_ok L p"
  shows "post_ok L (snd (data_collect G P sid p))"
proof -
  define r where "r = (case GetTunnel sid p of None \<Rightarrow> ([], p)
     | Some (a, t) \<Rightarrow> if t_download t then ([], p)
         else (fst (collect_batch (t_outgoing t)), upd_tun a (\<lambda>t. t\<lparr>t_outgoing := snd (collect_batch (t_outgoing t))\<rparr>) p))"
  have "post_ok L (upd_tun a (\<lambda>t. t\<lparr>t_outgoing := snd (collect_batch (t_outgoing t))\<rparr>) p)" for a
    using chan_caps [OF ok] order_trans [OF collect_batch_le] by (intro post_ok_chan [OF ok]) auto
  then have "post_ok L (snd r)" using ok by (simp add: r_def split: option.split prod.split)
  then show ?thesis using post_ok_seal_all [of L "snd r" G P sid "fst r"] post_ok_seal_snd [of L "snd r" G P sid FlagData "[]"]
    by (simp add: data_collect_def r_def [symmetric] case_prod_beta split: option.split)
qed

lemma post_ok_connect_begin:
  assumes ok: "post_ok L p" and c: "connect_begin E sid payload p = (res, p')"
  shows "post_ok L p' \<and> (\<forall>a sa i. res = Some (a, sa, i) \<longrightarrow>
     (\<exists>t sc. p_tun p' a = Some t \<and> t_session t = sid \<and> p_str p' sa = Some sc \<and> sc_id sc = i \<and> sc_session sc = sid))"
proof (cases "GetTunnel sid p")
  case None then show ?thesis using c ok by (auto simp: connect_begin_def split: prod.splits if_splits)
next
  case (Some at)
  obtain a t where t: "GetTunnel sid p = Some (a, t)" using Some by (cases at) auto
  note T = GetTunnel_ok [OF ok t]
  obtain i tgt where pr: "ParseStreamID payload = (i, tgt)" by fastforce
  let ?sa = "p_next p" and ?sc = "\<lparr>sc_id = i, sc_session = sid, sc_target = None, sc_pending = []\<rparr>"
  define p1 where "p1 = p\<lparr>p_next := Suc ?sa, p_str := (p_str p)(?sa \<mapsto> ?sc)\<rparr>"
  have fresh: "p_str p ?sa = None" using post_okD(3) [OF ok, of ?sa] by (cases "p_str p ?sa") auto
  have "tunnel_ok (p_str p1) (p_con p) t'" if "tunnel_ok (p_str p) (p_con p) t'" for t'
    using that fresh by (intro str_ext_ok [OF _ that]) (auto simp: p1_def)
  then have ok1: "post_ok L p1" using post_okD [OF ok] unfolding post_ok_def
    by (auto simp: p1_def stream_ok_def less_Suc_eq)
  have f1: "p_tun p1 = p_tun p" "p_str p1 ?sa = Some ?sc" by (simp_all add: p1_def)
  have reg: "post_ok L (upd_tun a (\<lambda>t. t\<lparr>t_streams := (i, ?sa) # t_streams t\<rparr>) p1)"
    if "map_of (t_streams t) i = None" "length (t_streams t) < maxStreamsPerSession"
  proof (rule post_ok_tun [OF ok1])
    fix t' assume t': "p_tun p1 a = Some t'"
    then have "t' = t" using T(2) f1 by simp
    then show "t_session (t'\<lparr>t_streams := (i, ?sa) # t_streams t'\<rparr>) = t_session t' \<and>
        tunnel_ok (p_str p1) (p_con p1) (t'\<lparr>t_streams := (i, ?sa) # t_streams t'\<rparr>)"
      using post_okD(2) [OF ok1 t'] that f1 T(3) by (auto simp: tunnel_ok_def map_of_eq_None_iff)
  qed
  show ?thesis using c ok ok1 reg T f1 t pr
    by (auto simp: connect_begin_def registerPOSTStream_def Let_def p1_def [symmetric] upd_tun_def not_le split: if_splits)
qed

lemma post_ok_activate:
  assumes ok: "post_ok L p" and sc: "p_str p sa = Some sc" "sc_session sc = sid"
  shows "post_ok L (snd (connect_activate sid sa p))"
    and "fst (connect_activate sid sa p) = (p_next p, sc_pending sc)"
    and "\<exists>x. p_con (snd (connect_activate sid sa p)) (p_next p) = Some x \<and> c_session x = sid \<and> c_stream x = sc_id sc"
    and "p_tun (snd (connect_activate sid sa p)) = p_tun p"
proof -
  let ?c = "p_next p" and ?x = "\<lparr>c_open = True, c_written = [], c_session = sid, c_stream = sc_id sc\<rparr>"
  have fresh: "p_con p ?c = None" using post_okD(4) [OF ok, of ?c] by (cases "p_con p ?c") auto
  define p1 where "p1 = p\<lparr>p_next := Suc ?c, p_con := (p_con p)(?c \<mapsto> ?x)\<rparr>"
  have "con_ext (p_con p) (p_con p1)" using fresh by (auto simp: con_ext_def p1_def)
  from con_ext_ok [OF this] have ok1: "post_ok L p1" using post_okD [OF ok] unfolding post_ok_def
    by (auto simp: p1_def conn_ok_def less_Suc_eq)
  have "post_ok L (upd_str sa (\<lambda>s. s\<lparr>sc_target := Some ?c, sc_pending := []\<rparr>) p1)"
    using sc by (intro post_ok_str [OF ok1]) (simp add: p1_def stream_ok_def)
  then show "post_ok L (snd (connect_activate sid sa p))" using sc by (simp add: connect_activate_def p1_def Let_def)
  show "fst (connect_activate sid sa p) = (p_next p, sc_pending sc)" using sc by (simp add: connect_activate_def Let_def)
  show "\<exists>x. p_con (snd (connect_activate sid sa p)) (p_next p) = Some x \<and> c_session x = sid \<and> c_stream x = sc_id sc"
    using sc by (simp add: connect_activate_def Let_def upd_str_def)
  show "p_tun (snd (connect_activate sid sa p)) = p_tun p" by (simp add: connect_activate_def Let_def upd_str_def)
qed

lemma post_ok_finish:
  assumes ok: "post_ok L p" and t: "p_tun p a = Some t" "t_session t = sid"
    and x: "p_con p c = Some x" "c_session x = sid" "c_stream x = i"
  shows "post_ok L (snd (connect_finish G P sid a i c p))"
proof -
  have "post_ok L (upd_tun a (\<lambda>t. t\<lparr>t_target := (if i = 0 then Some c else t_target t), t_connected := True\<rparr>) p)"
  proof (rule post_ok_tun [OF ok])
    fix t' assume "p_tun p a = Some t'"
    then show "t_session (t'\<lparr>t_target := (if i = 0 then Some c else t_target t'), t_connected := True\<rparr>) = t_session t' \<and>
        tunnel_ok (p_str p) (p_con p) (t'\<lparr>t_target := (if i = 0 then Some c else t_target t'), t_connected := True\<rparr>)"
      using post_okD(2) [OF ok t(1)] t x by (auto simp: tunnel_ok_def)
  qed
  then show ?thesis unfolding connect_finish_def by (rule post_ok_reply(3))
qed

lemma post_ok_relay: "post_ok L p \<Longrightarrow> relay_read a i d p = Some p' \<Longrightarrow> post_ok L p'"
proof -
  assume ok: "post_ok L p" and r: "relay_read a i d p = Some p'"
  have "post_ok L (upd_tun a (\<lambda>t. t\<lparr>t_outgoing := t_outgoing t @ [put16 i @ d]\<rparr>) p)"
    if "p_tun p a = Some t" "length (t_outgoing t) < defaultTunnelOutgoingBuffer" for t
    using that chan_caps [OF ok that(1)] by (intro post_ok_chan [OF ok]) auto
  then show ?thesis using r ok by (auto simp: relay_read_def split: option.splits if_splits)
qed

lemma post_ok_fields:
  assumes "post_ok L p"
  shows "post_ok L (p\<lparr>p_udp := u\<rparr>)" "post_ok L (p\<lparr>p_auth := ca\<rparr>)" "post_ok L (p\<lparr>p_sessions := sm\<rparr>)" "post_ok L (p\<lparr>p_active := n\<rparr>)"
  by (rule post_ok_cong [OF assms]; simp)+

lemma post_ok_drop: assumes ok: "post_ok L p" shows "post_ok L (drop_tunnel sid p)"
proof (cases "GetTunnel sid p")
  case None then show ?thesis by (simp add: drop_tunnel_def ok)
next
  case (Some at)
  obtain a t where t: "GetTunnel sid p = Some (a, t)" using Some by (cases at) auto
  define p1 where "p1 = (if t_client t = [] then p else p\<lparr>p_auth := OnSessionDestroyed (t_client t) sid (p_auth p)\<rparr>)"
  define p2 where "p2 = close_cons (stream_conns t p1 @ (case t_target t of None \<Rightarrow> [] | Some c \<Rightarrow> [c])) p1"
  define p3 where "p3 = upd_tun a (\<lambda>t. t\<lparr>t_done := True\<rparr>) p2"
  have "post_ok L p1" using ok post_ok_fields by (simp add: p1_def)
  then have ok2: "post_ok L p2" unfolding p2_def by (rule post_ok_closes)
  then have ok3: "post_ok L p3" unfolding p3_def using chan_caps [OF ok2] by (intro post_ok_chan [OF ok2]) auto
  have "post_ok L (p3\<lparr>p_tunnels := (p_tunnels p3)(sid := None)\<rparr>)" using post_okD [OF ok3] unfolding post_ok_def by simp
  then show ?thesis using t by (simp add: drop_tunnel_def p1_def p2_def p3_def Let_def)
qed

lemma post_ok_fin: assumes "post_ok L p" shows "post_ok L (handleFin sid p)"
  unfolding handleFin_def udp_remove_def Let_def using post_ok_drop [OF assms]
  by (intro post_ok_fields) simp

lemma post_ok_stream_fin: assumes "post_ok L p" shows "post_ok L (handleStreamFin sid i p)"
  using post_ok_del [OF assms] post_ok_close [OF post_ok_del [OF assms]]
  by (auto simp: handleStreamFin_def Let_def post_ok_fields assms split: option.split)

lemma post_ok_reap: "post_ok L p \<Longrightarrow> post_ok L (reapOrphanTunnels ids p)"
  by (induction ids arbitrary: p) (simp_all add: reapOrphanTunnels_def reap_one_def post_ok_fields post_ok_drop)

lemma post_ok_reap_expired: "post_ok L p \<Longrightarrow> post_ok L (fold reap_expired ids p)"
  by (induction ids arbitrary: p) (simp_all add: reap_expired_def udp_remove_def post_ok_fields post_ok_drop)

lemma post_ok_tick: assumes "post_ok L p" shows "post_ok L (cleanup_tick hb now keys tkeys p)"
  using assms
  by (auto simp: cleanup_tick_def tick_newborn_def tick_ghosts_def tick_expired_def Let_def
      intro!: post_ok_reap post_ok_reap_expired post_ok_fields split: prod.splits)

lemma post_ok_open: assumes ok: "post_ok L p" shows "post_ok L (open_tunnel sid cid p)"
  using post_okD [OF ok] unfolding post_ok_def open_tunnel_def
  by (auto simp: new_tunnel_def tunnel_ok_def less_Suc_eq)

lemma post_ok_udp_answer: "post_ok L p \<Longrightarrow> udp_answer G P a cb d p = Some p' \<Longrightarrow> post_ok L p'"
proof -
  assume ok: "post_ok L p" and r: "udp_answer G P a cb d p = Some p'"
  let ?s = "seal_chunk G P (cb_session cb) FlagUDP (BuildUDPChunkPayload (cb_stream cb) (cb_label cb) d) p"
  note ok1 = post_ok_seal_snd [OF ok, of G P "cb_session cb" FlagUDP "BuildUDPChunkPayload (cb_stream cb) (cb_label cb) d"]
  have "post_ok L (upd_tun a (\<lambda>t. t\<lparr>t_outgoingUDP := t_outgoingUDP t @ [y]\<rparr>) p)"
    if "p_tun p a = Some t" "length (t_outgoingUDP t) < outgoingUDPCap" for t y
    using that chan_caps [OF ok that(1)] by (intro post_ok_chan [OF ok]) auto
  moreover have "post_ok L (upd_tun a (\<lambda>t. t\<lparr>t_outgoing := t_outgoing t @ [y]\<rparr>) (snd ?s))"
    if "p_tun p a = Some t" "length (t_outgoing t) < defaultTunnelOutgoingBuffer" for t y
    using that chan_caps [OF ok that(1)] by (intro post_ok_chan [OF ok1]) (auto simp: seal_chunk_frame)
  ultimately show ?thesis using r ok ok1 by (auto simp: udp_answer_def split: option.splits if_splits prod.splits)
qed

text \<open>Taking the head of \<open>Outgoing\<close> or \<open>OutgoingUDP\<close>.\<close>

lemma post_ok_take:
  assumes ok: "post_ok L p" and t: "p_tun p a = Some t"
  shows "t_outgoing t = x # xs \<Longrightarrow> post_ok L (upd_tun a (\<lambda>t. t\<lparr>t_outgoing := xs\<rparr>) p)"
    and "t_outgoingUDP t = x # xs \<Longrightarrow> post_ok L (upd_tun a (\<lambda>t. t\<lparr>t_outgoingUDP := xs\<rparr>) p)"
  using t chan_caps [OF ok t] by (auto intro!: post_ok_chan [OF ok])

lemma post_ok_udp_collect: assumes ok: "post_ok L p" shows "post_ok L (snd (udp_collect G P sid a p))"
proof (cases "p_tun p a")
  case (Some t)
  define r where "r = (if t_download t then ([], p)
     else case t_outgoing t of [] \<Rightarrow> ([], p) | x # xs \<Rightarrow> (x, upd_tun a (\<lambda>t. t\<lparr>t_outgoing := xs\<rparr>) p))"
  have "post_ok L (snd r)" using post_ok_take(1) [OF ok Some] ok by (simp add: r_def split: list.split)
  then show ?thesis using Some post_ok_seal_snd [of L "snd r" G P sid FlagData "fst r"]
    by (simp add: udp_collect_def r_def [symmetric] case_prod_beta split: option.split)
qed (simp add: udp_collect_def ok)

lemma post_ok_udp_data: assumes ok: "post_ok L p" shows "post_ok L (snd (handleUDPData G P E now sid payload p))"
  using ok post_ok_reply(2) [OF ok]
  by (auto simp: handleUDPData_def intro!: post_ok_udp_collect post_ok_fields split: outcome.split option.split)

lemma post_ok_download: "post_ok L p \<Longrightarrow> download_step G P sid a sel p = Some r \<Longrightarrow> post_ok L (snd r)"
  using post_ok_take [of L p a]
  by (auto simp: download_step_def write_frame_def intro!: post_ok_seal_snd split: option.splits dlSelect.splits list.splits)

lemma post_ok_broadcast: assumes ok: "post_ok L p" shows "post_ok L (snd (BroadcastStreamClose_one G P reason sid a p))"
proof -
  note ok1 = post_ok_seal_snd [OF ok, of G P sid FlagFin reason]
  have "post_ok L (upd_tun a (\<lambda>t. t\<lparr>t_outgoing := t_outgoing t @ [y]\<rparr>) (snd (seal_chunk G P sid FlagFin reason p)))"
    if "p_tun p a = Some t" "length (t_outgoing t) < defaultTunnelOutgoingBuffer" for t y
    using that chan_caps [OF ok that(1)] by (intro post_ok_chan [OF ok1]) (auto simp: seal_chunk_frame)
  then show ?thesis using ok ok1 by (auto simp: BroadcastStreamClose_one_def split: option.splits prod.splits)
qed

lemma post_ok_flag:
  assumes ok: "post_ok L p"
  shows "post_ok L (upd_tun a (\<lambda>t. t\<lparr>t_download := b\<rparr>) p)"
  using chan_caps [OF ok] by (intro post_ok_chan [OF ok]) auto

subsection \<open>Runs\<close>

text \<open>To which session and stream an object belongs; that never changes.\<close>

definition tun_owner :: "postState \<Rightarrow> nat \<rightharpoonup> u32" where
  "tun_owner p a = map_option t_session (p_tun p a)"

definition str_owner :: "postState \<Rightarrow> nat \<rightharpoonup> u32 \<times> u16" where
  "str_owner p a = map_option (\<lambda>sc. (sc_session sc, sc_id sc)) (p_str p a)"

definition con_owner :: "postState \<Rightarrow> nat \<rightharpoonup> u32 \<times> u16" where
  "con_owner p a = map_option (\<lambda>x. (c_session x, c_stream x)) (p_con p a)"

definition heap_ext :: "postState \<Rightarrow> postState \<Rightarrow> bool" where
  "heap_ext p p' \<longleftrightarrow> map_le (tun_owner p) (tun_owner p') \<and> map_le (str_owner p) (str_owner p') \<and> map_le (con_owner p) (con_owner p')"

text \<open>The goroutines of the run hold objects of their own session and stream.\<close>

definition run_ok :: "postRun \<Rightarrow> bool" where
  "run_ok w \<longleftrightarrow>
     post_ok (w_log w) (w_post w) \<and>
     (\<forall>sid a sa i. (sid, a, sa, i) \<in> set (w_dials w) \<longrightarrow>
        tun_owner (w_post w) a = Some sid \<and> str_owner (w_post w) sa = Some (sid, i)) \<and>
     (\<forall>sid a i c ds. (sid, a, i, c, ds) \<in> set (w_flushes w) \<longrightarrow>
        tun_owner (w_post w) a = Some sid \<and> con_owner (w_post w) c = Some (sid, i) \<and>
        (\<forall>d \<in> set ds. sent_on (w_log w) sid i d))"

lemma heap_ext_refl [simp]: "heap_ext p p" by (simp add: heap_ext_def)

lemma heap_ext_trans [trans]: "heap_ext p q \<Longrightarrow> heap_ext q r \<Longrightarrow> heap_ext p r"
  unfolding heap_ext_def by (meson map_le_trans)

lemma heap_ext_cong: "p_tun p' = p_tun p \<Longrightarrow> p_str p' = p_str p \<Longrightarrow> p_con p' = p_con p \<Longrightarrow> heap_ext p p'"
  by (simp add: heap_ext_def map_le_def tun_owner_def str_owner_def con_owner_def)

lemma heap_extD:
  assumes "heap_ext p p'"
  shows "tun_owner p a = Some x \<Longrightarrow> tun_owner p' a = Some x" "str_owner p a = Some y \<Longrightarrow> str_owner p' a = Some y"
    "con_owner p a = Some z \<Longrightarrow> con_owner p' a = Some z"
  using assms unfolding heap_ext_def map_le_def by (metis domI)+

lemma heap_ext_owners:
  "tun_owner p' = tun_owner p \<Longrightarrow> str_owner p' = str_owner p \<Longrightarrow> con_owner p' = con_owner p \<Longrightarrow> heap_ext p p'"
  by (simp add: heap_ext_def)

lemma ext_upd_tun: assumes "\<And>t. t_session (f t) = t_session t" shows "heap_ext p (upd_tun a f p)"
proof (rule heap_ext_owners)
  show "tun_owner (upd_tun a f p) = tun_owner p"
  proof
    fix b show "tun_owner (upd_tun a f p) b = tun_owner p b" by (cases "p_tun p b"; cases "b = a") (auto simp: tun_owner_def upd_tun_def assms)
  qed
qed (simp_all add: fun_eq_iff str_owner_def con_owner_def upd_tun_def)

lemma ext_upd_str: assumes "\<And>s. (sc_session (g s), sc_id (g s)) = (sc_session s, sc_id s)" shows "heap_ext p (upd_str a g p)"
proof (rule heap_ext_owners)
  show "str_owner (upd_str a g p) = str_owner p"
  proof
    fix b show "str_owner (upd_str a g p) b = str_owner p b" using assms by (cases "p_str p b"; cases "b = a") (auto simp: str_owner_def upd_str_def)
  qed
qed (simp_all add: fun_eq_iff tun_owner_def con_owner_def upd_str_def)

lemma ext_upd_con: assumes "\<And>x. (c_session (h x), c_stream (h x)) = (c_session x, c_stream x)" shows "heap_ext p (upd_con a h p)"
proof (rule heap_ext_owners)
  show "con_owner (upd_con a h p) = con_owner p"
  proof
    fix b show "con_owner (upd_con a h p) b = con_owner p b" using assms by (cases "p_con p b"; cases "b = a") (auto simp: con_owner_def upd_con_def)
  qed
qed (simp_all add: fun_eq_iff tun_owner_def str_owner_def upd_con_def)

lemma run_ok_ext:
  assumes ok: "run_ok w" and e: "heap_ext (w_post w) p" and p: "post_ok (w_log w) p"
  shows "run_ok (w\<lparr>w_post := p\<rparr>)"
  using ok p heap_extD [OF e] unfolding run_ok_def by simp

lemma run_ok_log: "run_ok w \<Longrightarrow> run_ok (w\<lparr>w_log := e # w_log w\<rparr>)"
  unfolding run_ok_def using post_ok_mono [of "w_log w" "w_post w" "e # w_log w"] sent_on_mono [of "w_log w" _ _ _ "e # w_log w"]
  by (simp add: set_subset_Cons) blast

text \<open>Every operation keeps the owners.\<close>

lemma ext_seal [simp]: "heap_ext p (snd (seal_chunk G P sid fl d p))"
  by (rule heap_ext_cong) (simp_all add: seal_chunk_frame)

lemma ext_close [simp]: "heap_ext p (close_con c p)" unfolding close_con_def by (rule ext_upd_con) simp
lemma ext_del [simp]: "heap_ext p (del_stream a i p)" unfolding del_stream_def by (rule ext_upd_tun) simp

lemma ext_closes [simp]: "heap_ext p (close_cons cs p)"
proof (induction cs arbitrary: p)
  case (Cons c cs) then show ?case using heap_ext_trans [OF ext_close] by (fastforce simp: close_cons_def)
qed (simp add: close_cons_def)

lemma ext_write [simp]: "heap_ext p (snd (write_to ok c d p))"
  by (auto simp: write_to_def conn_write_def intro!: ext_upd_con split: option.split)

lemma ext_fields [simp]:
  "heap_ext p (p\<lparr>p_udp := u\<rparr>)" "heap_ext p (p\<lparr>p_auth := ca\<rparr>)" "heap_ext p (p\<lparr>p_sessions := sm\<rparr>)"
  "heap_ext p (p\<lparr>p_active := n\<rparr>)" "heap_ext p (p\<lparr>p_tunnels := m\<rparr>)"
  by (simp_all add: heap_ext_cong)

lemma ext_reply [simp]:
  "heap_ext p (snd (sendAck G P sid p))" "heap_ext p (snd (handleKeepalive G P sid p))" "heap_ext p (snd (sendConnectResult G P sid b p))"
  using ext_seal [of p G P sid] by (simp_all add: sendAck_def handleKeepalive_def sendConnectResult_def case_prod_beta split: option.split)


lemma ext_stream_write [simp]: "heap_ext p (stream_write ok a i sa d p)"
proof -
  have "heap_ext p (close_con c (del_stream a i p'))" if "write_to ok c d p = (False, p')" for c p'
    using heap_ext_trans [OF heap_ext_trans [OF ext_write [of p ok c d] ext_del] ext_close] that by simp
  moreover have "heap_ext p p'" if "write_to ok c d p = (True, p')" for c p' using ext_write [of p ok c d] that by simp
  moreover have "heap_ext p (upd_str sa (\<lambda>s. s\<lparr>sc_pending := sc_pending s @ [d]\<rparr>) p)" by (rule ext_upd_str) simp
  ultimately show ?thesis by (simp add: stream_write_def split: option.split prod.split bool.split)
qed

lemma ext_uplink [simp]: "heap_ext p (data_uplink ok sid payload p)"
  by (auto simp: data_uplink_def intro!: ext_upd_tun split: option.split prod.split)

lemma ext_seal_all [simp]: "heap_ext p (snd (seal_all G P sid ds p))"
proof (induction ds arbitrary: p)
  case (Cons d ds) then show ?case by (simp add: case_prod_beta) (rule heap_ext_trans [OF ext_seal])
qed simp

lemma ext_collect [simp]: "heap_ext p (snd (data_collect G P sid p))"
proof -
  define r where "r = (case GetTunnel sid p of None \<Rightarrow> ([], p)
     | Some (a, t) \<Rightarrow> if t_download t then ([], p)
         else (fst (collect_batch (t_outgoing t)), upd_tun a (\<lambda>t. t\<lparr>t_outgoing := snd (collect_batch (t_outgoing t))\<rparr>) p))"
  have "heap_ext p (snd r)" by (auto simp: r_def intro: ext_upd_tun split: option.split prod.split)
  from heap_ext_trans [OF this ext_seal] heap_ext_trans [OF this ext_seal_all] show ?thesis
    by (simp add: data_collect_def r_def [symmetric] case_prod_beta split: option.split)
qed

lemma ext_begin: assumes "post_ok L p" shows "heap_ext p (snd (connect_begin E sid payload p))"
proof -
  let ?sa = "p_next p"
  have "p_str p ?sa = None" using post_okD(3) [OF assms, of ?sa] by (cases "p_str p ?sa") auto
  then have e: "heap_ext p (p\<lparr>p_next := Suc ?sa, p_str := (p_str p)(?sa \<mapsto> sc)\<rparr>)" for sc
    by (auto simp: heap_ext_def map_le_def tun_owner_def str_owner_def con_owner_def)
  have "heap_ext q (upd_tun a (\<lambda>t. t\<lparr>t_streams := (i, sa) # t_streams t\<rparr>) q)" for q a i sa by (rule ext_upd_tun) simp
  from heap_ext_trans [OF e this] e show ?thesis
    by (auto simp: connect_begin_def registerPOSTStream_def Let_def split: prod.split option.split)
qed

lemma ext_activate: assumes "post_ok L p" shows "heap_ext p (snd (connect_activate sid sa p))"
proof -
  let ?c = "p_next p"
  have "p_con p ?c = None" using post_okD(4) [OF assms, of ?c] by (cases "p_con p ?c") auto
  then have e: "heap_ext p (p\<lparr>p_next := Suc ?c, p_con := (p_con p)(?c \<mapsto> x)\<rparr>)" for x
    by (auto simp: heap_ext_def map_le_def tun_owner_def str_owner_def con_owner_def)
  have "heap_ext q (upd_str sa (\<lambda>s. s\<lparr>sc_target := Some ?c, sc_pending := []\<rparr>) q)" for q by (rule ext_upd_str) simp
  from heap_ext_trans [OF e this] show ?thesis by (simp add: connect_activate_def Let_def)
qed

lemma ext_open: assumes "post_ok L p" shows "heap_ext p (open_tunnel sid cid p)"
proof -
  have "p_tun p (p_next p) = None" using post_okD(2) [OF assms, of "p_next p"] by (cases "p_tun p (p_next p)") auto
  then show ?thesis by (auto simp: heap_ext_def map_le_def open_tunnel_def tun_owner_def str_owner_def con_owner_def)
qed

lemma ext_finish [simp]: "heap_ext p (snd (connect_finish G P sid a i c p))"
  unfolding connect_finish_def by (rule heap_ext_trans [OF ext_upd_tun ext_reply(3)]) simp

lemma ext_failed [simp]: "heap_ext p (snd (connect_failed G P sid a i p))"
  unfolding connect_failed_def by (rule heap_ext_trans [OF ext_del ext_reply(3)])

lemma ext_exit [simp]: "heap_ext p (relay_exit a i c p)"
  unfolding relay_exit_def by (rule heap_ext_trans [OF ext_close ext_del])

lemma ext_drop [simp]: "heap_ext p (drop_tunnel sid p)"
proof -
  have "heap_ext q (upd_tun a (\<lambda>t. t\<lparr>t_done := True\<rparr>) q)" for a q by (rule ext_upd_tun) simp
  from heap_ext_trans [OF heap_ext_trans [OF ext_closes this] ext_fields(5)]
    heap_ext_trans [OF heap_ext_trans [OF heap_ext_trans [OF ext_fields(2) ext_closes] this] ext_fields(5)]
  show ?thesis by (simp add: drop_tunnel_def Let_def split: option.split prod.split)
qed

lemma ext_fin [simp]: "heap_ext p (handleFin sid p)"
  by (rule heap_ext_trans [OF ext_drop [of p sid]]) (simp add: handleFin_def udp_remove_def Let_def heap_ext_cong)

lemma ext_stream_fin [simp]: "heap_ext p (handleStreamFin sid i p)"
  using heap_ext_trans [OF ext_del ext_fields(1)] heap_ext_trans [OF heap_ext_trans [OF ext_del ext_close] ext_fields(1)]
  by (simp add: handleStreamFin_def Let_def split: option.split prod.split)

lemma ext_fold: "(\<And>x p. heap_ext p (f x p)) \<Longrightarrow> heap_ext p (fold f xs p)"
proof (induction xs arbitrary: p)
  case (Cons x xs) then show ?case by simp (meson heap_ext_trans)
qed simp

lemma ext_reap [simp]: "heap_ext p (reapOrphanTunnels ids p)"
  unfolding reapOrphanTunnels_def by (rule ext_fold) (auto simp: reap_one_def intro: heap_ext_trans [OF ext_drop ext_fields(4)])

lemma ext_reap_expired [simp]: "heap_ext p (fold reap_expired ids p)"
proof (rule ext_fold)
  fix x p show "heap_ext p (reap_expired x p)"
    by (auto simp: reap_expired_def udp_remove_def intro: heap_ext_trans [OF heap_ext_trans [OF ext_drop ext_fields(1)] ext_fields(4)])
qed

lemma ext_tick [simp]: "heap_ext p (cleanup_tick hb now keys tkeys p)"
proof -
  have "heap_ext q (tick_newborn now keys q)" "heap_ext q (tick_ghosts hb now keys q)" "heap_ext q (tick_expired now keys tkeys q)" for q
    by (auto simp: tick_newborn_def tick_ghosts_def tick_expired_def Let_def intro: heap_ext_trans [OF ext_fields(3) ext_reap] heap_ext_trans [OF ext_fields(3) ext_reap_expired] split: prod.split)
  from heap_ext_trans [OF heap_ext_trans [OF heap_ext_trans [OF ext_fields(1) this(1)] this(2)] this(3)]
  show ?thesis by (simp add: cleanup_tick_def Let_def)
qed

lemma ext_chan [simp]:
  "heap_ext p (upd_tun a (\<lambda>t. t\<lparr>t_outgoing := g t\<rparr>) p)" "heap_ext p (upd_tun a (\<lambda>t. t\<lparr>t_outgoingUDP := g t\<rparr>) p)"
  "heap_ext p (upd_tun a (\<lambda>t. t\<lparr>t_download := b\<rparr>) p)"
  by (rule ext_upd_tun; simp)+

lemma ext_relay: "relay_read a i d p = Some p' \<Longrightarrow> heap_ext p p'"
  by (auto simp: relay_read_def split: option.splits if_splits)

lemma ext_sealed: "seal_chunk G P sid fl d p = (w, p') \<Longrightarrow> heap_ext p p'"
  using ext_seal [of p G P sid fl d] by simp

lemma ext_udp_answer: "udp_answer G P a cb d p = Some p' \<Longrightarrow> heap_ext p p'"
  by (auto simp: udp_answer_def intro: ext_sealed heap_ext_trans [OF ext_sealed ext_chan(1)] split: option.splits if_splits prod.splits)

lemma ext_udp_collect [simp]: "heap_ext p (snd (udp_collect G P sid a p))"
proof (cases "p_tun p a")
  case (Some t)
  define r where "r = (if t_download t then ([], p)
     else case t_outgoing t of [] \<Rightarrow> ([], p) | x # xs \<Rightarrow> (x, upd_tun a (\<lambda>t. t\<lparr>t_outgoing := xs\<rparr>) p))"
  have "heap_ext p (snd r)" by (simp add: r_def split: list.split)
  from heap_ext_trans [OF this ext_seal] show ?thesis using Some
    by (simp add: udp_collect_def r_def [symmetric] case_prod_beta split: option.split)
qed (simp add: udp_collect_def)

lemma ext_udp_data [simp]: "heap_ext p (snd (handleUDPData G P E now sid payload p))"
  by (auto simp: handleUDPData_def intro: heap_ext_trans [OF ext_fields(1) ext_udp_collect] split: outcome.split option.split)

lemma ext_download: "download_step G P sid a sel p = Some r \<Longrightarrow> heap_ext p (snd r)"
  by (auto simp: download_step_def write_frame_def intro: heap_ext_trans [OF ext_chan(1) ext_seal] heap_ext_trans [OF ext_chan(2) ext_seal]
      split: option.splits dlSelect.splits list.splits)

lemma ext_broadcast [simp]: "heap_ext p (snd (BroadcastStreamClose_one G P reason sid a p))"
  by (auto simp: BroadcastStreamClose_one_def intro: ext_sealed heap_ext_trans [OF ext_sealed ext_chan(1)] split: option.splits prod.splits)

lemma set_drop_nth: "set (drop_nth i xs) \<subseteq> set xs"
  by (auto simp: drop_nth_def dest: in_set_takeD in_set_dropD)

text \<open>The steps of the dial goroutine.\<close>

lemma run_ok_sub:
  "run_ok w \<Longrightarrow> set D \<subseteq> set (w_dials w) \<Longrightarrow> run_ok (w\<lparr>w_dials := D\<rparr>)"
  "run_ok w \<Longrightarrow> set F \<subseteq> set (w_flushes w) \<Longrightarrow> run_ok (w\<lparr>w_flushes := F\<rparr>)"
  unfolding run_ok_def by (simp, blast)+

lemma run_ok_flushes:
  "run_ok w \<Longrightarrow> tun_owner (w_post w) a = Some sid \<Longrightarrow> con_owner (w_post w) c = Some (sid, i) \<Longrightarrow>
   \<forall>d \<in> set ds. sent_on (w_log w) sid i d \<Longrightarrow> set F \<subseteq> insert (sid, a, i, c, ds) (set (w_flushes w)) \<Longrightarrow>
   run_ok (w\<lparr>w_flushes := F\<rparr>)"
  unfolding run_ok_def by simp blast

lemma run_ok_relays [simp]: "run_ok (w\<lparr>w_relays := R\<rparr>) = run_ok w" by (simp add: run_ok_def)

lemma run_ok_connect: assumes "run_ok w" shows "run_ok (post_step G P E (AConnect sid payload) w)"
proof -
  have ok: "post_ok (w_log w) (w_post w)" using assms by (simp add: run_ok_def)
  obtain res p where b: "connect_begin E sid payload (w_post w) = (res, p)" by fastforce
  note B = post_ok_connect_begin [OF ok b]
  have e: "heap_ext (w_post w) p" using ext_begin [OF ok, of E sid payload] b by simp
  show ?thesis
  proof (cases res)
    case None
    have "run_ok (w\<lparr>w_post := snd (sendConnectResult G P sid False p)\<rparr>)"
      using B post_ok_reply(3) heap_ext_trans [OF e ext_reply(3)] by (intro run_ok_ext [OF assms]) auto
    then show ?thesis using b None by simp
  next
    case (Some x)
    obtain a sa i where x: "x = (a, sa, i)" by (cases x) auto
    have "run_ok (w\<lparr>w_post := p\<rparr>)" using run_ok_ext [OF assms e] B by simp
    moreover have "tun_owner p a = Some sid" "str_owner p sa = Some (sid, i)"
      using B Some x by (auto simp: tun_owner_def str_owner_def)
    ultimately show ?thesis using b Some x by (auto simp: run_ok_def)
  qed
qed

lemma run_ok_dial_ok: assumes "run_ok w" shows "run_ok (post_step G P E (ADialOk k) w)"
proof (cases "k < length (w_dials w)")
  case True
  have ok: "post_ok (w_log w) (w_post w)" using assms by (simp add: run_ok_def)
  obtain sid a sa i where k: "w_dials w ! k = (sid, a, sa, i)" by (cases "w_dials w ! k") auto
  then have "(sid, a, sa, i) \<in> set (w_dials w)" using True nth_mem by metis
  then have own: "tun_owner (w_post w) a = Some sid" "str_owner (w_post w) sa = Some (sid, i)"
    using assms unfolding run_ok_def by blast+
  then obtain sc where sc: "p_str (w_post w) sa = Some sc" "sc_session sc = sid" "sc_id sc = i" by (auto simp: str_owner_def)
  note A = post_ok_activate [OF ok sc(1,2)]
  let ?q = "snd (connect_activate sid sa (w_post w))" and ?c = "p_next (w_post w)"
  have e: "heap_ext (w_post w) ?q" by (rule ext_activate [OF ok])
  have 1: "run_ok (w\<lparr>w_post := ?q\<rparr>)" by (rule run_ok_ext [OF assms e A(1)])
  have 2: "tun_owner ?q a = Some sid" by (rule heap_extD(1) [OF e own(1)])
  have 3: "con_owner ?q ?c = Some (sid, i)" using A(3) sc by (auto simp: con_owner_def)
  have 4: "\<forall>d \<in> set (sc_pending sc). sent_on (w_log w) sid i d" using post_okD(3) [OF ok sc(1)] sc by (auto simp: stream_ok_def)
  have "run_ok (w\<lparr>w_post := ?q, w_dials := drop_nth k (w_dials w)\<rparr>)" by (rule run_ok_sub(1) [OF 1]) (simp add: set_drop_nth)
  from run_ok_flushes [OF this, of a sid ?c i "sc_pending sc" "w_flushes w @ [(sid, a, i, ?c, sc_pending sc)]"] 2 3 4
  have "run_ok (w\<lparr>w_post := ?q, w_dials := drop_nth k (w_dials w), w_flushes := w_flushes w @ [(sid, a, i, ?c, sc_pending sc)]\<rparr>)" by simp
  then show ?thesis using True k A(2) by (cases "connect_activate sid sa (w_post w)") (simp add: run_ok_def)
qed (simp add: assms)

lemma run_ok_flush: assumes "run_ok w" shows "run_ok (post_step G P E (AFlush b k) w)"
proof (cases "k < length (w_flushes w)")
  case True
  have ok: "post_ok (w_log w) (w_post w)" using assms by (simp add: run_ok_def)
  obtain sid a i c ds where k: "w_flushes w ! k = (sid, a, i, c, ds)" by (cases "w_flushes w ! k") auto
  then have "(sid, a, i, c, ds) \<in> set (w_flushes w)" using True nth_mem by metis
  then have own: "tun_owner (w_post w) a = Some sid" "con_owner (w_post w) c = Some (sid, i)" "\<forall>d \<in> set ds. sent_on (w_log w) sid i d"
    using assms unfolding run_ok_def by blast+
  then obtain t x where tx: "p_tun (w_post w) a = Some t" "t_session t = sid" "p_con (w_post w) c = Some x" "c_session x = sid" "c_stream x = i"
    by (auto simp: tun_owner_def con_owner_def)
  show ?thesis
  proof (cases ds)
    case Nil
    have "run_ok (w\<lparr>w_post := snd (connect_finish G P sid a i c (w_post w))\<rparr>)"
      by (rule run_ok_ext [OF assms ext_finish post_ok_finish [OF ok tx]])
    from run_ok_sub(2) [OF this, of "drop_nth k (w_flushes w)"] set_drop_nth [of k "w_flushes w"] True k Nil
    show ?thesis by (simp add: run_ok_def)
  next
    case (Cons d ds')
    have e: "heap_ext (w_post w) (connect_flush b c d (w_post w))" by (simp add: connect_flush_def)
    have "post_ok (w_log w) (connect_flush b c d (w_post w))"
      unfolding connect_flush_def using own(3) Cons tx by (intro post_ok_write [OF ok]) simp
    from run_ok_ext [OF assms e this] have "run_ok (w\<lparr>w_post := connect_flush b c d (w_post w)\<rparr>)" .
    from run_ok_flushes [OF this, of a sid c i ds' "(w_flushes w)[k := (sid, a, i, c, ds')]"] heap_extD [OF e] own Cons
    have "run_ok (w\<lparr>w_post := connect_flush b c d (w_post w), w_flushes := (w_flushes w)[k := (sid, a, i, c, ds')]\<rparr>)"
      using set_update_subset_insert [of "w_flushes w" k] by auto
    then show ?thesis using True k Cons by simp
  qed
qed (simp add: assms)

lemma post_run_ok_step: assumes "run_ok w" shows "run_ok (post_step G P E act w)"
proof -
  have ok: "post_ok (w_log w) (w_post w)" using assms by (simp add: run_ok_def)
  note ext = run_ok_ext [OF assms]
  show ?thesis
  proof (cases act)
    case (AOpen sid cid) then show ?thesis using ext [OF ext_open [OF ok] post_ok_open [OF ok]] by simp
  next
    case (AData b sid payload)
    have "run_ok (w\<lparr>w_log := (sid, payload) # w_log w\<rparr>)" by (rule run_ok_log [OF assms])
    moreover from this have "post_ok ((sid, payload) # w_log w) (w_post w)" by (simp add: run_ok_def)
    ultimately have "run_ok (w\<lparr>w_log := (sid, payload) # w_log w, w_post := data_uplink b sid payload (w_post w)\<rparr>)"
      by (intro run_ok_ext) (simp_all add: post_ok_data_uplink)
    then show ?thesis using AData by (simp add: run_ok_def)
  next
    case (ACollect sid) then show ?thesis using ext [OF ext_collect post_ok_data_collect [OF ok]] by simp
  next
    case (AReply sid fl d) then show ?thesis using ext [OF ext_seal post_ok_seal_snd [OF ok]] by simp
  next
    case AConnect then show ?thesis using run_ok_connect [OF assms] by simp
  next
    case (ADialFail k)
    have "run_ok (w\<lparr>w_post := snd (connect_failed G P sid a i (w_post w))\<rparr>)" for sid a i
      using post_ok_reply(3) [OF post_ok_del [OF ok]] by (intro ext ext_failed) (simp add: connect_failed_def)
    from run_ok_sub(1) [OF this, of "drop_nth k (w_dials w)"] ADialFail assms show ?thesis
      by (auto simp: set_drop_nth split: prod.split)
  next
    case ADialOk then show ?thesis using run_ok_dial_ok [OF assms] by simp
  next
    case AFlush then show ?thesis using run_ok_flush [OF assms] by simp
  next
    case (ARelay k d)
    have "run_ok (w\<lparr>w_post := p\<rparr>)" if "relay_read a i d (w_post w) = Some p" for a i p
      by (rule ext [OF ext_relay [OF that] post_ok_relay [OF ok that]])
    then show ?thesis using ARelay assms by (auto split: prod.split option.split)
  next
    case (ARelayExit k)
    have "run_ok (w\<lparr>w_post := relay_exit a i c (w_post w)\<rparr>)" for a i c
      by (rule ext [OF ext_exit]) (simp add: relay_exit_def post_ok_del post_ok_close ok)
    then show ?thesis using ARelayExit assms by (auto simp: run_ok_def split: prod.split)
  next
    case (AStreamFin sid i) then show ?thesis using ext [OF ext_stream_fin post_ok_stream_fin [OF ok]] by simp
  next
    case (AFin sid) then show ?thesis using ext [OF ext_fin post_ok_fin [OF ok]] by simp
  next
    case (AUdpAnswer a cb d)
    have "run_ok (w\<lparr>w_post := p\<rparr>)" if "udp_answer G P a cb d (w_post w) = Some p" for p
      by (rule ext [OF ext_udp_answer [OF that] post_ok_udp_answer [OF ok that]])
    then show ?thesis using AUdpAnswer assms by (auto split: option.split)
  next
    case (AUdpData now sid payload) then show ?thesis using ext [OF ext_udp_data post_ok_udp_data [OF ok]] by simp
  next
    case (AOpenStream sid)
    have "run_ok (w\<lparr>w_post := upd_tun a (\<lambda>t. t\<lparr>t_download := b\<rparr>) (w_post w)\<rparr>)" for a b by (rule ext [OF ext_chan(3) post_ok_flag [OF ok]])
    then show ?thesis using AOpenStream assms by (auto simp: handleDownloadStreamV2_def split: option.split)
  next
    case (AEndStream a) then show ?thesis using ext [OF ext_chan(3) post_ok_flag [OF ok]] by (simp add: download_end_def)
  next
    case (ADownload sid a sel)
    have "run_ok (w\<lparr>w_post := snd r\<rparr>)" if "download_step G P sid a sel (w_post w) = Some r" for r
      by (rule ext [OF ext_download [OF that] post_ok_download [OF ok that]])
    then show ?thesis using ADownload assms by (auto split: option.split)
  next
    case (ABroadcast reason sid a) then show ?thesis using ext [OF ext_broadcast post_ok_broadcast [OF ok]] by simp
  next
    case (ATick hb now keys tkeys) then show ?thesis using ext [OF ext_tick post_ok_tick [OF ok]] by simp
  qed
qed

interpretation pr: step_invariant "post_step G P E" run_ok for G P E
  by unfold_locales (rule post_run_ok_step)

lemma run_ok_start: "run_ok (post_start sm ca u)"
  by (simp add: run_ok_def post_start_def post_ok_def)

subsection \<open>Isolation and bounds\<close>

text \<open>C16. Streams of the POST transport do not leak into each other.  However the requests, dials, relays
  and sweeps of all sessions interleave, every chunk that was written to a target connection
  was sent by the session and on the stream the connection was dialled for (or raw by a
  legacy client, on stream 0).\<close>
theorem post_stream_isolation:
  assumes "w = fold (post_step G P E) acts (post_start sm ca u)"
    and "p_con (w_post w) c = Some x" "d \<in> set (c_written x)"
  shows "\<exists>payload. (c_session x, payload) \<in> set (w_log w) \<and>
    (ParseStreamID payload = (c_stream x, d) \<or> c_stream x = 0 \<and> payload = d)"
proof -
  have "run_ok w" unfolding assms(1) by (rule pr.inv_run [OF run_ok_start])
  then have "post_ok (w_log w) (w_post w)" by (simp add: run_ok_def)
  from post_okD(4) [OF this assms(2)] assms(3) show ?thesis by (auto simp: conn_ok_def sent_on_def)
qed

definition demo_acts :: "bytes \<Rightarrow> bytes \<Rightarrow> bytes \<Rightarrow> postAct list" where
  "demo_acts payload d1 d2 =
     [AOpen 7 [65], AConnect 7 payload, AData True 7 (put16 1 @ d1), ADialOk 0, AData True 7 (put16 1 @ d2), AFlush True 0]"

definition plain_env :: postEnv where
  "plain_env = \<lparr>v_uni = id, v_reverse = (\<lambda>_. None), v_block = [], v_resolveUDP = (\<lambda>_. None)\<rparr>"

lemma ParseStreamID_put16 [simp]: "ParseStreamID (put16 i @ d) = (i, d)"
  by (simp add: ParseStreamID_def wire_simps)

lemmas post_run_defs = demo_acts_def post_start_def open_tunnel_def new_tunnel_def connect_begin_def registerPOSTStream_def
  GetTunnel_def plain_env_def maxStreamsPerSession_def data_uplink_def stream_write_def upd_str_def upd_tun_def upd_con_def
  postPendingMax_def connect_activate_def connect_flush_def write_to_def conn_write_def drop_nth_def Let_def

lemma post_demo_run:
  assumes "target \<noteq> []" "d1 \<noteq> []" "d2 \<noteq> []"
  shows "p_con (w_post (fold (post_step G P plain_env) (demo_acts (put16 1 @ target) d1 d2) (post_start sm ca u))) 2 =
    Some \<lparr>c_open = True, c_written = [d2, d1], c_session = 7, c_stream = 1\<rparr>"
  using assms by (simp add: post_run_defs)

theorem post_stream_isolation_witness:
  "\<exists>payload. (7, payload) \<in> set (w_log (fold (post_step tag_gcm zero_pool plain_env) (demo_acts (put16 1 @ [65]) [1] [2])
     (post_start \<lparr>sessions = Map.empty, sm_timeout = 0, nextID = 0\<rparr> (NewClientAuth []) None))) \<and>
    (ParseStreamID payload = (1, [2]) \<or> (1 :: u16) = 0 \<and> payload = [2])"
proof -
  let ?w = "fold (post_step tag_gcm zero_pool plain_env) (demo_acts (put16 1 @ [65]) [1] [2])
     (post_start \<lparr>sessions = Map.empty, sm_timeout = 0, nextID = 0\<rparr> (NewClientAuth []) None)"
  have "p_con (w_post ?w) 2 = Some \<lparr>c_open = True, c_written = [[2], [1]], c_session = 7, c_stream = 1\<rparr>"
    by (rule post_demo_run) simp_all
  from post_stream_isolation [OF refl this, of "[2]"] show ?thesis by simp
qed

text \<open>C17. The tables of the POST transport stay well typed and bounded: the tunnel found under a session is
  the session's own; no stream identifier occurs twice in it; it has at most 256 streams, each
  entry is a stream of that session under its own identifier; and no channel or dial buffer
  exceeds its capacity.\<close>
theorem post_tables_typed:
  assumes "w = fold (post_step G P E) acts (post_start sm ca u)" and "GetTunnel sid (w_post w) = Some (a, t)"
  shows "t_session t = sid \<and> distinct (map fst (t_streams t)) \<and> length (t_streams t) \<le> 256 \<and>
    length (t_incoming t) \<le> 64 \<and> length (t_outgoing t) \<le> 256 \<and> length (t_outgoingUDP t) \<le> 64 \<and>
    (\<forall>i sa. (i, sa) \<in> set (t_streams t) \<longrightarrow>
       (\<exists>sc. p_str (w_post w) sa = Some sc \<and> sc_id sc = i \<and> sc_session sc = sid \<and> length (sc_pending sc) \<le> 64))"
proof -
  have "run_ok w" unfolding assms(1) by (rule pr.inv_run [OF run_ok_start])
  then have ok: "post_ok (w_log w) (w_post w)" by (simp add: run_ok_def)
  note T = GetTunnel_ok [OF ok assms(2)]
  have "\<exists>sc. p_str (w_post w) sa = Some sc \<and> sc_id sc = i \<and> sc_session sc = sid \<and> length (sc_pending sc) \<le> 64"
    if i: "(i, sa) \<in> set (t_streams t)" for i sa
  proof -
    obtain sc where sc: "p_str (w_post w) sa = Some sc" "sc_id sc = i" "sc_session sc = sid"
      using T(3,4) i by (auto simp: tunnel_ok_def)
    then show ?thesis using post_okD(3) [OF ok sc(1)] by (simp add: stream_ok_def postPendingMax_def)
  qed
  then show ?thesis using T(3,4)
    by (simp add: tunnel_ok_def maxStreamsPerSession_def incomingCap_def defaultTunnelOutgoingBuffer_def outgoingUDPCap_def)
qed

theorem post_tables_typed_witness:
  "\<exists>a t. GetTunnel 7 (w_post (fold (post_step tag_gcm zero_pool plain_env) [AOpen 7 [65], AConnect 7 (put16 1 @ [65])]
     (post_start \<lparr>sessions = Map.empty, sm_timeout = 0, nextID = 0\<rparr> (NewClientAuth []) None))) = Some (a, t) \<and>
     t_streams t = [(1, 1)] \<and> length (t_streams t) \<le> 256"
proof -
  let ?w = "fold (post_step tag_gcm zero_pool plain_env) [AOpen 7 [65], AConnect 7 (put16 1 @ [65])]
     (post_start \<lparr>sessions = Map.empty, sm_timeout = 0, nextID = 0\<rparr> (NewClientAuth []) None)"
  have "GetTunnel 7 (w_post ?w) = Some (0, (new_tunnel 7 [65])\<lparr>t_streams := [(1, 1)]\<rparr>)" by (simp add: post_run_defs)
  from post_tables_typed [OF refl this] this show ?thesis by (intro exI conjI) auto
qed

text \<open>Bytes sent during the dial can be overtaken.  \<open>handleConnect\<close> publishes the target before it has
  flushed the buffered chunks and flushes them without the lock: a data request that runs in
  between writes to the target first, and the target reads the later chunk before the
  earlier one.\<close>
theorem pending_overtaken:
  assumes "target \<noteq> []" "d1 \<noteq> []" "d2 \<noteq> []"
  shows "let w = fold (post_step G P plain_env) (demo_acts (put16 1 @ target) d1 d2) (post_start sm ca u)
    in rev (w_log w) = [(7, put16 1 @ d1), (7, put16 1 @ d2)] \<and> map_option c_written (p_con (w_post w) 2) = Some [d2, d1]"
  using post_demo_run [OF assms, of G P sm ca u] assms by (simp add: post_run_defs)

theorem pending_overtaken_witness:
  "map_option c_written (p_con (w_post (fold (post_step tag_gcm zero_pool plain_env) (demo_acts (put16 1 @ [65]) [1] [2])
     (post_start \<lparr>sessions = Map.empty, sm_timeout = 0, nextID = 0\<rparr> (NewClientAuth []) None))) 2) = Some [[2], [1]]"
  using pending_overtaken [of "[65]" "[1]" "[2]" tag_gcm zero_pool] by (simp add: Let_def)

end
