(* ===== verification/Server_Tunnel_Life.thy ===== *)
theory Server_Tunnel_Life
  imports Server_Tunnel_Props
begin

section \<open>Ends of a POST session, batches and UDP answers\<close>

text \<open>
  What a session FIN releases and answers, that a cleanup tick leaves no tunnel without its
  session, what a batched response contains, and how UDP answers reach a polling client.
\<close>

subsection \<open>Session FIN\<close>

lemma close_cons_con:
  "p_con (close_cons cs p) c = map_option (\<lambda>x. if c \<in> set cs then x\<lparr>c_open := False\<rparr> else x) (p_con p c)"
proof (induction cs arbitrary: p)
  case Nil then show ?case by (cases "p_con p c") (simp_all add: close_cons_def)
next
  case (Cons d cs) then show ?case by (cases "p_con p c") (auto simp: close_cons_def close_con_def upd_con_def)
qed

lemma close_cons_frame [simp]:
  "p_tunnels (close_cons cs p) = p_tunnels p" "p_tun (close_cons cs p) = p_tun p" "p_str (close_cons cs p) = p_str p"
  "p_udp (close_cons cs p) = p_udp p" "p_auth (close_cons cs p) = p_auth p" "p_sessions (close_cons cs p) = p_sessions p"
  "p_active (close_cons cs p) = p_active p"
  by (induction cs arbitrary: p) (simp_all add: close_cons_def close_con_def upd_con_def)

lemma drop_tunnel_fields [simp]:
  "p_udp (drop_tunnel sid p) = p_udp p" "p_sessions (drop_tunnel sid p) = p_sessions p" "p_active (drop_tunnel sid p) = p_active p"
  by (simp_all add: drop_tunnel_def Let_def upd_tun_def split: option.split prod.split)

lemma drop_tunnel_tunnels:
  "p_tunnels (drop_tunnel sid p) = (if GetTunnel sid p = None then p_tunnels p else (p_tunnels p)(sid := None))"
  by (simp add: drop_tunnel_def Let_def upd_tun_def split: option.split prod.split)

lemma drop_tunnel_found:
  assumes "GetTunnel sid p = Some (a, t)"
  shows "p_auth (drop_tunnel sid p) = (if t_client t = [] then p_auth p else OnSessionDestroyed (t_client t) sid (p_auth p))"
    and "p_tun (drop_tunnel sid p) = (p_tun p)(a := map_option (\<lambda>t. t\<lparr>t_done := True\<rparr>) (p_tun p a))"
    and "p_con (drop_tunnel sid p) c = map_option (\<lambda>x. if c \<in> set (stream_conns t p) \<or> t_target t = Some c
           then x\<lparr>c_open := False\<rparr> else x) (p_con p c)"
proof -
  have s: "stream_conns t (p\<lparr>p_auth := ca\<rparr>) = stream_conns t p" for ca by (simp add: stream_conns_def)
  show "p_auth (drop_tunnel sid p) = (if t_client t = [] then p_auth p else OnSessionDestroyed (t_client t) sid (p_auth p))"
    using assms by (simp add: drop_tunnel_def Let_def upd_tun_def)
  show "p_tun (drop_tunnel sid p) = (p_tun p)(a := map_option (\<lambda>t. t\<lparr>t_done := True\<rparr>) (p_tun p a))"
    using assms by (simp add: drop_tunnel_def Let_def upd_tun_def)
  show "p_con (drop_tunnel sid p) c = map_option (\<lambda>x. if c \<in> set (stream_conns t p) \<or> t_target t = Some c
           then x\<lparr>c_open := False\<rparr> else x) (p_con p c)"
    using assms s by (cases "p_con p c"; cases "t_target t") (auto simp: drop_tunnel_def Let_def upd_tun_def close_cons_con)
qed

lemma stream_conns_mem:
  "(i, sa) \<in> set (t_streams t) \<Longrightarrow> p_str p sa = Some sc \<Longrightarrow> sc_target sc = Some c \<Longrightarrow> c \<in> set (stream_conns t p)"
  by (force simp: stream_conns_def List.map_filter_def)

lemma OnSessionDestroyed_gone: "ca_inv ca \<Longrightarrow> sid \<notin> set (active (OnSessionDestroyed c sid ca) (parseUserID c))"
proof -
  assume "ca_inv ca"
  then have "distinct (active ca (parseUserID c))" by (simp add: ca_inv_def)
  moreover have "active (OnSessionDestroyed c sid ca) = active (removeSessionLocked (parseUserID c) sid ca)"
    by (auto simp: fun_eq_iff OnSessionDestroyed_def active_def Let_def)
  ultimately show ?thesis by simp
qed

lemma Get_Remove: "Get s (snd (Remove sid sm)) = (if s = sid then None else Get s sm)"
  by (auto simp: Get_def Remove_def split: option.split)

lemma GetTunnel_drop:
  assumes "post_ok L p"
  shows "GetTunnel s (drop_tunnel sid p) = (if s = sid then None else GetTunnel s p)"
proof (cases "GetTunnel sid p")
  case None
  then have "p_tunnels p sid = None" using post_okD(1) [OF assms] by (force simp: GetTunnel_def split: option.splits)
  then show ?thesis using None by (auto simp: drop_tunnel_def GetTunnel_def)
next
  case (Some at)
  obtain a t where t: "GetTunnel sid p = Some (a, t)" using Some by (cases at) auto
  have "p_tunnels p s \<noteq> Some a" if "s \<noteq> sid"
    using post_okD(1) [OF assms, of s a] GetTunnel_ok [OF assms t] that by auto
  then show ?thesis using t drop_tunnel_found(2) [OF t] by (auto simp: GetTunnel_def drop_tunnel_tunnels split: option.split)
qed


lemma demo_fin_state:
  fixes sm ca u
  defines "w \<equiv> fold (post_step tag_gcm zero_pool plain_env) [AOpen 7 [65], AConnect 7 (put16 1 @ [65]), ADialOk 0] (post_start sm ca u)"
  shows "post_ok (w_log w) (w_post w)" "GetTunnel 7 (w_post w) = Some (0, (new_tunnel 7 [65])\<lparr>t_streams := [(1, 1)]\<rparr>)"
    "p_auth (w_post w) = ca"
proof -
  have "run_ok w" unfolding w_def by (rule pr.inv_run [OF run_ok_start])
  then show "post_ok (w_log w) (w_post w)" by (simp add: run_ok_def)
  show "GetTunnel 7 (w_post w) = Some (0, (new_tunnel 7 [65])\<lparr>t_streams := [(1, 1)]\<rparr>)" "p_auth (w_post w) = ca"
    by (simp_all add: w_def post_run_defs)
qed


subsection \<open>A cleanup tick\<close>

text \<open>Every tunnel belongs to a session that is still in the table.\<close>

definition tunnels_backed :: "postState \<Rightarrow> bool" where
  "tunnels_backed p \<longleftrightarrow> (\<forall>sid. GetTunnel sid p \<noteq> None \<longrightarrow> Get sid (p_sessions p) \<noteq> None)"

lemma GetTunnel_sessions [simp]: "GetTunnel s (p\<lparr>p_sessions := sm\<rparr>) = GetTunnel s p" "GetTunnel s (p\<lparr>p_udp := u\<rparr>) = GetTunnel s p"
  "GetTunnel s (p\<lparr>p_active := n\<rparr>) = GetTunnel s p"
  by (simp_all add: GetTunnel_def split: option.split)

lemma reap_one_eq: "post_ok L p \<Longrightarrow> GetTunnel s (reap_one x p) = (if s = x then None else GetTunnel s p)"
  using GetTunnel_drop [of L p s x] by (auto simp: reap_one_def)

lemma post_ok_reap_one: "post_ok L p \<Longrightarrow> post_ok L (reap_one x p)"
  by (simp add: reap_one_def post_ok_fields post_ok_drop)

lemma reap_tunnels: "post_ok L p \<Longrightarrow> GetTunnel s (reapOrphanTunnels ids p) = (if s \<in> set ids then None else GetTunnel s p)"
proof (induction ids arbitrary: p)
  case (Cons x ids) then show ?case using post_ok_reap_one [OF Cons.prems] reap_one_eq [OF Cons.prems] by (simp add: reapOrphanTunnels_def)
qed (simp add: reapOrphanTunnels_def)

lemma reap_fields [simp]: "p_sessions (reapOrphanTunnels ids p) = p_sessions p" "p_udp (reapOrphanTunnels ids p) = p_udp p"
  by (induction ids arbitrary: p) (simp_all add: reapOrphanTunnels_def reap_one_def)

lemma backed_after_reap:
  assumes "post_ok L p" "tunnels_backed p" "\<And>s. Get s (p_sessions p) \<noteq> None \<Longrightarrow> Get s sm = None \<Longrightarrow> s \<in> set ids"
  shows "tunnels_backed (reapOrphanTunnels ids (p\<lparr>p_sessions := sm\<rparr>))"
  using assms(2,3) reap_tunnels [OF post_ok_fields(3) [OF assms(1)], of _ ids sm] by (auto simp: tunnels_backed_def)

lemma tick_newborn_backed:
  assumes ok: "post_ok L p" "tunnels_backed p" and "distinct keys"
  shows "tunnels_backed (tick_newborn now keys p)"
proof -
  let ?r = "CleanupNewbornOrphans now newbornOrphanMaxAge keys (p_sessions p)"
  have "fst ?r = filter (\<lambda>sid. case sessions (p_sessions p) sid of None \<Rightarrow> False | Some s \<Rightarrow> newborn_orphan now newbornOrphanMaxAge s)
      (newborn_candidates now newbornOrphanMaxAge keys (p_sessions p))"
    unfolding CleanupNewbornOrphans_def using assms(3) by (intro newborn.evict_all_ids) (simp add: newborn_candidates_def)
  then have "s \<in> set (fst ?r)" if "Get s (p_sessions p) \<noteq> None" "Get s (snd (snd ?r)) = None" for s
    using that by (auto simp: Get_def CleanupNewbornOrphans_sessions newborn_candidates_set split: if_splits)
  from backed_after_reap [OF ok this] show ?thesis by (simp add: tick_newborn_def case_prod_beta)
qed

lemma tick_ghosts_backed:
  assumes ok: "post_ok L p" "tunnels_backed p" and "distinct keys"
  shows "tunnels_backed (tick_ghosts hb now keys p)"
proof -
  let ?g = "Some (\<lambda>sid. ghostSweepEligible hb sid p)"
  let ?r = "CleanupDetachedGhosts now detachedGhostGrace ?g keys (p_sessions p)"
  have "fst ?r = filter (\<lambda>sid. case sessions (p_sessions p) sid of None \<Rightarrow> False | Some s \<Rightarrow> ghost now detachedGhostGrace ?g sid s)
      (ghost_candidates now detachedGhostGrace ?g keys (p_sessions p))"
    unfolding CleanupDetachedGhosts_def using assms(3) by (intro ghosts.evict_all_ids) (simp add: ghost_candidates_def)
  then have "s \<in> set (fst ?r)" if "Get s (p_sessions p) \<noteq> None" "Get s (snd (snd ?r)) = None" for s
    using that by (auto simp: Get_def CleanupDetachedGhosts_sessions ghost_candidates_set split: if_splits)
  from backed_after_reap [OF ok this] show ?thesis by (simp add: tick_ghosts_def case_prod_beta)
qed

lemma cleanup_loop_none:
  "length (fst (cleanup_loop now ord gone sm)) \<ge> length gone \<and>
   (length (fst (cleanup_loop now ord gone sm)) = length gone \<longrightarrow> snd (cleanup_loop now ord gone sm) = sm)"
proof (induction ord arbitrary: gone sm)
  case (Cons x ord)
  show ?case
  proof (cases "sessions sm x")
    case None then show ?thesis using Cons by simp
  next
    case (Some s)
    show ?thesis using Some Cons [of gone sm] Cons [of "gone @ [zeroKeyMaterialLocked s]" "sm\<lparr>sessions := (sessions sm)(x := None)\<rparr>"]
      by (auto simp: isExpiredAndDestroy_def)
  qed
qed simp

lemma reap_expired_eq:
  "post_ok L p \<Longrightarrow> GetTunnel s (reap_expired x p) = (if s = x \<and> Get x (p_sessions p) = None then None else GetTunnel s p)"
  using GetTunnel_drop [of L p s x] by (auto simp: reap_expired_def udp_remove_def)

lemma reap_expired_fields [simp]: "p_sessions (reap_expired x p) = p_sessions p"
  by (simp add: reap_expired_def udp_remove_def)

lemma reap_expired_all:
  "post_ok L p \<Longrightarrow> p_sessions (fold reap_expired ids p) = p_sessions p \<and>
   GetTunnel s (fold reap_expired ids p) = (if s \<in> set ids \<and> Get s (p_sessions p) = None then None else GetTunnel s p)"
proof (induction ids arbitrary: p)
  case (Cons x ids)
  have "post_ok L (reap_expired x p)" using post_ok_reap_expired [OF Cons.prems, of "[x]"] by simp
  from Cons.IH [OF this] reap_expired_eq [OF Cons.prems, of s x] show ?case by auto
qed simp

lemma tick_expired_backed:
  assumes ok: "post_ok L p" "tunnels_backed p" and "\<And>s. GetTunnel s p \<noteq> None \<Longrightarrow> s \<in> set tkeys"
  shows "tunnels_backed (tick_expired now keys tkeys p)"
proof -
  let ?c = "cleanup_loop now keys [] (p_sessions p)"
  note r = reap_expired_all [OF post_ok_fields(3) [OF ok(1)], of tkeys "snd ?c"]
  have "tunnels_backed (fold reap_expired tkeys (p\<lparr>p_sessions := snd ?c\<rparr>))"
    using assms(3) r by (auto simp: tunnels_backed_def)
  moreover have "snd ?c = p_sessions p" if "fst ?c = []" using cleanup_loop_none [of "[]" now keys "p_sessions p"] that by simp
  ultimately show ?thesis using ok(2) by (simp add: tick_expired_def Cleanup_def case_prod_beta Let_def)
qed

lemma tick_sub:
  assumes "post_ok L p"
  shows "GetTunnel s (tick_newborn now keys p) = None \<or> GetTunnel s (tick_newborn now keys p) = GetTunnel s p"
    and "GetTunnel s (tick_ghosts hb now keys p) = None \<or> GetTunnel s (tick_ghosts hb now keys p) = GetTunnel s p"
  using reap_tunnels [OF post_ok_fields(3) [OF assms]] by (auto simp: tick_newborn_def tick_ghosts_def split: prod.split)

lemma tick_sessions:
  "sessions (p_sessions (tick_newborn now keys p)) sid = (case sessions (p_sessions p) sid of None \<Rightarrow> None
     | Some s \<Rightarrow> if sid \<in> set keys \<and> newborn_orphan now newbornOrphanMaxAge s then None else Some s)"
  "sessions (p_sessions (tick_ghosts hb now keys p)) sid = (case sessions (p_sessions p) sid of None \<Rightarrow> None
     | Some s \<Rightarrow> if sid \<in> set keys \<and> ghost now detachedGhostGrace (Some (\<lambda>sid. ghostSweepEligible hb sid p)) sid s then None else Some s)"
  using CleanupNewbornOrphans_sessions [of now newbornOrphanMaxAge keys "p_sessions p" sid]
    CleanupDetachedGhosts_sessions [of now detachedGhostGrace "Some (\<lambda>sid. ghostSweepEligible hb sid p)" keys "p_sessions p" sid]
  by (simp_all add: tick_newborn_def tick_ghosts_def case_prod_beta)

lemma tick_expired_sessions:
  "post_ok L p \<Longrightarrow> sessions (p_sessions (tick_expired now keys tkeys p)) sid = (case sessions (p_sessions p) sid of None \<Rightarrow> None
     | Some s \<Rightarrow> if sid \<in> set keys \<and> IsExpired now (sm_timeout (p_sessions p)) s then None else Some s)"
  using reap_expired_all [OF post_ok_fields(3), of L p tkeys] cleanup_loop_sessions [of now keys "[]" "p_sessions p" sid]
  by (simp add: tick_expired_def Cleanup_def case_prod_beta Let_def)

lemma evict_all_timeout:
  "(\<And>sid sm. sm_timeout (snd (ev sid sm)) = sm_timeout sm) \<Longrightarrow> sm_timeout (snd (snd (evict_all ev cs sm))) = sm_timeout sm"
proof (induction cs arbitrary: sm)
  case (Cons x cs)
  obtain o1 sm1 where "ev x sm = (o1, sm1)" by fastforce
  moreover from this Cons.prems [of x sm] have "sm_timeout sm1 = sm_timeout sm" by simp
  moreover have "sm_timeout (snd (snd (evict_all ev cs sm1))) = sm_timeout sm1" by (rule Cons.IH) (rule Cons.prems)
  ultimately show ?case by (auto split: option.split prod.split)
qed simp

lemma tick_timeout:
  "sm_timeout (p_sessions (tick_newborn now keys p)) = sm_timeout (p_sessions p)"
  "sm_timeout (p_sessions (tick_ghosts hb now keys p)) = sm_timeout (p_sessions p)"
proof -
  have n: "sm_timeout (snd (newborn_evict now a sid sm)) = sm_timeout sm" for a sid sm by (simp add: newborn_evict_def split: option.split)
  have g: "sm_timeout (snd (ghost_evict now a g sid sm)) = sm_timeout sm" for a g sid sm by (simp add: ghost_evict_def split: option.split)
  show "sm_timeout (p_sessions (tick_newborn now keys p)) = sm_timeout (p_sessions p)"
    using evict_all_timeout [of "newborn_evict now newbornOrphanMaxAge", OF n] by (simp add: tick_newborn_def case_prod_beta CleanupNewbornOrphans_def)
  show "sm_timeout (p_sessions (tick_ghosts hb now keys p)) = sm_timeout (p_sessions p)"
    using evict_all_timeout [of "ghost_evict now detachedGhostGrace (Some (\<lambda>sid. ghostSweepEligible hb sid p))", OF g]
    by (simp add: tick_ghosts_def case_prod_beta CleanupDetachedGhosts_def)
qed

text \<open>A cleanup tick keeps tunnels and sessions together and spares what is in use.  After it every tunnel
  still has its session; and an attached session that has a live WebSocket, or a relay that
  may still be resumed on it, is untouched as long as it is not idle beyond the timeout.\<close>
theorem cleanup_tick_exact:
  assumes ok: "post_ok L p" and bk: "tunnels_backed p" and keys: "distinct keys"
    and tkeys: "\<forall>s. GetTunnel s p \<noteq> None \<longrightarrow> s \<in> set tkeys"
  shows "tunnels_backed (cleanup_tick hb now keys tkeys p) \<and>
    (\<forall>sid a t s. GetTunnel sid p = Some (a, t) \<longrightarrow> Get sid (p_sessions p) = Some s \<longrightarrow>
       t_wsAttached t \<or> (t_client t \<noteq> [] \<and> hb (t_client t) sid) \<longrightarrow> AttachedAt s \<noteq> 0 \<longrightarrow>
       \<not> IsExpired now (sm_timeout (p_sessions p)) s \<longrightarrow>
       Get sid (p_sessions (cleanup_tick hb now keys tkeys p)) = Some s)"
proof -
  define p1 where "p1 = p\<lparr>p_udp := map_option (UDPCleanup now) (p_udp p)\<rparr>"
  define p2 where "p2 = tick_newborn now keys p1"
  define p3 where "p3 = tick_ghosts hb now keys p2"
  have e: "cleanup_tick hb now keys tkeys p = tick_expired now keys tkeys p3"
    by (simp add: cleanup_tick_def p1_def p2_def p3_def Let_def)
  have ok1: "post_ok L p1" and b1: "tunnels_backed p1" and s1: "p_sessions p1 = p_sessions p"
    using ok bk by (simp_all add: p1_def post_ok_fields tunnels_backed_def)
  have ok2: "post_ok L p2" using ok1 by (auto simp: p2_def tick_newborn_def intro!: post_ok_reap post_ok_fields split: prod.split)
  have ok3: "post_ok L p3" using ok2 by (auto simp: p3_def tick_ghosts_def intro!: post_ok_reap post_ok_fields split: prod.split)
  have "tunnels_backed p2" unfolding p2_def by (rule tick_newborn_backed [OF ok1 b1 keys])
  then have "tunnels_backed p3" unfolding p3_def by (rule tick_ghosts_backed [OF ok2 _ keys])
  moreover have "s \<in> set tkeys" if "GetTunnel s p3 \<noteq> None" for s
    using that tick_sub(2) [OF ok2, of s hb now keys] tick_sub(1) [OF ok1, of s now keys] tkeys by (auto simp: p3_def p2_def p1_def)
  ultimately have "tunnels_backed (cleanup_tick hb now keys tkeys p)" unfolding e by (rule tick_expired_backed [OF ok3])
  moreover have "Get sid (p_sessions (cleanup_tick hb now keys tkeys p)) = Some s"
    if t: "GetTunnel sid p = Some (a, t)" and s: "Get sid (p_sessions p) = Some s" "AttachedAt s \<noteq> 0" "\<not> IsExpired now (sm_timeout (p_sessions p)) s"
      and u: "t_wsAttached t \<or> (t_client t \<noteq> [] \<and> hb (t_client t) sid)" for sid a t s
  proof -
    have n: "\<not> newborn_orphan now newbornOrphanMaxAge s" using s(2) by (simp add: newborn_orphan_def)
    have 2: "sessions (p_sessions p2) sid = Some s" using s(1) n by (simp add: p2_def tick_sessions s1 Get_def)
    let ?r = "CleanupNewbornOrphans now newbornOrphanMaxAge keys (p_sessions p1)"
    have "fst ?r = filter (\<lambda>sid. case sessions (p_sessions p1) sid of None \<Rightarrow> False | Some s \<Rightarrow> newborn_orphan now newbornOrphanMaxAge s)
        (newborn_candidates now newbornOrphanMaxAge keys (p_sessions p1))"
      unfolding CleanupNewbornOrphans_def using keys by (intro newborn.evict_all_ids) (simp add: newborn_candidates_def)
    then have "sid \<notin> set (fst ?r)" using s(1) n s1 by (auto simp: Get_def)
    then have "GetTunnel sid p2 = Some (a, t)"
      using reap_tunnels [OF post_ok_fields(3) [OF ok1]] t by (simp add: p2_def tick_newborn_def case_prod_beta p1_def)
    then have "\<not> ghostSweepEligible hb sid p2" using 2 u by (auto simp: ghostSweepEligible_def Get_def)
    then have 3: "sessions (p_sessions p3) sid = Some s" using 2 by (simp add: p3_def tick_sessions ghost_def gate_open_def)
    have "sm_timeout (p_sessions p3) = sm_timeout (p_sessions p)" by (simp add: p3_def p2_def tick_timeout s1)
    then show ?thesis using 3 s(3) by (simp add: e Get_def tick_expired_sessions [OF ok3])
  qed
  ultimately show ?thesis by blast
qed

theorem cleanup_tick_exact_witness:
  "let p = w_post (fold (post_step tag_gcm zero_pool plain_env) [AOpen 7 [65], AConnect 7 (put16 1 @ [65]), ADialOk 0]
        (post_start \<lparr>sessions = [7 \<mapsto> demo_sender\<lparr>AttachedAt := 1\<rparr>], sm_timeout = 60, nextID = 7\<rparr> (NewClientAuth [[65]]) None))
   in Get 7 (p_sessions (cleanup_tick (\<lambda>_ _. True) 5 [7] [7] p)) = Some (demo_sender\<lparr>AttachedAt := 1\<rparr>)"
proof -
  let ?w = "fold (post_step tag_gcm zero_pool plain_env) [AOpen 7 [65], AConnect 7 (put16 1 @ [65]), ADialOk 0]
        (post_start \<lparr>sessions = [7 \<mapsto> demo_sender\<lparr>AttachedAt := 1\<rparr>], sm_timeout = 60, nextID = 7\<rparr> (NewClientAuth [[65]]) None)"
  note D = demo_fin_state [of "\<lparr>sessions = [7 \<mapsto> demo_sender\<lparr>AttachedAt := 1\<rparr>], sm_timeout = 60, nextID = 7\<rparr>" "NewClientAuth [[65]]" None]
  have s: "p_sessions (w_post ?w) = \<lparr>sessions = [7 \<mapsto> demo_sender\<lparr>AttachedAt := 1\<rparr>], sm_timeout = 60, nextID = 7\<rparr>"
    by (simp add: post_run_defs)
  have t: "GetTunnel s (w_post ?w) \<noteq> None \<Longrightarrow> s = 7" for s by (simp add: post_run_defs split: if_splits)
  then have b: "tunnels_backed (w_post ?w)" using s by (auto simp: tunnels_backed_def Get_def)
  have k: "\<forall>s. GetTunnel s (w_post ?w) \<noteq> None \<longrightarrow> s \<in> set [7]" using t by simp
  have "distinct [7 :: u32]" by simp
  from cleanup_tick_exact [OF D(1) b this k, of "\<lambda>_ _. True" 5] D(2) s show ?thesis
    by (simp add: new_tunnel_def Get_def demo_sender_def NewSession_def IsExpired_def)
qed

text \<open>
  The sweeps of newborn and detached sessions do not touch the UDP relay: the flows of a swept
  session stay until they are idle, unlike those of an expired or finished session.
\<close>

lemma sweeps_keep_udp_flows: "p_udp (tick_ghosts hb now keys (tick_newborn now keys p)) = p_udp p"
  by (simp add: tick_ghosts_def tick_newborn_def case_prod_beta)

subsection \<open>Batched responses\<close>

lemma batch_loop_bounds:
  "n \<le> maxBatchChunks \<Longrightarrow> n + length (fst (batch_loop n b q)) \<le> maxBatchChunks \<and>
   (fst (batch_loop n b q) \<noteq> [] \<longrightarrow> b + sum_list (map length (butlast (fst (batch_loop n b q)))) < maxBatchBytes)"
proof (induction n b q rule: batch_loop.induct)
  case (2 n b d ds)
  show ?case
  proof (cases "n < maxBatchChunks \<and> b < maxBatchBytes")
    case True
    from 2(1) [OF True] True show ?thesis by (simp add: case_prod_beta) linarith
  qed (use 2(2) in auto)
qed simp

text \<open>The client opens the chunks of a response in order.\<close>

fun open_all :: "gcm \<Rightarrow> instant \<Rightarrow> bytes list \<Rightarrow> session \<Rightarrow> chunk list" where
  "open_all G now [] b = []"
| "open_all G now (w # ws) b =
     (case DecryptChunkSafe G now w b of (Ok c, b', _) \<Rightarrow> c # open_all G now ws b' | (_, b', _) \<Rightarrow> open_all G now ws b')"

lemma seal_chunk_opens:
  assumes "gcm_ok G" "pool_ok P" "Get sid (p_sessions p) = Some s" "paired s b"
  shows "\<exists>w s'. seal_chunk G P sid fl d p = (Some w, p\<lparr>p_sessions := (p_sessions p)\<lparr>sessions := (sessions (p_sessions p))(sid \<mapsto> s')\<rparr>\<rparr>) \<and>
    DecryptChunkSafe G now w b = (Ok \<lparr>SessionID = ID s, SeqNum = sendSeq s, Flags = fl, Payload = d\<rparr>, b\<lparr>lastActivity := now\<rparr>, [OnDecrypt]) \<and>
    paired s' (b\<lparr>lastActivity := now\<rparr>) \<and> ID s' = ID s"
proof -
  obtain ep where ep: "sendEpochPtr s = Some ep" "recvGCM b = Some (ep_gcm ep)" "\<not> destroyed s" "\<not> destroyed b"
    using assms(4) by (auto simp: paired_def)
  let ?s1 = "s\<lparr>sendSeq := sendSeq s + 1\<rparr>" and ?c = "\<lparr>SessionID = ID s, SeqNum = sendSeq s, Flags = fl, Payload = d\<rparr>"
  have "\<not> destroyed ?s1" "sendEpochPtr ?s1 = Some ep" using ep by simp_all
  from EncryptChunk_epoch [OF assms(2) this, of G None ?c] obtain P' where
    "EncryptChunk G P None ?c ?s1 = (Ok (counter_nonce (ep_nonce ep) @ gcm_seal G (ep_gcm ep) (counter_nonce (ep_nonce ep)) (marshal ?c) [], P'),
      ?s1\<lparr>sendEpochPtr := Some (ep\<lparr>ep_nonce := ep_nonce ep + 1\<rparr>)\<rparr>, [OnEncrypt])" by blast
  then show ?thesis using assms(3) ep DecryptChunkSafe_current [OF assms(1) ep(4,2) length_counter_nonce, of now "ep_nonce ep" ?c]
    by (auto simp: seal_chunk_def NextSeqNum_def paired_def)
qed

lemma seal_all_opens:
  assumes "gcm_ok G" "pool_ok P"
  shows "Get sid (p_sessions p) = Some s \<Longrightarrow> paired s b \<Longrightarrow>
    length (fst (seal_all G P sid ds p)) = length ds \<and>
    map (\<lambda>c. (Flags c, Payload c)) (open_all G now (fst (seal_all G P sid ds p)) b) = map (Pair FlagData) ds \<and>
    p_tunnels (snd (seal_all G P sid ds p)) = p_tunnels p \<and> p_tun (snd (seal_all G P sid ds p)) = p_tun p"
proof (induction ds arbitrary: p s b)
  case (Cons d ds)
  obtain w s' where w: "seal_chunk G P sid FlagData d p = (Some w, p\<lparr>p_sessions := (p_sessions p)\<lparr>sessions := (sessions (p_sessions p))(sid \<mapsto> s')\<rparr>\<rparr>)"
    "DecryptChunkSafe G now w b = (Ok \<lparr>SessionID = ID s, SeqNum = sendSeq s, Flags = FlagData, Payload = d\<rparr>, b\<lparr>lastActivity := now\<rparr>, [OnDecrypt])"
    "paired s' (b\<lparr>lastActivity := now\<rparr>)"
    using seal_chunk_opens [OF assms Cons.prems] by blast
  have "Get sid (p_sessions (p\<lparr>p_sessions := (p_sessions p)\<lparr>sessions := (sessions (p_sessions p))(sid \<mapsto> s')\<rparr>\<rparr>)) = Some s'"
    by (simp add: Get_def)
  from Cons.IH [OF this w(3)] w show ?case by (simp add: case_prod_beta)
qed simp

text \<open>A poll response is a faithful batch.  When data is waiting and no download stream drains it, the
  response has between 1 and 16 chunks; the client decrypts them to the first chunks of the
  queue, in order and as data; exactly those leave the queue; and a further chunk is only
  added while the batch is below 48 KiB.\<close>
theorem poll_batch_exact:
  assumes crypto: "gcm_ok G" "pool_ok P" and s: "Get sid (p_sessions p) = Some s" "paired s b"
    and t: "GetTunnel sid p = Some (a, t)" "\<not> t_download t" "t_outgoing t \<noteq> []"
    and r: "data_collect G P sid p = (reply, p')"
  shows "\<exists>ws. reply = PostChunks ws \<and> 1 \<le> length ws \<and> length ws \<le> 16 \<and>
    map (\<lambda>c. (Flags c, Payload c)) (open_all G now ws b) = map (Pair FlagData) (take (length ws) (t_outgoing t)) \<and>
    map_option (\<lambda>(_, t'). t_outgoing t') (GetTunnel sid p') = Some (drop (length ws) (t_outgoing t)) \<and>
    sum_list (map length (butlast (take (length ws) (t_outgoing t)))) < 48 * 1024"
proof -
  obtain d ds where q: "t_outgoing t = d # ds" using t(3) by (cases "t_outgoing t") auto
  define got where "got = fst (collect_batch (t_outgoing t))"
  let ?p1 = "upd_tun a (\<lambda>t. t\<lparr>t_outgoing := snd (collect_batch (t_outgoing t))\<rparr>) p"
  have split: "t_outgoing t = got @ snd (collect_batch (t_outgoing t))" by (simp add: got_def collect_batch_split)
  have got: "got = d # fst (batch_loop 1 (length d) ds)" by (simp add: got_def q collect_batch_def case_prod_beta)
  have b: "1 + length (fst (batch_loop 1 (length d) ds)) \<le> 16"
    "fst (batch_loop 1 (length d) ds) \<noteq> [] \<longrightarrow> length d + sum_list (map length (butlast (fst (batch_loop 1 (length d) ds)))) < 48 * 1024"
    using batch_loop_bounds [of 1 "length d" ds] by (simp_all add: maxBatchChunks_def maxBatchBytes_def)
  have "Get sid (p_sessions ?p1) = Some s" using s(1) by (simp add: upd_tun_def)
  note A = seal_all_opens [OF crypto this s(2), of got now]
  have e: "reply = PostChunks (fst (seal_all G P sid got ?p1))" "p' = snd (seal_all G P sid got ?p1)"
    using r t got by (simp_all add: data_collect_def got_def case_prod_beta)
  have tn: "p_tunnels p sid = Some a" "p_tun p a = Some t" using t(1) by (auto simp: GetTunnel_def split: option.splits)
  have "length (fst (seal_all G P sid got ?p1)) = length got" using A by simp
  moreover have "take (length got) (t_outgoing t) = got" "drop (length got) (t_outgoing t) = snd (collect_batch (t_outgoing t))"
    using split by (metis append_eq_conv_conj)+
  moreover have "map_option (\<lambda>(_, t'). t_outgoing t') (GetTunnel sid p') = Some (snd (collect_batch (t_outgoing t)))"
    using A tn by (simp add: e GetTunnel_def upd_tun_def)
  moreover have "length got \<ge> 1 \<and> length got \<le> 16 \<and> sum_list (map length (butlast got)) < 48 * 1024" using b by (simp add: got)
  ultimately show ?thesis using A e by (intro exI [of _ "fst (seal_all G P sid got ?p1)"]) simp
qed

definition demo_post :: "bytes list \<Rightarrow> postState" where
  "demo_post q =
     \<lparr>p_sessions = \<lparr>sessions = [7 \<mapsto> demo_sender], sm_timeout = 0, nextID = 7\<rparr>, p_auth = NewClientAuth [[65]], p_udp = None,
      p_tunnels = [7 \<mapsto> 0], p_tun = [0 \<mapsto> (new_tunnel 7 [65])\<lparr>t_outgoing := q\<rparr>], p_str = Map.empty, p_con = Map.empty,
      p_next = 1, p_active = 1\<rparr>"

lemma demo_post_facts:
  "Get 7 (p_sessions (demo_post q)) = Some demo_sender" "GetTunnel 7 (demo_post q) = Some (0, (new_tunnel 7 [65])\<lparr>t_outgoing := q\<rparr>)"
  by (simp_all add: demo_post_def Get_def GetTunnel_def)

theorem poll_batch_exact_witness:
  "\<exists>ws p'. data_collect tag_gcm zero_pool 7 (demo_post [[1], [2]]) = (PostChunks ws, p') \<and>
     map (\<lambda>c. (Flags c, Payload c)) (open_all tag_gcm 0 ws demo_receiver) = map (Pair FlagData) (take (length ws) [[1], [2]]) \<and> 1 \<le> length ws"
proof -
  obtain reply p' where r: "data_collect tag_gcm zero_pool 7 (demo_post [[1], [2]]) = (reply, p')" by fastforce
  from poll_batch_exact [OF gcm_ok_tag_gcm pool_ok_zero_pool demo_post_facts(1) paired_demo demo_post_facts(2) _ _ r]
  show ?thesis using r by (auto simp: new_tunnel_def)
qed

subsection \<open>UDP answers of a polling client\<close>

text \<open>UDP answers are encrypted twice for a client that polls.  The callback of \<open>handleUDPData\<close> puts the
  already encrypted chunk into \<open>Outgoing\<close>, whose chunks are encrypted as data when they are
  collected: the client's first decryption yields a data chunk whose payload is ciphertext (the
  answer only appears under a second decryption, which no client makes), so the
  ciphertext is delivered to a TCP stream named by its first two bytes.\<close>
theorem udp_answer_sealed_twice:
  assumes crypto: "gcm_ok G" "pool_ok P" and s: "Get (cb_session cb) (p_sessions p) = Some s" "paired s b"
    and t: "GetTunnel (cb_session cb) p = Some (a, t)" "\<not> t_download t" "t_outgoing t = []"
  shows "\<exists>p1 p2 wire c c'. udp_answer G P a cb d p = Some p1 \<and>
    data_collect G P (cb_session cb) p1 = (PostChunks [wire], p2) \<and>
    fst (DecryptChunkSafe G now wire b) = Ok c \<and> Flags c = FlagData \<and>
    fst (DecryptChunkSafe G now (Payload c) b) = Ok c' \<and> Flags c' = FlagUDP \<and>
    Payload c' = BuildUDPChunkPayload (cb_stream cb) (cb_label cb) d"
proof -
  let ?sid = "cb_session cb" and ?u = "BuildUDPChunkPayload (cb_stream cb) (cb_label cb) d"
  obtain w s' where w: "seal_chunk G P ?sid FlagUDP ?u p = (Some w, p\<lparr>p_sessions := (p_sessions p)\<lparr>sessions := (sessions (p_sessions p))(?sid \<mapsto> s')\<rparr>\<rparr>)"
    "fst (DecryptChunkSafe G now w b) = Ok \<lparr>SessionID = ID s, SeqNum = sendSeq s, Flags = FlagUDP, Payload = ?u\<rparr>"
    "paired s' (b\<lparr>lastActivity := now\<rparr>)"
    using seal_chunk_opens [OF crypto s, of FlagUDP ?u now] by auto
  define p1 where "p1 = upd_tun a (\<lambda>t. t\<lparr>t_outgoing := t_outgoing t @ [w]\<rparr>) (p\<lparr>p_sessions := (p_sessions p)\<lparr>sessions := (sessions (p_sessions p))(?sid \<mapsto> s')\<rparr>\<rparr>)"
  have tn: "p_tunnels p ?sid = Some a" "p_tun p a = Some t" using t(1) by (auto simp: GetTunnel_def split: option.splits)
  have ans: "udp_answer G P a cb d p = Some p1"
    using tn t w by (simp add: udp_answer_def p1_def defaultTunnelOutgoingBuffer_def)
  have g1: "GetTunnel ?sid p1 = Some (a, t\<lparr>t_outgoing := [w]\<rparr>)" using tn t(3) by (simp add: GetTunnel_def p1_def upd_tun_def)
  define p1' where "p1' = upd_tun a (\<lambda>t. t\<lparr>t_outgoing := snd (collect_batch (t_outgoing t))\<rparr>) p1"
  have "Get ?sid (p_sessions p1') = Some s'" by (simp add: Get_def p1_def p1'_def upd_tun_def)
  moreover have "paired s' b" using w(3) by (simp add: paired_def)
  ultimately obtain wire q where x: "seal_chunk G P ?sid FlagData w p1' = (Some wire, q)"
      "fst (DecryptChunkSafe G now wire b) = Ok \<lparr>SessionID = ID s', SeqNum = sendSeq s', Flags = FlagData, Payload = w\<rparr>"
    using seal_chunk_opens [OF crypto, of ?sid p1' s' b FlagData w now] by auto
  have "data_collect G P ?sid p1 = (PostChunks [wire], q)"
    using g1 t(2) x(1) by (simp add: data_collect_def p1'_def collect_batch_def case_prod_beta)
  then show ?thesis using ans x(2) w(2) by fastforce
qed

theorem udp_answer_sealed_twice_witness:
  "\<exists>wire c p1. udp_answer tag_gcm zero_pool 0 \<lparr>cb_session = 7, cb_stream = 1, cb_label = [65]\<rparr> [9] (demo_post []) = Some p1 \<and>
     fst (DecryptChunkSafe tag_gcm 0 wire demo_receiver) = Ok c \<and> Flags c = FlagData"
  using udp_answer_sealed_twice [OF gcm_ok_tag_gcm pool_ok_zero_pool, of "\<lparr>cb_session = 7, cb_stream = 1, cb_label = [65]\<rparr>" "demo_post []"
      demo_sender demo_receiver 0 "(new_tunnel 7 [65])\<lparr>t_outgoing := []\<rparr>" "[9]" 0] paired_demo demo_post_facts [of "[]"]
  by (auto simp: new_tunnel_def)

end
