(* ===== verification/Data_Path.thy ===== *)
theory Data_Path
  imports Server_Tunnel_Life Handshake
begin

section \<open>From the body of a POST to a chunk\<close>

text \<open>
  Models the entry of the data path in \<open>src/server/handler.go\<close>: the constant-time lookup of the
  session by the hint in front of the session token (\<open>findSessionByHint\<close>, with the client's
  \<open>EncodeTokenWithHint\<close> of \<open>src/skins/browser/request.go\<close>), the verification of the token, and
  \<open>handleNewFormatPost\<close>, which tries the data path before the handshake.  The decision of the
  rate limiters is an argument; the JSON body is already decoded.
\<close>

definition sessionTokenSize :: nat where "sessionTokenSize = 4 + (12 + 4 + 16)"

definition EncodeTokenWithHint :: "u32 \<Rightarrow> bytes \<Rightarrow> bytes" where
  "EncodeTokenWithHint sid token =
     (if length token < 4 then token else put32 (sid XOR get32 (take 4 token)) @ token)"

definition verifySessionToken :: "gcm \<Rightarrow> bytes \<Rightarrow> u32 \<Rightarrow> bytes \<Rightarrow> bool" where
  "verifySessionToken G token expectedID key =
     (case newGCM key of
        Ok k \<Rightarrow>
          if length token < NonceSize + 4 + TagSize then False
          else (case gcm_open G k (take NonceSize token) (drop NonceSize token) [] of
                  None \<Rightarrow> False
                | Some plaintext \<Rightarrow> length plaintext \<ge> 4 \<and> get32 (take 4 plaintext) = expectedID)
      | _ \<Rightarrow> False)"

definition findSessionByHint :: "gcm \<Rightarrow> bytes \<Rightarrow> postState \<Rightarrow> session option" where
  "findSessionByHint G tokenBytes p =
     (if length tokenBytes < 20 then None
      else let hint = take 4 tokenBytes; token = drop 4 tokenBytes
           in if length token < 4 then None
              else case Get (get32 hint XOR get32 (take 4 token)) (p_sessions p) of
                     None \<Rightarrow> None
                   | Some s \<Rightarrow> if verifySessionToken G token (ID s) (snd (Keys s)) then Some s else None)"

datatype dispatch = DReply postReply | DRateLimited | DHandshake bytes bytes | DDecoy

definition v1HandshakeMin :: nat where "v1HandshakeMin = 32 + EncryptedClientIDSize"

text \<open>What remains when the data path does not apply.\<close>

definition try_handshake :: "bytes \<Rightarrow> dispatch" where
  "try_handshake payload =
     (if length payload \<ge> v1HandshakeMin then DHandshake (take 32 payload) (drop 32 (take v1HandshakeMin payload)) else DDecoy)"

definition handleNewFormatPost ::
  "gcm \<Rightarrow> bufpool \<Rightarrow> postEnv \<Rightarrow> instant \<Rightarrow> bool \<Rightarrow> bool \<Rightarrow> bool \<Rightarrow> bytes \<Rightarrow> postState \<Rightarrow> dispatch \<times> postState" where
  "handleNewFormatPost G P E now allow dialed ok payload p =
     (if length payload \<ge> sessionTokenSize + MinChunk then
        (case findSessionByHint G (take sessionTokenSize payload) p of
           None \<Rightarrow> (try_handshake payload, p)
         | Some s \<Rightarrow>
             (case DecryptChunkSafe G now (drop sessionTokenSize payload) s of
                (Ok c, s', _) \<Rightarrow>
                  (let p1 = p\<lparr>p_sessions := (p_sessions p)\<lparr>sessions := (sessions (p_sessions p))(ID s \<mapsto> s')\<rparr>\<rparr>
                   in if allow then (case routeDataChunk G P E now dialed ok (ID s) c p1 of (r, p2) \<Rightarrow> (DReply r, p2))
                      else (DRateLimited, p1))
              | (_, s', _) \<Rightarrow>
                  (try_handshake payload, p\<lparr>p_sessions := (p_sessions p)\<lparr>sessions := (sessions (p_sessions p))(ID s \<mapsto> s')\<rparr>\<rparr>)))
      else (try_handshake payload, p))"

subsection \<open>Finding the session\<close>

lemma get32_hint: "get32 (put32 (x XOR y)) XOR y = x"
  by (simp add: wire_simps xor.assoc)

lemma find_own_token:
  assumes "gcm_ok G" "length nonce = NonceSize" "length key \<in> {16, 24, 32}" "Get (ID s) (p_sessions p) = Some s" "RecvKey s = key"
  shows "findSessionByHint G (EncodeTokenWithHint (ID s) (nonce @ gcm_seal G key nonce (put32 (ID s)) [])) p = Some s"
proof -
  define tok where "tok = nonce @ gcm_seal G key nonce (put32 (ID s)) []"
  have l: "length tok = 32" using assms(1,2) by (simp add: tok_def gcm_okD wire_simps NonceSize_def TagSize_def)
  have v: "verifySessionToken G tok (ID s) key"
    using assms(1,2,3) by (simp add: verifySessionToken_def newGCM_def tok_def gcm_okD wire_simps NonceSize_def TagSize_def)
  have e: "EncodeTokenWithHint (ID s) tok = put32 (ID s XOR get32 (take 4 tok)) @ tok" using l by (simp add: EncodeTokenWithHint_def)
  show ?thesis unfolding tok_def [symmetric] e using l v assms(4,5) get32_hint [of "ID s" "get32 (take 4 tok)"]
    by (simp add: findSessionByHint_def Keys_def wire_simps)
qed

text \<open>C23. A client that completed the handshake is found by its token.  The token of the server's hello, with
  the hint the client puts in front of it, leads \<open>findSessionByHint\<close> to exactly the session
  the handshake created.\<close>
theorem token_finds_session:
  assumes "gcm_ok G" "r_token R = Some nonce" "length nonce = NonceSize"
    and "HandleClientHelloWithVersion C G now nowNs R hello serverStatic maxConns chunkSize v sm = (Ok (sh, s, cid), sm')"
    and "p_sessions p = sm'"
  shows "findSessionByHint G (EncodeTokenWithHint (sh_SessionID sh) (sh_EncryptedSessionToken sh)) p = Some s"
proof -
  obtain sk rk where keys: "Create nowNs (r_migrate R) rk sk sm = (Ok s, sm')" "sh_SessionID sh = ID s"
      "encryptSessionToken G (r_token R) (ID s) sk = Ok (sh_EncryptedSessionToken sh)"
    using assms(4) by (fastforce simp: HandleClientHelloWithVersion_def split: outcome.splits prod.splits)
  from keys(1) have c: "length sk \<in> {16, 24, 32}" "RecvKey s = sk" "Get (ID s) sm' = Some s"
    by (auto simp: Create_def newGCM_def NewSession_def Get_def Let_def split: if_splits)
  from keys(3) c(1) assms(2) have "sh_EncryptedSessionToken sh = nonce @ gcm_seal G sk nonce (put32 (ID s)) []"
    by (simp add: encryptSessionToken_def newGCM_def)
  with find_own_token [OF assms(1,3) c(1), of s p] c assms(5) keys(2) show ?thesis by simp
qed

theorem token_finds_session_witness:
  "\<exists>hello sh s cid sm'. HandleClientHelloWithVersion xor_crypto tag_gcm 1200 0 demo_random hello demo_server 0 0 1
       \<lparr>sessions = Map.empty, sm_timeout = 9, nextID = 41\<rparr> = (Ok (sh, s, cid), sm') \<and>
     findSessionByHint tag_gcm (EncodeTokenWithHint (sh_SessionID sh) (sh_EncryptedSessionToken sh)) ((demo_post [])\<lparr>p_sessions := sm'\<rparr>) = Some s"
proof -
  obtain cs ss sm' where "handshake_run xor_crypto tag_gcm 1000 (replicate 32 3) (zeros 24) (replicate 16 2) 1200 demo_random demo_server 1
       \<lparr>sessions = Map.empty, sm_timeout = 9, nextID = 41\<rparr> = (Ok (cs, ss, replicate 16 2), sm')"
    by (rule handshake_run_agrees [OF xor_crypto_ok gcm_ok_tag_gcm keyPair_ok_demo_server, of "replicate 16 2" "replicate 32 3" "zeros 24"
        demo_random "replicate 32 5" "zeros 12" 1000 1200 1 "\<lparr>sessions = Map.empty, sm_timeout = 9, nextID = 41\<rparr>"])
      (simp_all add: demo_random_def NonceSize_def clock_ok_def HandshakeDriftWindowSecs_def)
  then obtain hello sh where h: "HandleClientHelloWithVersion xor_crypto tag_gcm 1200 0 demo_random hello demo_server 0 0 1
       \<lparr>sessions = Map.empty, sm_timeout = 9, nextID = 41\<rparr> = (Ok (sh, ss, replicate 16 2), sm')"
    by (auto simp: handshake_run_def split: outcome.splits prod.splits)
  have "r_token demo_random = Some (zeros 12)" "length (zeros 12) = NonceSize" by (simp_all add: demo_random_def NonceSize_def)
  from token_finds_session [OF gcm_ok_tag_gcm this h, of "(demo_post [])\<lparr>p_sessions := sm'\<rparr>"] h show ?thesis by fastforce
qed

lemma findSession_sealed:
  assumes "gcm_ok G" "findSessionByHint G tb p = Some s"
  shows "\<exists>nonce pt. drop 4 tb = nonce @ gcm_seal G (RecvKey s) nonce pt [] \<and> get32 (take 4 pt) = ID s"
proof -
  have v: "verifySessionToken G (drop 4 tb) (ID s) (RecvKey s)"
    using assms(2) by (auto simp: findSessionByHint_def Keys_def Let_def split: if_splits option.splits)
  let ?t = "drop 4 tb"
  obtain pt where "gcm_open G (RecvKey s) (take NonceSize ?t) (drop NonceSize ?t) [] = Some pt" "get32 (take 4 pt) = ID s"
    using v by (auto simp: verifySessionToken_def newGCM_def split: if_splits option.splits)
  then show ?thesis using gcm_okD(2) [OF assms(1)] by (metis append_take_drop_id)
qed

lemma DecryptChunkSafe_window: "DecryptChunkSafe G now data s = (r, s', ev) \<Longrightarrow> recvWindow s' = recvWindow s"
  by (auto simp: DecryptChunkSafe_def split: if_splits option.splits outcome.splits)

text \<open>The state outside the session table.\<close>

definition same_tables :: "postState \<Rightarrow> postState \<Rightarrow> bool" where
  "same_tables p p' \<longleftrightarrow> p_tun p' = p_tun p \<and> p_tunnels p' = p_tunnels p \<and> p_str p' = p_str p \<and> p_con p' = p_con p \<and>
     p_udp p' = p_udp p \<and> p_auth p' = p_auth p"

lemma replayed_chunk_inert:
  assumes "Get sid (p_sessions p) = Some s" "\<not> fst (AcceptSeqNum (SeqNum c) (recvWindow s))"
  shows "same_tables p (snd (routeDataChunk G P E now dialed ok sid c p))"
proof -
  obtain p1 where "accept_seq now sid (SeqNum c) p = (False, p1)" "same_tables p p1"
    using assms by (cases "AcceptSeqNum (SeqNum c) (recvWindow s)") (simp add: accept_seq_def SessionAcceptSeqNum_def same_tables_def)
  then show ?thesis using seal_chunk_frame [of G P sid FlagAck "[]" p1]
    by (simp add: routeDataChunk_def sendAck_def same_tables_def case_prod_beta split: option.split)
qed

text \<open>C15. The data path only acts for the holder of a session's keys, and once per chunk.  A request changes
  tunnels, streams, connections, UDP flows or quota only if its token was sealed under the
  receive key of a session in the table, its chunk was sealed under one of that session's
  receive keys, and the chunk's sequence number is new to the session's window.\<close>
theorem post_needs_session_keys:
  assumes "gcm_ok G" and "handleNewFormatPost G P E now allow dialed ok payload p = (r, p')"
    and "p_tun p' \<noteq> p_tun p \<or> p_tunnels p' \<noteq> p_tunnels p \<or> p_str p' \<noteq> p_str p \<or> p_con p' \<noteq> p_con p \<or>
         p_udp p' \<noteq> p_udp p \<or> p_auth p' \<noteq> p_auth p"
  shows "\<exists>s c nonce pt k. findSessionByHint G (take sessionTokenSize payload) p = Some s \<and>
    drop 4 (take sessionTokenSize payload) = nonce @ gcm_seal G (RecvKey s) nonce pt [] \<and> get32 (take 4 pt) = ID s \<and>
    k \<in> receive_keys now s \<and> (\<exists>m. drop NonceSize (drop sessionTokenSize payload) =
      gcm_seal G k (take NonceSize (drop sessionTokenSize payload)) m [] \<and> unmarshal m = Ok c) \<and>
    fst (AcceptSeqNum (SeqNum c) (recvWindow s))"
proof -
  let ?d = "drop sessionTokenSize payload"
  have ch: "\<not> same_tables p p'" using assms(3) by (auto simp: same_tables_def)
  have st: "same_tables p (p\<lparr>p_sessions := sm\<rparr>)" for sm by (simp add: same_tables_def)
  obtain s where f: "findSessionByHint G (take sessionTokenSize payload) p = Some s"
    using assms(2) ch st [of "p_sessions p"]
    by (cases "findSessionByHint G (take sessionTokenSize payload) p") (auto simp: handleNewFormatPost_def split: if_splits)
  obtain res s' ev where d: "DecryptChunkSafe G now ?d s = (res, s', ev)" by (cases "DecryptChunkSafe G now ?d s") auto
  obtain c where c: "res = Ok c" using assms(2) ch st f d by (cases res) (auto simp: handleNewFormatPost_def same_tables_def split: if_splits)
  define p1 where "p1 = p\<lparr>p_sessions := (p_sessions p)\<lparr>sessions := (sessions (p_sessions p))(ID s \<mapsto> s')\<rparr>\<rparr>"
  have p': "p' = snd (routeDataChunk G P E now dialed ok (ID s) c p1)"
    using assms(2) ch st f d c by (auto simp: handleNewFormatPost_def p1_def same_tables_def Let_def split: if_splits prod.splits)
  have "same_tables p1 q \<Longrightarrow> same_tables p q" for q by (simp add: same_tables_def p1_def)
  then have "fst (AcceptSeqNum (SeqNum c) (recvWindow s))"
    unfolding DecryptChunkSafe_window [OF d, symmetric]
    using replayed_chunk_inert [of "ID s" p1 s' c G P E now dialed ok] ch p' by (auto simp: p1_def Get_def)
  moreover have "\<exists>k \<in> receive_keys now s. \<exists>m. drop NonceSize ?d = gcm_seal G k (take NonceSize ?d) m [] \<and> unmarshal m = Ok c"
    using decrypted_was_sealed [OF assms(1), of now ?d s c] d c by simp
  ultimately show ?thesis using f findSession_sealed [OF assms(1) f] by blast
qed

text \<open>A concrete request to the session of \<open>demo_post\<close>.\<close>

definition demo_body :: "chunk \<Rightarrow> bytes" where
  "demo_body c =
     (let k = replicate 32 2 in
      EncodeTokenWithHint 7 (zeros 12 @ gcm_seal tag_gcm k (zeros 12) (put32 7) []) @
      zeros 12 @ gcm_seal tag_gcm k (zeros 12) (marshal c) [])"

abbreviation demo_fin_body :: bytes where
  "demo_fin_body \<equiv> demo_body (NewSessionFinChunk 7 1)"

lemma demo_body_opens:
  "findSessionByHint tag_gcm (take sessionTokenSize (demo_body c)) (demo_post []) = Some demo_sender"
  "DecryptChunkSafe tag_gcm 0 (drop sessionTokenSize (demo_body c)) demo_sender = (Ok c, demo_sender\<lparr>lastActivity := 0\<rparr>, [OnDecrypt])"
  "sessionTokenSize + MinChunk \<le> length (demo_body c)" "ID demo_sender = 7" "recvWindow demo_sender = new_window"
proof -
  let ?k = "replicate 32 2 :: bytes"
  define tok where "tok = EncodeTokenWithHint 7 (zeros 12 @ gcm_seal tag_gcm ?k (zeros 12) (put32 7) [])"
  define enc where "enc = zeros 12 @ gcm_seal tag_gcm ?k (zeros 12) (marshal c) []"
  note G = gcm_okD [OF gcm_ok_tag_gcm]
  have body: "demo_body c = tok @ enc" by (simp add: demo_body_def tok_def enc_def Let_def)
  have lt: "length tok = sessionTokenSize" by (simp add: tok_def EncodeTokenWithHint_def G wire_simps sessionTokenSize_def TagSize_def)
  have le: "MinChunk \<le> length enc" by (simp add: enc_def G marshal_def wire_simps MinChunk_def NonceSize_def HeaderSize_def TagSize_def)
  have s: "Get (ID demo_sender) (p_sessions (demo_post [])) = Some demo_sender" "RecvKey demo_sender = ?k" "ID demo_sender = 7"
    "\<not> destroyed demo_sender" "recvGCM demo_sender = Some ?k"
    by (simp_all add: demo_post_def Get_def demo_sender_def NewSession_def)
  show "ID demo_sender = 7" "recvWindow demo_sender = new_window" by (simp_all add: demo_sender_def NewSession_def)
  show "findSessionByHint tag_gcm (take sessionTokenSize (demo_body c)) (demo_post []) = Some demo_sender"
    using find_own_token [OF gcm_ok_tag_gcm _ _ s(1,2), of "zeros 12"] s(3) lt by (simp add: body tok_def NonceSize_def)
  have "DecryptChunkSafe tag_gcm 0 enc demo_sender = (Ok c, demo_sender\<lparr>lastActivity := 0\<rparr>, [OnDecrypt])"
    unfolding enc_def by (rule DecryptChunkSafe_current [OF gcm_ok_tag_gcm s(4,5)]) (simp add: NonceSize_def)
  then show "DecryptChunkSafe tag_gcm 0 (drop sessionTokenSize (demo_body c)) demo_sender = (Ok c, demo_sender\<lparr>lastActivity := 0\<rparr>, [OnDecrypt])"
    using lt by (simp add: body)
  show "sessionTokenSize + MinChunk \<le> length (demo_body c)" using lt le by (simp add: body)
qed

lemma demo_fin_effect: "p_tunnels (snd (handleNewFormatPost tag_gcm zero_pool plain_env 0 True True True demo_fin_body (demo_post []))) 7 = None"
proof -
  let ?c = "NewSessionFinChunk 7 1"
  note D = demo_body_opens(1-3) [of ?c] demo_body_opens(4,5)
  have a: "fst (AcceptSeqNum 1 new_window)" by (simp add: AcceptSeqNum_def new_window_def Let_def)
  define p1 where "p1 = (demo_post [])\<lparr>p_sessions := (p_sessions (demo_post []))\<lparr>sessions := (sessions (p_sessions (demo_post [])))(7 \<mapsto> demo_sender\<lparr>lastActivity := 0\<rparr>)\<rparr>\<rparr>"
  obtain p2 where p2: "accept_seq 0 7 1 p1 = (True, p2)" "p_tunnels p2 = [7 \<mapsto> 0]" "p_tun p2 = p_tun p1"
    using a D(5) by (cases "AcceptSeqNum 1 new_window") (simp add: accept_seq_def p1_def Get_def SessionAcceptSeqNum_def demo_post_def)
  have "GetTunnel 7 p2 \<noteq> None" using p2 by (simp add: GetTunnel_def p1_def demo_post_def)
  then have "p_tunnels (handleFin 7 p2) 7 = None" by (auto simp: handleFin_def udp_remove_def Let_def drop_tunnel_tunnels)
  then have "p_tunnels (snd (handleFinChunk tag_gcm zero_pool 7 [] p2)) 7 = None"
    using seal_chunk_frame(1) [of tag_gcm zero_pool 7 FlagAck "[]" "handleFin 7 p2"]
    by (simp add: handleFinChunk_def sendAck_def case_prod_beta split: option.split)
  then have "p_tunnels (snd (routeDataChunk tag_gcm zero_pool plain_env 0 True True 7 ?c p1)) 7 = None"
    using p2(1) by (simp add: routeDataChunk_def NewSessionFinChunk_def FlagData_def FlagPadding_def FlagKeepalive_def FlagConnect_def FlagUDP_def FlagControl_def FlagFin_def)
  then show ?thesis using D by (simp add: handleNewFormatPost_def p1_def Let_def case_prod_beta)
qed

theorem post_needs_session_keys_witness:
  "\<exists>s c nonce pt k. findSessionByHint tag_gcm (take sessionTokenSize demo_fin_body) (demo_post []) = Some s \<and>
    drop 4 (take sessionTokenSize demo_fin_body) = nonce @ gcm_seal tag_gcm (RecvKey s) nonce pt [] \<and> get32 (take 4 pt) = ID s \<and>
    k \<in> receive_keys 0 s \<and> (\<exists>m. drop NonceSize (drop sessionTokenSize demo_fin_body) =
      gcm_seal tag_gcm k (take NonceSize (drop sessionTokenSize demo_fin_body)) m [] \<and> unmarshal m = Ok c) \<and>
    fst (AcceptSeqNum (SeqNum c) (recvWindow s))"
proof -
  obtain r p' where h: "handleNewFormatPost tag_gcm zero_pool plain_env 0 True True True demo_fin_body (demo_post []) = (r, p')" by fastforce
  have "p_tunnels p' 7 \<noteq> p_tunnels (demo_post []) 7" using demo_fin_effect h by (simp add: demo_post_def)
  then have "p_tunnels p' \<noteq> p_tunnels (demo_post [])" by auto
  then show ?thesis by (intro post_needs_session_keys [OF gcm_ok_tag_gcm h]) simp
qed

subsection \<open>Block list\<close>

text \<open>
  A pattern of the server's block list covers its domain and the names below it, label by label;
  \<open>*.d\<close> covers only the names below \<open>d\<close>.
\<close>

definition pattern_covers :: "(gostring \<Rightarrow> gostring) \<Rightarrow> gostring \<Rightarrow> gostring \<Rightarrow> bool" where
  "pattern_covers uni pat host =
     (let q = ToLower uni pat; h = labels (ToLower uni host)
      in if take 2 q = [chr_star, chr_dot] then strict_suffix (labels (drop 2 q)) h else suffix (labels q) h)"

lemma matchesBlockList_by_labels:
  "matchesBlockList uni host blockDomains \<longleftrightarrow> (\<exists>pat \<in> set blockDomains. pattern_covers uni pat host)"
proof -
  have "block_match uni (ToLower uni host) pat \<longleftrightarrow> pattern_covers uni pat host" for pat
  proof -
    define q where "q = ToLower uni pat"
    have "drop 1 q = chr_dot # drop 2 q" if "take 2 q = [chr_star, chr_dot]" using that by (cases q; cases "tl q") auto
    then show ?thesis by (auto simp: block_match_def pattern_covers_def q_def [symmetric] label_suffix strict_label_suffix Let_def)
  qed
  then show ?thesis by (auto simp: matchesBlockList_def list_ex_iff)
qed

text \<open>No blocked name is ever dialled or sent a datagram: the request fails before any stream is entered.\<close>

lemma blocked_never_dialled:
  assumes "ParseStreamID payload = (i, target)" "pat \<in> set (v_block E)" "pattern_covers (v_uni E) pat (host_of target)"
  shows "connect_begin E sid payload p = (None, p)"
proof -
  have "isBlockedDomain (v_uni E) (v_reverse E) (host_of target) (v_block E)"
    using assms(2,3) by (auto simp: isBlockedDomain_def matchesBlockList_by_labels)
  moreover have "v_block E \<noteq> []" using assms(2) by auto
  ultimately show ?thesis using assms(1) by (auto simp: connect_begin_def split: option.split)
qed

end
