(* ===== verification/Ws_Attach.thy ===== *)
theory Ws_Attach
  imports Data_Path Stream_Credit
begin

section \<open>Attaching a WebSocket to a session\<close>

text \<open>
  Models \<open>authenticateFirstFrame\<close> and the attach and detach of \<open>handleWebSocket\<close> in
  \<open>src/server/websocket.go\<close>, interleaved with the two phases of the ghost sweep of
  \<open>Session_Manager\<close>.  The atomic actions are those of the code: authentication of the frame,
  the compare-and-swap of the \<open>WSAttached\<close> latch, the locked \<open>ReattachClearDetached\<close> (with the
  undo of the latch when the sweep has won), and at the end the release of the latch and, after
  it, the stamp of the detach time.  The sweep evaluates its gate before it takes the lock under
  which it checks the session again and removes it.  A session and a tunnel are never created a
  second time under the same identifier (\<open>Session_Manager\<close>), so runs only remove them.
\<close>

subsection \<open>First frame\<close>

definition auth_lookup :: "gcm \<Rightarrow> instant \<Rightarrow> bytes \<Rightarrow> postState \<Rightarrow> (u32 \<times> nat \<times> chunk) option \<times> postState" where
  "auth_lookup G now data p =
     (if length data < sessionTokenSize + MinChunk then (None, p)
      else case findSessionByHint G (take sessionTokenSize data) p of
        None \<Rightarrow> (None, p)
      | Some s \<Rightarrow>
          (case DecryptChunkSafe G now (drop sessionTokenSize data) s of
             (Ok c, s', _) \<Rightarrow>
               (case accept_seq now (ID s) (SeqNum c)
                       (p\<lparr>p_sessions := (p_sessions p)\<lparr>sessions := (sessions (p_sessions p))(ID s \<mapsto> s')\<rparr>\<rparr>) of
                  (False, p1) \<Rightarrow> (None, p1)
                | (True, p1) \<Rightarrow>
                    if Flags c \<noteq> FlagKeepalive then (None, p1)
                    else (case GetTunnel (ID s) p1 of None \<Rightarrow> (None, p1) | Some (a, _) \<Rightarrow> (Some (ID s, a, c), p1)))
           | _ \<Rightarrow> (None, p)))"

definition set_latch :: "nat \<Rightarrow> bool \<Rightarrow> postState \<Rightarrow> postState" where
  "set_latch a b = upd_tun a (\<lambda>t. t\<lparr>t_wsAttached := b\<rparr>)"

definition attach_cas :: "nat \<Rightarrow> postState \<Rightarrow> bool \<times> postState" where
  "attach_cas a p =
     (case p_tun p a of
        None \<Rightarrow> (False, p)
      | Some t \<Rightarrow> if t_wsAttached t then (False, p) else (True, set_latch a True p))"

definition attach_clear :: "u32 \<Rightarrow> nat \<Rightarrow> postState \<Rightarrow> bool \<times> postState" where
  "attach_clear sid a p =
     (case ReattachClearDetached sid (p_sessions p) of
        (True, sm) \<Rightarrow> (True, p\<lparr>p_sessions := sm\<rparr>)
      | (False, _) \<Rightarrow> (False, set_latch a False p))"

text \<open>
  The negotiation on the first keepalive: the window, whether streams can migrate, and the state
  after the acknowledgement was encrypted.  If it did not reach the client, both stay off.
\<close>

definition negotiate ::
  "gcm \<Rightarrow> bufpool \<Rightarrow> u32 \<Rightarrow> bool \<Rightarrow> bool \<Rightarrow> u32 \<Rightarrow> bytes \<Rightarrow> postState \<Rightarrow> (u32 \<times> bool) \<times> postState" where
  "negotiate G P flowMaxWindow migrationEnabled ackWritten sid payload p =
     (case ParseFlowCtlMarkerV2 payload of
        None \<Rightarrow> ((0, False), p)
      | Some (cw, advertised) \<Rightarrow>
          (let w = negotiateFlowWindow cw flowMaxWindow; mig = negotiateMigration migrationEnabled advertised
           in if w = 0 then ((0, False), p)
              else (case seal_chunk G P sid FlagAck (BuildFlowCtlMarkerV2 w mig) p of
                      (None, p1) \<Rightarrow> ((0, False), p1)
                    | (Some _, p1) \<Rightarrow> (if ackWritten then (w, mig) else (0, False), p1))))"

definition attach_mark :: "instant \<Rightarrow> u32 \<Rightarrow> postState \<Rightarrow> postState" where
  "attach_mark now sid p =
     p\<lparr>p_sessions := (p_sessions p)\<lparr>sessions :=
         (sessions (p_sessions p))(sid := map_option (\<lambda>s. s\<lparr>AttachedAt := now\<rparr>) (sessions (p_sessions p) sid))\<rparr>\<rparr>"

text \<open>The function with nothing running beside it.\<close>

definition authenticateFirstFrame ::
  "gcm \<Rightarrow> bufpool \<Rightarrow> instant \<Rightarrow> u32 \<Rightarrow> bool \<Rightarrow> bool \<Rightarrow> bytes \<Rightarrow> postState \<Rightarrow> (u32 \<times> u32 \<times> bool) option \<times> postState" where
  "authenticateFirstFrame G P now flowMaxWindow migrationEnabled ackWritten data p =
     (case auth_lookup G now data p of
        (None, p1) \<Rightarrow> (None, p1)
      | (Some (sid, a, c), p1) \<Rightarrow>
          (case attach_cas a p1 of
             (False, p2) \<Rightarrow> (None, p2)
           | (True, p2) \<Rightarrow>
               (case attach_clear sid a p2 of
                  (False, p3) \<Rightarrow> (None, p3)
                | (True, p3) \<Rightarrow>
                    (case negotiate G P flowMaxWindow migrationEnabled ackWritten sid (Payload c) p3 of
                       ((w, mig), p4) \<Rightarrow> (Some (sid, w, mig), attach_mark now sid p4)))))"

text \<open>The deferred function of \<open>handleWebSocket\<close>: the latch of the tunnel the table has now, then the stamp.\<close>

definition detach_latch :: "u32 \<Rightarrow> postState \<Rightarrow> postState" where
  "detach_latch sid p = (case GetTunnel sid p of None \<Rightarrow> p | Some (a, _) \<Rightarrow> set_latch a False p)"

definition detach_stamp :: "instant \<Rightarrow> u32 \<Rightarrow> postState \<Rightarrow> postState" where
  "detach_stamp now sid p =
     p\<lparr>p_sessions := (p_sessions p)\<lparr>sessions :=
         (sessions (p_sessions p))(sid := map_option (\<lambda>s. s\<lparr>DetachedAt := now\<rparr>) (sessions (p_sessions p) sid))\<rparr>\<rparr>"

subsection \<open>Runs\<close>

text \<open>
  A transport: authenticated, holding the latch, attached (the relay loop runs), released (the
  latch is given back, the stamp still to come) or gone.
\<close>

datatype wsPhase = Authed | Latched | WsLive | Released | Gone

record wsRun =
  x_post :: postState
  x_clock :: instant
  x_conns :: "nat \<rightharpoonup> u32 \<times> nat \<times> wsPhase"     \<comment> \<open>session, tunnel and phase of a transport\<close>
  x_gated :: "(instant \<times> u32) list"        \<comment> \<open>sweep candidates whose gate was open, with the time of the sweep\<close>

datatype wsEvent =
    XTime nat
  | XAuth nat gcm bytes
  | XCas nat
  | XClear nat
  | XMark nat
  | XRelease nat
  | XStamp nat
  | XGate instant "gostring \<Rightarrow> u32 \<Rightarrow> bool" u32
  | XEvict nat
  | XReap u32
  | XFin u32

text \<open>The locked part of the ghost sweep.\<close>

definition evict_locked :: "instant \<Rightarrow> u32 \<Rightarrow> postState \<Rightarrow> postState" where
  "evict_locked now sid p = p\<lparr>p_sessions := snd (ghost_evict now detachedGhostGrace None sid (p_sessions p))\<rparr>"

definition put_conn :: "nat \<Rightarrow> u32 \<Rightarrow> nat \<Rightarrow> wsPhase \<Rightarrow> wsRun \<Rightarrow> wsRun" where
  "put_conn k sid a ph x = x\<lparr>x_conns := (x_conns x)(k \<mapsto> (sid, a, ph))\<rparr>"

definition ws_event :: "wsEvent \<Rightarrow> wsRun \<Rightarrow> wsRun" where
  "ws_event e x =
     (case e of
        XTime n \<Rightarrow> x\<lparr>x_clock := x_clock x + int n\<rparr>
      | XAuth k G data \<Rightarrow>
          (case auth_lookup G (x_clock x) data (x_post x) of
             (None, p) \<Rightarrow> x\<lparr>x_post := p\<rparr>
           | (Some (sid, a, c), p) \<Rightarrow>
               (let x1 = x\<lparr>x_post := p\<rparr> in if x_conns x k = None then put_conn k sid a Authed x1 else x1))
      | XCas k \<Rightarrow>
          (case x_conns x k of
             Some (sid, a, Authed) \<Rightarrow>
               (case attach_cas a (x_post x) of
                  (True, p) \<Rightarrow> put_conn k sid a Latched (x\<lparr>x_post := p\<rparr>)
                | (False, p) \<Rightarrow> put_conn k sid a Gone (x\<lparr>x_post := p\<rparr>))
           | _ \<Rightarrow> x)
      | XClear k \<Rightarrow>
          (case x_conns x k of
             Some (sid, a, Latched) \<Rightarrow>
               (case attach_clear sid a (x_post x) of
                  (True, p) \<Rightarrow> put_conn k sid a WsLive (x\<lparr>x_post := p\<rparr>)
                | (False, p) \<Rightarrow> put_conn k sid a Gone (x\<lparr>x_post := p\<rparr>))
           | _ \<Rightarrow> x)
      | XMark k \<Rightarrow>
          (case x_conns x k of
             Some (sid, a, WsLive) \<Rightarrow> x\<lparr>x_post := attach_mark (x_clock x) sid (x_post x)\<rparr> | _ \<Rightarrow> x)
      | XRelease k \<Rightarrow>
          (case x_conns x k of
             Some (sid, a, WsLive) \<Rightarrow> put_conn k sid a Released (x\<lparr>x_post := detach_latch sid (x_post x)\<rparr>) | _ \<Rightarrow> x)
      | XStamp k \<Rightarrow>
          (case x_conns x k of
             Some (sid, a, Released) \<Rightarrow> put_conn k sid a Gone (x\<lparr>x_post := detach_stamp (x_clock x) sid (x_post x)\<rparr>) | _ \<Rightarrow> x)
      | XGate now hb sid \<Rightarrow>
          if now \<le> x_clock x \<and> ghostSweepEligible hb sid (x_post x) then x\<lparr>x_gated := (now, sid) # x_gated x\<rparr> else x
      | XEvict k \<Rightarrow>
          if k < length (x_gated x) then x\<lparr>x_post := evict_locked (fst (x_gated x ! k)) (snd (x_gated x ! k)) (x_post x)\<rparr> else x
      | XReap sid \<Rightarrow>
          if Get sid (p_sessions (x_post x)) = None then x\<lparr>x_post := reap_one sid (x_post x)\<rparr> else x
      | XFin sid \<Rightarrow> x\<lparr>x_post := handleFin sid (x_post x)\<rparr>)"

text \<open>Nobody is attached when the run starts.\<close>

definition ws_run_start :: "instant \<Rightarrow> postState \<Rightarrow> wsRun" where
  "ws_run_start clock p = \<lparr>x_post = p, x_clock = clock, x_conns = Map.empty, x_gated = []\<rparr>"

subsection \<open>Invariant\<close>

definition holds_latch :: "wsPhase \<Rightarrow> bool" where
  "holds_latch ph \<longleftrightarrow> ph = Latched \<or> ph = WsLive"

text \<open>The views of the state the invariant is about: latches and detach stamps (\<open>None\<close>: session gone).\<close>

definition latch :: "postState \<Rightarrow> nat \<Rightarrow> bool" where
  "latch p a = (case p_tun p a of None \<Rightarrow> False | Some t \<Rightarrow> t_wsAttached t)"

definition stamp :: "postState \<Rightarrow> u32 \<Rightarrow> instant option" where
  "stamp p sid = map_option DetachedAt (Get sid (p_sessions p))"

definition ids_ok :: "postState \<Rightarrow> bool" where
  "ids_ok p \<longleftrightarrow> (\<forall>sid s. sessions (p_sessions p) sid = Some s \<longrightarrow> ID s = sid)"

definition views_ok ::
  "(u32 \<rightharpoonup> nat) \<Rightarrow> (nat \<rightharpoonup> u32) \<Rightarrow> (nat \<Rightarrow> bool) \<Rightarrow> (u32 \<Rightarrow> instant option) \<Rightarrow>
   (nat \<rightharpoonup> u32 \<times> nat \<times> wsPhase) \<Rightarrow> (instant \<times> u32) list \<Rightarrow> instant \<Rightarrow> bool" where
  "views_ok T own lat st conns gated clock \<longleftrightarrow>
     (\<forall>sid a. T sid = Some a \<longrightarrow> own a = Some sid) \<and>
     (\<forall>k sid a ph. conns k = Some (sid, a, ph) \<longrightarrow> own a = Some sid \<and> (T sid = None \<or> T sid = Some a) \<and>
        (holds_latch ph \<longrightarrow> lat a) \<and> (st sid \<noteq> None \<longrightarrow> T sid = Some a)) \<and>
     (\<forall>k j sid sid' a ph ph'. conns k = Some (sid, a, ph) \<longrightarrow> conns j = Some (sid', a, ph') \<longrightarrow>
        holds_latch ph \<longrightarrow> holds_latch ph' \<longrightarrow> k = j) \<and>
     (\<forall>now sid. (now, sid) \<in> set gated \<longrightarrow> now \<le> clock) \<and>
     (\<forall>k sid a now d. conns k = Some (sid, a, WsLive) \<longrightarrow> (now, sid) \<in> set gated \<longrightarrow> st sid = Some d \<longrightarrow> d = 0 \<or> now \<le> d)"

definition ws_attach_inv :: "wsRun \<Rightarrow> bool" where
  "ws_attach_inv x \<longleftrightarrow> ids_ok (x_post x) \<and>
     views_ok (p_tunnels (x_post x)) (tun_owner (x_post x)) (latch (x_post x)) (stamp (x_post x)) (x_conns x) (x_gated x) (x_clock x)"

lemma views_okD:
  assumes "views_ok T own lat st conns gated clock"
  shows "T sid = Some a \<Longrightarrow> own a = Some sid"
    and "conns k = Some (sid, a, ph) \<Longrightarrow> own a = Some sid \<and> (T sid = None \<or> T sid = Some a) \<and> (holds_latch ph \<longrightarrow> lat a) \<and> (st sid \<noteq> None \<longrightarrow> T sid = Some a)"
    and "conns k = Some (sid, a, ph) \<Longrightarrow> conns j = Some (sid', a, ph') \<Longrightarrow> holds_latch ph \<Longrightarrow> holds_latch ph' \<Longrightarrow> k = j"
    and "(now, sid) \<in> set gated \<Longrightarrow> now \<le> clock"
    and "conns k = Some (sid, a, WsLive) \<Longrightarrow> (now, sid) \<in> set gated \<Longrightarrow> st sid = Some d \<Longrightarrow> d = 0 \<or> now \<le> d"
  using assms unfolding views_ok_def by blast+

lemma views_okI:
  assumes "\<And>sid a. T sid = Some a \<Longrightarrow> own a = Some sid"
    and "\<And>k sid a ph. conns k = Some (sid, a, ph) \<Longrightarrow> own a = Some sid \<and> (T sid = None \<or> T sid = Some a) \<and> (holds_latch ph \<longrightarrow> lat a)"
    and "\<And>k sid a ph. conns k = Some (sid, a, ph) \<Longrightarrow> st sid \<noteq> None \<Longrightarrow> T sid = Some a"
    and "\<And>k j sid sid' a ph ph'. conns k = Some (sid, a, ph) \<Longrightarrow> conns j = Some (sid', a, ph') \<Longrightarrow> holds_latch ph \<Longrightarrow> holds_latch ph' \<Longrightarrow> k = j"
    and "\<And>now sid. (now, sid) \<in> set gated \<Longrightarrow> now \<le> clock"
    and "\<And>k sid a now d. conns k = Some (sid, a, WsLive) \<Longrightarrow> (now, sid) \<in> set gated \<Longrightarrow> st sid = Some d \<Longrightarrow> d = 0 \<or> now \<le> d"
  shows "views_ok T own lat st conns gated clock"
  unfolding views_ok_def using assms by blast

text \<open>How each action changes the views.\<close>

lemma views_time: "views_ok T own lat st conns gated clock \<Longrightarrow> clock \<le> clock' \<Longrightarrow> views_ok T own lat st conns gated clock'"
  unfolding views_ok_def by (meson order_trans)

lemma views_join:
  assumes "views_ok T own lat st conns gated clock" "conns k = None" "T sid = Some a"
  shows "views_ok T own lat st (conns(k \<mapsto> (sid, a, Authed))) gated clock"
  using assms unfolding views_ok_def by (auto simp: holds_latch_def)

lemma views_drop_conn:
  assumes "views_ok T own lat st conns gated clock" "conns k = Some (sid, a, ph)" "\<not> holds_latch ph'"
  shows "views_ok T own lat st (conns(k \<mapsto> (sid, a, ph'))) gated clock"
  using assms unfolding views_ok_def by (auto simp: holds_latch_def)

lemma views_latch:
  assumes "views_ok T own lat st conns gated clock" "conns k = Some (sid, a, Authed)" "\<not> lat a"
  shows "views_ok T own (lat(a := True)) st (conns(k \<mapsto> (sid, a, Latched))) gated clock"
  using assms unfolding views_ok_def by (auto simp: holds_latch_def)

lemma views_unlatch:
  assumes v: "views_ok T own lat st conns gated clock" and k: "conns k = Some (sid, a, ph)" "holds_latch ph" and ph': "\<not> holds_latch ph'"
  shows "views_ok T own (lat(a := False)) st (conns(k \<mapsto> (sid, a, ph'))) gated clock"
proof -
  have other: "b \<noteq> a" if "conns j = Some (s, b, q)" "holds_latch q" "j \<noteq> k" for j s b q
    using views_okD(3) [OF v k(1) _ k(2)] that by blast
  show ?thesis using v other ph' k unfolding views_ok_def by (auto simp: holds_latch_def)
qed

lemma views_live:
  assumes v: "views_ok T own lat st conns gated clock" and k: "conns k = Some (sid, a, Latched)" and st: "st sid \<noteq> None"
  shows "views_ok T own lat (st(sid := Some 0)) (conns(k \<mapsto> (sid, a, WsLive))) gated clock"
proof -
  have "T sid = Some b" if "conns j = Some (sid, b, ph)" for j b ph using views_okD(2) [OF v that] st by simp
  moreover have "T s = Some b" if "conns j = Some (s, b, ph)" "st s \<noteq> None" for j s b ph using views_okD(2) [OF v that(1)] that(2) by simp
  moreover have "own b = Some s \<and> (T s = None \<or> T s = Some b) \<and> (holds_latch ph \<longrightarrow> lat b)" if "conns j = Some (s, b, ph)" for j s b ph
    using views_okD(2) [OF v that] by simp
  moreover have "lat a" using views_okD(2) [OF v k] by (simp add: holds_latch_def)
  moreover have "j = k" if "conns j = Some (s, a, ph)" "holds_latch ph" for j s ph
    using views_okD(3) [OF v that(1) k that(2)] by (simp add: holds_latch_def)
  ultimately show ?thesis using views_okD(1,3,4,5) [OF v] k
    by (intro views_okI) (auto simp: holds_latch_def split: if_splits)
qed

lemma views_stamp:
  assumes "views_ok T own lat st conns gated clock"
  shows "views_ok T own lat (st(sid := map_option (\<lambda>_. clock) (st sid))) conns gated clock"
  using assms unfolding views_ok_def by auto

lemma views_gate:
  assumes v: "views_ok T own lat st conns gated clock" and "now \<le> clock" and "st sid \<noteq> None" and "\<And>a. T sid = Some a \<Longrightarrow> \<not> lat a"
  shows "views_ok T own lat st conns ((now, sid) # gated) clock"
proof -
  have "conns k \<noteq> Some (sid, a, WsLive)" for k a
    using views_okD(2) [OF v, of k sid a WsLive] assms(3,4) by (auto simp: holds_latch_def)
  then show ?thesis using v assms(2) unfolding views_ok_def by auto
qed

lemma views_remove:
  assumes "views_ok T own lat st conns gated clock"
  shows "views_ok T own lat (st(sid := None)) conns gated clock"
    and "st sid = None \<Longrightarrow> views_ok (T(sid := None)) own lat st conns gated clock"
proof -
  note D = views_okD [OF assms]
  show "views_ok T own lat (st(sid := None)) conns gated clock"
    by (rule views_okI) (use D in \<open>auto split: if_splits\<close>)
  assume n: "st sid = None"
  show "views_ok (T(sid := None)) own lat st conns gated clock"
  proof (rule views_okI)
    fix k s a ph assume c: "conns k = Some (s, a, ph)"
    show "own a = Some s \<and> ((T(sid := None)) s = None \<or> (T(sid := None)) s = Some a) \<and> (holds_latch ph \<longrightarrow> lat a)" using D(2) [OF c] by auto
    assume "st s \<noteq> None" then show "(T(sid := None)) s = Some a" using D(2) [OF c] n by auto
  qed (use D in \<open>auto split: if_splits\<close>)
qed

subsection \<open>Every event keeps the invariant\<close>

lemma set_latch_views [simp]:
  "p_tunnels (set_latch a b p) = p_tunnels p" "tun_owner (set_latch a b p) = tun_owner p" "p_sessions (set_latch a b p) = p_sessions p"
  "stamp (set_latch a b p) = stamp p" "ids_ok (set_latch a b p) = ids_ok p"
  by (auto simp: set_latch_def upd_tun_def tun_owner_def stamp_def ids_ok_def fun_eq_iff option.map_comp comp_def split: option.split)

lemma latch_set_latch: "p_tun p a \<noteq> None \<Longrightarrow> latch (set_latch a b p) = (latch p)(a := b)"
  by (auto simp: set_latch_def upd_tun_def latch_def fun_eq_iff split: option.split)

abbreviation put_session :: "u32 \<Rightarrow> session \<Rightarrow> postState \<Rightarrow> postState" where
  "put_session sid s p \<equiv> p\<lparr>p_sessions := (p_sessions p)\<lparr>sessions := (sessions (p_sessions p))(sid \<mapsto> s)\<rparr>\<rparr>"

lemma put_session_ids: "ids_ok p \<Longrightarrow> ID s = sid \<Longrightarrow> ids_ok (put_session sid s p)"
  by (simp add: ids_ok_def)

lemma put_session_stamp: "stamp (put_session sid s p) = (stamp p)(sid := Some (DetachedAt s))"
  by (rule ext) (simp add: stamp_def Get_def)

lemma stamp_found: "sessions (p_sessions p) sid = Some s \<Longrightarrow> (stamp p)(sid := Some (DetachedAt s)) = stamp p"
  by (rule ext) (simp add: stamp_def Get_def)

lemma auth_lookup_views:
  assumes "ids_ok p" "auth_lookup G now data p = (res, p')"
  shows "ids_ok p' \<and> p_tunnels p' = p_tunnels p \<and> p_tun p' = p_tun p \<and> stamp p' = stamp p \<and>
    (\<forall>sid a c. res = Some (sid, a, c) \<longrightarrow> p_tunnels p sid = Some a)"
proof (cases "findSessionByHint G (take sessionTokenSize data) p")
  case None then show ?thesis using assms by (auto simp: auth_lookup_def split: if_splits)
next
  case (Some s)
  then have s: "sessions (p_sessions p) (ID s) = Some s"
    using assms(1) by (auto simp: findSessionByHint_def Get_def ids_ok_def Let_def split: if_splits option.splits)
  obtain r s' ev where d: "DecryptChunkSafe G now (drop sessionTokenSize data) s = (r, s', ev)" by (cases "DecryptChunkSafe G now (drop sessionTokenSize data) s") auto
  then have s': "DetachedAt s' = DetachedAt s \<and> ID s' = ID s"
    by (auto simp: DecryptChunkSafe_def split: if_splits option.splits outcome.splits)
  define p1 where "p1 = p\<lparr>p_sessions := (p_sessions p)\<lparr>sessions := (sessions (p_sessions p))(ID s \<mapsto> s')\<rparr>\<rparr>"
  have v1: "ids_ok p1" "p_tunnels p1 = p_tunnels p" "p_tun p1 = p_tun p" "stamp p1 = stamp p"
    using put_session_ids [OF assms(1), of s' "ID s"] put_session_stamp [of p "ID s" s'] stamp_found [OF s] s' by (simp_all add: p1_def)
  have v2: "ids_ok q \<and> p_tunnels q = p_tunnels p \<and> p_tun q = p_tun p \<and> stamp q = stamp p" if "accept_seq now (ID s) n p1 = (b, q)" for n b q
  proof -
    obtain b' w where w: "AcceptSeqNum n (recvWindow s') = (b', w)" by fastforce
    let ?s2 = "s'\<lparr>lastActivity := now, recvWindow := w\<rparr>"
    have q: "q = p1\<lparr>p_sessions := (p_sessions p1)\<lparr>sessions := (sessions (p_sessions p1))(ID s \<mapsto> ?s2)\<rparr>\<rparr>"
      using that w by (simp add: accept_seq_def SessionAcceptSeqNum_def p1_def Get_def)
    have "sessions (p_sessions p1) (ID s) = Some s'" by (simp add: p1_def)
    then have "stamp q = stamp p1" using put_session_stamp [of p1 "ID s" ?s2] stamp_found [of p1 "ID s" s'] by (simp add: q)
    then show ?thesis using v1 put_session_ids [OF v1(1), of ?s2 "ID s"] s' by (simp add: q)
  qed
  show ?thesis
  proof (cases r)
    case (Ok c)
    obtain b q where q: "accept_seq now (ID s) (SeqNum c) p1 = (b, q)" by fastforce
    have "auth_lookup G now data p = (if length data < sessionTokenSize + MinChunk then (None, p) else
        if \<not> b \<or> Flags c \<noteq> FlagKeepalive then (None, q)
        else (case GetTunnel (ID s) q of None \<Rightarrow> (None, q) | Some (a, _) \<Rightarrow> (Some (ID s, a, c), q)))"
      using Some d Ok q by (auto simp: auth_lookup_def p1_def split: bool.split)
    then show ?thesis using assms v2 [OF q] by (auto simp: GetTunnel_def split: if_splits option.splits)
  qed (use Some d assms in \<open>auto simp: auth_lookup_def split: if_splits\<close>)
qed

lemma inv_put:
  assumes "ws_attach_inv x" "ids_ok p"
    and "views_ok (p_tunnels p) (tun_owner p) (latch p) (stamp p) ((x_conns x)(k \<mapsto> c)) (x_gated x) (x_clock x)"
  shows "ws_attach_inv (put_conn k (fst c) (fst (snd c)) (snd (snd c)) (x\<lparr>x_post := p\<rparr>))"
  using assms by (simp add: ws_attach_inv_def put_conn_def)

lemma inv_post:
  assumes "ws_attach_inv x" "ids_ok p" "views_ok (p_tunnels p) (tun_owner p) (latch p) (stamp p) (x_conns x) (x_gated x) (x_clock x)"
  shows "ws_attach_inv (x\<lparr>x_post := p\<rparr>)"
  using assms by (simp add: ws_attach_inv_def)

lemma ws_attach_invD:
  assumes "ws_attach_inv x"
  shows "ids_ok (x_post x)"
    and "views_ok (p_tunnels (x_post x)) (tun_owner (x_post x)) (latch (x_post x)) (stamp (x_post x)) (x_conns x) (x_gated x) (x_clock x)"
  using assms by (simp_all add: ws_attach_inv_def)

lemma conn_tunnel: "ws_attach_inv x \<Longrightarrow> x_conns x k = Some (sid, a, ph) \<Longrightarrow> p_tun (x_post x) a \<noteq> None"
  using views_okD(2) [OF ws_attach_invD(2)] by (fastforce simp: tun_owner_def)

lemma tun_views_cong: "p_tun p' = p_tun p \<Longrightarrow> tun_owner p' = tun_owner p \<and> latch p' = latch p"
  by (simp add: fun_eq_iff tun_owner_def latch_def)

lemma inv_auth: assumes i: "ws_attach_inv x" shows "ws_attach_inv (ws_event (XAuth k G data) x)"
proof -
  obtain res p where r: "auth_lookup G (x_clock x) data (x_post x) = (res, p)" by fastforce
  note A = auth_lookup_views [OF ws_attach_invD(1) [OF i] r]
  have v: "views_ok (p_tunnels p) (tun_owner p) (latch p) (stamp p) (x_conns x) (x_gated x) (x_clock x)"
    using ws_attach_invD(2) [OF i] A tun_views_cong [of p "x_post x"] by simp
  then have 1: "ws_attach_inv (x\<lparr>x_post := p\<rparr>)" using i A by (intro inv_post) simp_all
  have "ws_attach_inv (put_conn k sid a Authed (x\<lparr>x_post := p\<rparr>))" if "res = Some (sid, a, c)" "x_conns x k = None" for sid a c
    using views_join [OF v that(2), of sid a] A that inv_put [OF i, of p k "(sid, a, Authed)"] by simp
  then show ?thesis using 1 r by (auto simp: ws_event_def Let_def split: option.split)
qed

lemma inv_cas: assumes i: "ws_attach_inv x" shows "ws_attach_inv (ws_event (XCas k) x)"
proof (cases "\<exists>sid a. x_conns x k = Some (sid, a, Authed)")
  case True
  then obtain sid a where k: "x_conns x k = Some (sid, a, Authed)" by blast
  note v = ws_attach_invD [OF i]
  obtain t where t: "p_tun (x_post x) a = Some t" using conn_tunnel [OF i k] by blast
  show ?thesis
  proof (cases "t_wsAttached t")
    case True
    then show ?thesis using k t views_drop_conn [OF v(2) k, of Gone] v(1) inv_put [OF i, of "x_post x" k "(sid, a, Gone)"]
      by (simp add: ws_event_def attach_cas_def holds_latch_def)
  next
    case False
    then have "\<not> latch (x_post x) a" using t by (simp add: latch_def)
    from views_latch [OF v(2) k this] latch_set_latch [of "x_post x" a True] t v(1) inv_put [OF i, of "set_latch a True (x_post x)" k "(sid, a, Latched)"]
    show ?thesis using k t False by (simp add: ws_event_def attach_cas_def)
  qed
next
  case False then show ?thesis using i by (auto simp: ws_event_def split: option.split prod.split wsPhase.split)
qed

lemma inv_clear: assumes i: "ws_attach_inv x" shows "ws_attach_inv (ws_event (XClear k) x)"
proof (cases "\<exists>sid a. x_conns x k = Some (sid, a, Latched)")
  case True
  then obtain sid a where k: "x_conns x k = Some (sid, a, Latched)" by blast
  note v = ws_attach_invD [OF i]
  have t: "p_tun (x_post x) a \<noteq> None" by (rule conn_tunnel [OF i k])
  show ?thesis
  proof (cases "sessions (p_sessions (x_post x)) sid")
    case None
    have "views_ok (p_tunnels (x_post x)) (tun_owner (x_post x)) ((latch (x_post x))(a := False)) (stamp (x_post x)) ((x_conns x)(k \<mapsto> (sid, a, Gone))) (x_gated x) (x_clock x)"
      by (rule views_unlatch [OF v(2) k]) (simp_all add: holds_latch_def)
    then show ?thesis using k None v(1) latch_set_latch [OF t, of False] inv_put [OF i, of "set_latch a False (x_post x)" k "(sid, a, Gone)"]
      by (simp add: ws_event_def attach_clear_def ReattachClearDetached_def)
  next
    case (Some s)
    let ?p = "put_session sid (s\<lparr>DetachedAt := 0\<rparr>) (x_post x)"
    have "ID s = sid" using v(1) Some by (simp add: ids_ok_def)
    then have 1: "ids_ok ?p" using put_session_ids [OF v(1), of "s\<lparr>DetachedAt := 0\<rparr>" sid] by simp
    have "stamp (x_post x) sid \<noteq> None" using Some by (simp add: stamp_def Get_def)
    from views_live [OF v(2) k this] put_session_stamp [of "x_post x" sid "s\<lparr>DetachedAt := 0\<rparr>"] tun_views_cong [of ?p "x_post x"]
    have "views_ok (p_tunnels ?p) (tun_owner ?p) (latch ?p) (stamp ?p) ((x_conns x)(k \<mapsto> (sid, a, WsLive))) (x_gated x) (x_clock x)" by simp
    then show ?thesis using k Some inv_put [OF i 1, of k "(sid, a, WsLive)"]
      by (simp add: ws_event_def attach_clear_def ReattachClearDetached_def)
  qed
next
  case False then show ?thesis using i by (auto simp: ws_event_def split: option.split prod.split wsPhase.split)
qed

text \<open>Updates of a session found in the table, if there is one.\<close>

lemma map_session_views:
  fixes f :: "session \<Rightarrow> session"
  defines "p' \<equiv> \<lambda>p sid. p\<lparr>p_sessions := (p_sessions p)\<lparr>sessions := (sessions (p_sessions p))(sid := map_option f (sessions (p_sessions p) sid))\<rparr>\<rparr>"
  assumes "\<And>s. ID (f s) = ID s"
  shows "ids_ok p \<Longrightarrow> ids_ok (p' p sid)" "p_tunnels (p' p sid) = p_tunnels p" "tun_owner (p' p sid) = tun_owner p" "latch (p' p sid) = latch p"
    "stamp (p' p sid) = (stamp p)(sid := map_option (DetachedAt \<circ> f) (sessions (p_sessions p) sid))"
  using assms(2) by (auto simp: p'_def ids_ok_def fun_eq_iff tun_owner_def latch_def stamp_def Get_def option.map_comp comp_def)

lemma inv_mark: assumes i: "ws_attach_inv x" shows "ws_attach_inv (ws_event (XMark k) x)"
proof -
  note v = ws_attach_invD [OF i]
  have "(stamp p)(sid := map_option (DetachedAt \<circ> (\<lambda>s. s\<lparr>AttachedAt := n\<rparr>)) (sessions (p_sessions p) sid)) = stamp p" for p sid n
    by (rule ext) (simp add: stamp_def Get_def comp_def)
  then have "ws_attach_inv (x\<lparr>x_post := attach_mark n sid (x_post x)\<rparr>)" for n sid
    using map_session_views [of "\<lambda>s. s\<lparr>AttachedAt := n\<rparr>" "x_post x" sid] v by (intro inv_post [OF i]) (simp_all add: attach_mark_def)
  then show ?thesis using i by (auto simp: ws_event_def split: option.split prod.split wsPhase.split)
qed

lemma inv_stamp: assumes i: "ws_attach_inv x" shows "ws_attach_inv (ws_event (XStamp k) x)"
proof -
  note v = ws_attach_invD [OF i]
  have "ws_attach_inv (put_conn k sid a Gone (x\<lparr>x_post := detach_stamp (x_clock x) sid (x_post x)\<rparr>))" if k: "x_conns x k = Some (sid, a, Released)" for sid a
  proof -
    let ?q = "detach_stamp (x_clock x) sid (x_post x)"
    have "(stamp p)(sid := map_option (DetachedAt \<circ> (\<lambda>s. s\<lparr>DetachedAt := n\<rparr>)) (sessions (p_sessions p) sid)) = (stamp p)(sid := map_option (\<lambda>_. n) (stamp p sid))" for p n
      by (rule ext) (simp add: stamp_def Get_def comp_def option.map_comp)
    note M = map_session_views [of "\<lambda>s. s\<lparr>DetachedAt := x_clock x\<rparr>" "x_post x" sid, folded detach_stamp_def, simplified this]
    have "views_ok (p_tunnels ?q) (tun_owner ?q) (latch ?q) (stamp ?q) ((x_conns x)(k \<mapsto> (sid, a, Gone))) (x_gated x) (x_clock x)"
      using views_drop_conn [OF views_stamp [OF v(2)] k, of Gone sid] M by (simp add: holds_latch_def)
    then show ?thesis using inv_put [OF i, of ?q k "(sid, a, Gone)"] M(1) v(1) by simp
  qed
  then show ?thesis using i by (auto simp: ws_event_def split: option.split prod.split wsPhase.split)
qed

lemma inv_release: assumes i: "ws_attach_inv x" shows "ws_attach_inv (ws_event (XRelease k) x)"
proof -
  note v = ws_attach_invD [OF i]
  have "ws_attach_inv (put_conn k sid a Released (x\<lparr>x_post := detach_latch sid (x_post x)\<rparr>))" if k: "x_conns x k = Some (sid, a, WsLive)" for sid a
  proof (cases "GetTunnel sid (x_post x)")
    case None
    then show ?thesis using views_drop_conn [OF v(2) k, of Released] v(1) inv_put [OF i, of "x_post x" k "(sid, a, Released)"]
      by (simp add: detach_latch_def holds_latch_def)
  next
    case (Some bt)
    obtain b t where t: "GetTunnel sid (x_post x) = Some (b, t)" using Some by (cases bt) auto
    then have "b = a" using views_okD(2) [OF v(2) k] by (auto simp: GetTunnel_def split: option.splits)
    moreover have "views_ok (p_tunnels (x_post x)) (tun_owner (x_post x)) ((latch (x_post x))(a := False)) (stamp (x_post x)) ((x_conns x)(k \<mapsto> (sid, a, Released))) (x_gated x) (x_clock x)"
      by (rule views_unlatch [OF v(2) k]) (simp_all add: holds_latch_def)
    ultimately show ?thesis using t v(1) latch_set_latch [OF conn_tunnel [OF i k], of False] inv_put [OF i, of "set_latch a False (x_post x)" k "(sid, a, Released)"]
      by (simp add: detach_latch_def)
  qed
  then show ?thesis using i by (auto simp: ws_event_def split: option.split prod.split wsPhase.split)
qed

lemma GetTunnel_None: "ws_attach_inv x \<Longrightarrow> GetTunnel sid (x_post x) = None \<longleftrightarrow> p_tunnels (x_post x) sid = None"
  using views_okD(1) [OF ws_attach_invD(2), of x sid] by (fastforce simp: GetTunnel_def tun_owner_def split: option.splits)

lemma inv_gate: assumes i: "ws_attach_inv x" shows "ws_attach_inv (ws_event (XGate now hb sid) x)"
proof -
  note v = ws_attach_invD [OF i]
  have "ws_attach_inv (x\<lparr>x_gated := (now, sid) # x_gated x\<rparr>)" if "now \<le> x_clock x" "ghostSweepEligible hb sid (x_post x)"
  proof -
    have "stamp (x_post x) sid \<noteq> None" using that(2) by (auto simp: ghostSweepEligible_def stamp_def split: option.splits)
    moreover have "\<not> latch (x_post x) a" if "p_tunnels (x_post x) sid = Some a" for a
      using \<open>ghostSweepEligible hb sid (x_post x)\<close> that by (auto simp: ghostSweepEligible_def GetTunnel_def latch_def split: option.splits)
    ultimately show ?thesis using views_gate [OF v(2) that(1)] v(1) by (simp add: ws_attach_inv_def)
  qed
  then show ?thesis using i by (simp add: ws_event_def)
qed

lemma removal_views:
  assumes "sessions sm = (sessions (p_sessions p))(sid := None)"
  shows "ids_ok p \<Longrightarrow> ids_ok (p\<lparr>p_sessions := sm\<rparr>)" "stamp (p\<lparr>p_sessions := sm\<rparr>) = (stamp p)(sid := None)"
  using assms by (auto simp: ids_ok_def stamp_def Get_def fun_eq_iff)

lemma inv_evict: assumes i: "ws_attach_inv x" shows "ws_attach_inv (ws_event (XEvict k) x)"
proof -
  note v = ws_attach_invD [OF i]
  have "ws_attach_inv (x\<lparr>x_post := evict_locked now sid (x_post x)\<rparr>)" for now sid
  proof -
    let ?sm = "p_sessions (x_post x)"
    have "snd (ghost_evict now detachedGhostGrace None sid ?sm) = ?sm \<or>
      sessions (snd (ghost_evict now detachedGhostGrace None sid ?sm)) = (sessions ?sm)(sid := None)"
      by (cases "sessions ?sm sid") (simp_all add: ghost_evict_def gate_open_def)
    then consider "snd (ghost_evict now detachedGhostGrace None sid ?sm) = ?sm"
      | "sessions (snd (ghost_evict now detachedGhostGrace None sid ?sm)) = (sessions ?sm)(sid := None)"
      by blast
    then show ?thesis
    proof cases
      case 1 then show ?thesis using i by (simp add: evict_locked_def)
    next
      case 2
      let ?q = "evict_locked now sid (x_post x)"
      note R = removal_views [OF 2, folded evict_locked_def]
      have "views_ok (p_tunnels ?q) (tun_owner ?q) (latch ?q) (stamp ?q) (x_conns x) (x_gated x) (x_clock x)"
        using views_remove(1) [OF v(2), of sid] R(2) tun_views_cong [of ?q "x_post x"] by (simp add: evict_locked_def)
      then show ?thesis using R(1) [OF v(1)] by (intro inv_post [OF i])
    qed
  qed
  then show ?thesis using i by (simp add: ws_event_def)
qed

lemma drop_tunnel_views:
  shows "ids_ok (drop_tunnel sid p) = ids_ok p" "stamp (drop_tunnel sid p) = stamp p" "latch (drop_tunnel sid p) = latch p"
    "tun_owner (drop_tunnel sid p) = tun_owner p"
proof -
  show "ids_ok (drop_tunnel sid p) = ids_ok p" "stamp (drop_tunnel sid p) = stamp p" by (simp_all add: ids_ok_def stamp_def fun_eq_iff)
  have D: "p_tun (drop_tunnel sid p) b = p_tun p b \<or> p_tun (drop_tunnel sid p) b = map_option (\<lambda>t. t\<lparr>t_done := True\<rparr>) (p_tun p b)" for b
    by (auto simp: drop_tunnel_def Let_def upd_tun_def split: option.split)
  have "latch (drop_tunnel sid p) b = latch p b \<and> tun_owner (drop_tunnel sid p) b = tun_owner p b" for b
    using D [of b] by (cases "p_tun p b") (auto simp: latch_def tun_owner_def)
  then show "latch (drop_tunnel sid p) = latch p" "tun_owner (drop_tunnel sid p) = tun_owner p" by (simp_all add: fun_eq_iff)
qed

lemma tunnels_after_drop:
  assumes "ws_attach_inv x"
  shows "p_tunnels (drop_tunnel sid (x_post x)) = (p_tunnels (x_post x))(sid := None)"
  using GetTunnel_None [OF assms, of sid] by (auto simp: drop_tunnel_tunnels fun_eq_iff)

lemma inv_reap: assumes i: "ws_attach_inv x" shows "ws_attach_inv (ws_event (XReap sid) x)"
proof -
  note v = ws_attach_invD [OF i]
  have "ws_attach_inv (x\<lparr>x_post := reap_one sid (x_post x)\<rparr>)" if "Get sid (p_sessions (x_post x)) = None"
  proof -
    have "stamp (x_post x) sid = None" using that by (simp add: stamp_def)
    from views_remove(2) [OF v(2) this] drop_tunnel_views [of sid "x_post x"] tunnels_after_drop [OF i, of sid]
    have "ws_attach_inv (x\<lparr>x_post := drop_tunnel sid (x_post x)\<rparr>)" using v(1) by (intro inv_post [OF i]) simp_all
    then show ?thesis using i by (auto simp: reap_one_def ws_attach_inv_def ids_ok_def tun_owner_def [abs_def] latch_def [abs_def] stamp_def [abs_def])
  qed
  then show ?thesis using i by (simp add: ws_event_def)
qed

lemma inv_fin: assumes i: "ws_attach_inv x" shows "ws_attach_inv (ws_event (XFin sid) x)"
proof -
  note v = ws_attach_invD [OF i]
  let ?q = "handleFin sid (x_post x)"
  have sess: "sessions (p_sessions ?q) = (sessions (p_sessions (x_post x)))(sid := None)"
    by (auto simp: handleFin_def udp_remove_def Let_def Remove_def fun_eq_iff split: option.split)
  have "stamp ?q = (stamp (x_post x))(sid := None)" "ids_ok ?q" using sess v(1) by (auto simp: stamp_def Get_def fun_eq_iff ids_ok_def)
  moreover have "p_tun ?q = p_tun (drop_tunnel sid (x_post x))" "p_tunnels ?q = (p_tunnels (x_post x))(sid := None)"
    using tunnels_after_drop [OF i, of sid] by (simp_all add: handleFin_def udp_remove_def Let_def)
  moreover have "views_ok ((p_tunnels (x_post x))(sid := None)) (tun_owner (x_post x)) (latch (x_post x)) ((stamp (x_post x))(sid := None)) (x_conns x) (x_gated x) (x_clock x)"
    by (rule views_remove(2) [OF views_remove(1) [OF v(2)]]) simp
  ultimately have "ws_attach_inv (x\<lparr>x_post := ?q\<rparr>)"
    using tun_views_cong [of ?q "drop_tunnel sid (x_post x)"] drop_tunnel_views(3,4) [of sid "x_post x"] by (intro inv_post [OF i]) simp_all
  then show ?thesis by (simp add: ws_event_def)
qed

interpretation wa: step_invariant ws_event ws_attach_inv
proof
  fix x e assume i: "ws_attach_inv x"
  show "ws_attach_inv (ws_event e x)"
  proof (cases e)
    case (XTime n)
    have "ws_attach_inv (x\<lparr>x_clock := x_clock x + int n\<rparr>)"
      using ws_attach_invD(1) [OF i] views_time [OF ws_attach_invD(2) [OF i], of "x_clock x + int n"] by (simp add: ws_attach_inv_def)
    then show ?thesis using XTime by (simp add: ws_event_def)
  qed (simp_all add: i inv_auth inv_cas inv_clear inv_mark inv_release inv_stamp inv_gate inv_evict inv_reap inv_fin)
qed

lemma ws_attach_inv_start: "post_ok L p \<Longrightarrow> ids_ok p \<Longrightarrow> ws_attach_inv (ws_run_start clock p)"
proof -
  assume p: "post_ok L p" "ids_ok p"
  have "views_ok (p_tunnels p) (tun_owner p) (latch p) (stamp p) Map.empty [] clock"
    by (rule views_okI) (use post_okD(1) [OF p(1)] in \<open>fastforce simp: tun_owner_def\<close>)+
  then show ?thesis using p(2) by (simp add: ws_attach_inv_def ws_run_start_def)
qed

subsection \<open>Exclusive attachment, and no sweep under a live transport\<close>

text \<open>C20. A session has at most one live WebSocket, and the ghost sweep never takes it away.  However
  authentications, attaches, detaches, FINs and the two phases of sweeps interleave: two
  transports that are attached at the same time have different tunnels and different
  sessions; and when the sweep removes a session, no transport is attached to it.\<close>
theorem attach_exclusive_and_unswept:
  assumes "post_ok L p" "ids_ok p" and x: "x = fold ws_event es (ws_run_start clock p)"
    and k: "x_conns x k = Some (sid, a, WsLive)"
  shows "(\<forall>j sid' a'. x_conns x j = Some (sid', a', WsLive) \<longrightarrow> Get sid' (p_sessions (x_post x)) \<noteq> None \<longrightarrow> j \<noteq> k \<longrightarrow> sid' \<noteq> sid \<and> a' \<noteq> a) \<and>
    (\<forall>i. Get sid (p_sessions (x_post (ws_event (XEvict i) x))) = Get sid (p_sessions (x_post x)))"
proof -
  have inv: "ws_attach_inv x" unfolding x by (rule wa.inv_run [OF ws_attach_inv_start [OF assms(1,2)]])
  note v = ws_attach_invD(2) [OF inv]
  have "sid' \<noteq> sid \<and> a' \<noteq> a" if "x_conns x j = Some (sid', a', WsLive)" "Get sid' (p_sessions (x_post x)) \<noteq> None" "j \<noteq> k" for j sid' a'
  proof -
    have a: "a' \<noteq> a" using views_okD(3) [OF v that(1), of k sid WsLive] k that(3) by (auto simp: holds_latch_def)
    have "p_tunnels (x_post x) sid' = Some a'" using views_okD(2) [OF v that(1)] that(2) by (simp add: stamp_def)
    moreover have "p_tunnels (x_post x) sid = None \<or> p_tunnels (x_post x) sid = Some a" using views_okD(2) [OF v k] by blast
    ultimately show ?thesis using a by auto
  qed
  moreover have "Get sid (p_sessions (x_post (ws_event (XEvict i) x))) = Get sid (p_sessions (x_post x))" for i
  proof (cases "i < length (x_gated x)")
    case True
    obtain now s where g: "x_gated x ! i = (now, s)" by fastforce
    then have m: "(now, s) \<in> set (x_gated x)" using True nth_mem by metis
    have "sessions (snd (ghost_evict now detachedGhostGrace None sid (p_sessions (x_post x)))) sid = sessions (p_sessions (x_post x)) sid" if "s = sid"
    proof (cases "sessions (p_sessions (x_post x)) sid")
      case (Some se)
      have "DetachedAt se = 0 \<or> now \<le> DetachedAt se" using views_okD(5) [OF v k, of now "DetachedAt se"] m that Some by (simp add: stamp_def Get_def)
      then show ?thesis using Some by (auto simp: ghost_evict_def detachedGhostGrace_def gate_open_def)
    qed (simp add: ghost_evict_def gate_open_def)
    moreover have "sessions (snd (ghost_evict now detachedGhostGrace None s (p_sessions (x_post x)))) sid = sessions (p_sessions (x_post x)) sid" if "s \<noteq> sid"
      using that by (auto simp: ghost_evict_def gate_open_def split: option.split)
    ultimately show ?thesis using True g by (cases "s = sid") (simp_all add: ws_event_def evict_locked_def Get_def)
  qed (simp add: ws_event_def)
  ultimately show ?thesis by blast
qed

text \<open>A transport attaches to the session of \<open>demo_post\<close> while the sweep has the session on its list.\<close>

abbreviation demo_attach :: wsRun where
  "demo_attach \<equiv> fold ws_event [XGate 0 (\<lambda>_ _. False) 7, XAuth 0 tag_gcm (demo_body (NewKeepaliveChunk 7 1)), XCas 0, XClear 0]
     (ws_run_start 0 (demo_post []))"

lemma demo_auth:
  obtains p s where "auth_lookup tag_gcm 0 (demo_body (NewKeepaliveChunk 7 1)) (demo_post []) = (Some (7, 0, NewKeepaliveChunk 7 1), p)"
    "p_tun p = p_tun (demo_post [])" "sessions (p_sessions p) 7 = Some s"
proof -
  let ?c = "NewKeepaliveChunk 7 1"
  note D = demo_body_opens(1-3) [of ?c] demo_body_opens(4,5)
  have a: "fst (AcceptSeqNum 1 new_window)" by (simp add: AcceptSeqNum_def new_window_def Let_def)
  define p1 where "p1 = put_session 7 (demo_sender\<lparr>lastActivity := 0\<rparr>) (demo_post [])"
  obtain p2 s where p2: "accept_seq 0 7 1 p1 = (True, p2)" "p_tunnels p2 = [7 \<mapsto> 0]" "p_tun p2 = p_tun p1" "sessions (p_sessions p2) 7 = Some s"
    using a D(5) by (cases "AcceptSeqNum 1 new_window") (simp add: accept_seq_def p1_def Get_def SessionAcceptSeqNum_def demo_post_def)
  obtain t where "GetTunnel 7 p2 = Some (0, t)" using p2 by (simp add: GetTunnel_def p1_def demo_post_def)
  then have "auth_lookup tag_gcm 0 (demo_body ?c) (demo_post []) = (Some (7, 0, ?c), p2)"
    using D p2(1) by (simp add: auth_lookup_def NewKeepaliveChunk_def p1_def)
  then show thesis using that p2 by (simp add: p1_def)
qed

lemma demo_attach_live: "x_conns demo_attach 0 = Some (7, 0, WsLive)"
proof -
  obtain p s where p: "auth_lookup tag_gcm 0 (demo_body (NewKeepaliveChunk 7 1)) (demo_post []) = (Some (7, 0, NewKeepaliveChunk 7 1), p)"
    "p_tun p = p_tun (demo_post [])" "sessions (p_sessions p) 7 = Some s" by (rule demo_auth)
  have 1: "attach_cas 0 p = (True, set_latch 0 True p)" using p(2) by (simp add: attach_cas_def demo_post_def new_tunnel_def)
  have 2: "attach_clear 7 0 (set_latch 0 True p) = (True, put_session 7 (s\<lparr>DetachedAt := 0\<rparr>) (set_latch 0 True p))"
    using p(3) by (simp add: attach_clear_def ReattachClearDetached_def)
  show ?thesis using p(1) 1 2 by (simp add: ws_event_def ws_run_start_def put_conn_def Let_def)
qed

theorem attach_exclusive_and_unswept_witness:
  "x_conns demo_attach 0 = Some (7, 0, WsLive) \<and>
   (\<forall>i. Get 7 (p_sessions (x_post (ws_event (XEvict i) demo_attach))) = Get 7 (p_sessions (x_post demo_attach)))"
proof -
  have "post_ok [] (demo_post [])" "ids_ok (demo_post [])"
    by (simp_all add: post_ok_def ids_ok_def demo_post_def tunnel_ok_def new_tunnel_def demo_sender_def NewSession_def)
  from attach_exclusive_and_unswept [OF this refl demo_attach_live] demo_attach_live show ?thesis by blast
qed

end
