(* ===== verification/Ws_Stream.thy ===== *)
theory Ws_Stream
  imports Prelude "HOL-Library.Sublist"
begin

section \<open>Uplink of a server stream: optimistic CONNECT\<close>

text \<open>
  Models \<open>wsStream\<close> of \<open>src/server/websocket.go\<close>: the bytes a client sends on a stream while the
  target is still being dialled are kept in \<open>pendingBuf\<close>; \<open>Activate\<close> hands them to the target and
  starts the writer goroutine, which drains \<open>writeCh\<close>.  Steps of the session's reader (the only
  caller of \<open>Write\<close>), of the dial goroutine and of the writer interleave: a \<open>Write\<close> that finds
  the stream connected has passed its lock when it sends on \<open>writeCh\<close> (\<open>ws_sending\<close>), and
  \<open>Activate\<close> flushes after it released the lock (\<open>ws_flush\<close>).  The target is the list of chunks
  it was given; whether a write on it succeeds is an argument.
\<close>

subsection \<open>State and operations\<close>

datatype wsWriter = NotStarted | WRunning | WDraining | WStopped

record wsStream =
  ws_target :: bool                \<comment> \<open>\<open>targetConn\<close> is set\<close>
  ws_closed :: bool                \<comment> \<open>\<open>targetConn\<close> has been closed by the stream\<close>
  ws_writeCh :: "bytes list"
  ws_done :: bool
  ws_connected :: bool
  ws_pending :: "bytes list"
  ws_onWriteErr :: bool            \<comment> \<open>the callback of a migration relay is set\<close>
  ws_flush :: "bytes list option"  \<comment> \<open>what \<open>Activate\<close> took and still has to write\<close>
  ws_sending :: "bytes option"     \<comment> \<open>the chunk of a \<open>Write\<close> in its select\<close>
  ws_writer :: wsWriter
  ws_written :: "bytes list"       \<comment> \<open>what the target accepted\<close>
  ws_submitted :: "bytes list"     \<comment> \<open>arguments of \<open>Write\<close>\<close>
  ws_dropped :: nat                \<comment> \<open>chunks dropped by a full \<open>pendingBuf\<close>\<close>
  ws_failed :: bool                \<comment> \<open>a write on the target failed\<close>

definition pendingBufMax :: nat where "pendingBufMax = 64"
definition writeChCap :: nat where "writeChCap = 256"

definition newPendingWSStream :: wsStream where
  "newPendingWSStream =
     \<lparr>ws_target = False, ws_closed = False, ws_writeCh = [], ws_done = False, ws_connected = False, ws_pending = [],
      ws_onWriteErr = False, ws_flush = None, ws_sending = None, ws_writer = NotStarted, ws_written = [],
      ws_submitted = [], ws_dropped = 0, ws_failed = False\<rparr>"

text \<open>\<open>Write\<close> up to its unlock; the reader makes one call at a time.\<close>

definition ws_write :: "bytes \<Rightarrow> wsStream \<Rightarrow> wsStream option" where
  "ws_write d s =
     (if ws_sending s \<noteq> None then None
      else let s1 = s\<lparr>ws_submitted := ws_submitted s @ [d]\<rparr>
           in Some (if \<not> ws_connected s
                    then if length (ws_pending s) < pendingBufMax then s1\<lparr>ws_pending := ws_pending s @ [d]\<rparr>
                         else s1\<lparr>ws_dropped := Suc (ws_dropped s)\<rparr>
                    else s1\<lparr>ws_sending := Some d\<rparr>))"

text \<open>The select of \<open>Write\<close>; with room and a closed stream both cases are ready.\<close>

definition ws_send :: "bool \<Rightarrow> wsStream \<Rightarrow> wsStream option" where
  "ws_send discard s =
     (case ws_sending s of
        None \<Rightarrow> None
      | Some d \<Rightarrow>
          if discard then (if ws_done s then Some (s\<lparr>ws_sending := None\<rparr>) else None)
          else if length (ws_writeCh s) < writeChCap
          then Some (s\<lparr>ws_writeCh := ws_writeCh s @ [d], ws_sending := None\<rparr>) else None)"

text \<open>\<open>Activate\<close>: the locked part, the flush one chunk at a time (its errors are ignored), and \<open>startWriter\<close>.\<close>

definition Activate_begin :: "wsStream \<Rightarrow> wsStream option" where
  "Activate_begin s =
     (if ws_target s then None
      else Some (s\<lparr>ws_target := True, ws_connected := True, ws_flush := Some (ws_pending s), ws_pending := []\<rparr>))"

definition Activate_flush :: "bool \<Rightarrow> wsStream \<Rightarrow> wsStream option" where
  "Activate_flush ok s =
     (case ws_flush s of
        None \<Rightarrow> None
      | Some [] \<Rightarrow> Some (s\<lparr>ws_flush := None, ws_writer := WRunning\<rparr>)
      | Some (d # ds) \<Rightarrow>
          Some (if ok \<and> \<not> ws_closed s then s\<lparr>ws_flush := Some ds, ws_written := ws_written s @ [d]\<rparr>
                else s\<lparr>ws_flush := Some ds, ws_failed := True\<rparr>))"

definition wsClose :: "wsStream \<Rightarrow> wsStream" where
  "wsClose s =
     (if ws_done s then s
      else s\<lparr>ws_done := True, ws_pending := [], ws_closed := ws_closed s \<or> ws_target s\<rparr>)"

definition CloseKeepTarget :: "wsStream \<Rightarrow> wsStream" where
  "CloseKeepTarget s = (if ws_done s then s else s\<lparr>ws_done := True, ws_pending := []\<rparr>)"

text \<open>
  The writer goroutine: a chunk from \<open>writeCh\<close> is written to the target; an error ends the
  goroutine, through \<open>Close\<close> unless the callback of a migration relay is set (the registry then
  tears the relay down).  When \<open>done\<close> is closed the select may pick it, and the goroutine
  discards what is left.
\<close>

definition writer_step :: "bool \<Rightarrow> bool \<Rightarrow> wsStream \<Rightarrow> wsStream option" where
  "writer_step pick_done ok s =
     (case ws_writer s of
        WRunning \<Rightarrow>
          if pick_done then (if ws_done s then Some (s\<lparr>ws_writer := WDraining\<rparr>) else None)
          else (case ws_writeCh s of
                  [] \<Rightarrow> None
                | d # ds \<Rightarrow>
                    Some (if ok \<and> \<not> ws_closed s then s\<lparr>ws_writeCh := ds, ws_written := ws_written s @ [d]\<rparr>
                          else let s1 = s\<lparr>ws_writeCh := ds, ws_failed := True, ws_writer := WStopped\<rparr>
                               in if ws_onWriteErr s then s1 else wsClose s1))
      | WDraining \<Rightarrow>
          Some (case ws_writeCh s of [] \<Rightarrow> s\<lparr>ws_writer := WStopped\<rparr> | d # ds \<Rightarrow> s\<lparr>ws_writeCh := ds\<rparr>)
      | _ \<Rightarrow> None)"

definition set_onWriteErr :: "wsStream \<Rightarrow> wsStream" where
  "set_onWriteErr s = s\<lparr>ws_onWriteErr := True\<rparr>"

subsection \<open>Runs\<close>

datatype wsAct =
    WWrite bytes | WSend bool | WActivate | WFlush bool | WClose | WCloseKeep | WWriter bool bool | WSetErr

fun ws_step :: "wsAct \<Rightarrow> wsStream \<Rightarrow> wsStream option" where
  "ws_step (WWrite d) s = ws_write d s"
| "ws_step (WSend b) s = ws_send b s"
| "ws_step WActivate s = Activate_begin s"
| "ws_step (WFlush ok) s = Activate_flush ok s"
| "ws_step WClose s = Some (wsClose s)"
| "ws_step WCloseKeep s = Some (CloseKeepTarget s)"
| "ws_step (WWriter p ok) s = writer_step p ok s"
| "ws_step WSetErr s = Some (set_onWriteErr s)"

text \<open>An action that is not enabled (a blocked goroutine) leaves the state alone.\<close>

definition ws_act :: "wsAct \<Rightarrow> wsStream \<Rightarrow> wsStream" where
  "ws_act a s = (case ws_step a s of None \<Rightarrow> s | Some s' \<Rightarrow> s')"

definition ws_run :: "wsAct list \<Rightarrow> wsStream \<Rightarrow> wsStream" where
  "ws_run = fold ws_act"

subsection \<open>Order\<close>

text \<open>What is on its way to the target, in the order it will be written.\<close>

definition in_transit :: "wsStream \<Rightarrow> bytes list" where
  "in_transit s = (case ws_flush s of None \<Rightarrow> [] | Some ds \<Rightarrow> ds) @ ws_pending s @ ws_writeCh s @ (case ws_sending s of None \<Rightarrow> [] | Some d \<Rightarrow> [d])"

definition ws_path :: "wsStream \<Rightarrow> bytes list" where
  "ws_path s = ws_written s @ in_transit s"

text \<open>Where chunks can be in each phase of the stream.\<close>

definition ws_shape :: "wsStream \<Rightarrow> bool" where
  "ws_shape s \<longleftrightarrow>
     (ws_connected s \<longleftrightarrow> ws_target s) \<and>
     (if ws_connected s
      then ws_pending s = [] \<and> (ws_flush s = None \<longleftrightarrow> ws_writer s \<noteq> NotStarted)
      else ws_flush s = None \<and> ws_writer s = NotStarted \<and> ws_writeCh s = [] \<and> ws_sending s = None) \<and>
     (ws_writer s = WDraining \<or> ws_closed s \<longrightarrow> ws_done s) \<and>
     (ws_writer s = WStopped \<longrightarrow> ws_done s \<or> ws_failed s) \<and>
     length (ws_pending s) \<le> pendingBufMax \<and> length (ws_writeCh s) \<le> writeChCap"

named_theorems wss_defs

lemmas [wss_defs] = ws_write_def ws_send_def Activate_begin_def Activate_flush_def wsClose_def CloseKeepTarget_def
  writer_step_def set_onWriteErr_def

lemma ws_shape_init: "ws_shape newPendingWSStream"
  by (simp add: ws_shape_def newPendingWSStream_def)

lemma subseq_gap: "subseq (xs @ zs) (xs @ ys @ zs)"
  by (intro list_emb_append_mono subseq_drop_many subseq_order.order_refl)

lemma subseq_gap1: "subseq (xs @ zs) (xs @ y # zs)"
  using subseq_gap [of xs zs "[y]"] by simp

lemma subseq_tail: "subseq xs (xs @ ys)"
  using subseq_gap [of xs "[]" ys] by simp

text \<open>The effect of each operation on shape and path, by the phase of the stream.\<close>

definition ws_effect :: "wsStream \<Rightarrow> wsStream \<Rightarrow> bool" where
  "ws_effect s s' \<longleftrightarrow> ws_shape s' \<and>
     (ws_submitted s' = ws_submitted s \<and> subseq (ws_path s') (ws_path s) \<and> (ws_path s' = ws_path s \<or> ws_done s' \<or> ws_failed s') \<or>
      (\<exists>d. ws_submitted s' = ws_submitted s @ [d] \<and> (ws_path s' = ws_path s @ [d] \<or> ws_path s' = ws_path s \<and> ws_dropped s' \<noteq> 0)))"

lemmas ws_view = ws_effect_def ws_shape_def ws_path_def in_transit_def

lemma ws_effect_write:
  assumes "ws_shape s" "ws_write d s = Some s'" shows "ws_effect s s'"
proof (cases "ws_connected s")
  case True
  then have "ws_sending s = None" "s' = s\<lparr>ws_submitted := ws_submitted s @ [d], ws_sending := Some d\<rparr>"
    using assms(2) by (auto simp: ws_write_def split: if_split_asm)
  then show ?thesis using assms(1) True by (simp add: ws_view)
next
  case False
  show ?thesis
  proof (cases "length (ws_pending s) < pendingBufMax")
    case l: True
    then have "s' = s\<lparr>ws_submitted := ws_submitted s @ [d], ws_pending := ws_pending s @ [d]\<rparr>"
      using assms(2) False by (auto simp: ws_write_def split: if_split_asm)
    then show ?thesis using assms(1) False l by (simp add: ws_view)
  next
    case l: False
    then have "s' = s\<lparr>ws_submitted := ws_submitted s @ [d], ws_dropped := Suc (ws_dropped s)\<rparr>"
      using assms(2) False by (auto simp: ws_write_def split: if_split_asm)
    then show ?thesis using assms(1) False by (simp add: ws_view)
  qed
qed

lemma ws_effect_send:
  assumes "ws_shape s" "ws_send b s = Some s'" shows "ws_effect s s'"
proof -
  obtain d where d: "ws_sending s = Some d" using assms(2) by (auto simp: ws_send_def split: option.splits)
  then have c: "ws_connected s" using assms(1) by (auto simp: ws_shape_def split: if_split_asm)
  show ?thesis
  proof (cases b)
    case True
    then have "ws_done s" "s' = s\<lparr>ws_sending := None\<rparr>" using assms(2) d by (auto simp: ws_send_def split: if_split_asm)
    then show ?thesis using assms(1) c d subseq_tail [of "ws_written s @ (case ws_flush s of None \<Rightarrow> [] | Some ds \<Rightarrow> ds) @ ws_writeCh s" "[d]"]
      by (simp add: ws_view)
  next
    case False
    then have "length (ws_writeCh s) < writeChCap" "s' = s\<lparr>ws_writeCh := ws_writeCh s @ [d], ws_sending := None\<rparr>"
      using assms(2) d by (auto simp: ws_send_def split: if_split_asm)
    then show ?thesis using assms(1) c d by (simp add: ws_view)
  qed
qed

lemma ws_effect_activate:
  assumes "ws_shape s" "Activate_begin s = Some s'" shows "ws_effect s s'"
proof -
  have "\<not> ws_connected s" "s' = s\<lparr>ws_target := True, ws_connected := True, ws_flush := Some (ws_pending s), ws_pending := []\<rparr>"
    using assms by (auto simp: Activate_begin_def ws_shape_def split: if_split_asm)
  then show ?thesis using assms(1) by (simp add: ws_view)
qed

lemma ws_effect_flush:
  assumes "ws_shape s" "Activate_flush ok s = Some s'" shows "ws_effect s s'"
proof -
  obtain ds where f: "ws_flush s = Some ds" using assms(2) by (auto simp: Activate_flush_def split: option.splits)
  then have c: "ws_connected s" "ws_writer s = NotStarted" using assms(1) by (auto simp: ws_shape_def split: if_split_asm)
  show ?thesis
  proof (cases ds)
    case Nil
    then have "s' = s\<lparr>ws_flush := None, ws_writer := WRunning\<rparr>" using assms(2) f by (simp add: Activate_flush_def)
    then show ?thesis using assms(1) c f Nil by (simp add: ws_view)
  next
    case (Cons d es)
    then consider "s' = s\<lparr>ws_flush := Some es, ws_written := ws_written s @ [d]\<rparr>" | "s' = s\<lparr>ws_flush := Some es, ws_failed := True\<rparr>"
      using assms(2) f by (cases "ok \<and> \<not> ws_closed s") (auto simp: Activate_flush_def)
    then show ?thesis using assms(1) c f Cons by cases (simp_all add: ws_view subseq_gap1)
  qed
qed

lemma ws_effect_close:
  assumes "ws_shape s"
  shows "ws_effect s (wsClose s)" "ws_effect s (CloseKeepTarget s)" "ws_effect s (set_onWriteErr s)"
proof -
  show "ws_effect s (wsClose s)" using assms by (cases "ws_connected s") (simp_all add: ws_view wsClose_def subseq_gap subseq_tail)
  show "ws_effect s (CloseKeepTarget s)" using assms by (cases "ws_connected s") (simp_all add: ws_view CloseKeepTarget_def subseq_gap subseq_tail)
  show "ws_effect s (set_onWriteErr s)" using assms by (cases "ws_connected s") (simp_all add: ws_view set_onWriteErr_def)
qed

lemma ws_effect_trans_close:
  assumes "ws_effect s s1" "ws_submitted s1 = ws_submitted s" shows "ws_effect s (wsClose s1)"
proof -
  have a: "ws_shape s1" "subseq (ws_path s1) (ws_path s)" using assms by (auto simp: ws_effect_def)
  then have "ws_effect s1 (wsClose s1)" by (rule_tac ws_effect_close(1))
  moreover have "ws_submitted (wsClose s1) = ws_submitted s1" "ws_done (wsClose s1)" by (auto simp: wsClose_def)
  ultimately show ?thesis using a assms(2) unfolding ws_effect_def by (metis append_self_conv not_Cons_self2 subseq_order.order_trans)
qed

lemma ws_effect_writer:
  assumes "ws_shape s" "writer_step p ok s = Some s'" shows "ws_effect s s'"
proof (cases "ws_writer s")
  case WRunning
  have c: "ws_connected s" "ws_flush s = None" using assms(1) WRunning by (auto simp: ws_shape_def split: if_split_asm)
  show ?thesis
  proof (cases p)
    case True
    then have "ws_done s" "s' = s\<lparr>ws_writer := WDraining\<rparr>" using assms(2) WRunning by (auto simp: writer_step_def split: if_split_asm)
    then show ?thesis using assms(1) c WRunning by (simp add: ws_view)
  next
    case False
    then obtain d ds where d: "ws_writeCh s = d # ds" using assms(2) WRunning by (cases "ws_writeCh s") (auto simp: writer_step_def)
    define s1 where "s1 = s\<lparr>ws_writeCh := ds, ws_failed := True, ws_writer := WStopped\<rparr>"
    have e: "ws_effect s s1" using assms(1) c d by (simp add: ws_view s1_def subseq_gap1)
    have "s' = (if ok \<and> \<not> ws_closed s then s\<lparr>ws_writeCh := ds, ws_written := ws_written s @ [d]\<rparr>
                else if ws_onWriteErr s then s1 else wsClose s1)"
      using assms(2) by (auto simp: writer_step_def WRunning False d s1_def Let_def)
    then consider "s' = s\<lparr>ws_writeCh := ds, ws_written := ws_written s @ [d]\<rparr>" | "s' = s1" | "s' = wsClose s1" by metis
    then show ?thesis
    proof cases
      case 1 then show ?thesis using assms(1) c d WRunning by (simp add: ws_view)
    next
      case 2 then show ?thesis using e by simp
    next
      case 3 then show ?thesis using ws_effect_trans_close [OF e] by (simp add: s1_def)
    qed
  qed
next
  case WDraining
  have c: "ws_connected s" "ws_flush s = None" "ws_done s" using assms(1) WDraining by (auto simp: ws_shape_def split: if_split_asm)
  show ?thesis
  proof (cases "ws_writeCh s")
    case Nil
    then have "s' = s\<lparr>ws_writer := WStopped\<rparr>" using assms(2) WDraining by (simp add: writer_step_def)
    then show ?thesis using assms(1) c WDraining by (simp add: ws_view)
  next
    case (Cons d ds)
    then have "s' = s\<lparr>ws_writeCh := ds\<rparr>" using assms(2) WDraining by (simp add: writer_step_def)
    then show ?thesis using assms(1) c Cons WDraining by (simp add: ws_view subseq_gap1)
  qed
qed (use assms in \<open>simp_all add: writer_step_def\<close>)

lemma ws_effect_step: "ws_shape s \<Longrightarrow> ws_step a s = Some s' \<Longrightarrow> ws_effect s s'"
  by (cases a) (auto intro: ws_effect_write ws_effect_send ws_effect_activate ws_effect_flush ws_effect_close ws_effect_writer)

definition ws_inv :: "wsStream \<Rightarrow> bool" where
  "ws_inv s \<longleftrightarrow> ws_shape s \<and> subseq (ws_path s) (ws_submitted s) \<and>
     (ws_dropped s = 0 \<and> \<not> ws_done s \<and> \<not> ws_failed s \<longrightarrow> ws_submitted s = ws_path s)"

text \<open>The three flags that can break the byte stream are never taken back.\<close>

lemma ws_flags_step:
  assumes "ws_step a s = Some s'"
  shows "ws_dropped s \<noteq> 0 \<Longrightarrow> ws_dropped s' \<noteq> 0" "ws_done s \<Longrightarrow> ws_done s'" "ws_failed s \<Longrightarrow> ws_failed s'"
  using assms by (cases a; auto simp: wss_defs Let_def split: if_splits option.splits list.splits wsWriter.splits)+

lemma ws_inv_step:
  assumes "ws_inv s" "ws_step a s = Some s'" shows "ws_inv s'"
proof -
  have e: "ws_effect s s'" using assms by (auto simp: ws_inv_def intro: ws_effect_step)
  have "subseq (ws_path s') (ws_submitted s')"
    using e assms(1) unfolding ws_effect_def ws_inv_def
    by (elim conjE disjE exE; simp) (auto intro: subseq_order.order_trans list_emb_append_mono subseq_rev_drop_many)
  moreover have "ws_submitted s' = ws_path s'" if f: "ws_dropped s' = 0" "\<not> ws_done s'" "\<not> ws_failed s'"
  proof -
    have "ws_submitted s = ws_path s" using assms(1) f ws_flags_step [OF assms(2)] by (auto simp: ws_inv_def)
    then show ?thesis using e f unfolding ws_effect_def by auto
  qed
  ultimately show ?thesis using e by (auto simp: ws_inv_def ws_effect_def)
qed

interpretation wsi: step_invariant ws_act ws_inv
  by unfold_locales (auto simp: ws_act_def split: option.splits intro: ws_inv_step)

lemma ws_inv_run: "ws_inv (ws_run as newPendingWSStream)"
  unfolding ws_run_def by (rule wsi.inv_run) (simp add: ws_inv_def ws_shape_init, simp add: newPendingWSStream_def ws_path_def in_transit_def)

subsection \<open>Everything sent is delivered\<close>

lemma ws_run_append: "ws_run (as @ bs) s = ws_run bs (ws_run as s)"
  by (simp add: ws_run_def)

lemma ws_run_Cons: "ws_step a s = Some s' \<Longrightarrow> ws_run (a # as) s = ws_run as s'"
  by (simp add: ws_run_def ws_act_def)

lemma ws_run_flush:
  "ws_flush s = Some ds \<Longrightarrow> \<not> ws_closed s \<Longrightarrow>
   ws_run (replicate (Suc (length ds)) (WFlush True)) s =
     s\<lparr>ws_flush := None, ws_writer := WRunning, ws_written := ws_written s @ ds\<rparr>"
proof (induction ds arbitrary: s)
  case Nil then show ?case by (simp add: ws_run_Cons Activate_flush_def) (simp add: ws_run_def)
next
  case (Cons d ds)
  define s1 where "s1 = s\<lparr>ws_flush := Some ds, ws_written := ws_written s @ [d]\<rparr>"
  have "ws_step (WFlush True) s = Some s1" using Cons.prems by (simp add: Activate_flush_def s1_def)
  then have "ws_run (replicate (Suc (length (d # ds))) (WFlush True)) s = ws_run (replicate (Suc (length ds)) (WFlush True)) s1"
    by (simp add: ws_run_Cons)
  also have "\<dots> = s1\<lparr>ws_flush := None, ws_writer := WRunning, ws_written := ws_written s1 @ ds\<rparr>"
    using Cons.prems by (intro Cons.IH) (simp_all add: s1_def)
  finally show ?case by (simp add: s1_def)
qed

lemma ws_run_writer:
  "ws_writeCh s = ds \<Longrightarrow> ws_writer s = WRunning \<Longrightarrow> \<not> ws_closed s \<Longrightarrow>
   ws_run (replicate (length ds) (WWriter False True)) s = s\<lparr>ws_writeCh := [], ws_written := ws_written s @ ds\<rparr>"
proof (induction ds arbitrary: s)
  case Nil then show ?case by (simp add: ws_run_def)
next
  case (Cons d ds)
  define s1 where "s1 = s\<lparr>ws_writeCh := ds, ws_written := ws_written s @ [d]\<rparr>"
  have "ws_step (WWriter False True) s = Some s1" using Cons.prems by (simp add: writer_step_def s1_def)
  then have "ws_run (replicate (length (d # ds)) (WWriter False True)) s = ws_run (replicate (length ds) (WWriter False True)) s1"
    by (simp add: ws_run_Cons)
  also have "\<dots> = s1\<lparr>ws_writeCh := [], ws_written := ws_written s1 @ ds\<rparr>"
    using Cons.prems by (intro Cons.IH) (simp_all add: s1_def)
  finally show ?case by (simp add: s1_def)
qed

text \<open>From a connected stream: flush, writer, the chunk in the select, writer.\<close>

lemma ws_drains:
  assumes "ws_shape s" "ws_connected s" "\<not> ws_done s" "\<not> ws_failed s"
  shows "\<exists>as. ws_written (ws_run as s) = ws_path s"
proof -
  have nc: "\<not> ws_closed s" "ws_pending s = []" using assms by (auto simp: ws_shape_def)
  define s1 where "s1 = (case ws_flush s of None \<Rightarrow> s | Some ds \<Rightarrow> s\<lparr>ws_flush := None, ws_writer := WRunning, ws_written := ws_written s @ ds\<rparr>)"
  have 1: "\<exists>as. ws_run as s = s1"
  proof (cases "ws_flush s")
    case None then show ?thesis by (intro exI [of _ "[]"]) (simp add: s1_def ws_run_def)
  next
    case (Some ds) then show ?thesis using ws_run_flush [OF Some nc(1)] by (intro exI) (simp add: s1_def)
  qed
  have w1: "ws_writer s1 = WRunning" using assms by (cases "ws_flush s"; cases "ws_writer s") (auto simp: s1_def ws_shape_def)
  define s2 where "s2 = s1\<lparr>ws_writeCh := [], ws_written := ws_written s1 @ ws_writeCh s1\<rparr>"
  have 2: "\<exists>as. ws_run as s1 = s2"
    using ws_run_writer [OF refl w1] nc by (auto simp: s2_def s1_def split: option.splits)
  have p2: "ws_written s2 @ (case ws_sending s2 of None \<Rightarrow> [] | Some d \<Rightarrow> [d]) = ws_path s"
    using nc by (auto simp: s2_def s1_def ws_path_def in_transit_def split: option.splits)
  have w2: "ws_writer s2 = WRunning" "ws_writeCh s2 = []" "\<not> ws_closed s2" using w1 nc by (auto simp: s2_def s1_def split: option.splits)
  have 3: "\<exists>as. ws_written (ws_run as s2) = ws_path s"
  proof (cases "ws_sending s2")
    case None then show ?thesis using p2 by (intro exI [of _ "[]"]) (simp add: ws_run_def)
  next
    case (Some d)
    then show ?thesis using p2 w2
      by (intro exI [of _ "[WSend False, WWriter False True]"])
        (simp add: ws_run_def ws_act_def ws_send_def writer_step_def writeChCap_def)
  qed
  then show ?thesis using 1 2 by (metis ws_run_append)
qed

text \<open>C11. The uplink keeps the order of the client's bytes.  However the session's reader, the dial and
  the writer interleave, what the target received is a subsequence of what the client sent;
  as long as no chunk was dropped by a full pending buffer, nobody closed the stream and no
  write failed, it is exactly a prefix, the rest is under way in order, and once the target
  is connected all of it can still be delivered.\<close>
theorem uplink_in_order:
  "let s = ws_run as newPendingWSStream
   in subseq (ws_written s) (ws_submitted s) \<and>
      (ws_dropped s = 0 \<and> \<not> ws_done s \<and> \<not> ws_failed s \<longrightarrow>
         ws_submitted s = ws_written s @ in_transit s \<and>
         (ws_connected s \<longrightarrow> (\<exists>bs. ws_written (ws_run bs s) = ws_submitted s)))"
proof -
  define s where "s = ws_run as newPendingWSStream"
  have inv: "ws_inv s" unfolding s_def by (rule ws_inv_run)
  have "subseq (ws_written s) (ws_submitted s)"
    using inv subseq_tail [of "ws_written s" "in_transit s"] by (auto simp: ws_inv_def ws_path_def intro: subseq_order.order_trans)
  moreover have "ws_submitted s = ws_written s @ in_transit s" if "ws_dropped s = 0" "\<not> ws_done s" "\<not> ws_failed s"
    using inv that by (simp add: ws_inv_def ws_path_def)
  moreover have "\<exists>bs. ws_written (ws_run bs s) = ws_submitted s"
    if "ws_dropped s = 0" "\<not> ws_done s" "\<not> ws_failed s" "ws_connected s"
    using ws_drains [of s] inv that by (simp add: ws_inv_def)
  ultimately show ?thesis unfolding s_def [symmetric] Let_def by blast
qed

theorem uplink_in_order_witness:
  "let s = ws_run [WWrite [1], WActivate, WWrite [2]] newPendingWSStream
   in ws_submitted s = [[1], [2]] \<and> (\<exists>bs. ws_written (ws_run bs s) = [[1], [2]])"
proof -
  define s where "s = ws_run [WWrite [1], WActivate, WWrite [2]] newPendingWSStream"
  have "ws_submitted s = [[1], [2]]" "ws_dropped s = 0" "\<not> ws_done s" "\<not> ws_failed s" "ws_connected s"
    by (simp_all add: s_def ws_run_def ws_act_def ws_write_def Activate_begin_def newPendingWSStream_def pendingBufMax_def)
  then show ?thesis using uplink_in_order [of "[WWrite [1], WActivate, WWrite [2]]"] unfolding s_def [symmetric] Let_def by metis
qed

subsection \<open>Where it breaks\<close>

lemma ws_run_pending:
  "\<not> ws_connected s \<Longrightarrow> ws_sending s = None \<Longrightarrow> length (ws_pending s) + length ds \<le> pendingBufMax \<Longrightarrow>
   ws_run (map WWrite ds) s = s\<lparr>ws_pending := ws_pending s @ ds, ws_submitted := ws_submitted s @ ds\<rparr>"
proof (induction ds arbitrary: s)
  case Nil then show ?case by (simp add: ws_run_def)
next
  case (Cons d ds)
  define s1 where "s1 = s\<lparr>ws_pending := ws_pending s @ [d], ws_submitted := ws_submitted s @ [d]\<rparr>"
  have "ws_step (WWrite d) s = Some s1" using Cons.prems by (simp add: ws_write_def s1_def)
  then have "ws_run (map WWrite (d # ds)) s = ws_run (map WWrite ds) s1" by (simp add: ws_run_Cons)
  also have "\<dots> = s1\<lparr>ws_pending := ws_pending s1 @ ds, ws_submitted := ws_submitted s1 @ ds\<rparr>"
    using Cons.prems by (intro Cons.IH) (simp_all add: s1_def)
  finally show ?case by (simp add: s1_def)
qed

text \<open>A slow dial punches a hole into the byte stream.  The 65th chunk that arrives before the
  target is connected is dropped without a word; the first 64 chunks are delivered, and so
  is everything sent later, so the target reads a stream with bytes missing in the middle.\<close>
theorem slow_dial_loses_bytes:
  assumes "length ds = pendingBufMax"
  shows "\<exists>as. ws_submitted (ws_run as newPendingWSStream) = ds @ [x, y] \<and>
    ws_written (ws_run as newPendingWSStream) = ds @ [y] \<and> in_transit (ws_run as newPendingWSStream) = [] \<and>
    \<not> ws_failed (ws_run as newPendingWSStream) \<and> \<not> ws_done (ws_run as newPendingWSStream)"
proof -
  let ?n = newPendingWSStream
  define s1 where "s1 = ?n\<lparr>ws_pending := ds, ws_submitted := ds\<rparr>"
  define s2 where "s2 = s1\<lparr>ws_submitted := ds @ [x], ws_dropped := 1, ws_target := True, ws_connected := True,
    ws_flush := Some ds, ws_pending := []\<rparr>"
  define s3 where "s3 = s2\<lparr>ws_flush := None, ws_writer := WRunning, ws_written := ds\<rparr>"
  have 1: "ws_run (map WWrite ds) ?n = s1"
    using ws_run_pending [of ?n ds] assms by (simp add: s1_def newPendingWSStream_def)
  have 2: "ws_run [WWrite x, WActivate] s1 = s2"
    using assms by (simp add: s1_def s2_def ws_run_def ws_act_def ws_write_def Activate_begin_def newPendingWSStream_def)
  have 3: "ws_run (replicate (Suc (length ds)) (WFlush True)) s2 = s3"
    using ws_run_flush [of s2 ds] by (simp add: s2_def s3_def s1_def newPendingWSStream_def del: replicate.simps)
  let ?as = "map WWrite ds @ [WWrite x, WActivate] @ replicate (Suc (length ds)) (WFlush True) @ [WWrite y, WSend False, WWriter False True]"
  have "ws_run ?as ?n = ws_run [WWrite y, WSend False, WWriter False True] s3" by (simp only: ws_run_append 1 2 3)
  also have "\<dots> = s3\<lparr>ws_submitted := ds @ [x, y], ws_written := ds @ [y]\<rparr>"
    by (simp add: ws_run_def ws_act_def ws_write_def ws_send_def writer_step_def s3_def s2_def s1_def newPendingWSStream_def writeChCap_def)
  finally show ?thesis by (intro exI [of _ ?as]) (simp add: s3_def s2_def s1_def newPendingWSStream_def in_transit_def)
qed

theorem slow_dial_loses_bytes_witness:
  "\<exists>as. ws_submitted (ws_run as newPendingWSStream) = replicate 64 [0] @ [[1], [2]] \<and>
    ws_written (ws_run as newPendingWSStream) = replicate 64 [0] @ [[2]]"
  using slow_dial_loses_bytes [of "replicate 64 [0]" "[1]" "[2]"] by (auto simp: pendingBufMax_def)

definition leaked :: "wsStream \<Rightarrow> bool" where
  "leaked s \<longleftrightarrow> ws_target s \<and> ws_done s \<and> \<not> ws_closed s"

lemma leaked_step: "leaked s \<Longrightarrow> ws_step a s = Some s' \<Longrightarrow> leaked s'"
  by (cases a) (auto simp: leaked_def wss_defs Let_def split: if_splits option.splits list.splits wsWriter.splits)

interpretation wsl: step_invariant ws_act leaked
proof
  fix s a assume "leaked s"
  then show "leaked (ws_act a s)" by (cases "ws_step a s") (simp_all add: ws_act_def leaked_step)
qed

text \<open>A FIN that arrives during the dial leaks the connection.  \<open>Close\<close> finds no target to close and
  uses up its one execution; the dial goroutine then activates the stream anyway, and no
  later call on the stream closes the target.\<close>
theorem fin_during_dial_leaks:
  "let s = ws_run (WClose # WActivate # as) newPendingWSStream in ws_target s \<and> \<not> ws_closed s"
proof -
  define s0 where "s0 = ws_run [WClose, WActivate] newPendingWSStream"
  have "leaked s0"
    by (simp add: leaked_def s0_def ws_run_def ws_act_def wsClose_def Activate_begin_def newPendingWSStream_def)
  then have "leaked (ws_run as s0)" unfolding ws_run_def by (rule wsl.inv_run)
  moreover have "ws_run (WClose # WActivate # as) newPendingWSStream = ws_run as s0"
    using ws_run_append [of "[WClose, WActivate]" as] by (simp add: s0_def)
  ultimately show ?thesis by (simp add: leaked_def)
qed

end
