(* ===== verification/Ws_Session.thy ===== *)
theory Ws_Session
  imports Ws_Attach Ws_Stream Relay
begin

section \<open>The relay loop of a WebSocket session\<close>

text \<open>
  Models \<open>runWebSocketSession\<close> of \<open>src/server/websocket.go\<close> for any number of slots at once: the
  inbound dispatcher, the dial goroutine of a CONNECT with everything it does after the dial, the
  stream writers, the relay loops and the end of a slot.  The slots share the registry of
  migratable relays (\<open>Relay\<close>) and the UDP relay; a stream object (\<open>Ws_Stream\<close>) is shared between
  the stream table of its slot, its dial goroutine and, through the egress connection, the relay
  entry.  The credit of a stream is owned by the slot's table until a relay entry takes it over;
  from then on the table refers to the credit of the entry (two dials of the same stream number
  that both find a credit would share one object; here the second gets a copy).

  Every critical section, send or receive is a step of its own, and a run is any sequence of
  steps.  Outcomes of dials and writes, times, and the iteration order of tables are arguments.
\<close>

subsection \<open>State\<close>

datatype creditRef = OwnCredit streamCredit | EntryCredit nat

datatype slotEnd = Serving | Ending | Orphaned | SlotClosed

record wsSlot =
  l_sess :: session
  l_flow :: u32
  l_mig :: bool
  l_client :: gostring              \<comment> \<open>\<open>migrateClientID\<close>\<close>
  l_streams :: "(u16 \<times> nat) list"
  l_credits :: "u16 \<rightharpoonup> creditRef"
  l_wait :: "nat option"            \<comment> \<open>the stream in whose \<open>Write\<close> the reader waits\<close>
  l_end :: slotEnd
  l_out :: "bytes list"             \<comment> \<open>what was handed to the slot's writer\<close>

datatype jobPhase = Dialling | Dialled | Checked | Activated | Replied gostring | Published nat | Looping nat | InlineRelay | JobOver

record dialJob =
  dj_slot :: slot
  dj_stream :: u16
  dj_target :: gostring
  dj_phase :: jobPhase
  dj_entry :: "nat option"          \<comment> \<open>the relay entry that holds the same egress connection\<close>

record wsWorld =
  w_reg :: relayRegistry
  w_slots :: "slot \<rightharpoonup> wsSlot"
  w_str :: "nat \<rightharpoonup> wsStream"
  w_jobs :: "nat \<rightharpoonup> dialJob"        \<comment> \<open>the dial goroutine of a stream object\<close>
  w_tc :: "nat \<rightharpoonup> nat"             \<comment> \<open>the stream whose connection a relay entry holds\<close>
  w_next :: nat
  w_udp :: "udpRelay option"
  w_events :: "wire_event list"     \<comment> \<open>what relay entries put on the wire\<close>
  w_crashed :: bool                 \<comment> \<open>a panic that nothing recovers\<close>
  w_in :: "(slot \<times> u16 \<times> bytes) list"   \<comment> \<open>stream data the readers took in\<close>

record wsEnv =
  n_gcm :: gcm
  n_pool :: bufpool
  n_crypto :: crypto
  n_master :: bytes
  n_post :: postEnv

definition upd_slot :: "slot \<Rightarrow> (wsSlot \<Rightarrow> wsSlot) \<Rightarrow> wsWorld \<Rightarrow> wsWorld" where
  "upd_slot b f w = w\<lparr>w_slots := (w_slots w)(b := map_option f (w_slots w b))\<rparr>"

definition upd_wss :: "nat \<Rightarrow> (wsStream \<Rightarrow> wsStream) \<Rightarrow> wsWorld \<Rightarrow> wsWorld" where
  "upd_wss sa f w = w\<lparr>w_str := (w_str w)(sa := map_option f (w_str w sa))\<rparr>"

definition set_phase :: "nat \<Rightarrow> jobPhase \<Rightarrow> wsWorld \<Rightarrow> wsWorld" where
  "set_phase sa ph w = w\<lparr>w_jobs := (w_jobs w)(sa := map_option (\<lambda>j. j\<lparr>dj_phase := ph\<rparr>) (w_jobs w sa))\<rparr>"

text \<open>A chunk for the client: next number, encryption under the slot's session, the writer's queue.\<close>

definition say :: "wsEnv \<Rightarrow> byte \<Rightarrow> bytes \<Rightarrow> wsSlot \<Rightarrow> wsSlot" where
  "say N flag payload l =
     (let (seq, s1) = NextSeqNum (l_sess l);
          (res, s2, _) = EncryptChunk (n_gcm N) (n_pool N) None \<lparr>SessionID = ID (l_sess l), SeqNum = seq, Flags = flag, Payload = payload\<rparr> s1
      in l\<lparr>l_sess := s2, l_out := l_out l @ (case res of Ok (c, _) \<Rightarrow> [c] | _ \<Rightarrow> [])\<rparr>)"

abbreviation text_bytes :: "string \<Rightarrow> bytes" where
  "text_bytes \<equiv> map of_char"

definition del_ws_stream :: "u16 \<Rightarrow> wsSlot \<Rightarrow> wsSlot" where
  "del_ws_stream sid l = l\<lparr>l_streams := filter (\<lambda>e. fst e \<noteq> sid) (l_streams l)\<rparr>"

definition close_wss :: "nat \<Rightarrow> wsWorld \<Rightarrow> wsWorld" where
  "close_wss sa = upd_wss sa wsClose"

subsection \<open>Credits\<close>

definition upd_credit :: "(streamCredit \<Rightarrow> streamCredit) \<Rightarrow> slot \<Rightarrow> u16 \<Rightarrow> wsWorld \<Rightarrow> wsWorld" where
  "upd_credit f b sid w =
     (case w_slots w b of
        None \<Rightarrow> w
      | Some l \<Rightarrow>
          (case l_credits l sid of
             None \<Rightarrow> w
           | Some (OwnCredit c) \<Rightarrow> upd_slot b (\<lambda>l. l\<lparr>l_credits := (l_credits l)(sid \<mapsto> OwnCredit (f c))\<rparr>) w
           | Some (EntryCredit a) \<Rightarrow> w\<lparr>w_reg := put a ((heap (w_reg w) a)\<lparr>credit := map_option f (credit (heap (w_reg w) a))\<rparr>) (w_reg w)\<rparr>))"

definition drop_credit :: "slot \<Rightarrow> u16 \<Rightarrow> wsWorld \<Rightarrow> wsWorld" where
  "drop_credit b sid w = upd_slot b (\<lambda>l. l\<lparr>l_credits := (l_credits l)(sid := None)\<rparr>) (upd_credit credit_close b sid w)"

subsection \<open>Stream data\<close>

text \<open>The connection of a stream is open unless the stream or its relay entry closed it.\<close>

definition egress_open :: "nat \<Rightarrow> wsWorld \<Rightarrow> bool" where
  "egress_open sa w \<longleftrightarrow>
     (case w_str w sa of None \<Rightarrow> False | Some s \<Rightarrow> ws_target s \<and> \<not> ws_closed s) \<and>
     (case w_jobs w sa of None \<Rightarrow> False | Some j \<Rightarrow> (case dj_entry j of None \<Rightarrow> True | Some a \<Rightarrow> tc_closes (heap (w_reg w) a) = 0))"

definition signal_end :: "nat \<Rightarrow> wsWorld \<Rightarrow> wsWorld" where
  "signal_end a w =
     (case signalStreamEnd True a (w_reg w) of (evs, r) \<Rightarrow> w\<lparr>w_reg := r, w_events := w_events w @ evs\<rparr>)"

text \<open>The write of a migrated stream, directly on the connection of its relay entry.\<close>

definition registry_write :: "bool \<Rightarrow> gostring \<Rightarrow> u16 \<Rightarrow> bytes \<Rightarrow> wsWorld \<Rightarrow> wsWorld" where
  "registry_write ok client sid d w =
     (case reg_find client sid (w_reg w) of
        None \<Rightarrow> w
      | Some a \<Rightarrow>
          (case w_tc w a of
             None \<Rightarrow> w
           | Some sa \<Rightarrow>
               if ok \<and> egress_open sa w then upd_wss sa (\<lambda>s. s\<lparr>ws_written := ws_written s @ [d]\<rparr>) w
               else signal_end a w))"

definition ws_data :: "bool \<Rightarrow> slot \<Rightarrow> wsSlot \<Rightarrow> bytes \<Rightarrow> wsWorld \<Rightarrow> wsWorld" where
  "ws_data ok b l payload w =
     (let (sid, d) = ParseStreamID payload; w1 = w\<lparr>w_in := (b, sid, d) # w_in w\<rparr>
      in case map_of (l_streams l) sid of
           Some sa \<Rightarrow>
             if d = [] then w
             else (case w_str w sa of
                     None \<Rightarrow> w
                   | Some s \<Rightarrow>
                       (case ws_write d s of
                          None \<Rightarrow> w
                        | Some s' \<Rightarrow> upd_slot b (\<lambda>l. l\<lparr>l_wait := (if ws_sending s' = None then None else Some sa)\<rparr>) (upd_wss sa (\<lambda>_. s') w1)))
         | None \<Rightarrow>
             if d \<noteq> [] \<and> l_mig l \<and> l_client l \<noteq> [] then registry_write ok (l_client l) sid d w1 else w)"

text \<open>The select in which the reader's \<open>Write\<close> ends.\<close>

definition reader_send :: "bool \<Rightarrow> slot \<Rightarrow> wsWorld \<Rightarrow> wsWorld" where
  "reader_send discard b w =
     (case w_slots w b of
        None \<Rightarrow> w
      | Some l \<Rightarrow>
          (case l_wait l of
             None \<Rightarrow> w
           | Some sa \<Rightarrow>
               (case Option.bind (w_str w sa) (ws_send discard) of
                  None \<Rightarrow> w
                | Some s' \<Rightarrow> upd_slot b (\<lambda>l. l\<lparr>l_wait := None\<rparr>) (upd_wss sa (\<lambda>_. s') w))))"

subsection \<open>CONNECT\<close>

definition registerWSStreamLocked :: "u16 \<Rightarrow> nat \<Rightarrow> (u16 \<times> nat) list \<Rightarrow> (u16 \<times> nat) list option" where
  "registerWSStreamLocked sid sa streams =
     (if map_of streams sid \<noteq> None then None
      else if length streams \<ge> maxStreamsPerSession then None
      else Some ((sid, sa) # streams))"

definition connect_reply :: "wsEnv \<Rightarrow> u16 \<Rightarrow> bytes \<Rightarrow> wsSlot \<Rightarrow> wsSlot" where
  "connect_reply N sid body = say N FlagData (put16 sid @ body)"

definition ws_connect :: "wsEnv \<Rightarrow> slot \<Rightarrow> wsSlot \<Rightarrow> bytes \<Rightarrow> wsWorld \<Rightarrow> wsWorld" where
  "ws_connect N b l payload w =
     (let (sid, target) = ParseStreamID payload; sa = w_next w
      in if target = [] then w
         else case registerWSStreamLocked sid sa (l_streams l) of
                None \<Rightarrow> upd_slot b (connect_reply N sid (text_bytes ''CONNECT_FAIL''))
                          (w\<lparr>w_next := Suc sa, w_str := (w_str w)(sa \<mapsto> wsClose newPendingWSStream)\<rparr>)
              | Some streams \<Rightarrow>
                  upd_slot b (\<lambda>l. l\<lparr>l_streams := streams,
                      l_credits := (if l_flow l > 0 then (l_credits l)(sid \<mapsto> OwnCredit (newStreamCredit (int (unat (l_flow l))))) else l_credits l)\<rparr>)
                    (w\<lparr>w_next := Suc sa, w_str := (w_str w)(sa \<mapsto> newPendingWSStream),
                       w_jobs := (w_jobs w)(sa \<mapsto> \<lparr>dj_slot = b, dj_stream = sid, dj_target = target, dj_phase = Dialling, dj_entry = None\<rparr>)\<rparr>))"

subsection \<open>The other chunks\<close>

definition ws_fin :: "slot \<Rightarrow> wsSlot \<Rightarrow> bytes \<Rightarrow> wsWorld \<Rightarrow> wsWorld" where
  "ws_fin b l payload w =
     (let sid = fst (ParseStreamID payload);
          w1 = (case map_of (l_streams l) sid of None \<Rightarrow> w | Some sa \<Rightarrow> upd_slot b (del_ws_stream sid) (close_wss sa w));
          w2 = (if l_flow l > 0 then drop_credit b sid w1 else w1)
      in if l_mig l \<and> l_client l \<noteq> [] then w2\<lparr>w_reg := fin_relay (l_client l) sid (w_reg w2)\<rparr> else w2)"

definition ws_udp :: "wsEnv \<Rightarrow> instant \<Rightarrow> wsSlot \<Rightarrow> bytes \<Rightarrow> wsWorld \<Rightarrow> wsWorld" where
  "ws_udp N now l payload w =
     (let E = n_post N
      in case ParseUDPChunk payload of
           Panic \<Rightarrow> w\<lparr>w_crashed := True\<rparr>
         | Err _ \<Rightarrow> w
         | Ok (sid, targetAddr, d) \<Rightarrow>
             if isBlockedDomain (v_uni E) (v_reverse E) (host_of targetAddr) (v_block E) then w
             else (case v_resolveUDP E targetAddr of
                     None \<Rightarrow> w
                   | Some (ip, resolved) \<Rightarrow>
                       if isPrivateIP ip then w
                       else let key = (ID (l_sess l), sid)
                            in w\<lparr>w_udp := map_option (UDPSend now key resolved d (reply_cb key targetAddr)) (w_udp w)\<rparr>))"

text \<open>The callback that a UDP answer runs.\<close>

definition ws_udp_answer :: "wsEnv \<Rightarrow> receiver \<Rightarrow> bytes \<Rightarrow> wsSlot \<Rightarrow> wsSlot" where
  "ws_udp_answer N cb d = say N FlagUDP (BuildUDPChunkPayload (cb_stream cb) (cb_label cb) d)"

definition ws_window_update :: "slot \<Rightarrow> wsSlot \<Rightarrow> bytes \<Rightarrow> wsWorld \<Rightarrow> wsWorld" where
  "ws_window_update b l payload w =
     (case ParseWindowUpdate payload of
        Ok (sid, delta) \<Rightarrow>
          (let top_up = credit_add delta (int (unat (l_flow l)))
           in case l_credits l sid of
                Some _ \<Rightarrow> upd_credit top_up b sid w
              | None \<Rightarrow>
                  if l_mig l \<and> l_client l \<noteq> []
                  then (case reg_find (l_client l) sid (w_reg w) of
                          None \<Rightarrow> w
                        | Some a \<Rightarrow> w\<lparr>w_reg := put a ((heap (w_reg w) a)\<lparr>credit := map_option top_up (credit (heap (w_reg w) a))\<rparr>) (w_reg w)\<rparr>)
                  else w)
      | _ \<Rightarrow> w)"

definition migrate_say :: "wsEnv \<Rightarrow> byte \<Rightarrow> migrate_reply \<Rightarrow> wsSlot \<Rightarrow> wsSlot" where
  "migrate_say N flag rep l =
     (case rep of
        MigrateNoReply \<Rightarrow> l
      | MigrateOK sid seq \<Rightarrow> say N flag (BuildMigrateOK sid seq) l
      | MigrateFail sid reason \<Rightarrow> say N flag (BuildMigrateFail sid reason) l)"

definition ws_migrate :: "wsEnv \<Rightarrow> slot \<Rightarrow> wsSlot \<Rightarrow> byte \<Rightarrow> bytes \<Rightarrow> wsWorld \<Rightarrow> wsWorld" where
  "ws_migrate N b l flag payload w =
     (if \<not> l_mig l then w
      else case handleMigrateOrResume (n_crypto N) (n_master N) flag payload (l_client l) b True (w_reg w) of
             (rep, evs, r) \<Rightarrow> upd_slot b (migrate_say N flag rep) (w\<lparr>w_reg := r, w_events := w_events w @ evs\<rparr>))"

definition ws_stream_ack :: "wsSlot \<Rightarrow> bytes \<Rightarrow> wsWorld \<Rightarrow> wsWorld" where
  "ws_stream_ack l payload w =
     (if \<not> l_mig l then w
      else case ParseStreamAckFrame payload of
             Ok (sid, seq) \<Rightarrow>
               (case reg_find (l_client l) sid (w_reg w) of
                  None \<Rightarrow> w
                | Some a \<Rightarrow> w\<lparr>w_reg := put a (onStreamAck seq (heap (w_reg w) a)) (w_reg w)\<rparr>)
           | _ \<Rightarrow> w)"

definition ws_dispatch :: "wsEnv \<Rightarrow> instant \<Rightarrow> bool \<Rightarrow> slot \<Rightarrow> wsSlot \<Rightarrow> chunk \<Rightarrow> wsWorld \<Rightarrow> wsWorld" where
  "ws_dispatch N now ok b l c w =
     (if Flags c = FlagData then ws_data ok b l (Payload c) w
      else if Flags c = FlagConnect then ws_connect N b l (Payload c) w
      else if Flags c = FlagFin then ws_fin b l (Payload c) w
      else if Flags c = FlagKeepalive then upd_slot b (say N FlagAck []) w
      else if Flags c = FlagUDP then ws_udp N now l (Payload c) w
      else if Flags c = FlagWindowUpdate then ws_window_update b l (Payload c) w
      else if Flags c = FlagMigrate \<or> Flags c = FlagResume then ws_migrate N b l (Flags c) (Payload c) w
      else if Flags c = FlagStreamAck then ws_stream_ack l (Payload c) w
      else w)"

text \<open>One message of the reader; it reads until the connection is closed and not while a \<open>Write\<close> waits.\<close>

definition ws_frame :: "wsEnv \<Rightarrow> instant \<Rightarrow> bool \<Rightarrow> slot \<Rightarrow> bytes \<Rightarrow> wsWorld \<Rightarrow> wsWorld" where
  "ws_frame N now ok b data w =
     (case w_slots w b of
        None \<Rightarrow> w
      | Some l \<Rightarrow>
          if l_end l = SlotClosed \<or> l_wait l \<noteq> None \<or> data = [] then w
          else (case DecryptChunkSafe (n_gcm N) now data (l_sess l) of
                  (Ok c, s1, _) \<Rightarrow>
                    (case SessionAcceptSeqNum now (SeqNum c) s1 of
                       (fresh, s2) \<Rightarrow>
                         (let l1 = l\<lparr>l_sess := s2\<rparr>; w1 = w\<lparr>w_slots := (w_slots w)(b \<mapsto> l1)\<rparr>
                          in if fresh then ws_dispatch N now ok b l1 c w1 else w1))
                | _ \<Rightarrow> w))"

subsection \<open>The dial goroutine\<close>

definition leave_stream :: "nat \<Rightarrow> dialJob \<Rightarrow> wsWorld \<Rightarrow> wsWorld" where
  "leave_stream sa j w = set_phase sa JobOver (upd_slot (dj_slot j) (del_ws_stream (dj_stream j)) (close_wss sa w))"

text \<open>Block list and dial; on failure the stream is closed, its number released and the client told.\<close>

definition dial_result :: "wsEnv \<Rightarrow> bool \<Rightarrow> nat \<Rightarrow> dialJob \<Rightarrow> wsWorld \<Rightarrow> wsWorld" where
  "dial_result N dialed sa j w =
     (let E = n_post N
      in if v_block E \<noteq> [] \<and> isBlockedDomain (v_uni E) (v_reverse E) (host_of (dj_target j)) (v_block E) \<or> \<not> dialed
         then upd_slot (dj_slot j) (connect_reply N (dj_stream j) (text_bytes ''CONNECT_FAIL'')) (leave_stream sa j w)
         else set_phase sa Dialled w)"

definition dial_check :: "nat \<Rightarrow> dialJob \<Rightarrow> wsSlot \<Rightarrow> wsWorld \<Rightarrow> wsWorld" where
  "dial_check sa j l w = (if l_end l \<noteq> Serving then leave_stream sa j w else set_phase sa Checked w)"

definition dial_activate :: "nat \<Rightarrow> wsWorld \<Rightarrow> wsWorld" where
  "dial_activate sa w =
     (case Option.bind (w_str w sa) Activate_begin of None \<Rightarrow> w | Some s \<Rightarrow> set_phase sa Activated (upd_wss sa (\<lambda>_. s) w))"

definition flushed :: "nat \<Rightarrow> wsWorld \<Rightarrow> bool" where
  "flushed sa w \<longleftrightarrow> (case w_str w sa of None \<Rightarrow> False | Some s \<Rightarrow> ws_flush s = None)"

text \<open>
  The answer; \<open>tunnelUp\<close>: the tunnel of the session is still in the handler's table, where the
  client's name is read.
\<close>

definition dial_reply :: "wsEnv \<Rightarrow> bool \<Rightarrow> nat \<Rightarrow> dialJob \<Rightarrow> wsSlot \<Rightarrow> wsWorld \<Rightarrow> wsWorld" where
  "dial_reply N tunnelUp sa j l w =
     (let client = (if l_mig l \<and> tunnelUp then l_client l else []);
          C = n_crypto N;
          proof = ComputeStreamProof C (DeriveServerPerClientKey C (n_master N) client) client (dj_stream j) (MigrateNonce (l_sess l))
      in if flushed sa w
         then set_phase sa (Replied client)
                (upd_slot (dj_slot j) (connect_reply N (dj_stream j) (text_bytes ''CONNECT_OK'' @ (if l_mig l then proof else []))) w)
         else w)"

definition take_credit :: "u16 \<Rightarrow> wsSlot \<Rightarrow> relayRegistry \<Rightarrow> streamCredit option" where
  "take_credit sid l r =
     (if l_flow l > 0
      then (case l_credits l sid of None \<Rightarrow> None | Some (OwnCredit c) \<Rightarrow> Some c | Some (EntryCredit a) \<Rightarrow> credit (heap r a))
      else None)"

definition dial_publish :: "nat \<Rightarrow> dialJob \<Rightarrow> wsSlot \<Rightarrow> gostring \<Rightarrow> wsWorld \<Rightarrow> wsWorld" where
  "dial_publish sa j l client w =
     (if \<not> l_mig l then set_phase sa InlineRelay w
      else let r = w_reg w; a = next_addr r; sid = dj_stream j; cr = take_credit sid l r
           in upd_slot (dj_slot j) (\<lambda>l. l\<lparr>l_credits := (if cr = None then l_credits l else (l_credits l)(sid \<mapsto> EntryCredit a))\<rparr>)
                (w\<lparr>w_reg := connect_relay client sid (MigrateNonce (l_sess l)) (unat (l_flow l)) cr (dj_slot j) r,
                   w_tc := (w_tc w)(a \<mapsto> sa),
                   w_jobs := (w_jobs w)(sa \<mapsto> j\<lparr>dj_phase := Published a, dj_entry := Some a\<rparr>)\<rparr>))"

definition dial_hook :: "nat \<Rightarrow> nat \<Rightarrow> wsWorld \<Rightarrow> wsWorld" where
  "dial_hook sa a w = set_phase sa (Looping a) (upd_wss sa set_onWriteErr w)"

subsection \<open>Relay loops\<close>

definition relayBuf :: nat where "relayBuf = 32768"

text \<open>The top of both loops: how much may be read, or that the goroutine waits, or that it ends.\<close>

datatype readGate = ReadUpTo nat | ReadBlocks | ReadStops

definition read_gate :: "bool \<Rightarrow> streamCredit option \<Rightarrow> readGate" where
  "read_gate stop cr =
     (case cr of
        None \<Rightarrow> ReadUpTo relayBuf
      | Some c \<Rightarrow>
          (case waitForCredit stop c of
             None \<Rightarrow> ReadBlocks
           | Some got \<Rightarrow> if got \<le> 0 then ReadStops else ReadUpTo (min relayBuf (nat got))))"

text \<open>A round of \<open>relayLoop\<close>: the target has \<open>d\<close> ready, of which the allowed part is read.\<close>

definition loop_round :: "instant \<Rightarrow> bytes \<Rightarrow> bool \<Rightarrow> nat \<Rightarrow> nat \<Rightarrow> wsWorld \<Rightarrow> wsWorld" where
  "loop_round now d eof sa a w =
     (let e = heap (w_reg w) a
      in case read_gate (reader_closed e) (credit e) of
           ReadBlocks \<Rightarrow> w
         | ReadStops \<Rightarrow> set_phase sa JobOver w
         | ReadUpTo n \<Rightarrow>
             (case relay_round now (take n d) eof True e of
                (evs, e', fate) \<Rightarrow>
                  (let w1 = w\<lparr>w_reg := put a e' (w_reg w), w_events := w_events w @ evs\<rparr>
                   in case fate of RoundGoes \<Rightarrow> w1 | RoundEnds \<Rightarrow> set_phase sa JobOver w1 | RoundPanics \<Rightarrow> w1\<lparr>w_crashed := True\<rparr>)))"

text \<open>The inline loop of a session without migration, and its deferred function.\<close>

definition inline_exit :: "nat \<Rightarrow> dialJob \<Rightarrow> wsSlot \<Rightarrow> wsWorld \<Rightarrow> wsWorld" where
  "inline_exit sa j l w =
     (let w1 = leave_stream sa j w in if l_flow l > 0 then drop_credit (dj_slot j) (dj_stream j) w1 else w1)"

definition inline_round :: "wsEnv \<Rightarrow> bytes \<Rightarrow> bool \<Rightarrow> bool \<Rightarrow> nat \<Rightarrow> dialJob \<Rightarrow> wsSlot \<Rightarrow> wsWorld \<Rightarrow> wsWorld" where
  "inline_round N d eof written sa j l w =
     (case read_gate (l_end l \<noteq> Serving) (take_credit (dj_stream j) l (w_reg w)) of
        ReadBlocks \<Rightarrow> w
      | ReadStops \<Rightarrow> inline_exit sa j l w
      | ReadUpTo n \<Rightarrow>
          if d = [] then (if eof then inline_exit sa j l w else w)
          else let l1 = say N FlagData (put16 (dj_stream j) @ take n d) l;
                   w1 = upd_slot (dj_slot j) (\<lambda>_. l1) w
               in if l_out l1 = l_out l \<or> \<not> written then inline_exit sa j l w1
                  else let w2 = (if l_flow l > 0 then upd_credit (credit_consume (length (take n d))) (dj_slot j) (dj_stream j) w1 else w1)
                       in if eof then inline_exit sa j l w2 else w2)"

text \<open>A round of the stream's writer; its error goes to the registry when the relay has set the callback.\<close>

definition stream_writer :: "bool \<Rightarrow> bool \<Rightarrow> nat \<Rightarrow> wsWorld \<Rightarrow> wsWorld" where
  "stream_writer pick_done ok sa w =
     (case w_str w sa of
        None \<Rightarrow> w
      | Some s \<Rightarrow>
          (case writer_step pick_done (ok \<and> egress_open sa w) s of
             None \<Rightarrow> w
           | Some s' \<Rightarrow>
               (let w1 = upd_wss sa (\<lambda>_. s') w
                in if ws_writer s = WRunning \<and> ws_writer s' = WStopped \<and> ws_onWriteErr s
                   then (case Option.bind (w_jobs w sa) dj_entry of None \<Rightarrow> w1 | Some a \<Rightarrow> signal_end a w1)
                   else w1)))"

definition flush_step :: "bool \<Rightarrow> nat \<Rightarrow> wsWorld \<Rightarrow> wsWorld" where
  "flush_step ok sa w =
     (case Option.bind (w_str w sa) (Activate_flush (ok \<and> egress_open sa w)) of None \<Rightarrow> w | Some s \<Rightarrow> upd_wss sa (\<lambda>_. s) w)"

subsection \<open>The end of a slot\<close>

definition slot_credits :: "slot \<Rightarrow> wsSlot \<Rightarrow> u16 list \<Rightarrow> wsWorld \<Rightarrow> wsWorld" where
  "slot_credits b l sids w =
     fold (\<lambda>sid w. if l_client l \<noteq> [] \<and> reg_find (l_client l) sid (w_reg w) \<noteq> None then w else upd_credit credit_close b sid w) sids w"

definition slot_orphan :: "instant \<Rightarrow> slot \<Rightarrow> wsSlot \<Rightarrow> wsWorld \<Rightarrow> wsWorld" where
  "slot_orphan now b l w =
     (let w1 = upd_slot b (\<lambda>l. l\<lparr>l_end := Orphaned\<rparr>) w
      in if l_mig l \<and> l_client l \<noteq> [] then w1\<lparr>w_reg := snd (session_death now (l_client l) b (w_reg w1))\<rparr> else w1)"

definition slot_close :: "slot \<Rightarrow> wsSlot \<Rightarrow> wsWorld \<Rightarrow> wsWorld" where
  "slot_close b l w =
     fold (\<lambda>(sid, sa) w.
        if l_mig l \<and> l_client l \<noteq> [] \<and> reg_find (l_client l) sid (w_reg w) \<noteq> None
        then upd_wss sa CloseKeepTarget w else close_wss sa w)
       (l_streams l) (upd_slot b (\<lambda>l. l\<lparr>l_end := SlotClosed\<rparr>) w)"

subsection \<open>Runs\<close>

datatype wsYield =
    YStart slot session u32 bool gostring
  | YFrame wsEnv instant bool slot bytes
  | YSend bool slot
  | YJob nat jobStep
  | YWriter bool bool nat
  | YFlush bool nat
  | YUdpAnswer wsEnv slot receiver bytes
  | YRelay relay_op
  | YDone slot
  | YCredits slot "u16 list"
  | YOrphan instant slot
  | YClose slot
  and jobStep = JDial wsEnv bool | JCheck | JActivate | JReply wsEnv bool | JPublish | JHook
    | JLoop instant bytes bool | JInline wsEnv bytes bool bool

text \<open>A step of the goroutine of stream \<open>sa\<close>; one that is not at that point stays where it is.\<close>

definition job_step :: "jobStep \<Rightarrow> nat \<Rightarrow> dialJob \<Rightarrow> wsSlot \<Rightarrow> wsWorld \<Rightarrow> wsWorld" where
  "job_step st sa j l w =
     (let at = (\<lambda>ph v. if dj_phase j = ph then v else w)
      in case st of
           JDial N dialed \<Rightarrow> at Dialling (dial_result N dialed sa j w)
         | JCheck \<Rightarrow> at Dialled (dial_check sa j l w)
         | JActivate \<Rightarrow> at Checked (dial_activate sa w)
         | JReply N up \<Rightarrow> at Activated (dial_reply N up sa j l w)
         | JPublish \<Rightarrow> (case dj_phase j of Replied client \<Rightarrow> dial_publish sa j l client w | _ \<Rightarrow> w)
         | JHook \<Rightarrow> (case dj_phase j of Published a \<Rightarrow> dial_hook sa a w | _ \<Rightarrow> w)
         | JLoop now d eof \<Rightarrow> (case dj_phase j of Looping a \<Rightarrow> loop_round now d eof sa a w | _ \<Rightarrow> w)
         | JInline N d eof written \<Rightarrow> at InlineRelay (inline_round N d eof written sa j l w))"

text \<open>
  What timers, cleanups and relay loops do to the registry; a CONNECT enters only through
  \<open>dial_publish\<close> and a MIGRATE only through the dispatcher.
\<close>

fun timer_op :: "relay_op \<Rightarrow> bool" where
  "timer_op (RGrace a) = True"
| "timer_op (RDecide now c a) = True"
| "timer_op (RCharge a) = True"
| "timer_op (ROrphan now a) = True"
| "timer_op (RRelease a) = True"
| "timer_op (RReject a) = True"
| "timer_op _ = False"

definition ws_yield :: "wsYield \<Rightarrow> wsWorld \<Rightarrow> wsWorld" where
  "ws_yield y w =
     (if w_crashed w then w
      else case y of
        YStart b sess flow mig client \<Rightarrow>
          if w_slots w b = None
          then w\<lparr>w_slots := (w_slots w)(b \<mapsto> \<lparr>l_sess = sess, l_flow = flow, l_mig = mig, l_client = (if mig then client else []),
                   l_streams = [], l_credits = Map.empty, l_wait = None, l_end = Serving, l_out = []\<rparr>)\<rparr>
          else w
      | YFrame N now ok b data \<Rightarrow> ws_frame N now ok b data w
      | YSend discard b \<Rightarrow> reader_send discard b w
      | YJob sa st \<Rightarrow>
          (case w_jobs w sa of
             None \<Rightarrow> w
           | Some j \<Rightarrow> (case w_slots w (dj_slot j) of None \<Rightarrow> w | Some l \<Rightarrow> job_step st sa j l w))
      | YWriter pick_done ok sa \<Rightarrow> stream_writer pick_done ok sa w
      | YFlush ok sa \<Rightarrow> flush_step ok sa w
      | YUdpAnswer N b cb d \<Rightarrow> upd_slot b (ws_udp_answer N cb d) w
      | YRelay op \<Rightarrow> if timer_op op then w\<lparr>w_reg := relay_step op (w_reg w)\<rparr> else w
      | YDone b \<Rightarrow> upd_slot b (\<lambda>l. if l_end l = Serving then l\<lparr>l_end := Ending\<rparr> else l) w
      | YCredits b sids \<Rightarrow>
          (case w_slots w b of None \<Rightarrow> w | Some l \<Rightarrow> if l_end l = Serving then w else slot_credits b l sids w)
      | YOrphan now b \<Rightarrow>
          (case w_slots w b of None \<Rightarrow> w | Some l \<Rightarrow> if l_end l = Ending then slot_orphan now b l w else w)
      | YClose b \<Rightarrow>
          (case w_slots w b of None \<Rightarrow> w | Some l \<Rightarrow> if l_end l = Orphaned then slot_close b l w else w))"

definition ws_world0 :: "relayRegistry \<Rightarrow> udpRelay option \<Rightarrow> wsWorld" where
  "ws_world0 r u = \<lparr>w_reg = r, w_slots = Map.empty, w_str = Map.empty, w_jobs = Map.empty, w_tc = Map.empty, w_next = 0,
     w_udp = u, w_events = [], w_crashed = False, w_in = []\<rparr>"

end
