(* ===== verification/Ws_Session_Props.thy ===== *)
theory Ws_Session_Props
  imports Ws_Session
begin

section \<open>Correctness of the WebSocket relay loop\<close>

text \<open>
  The well-formedness of the world of slots, streams and relay entries and that every step keeps
  it.  From it: a target connection only receives what the client it was dialled for sent on that
  stream, also after the stream has migrated to other slots.  Then what a window update reaches,
  what the end of a slot closes, and two schedules in which the code does not do what it means to.
\<close>

subsection \<open>Well-formedness\<close>

definition home :: "wsWorld \<Rightarrow> nat \<rightharpoonup> slot \<times> u16" where
  "home w sa = map_option (\<lambda>j. (dj_slot j, dj_stream j)) (w_jobs w sa)"

definition client_of :: "wsWorld \<Rightarrow> slot \<rightharpoonup> gostring" where
  "client_of w b = map_option l_client (w_slots w b)"

text \<open>\<open>d\<close> was sent to stream \<open>sa\<close>: on its number, by its slot or by a slot of the same named client.\<close>

definition same_client :: "wsWorld \<Rightarrow> slot \<Rightarrow> slot \<Rightarrow> bool" where
  "same_client w b b' \<longleftrightarrow> b' = b \<or> (\<exists>c. c \<noteq> [] \<and> client_of w b = Some c \<and> client_of w b' = Some c)"

definition sent_to :: "wsWorld \<Rightarrow> nat \<Rightarrow> bytes \<Rightarrow> bool" where
  "sent_to w sa d \<longleftrightarrow> (\<exists>b sid b'. home w sa = Some (b, sid) \<and> (b', sid, d) \<in> set (w_in w) \<and> same_client w b b')"

definition table_ok :: "(nat \<rightharpoonup> slot \<times> u16) \<Rightarrow> slot \<Rightarrow> wsSlot \<Rightarrow> bool" where
  "table_ok h b l \<longleftrightarrow> distinct (map fst (l_streams l)) \<and> length (l_streams l) \<le> maxStreamsPerSession \<and>
     (\<forall>sid sa. (sid, sa) \<in> set (l_streams l) \<longrightarrow> h sa = Some (b, sid))"

definition object_ok :: "wsWorld \<Rightarrow> nat \<Rightarrow> wsStream \<Rightarrow> bool" where
  "object_ok w sa s \<longleftrightarrow> ws_shape s \<and> (\<forall>d. d \<in> set (ws_path s) \<longrightarrow> sent_to w sa d)"

definition named :: "wsWorld \<Rightarrow> slot \<Rightarrow> gostring \<Rightarrow> bool" where
  "named w b c \<longleftrightarrow> c = [] \<or> client_of w b = Some c"

definition egress_ok :: "wsWorld \<Rightarrow> nat \<Rightarrow> nat \<Rightarrow> bool" where
  "egress_ok w a sa \<longleftrightarrow> a < next_addr (w_reg w) \<and>
     (\<exists>b. home w sa = Some (b, globalStreamID (heap (w_reg w) a)) \<and> named w b (originClientID (heap (w_reg w) a)))"

definition job_ok :: "wsWorld \<Rightarrow> dialJob \<Rightarrow> bool" where
  "job_ok w j \<longleftrightarrow> (\<forall>c. dj_phase j = Replied c \<longrightarrow> named w (dj_slot j) c)"

definition world_ok :: "wsWorld \<Rightarrow> bool" where
  "world_ok w \<longleftrightarrow>
     relay_inv (w_reg w) \<and>
     (\<forall>b l. w_slots w b = Some l \<longrightarrow> table_ok (home w) b l) \<and>
     (\<forall>sa s. w_str w sa = Some s \<longrightarrow> sa < w_next w \<and> object_ok w sa s) \<and>
     (\<forall>a sa. w_tc w a = Some sa \<longrightarrow> egress_ok w a sa) \<and>
     (\<forall>sa j. w_jobs w sa = Some j \<longrightarrow> sa < w_next w \<and> job_ok w j)"

lemma world_okD:
  assumes "world_ok w"
  shows "relay_inv (w_reg w)" and "w_slots w b = Some l \<Longrightarrow> table_ok (home w) b l"
    and "w_str w sa = Some s \<Longrightarrow> sa < w_next w \<and> object_ok w sa s"
    and "w_tc w a = Some sa \<Longrightarrow> egress_ok w a sa"
    and "w_jobs w sa = Some j \<Longrightarrow> sa < w_next w \<and> job_ok w j"
  using assms unfolding world_ok_def by blast+

text \<open>Everything the invariant says of data and names survives when the world grows.\<close>

definition grows :: "wsWorld \<Rightarrow> wsWorld \<Rightarrow> bool" where
  "grows w w' \<longleftrightarrow> home w \<subseteq>\<^sub>m home w' \<and> client_of w \<subseteq>\<^sub>m client_of w' \<and> set (w_in w) \<subseteq> set (w_in w')"

lemma map_leD: "m \<subseteq>\<^sub>m m' \<Longrightarrow> m x = Some y \<Longrightarrow> m' x = Some y"
  by (metis domI map_le_def)

lemma grows_keeps:
  assumes "grows w w'"
  shows "named w b c \<Longrightarrow> named w' b c" and "sent_to w sa d \<Longrightarrow> sent_to w' sa d"
    and "object_ok w sa s \<Longrightarrow> object_ok w' sa s" and "table_ok (home w) b l \<Longrightarrow> table_ok (home w') b l" and "job_ok w j \<Longrightarrow> job_ok w' j"
proof -
  have h: "home w' x = Some y" if "home w x = Some y" for x y using assms map_leD that unfolding grows_def by metis
  have c: "client_of w' x = Some y" if "client_of w x = Some y" for x y using assms map_leD that unfolding grows_def by metis
  show "named w b c \<Longrightarrow> named w' b c" using c by (auto simp: named_def)
  have s: "sent_to w' sa d" if "sent_to w sa d" for sa d
    using that h c assms unfolding sent_to_def same_client_def grows_def by blast
  then show "sent_to w sa d \<Longrightarrow> sent_to w' sa d" .
  show "object_ok w sa s \<Longrightarrow> object_ok w' sa s" using s by (auto simp: object_ok_def)
  show "table_ok (home w) b l \<Longrightarrow> table_ok (home w') b l" using h by (auto simp: table_ok_def)
  show "job_ok w j \<Longrightarrow> job_ok w' j" using c by (auto simp: job_ok_def named_def)
qed

lemma grows_same: "home w' = home w \<Longrightarrow> client_of w' = client_of w \<Longrightarrow> set (w_in w) \<subseteq> set (w_in w') \<Longrightarrow> grows w w'"
  by (simp add: grows_def)

lemma egress_grows:
  assumes "egress_ok w a sa" "grows w w'" "next_addr (w_reg w) \<le> next_addr (w_reg w')"
    "globalStreamID (heap (w_reg w') a) = globalStreamID (heap (w_reg w) a)" "originClientID (heap (w_reg w') a) = originClientID (heap (w_reg w) a)"
  shows "egress_ok w' a sa"
proof -
  obtain b where b: "home w sa = Some (b, globalStreamID (heap (w_reg w) a))" "named w b (originClientID (heap (w_reg w) a))"
    using assms(1) by (auto simp: egress_ok_def)
  have "home w' sa = Some (b, globalStreamID (heap (w_reg w) a))" using b(1) assms(2) map_leD unfolding grows_def by metis
  with grows_keeps(1) [OF assms(2) b(2)] assms show ?thesis by (auto simp: egress_ok_def)
qed

subsection \<open>The primitive updates\<close>

named_theorems wok

text \<open>An entry keeps its identity whatever happens to the registry.\<close>

lemma identity_stays:
  assumes "evolves r r'" "a < next_addr r"
  shows "globalStreamID (heap r' a) = globalStreamID (heap r a) \<and> originClientID (heap r' a) = originClientID (heap r a) \<and> a < next_addr r'"
  using assms
proof (induction rule: rtranclp_induct)
  case (step s t)
  from step(2) show ?case using step(3) [OF step(4)]
    by cases (auto simp: quiet_def heap_teardown closeReader_def connect_relay_def reg_add_def)
qed simp

lemma next_addr_mono: "evolves r r' \<Longrightarrow> next_addr r \<le> next_addr r'"
proof (induction rule: rtranclp_induct)
  case (step s t)
  from step(2) show ?case using step(3) by cases (simp_all add: heap_teardown connect_relay_def reg_add_def)
qed simp

lemma wok_frame:
  assumes "world_ok w" "w_reg w' = w_reg w" "w_slots w' = w_slots w" "w_str w' = w_str w" "w_jobs w' = w_jobs w" "w_tc w' = w_tc w" "w_next w' = w_next w"
    "set (w_in w) \<subseteq> set (w_in w')"
  shows "world_ok w'"
proof -
  have h: "home w' = home w" "client_of w' = client_of w" using assms by (auto simp: home_def client_of_def)
  then have g: "grows w w'" using assms by (intro grows_same)
  show ?thesis using world_okD [OF assms(1)] grows_keeps [OF g] egress_grows [OF _ g] assms h unfolding world_ok_def by simp
qed

lemma wok_fields [wok]:
  assumes "world_ok w"
  shows "world_ok (w\<lparr>w_events := ev\<rparr>)" "world_ok (w\<lparr>w_udp := u\<rparr>)" "world_ok (w\<lparr>w_crashed := True\<rparr>)" "world_ok (w\<lparr>w_in := i # w_in w\<rparr>)"
  by (rule wok_frame [OF assms]; auto)+

lemma wok_reg [wok]:
  assumes ok: "world_ok w" and e: "evolves (w_reg w) r"
  shows "world_ok (w\<lparr>w_reg := r\<rparr>)"
proof -
  let ?w = "w\<lparr>w_reg := r\<rparr>"
  have "home ?w = home w" "client_of ?w = client_of w" by (auto simp: home_def client_of_def)
  then have g: "grows w ?w" by (intro grows_same) simp_all
  have "egress_ok ?w a sa" if "w_tc w a = Some sa" for a sa
  proof -
    have o: "egress_ok w a sa" by (rule world_okD(4) [OF ok that])
    then have "a < next_addr (w_reg w)" by (simp add: egress_ok_def)
    from identity_stays [OF e this] next_addr_mono [OF e] show ?thesis by (intro egress_grows [OF o g]) simp_all
  qed
  then show ?thesis using world_okD [OF ok] grows_keeps [OF g] relay_inv_evolves [OF e] unfolding world_ok_def by simp
qed

definition tame :: "wsSlot \<Rightarrow> wsSlot \<Rightarrow> bool" where
  "tame l l' \<longleftrightarrow> l_client l' = l_client l \<and> (\<exists>P. l_streams l' = filter P (l_streams l))"

lemma table_tame: "table_ok h b l \<Longrightarrow> tame l l' \<Longrightarrow> table_ok h b l'"
  unfolding table_ok_def tame_def by (auto simp: distinct_map_filter intro: order_trans [OF length_filter_le])

lemma wok_slot:
  assumes ok: "world_ok w" and t: "\<And>l. w_slots w b = Some l \<Longrightarrow> tame l (f l)"
  shows "world_ok (upd_slot b f w)"
proof -
  let ?w = "upd_slot b f w"
  have f: "w_reg ?w = w_reg w" "w_str ?w = w_str w" "w_jobs ?w = w_jobs w" "w_tc ?w = w_tc w" "w_next ?w = w_next w" "w_in ?w = w_in w"
    by (simp_all add: upd_slot_def)
  have "home ?w = home w" using f by (simp add: home_def fun_eq_iff)
  moreover have "client_of ?w = client_of w"
    using t by (cases "w_slots w b") (auto simp: client_of_def upd_slot_def fun_eq_iff tame_def)
  ultimately have g: "grows w ?w" using f by (intro grows_same) simp_all
  have "table_ok (home w) c l'" if "w_slots ?w c = Some l'" for c l'
    using that world_okD(2) [OF ok] table_tame [of "home w" b, OF _ t] by (cases "c = b") (auto simp: upd_slot_def)
  then show ?thesis using world_okD [OF ok] grows_keeps [OF g] egress_grows [OF _ g] f unfolding world_ok_def by simp
qed

lemma wok_str:
  assumes ok: "world_ok w" and s: "\<And>s. w_str w sa = Some s \<Longrightarrow> object_ok w sa s \<Longrightarrow> object_ok w sa (f s)"
  shows "world_ok (upd_wss sa f w)"
proof -
  let ?w = "upd_wss sa f w"
  have f: "w_reg ?w = w_reg w" "w_slots ?w = w_slots w" "w_jobs ?w = w_jobs w" "w_tc ?w = w_tc w" "w_next ?w = w_next w" "w_in ?w = w_in w"
    by (simp_all add: upd_wss_def)
  have g: "grows w ?w" using f by (intro grows_same) (simp_all add: home_def client_of_def fun_eq_iff)
  have "x < w_next w \<and> object_ok ?w x t" if "w_str ?w x = Some t" for x t
    using that world_okD(3) [OF ok] s grows_keeps(3) [OF g] by (cases "x = sa") (auto simp: upd_wss_def)
  then show ?thesis using world_okD [OF ok] grows_keeps [OF g] egress_grows [OF _ g] f unfolding world_ok_def by simp
qed

lemma wok_phase:
  assumes ok: "world_ok w" and p: "\<And>j c. w_jobs w sa = Some j \<Longrightarrow> ph = Replied c \<Longrightarrow> named w (dj_slot j) c"
  shows "world_ok (set_phase sa ph w)"
proof -
  let ?w = "set_phase sa ph w"
  have f: "w_reg ?w = w_reg w" "w_slots ?w = w_slots w" "w_str ?w = w_str w" "w_tc ?w = w_tc w" "w_next ?w = w_next w" "w_in ?w = w_in w"
    by (simp_all add: set_phase_def)
  have g: "grows w ?w" using f by (intro grows_same) (auto simp: home_def client_of_def fun_eq_iff set_phase_def option.map_comp comp_def)
  have "x < w_next w \<and> job_ok ?w j" if "w_jobs ?w x = Some j" for x j
    using that world_okD(5) [OF ok] p grows_keeps(5) [OF g] grows_keeps(1) [OF g] by (cases "x = sa") (auto simp: set_phase_def job_ok_def)
  then show ?thesis using world_okD [OF ok] grows_keeps [OF g] egress_grows [OF _ g] f unfolding world_ok_def by simp
qed

subsection \<open>Operations\<close>

lemma tame_simps [simp]:
  "tame l l" "tame l (l\<lparr>l_wait := x\<rparr>)" "tame l (l\<lparr>l_end := e\<rparr>)" "tame l (l\<lparr>l_credits := cr\<rparr>)" "tame l (del_ws_stream sid l)" "tame l (l\<lparr>l_sess := ss\<rparr>)"
  by (auto simp: tame_def del_ws_stream_def intro: exI [of _ "\<lambda>_. True"])

lemma tame_say [simp]: "tame l (say N flag p l)" "tame l (connect_reply N sid body l)" "tame l (ws_udp_answer N cb d l)" "tame l (migrate_say N flag rep l)"
proof -
  show s: "tame l (say N flag p l)" for flag p
    by (auto simp: say_def tame_def Let_def case_prod_beta intro: exI [of _ "\<lambda>_. True"])
  then show "tame l (connect_reply N sid body l)" "tame l (ws_udp_answer N cb d l)" "tame l (migrate_say N flag rep l)"
    by (auto simp: connect_reply_def ws_udp_answer_def migrate_say_def split: migrate_reply.split)
qed

text \<open>A step of the stream adds at most its argument to what is on its way.\<close>

lemma ws_path_step:
  assumes "ws_shape s" "ws_step a s = Some s'"
  shows "ws_shape s' \<and> set (ws_path s') \<subseteq> set (ws_path s) \<union> (case a of WWrite d \<Rightarrow> {d} | _ \<Rightarrow> {})"
proof -
  have e: "ws_effect s s'" by (rule ws_effect_step [OF assms])
  have sub: "ws_submitted s' = ws_submitted s @ (case a of WWrite d \<Rightarrow> [d] | _ \<Rightarrow> [])"
    using assms(2) by (cases a) (auto simp: wss_defs Let_def split: if_splits option.splits list.splits wsWriter.splits)
  have "set (ws_path s') \<subseteq> set (ws_path s) \<union> set xs" if "ws_submitted s' = ws_submitted s @ xs" for xs
    using e that unfolding ws_effect_def by (auto dest: list_emb_set)
  from this [OF sub] have "set (ws_path s') \<subseteq> set (ws_path s) \<union> set (case a of WWrite d \<Rightarrow> [d] | _ \<Rightarrow> [])" .
  then show ?thesis using e unfolding ws_effect_def by (cases a) auto
qed

lemma object_step:
  assumes "object_ok w sa s" "ws_step a s = Some s'" "\<And>d. a = WWrite d \<Longrightarrow> sent_to w sa d"
  shows "object_ok w sa s'"
proof -
  have s: "ws_shape s" "d \<in> set (ws_path s) \<Longrightarrow> sent_to w sa d" for d using assms(1) by (simp_all add: object_ok_def)
  note P = ws_path_step [OF s(1) assms(2)]
  have "sent_to w sa d" if "d \<in> set (ws_path s')" for d
  proof -
    have "d \<in> set (ws_path s) \<or> a = WWrite d" using P that by (cases a) auto
    then show ?thesis using s(2) assms(3) by blast
  qed
  then show ?thesis using P by (simp add: object_ok_def)
qed

lemma wok_step:
  assumes ok: "world_ok w" and s: "w_str w sa = Some s" "ws_step a s = Some s'" and d: "\<And>d. a = WWrite d \<Longrightarrow> sent_to w sa d"
  shows "world_ok (upd_wss sa (\<lambda>_. s') w)"
  by (rule wok_str [OF ok]) (use s object_step [OF _ s(2), of w sa] d in auto)

lemma wok_close [wok]: "world_ok w \<Longrightarrow> world_ok (close_wss sa w)" "world_ok w \<Longrightarrow> world_ok (upd_wss sa CloseKeepTarget w)" "world_ok w \<Longrightarrow> world_ok (upd_wss sa set_onWriteErr w)"
proof -
  have o: "object_ok w sa (wsClose s)" "object_ok w sa (CloseKeepTarget s)" "object_ok w sa (set_onWriteErr s)" if "object_ok w sa s" for s
    by (rule object_step [OF that, of WClose] object_step [OF that, of WCloseKeep] object_step [OF that, of WSetErr]; simp)+
  then show "world_ok w \<Longrightarrow> world_ok (close_wss sa w)" "world_ok w \<Longrightarrow> world_ok (upd_wss sa CloseKeepTarget w)" "world_ok w \<Longrightarrow> world_ok (upd_wss sa set_onWriteErr w)"
    unfolding close_wss_def by (auto intro!: wok_str)
qed

lemma wok_tame [wok]: "world_ok w \<Longrightarrow> (\<And>l. tame l (f l)) \<Longrightarrow> world_ok (upd_slot b f w)"
  by (rule wok_slot)

lemma wok_put [wok]: "world_ok w \<Longrightarrow> quiet (heap (w_reg w) a) e \<Longrightarrow> world_ok (w\<lparr>w_reg := put a e (w_reg w)\<rparr>)"
  by (intro wok_reg calm_atom calm_put)

lemma wok_credit [wok]: "world_ok w \<Longrightarrow> world_ok (upd_credit f b sid w)"
  unfolding upd_credit_def by (auto intro!: wok split: option.split creditRef.split)

lemma wok_drop_credit [wok]: "world_ok w \<Longrightarrow> world_ok (drop_credit b sid w)"
  unfolding drop_credit_def by (intro wok tame_simps)

lemma wok_signal [wok]:
  assumes "world_ok w" shows "world_ok (signal_end a w)"
proof -
  obtain evs r where r: "signalStreamEnd True a (w_reg w) = (evs, r)" by fastforce
  have "evolves (w_reg w) r" using evolves_step [of "w_reg w" "RSignal a"] r by simp
  then have "world_ok (w\<lparr>w_reg := r\<rparr>)" by (rule wok_reg [OF assms])
  from wok_fields(1) [OF this, of "w_events w @ evs"] show ?thesis using r by (simp add: signal_end_def)
qed

lemma wok_phase_plain [wok]: "world_ok w \<Longrightarrow> (\<And>c. ph \<noteq> Replied c) \<Longrightarrow> world_ok (set_phase sa ph w)"
  by (rule wok_phase) auto

lemma wok_leave [wok]: "world_ok w \<Longrightarrow> world_ok (leave_stream sa j w)"
  unfolding leave_stream_def by (intro wok tame_simps) auto

lemma wok_registry_write:
  assumes ok: "world_ok w" and b: "client_of w b = Some c" "c \<noteq> []" and i: "(b, sid, d) \<in> set (w_in w)"
  shows "world_ok (registry_write wr c sid d w)"
proof (cases "reg_find c sid (w_reg w)")
  case (Some a)
  have id: "originClientID (heap (w_reg w) a) = c" "globalStreamID (heap (w_reg w) a) = sid"
    using world_okD(1) [OF ok] Some by (auto simp: relay_inv_def)
  have "world_ok (upd_wss sa (\<lambda>s. s\<lparr>ws_written := ws_written s @ [d]\<rparr>) w)" if tc: "w_tc w a = Some sa" for sa
  proof (rule wok_str [OF ok])
    obtain b' where "home w sa = Some (b', sid)" "named w b' c" using world_okD(4) [OF ok tc] id by (auto simp: egress_ok_def)
    then have "sent_to w sa d" using b i by (auto simp: sent_to_def same_client_def named_def)
    then show "object_ok w sa (s\<lparr>ws_written := ws_written s @ [d]\<rparr>)" if "object_ok w sa s" for s
      using that by (auto simp: object_ok_def ws_shape_def ws_path_def in_transit_def)
  qed
  then show ?thesis using Some ok by (auto simp: registry_write_def wok_signal split: option.split)
qed (simp add: registry_write_def ok)

lemma wok_data:
  assumes ok: "world_ok w" and l: "w_slots w b = Some l"
  shows "world_ok (ws_data wr b l payload w)"
proof -
  obtain sid d where p: "ParseStreamID payload = (sid, d)" by fastforce
  let ?w1 = "w\<lparr>w_in := (b, sid, d) # w_in w\<rparr>"
  have ok1: "world_ok ?w1" by (rule wok_fields(4) [OF ok])
  have c: "client_of ?w1 b = Some (l_client l)" using l by (simp add: client_of_def)
  show ?thesis
  proof (cases "map_of (l_streams l) sid")
    case None
    then show ?thesis using p ok wok_registry_write [OF ok1 c] by (simp add: ws_data_def)
  next
    case (Some sa)
    have "home w sa = Some (b, sid)" using world_okD(2) [OF ok l] map_of_SomeD [OF Some] by (simp add: table_ok_def)
    then have st: "sent_to ?w1 sa d" by (auto simp: sent_to_def home_def same_client_def)
    have "world_ok (upd_slot b (\<lambda>l. l\<lparr>l_wait := x\<rparr>) (upd_wss sa (\<lambda>_. s') ?w1))" if "w_str w sa = Some s" "ws_write d s = Some s'" for s s' x
      using wok_step [OF ok1, of sa s "WWrite d" s'] that st by (intro wok_tame) simp_all
    then show ?thesis using p Some ok by (auto simp: ws_data_def split: option.split)
  qed
qed

lemma wok_send:
  assumes "world_ok w" shows "world_ok (reader_send discard b w)"
proof -
  have "world_ok (upd_slot b (\<lambda>l. l\<lparr>l_wait := None\<rparr>) (upd_wss sa (\<lambda>_. s') w))" if "w_str w sa = Some s" "ws_send discard s = Some s'" for sa s s'
    using wok_step [OF assms that(1), of "WSend discard" s'] that by (intro wok_tame) simp_all
  then show ?thesis using assms unfolding reader_send_def by (auto simp: bind_eq_Some_conv split: option.split)
qed

text \<open>A fresh stream object.\<close>

lemma wok_alloc:
  assumes ok: "world_ok w" and s: "ws_shape s" "ws_path s = []"
  shows "world_ok (w\<lparr>w_next := Suc (w_next w), w_str := (w_str w)(w_next w \<mapsto> s)\<rparr>)"
proof -
  let ?w = "w\<lparr>w_next := Suc (w_next w), w_str := (w_str w)(w_next w \<mapsto> s)\<rparr>"
  have g: "grows w ?w" by (intro grows_same) (auto simp: home_def client_of_def)
  have "home ?w = home w" by (auto simp: home_def)
  moreover have "object_ok ?w (w_next w) s" using s by (simp add: object_ok_def)
  ultimately show ?thesis using world_okD [OF ok] grows_keeps [OF g] egress_grows [OF _ g] unfolding world_ok_def
    by (auto simp: less_Suc_eq)
qed

lemma wok_job:
  assumes ok: "world_ok w" and l: "w_slots w b = Some l" and r: "registerWSStreamLocked sid sa (l_streams l) = Some streams"
    and new: "w_jobs w sa = None" "sa < w_next w" and f: "l_streams (f l) = streams" "l_client (f l) = l_client l"
  shows "world_ok (upd_slot b f (w\<lparr>w_jobs := (w_jobs w)(sa \<mapsto> \<lparr>dj_slot = b, dj_stream = sid, dj_target = t, dj_phase = Dialling, dj_entry = None\<rparr>)\<rparr>))"
    (is "world_ok ?w")
proof -
  have h: "home ?w = (home w)(sa \<mapsto> (b, sid))" by (auto simp: home_def upd_slot_def fun_eq_iff)
  have c: "client_of ?w = client_of w" using l f by (auto simp: client_of_def upd_slot_def fun_eq_iff)
  have "home w sa = None" using new by (simp add: home_def)
  then have "home w \<subseteq>\<^sub>m home ?w" by (auto simp: h map_le_def)
  then have g: "grows w ?w" using c by (simp add: grows_def upd_slot_def)
  have st: "streams = (sid, sa) # l_streams l" "map_of (l_streams l) sid = None" "length (l_streams l) < maxStreamsPerSession"
    using r by (auto simp: registerWSStreamLocked_def split: if_splits)
  have "table_ok (home ?w) b (f l)"
    using grows_keeps(4) [OF g world_okD(2) [OF ok l]] st f(1) unfolding table_ok_def h by (auto simp: map_of_eq_None_iff)
  then have tables: "table_ok (home ?w) x k" if "w_slots ?w x = Some k" for x k
    using that l world_okD(2) [OF ok, THEN grows_keeps(4) [OF g]] by (cases "x = b") (auto simp: upd_slot_def)
  have objs: "x < w_next ?w \<and> object_ok ?w x s" if "w_str ?w x = Some s" for x s
    using that world_okD(3) [OF ok, of x s] grows_keeps(3) [OF g] by (simp add: upd_slot_def)
  have jobs: "x < w_next ?w \<and> job_ok ?w j" if "w_jobs ?w x = Some j" for x j
    using that world_okD(5) [OF ok, of x j] grows_keeps(5) [OF g] new(2) by (cases "x = sa") (auto simp: upd_slot_def job_ok_def)
  have egr: "egress_ok ?w a x" if "w_tc ?w a = Some x" for a x
    using that world_okD(4) [OF ok, of a x] egress_grows [OF _ g] by (simp add: upd_slot_def)
  show ?thesis using world_okD(1) [OF ok] tables objs jobs egr unfolding world_ok_def by (simp add: upd_slot_def)
qed

lemma wok_connect:
  assumes ok: "world_ok w" and l: "w_slots w b = Some l"
  shows "world_ok (ws_connect N b l payload w)"
proof -
  obtain sid target where p: "ParseStreamID payload = (sid, target)" by fastforce
  let ?sa = "w_next w"
  have path: "ws_path newPendingWSStream = []" "ws_path (wsClose newPendingWSStream) = []"
    by (simp_all add: ws_path_def in_transit_def newPendingWSStream_def wsClose_def)
  have shape: "ws_shape newPendingWSStream" "ws_shape (wsClose newPendingWSStream)"
    using ws_shape_init ws_effect_close(1) by (auto simp: ws_effect_def)
  show ?thesis
  proof (cases "registerWSStreamLocked sid ?sa (l_streams l)")
    case None
    then show ?thesis using p ok wok_tame [OF wok_alloc [OF ok shape(2) path(2)]] by (simp add: ws_connect_def Let_def)
  next
    case (Some streams)
    have "w_jobs w ?sa = None" using world_okD(5) [OF ok, of ?sa] by (cases "w_jobs w ?sa") auto
    then show ?thesis using p Some ok wok_job [OF wok_alloc [OF ok shape(1) path(1)], of b l sid ?sa streams] l by (simp add: ws_connect_def Let_def)
  qed
qed

lemma wok_fin: "world_ok w \<Longrightarrow> world_ok (ws_fin b l payload w)"
proof -
  assume ok: "world_ok w"
  have fin: "world_ok (v\<lparr>w_reg := fin_relay c sid (w_reg v)\<rparr>)" if "world_ok v" for v c sid
    using evolves_step [of "w_reg v" "RFin c sid"] by (intro wok_reg [OF that]) simp
  have "world_ok (case map_of (l_streams l) sid of None \<Rightarrow> w | Some sa \<Rightarrow> upd_slot b (del_ws_stream sid) (close_wss sa w))" for sid
    using ok by (auto intro!: wok split: option.split)
  then show ?thesis unfolding ws_fin_def Let_def by (auto intro!: fin wok)
qed

lemma wok_udp: "world_ok w \<Longrightarrow> world_ok (ws_udp N now l payload w)"
  unfolding ws_udp_def Let_def by (auto intro!: wok split: outcome.split option.split)

lemma wok_window_update: "world_ok w \<Longrightarrow> world_ok (ws_window_update b l payload w)"
  unfolding ws_window_update_def Let_def by (auto intro!: wok split: outcome.split option.split)

lemma wok_stream_ack: "world_ok w \<Longrightarrow> world_ok (ws_stream_ack l payload w)"
  unfolding ws_stream_ack_def by (auto intro!: wok split: outcome.split option.split)

lemma wok_migrate:
  assumes "world_ok w" shows "world_ok (ws_migrate N b l flag payload w)"
proof -
  obtain rep evs r where r: "handleMigrateOrResume (n_crypto N) (n_master N) flag payload (l_client l) b True (w_reg w) = (rep, evs, r)"
    using prod_cases3 by blast
  then have "calm (w_reg w) r" using calm_migrate [of "w_reg w" "n_crypto N" "n_master N" flag payload "l_client l" b True] by simp
  then have "world_ok (w\<lparr>w_reg := r\<rparr>)" by (intro wok_reg [OF assms] calm_atom)
  from wok_fields(1) [OF this, of "w_events w @ evs"] have "world_ok (w\<lparr>w_reg := r, w_events := w_events w @ evs\<rparr>)" by simp
  then show ?thesis using assms r by (simp add: ws_migrate_def wok_tame)
qed

lemma wok_dispatch: "world_ok w \<Longrightarrow> w_slots w b = Some l \<Longrightarrow> world_ok (ws_dispatch N now ok b l c w)"
  unfolding ws_dispatch_def
  by (simp add: wok_data wok_connect wok_fin wok_udp wok_window_update wok_migrate wok_stream_ack wok_tame)

lemma wok_ws_frame:
  assumes "world_ok w" shows "world_ok (ws_frame N now ok b data w)"
proof (cases "w_slots w b")
  case (Some l)
  have 1: "world_ok (w\<lparr>w_slots := (w_slots w)(b \<mapsto> l\<lparr>l_sess := s\<rparr>)\<rparr>)" for s
    using wok_tame [OF assms, of "\<lambda>l. l\<lparr>l_sess := s\<rparr>" b] Some by (simp add: upd_slot_def)
  have "world_ok (ws_dispatch N now ok b (l\<lparr>l_sess := s\<rparr>) c (w\<lparr>w_slots := (w_slots w)(b \<mapsto> l\<lparr>l_sess := s\<rparr>)\<rparr>))" for s c
    by (rule wok_dispatch [OF 1]) simp
  then show ?thesis using Some assms 1
    by (auto simp: ws_frame_def Let_def case_prod_beta split: outcome.split)
qed (simp add: ws_frame_def assms)

lemma wok_publish:
  assumes ok: "world_ok w" and j: "w_jobs w sa = Some j" and l: "w_slots w (dj_slot j) = Some l" and ph: "dj_phase j = Replied client"
  shows "world_ok (dial_publish sa j l client w)"
proof (cases "l_mig l")
  case False then show ?thesis using ok by (simp add: dial_publish_def wok_phase_plain)
next
  case True
  let ?r = "w_reg w" let ?a = "next_addr ?r"
  define r where "r = connect_relay client (dj_stream j) (MigrateNonce (l_sess l)) (unat (l_flow l)) (take_credit (dj_stream j) l ?r) (dj_slot j) ?r"
  define v where "v = w\<lparr>w_reg := r, w_tc := (w_tc w)(?a \<mapsto> sa), w_jobs := (w_jobs w)(sa \<mapsto> j\<lparr>dj_phase := Published ?a, dj_entry := Some ?a\<rparr>)\<rparr>"
  have e: "evolves ?r r" using r_into_rtranclp [of atom ?r, OF atom_connect] by (simp add: r_def)
  have g: "grows w v" using j by (intro grows_same) (auto simp: v_def home_def client_of_def fun_eq_iff)
  have hv: "home v = home w" using j by (auto simp: v_def home_def fun_eq_iff)
  have a: "globalStreamID (heap r ?a) = dj_stream j" "originClientID (heap r ?a) = client" "?a < next_addr r"
    by (simp_all add: r_def connect_relay_def reg_add_def newRelayEntry_def)
  have "home w sa = Some (dj_slot j, dj_stream j)" using j by (simp add: home_def)
  moreover have "named w (dj_slot j) client" using world_okD(5) [OF ok j] ph by (simp add: job_ok_def)
  ultimately have new: "egress_ok v ?a sa" using a hv grows_keeps(1) [OF g] by (auto simp: egress_ok_def v_def)
  have old: "egress_ok v x y" if "w_tc w x = Some y" for x y
  proof -
    have o: "egress_ok w x y" by (rule world_okD(4) [OF ok that])
    then have "x < ?a" by (simp add: egress_ok_def)
    from identity_stays [OF e this] next_addr_mono [OF e] show ?thesis by (intro egress_grows [OF o g]) (simp_all add: v_def)
  qed
  have jobs: "x < w_next v \<and> job_ok v k" if "w_jobs v x = Some k" for x k
    using that world_okD(5) [OF ok] j grows_keeps(5) [OF g] by (cases "x = sa") (auto simp: v_def job_ok_def)
  have tcs: "egress_ok v x y" if "w_tc v x = Some y" for x y using that new old by (cases "x = ?a") (auto simp: v_def)
  have "world_ok v" unfolding world_ok_def using relay_inv_evolves [OF e world_okD(1) [OF ok]] jobs tcs world_okD(2,3) [OF ok] grows_keeps(3) [OF g] hv
    by (auto simp: v_def)
  then show ?thesis using True by (simp add: dial_publish_def Let_def v_def r_def wok_tame)
qed

lemma wok_round:
  assumes "world_ok w" shows "world_ok (loop_round now d eof sa a w)"
proof -
  let ?e = "\<lambda>x. fst (snd (relay_round now x eof True (heap (w_reg w) a)))"
  have 1: "world_ok (w\<lparr>w_reg := put a (?e x) (w_reg w), w_events := ev\<rparr>)" for x ev
    using wok_fields(1) [OF wok_put [OF assms quiet_relay_round]] by simp
  have 2: "world_ok (w\<lparr>w_reg := put a (?e x) (w_reg w), w_events := ev, w_crashed := True\<rparr>)" for x ev
    using wok_fields(3) [OF 1] by simp
  show ?thesis using assms unfolding loop_round_def Let_def case_prod_beta
    by (simp add: 1 2 wok_phase_plain split: readGate.split round_end.split)
qed

lemma wok_inline_exit: "world_ok w \<Longrightarrow> world_ok (inline_exit sa j l w)"
  unfolding inline_exit_def Let_def by (auto intro!: wok)

lemma wok_inline:
  assumes ok: "world_ok w" and l: "w_slots w (dj_slot j) = Some l"
  shows "world_ok (inline_round N d eof wr sa j l w)"
proof -
  have "world_ok (upd_slot (dj_slot j) (\<lambda>_. say N f p l) w)" for f p using l by (intro wok_slot [OF ok]) simp
  then show ?thesis using ok unfolding inline_round_def Let_def
    by (auto intro!: wok_inline_exit wok_credit split: readGate.split)
qed

lemma wok_activate:
  assumes "world_ok w" shows "world_ok (dial_activate sa w)"
proof -
  have "world_ok (set_phase sa Activated (upd_wss sa (\<lambda>_. s') w))" if "w_str w sa = Some s" "Activate_begin s = Some s'" for s s'
    using wok_step [OF assms that(1), of WActivate s'] that by (intro wok_phase_plain) simp_all
  then show ?thesis using assms by (auto simp: dial_activate_def bind_eq_Some_conv split: option.split)
qed

lemma wok_flush:
  assumes "world_ok w" shows "world_ok (flush_step ok sa w)"
proof -
  have "world_ok (upd_wss sa (\<lambda>_. s') w)" if "w_str w sa = Some s" "Activate_flush x s = Some s'" for s s' x
    using wok_step [OF assms that(1), of "WFlush x" s'] that by simp
  then show ?thesis using assms by (auto simp: flush_step_def bind_eq_Some_conv split: option.split)
qed

lemma wok_writer:
  assumes "world_ok w" shows "world_ok (stream_writer p ok sa w)"
proof -
  have "world_ok (upd_wss sa (\<lambda>_. s') w)" if "w_str w sa = Some s" "writer_step p x s = Some s'" for s s' x
    using wok_step [OF assms that(1), of "WWriter p x" s'] that by simp
  then show ?thesis using assms by (auto simp: stream_writer_def Let_def wok_signal split: option.split)
qed

lemma wok_reply:
  assumes ok: "world_ok w" and j: "w_jobs w sa = Some j" and l: "w_slots w (dj_slot j) = Some l"
  shows "world_ok (dial_reply N up sa j l w)"
proof -
  let ?c = "if l_mig l \<and> up then l_client l else []"
  have "world_ok (set_phase sa (Replied ?c) (upd_slot (dj_slot j) (connect_reply N sid body) w))" for sid body
  proof (rule wok_phase [OF wok_tame [OF ok]])
    have "l_client (connect_reply N sid body l) = l_client l" using tame_say(2) [of l N sid body] by (simp add: tame_def)
    then show "named (upd_slot (dj_slot j) (connect_reply N sid body) w) (dj_slot j') c"
      if "w_jobs (upd_slot (dj_slot j) (connect_reply N sid body) w) sa = Some j'" "Replied ?c = Replied c" for j' c
      using that j l by (auto simp: named_def client_of_def upd_slot_def)
  qed simp
  then show ?thesis using ok by (simp add: dial_reply_def Let_def)
qed

lemma wok_dial: "world_ok w \<Longrightarrow> world_ok (dial_result N dialed sa j w)" "world_ok w \<Longrightarrow> world_ok (dial_check sa j l w)" "world_ok w \<Longrightarrow> world_ok (dial_hook sa a w)"
  by (simp_all add: dial_result_def dial_check_def dial_hook_def Let_def wok_leave wok_tame wok_phase_plain wok_close)

lemma wok_job_step:
  assumes "world_ok w" "w_jobs w sa = Some j" "w_slots w (dj_slot j) = Some l"
  shows "world_ok (job_step st sa j l w)"
proof -
  note jobs = assms(1) wok_dial [OF assms(1)] wok_activate [OF assms(1)] wok_reply [OF assms] wok_publish [OF assms] wok_round [OF assms(1)] wok_inline [OF assms(1,3)]
  show ?thesis by (cases st) (simp_all add: job_step_def Let_def jobs split: jobPhase.split)
qed

lemma wok_ends:
  assumes "world_ok w"
  shows "world_ok (slot_credits b l sids w)" "world_ok (slot_orphan now b l w)" "world_ok (slot_close b l w)"
proof -
  show "world_ok (slot_credits b l sids w)" unfolding slot_credits_def using assms
    by (induction sids arbitrary: w) (simp_all add: wok_credit)
  have "world_ok (v\<lparr>w_reg := snd (session_death now c b (w_reg v))\<rparr>)" if "world_ok v" for v c
    by (rule wok_reg [OF that evolves_death])
  then show "world_ok (slot_orphan now b l w)" unfolding slot_orphan_def Let_def using assms by (simp add: wok_tame)
  have "world_ok (fold (\<lambda>(sid, sa) w. if l_mig l \<and> l_client l \<noteq> [] \<and> reg_find (l_client l) sid (w_reg w) \<noteq> None
        then upd_wss sa CloseKeepTarget w else close_wss sa w) xs v)" if "world_ok v" for xs v
    using that by (induction xs arbitrary: v) (auto simp: wok_close)
  then show "world_ok (slot_close b l w)" unfolding slot_close_def using assms by (simp add: wok_tame)
qed

lemma wok_start:
  assumes ok: "world_ok w" and n: "w_slots w b = None" and l: "l_streams l = []"
  shows "world_ok (w\<lparr>w_slots := (w_slots w)(b \<mapsto> l)\<rparr>)"
proof -
  let ?w = "w\<lparr>w_slots := (w_slots w)(b \<mapsto> l)\<rparr>"
  have h: "home ?w = home w" by (auto simp: home_def)
  have "client_of w \<subseteq>\<^sub>m client_of ?w" using n by (auto simp: map_le_def client_of_def)
  then have g: "grows w ?w" using h by (simp add: grows_def)
  have "table_ok (home w) b l" using l by (simp add: table_ok_def)
  then show ?thesis using world_okD [OF ok] grows_keeps [OF g] egress_grows [OF _ g] h unfolding world_ok_def by simp
qed

lemma wok_timer: "world_ok w \<Longrightarrow> world_ok (w\<lparr>w_reg := relay_step op (w_reg w)\<rparr>)"
  by (rule wok_reg) (simp_all add: evolves_step)

interpretation ws: step_invariant ws_yield world_ok
proof
  fix w y assume ok: "world_ok w"
  show "world_ok (ws_yield y w)"
  proof (cases y)
    case (YStart b sess flow mig client)
    then show ?thesis using ok by (simp add: ws_yield_def wok_start)
  next
    case (YJob sa st)
    then show ?thesis using ok by (simp add: ws_yield_def wok_job_step split: option.split)
  qed (use ok in \<open>simp_all add: ws_yield_def wok_ws_frame wok_send wok_writer wok_flush wok_timer wok_tame wok_ends split: option.split\<close>)
qed

lemma world_ok_start: "relay_inv r \<Longrightarrow> world_ok (ws_world0 r u)"
  by (simp add: world_ok_def ws_world0_def)

subsection \<open>Isolation\<close>

text \<open>C12. Whatever the slots of all clients do and however their goroutines interleave, every stream table
  stays within its bound without duplicate numbers, and every chunk that a target connection
  accepts was sent, on the stream the connection was dialled for, by the slot that dialled it or by
  another slot of the same named client (a stream that has migrated): no client can write to a
  connection of another.\<close>
theorem ws_egress_isolated:
  assumes "w = fold ws_yield ys (ws_world0 (configured_registry pc tot fd odt) u)"
  shows "(\<forall>sa s d. w_str w sa = Some s \<longrightarrow> d \<in> set (ws_written s) \<longrightarrow>
      (\<exists>b sid b'. home w sa = Some (b, sid) \<and> (b', sid, d) \<in> set (w_in w) \<and> same_client w b b')) \<and>
    (\<forall>b l. w_slots w b = Some l \<longrightarrow> distinct (map fst (l_streams l)) \<and> length (l_streams l) \<le> maxStreamsPerSession)"
proof -
  have ok: "world_ok w" unfolding assms by (rule ws.inv_run [OF world_ok_start [OF relay_inv_configured]])
  have "sent_to w sa d" if "w_str w sa = Some s" "d \<in> set (ws_written s)" for sa s d
    using world_okD(3) [OF ok that(1)] that(2) by (simp add: object_ok_def ws_path_def)
  then show ?thesis using world_okD(2) [OF ok] unfolding sent_to_def table_ok_def by blast
qed

subsection \<open>Window updates and the end of a slot\<close>

text \<open>A window update on any slot of the client lets a relay that has run out of credit read again,
  unless the slot still has a credit of its own under that stream number.\<close>

lemma window_update_unblocks:
  assumes "w_slots w b = Some l" "ParseWindowUpdate payload = Ok (sid, delta)" "l_flow l > 0"
    and "l_credits l sid = Some (EntryCredit a) \<or> l_credits l sid = None \<and> l_mig l \<and> l_client l \<noteq> [] \<and> reg_find (l_client l) sid (w_reg w) = Some a"
    and cr: "credit (heap (w_reg w) a) = Some cr" "\<not> cr_closed cr" "available cr + int (unat delta) > 0"
  shows "\<exists>n. read_gate stop (credit (heap (w_reg (ws_window_update b l payload w)) a)) = ReadUpTo (Suc n)"
proof -
  let ?f = "credit_add delta (int (unat (l_flow l)))"
  have "credit (heap (w_reg (ws_window_update b l payload w)) a) = Some (?f cr)"
    using assms by (auto simp: ws_window_update_def upd_credit_def Let_def)
  moreover have "0 < uint (l_flow l)" using assms(3) by (simp add: word_less_def)
  then have "0 < available (?f cr) \<and> \<not> cr_closed (?f cr)" using cr by (auto simp: credit_add_def Let_def)
  then have "read_gate stop (Some (?f cr)) = ReadUpTo (min relayBuf (nat (available (?f cr))))" "0 < min relayBuf (nat (available (?f cr)))"
    by (auto simp: read_gate_def waitForCredit_def relayBuf_def)
  ultimately show ?thesis by (metis gr0_implies_Suc)
qed

text \<open>A failed dial leaves its credit in the table; a stream of that number that later migrates to the slot gets no window update.\<close>

lemma stale_credit_takes_update:
  assumes "w_slots w b = Some l" "ParseWindowUpdate payload = Ok (sid, delta)" "l_credits l sid = Some (OwnCredit cr)"
  shows "w_reg (ws_window_update b l payload w) = w_reg w"
  using assms by (simp add: ws_window_update_def upd_credit_def upd_slot_def Let_def)

lemma slot_close_fold:
  assumes "distinct (map snd xs)" "(sid, sa) \<in> set xs" "w_str w sa = Some s"
  shows "w_str (fold (\<lambda>(sid, sa) w. if P \<and> reg_find c sid (w_reg w) \<noteq> None then upd_wss sa CloseKeepTarget w else close_wss sa w) xs w) sa =
    Some (if P \<and> reg_find c sid (w_reg w) \<noteq> None then CloseKeepTarget s else wsClose s)"
proof -
  let ?f = "\<lambda>(sid, sa) w. if P \<and> reg_find c sid (w_reg w) \<noteq> None then upd_wss sa CloseKeepTarget w else close_wss sa w"
  have reg: "w_reg (?f x v) = w_reg v" for x v by (auto simp: close_wss_def upd_wss_def split: prod.split)
  have other: "w_str (fold ?f ys v) sa = w_str v sa" if "sa \<notin> snd ` set ys" for ys v
    using that by (induction ys arbitrary: v) (auto simp: close_wss_def upd_wss_def)
  show ?thesis using assms
  proof (induction xs arbitrary: w)
    case (Cons x xs)
    show ?case
    proof (cases "x = (sid, sa)")
      case True
      then have "sa \<notin> snd ` set xs" using Cons.prems(1) by auto
      then show ?thesis using other [of xs "?f x w"] True Cons.prems(3) by (auto simp: close_wss_def upd_wss_def)
    next
      case False
      then have "(sid, sa) \<in> set xs" using Cons.prems(2) by auto
      then have "snd x \<noteq> sa" using Cons.prems(1) by (metis distinct.simps(2) image_set list.simps(9) rev_image_eqI snd_conv)
      then have "w_str (?f x w) sa = Some s" using Cons.prems(3) by (cases x) (simp add: close_wss_def upd_wss_def)
      then show ?thesis using Cons.IH [of "?f x w"] Cons.prems(1) \<open>(sid, sa) \<in> set xs\<close> reg [of x w] by simp
    qed
  qed simp
qed

lemma table_targets_distinct:
  assumes "table_ok h b l" shows "distinct (map snd (l_streams l))"
proof -
  have "inj_on snd (set (l_streams l))" using assms unfolding table_ok_def inj_on_def by (metis option.inject prod.collapse prod.inject)
  moreover have "distinct (l_streams l)" using assms by (simp add: table_ok_def distinct_map)
  ultimately show ?thesis by (simp add: distinct_map)
qed


subsection \<open>Two schedules\<close>

text \<open>A frame that the slot's session accepts is dispatched.\<close>

lemma ws_frame_accepts:
  assumes "gcm_ok (n_gcm N)" "w_slots w b = Some l" "l_end l \<noteq> SlotClosed" "l_wait l = None" "\<not> destroyed (l_sess l)" "recvGCM (l_sess l) = Some k"
    and "length nonce = NonceSize" "SessionAcceptSeqNum now (SeqNum c) ((l_sess l)\<lparr>lastActivity := now\<rparr>) = (True, s)"
  shows "ws_frame N now ok b (nonce @ gcm_seal (n_gcm N) k nonce (marshal c) []) w =
    ws_dispatch N now ok b (l\<lparr>l_sess := s\<rparr>) c (w\<lparr>w_slots := (w_slots w)(b \<mapsto> l\<lparr>l_sess := s\<rparr>)\<rparr>)"
proof -
  have "nonce \<noteq> []" using assms(7) by (auto simp: NonceSize_def)
  then show ?thesis using assms DecryptChunkSafe_current [OF assms(1,5,6,7), of now c] by (simp add: ws_frame_def Let_def)
qed

text \<open>One slot of a client with the session of \<open>demo_sender\<close>, and frames for it.\<close>

definition demo_wsenv :: wsEnv where
  "demo_wsenv = \<lparr>n_gcm = tag_gcm, n_pool = zero_pool, n_crypto = xor_crypto, n_master = [], n_post = plain_env\<rparr>"

definition demo_frame :: "chunk \<Rightarrow> bytes" where
  "demo_frame c = zeros 12 @ gcm_seal tag_gcm (replicate 32 2) (zeros 12) (marshal c) []"

definition demo_slot :: "session \<Rightarrow> u32 \<Rightarrow> wsSlot" where
  "demo_slot s flow = \<lparr>l_sess = s, l_flow = flow, l_mig = True, l_client = [65], l_streams = [], l_credits = Map.empty, l_wait = None, l_end = Serving, l_out = []\<rparr>"

definition demo_open :: "session \<Rightarrow> bool" where
  "demo_open s \<longleftrightarrow> \<not> destroyed s \<and> recvGCM s = Some (replicate 32 2)"

lemma demo_frame_accepts:
  assumes "w_slots w 0 = Some l" "l_end l \<noteq> SlotClosed" "l_wait l = None" "demo_open (l_sess l)"
    and "fst (AcceptSeqNum (SeqNum c) (recvWindow (l_sess l)))"
  shows "\<exists>s. demo_open s \<and> recvWindow s = snd (AcceptSeqNum (SeqNum c) (recvWindow (l_sess l))) \<and>
    ws_frame demo_wsenv 0 True 0 (demo_frame c) w = ws_dispatch demo_wsenv 0 True 0 (l\<lparr>l_sess := s\<rparr>) c (w\<lparr>w_slots := (w_slots w)(0 \<mapsto> l\<lparr>l_sess := s\<rparr>)\<rparr>)"
proof -
  let ?s = "(l_sess l)\<lparr>lastActivity := 0, recvWindow := snd (AcceptSeqNum (SeqNum c) (recvWindow (l_sess l)))\<rparr>"
  have "SessionAcceptSeqNum 0 (SeqNum c) ((l_sess l)\<lparr>lastActivity := 0\<rparr>) = (True, ?s)"
    using assms(5) by (simp add: SessionAcceptSeqNum_def case_prod_beta)
  from ws_frame_accepts [of demo_wsenv w 0 l "replicate 32 2" "zeros 12" 0 c ?s True] this assms
  have "ws_frame demo_wsenv 0 True 0 (demo_frame c) w = ws_dispatch demo_wsenv 0 True 0 (l\<lparr>l_sess := ?s\<rparr>) c (w\<lparr>w_slots := (w_slots w)(0 \<mapsto> l\<lparr>l_sess := ?s\<rparr>)\<rparr>)"
    by (simp add: demo_wsenv_def demo_frame_def demo_open_def gcm_ok_tag_gcm NonceSize_def)
  then show ?thesis using assms(4) by (intro exI [of _ ?s]) (simp add: demo_open_def)
qed

text \<open>The dial goroutine from its start to the check, and from there to its relay loop.\<close>

lemma dial_to_check:
  assumes "\<not> w_crashed w" "w_jobs w sa = Some j" "dj_phase j = Dialling" "w_slots w (dj_slot j) = Some l" "l_end l = Serving"
  shows "fold ws_yield [YJob sa (JDial demo_wsenv True), YJob sa JCheck] w = set_phase sa Checked w"
proof -
  have 1: "ws_yield (YJob sa (JDial demo_wsenv True)) w = set_phase sa Dialled w"
    using assms by (simp add: ws_yield_def job_step_def dial_result_def demo_wsenv_def plain_env_def)
  have "ws_yield (YJob sa JCheck) (set_phase sa Dialled w) = set_phase sa Checked (set_phase sa Dialled w)"
    using assms by (simp add: ws_yield_def job_step_def dial_check_def set_phase_def)
  also have "\<dots> = set_phase sa Checked w" using assms(2) by (simp add: set_phase_def)
  finally show ?thesis using 1 by simp
qed

abbreviation to_loop :: "nat \<Rightarrow> wsYield list" where
  "to_loop sa \<equiv> [YJob sa JActivate, YFlush True sa, YJob sa (JReply demo_wsenv True), YJob sa JPublish, YJob sa JHook]"

lemma check_to_loop:
  assumes w: "\<not> w_crashed w" "w_jobs w sa = Some j" "dj_phase j = Checked" "w_slots w (dj_slot j) = Some l" "l_mig l"
    and s: "w_str w sa = Some s" "\<not> ws_target s" "ws_pending s = []" and a: "a = next_addr (w_reg w)"
  shows "\<exists>w' l' s'. fold ws_yield (to_loop sa) w = w' \<and> \<not> w_crashed w' \<and> w_jobs w' sa = Some (j\<lparr>dj_phase := Looping a, dj_entry := Some a\<rparr>) \<and>
    w_reg w' = connect_relay (l_client l) (dj_stream j) (MigrateNonce (l_sess l')) (unat (l_flow l)) (take_credit (dj_stream j) l (w_reg w)) (dj_slot j) (w_reg w) \<and>
    w_slots w' (dj_slot j) = Some l' \<and> l_end l' = l_end l \<and> w_str w' sa = Some s' \<and> ws_target s' \<and> ws_closed s' = ws_closed s"
proof -
  let ?c = "l_client l"
  define sA where "sA = s\<lparr>ws_target := True, ws_connected := True, ws_flush := Some [], ws_pending := []\<rparr>"
  define wA where "wA = set_phase sa Activated (upd_wss sa (\<lambda>_. sA) w)"
  have A: "ws_yield (YJob sa JActivate) w = wA"
    using w s by (simp add: ws_yield_def job_step_def dial_activate_def Activate_begin_def wA_def sA_def)
  define sF where "sF = sA\<lparr>ws_flush := None, ws_writer := WRunning\<rparr>"
  define wF where "wF = upd_wss sa (\<lambda>_. sF) wA"
  have sa: "w_str wA sa = Some sA" "\<not> w_crashed wA" using w(1) s(1) by (simp_all add: wA_def set_phase_def upd_wss_def)
  then have F: "ws_yield (YFlush True sa) wA = wF" by (simp add: ws_yield_def flush_step_def Activate_flush_def sF_def wF_def sA_def)
  have wF: "\<not> w_crashed wF" "w_jobs wF sa = Some (j\<lparr>dj_phase := Activated\<rparr>)" "w_slots wF (dj_slot j) = Some l" "w_str wF sa = Some sF" "w_reg wF = w_reg w"
    using w s(1) by (simp_all add: wF_def wA_def set_phase_def upd_wss_def)
  obtain body where R: "ws_yield (YJob sa (JReply demo_wsenv True)) wF =
      set_phase sa (Replied ?c) (upd_slot (dj_slot j) (connect_reply demo_wsenv (dj_stream j) body) wF)"
    using wF w(5) by (simp add: ws_yield_def job_step_def dial_reply_def flushed_def sF_def Let_def)
  define lR where "lR = connect_reply demo_wsenv (dj_stream j) body l"
  define wR where "wR = set_phase sa (Replied ?c) (upd_slot (dj_slot j) (connect_reply demo_wsenv (dj_stream j) body) wF)"
  have lR: "l_mig lR = l_mig l" "l_client lR = l_client l" "l_flow lR = l_flow l" "l_credits lR = l_credits l" "l_end lR = l_end l"
    by (simp_all add: lR_def connect_reply_def say_def Let_def case_prod_beta)
  have wR: "\<not> w_crashed wR" "w_jobs wR sa = Some (j\<lparr>dj_phase := Replied ?c\<rparr>)" "w_slots wR (dj_slot j) = Some lR" "w_str wR sa = Some sF" "w_reg wR = w_reg w"
    using wF by (simp_all add: wR_def set_phase_def upd_slot_def lR_def)
  have tc: "take_credit (dj_stream j) lR r = take_credit (dj_stream j) l r" for r using lR by (simp add: take_credit_def)
  let ?j = "j\<lparr>dj_phase := Replied ?c\<rparr>"
  define wP where "wP = dial_publish sa ?j lR ?c wR"
  have P: "ws_yield (YJob sa JPublish) wR = wP" using wR w(5) lR(1) by (simp add: ws_yield_def job_step_def wP_def)
  obtain lP where lP: "w_slots wP (dj_slot j) = Some lP" "l_end lP = l_end l" "l_sess lP = l_sess lR"
    using wR lR w(5) by (simp add: wP_def dial_publish_def Let_def upd_slot_def)
  have wP: "\<not> w_crashed wP" "w_jobs wP sa = Some (j\<lparr>dj_phase := Published a, dj_entry := Some a\<rparr>)" "w_str wP sa = Some sF"
    "w_reg wP = connect_relay ?c (dj_stream j) (MigrateNonce (l_sess lP)) (unat (l_flow l)) (take_credit (dj_stream j) l (w_reg w)) (dj_slot j) (w_reg w)"
    using wR lR w(5) tc a lP(3) by (simp_all add: wP_def dial_publish_def Let_def upd_slot_def)
  have H: "ws_yield (YJob sa JHook) wP = dial_hook sa a wP" using wP lP by (simp add: ws_yield_def job_step_def)
  have fold: "fold ws_yield (to_loop sa) w = dial_hook sa a wP" using A F R P H by (simp add: wR_def)
  show ?thesis unfolding fold using wP lP
    by (intro exI [of _ "dial_hook sa a wP"] exI [of _ lP] exI [of _ "set_onWriteErr sF"])
      (simp add: dial_hook_def set_phase_def upd_wss_def set_onWriteErr_def sF_def sA_def)
qed

definition demo_connect :: "relayRegistry \<Rightarrow> u32 \<Rightarrow> u16 \<Rightarrow> bytes \<Rightarrow> wsWorld" where
  "demo_connect r flow sid target =
     fold ws_yield [YStart 0 demo_sender flow True [65], YFrame demo_wsenv 0 True 0 (demo_frame (NewStreamConnectChunk 7 1 sid target))] (ws_world0 r None)"

lemma seq_1_2: "fst (AcceptSeqNum 1 new_window)" "fst (AcceptSeqNum 2 (snd (AcceptSeqNum 1 new_window)))"
  by (simp_all add: AcceptSeqNum_def new_window_def Let_def)

lemma demo_connect_state:
  assumes "target \<noteq> []"
  shows "\<exists>s. demo_open s \<and> recvWindow s = snd (AcceptSeqNum 1 new_window) \<and>
    demo_connect r flow sid target =
      (ws_world0 r None)\<lparr>w_next := 1, w_str := [0 \<mapsto> newPendingWSStream],
        w_jobs := [0 \<mapsto> \<lparr>dj_slot = 0, dj_stream = sid, dj_target = target, dj_phase = Dialling, dj_entry = None\<rparr>],
        w_slots := [0 \<mapsto> (demo_slot s flow)\<lparr>l_streams := [(sid, 0)],
          l_credits := (if flow > 0 then [sid \<mapsto> OwnCredit (newStreamCredit (int (unat flow)))] else Map.empty)\<rparr>]\<rparr>"
proof -
  let ?c = "NewStreamConnectChunk 7 1 sid target"
  define w where "w = (ws_world0 r None)\<lparr>w_slots := [0 \<mapsto> demo_slot demo_sender flow]\<rparr>"
  have w: "ws_yield (YStart 0 demo_sender flow True [65]) (ws_world0 r None) = w"
    by (simp add: ws_yield_def ws_world0_def w_def demo_slot_def)
  have "recvWindow demo_sender = new_window" "demo_open demo_sender" by (simp_all add: demo_open_def demo_sender_def NewSession_def)
  then obtain s where s: "demo_open s" "recvWindow s = snd (AcceptSeqNum 1 new_window)"
    "ws_frame demo_wsenv 0 True 0 (demo_frame ?c) w =
       ws_dispatch demo_wsenv 0 True 0 (demo_slot s flow) ?c (w\<lparr>w_slots := (w_slots w)(0 \<mapsto> demo_slot s flow)\<rparr>)"
    using demo_frame_accepts [of w "demo_slot demo_sender flow" ?c] seq_1_2(1) by (auto simp: w_def demo_slot_def NewStreamConnectChunk_def)
  have d: "ws_dispatch N now ok 0 l ?c v = ws_connect N 0 l (put16 sid @ target) v" for N now ok l v
    by (simp add: ws_dispatch_def NewStreamConnectChunk_def FlagConnect_def FlagData_def)
  have "ws_yield (YFrame demo_wsenv 0 True 0 (demo_frame ?c)) w = ws_connect demo_wsenv 0 (demo_slot s flow) (put16 sid @ target) (w\<lparr>w_slots := (w_slots w)(0 \<mapsto> demo_slot s flow)\<rparr>)"
    using s(3) by (simp add: ws_yield_def d w_def ws_world0_def)
  also have "\<dots> = (ws_world0 r None)\<lparr>w_next := 1, w_str := [0 \<mapsto> newPendingWSStream],
        w_jobs := [0 \<mapsto> \<lparr>dj_slot = 0, dj_stream = sid, dj_target = target, dj_phase = Dialling, dj_entry = None\<rparr>],
        w_slots := [0 \<mapsto> (demo_slot s flow)\<lparr>l_streams := [(sid, 0)],
          l_credits := (if flow > 0 then [sid \<mapsto> OwnCredit (newStreamCredit (int (unat flow)))] else Map.empty)\<rparr>]\<rparr>"
    using assms by (simp add: ws_connect_def registerWSStreamLocked_def maxStreamsPerSession_def upd_slot_def w_def ws_world0_def demo_slot_def)
  finally show ?thesis using s(1,2) w by (auto simp: demo_connect_def)
qed

text \<open>C14. A FIN that arrives while the target is being dialled ends the server process: FIN deletes the stream's
  credit; the dial then registers a relay without credit, and the first bytes the target sends
  make the relay loop call a method of the missing credit, which panics in a goroutine
  without recover.  The client needs one stream on a session with migration; stream number,
  target, window and the bytes are arbitrary.\<close>
theorem fin_during_dial_crashes:
  assumes "target \<noteq> []" "flow > 0" "d \<noteq> []"
  shows "w_crashed (fold ws_yield
    ([YFrame demo_wsenv 0 True 0 (demo_frame (NewStreamFinChunk 7 2 sid)), YJob 0 (JDial demo_wsenv True), YJob 0 JCheck] @ to_loop 0 @ [YJob 0 (JLoop now d eof)])
    (demo_connect (configured_registry pc tot fd odt) flow sid target))"
proof -
  let ?r = "configured_registry pc tot fd odt"
  obtain s where s: "demo_open s" "recvWindow s = snd (AcceptSeqNum 1 new_window)" and w: "demo_connect ?r flow sid target =
      (ws_world0 ?r None)\<lparr>w_next := 1, w_str := [0 \<mapsto> newPendingWSStream],
        w_jobs := [0 \<mapsto> \<lparr>dj_slot = 0, dj_stream = sid, dj_target = target, dj_phase = Dialling, dj_entry = None\<rparr>],
        w_slots := [0 \<mapsto> (demo_slot s flow)\<lparr>l_streams := [(sid, 0)], l_credits := [sid \<mapsto> OwnCredit (newStreamCredit (int (unat flow)))]\<rparr>]\<rparr>"
    using demo_connect_state [OF assms(1), of ?r flow sid] assms(2) by (auto split: if_splits)
  define w1 where "w1 = demo_connect ?r flow sid target"
  define l where "l = (demo_slot s flow)\<lparr>l_streams := [(sid, 0)], l_credits := [sid \<mapsto> OwnCredit (newStreamCredit (int (unat flow)))]\<rparr>"
  let ?c = "NewStreamFinChunk 7 2 sid"
  have l: "w_slots w1 0 = Some l" by (simp add: w1_def w l_def)
  obtain s2 where f: "ws_frame demo_wsenv 0 True 0 (demo_frame ?c) w1 = ws_dispatch demo_wsenv 0 True 0 (l\<lparr>l_sess := s2\<rparr>) ?c (w1\<lparr>w_slots := (w_slots w1)(0 \<mapsto> l\<lparr>l_sess := s2\<rparr>)\<rparr>)"
    using demo_frame_accepts [OF l, of ?c] seq_1_2(2) s by (auto simp: l_def demo_slot_def NewStreamFinChunk_def)
  define w2 where "w2 = ws_yield (YFrame demo_wsenv 0 True 0 (demo_frame ?c)) w1"
  have "ParseStreamID (put16 sid) = (sid, [])" using ParseStreamID_put16 [of sid "[]"] by simp
  then have w2: "\<not> w_crashed w2" "w_jobs w2 0 = Some \<lparr>dj_slot = 0, dj_stream = sid, dj_target = target, dj_phase = Dialling, dj_entry = None\<rparr>"
    "w_str w2 0 = Some (wsClose newPendingWSStream)" "w_slots w2 0 = Some ((demo_slot s2 flow)\<lparr>l_streams := [], l_credits := Map.empty\<rparr>)" "w_reg w2 = ?r"
    using f assms(2) by (simp_all add: w2_def w1_def w ws_yield_def ws_dispatch_def NewStreamFinChunk_def FlagFin_def FlagData_def FlagConnect_def ws_fin_def
        l_def demo_slot_def close_wss_def upd_wss_def upd_slot_def drop_credit_def upd_credit_def del_ws_stream_def fin_relay_def reg_find_def ws_world0_def)
  define w3 where "w3 = set_phase 0 Checked w2"
  have F3: "fold ws_yield [YJob 0 (JDial demo_wsenv True), YJob 0 JCheck] w2 = w3"
    unfolding w3_def by (rule dial_to_check [OF w2(1,2), of "(demo_slot s2 flow)\<lparr>l_streams := [], l_credits := Map.empty\<rparr>"]) (simp_all add: w2 demo_slot_def)
  have w3: "\<not> w_crashed w3" "w_jobs w3 0 = Some \<lparr>dj_slot = 0, dj_stream = sid, dj_target = target, dj_phase = Checked, dj_entry = None\<rparr>"
    "w_str w3 0 = Some (wsClose newPendingWSStream)" "w_slots w3 0 = Some ((demo_slot s2 flow)\<lparr>l_streams := [], l_credits := Map.empty\<rparr>)" "w_reg w3 = ?r"
    using w2 by (simp_all add: w3_def set_phase_def)
  have "take_credit sid ((demo_slot s2 flow)\<lparr>l_streams := [], l_credits := Map.empty\<rparr>) ?r = None" by (simp add: take_credit_def)
  with check_to_loop [OF w3(1,2) _ _ _ w3(3), of "(demo_slot s2 flow)\<lparr>l_streams := [], l_credits := Map.empty\<rparr>" 0] w3(4,5)
  obtain w4 l4 nonce where w4: "fold ws_yield (to_loop 0) w3 = w4" "\<not> w_crashed w4"
    "w_jobs w4 0 = Some \<lparr>dj_slot = 0, dj_stream = sid, dj_target = target, dj_phase = Looping 0, dj_entry = Some 0\<rparr>"
    "w_reg w4 = connect_relay [65] sid nonce (unat flow) None 0 ?r" "w_slots w4 0 = Some l4"
    by (auto simp: demo_slot_def wsClose_def newPendingWSStream_def)
  have e: "heap (w_reg w4) 0 = newRelayEntry [65] sid nonce (unat flow) None 0" using w4(4) by (simp add: connect_relay_def reg_add_def)
  have g: "read_gate (reader_closed (heap (w_reg w4) 0)) (credit (heap (w_reg w4) 0)) = ReadUpTo relayBuf" by (simp add: e read_gate_def newRelayEntry_def)
  have "take relayBuf d \<noteq> []" using assms(3) by (simp add: relayBuf_def)
  then have "snd (snd (relay_round now (take relayBuf d) eof True (heap (w_reg w4) 0))) = RoundPanics"
    by (simp add: e relay_round_def routeDownFrame_def newRelayEntry_def newBoundedBuffer_def byteLen_def Let_def)
  with g have "w_crashed (loop_round now d eof 0 0 w4)" by (simp add: loop_round_def Let_def case_prod_beta)
  then have "w_crashed (ws_yield (YJob 0 (JLoop now d eof)) w4)" using w4(2,3,5) by (simp add: ws_yield_def job_step_def)
  then show ?thesis using F3 w4(1) by (simp add: w1_def [symmetric] w2_def [symmetric])
qed

theorem fin_during_dial_crashes_witness:
  "w_crashed (fold ws_yield
    ([YFrame demo_wsenv 0 True 0 (demo_frame (NewStreamFinChunk 7 2 1)), YJob 0 (JDial demo_wsenv True), YJob 0 JCheck] @ to_loop 0 @ [YJob 0 (JLoop 5 [72] False)])
    (demo_connect (configured_registry 4 16 8 True) 65536 1 (text_bytes ''example.org:80'')))"
  using fin_during_dial_crashes [of "text_bytes ''example.org:80''" 65536 "[72]" 1 5 False 4 16 8 True] by simp

text \<open>C1. A slot that ends between the dial's check and the registration of the relay leaves a relay nobody cleans up:
  the cleanup finds no relay for the stream and closes the stream before it has a target, so
  neither closes the connection; the relay is then registered as active, bound to the closed
  slot.  No grace timer and no eviction touches it, since both act on orphaned relays only.\<close>
theorem late_dial_leaks:
  assumes "target \<noteq> []" "w = fold ws_yield ([YJob 0 (JDial demo_wsenv True), YJob 0 JCheck, YDone 0, YOrphan now 0, YClose 0] @ to_loop 0)
    (demo_connect (configured_registry pc tot fd odt) flow sid target)"
  shows "map_option l_end (w_slots w 0) = Some SlotClosed \<and> egress_open 0 w \<and> reg_find [65] sid (w_reg w) = Some 0 \<and>
    rstate (heap (w_reg w) 0) = stActive \<and> bound (heap (w_reg w) 0) = Some 0 \<and>
    snd (grace_expire 0 (w_reg w)) = w_reg w \<and> evictIdleOrphanExcept t scope ex (w_reg w) = w_reg w"
proof -
  let ?r = "configured_registry pc tot fd odt"
  obtain s where w: "demo_connect ?r flow sid target =
      (ws_world0 ?r None)\<lparr>w_next := 1, w_str := [0 \<mapsto> newPendingWSStream],
        w_jobs := [0 \<mapsto> \<lparr>dj_slot = 0, dj_stream = sid, dj_target = target, dj_phase = Dialling, dj_entry = None\<rparr>],
        w_slots := [0 \<mapsto> (demo_slot s flow)\<lparr>l_streams := [(sid, 0)],
          l_credits := (if flow > 0 then [sid \<mapsto> OwnCredit (newStreamCredit (int (unat flow)))] else Map.empty)\<rparr>]\<rparr>"
    using demo_connect_state [OF assms(1), of ?r flow sid] by blast
  define w1 where "w1 = demo_connect ?r flow sid target"
  define l where "l = (demo_slot s flow)\<lparr>l_streams := [(sid, 0)],
          l_credits := (if flow > 0 then [sid \<mapsto> OwnCredit (newStreamCredit (int (unat flow)))] else Map.empty)\<rparr>"
  have w1: "\<not> w_crashed w1" "w_jobs w1 0 = Some \<lparr>dj_slot = 0, dj_stream = sid, dj_target = target, dj_phase = Dialling, dj_entry = None\<rparr>"
    "w_str w1 0 = Some newPendingWSStream" "w_slots w1 0 = Some l" "w_reg w1 = ?r" by (simp_all add: w1_def w l_def ws_world0_def)
  have l: "l_mig l" "l_client l = [65]" "l_streams l = [(sid, 0)]" "l_end l = Serving" by (simp_all add: l_def demo_slot_def)
  have F1: "fold ws_yield [YJob 0 (JDial demo_wsenv True), YJob 0 JCheck] w1 = set_phase 0 Checked w1"
    by (rule dial_to_check [OF w1(1,2), of l]) (simp_all add: w1 l)
  define w2 where "w2 = fold ws_yield [YDone 0, YOrphan now 0, YClose 0] (set_phase 0 Checked w1)"
  have w2: "\<not> w_crashed w2" "w_jobs w2 0 = Some \<lparr>dj_slot = 0, dj_stream = sid, dj_target = target, dj_phase = Checked, dj_entry = None\<rparr>"
    "w_str w2 0 = Some (wsClose newPendingWSStream)" "w_slots w2 0 = Some (l\<lparr>l_end := SlotClosed\<rparr>)" "w_reg w2 = ?r"
    using w1 l by (simp_all add: w2_def ws_yield_def set_phase_def upd_slot_def slot_orphan_def slot_close_def session_death_def entriesForSession_def
        reg_find_def close_wss_def upd_wss_def)
  from check_to_loop [OF w2(1,2) _ _ _ w2(3), of "l\<lparr>l_end := SlotClosed\<rparr>" 0] w2(4,5) l
  obtain w3 l3 s3 nonce cr where w3: "fold ws_yield (to_loop 0) w2 = w3"
    "w_jobs w3 0 = Some \<lparr>dj_slot = 0, dj_stream = sid, dj_target = target, dj_phase = Looping 0, dj_entry = Some 0\<rparr>"
    "w_reg w3 = connect_relay [65] sid nonce (unat (l_flow l)) cr 0 ?r" "w_slots w3 0 = Some l3" "l_end l3 = SlotClosed"
    "w_str w3 0 = Some s3" "ws_target s3" "\<not> ws_closed s3"
    by (auto simp: wsClose_def newPendingWSStream_def)
  have "w = w3" using assms(2) F1 w3(1) by (simp add: w1_def [symmetric] w2_def)
  have e: "heap (w_reg w3) 0 = newRelayEntry [65] sid nonce (unat (l_flow l)) cr 0" "byClient (w_reg w3) = [(([65], sid), 0)]"
    using w3(3) by (simp_all add: connect_relay_def reg_add_def)
  have act: "rstate (heap (w_reg w3) 0) = stActive" "bound (heap (w_reg w3) 0) = Some 0" "tc_closes (heap (w_reg w3) 0) = 0"
    by (simp_all add: e newRelayEntry_def)
  have "pick_victim (w_reg w3) ex (t - x) None (scope_entries scope (w_reg w3)) = None" for x
    using act by (auto simp: scope_entries_def e(2))
  then have ev: "evictIdleOrphanExcept t scope ex (w_reg w3) = w_reg w3" by (simp add: evictIdleOrphanExcept_def Let_def)
  have gr: "snd (grace_expire 0 (w_reg w3)) = w_reg w3" using act(1) by (simp add: grace_expire_def)
  have op: "egress_open 0 w3" using w3 act(3) by (simp add: egress_open_def)
  have fi: "reg_find [65] sid (w_reg w3) = Some 0" by (simp add: reg_find_def e(2))
  show ?thesis unfolding \<open>w = w3\<close> using w3(4,5) op fi act(1,2) gr ev by simp
qed

theorem late_dial_leaks_witness:
  "let w = fold ws_yield ([YJob 0 (JDial demo_wsenv True), YJob 0 JCheck, YDone 0, YOrphan 9 0, YClose 0] @ to_loop 0)
      (demo_connect (configured_registry 4 16 8 True) 65536 1 (text_bytes ''example.org:80''))
   in map_option l_end (w_slots w 0) = Some SlotClosed \<and> egress_open 0 w \<and> rstate (heap (w_reg w) 0) = stActive"
  using late_dial_leaks [of "text_bytes ''example.org:80''" _ 9 4 16 8 True 65536 1, OF _ refl] by (simp add: Let_def)


text \<open>A chunk that arrives while the target is dialled, and its flush.\<close>

theorem ws_egress_isolated_witness:
  "let w = fold ws_yield [YFrame demo_wsenv 0 True 0 (demo_frame \<lparr>SessionID = 7, SeqNum = 2, Flags = FlagData, Payload = put16 1 @ [9]\<rparr>),
        YJob 0 (JDial demo_wsenv True), YJob 0 JCheck, YJob 0 JActivate, YFlush True 0] (demo_connect (configured_registry 4 16 8 True) 65536 1 [1])
   in map_option ws_written (w_str w 0) = Some [[9]] \<and>
      (\<exists>b sid b'. home w 0 = Some (b, sid) \<and> (b', sid, [9]) \<in> set (w_in w) \<and> same_client w b b')"
proof -
  let ?c = "\<lparr>SessionID = 7, SeqNum = 2, Flags = FlagData, Payload = put16 1 @ [9]\<rparr>" and ?r = "configured_registry 4 16 8 True"
  define w1 where "w1 = demo_connect ?r 65536 1 [1]"
  obtain s l where s: "demo_open s" "recvWindow s = snd (AcceptSeqNum 1 new_window)" and w1: "\<not> w_crashed w1" "w_jobs w1 0 = Some \<lparr>dj_slot = 0, dj_stream = 1, dj_target = [1], dj_phase = Dialling, dj_entry = None\<rparr>"
    "w_str w1 0 = Some newPendingWSStream" "w_slots w1 0 = Some l" "l_end l = Serving" "l_wait l = None" "l_streams l = [(1, 0)]" "l_sess l = s"
    using demo_connect_state [of "[1]" ?r 65536 1] by (auto simp: w1_def demo_slot_def ws_world0_def)
  obtain s2 where f: "ws_frame demo_wsenv 0 True 0 (demo_frame ?c) w1 = ws_dispatch demo_wsenv 0 True 0 (l\<lparr>l_sess := s2\<rparr>) ?c (w1\<lparr>w_slots := (w_slots w1)(0 \<mapsto> l\<lparr>l_sess := s2\<rparr>)\<rparr>)"
    using demo_frame_accepts [OF w1(4), of ?c] seq_1_2(2) s w1 by auto
  define w2 where "w2 = ws_yield (YFrame demo_wsenv 0 True 0 (demo_frame ?c)) w1"
  define p where "p = newPendingWSStream\<lparr>ws_submitted := [[9]], ws_pending := [[9]]\<rparr>"
  obtain l2 where w2: "\<not> w_crashed w2" "w_jobs w2 0 = Some \<lparr>dj_slot = 0, dj_stream = 1, dj_target = [1], dj_phase = Dialling, dj_entry = None\<rparr>"
    "w_str w2 0 = Some p" "w_slots w2 0 = Some l2" "l_end l2 = Serving"
    using f w1 by (simp add: w2_def ws_yield_def ws_dispatch_def ws_data_def ws_write_def newPendingWSStream_def pendingBufMax_def upd_slot_def upd_wss_def p_def)
  define w3 where "w3 = set_phase 0 Checked w2"
  have F3: "fold ws_yield [YJob 0 (JDial demo_wsenv True), YJob 0 JCheck] w2 = w3"
    unfolding w3_def by (rule dial_to_check [OF w2(1,2), of l2]) (simp_all add: w2)
  define w where "w = fold ws_yield [YJob 0 JActivate, YFlush True 0] w3"
  have "map_option ws_written (w_str w 0) = Some [[9]]" using w2
    by (simp add: w_def w3_def ws_yield_def job_step_def dial_activate_def Activate_begin_def Activate_flush_def flush_step_def egress_open_def
        set_phase_def upd_wss_def p_def newPendingWSStream_def)
  moreover have run: "w = fold ws_yield ([YStart 0 demo_sender 65536 True [65], YFrame demo_wsenv 0 True 0 (demo_frame (NewStreamConnectChunk 7 1 1 [1]))] @
      [YFrame demo_wsenv 0 True 0 (demo_frame ?c), YJob 0 (JDial demo_wsenv True), YJob 0 JCheck, YJob 0 JActivate, YFlush True 0]) (ws_world0 ?r None)"
    using F3 by (simp add: w_def w2_def w1_def demo_connect_def)
  ultimately have "\<exists>b sid b'. home w 0 = Some (b, sid) \<and> (b', sid, [9]) \<in> set (w_in w) \<and> same_client w b b'"
    using ws_egress_isolated [OF run] by (cases "w_str w 0") auto
  moreover have "fold ws_yield [YFrame demo_wsenv 0 True 0 (demo_frame ?c), YJob 0 (JDial demo_wsenv True), YJob 0 JCheck, YJob 0 JActivate, YFlush True 0] w1 = w"
    using F3 by (simp add: w_def w2_def)
  ultimately show ?thesis using \<open>map_option ws_written (w_str w 0) = Some [[9]]\<close> by (simp add: Let_def w1_def)
qed

end
