(* ===== verification/Rl_Signal.thy ===== *)
theory Rl_Signal
  imports Rate_Limit Socks_Front Routing Handshake
begin

section \<open>The rate-limit signal, from server to client\<close>

text \<open>
  Models how a server tells a client that it was rate limited without answering 429: the value
  of the \<open>X-SL-RL\<close> header in its two formats and the value spliced into the decoy page
  (\<open>server/sentinel_emitter.go\<close>, \<open>decoy_snapshots.go\<close>, \<open>decoy_timing.go\<close>), the client's parsers
  (\<open>client/ratelimit_value_parser.go\<close>, \<open>ratelimit_carriers.go\<close>) and the per-host marker that both
  derive (\<open>core/rlpropertyid.go\<close>).  Strings are ASCII, as the code requires of these values.  The
  search for the marker in the page (a regular expression and a JSON decoder) is not modelled.
\<close>

subsection \<open>Numbers\<close>

abbreviation str :: "string \<Rightarrow> gostring" where
  "str \<equiv> map of_char"

abbreviation (input) chr_semi :: byte where "chr_semi \<equiv> 59"
abbreviation (input) chr_eq :: byte where "chr_eq \<equiv> 61"
abbreviation (input) chr_comma :: byte where "chr_comma \<equiv> 44"
abbreviation (input) chr_minus :: byte where "chr_minus \<equiv> 45"
abbreviation (input) chr_plus :: byte where "chr_plus \<equiv> 43"

text \<open>\<open>%d\<close> and \<open>strconv.Atoi\<close>; \<open>wrap64\<close> is the product of 64-bit integers.\<close>

definition print_int :: "int \<Rightarrow> gostring" where
  "print_int n = (if n < 0 then chr_minus # itoa (nat (- n)) else itoa (nat n))"

definition Atoi :: "gostring \<Rightarrow> int option" where
  "Atoi s =
     (let signed = (s \<noteq> [] \<and> (hd s = chr_minus \<or> hd s = chr_plus));
          ds = (if signed then tl s else s);
          v = (if signed \<and> hd s = chr_minus then - int (dec_val ds) else int (dec_val ds))
      in if ds = [] \<or> \<not> list_all is_digit ds \<or> v < - (2 ^ 63) \<or> 2 ^ 63 \<le> v then None else Some v)"

definition wrap64 :: "int \<Rightarrow> int" where
  "wrap64 n = (n + 2 ^ 63) mod 2 ^ 64 - 2 ^ 63"

text \<open>
  \<open>int(d.Seconds())\<close> truncates towards zero.  The code goes through a \<open>float64\<close>, which holds the
  seconds and nanoseconds closely enough up to \<open>2 ^ 23\<close> seconds (97 days); \<open>rl_ok\<close> below keeps to
  that range.
\<close>

definition whole_seconds :: "int \<Rightarrow> int" where
  "whole_seconds d = (if d < 0 then - ((- d) div Second) else d div Second)"

subsection \<open>Server\<close>

record rlSentinel =
  rs_Bucket :: gostring
  rs_BurstLeft :: int
  rs_RefillIn :: int
  rs_Exempt :: int

definition rl_core :: "rlSentinel \<Rightarrow> gostring" where
  "rl_core sig = str ''v1;bucket='' @ rs_Bucket sig @ str '';refill_in='' @ print_int (whole_seconds (rs_RefillIn sig)) @
     str '';burst_left='' @ print_int (rs_BurstLeft sig) @ str '';exempt='' @ print_int (rs_Exempt sig)"

definition TrimRight_semi :: "gostring \<Rightarrow> gostring" where
  "TrimRight_semi s = rev (dropWhile (\<lambda>c. c = chr_semi) (rev s))"

definition formatRLStateHeader :: "rlSentinel \<Rightarrow> gostring" where
  "formatRLStateHeader sig = TrimRight_semi (rl_core sig)"

definition writeRateLimitSentinelV2 :: "rlSentinel \<Rightarrow> gostring" where
  "writeRateLimitSentinelV2 info = str ''bucket='' @ rs_Bucket info @ str '',burst_left='' @ print_int (rs_BurstLeft info) @
     str '',refill_in='' @ print_int (whole_seconds (rs_RefillIn info)) @ str ''s,exempt='' @ print_int (rs_Exempt info)"

definition RLStateValueWidth :: nat where "RLStateValueWidth = 80"

definition padToWidth :: "gostring \<Rightarrow> nat \<Rightarrow> gostring" where
  "padToWidth s width = (if length s = width then s else s @ replicate (width - length s) chr_semi)"

definition MakeBaselineValue :: gostring where
  "MakeBaselineValue = padToWidth (str ''v1;bucket=none;refill_in=0;burst_left=100;exempt=0'') RLStateValueWidth"

definition FormatRLStateValue :: "rlSentinel \<Rightarrow> gostring option" where
  "FormatRLStateValue sig =
     (if length (rl_core sig) > RLStateValueWidth then None else Some (padToWidth (rl_core sig) RLStateValueWidth))"

record decoySnapshot =
  ds_HTML :: bytes
  ds_Offset :: nat
  ds_Length :: nat

text \<open>
  \<open>Emit\<close>: the header value, and the body when a snapshot exists; \<open>None\<close>: the caller has to
  serve the page itself.
\<close>

definition Emit :: "(gostring \<rightharpoonup> decoySnapshot) option \<Rightarrow> rlSentinel \<Rightarrow> gostring \<Rightarrow> gostring \<times> bytes option" where
  "Emit snapshots sig key =
     (let k = (if key = [] then str ''index.html'' else key);
          body = (case Option.bind snapshots (\<lambda>m. m k) of
                    None \<Rightarrow> None
                  | Some sn \<Rightarrow>
                      if ds_HTML sn = [] then None
                      else map_option (\<lambda>v. take (ds_Offset sn) (ds_HTML sn) @ v @ drop (ds_Offset sn + ds_Length sn) (ds_HTML sn))
                             (FormatRLStateValue sig))
      in (formatRLStateHeader sig, body))"

subsection \<open>Client\<close>

datatype rlCarrier = NoCarrier | CarrierV1 | CarrierLegacy

record rlSignal =
  rg_Bucket :: gostring
  rg_RefillIn :: int
  rg_BurstLeft :: int
  rg_Exempt :: bool
  rg_Carrier :: rlCarrier

text \<open>\<open>strings.Split\<close> at a one-byte separator, and \<open>strings.Cut\<close> at \<open>=\<close>.\<close>

fun split_at :: "byte \<Rightarrow> gostring \<Rightarrow> gostring list" where
  "split_at sep [] = [[]]"
| "split_at sep (b # bs) =
     (if b = sep then [] # split_at sep bs
      else case split_at sep bs of [] \<Rightarrow> [[b]] | p # ps \<Rightarrow> (b # p) # ps)"

definition Cut_eq :: "gostring \<Rightarrow> (gostring \<times> gostring) option" where
  "Cut_eq s = (case index_byte chr_eq s of None \<Rightarrow> None | Some i \<Rightarrow> Some (take i s, drop (Suc i) s))"

definition field_step :: "gostring \<Rightarrow> (gostring \<rightharpoonup> gostring) \<Rightarrow> (gostring \<rightharpoonup> gostring)" where
  "field_step kv0 found =
     (let kv = TrimSpace kv0
      in if kv = [] then found
         else case Cut_eq kv of
                None \<Rightarrow> if hd kv = 118 then found(str ''v'' \<mapsto> tl kv) else found
              | Some (k, v) \<Rightarrow> found(k \<mapsto> v))"

definition get_field :: "gostring \<Rightarrow> (gostring \<rightharpoonup> gostring) \<Rightarrow> gostring" where
  "get_field k found = (case found k of None \<Rightarrow> [] | Some v \<Rightarrow> v)"

text \<open>
  The signal of the fields, the same code in both parsers; \<open>seconds\<close> is the value of \<open>refill_in\<close>
  (an empty value leaves the default, as \<open>Atoi\<close> fails on it).
\<close>

definition signal_of :: "gostring \<Rightarrow> (gostring \<rightharpoonup> gostring) \<Rightarrow> rlSignal option" where
  "signal_of seconds found =
     (let bucket = get_field (str ''bucket'') found
      in if bucket = [] \<or> bucket = str ''none'' then None
         else Some \<lparr>rg_Bucket = bucket,
                rg_RefillIn = (case Atoi seconds of Some n \<Rightarrow> wrap64 (n * Second) | None \<Rightarrow> 0),
                rg_BurstLeft = (case Atoi (get_field (str ''burst_left'') found) of Some n \<Rightarrow> n | None \<Rightarrow> - 1),
                rg_Exempt = (get_field (str ''exempt'') found = str ''1''),
                rg_Carrier = NoCarrier\<rparr>)"

definition parseRLStateValue :: "gostring \<Rightarrow> rlSignal option" where
  "parseRLStateValue s =
     (let found = fold field_step (split_at chr_semi s) Map.empty
      in if found (str ''v'') \<noteq> Some (str ''1'') then None
         else signal_of (get_field (str ''refill_in'') found) found)"

definition legacy_step :: "gostring \<Rightarrow> (gostring \<rightharpoonup> gostring) \<Rightarrow> (gostring \<rightharpoonup> gostring)" where
  "legacy_step kv found = (case Cut_eq (TrimSpace kv) of None \<Rightarrow> found | Some (k, v) \<Rightarrow> found(k \<mapsto> v))"

definition TrimSuffix_s :: "gostring \<Rightarrow> gostring" where
  "TrimSuffix_s v = (if v \<noteq> [] \<and> last v = 115 then butlast v else v)"

definition parseRLStateLegacyHeader :: "gostring \<Rightarrow> rlSignal option" where
  "parseRLStateLegacyHeader s =
     (let found = fold legacy_step (split_at chr_comma s) Map.empty
      in signal_of (TrimSuffix_s (get_field (str ''refill_in'') found)) found)"

definition HeaderCarrier_Detect :: "gostring \<Rightarrow> rlSignal option" where
  "HeaderCarrier_Detect v =
     (if v = [] then None
      else case (if chr_semi \<in> set v \<and> hd v = 118 then parseRLStateValue v else None) of
             Some sig \<Rightarrow> Some (sig\<lparr>rg_Carrier := CarrierV1\<rparr>)
           | None \<Rightarrow> map_option (\<lambda>sig. sig\<lparr>rg_Carrier := CarrierLegacy\<rparr>) (parseRLStateLegacyHeader v))"

subsection \<open>The per-host marker\<close>

definition trim_suffix_dot :: "gostring \<Rightarrow> gostring" where
  "trim_suffix_dot h = (if h \<noteq> [] \<and> last h = chr_dot then butlast h else h)"

definition NormalizeRLHost :: "gostring \<Rightarrow> gostring" where
  "NormalizeRLHost host =
     (let h = TrimSpace (map lower_byte host)
      in if h = [] then []
         else if hd h = chr_lbrack then
           (case index_byte chr_rbrack h of Some e \<Rightarrow> if e > 0 then drop 1 (take e h) else tl h | None \<Rightarrow> tl h)
         else let h1 = (if count_list h chr_colon = 1
                        then (case last_byte chr_colon h of Some i \<Rightarrow> if i > 0 then take i h else h | None \<Rightarrow> h) else h)
              in trim_suffix_dot h1)"

definition SignalHost :: "gostring \<Rightarrow> gostring \<Rightarrow> gostring" where
  "SignalHost sniOverride dialAddr =
     (if sniOverride \<noteq> [] then sniOverride
      else if dialAddr = [] then []
      else if NormalizeRLHost dialAddr \<noteq> [] then NormalizeRLHost dialAddr
      else dialAddr)"

definition LegacyRLPropertyID :: gostring where "LegacyRLPropertyID = str ''rl-state''"

definition rlPropertyIDContext :: gostring where "rlPropertyIDContext = str ''shadowlink/rl-propertyid/v1''"

definition rlPropertyIDShapes :: "(gostring \<times> nat) list" where
  "rlPropertyIDShapes = [(str ''sku-'', 3), (str ''item-'', 3), (str ''cat-'', 2), (str ''ref-'', 3), (str ''pid-'', 3), (str ''prod-'', 2),
     (str ''asset-'', 3), (str ''variant-'', 2), (str ''listing-'', 3), (str ''catalog-'', 2), (str ''inv-'', 3), (str ''model-'', 3)]"

text \<open>\<open>%03d\<close> and the like; \<open>mod\<close> of a shape is ten to the number of its digits.\<close>

definition pad_num :: "nat \<Rightarrow> nat \<Rightarrow> gostring" where
  "pad_num w n = replicate (w - length (itoa n)) 48 @ itoa n"

definition DeriveRLPropertyID :: "crypto \<Rightarrow> gostring \<Rightarrow> gostring" where
  "DeriveRLPropertyID C host =
     (let h = NormalizeRLHost host
      in if h = [] then LegacyRLPropertyID
         else let sum = hmac C rlPropertyIDContext h;
                  (label, w) = rlPropertyIDShapes ! (unat (sum ! 0) mod length rlPropertyIDShapes);
                  n = (256 * unat (sum ! 1) + unat (sum ! 2)) mod (10 ^ w)
              in label @ pad_num w n)"

definition acceptsPropertyID :: "crypto \<Rightarrow> gostring \<Rightarrow> gostring \<Rightarrow> bool" where
  "acceptsPropertyID C pid host \<longleftrightarrow>
     pid \<noteq> [] \<and> (pid = LegacyRLPropertyID \<or> host \<noteq> [] \<and> pid = DeriveRLPropertyID C host)"

subsection \<open>Printing and parsing\<close>

lemma digit_plain: "is_digit c \<Longrightarrow> \<not> is_space c \<and> c \<noteq> chr_semi \<and> c \<noteq> chr_comma \<and> c \<noteq> chr_eq \<and> c \<noteq> chr_minus \<and> c \<noteq> chr_plus \<and> c \<noteq> 115"
  using order_trans [of 48 c 13] by (auto simp: is_digit_def is_space_def)

lemma Atoi_print_int:
  assumes "- (2 ^ 63) \<le> n" "n < 2 ^ 63" shows "Atoi (print_int n) = Some n"
proof (cases "n < 0")
  case True
  then show ?thesis using assms itoa_digits [of "nat (- n)"] by (simp add: print_int_def Atoi_def Let_def dec_val_itoa)
next
  case False
  obtain c cs where c: "itoa (nat n) = c # cs" by (cases "itoa (nat n)") auto
  then have "is_digit c" using itoa_digits [of "nat n"] by simp
  then have "hd (itoa (nat n)) \<noteq> chr_minus \<and> hd (itoa (nat n)) \<noteq> chr_plus" using digit_plain c by simp
  then show ?thesis using False assms itoa_digits [of "nat n"] by (simp add: print_int_def Atoi_def Let_def dec_val_itoa)
qed

text \<open>A number in a value: no separator in it, and nothing to trim at its end.\<close>

definition plain :: "gostring \<Rightarrow> bool" where
  "plain v \<longleftrightarrow> v \<noteq> [] \<and> \<not> is_space (last v) \<and> chr_semi \<notin> set v \<and> chr_comma \<notin> set v"

lemma plain_print_int: "plain (print_int n)" "last (print_int n) \<noteq> 115" "is_digit (last (print_int n))"
proof -
  have l: "is_digit (last (itoa m))" for m using itoa_digits [of m] by (simp add: list_all_iff)
  then show d: "is_digit (last (print_int n))" by (simp add: print_int_def)
  have "c \<in> set (print_int n) \<Longrightarrow> is_digit c \<or> c = chr_minus" for c
    using itoa_digits by (auto simp: print_int_def list_all_iff split: if_splits)
  then have "59 \<notin> set (print_int n)" "44 \<notin> set (print_int n)" using digit_plain [of 59] digit_plain [of 44] by fastforce+
  moreover have "print_int n \<noteq> []" by (simp add: print_int_def)
  ultimately show "plain (print_int n)" using digit_plain [OF d] by (simp add: plain_def)
  show "last (print_int n) \<noteq> 115" using d digit_plain by blast
qed

lemma TrimSpace_id: "s \<noteq> [] \<Longrightarrow> \<not> is_space (hd s) \<Longrightarrow> \<not> is_space (last s) \<Longrightarrow> TrimSpace s = s"
proof -
  assume s: "s \<noteq> []" "\<not> is_space (hd s)" "\<not> is_space (last s)"
  then have 1: "dropWhile is_space s = s" by (cases s) auto
  have "dropWhile is_space (rev s) = rev s" using s by (cases "rev s") (auto simp: last_rev rev_eq_Cons_iff hd_rev dest: arg_cong [of _ _ hd])
  then show ?thesis using 1 by (simp add: TrimSpace_def)
qed

lemma index_byte_first: "c \<notin> set a \<Longrightarrow> index_byte c (a @ c # b) = Some (length a)"
  by (induction a) auto

lemma Cut_field: "chr_eq \<notin> set k \<Longrightarrow> Cut_eq (k @ chr_eq # v) = Some (k, v)"
  by (simp add: Cut_eq_def index_byte_first)

lemma trim_field:
  assumes "k \<noteq> []" "\<not> is_space (hd k)" "plain v"
  shows "TrimSpace (k @ chr_eq # v) = k @ chr_eq # v"
  using assms by (intro TrimSpace_id) (simp_all add: plain_def)

lemma split_at_nonempty: "split_at sep s \<noteq> []"
  by (induction s) (auto split: list.split)

lemma split_at_append: "split_at sep (a @ sep # b) = split_at sep a @ split_at sep b"
proof (induction a)
  case (Cons x a) then show ?case using split_at_nonempty [of sep a] by (auto split: list.split)
qed simp

lemma split_at_plain: "sep \<notin> set a \<Longrightarrow> split_at sep a = [a]"
  by (induction a) auto

lemma split_at_field: "sep \<notin> set a \<Longrightarrow> split_at sep (a @ sep # b) = a # split_at sep b"
  by (simp add: split_at_append split_at_plain)

lemma split_at_pad: "split_at sep (replicate n sep) = replicate (Suc n) []"
  by (induction n) simp_all

lemma fold_pad: "fold field_step (replicate n []) found = found"
  by (induction n) (simp_all add: field_step_def TrimSpace_def)

abbreviation rl_field :: "string \<Rightarrow> gostring \<Rightarrow> gostring" where
  "rl_field k v \<equiv> str k @ chr_eq # v"

definition key_ok :: "gostring \<Rightarrow> bool" where
  "key_ok k \<longleftrightarrow> k \<noteq> [] \<and> \<not> is_space (hd k) \<and> chr_eq \<notin> set k \<and> chr_semi \<notin> set k \<and> chr_comma \<notin> set k"

lemma keys_ok: "key_ok (str ''bucket'')" "key_ok (str ''refill_in'')" "key_ok (str ''burst_left'')" "key_ok (str ''exempt'')"
  by (simp_all add: key_ok_def is_space_def)

lemma step_field:
  assumes "key_ok k" "plain v"
  shows "field_step (k @ chr_eq # v) found = found(k \<mapsto> v)" "legacy_step (k @ chr_eq # v) found = found(k \<mapsto> v)"
    "chr_semi \<notin> set (k @ chr_eq # v)" "chr_comma \<notin> set (k @ chr_eq # v)"
  using assms trim_field [of k v] Cut_field [of k v] by (auto simp: field_step_def legacy_step_def key_ok_def plain_def Let_def)

lemma step_version: "field_step (str ''v1'') found = found(str ''v'' \<mapsto> str ''1'')"
  by (simp add: field_step_def TrimSpace_def is_space_def Cut_eq_def)

text \<open>The fields that the printed values have, and the signal they give.\<close>

definition rl_fields :: "rlSentinel \<Rightarrow> gostring \<Rightarrow> (gostring \<rightharpoonup> gostring) \<Rightarrow> bool" where
  "rl_fields sig seconds found \<longleftrightarrow> found (str ''bucket'') = Some (rs_Bucket sig) \<and> found (str ''refill_in'') = Some seconds \<and>
     found (str ''burst_left'') = Some (print_int (rs_BurstLeft sig)) \<and> found (str ''exempt'') = Some (print_int (rs_Exempt sig))"

definition rl_expected :: "rlSentinel \<Rightarrow> rlSignal" where
  "rl_expected sig = \<lparr>rg_Bucket = rs_Bucket sig, rg_RefillIn = whole_seconds (rs_RefillIn sig) * Second, rg_BurstLeft = rs_BurstLeft sig,
     rg_Exempt = (rs_Exempt sig = 1), rg_Carrier = NoCarrier\<rparr>"

text \<open>
  What the server puts in: a bucket label that the formats can carry, 64-bit integers, a refill time
  below 97 days.
\<close>

definition rl_ok :: "rlSentinel \<Rightarrow> bool" where
  "rl_ok sig \<longleftrightarrow> plain (rs_Bucket sig) \<and> rs_Bucket sig \<noteq> str ''none'' \<and> - (2 ^ 63) \<le> rs_BurstLeft sig \<and> rs_BurstLeft sig < 2 ^ 63 \<and>
     \<bar>rs_RefillIn sig\<bar> < 2 ^ 23 * Second \<and> - (2 ^ 63) \<le> rs_Exempt sig \<and> rs_Exempt sig < 2 ^ 63"

lemma whole_seconds_bound:
  "\<bar>whole_seconds d * Second\<bar> \<le> \<bar>d\<bar>" "\<bar>whole_seconds d\<bar> \<le> \<bar>d\<bar>"
proof -
  have S: "0 < Second" by (simp add: Second_def)
  have p: "x div Second * Second \<le> x \<and> 0 \<le> x div Second" if "0 \<le> x" for x :: int
    using that S pos_mod_sign [OF S, of x] div_mult_mod_eq [of x Second] pos_imp_zdiv_nonneg_iff [OF S, of x] by linarith
  have e: "\<bar>whole_seconds d\<bar> = \<bar>d\<bar> div Second"
    using p [of d] p [of "- d"] by (auto simp: whole_seconds_def)
  then show *: "\<bar>whole_seconds d * Second\<bar> \<le> \<bar>d\<bar>"
    using p [of "\<bar>d\<bar>"] S by (simp add: abs_mult)
  have "\<bar>whole_seconds d\<bar> * 1 \<le> \<bar>whole_seconds d\<bar> * Second" using S by (intro mult_left_mono) auto
  then show "\<bar>whole_seconds d\<bar> \<le> \<bar>d\<bar>"
    using * S by (simp add: abs_mult)
qed

lemma fold_last_field:
  assumes "chr_semi \<notin> set a"
  shows "fold field_step (split_at chr_semi (a @ replicate n chr_semi)) found = field_step a found"
proof (cases n)
  case 0 then show ?thesis using assms by (simp add: split_at_plain)
next
  case (Suc m)
  then have "split_at chr_semi (a @ replicate n chr_semi) = a # replicate (Suc m) []"
    using assms by (simp add: split_at_field split_at_pad)
  then show ?thesis using fold_pad [of "Suc m"] by (simp del: replicate_Suc)
qed

lemma signal_of_fields:
  assumes "rl_ok sig" "rl_fields sig seconds' found" "seconds = print_int (whole_seconds (rs_RefillIn sig))"
  shows "signal_of seconds found = Some (rl_expected sig)"
proof -
  let ?n = "whole_seconds (rs_RefillIn sig)"
  have b: "\<bar>rs_RefillIn sig\<bar> < 2 ^ 23 * Second" using assms(1) by (simp add: rl_ok_def)
  then have "\<bar>?n\<bar> < 2 ^ 63" "\<bar>?n * Second\<bar> < 2 ^ 63"
    using whole_seconds_bound [of "rs_RefillIn sig"] by (simp_all add: Second_def)
  then have n: "Atoi seconds = Some ?n" "wrap64 (?n * Second) = ?n * Second"
    unfolding assms(3) by (auto intro!: Atoi_print_int simp: wrap64_def)
  have e: "print_int (rs_Exempt sig) = str ''1'' \<longleftrightarrow> rs_Exempt sig = 1"
  proof
    assume "print_int (rs_Exempt sig) = str ''1''"
    then have "Atoi (print_int (rs_Exempt sig)) = Atoi (str ''1'')" by simp
    moreover have "Atoi (str ''1'') = Some 1" by (simp add: Atoi_def dec_val_def is_digit_def)
    ultimately show "rs_Exempt sig = 1" using assms(1) by (simp add: Atoi_print_int rl_ok_def)
  next
    assume "rs_Exempt sig = 1" then show "print_int (rs_Exempt sig) = str ''1''" by (simp add: print_int_def itoa.simps)
  qed
  have l: "Atoi (print_int (rs_BurstLeft sig)) = Some (rs_BurstLeft sig)" using assms(1) by (simp add: Atoi_print_int rl_ok_def)
  show ?thesis using assms(1,2) by (simp add: signal_of_def rl_fields_def get_field_def rl_ok_def rl_expected_def plain_def n l e [simplified])
qed

lemma parse_padded:
  assumes "rl_ok sig" shows "parseRLStateValue (rl_core sig @ replicate n chr_semi) = Some (rl_expected sig)"
proof -
  let ?f = "fold field_step (split_at chr_semi (rl_core sig @ replicate n chr_semi)) Map.empty"
  let ?r = "print_int (whole_seconds (rs_RefillIn sig))"
  let ?m = "[str ''v'' \<mapsto> str ''1'', str ''bucket'' \<mapsto> rs_Bucket sig, str ''refill_in'' \<mapsto> ?r, str ''burst_left'' \<mapsto> print_int (rs_BurstLeft sig),
    str ''exempt'' \<mapsto> print_int (rs_Exempt sig)]"
  have v: "chr_semi \<notin> set (str ''v1'')" by simp
  have b: "plain (rs_Bucket sig)" using assms by (simp add: rl_ok_def)
  note f = step_field [OF keys_ok(1) b] step_field [OF keys_ok(2) plain_print_int(1)] step_field [OF keys_ok(3) plain_print_int(1)]
    step_field [OF keys_ok(4) plain_print_int(1)]
  have c: "rl_core sig @ replicate n chr_semi = str ''v1'' @ chr_semi # (rl_field ''bucket'' (rs_Bucket sig) @ chr_semi #
    (rl_field ''refill_in'' ?r @ chr_semi # (rl_field ''burst_left'' (print_int (rs_BurstLeft sig)) @ chr_semi #
    (rl_field ''exempt'' (print_int (rs_Exempt sig)) @ replicate n chr_semi))))"
    by (simp add: rl_core_def)
  have F: "?f = ?m"
    unfolding c split_at_field [OF v] split_at_field [OF f(3)] split_at_field [OF f(7)] split_at_field [OF f(11)] fold.simps o_apply
      fold_last_field [OF f(15)] step_version f ..
  then have "rl_fields sig ?r ?f" by (simp add: rl_fields_def)
  moreover have "get_field (str ''refill_in'') ?f = ?r" "?f (str ''v'') = Some (str ''1'')" unfolding F by (simp_all add: get_field_def)
  ultimately show ?thesis using signal_of_fields [OF assms] by (simp add: parseRLStateValue_def Let_def)
qed

lemma parse_legacy:
  assumes "rl_ok sig" shows "parseRLStateLegacyHeader (writeRateLimitSentinelV2 sig) = Some (rl_expected sig)"
proof -
  let ?f = "fold legacy_step (split_at chr_comma (writeRateLimitSentinelV2 sig)) Map.empty"
  let ?r = "print_int (whole_seconds (rs_RefillIn sig))"
  let ?m = "[str ''bucket'' \<mapsto> rs_Bucket sig, str ''burst_left'' \<mapsto> print_int (rs_BurstLeft sig), str ''refill_in'' \<mapsto> ?r @ [115],
    str ''exempt'' \<mapsto> print_int (rs_Exempt sig)]"
  have b: "plain (rs_Bucket sig)" using assms by (simp add: rl_ok_def)
  have s: "plain (?r @ [115])" using plain_print_int(1) by (auto simp: plain_def is_space_def)
  note f = step_field [OF keys_ok(1) b] step_field [OF keys_ok(3) plain_print_int(1)] step_field [OF keys_ok(2) s]
    step_field [OF keys_ok(4) plain_print_int(1)]
  have c: "writeRateLimitSentinelV2 sig = rl_field ''bucket'' (rs_Bucket sig) @ chr_comma # (rl_field ''burst_left'' (print_int (rs_BurstLeft sig))
    @ chr_comma # (rl_field ''refill_in'' (?r @ [115]) @ chr_comma # rl_field ''exempt'' (print_int (rs_Exempt sig))))"
    by (simp add: writeRateLimitSentinelV2_def)
  have F: "?f = ?m"
    unfolding c split_at_field [OF f(4)] split_at_field [OF f(8)] split_at_field [OF f(12)] split_at_plain [OF f(16)] fold.simps o_apply id_apply f ..
  then have "rl_fields sig (?r @ [115]) ?f" by (simp add: rl_fields_def)
  moreover have "TrimSuffix_s (get_field (str ''refill_in'') ?f) = ?r" unfolding F by (simp add: get_field_def TrimSuffix_s_def)
  ultimately show ?thesis using signal_of_fields [OF assms] by (simp add: parseRLStateLegacyHeader_def Let_def)
qed

lemma header_is_core: "formatRLStateHeader sig = rl_core sig"
proof -
  have "last (rl_core sig) \<noteq> chr_semi" "rl_core sig \<noteq> []"
    using plain_print_int(3) [of "rs_Exempt sig"] plain_print_int(1) [of "rs_Exempt sig"] digit_plain by (auto simp: rl_core_def plain_def)
  then show ?thesis by (cases "rl_core sig" rule: rev_cases) (simp_all add: formatRLStateHeader_def TrimRight_semi_def)
qed

lemma padToWidth_width: "length s \<le> w \<Longrightarrow> length (padToWidth s w) = w"
  by (simp add: padToWidth_def)

lemma padToWidth_eq: "padToWidth s w = s @ replicate (w - length s) chr_semi"
  by (simp add: padToWidth_def)

subsection \<open>Properties\<close>

text \<open>C24. Every rate-limit signal that the server formats reaches the client: the new header, the
  legacy header and the value of the decoy page parse to the bucket, the remaining burst, the whole
  seconds until refill and the exemption of the sentinel, whatever the padding; the header that
  serves no page is recognised by its own format; the page value fills its slot exactly; and
  the baseline that an ordinary visitor is served is no signal.\<close>

theorem rate_limit_signal_roundtrip:
  assumes "rl_ok sig"
  shows "HeaderCarrier_Detect (formatRLStateHeader sig) = Some ((rl_expected sig)\<lparr>rg_Carrier := CarrierV1\<rparr>) \<and>
    HeaderCarrier_Detect (writeRateLimitSentinelV2 sig) = Some ((rl_expected sig)\<lparr>rg_Carrier := CarrierLegacy\<rparr>) \<and>
    (\<forall>v. FormatRLStateValue sig = Some v \<longrightarrow> length v = RLStateValueWidth \<and> parseRLStateValue v = Some (rl_expected sig)) \<and>
    length MakeBaselineValue = RLStateValueWidth \<and> parseRLStateValue MakeBaselineValue = None"
proof (intro conjI allI impI)
  have "rl_core sig \<noteq> []" "chr_semi \<in> set (rl_core sig)" "hd (rl_core sig) = 118" by (simp_all add: rl_core_def)
  then show "HeaderCarrier_Detect (formatRLStateHeader sig) = Some ((rl_expected sig)\<lparr>rg_Carrier := CarrierV1\<rparr>)"
    using parse_padded [OF assms, of 0] by (simp add: HeaderCarrier_Detect_def header_is_core)
  have "writeRateLimitSentinelV2 sig \<noteq> []" "hd (writeRateLimitSentinelV2 sig) \<noteq> 118" by (simp_all add: writeRateLimitSentinelV2_def)
  then show "HeaderCarrier_Detect (writeRateLimitSentinelV2 sig) = Some ((rl_expected sig)\<lparr>rg_Carrier := CarrierLegacy\<rparr>)"
    using parse_legacy [OF assms] by (simp add: HeaderCarrier_Detect_def)
  fix v
  assume v: "FormatRLStateValue sig = Some v"
  then show "length v = RLStateValueWidth" "parseRLStateValue v = Some (rl_expected sig)"
    using parse_padded [OF assms] by (auto simp: FormatRLStateValue_def padToWidth_eq split: if_splits)
next
  show "length MakeBaselineValue = RLStateValueWidth" by (simp add: MakeBaselineValue_def padToWidth_eq RLStateValueWidth_def)
  show "parseRLStateValue MakeBaselineValue = None" by code_simp
qed

definition demo_sentinel :: rlSentinel where
  "demo_sentinel = \<lparr>rs_Bucket = str ''ws_upgrade'', rs_BurstLeft = 0, rs_RefillIn = 2500000000, rs_Exempt = 0\<rparr>"

theorem rate_limit_signal_roundtrip_witness:
  "rl_ok demo_sentinel \<and> HeaderCarrier_Detect (formatRLStateHeader demo_sentinel) =
     Some \<lparr>rg_Bucket = str ''ws_upgrade'', rg_RefillIn = 2000000000, rg_BurstLeft = 0, rg_Exempt = False, rg_Carrier = CarrierV1\<rparr> \<and>
   FormatRLStateValue demo_sentinel \<noteq> None \<and> parseRLStateValue (the (FormatRLStateValue demo_sentinel)) \<noteq> None"
proof -
  have 1: "rl_ok demo_sentinel" by code_simp
  have 2: "rl_expected demo_sentinel = \<lparr>rg_Bucket = str ''ws_upgrade'', rg_RefillIn = 2000000000, rg_BurstLeft = 0, rg_Exempt = False, rg_Carrier = NoCarrier\<rparr>"
    by (simp add: rl_expected_def demo_sentinel_def whole_seconds_def Second_def)
  have 3: "FormatRLStateValue demo_sentinel \<noteq> None" by code_simp
  then obtain v where "FormatRLStateValue demo_sentinel = Some v" by blast
  then show ?thesis using rate_limit_signal_roundtrip [OF 1] 1 2 by simp
qed

text \<open>
  The page keeps its size and every byte outside the slot, so that the signal does not change the
  length of the answer.
\<close>

lemma Emit_only_slot:
  assumes "snd (Emit (Some snapshots) sig key) = Some body" "snapshots (if key = [] then str ''index.html'' else key) = Some sn"
    "ds_Length sn = RLStateValueWidth" "ds_Offset sn + ds_Length sn \<le> length (ds_HTML sn)"
  shows "length body = length (ds_HTML sn)" "take (ds_Offset sn) body = take (ds_Offset sn) (ds_HTML sn)"
    "drop (ds_Offset sn + ds_Length sn) body = drop (ds_Offset sn + ds_Length sn) (ds_HTML sn)"
    "FormatRLStateValue sig = Some (take (ds_Length sn) (drop (ds_Offset sn) body))"
proof -
  obtain v where v: "FormatRLStateValue sig = Some v"
    "body = take (ds_Offset sn) (ds_HTML sn) @ v @ drop (ds_Offset sn + ds_Length sn) (ds_HTML sn)"
    using assms(1,2) by (auto simp: Emit_def Let_def split: if_splits)
  then have "length v = ds_Length sn" using assms(3) by (auto simp: FormatRLStateValue_def padToWidth_eq split: if_splits)
  then show "length body = length (ds_HTML sn)" "take (ds_Offset sn) body = take (ds_Offset sn) (ds_HTML sn)"
    "drop (ds_Offset sn + ds_Length sn) body = drop (ds_Offset sn + ds_Length sn) (ds_HTML sn)"
    "FormatRLStateValue sig = Some (take (ds_Length sn) (drop (ds_Offset sn) body))"
    using v assms(4) by simp_all
qed

subsection \<open>The marker on both sides\<close>

text \<open>A host name as configured, and as normalised.\<close>

definition host_plain :: "gostring \<Rightarrow> bool" where
  "host_plain h \<longleftrightarrow> h \<noteq> [] \<and> (\<forall>c\<in>set h. \<not> is_space c \<and> c \<noteq> chr_colon) \<and> hd h \<noteq> chr_lbrack \<and> last h \<noteq> chr_dot"

lemma lower_byte_cases: "lower_byte c = c \<or> 97 \<le> lower_byte c \<and> lower_byte c \<le> 122"
proof (cases "65 \<le> c \<and> c \<le> 90")
  case True
  then have "unat (c + 32) = unat c + 32" by (simp add: unat_word_ariths word_le_nat_alt)
  then show ?thesis using True by (simp add: lower_byte_def word_le_nat_alt)
next
  case False then show ?thesis by (auto simp: lower_byte_def)
qed

lemma lower_byte_eqI: "P (lower_byte c) \<Longrightarrow> (\<And>d. 97 \<le> d \<Longrightarrow> d \<le> 122 \<Longrightarrow> \<not> P d) \<Longrightarrow> P c"
  using lower_byte_cases [of c] by metis

lemma lower_byte_idem: "lower_byte (lower_byte c) = lower_byte c"
proof -
  have "\<not> (65 \<le> d \<and> d \<le> 90)" if "97 \<le> d" for d :: byte using that order_trans [of 97 d 90] by auto
  then show ?thesis using lower_byte_cases [of c] by (metis lower_byte_def)
qed

lemma lower_sep: "is_space (lower_byte c) \<Longrightarrow> is_space c" "lower_byte c = chr_colon \<Longrightarrow> c = chr_colon"
  "lower_byte c = chr_lbrack \<Longrightarrow> c = chr_lbrack" "lower_byte c = chr_dot \<Longrightarrow> c = chr_dot"
proof -
  have sp: "\<not> is_space d" if "97 \<le> d" for d :: byte using that order_trans [of 97 d 13] by (auto simp: is_space_def)
  show "is_space (lower_byte c) \<Longrightarrow> is_space c" by (rule lower_byte_eqI [of is_space]) (auto simp: sp)
  show "lower_byte c = chr_colon \<Longrightarrow> c = chr_colon" by (rule lower_byte_eqI [of "\<lambda>x. x = chr_colon"]) auto
  show "lower_byte c = chr_lbrack \<Longrightarrow> c = chr_lbrack" by (rule lower_byte_eqI [of "\<lambda>x. x = chr_lbrack"]) auto
  show "lower_byte c = chr_dot \<Longrightarrow> c = chr_dot" by (rule lower_byte_eqI [of "\<lambda>x. x = chr_dot"]) auto
qed

lemma host_plain_lower: "host_plain h \<Longrightarrow> host_plain (map lower_byte h)"
  by (auto simp: host_plain_def hd_map last_map dest: lower_sep)

lemma normalize_plain:
  assumes "host_plain h" "map lower_byte h = h" shows "NormalizeRLHost h = h"
proof -
  have "TrimSpace h = h" using assms(1) by (intro TrimSpace_id) (auto simp: host_plain_def)
  moreover have "count_list h chr_colon = 0" using assms(1) by (auto simp: host_plain_def count_list_0_iff)
  ultimately show ?thesis using assms by (simp add: NormalizeRLHost_def host_plain_def trim_suffix_dot_def)
qed

lemma normalize_port:
  assumes "host_plain h" "port \<noteq> []" "list_all is_digit port"
  shows "NormalizeRLHost (h @ chr_colon # port) = map lower_byte h"
proof -
  let ?l = "map lower_byte h"
  let ?a = "?l @ chr_colon # port"
  have l: "host_plain ?l" using assms(1) by (rule host_plain_lower)
  have d: "lower_byte c = c \<and> c \<noteq> chr_colon" if "is_digit c" for c
    using that order_trans [of 65 c 57] by (auto simp: is_digit_def lower_byte_def)
  have "map lower_byte (h @ chr_colon # port) = ?a" using d assms(3) by (simp add: list_all_iff lower_byte_def map_idI)
  moreover have "is_digit (last port)" using assms(2,3) by (simp add: list_all_iff)
  then have "TrimSpace ?a = ?a" using l assms(2) digit_plain by (intro TrimSpace_id) (auto simp: host_plain_def hd_map)
  moreover have np: "chr_colon \<notin> set port" using d assms(3) by (auto simp: list_all_iff)
  have nh: "chr_colon \<notin> set ?l" using l by (auto simp: host_plain_def)
  have "count_list ?a chr_colon = 1" using np nh by (simp add: count_list_0_iff)
  moreover have "last_byte chr_colon ?a = Some (length ?l)"
    using index_byte_first [of chr_colon "rev port" "rev ?l"] np by (simp add: last_byte_def)
  ultimately show ?thesis using l by (simp add: NormalizeRLHost_def host_plain_def trim_suffix_dot_def)
qed

text \<open>
  A client that dials the host and port of a server, in any case of letters and without a server
  name of its own, accepts the marker that the server derives from its host name.
\<close>

lemma marker_agrees:
  assumes "host_plain host" "port \<noteq> []" "list_all is_digit port" "map lower_byte host' = map lower_byte host" "host_plain host'"
  shows "acceptsPropertyID C (DeriveRLPropertyID C host) (SignalHost [] (host' @ chr_colon # port))"
proof -
  let ?l = "map lower_byte host"
  have l: "host_plain ?l" using assms(1) by (rule host_plain_lower)
  have i: "map lower_byte ?l = ?l" by (simp add: lower_byte_idem)
  have n: "NormalizeRLHost host = ?l"
  proof -
    have "NormalizeRLHost host = NormalizeRLHost ?l" by (simp only: NormalizeRLHost_def i)
    then show ?thesis using normalize_plain [OF l i] by simp
  qed
  have s: "SignalHost [] (host' @ chr_colon # port) = ?l"
    using normalize_port [OF assms(5,2,3)] assms(4) l by (simp add: SignalHost_def host_plain_def)
  have e: "DeriveRLPropertyID C ?l = DeriveRLPropertyID C host"
    using n normalize_plain [OF l i] by (simp add: DeriveRLPropertyID_def)
  have "\<forall>p\<in>set rlPropertyIDShapes. fst p \<noteq> []" by (simp add: rlPropertyIDShapes_def)
  moreover have "rlPropertyIDShapes ! (m mod length rlPropertyIDShapes) \<in> set rlPropertyIDShapes" for m
    by (rule nth_mem) (simp add: rlPropertyIDShapes_def)
  ultimately have "fst (rlPropertyIDShapes ! (m mod length rlPropertyIDShapes)) \<noteq> []" for m by blast
  then have "DeriveRLPropertyID C host \<noteq> []"
    using l n by (auto simp: DeriveRLPropertyID_def host_plain_def Let_def split_def)
  then show ?thesis using l e s by (simp add: acceptsPropertyID_def host_plain_def)
qed

end
