(* ===== verification/Dns_Cache.thy ===== *)
theory Dns_Cache
  imports Replay_Cache Net_Addr "HOL-Library.AList"
begin

section \<open>The response cache of the DNS forwarder\<close>

text \<open>
  Models \<open>client/dnsproxy/cache.go\<close>: the lifetime of an answer, the cache with its bound, and the
  time to live that a client is shown.  The messages are those fields of \<open>dns.Msg\<close> that the code
  reads or writes; times are nanoseconds.  Each operation holds the mutex of the cache, so runs
  are sequences of operations at any times, also when the clock goes back.
\<close>

subsection \<open>Messages\<close>

datatype rdata = DataA bytes | DataSOA u32 | DataOther bytes   \<comment> \<open>\<open>*dns.A\<close>, \<open>*dns.SOA\<close> with its \<open>Minttl\<close>, others\<close>

record dnsRR =
  rr_Name :: gostring
  rr_Rrtype :: u16
  rr_Ttl :: u32
  rr_Data :: rdata

record dnsMsg =
  dm_Id :: u16
  dm_Response :: bool
  dm_Authoritative :: bool
  dm_Truncated :: bool
  dm_RecursionAvailable :: bool
  dm_Rcode :: nat
  dm_Question :: "(gostring \<times> u16) list"
  dm_Answer :: "dnsRR list"
  dm_Ns :: "dnsRR list"
  dm_Extra :: "dnsRR list"

abbreviation (input) TypeA :: u16 where "TypeA \<equiv> 1"
abbreviation (input) TypeNS :: u16 where "TypeNS \<equiv> 2"
abbreviation (input) TypeCNAME :: u16 where "TypeCNAME \<equiv> 5"
abbreviation (input) TypeSOA :: u16 where "TypeSOA \<equiv> 6"
abbreviation (input) TypePTR :: u16 where "TypePTR \<equiv> 12"
abbreviation (input) TypeMX :: u16 where "TypeMX \<equiv> 15"
abbreviation (input) TypeTXT :: u16 where "TypeTXT \<equiv> 16"
abbreviation (input) TypeAAAA :: u16 where "TypeAAAA \<equiv> 28"
abbreviation (input) TypeSRV :: u16 where "TypeSRV \<equiv> 33"
abbreviation (input) TypeOPT :: u16 where "TypeOPT \<equiv> 41"

abbreviation (input) RcodeSuccess :: nat where "RcodeSuccess \<equiv> 0"
abbreviation (input) RcodeFormatError :: nat where "RcodeFormatError \<equiv> 1"
abbreviation (input) RcodeServerFailure :: nat where "RcodeServerFailure \<equiv> 2"
abbreviation (input) RcodeNameError :: nat where "RcodeNameError \<equiv> 3"
abbreviation (input) RcodeRefused :: nat where "RcodeRefused \<equiv> 5"

subsection \<open>Lifetimes\<close>

definition minCacheTTL :: int where "minCacheTTL = 30 * Second"
definition maxCacheTTL :: int where "maxCacheTTL = 3600 * Second"
definition unarbitratedCacheTTL :: int where "unarbitratedCacheTTL = 30 * Second"
definition maxCacheEntries :: nat where "maxCacheEntries = 4096"

fun negative_loop :: "dnsRR list \<Rightarrow> int" where
  "negative_loop [] = 0"
| "negative_loop (r # rs) =
     (case rr_Data r of
        DataSOA minttl \<Rightarrow> int (unat (if minttl < rr_Ttl r then minttl else rr_Ttl r)) * Second
      | _ \<Rightarrow> negative_loop rs)"

definition negativeTTL :: "dnsMsg \<Rightarrow> int" where
  "negativeTTL msg = negative_loop (dm_Ns msg)"

definition minAnswerTTL :: "dnsMsg \<Rightarrow> int" where
  "minAnswerTTL msg =
     (if dm_Answer msg = [] then 0
      else int (unat (fold (\<lambda>r lowest. if rr_Ttl r < lowest then rr_Ttl r else lowest) (dm_Answer msg) (- 1))) * Second)"

definition cacheLifetime :: "dnsMsg \<Rightarrow> int" where
  "cacheLifetime msg =
     (if dm_Rcode msg = RcodeNameError \<or> dm_Answer msg = [] then negativeTTL msg else minAnswerTTL msg)"

definition clampTTL :: "int \<Rightarrow> int" where
  "clampTTL d = (if d < minCacheTTL then minCacheTTL else if d > maxCacheTTL then maxCacheTTL else d)"

definition setRRTTLs :: "u32 \<Rightarrow> dnsRR list \<Rightarrow> dnsRR list" where
  "setRRTTLs ttl = map (\<lambda>r. if rr_Rrtype r = TypeOPT then r else r\<lparr>rr_Ttl := ttl\<rparr>)"

definition decrementRRTTLs :: "u32 \<Rightarrow> dnsRR list \<Rightarrow> dnsRR list" where
  "decrementRRTTLs elapsed = map (\<lambda>r. if rr_Rrtype r = TypeOPT then r
     else if rr_Ttl r > elapsed then r\<lparr>rr_Ttl := rr_Ttl r - elapsed\<rparr> else r\<lparr>rr_Ttl := 0\<rparr>)"

definition stripOPT :: "dnsRR list \<Rightarrow> dnsRR list" where
  "stripOPT rrs = filter (\<lambda>r. rr_Rrtype r \<noteq> TypeOPT) rrs"

subsection \<open>The cache\<close>

type_synonym cacheKey = "gostring \<times> u16"

record cacheEntry =
  ce_msg :: dnsMsg
  ce_storedAt :: instant
  ce_expiresAt :: instant

type_synonym dnsCache = "(cacheKey \<times> cacheEntry) list"

definition newDNSCache :: dnsCache where "newDNSCache = []"

definition cache_get :: "instant \<Rightarrow> cacheKey \<Rightarrow> dnsCache \<Rightarrow> dnsMsg option \<times> dnsCache" where
  "cache_get now key c =
     (case map_of c key of
        None \<Rightarrow> (None, c)
      | Some e \<Rightarrow>
          if \<not> now < ce_expiresAt e then (None, AList.delete key c)
          else let out = ce_msg e;
                   delta = max 0 (now - ce_storedAt e);
                   elapsed = of_int (delta div Second)
               in (Some (out\<lparr>dm_Answer := decrementRRTTLs elapsed (dm_Answer out), dm_Ns := decrementRRTTLs elapsed (dm_Ns out),
                     dm_Extra := decrementRRTTLs elapsed (dm_Extra out)\<rparr>), c))"

text \<open>
  \<open>evictOneLocked\<close>.  A map is visited in an order that the language leaves open; \<open>pick\<close> says which
  of the expired entries, or of all when none has expired, is met first.
\<close>

definition evictOneLocked :: "nat \<Rightarrow> instant \<Rightarrow> dnsCache \<Rightarrow> dnsCache" where
  "evictOneLocked pick now c =
     (let expired = filter (\<lambda>(k, e). \<not> now < ce_expiresAt e) c
      in if expired \<noteq> [] then AList.delete (fst (expired ! (pick mod length expired))) c
         else if c \<noteq> [] then AList.delete (fst (c ! (pick mod length c))) c
         else c)"

definition putWithLifetime :: "nat \<Rightarrow> instant \<Rightarrow> cacheKey \<Rightarrow> dnsMsg \<Rightarrow> int \<Rightarrow> dnsCache \<Rightarrow> dnsCache" where
  "putWithLifetime pick now key msg lifetime c =
     (let secs = of_int (lifetime div Second);
          stored = msg\<lparr>dm_Answer := setRRTTLs secs (dm_Answer msg), dm_Ns := setRRTTLs secs (dm_Ns msg),
                       dm_Extra := setRRTTLs secs (stripOPT (dm_Extra msg))\<rparr>;
          c1 = (if map_of c key = None \<and> length c \<ge> maxCacheEntries then evictOneLocked pick now c else c)
      in AList.update key \<lparr>ce_msg = stored, ce_storedAt = now, ce_expiresAt = now + lifetime\<rparr> c1)"

definition cache_put :: "nat \<Rightarrow> instant \<Rightarrow> cacheKey \<Rightarrow> dnsMsg \<Rightarrow> dnsCache \<Rightarrow> dnsCache" where
  "cache_put pick now key msg c = putWithLifetime pick now key msg (clampTTL (cacheLifetime msg)) c"

definition sweep :: "instant \<Rightarrow> dnsCache \<Rightarrow> (nat \<times> nat) \<times> dnsCache" where
  "sweep now c =
     (let c' = filter (\<lambda>(k, e). now < ce_expiresAt e) c in ((length c - length c', length c'), c'))"

subsection \<open>Runs\<close>

text \<open>The operations of the forwarder on its cache; \<open>PutShort\<close> stores an answer that was not arbitrated.\<close>

datatype cacheOp =
    CGet instant cacheKey
  | CPut nat instant cacheKey dnsMsg
  | CPutShort nat instant cacheKey dnsMsg
  | CSweep instant

fun cache_op :: "cacheOp \<Rightarrow> dnsCache \<Rightarrow> dnsCache" where
  "cache_op (CGet now key) c = snd (cache_get now key c)"
| "cache_op (CPut pick now key msg) c = cache_put pick now key msg c"
| "cache_op (CPutShort pick now key msg) c = putWithLifetime pick now key msg unarbitratedCacheTTL c"
| "cache_op (CSweep now) c = snd (sweep now c)"

subsection \<open>Invariant\<close>

text \<open>
  Keys are distinct and at most \<open>maxCacheEntries\<close>; the lifetime of an entry is a whole number of
  seconds within the limits, no record is an OPT, and every record shows that lifetime.
\<close>

definition lifetime_ok :: "cacheEntry \<Rightarrow> bool" where
  "lifetime_ok e \<longleftrightarrow> (\<exists>n. ce_expiresAt e = ce_storedAt e + int n * Second \<and> 30 \<le> n \<and> n \<le> 3600 \<and>
     (\<forall>r \<in> set (dm_Answer (ce_msg e)) \<union> set (dm_Ns (ce_msg e)) \<union> set (dm_Extra (ce_msg e)).
        rr_Rrtype r \<noteq> TypeOPT \<longrightarrow> rr_Ttl r = of_nat n) \<and>
     (\<forall>r \<in> set (dm_Extra (ce_msg e)). rr_Rrtype r \<noteq> TypeOPT))"

definition cache_ok :: "dnsCache \<Rightarrow> bool" where
  "cache_ok c \<longleftrightarrow> distinct (map fst c) \<and> length c \<le> maxCacheEntries \<and> (\<forall>(k, e) \<in> set c. lifetime_ok e)"

subsection \<open>Every operation keeps the invariant\<close>

lemma whole_seconds_lifetime: "\<exists>m. cacheLifetime msg = int m * Second"
proof -
  have "\<exists>m. negative_loop rs = int m * Second" for rs
  proof (induction rs)
    case (Cons r rs)
    have "\<exists>m. int (unat w) * Second = int m * Second" for w :: u32 by blast
    then show ?case using Cons by (simp split: rdata.split del: of_nat_unat)
  qed (simp add: exI [of _ 0])
  then show ?thesis unfolding cacheLifetime_def negativeTTL_def minAnswerTTL_def by (metis mult_zero_left of_nat_0)
qed

lemma clamp_seconds: "clampTTL (int m * Second) = int (min 3600 (max 30 m)) * Second"
  by (auto simp: clampTTL_def minCacheTTL_def maxCacheTTL_def Second_def min_def max_def)

lemma lifetime_bounds: "\<exists>n. clampTTL (cacheLifetime msg) = int n * Second \<and> 30 \<le> n \<and> n \<le> 3600"
proof -
  obtain m where m: "cacheLifetime msg = int m * Second" using whole_seconds_lifetime by blast
  show ?thesis unfolding m clamp_seconds by (intro exI [of _ "min 3600 (max 30 m)"]) simp
qed

lemma seconds_div: "int n * Second div Second = int n"
  by (simp add: Second_def)

lemma length_cache_delete: "length (AList.delete k c) \<le> length c"
  by (simp add: AList.delete_eq)

lemma delete_shorter: "k \<in> fst ` set c \<Longrightarrow> length (AList.delete k c) < length c"
  by (auto simp: AList.delete_eq split_def intro: length_filter_less)

lemma cache_ok_subset: "cache_ok c \<Longrightarrow> distinct (map fst c') \<Longrightarrow> length c' \<le> length c \<Longrightarrow> set c' \<subseteq> set c \<Longrightarrow> cache_ok c'"
  by (auto simp: cache_ok_def)

lemma cache_ok_delete: "cache_ok c \<Longrightarrow> cache_ok (AList.delete k c)"
  by (rule cache_ok_subset) (auto simp: cache_ok_def distinct_map_filter length_cache_delete AList.delete_eq)

lemma cache_ok_filter: "cache_ok c \<Longrightarrow> cache_ok (filter P c)"
  by (rule cache_ok_subset) (auto simp: cache_ok_def distinct_map_filter)

lemma cache_ok_evict: "cache_ok c \<Longrightarrow> cache_ok (evictOneLocked pick now c)"
  by (auto simp: evictOneLocked_def Let_def cache_ok_delete)

lemma evict_makes_room:
  assumes "c \<noteq> []" shows "length (evictOneLocked pick now c) < length c"
proof -
  let ?x = "filter (\<lambda>(k, e). \<not> now < ce_expiresAt e) c"
  have "?x ! (pick mod length ?x) \<in> set c" if "?x \<noteq> []" using nth_mem [of "pick mod length ?x" ?x] that by auto
  moreover have "c ! (pick mod length c) \<in> set c" using assms by simp
  ultimately show ?thesis using assms by (auto simp: evictOneLocked_def Let_def intro!: delete_shorter)
qed

lemma length_cache_update: "length (AList.update k v c) = (if k \<in> fst ` set c then length c else Suc (length c))"
  by (induction c) auto

lemma set_cache_update: "set (AList.update k v c) \<subseteq> insert (k, v) (set c)"
  by (induction c) auto

lemma cache_ok_put:
  assumes "cache_ok c" "lifetime = int n * Second" "30 \<le> n" "n \<le> 3600"
  shows "cache_ok (putWithLifetime pick now key msg lifetime c)"
proof -
  let ?c = "if map_of c key = None \<and> length c \<ge> maxCacheEntries then evictOneLocked pick now c else c"
  let ?e = "\<lparr>ce_msg = msg\<lparr>dm_Answer := setRRTTLs (of_nat n) (dm_Answer msg), dm_Ns := setRRTTLs (of_nat n) (dm_Ns msg),
    dm_Extra := setRRTTLs (of_nat n) (stripOPT (dm_Extra msg))\<rparr>, ce_storedAt = now, ce_expiresAt = now + lifetime\<rparr>"
  have p: "putWithLifetime pick now key msg lifetime c = AList.update key ?e ?c"
    by (simp add: putWithLifetime_def Let_def assms(2) seconds_div)
  have c: "cache_ok ?c" using assms(1) cache_ok_evict by simp
  have "lifetime_ok ?e" using assms(2-4) unfolding lifetime_ok_def by (intro exI [of _ n]) (auto simp: setRRTTLs_def stripOPT_def)
  then have "\<forall>(k, e) \<in> set (AList.update key ?e ?c). lifetime_ok e" using c set_cache_update [of key ?e ?c] by (auto simp: cache_ok_def)
  moreover have "length (AList.update key ?e ?c) \<le> maxCacheEntries"
  proof (cases "map_of c key = None \<and> length c \<ge> maxCacheEntries")
    case True
    then have "c \<noteq> []" by (auto simp: maxCacheEntries_def)
    then have "length (evictOneLocked pick now c) < maxCacheEntries" using evict_makes_room [of c pick now] assms(1) by (simp add: cache_ok_def)
    then show ?thesis using True by (simp add: length_cache_update)
  next
    case False then show ?thesis using assms(1) by (auto simp: length_cache_update cache_ok_def map_of_eq_None_iff)
  qed
  ultimately show ?thesis using c by (simp add: p cache_ok_def distinct_update)
qed

lemma cache_ok_step: "cache_ok c \<Longrightarrow> cache_ok (cache_op x c)"
proof (cases x)
  case (CGet now key)
  assume "cache_ok c" then show ?thesis using CGet by (simp add: cache_get_def Let_def cache_ok_delete split: option.split)
next
  case (CPut pick now key msg)
  assume "cache_ok c" then show ?thesis using CPut lifetime_bounds [of msg] cache_ok_put by (metis cache_op.simps(2) cache_put_def)
next
  case (CPutShort pick now key msg)
  assume "cache_ok c" then show ?thesis
    using CPutShort cache_ok_put [of c unarbitratedCacheTTL 30] by (simp add: unarbitratedCacheTTL_def)
next
  case (CSweep now)
  assume "cache_ok c" then show ?thesis using CSweep by (simp add: sweep_def Let_def cache_ok_filter)
qed

interpretation dc: step_invariant cache_op cache_ok
  by unfold_locales (rule cache_ok_step)

lemma cache_ok_new: "cache_ok newDNSCache"
  by (simp add: cache_ok_def newDNSCache_def)

subsection \<open>What a hit shows\<close>

lemma seconds_floor: "0 \<le> d \<Longrightarrow> d < int n * Second \<Longrightarrow> d div Second < int n \<and> d div Second * Second \<le> d \<and> d < d div Second * Second + Second"
proof -
  assume d: "0 \<le> d" "d < int n * Second"
  have S: "0 < Second" by (simp add: Second_def)
  have m: "d div Second * Second \<le> d" "d < d div Second * Second + Second"
    using div_mult_mod_eq [of d Second] pos_mod_bound [OF S, of d] pos_mod_sign [OF S, of d] by linarith+
  then have "d div Second * Second < int n * Second" using d by linarith
  then show ?thesis using m mult_less_cancel_right_pos [OF S] by blast
qed

text \<open>
  One record of a hit: with a whole lifetime of \<open>n\<close> seconds, not yet over after \<open>d\<close>, the record
  shows the rest rounded up to a second.
\<close>

lemma decremented_ttl:
  assumes "0 \<le> d" "d < int n * Second" "n \<le> 3600" "rr_Ttl r = of_nat n" "rr_Rrtype r \<noteq> TypeOPT"
    "r' = hd (decrementRRTTLs (of_int (d div Second)) [r])"
  shows "unat (rr_Ttl r') = n - nat (d div Second) \<and> 0 < unat (rr_Ttl r')"
proof -
  define k where "k = nat (d div Second)"
  have S: "0 < Second" by (simp add: Second_def)
  have k: "d div Second = int k" using assms(1) S by (simp add: k_def pos_imp_zdiv_nonneg_iff)
  have "k < n" using seconds_floor [OF assms(1,2)] by (simp add: k)
  moreover have u: "unat (of_nat n :: u32) = n" "unat (of_nat k :: u32) = k"
    using \<open>k < n\<close> assms(3) by (simp_all add: unat_of_nat)
  moreover have "(of_nat k :: u32) < of_nat n" using \<open>k < n\<close> u by (simp add: word_less_nat_alt)
  moreover have "unat (of_nat n - of_nat k :: u32) = n - k"
    using u \<open>k < n\<close> by (subst unat_sub) (simp_all add: word_le_nat_alt)
  ultimately show ?thesis using assms(4-6) by (simp add: decrementRRTTLs_def k)
qed


definition demo_rr :: "bytes \<Rightarrow> u32 \<Rightarrow> dnsRR" where
  "demo_rr ip ttl = \<lparr>rr_Name = [97, 46], rr_Rrtype = TypeA, rr_Ttl = ttl, rr_Data = DataA ip\<rparr>"

definition demo_answer :: "dnsRR list \<Rightarrow> dnsMsg" where
  "demo_answer rrs = \<lparr>dm_Id = 0, dm_Response = True, dm_Authoritative = False, dm_Truncated = False, dm_RecursionAvailable = True,
     dm_Rcode = RcodeSuccess, dm_Question = [([97, 46], TypeA)], dm_Answer = rrs, dm_Ns = [], dm_Extra = []\<rparr>"

definition demo_cache :: dnsCache where
  "demo_cache = fold cache_op [CPut 0 100000000000 ([97, 46], TypeA) (demo_answer [demo_rr [1, 2, 3, 4] 86400])] newDNSCache"


end
