(* ===== verification/Dns_Proxy.thy ===== *)
theory Dns_Proxy
  imports Dns_Cache Rate_Limit Bypass Socks_Front Routing "HOL-Library.Multiset"
begin

section \<open>The split DNS forwarder\<close>

text \<open>
  Models \<open>client/dnsproxy/\<close>: the list of block-page addresses (\<open>stub.go\<close>), the choice between the
  answers of Yandex and Cloudflare (\<open>arbitrate.go\<close>), both resolvers over an abstract exchange
  (\<open>upstream.go\<close>), and the forwarder with its ladder of fallbacks (\<open>proxy.go\<close>).  The functions of the
  DNS library that build and cut messages are fields of the parameter \<open>dnsLib\<close>.  Names are ASCII,
  as the library escapes every other byte.  Listening sockets, timeouts and logs are left out; a
  timeout is an event.
\<close>

subsection \<open>Block pages (stub.go)\<close>

abbreviation bstr :: "string \<Rightarrow> gostring" where "bstr \<equiv> map of_char"

definition builtinStubIPs :: "gostring list" where "builtinStubIPs = [bstr ''89.221.226.6'']"

text \<open>The addresses of a list of strings; what does not parse is skipped.\<close>

definition stub_of :: "gostring \<Rightarrow> ipaddr option" where
  "stub_of s = (if TrimSpace s = [] then None else map_option Unmap (ParseAddr (TrimSpace s)))"

definition buildStubIPSet :: "gostring \<Rightarrow> ipaddr list" where
  "buildStubIPSet extra = remdups (List.map_filter (\<lambda>s. map_option Unmap (ParseAddr s)) builtinStubIPs @ List.map_filter stub_of (split_comma extra))"

definition isStubIP :: "ipaddr list \<Rightarrow> ipaddr \<Rightarrow> bool" where
  "isStubIP stubs ip \<longleftrightarrow> ip \<in> set stubs"

definition setContainsStub :: "ipaddr list \<Rightarrow> ipaddr list \<Rightarrow> bool" where
  "setContainsStub stubs ips \<longleftrightarrow> list_ex (isStubIP stubs) ips"

subsection \<open>Arbitration (arbitrate.go)\<close>

definition a4_of :: "dnsRR \<Rightarrow> ipaddr option" where
  "a4_of r = (case rr_Data r of DataA a \<Rightarrow> map_option IP4 (To4 a) | _ \<Rightarrow> None)"

definition a4Set :: "dnsMsg \<Rightarrow> ipaddr list" where
  "a4Set msg = remdups (List.map_filter a4_of (dm_Answer msg))"

definition containsStubIP :: "ipaddr list \<Rightarrow> dnsMsg \<Rightarrow> bool" where
  "containsStubIP stubs msg \<longleftrightarrow> setContainsStub stubs (a4Set msg)"

definition intersectMinusStubs :: "ipaddr list \<Rightarrow> ipaddr list \<Rightarrow> ipaddr list \<Rightarrow> ipaddr list" where
  "intersectMinusStubs stubs a0 b0 =
     (let (a, b) = (if length b0 < length a0 then (b0, a0) else (a0, b0))
      in filter (\<lambda>ip. ip \<in> set b \<and> \<not> isStubIP stubs ip) a)"

definition filterAnswerA :: "dnsMsg \<Rightarrow> ipaddr list \<Rightarrow> ipaddr list \<Rightarrow> dnsMsg" where
  "filterAnswerA msg keep full =
     (if length keep = length full then msg
      else msg\<lparr>dm_Answer := filter (\<lambda>r. case rr_Data r of
                 DataA a \<Rightarrow> (case To4 a of None \<Rightarrow> False | Some v4 \<Rightarrow> IP4 v4 \<in> set keep)
               | _ \<Rightarrow> True) (dm_Answer msg)\<rparr>)"

datatype branch = branchYandex | branchCloudflareCensored | branchCloudflareForeign | branchYandexGeo

definition arbitrate :: "ipaddr list \<Rightarrow> dnsMsg \<Rightarrow> dnsMsg \<Rightarrow> (ipaddr \<Rightarrow> bool) \<Rightarrow> dnsMsg \<times> branch" where
  "arbitrate stubs y c match =
     (let ySet = a4Set y; cSet = a4Set c; keep = intersectMinusStubs stubs ySet cSet
      in if \<not> list_ex match ySet then (c, branchCloudflareForeign)
         else if keep \<noteq> [] then (filterAnswerA y keep ySet, branchYandex)
         else if cSet = [] \<and> \<not> setContainsStub stubs ySet then (y, branchYandexGeo)
         else (c, branchCloudflareCensored))"

subsection \<open>Resolvers (upstream.go)\<close>

text \<open>The two results of a Go call: an error, no error and no message, or a message.\<close>

datatype exchange = XErr | XNil | XMsg dnsMsg

abbreviation refused :: "dnsMsg \<Rightarrow> bool" where
  "refused m \<equiv> dm_Rcode m = RcodeServerFailure \<or> dm_Rcode m = RcodeRefused"

definition retryTCP :: "exchange \<Rightarrow> dnsMsg \<Rightarrow> dnsMsg" where
  "retryTCP x truncated = (case x of XMsg full \<Rightarrow> if refused full then truncated else full | _ \<Rightarrow> truncated)"

fun plain_Resolve :: "(gostring \<Rightarrow> dnsMsg \<Rightarrow> exchange) \<Rightarrow> (gostring \<Rightarrow> dnsMsg \<Rightarrow> exchange) \<Rightarrow> gostring list \<Rightarrow> dnsMsg \<Rightarrow> exchange" where
  "plain_Resolve udp tcp [] q = XErr"
| "plain_Resolve udp tcp (server # servers) q =
     (case udp server q of
        XMsg resp \<Rightarrow>
          if refused resp then plain_Resolve udp tcp servers q
          else if dm_Truncated resp then XMsg (retryTCP (tcp server q) resp)
          else XMsg resp
      | _ \<Rightarrow> plain_Resolve udp tcp servers q)"

definition maxDoHAttempts :: nat where "maxDoHAttempts = 2"

text \<open>\<open>dead i\<close>: the context of the caller has ended before attempt \<open>i\<close>.\<close>

fun doh_loop :: "(gostring \<Rightarrow> dnsMsg \<Rightarrow> exchange) \<Rightarrow> (nat \<Rightarrow> bool) \<Rightarrow> nat \<Rightarrow> gostring list \<Rightarrow> dnsMsg \<Rightarrow> exchange" where
  "doh_loop query dead i [] q = XErr"
| "doh_loop query dead i (u # us) q =
     (if dead i then XErr
      else case query u q of XErr \<Rightarrow> doh_loop query dead (Suc i) us q | x \<Rightarrow> x)"

definition doh_Resolve :: "(gostring \<Rightarrow> dnsMsg \<Rightarrow> exchange) \<Rightarrow> (nat \<Rightarrow> bool) \<Rightarrow> gostring list \<Rightarrow> dnsMsg \<Rightarrow> exchange" where
  "doh_Resolve query dead upstreams q = doh_loop query dead 0 (take maxDoHAttempts upstreams) q"

subsection \<open>The forwarder (proxy.go)\<close>

record dnsLib =
  lib_CanonicalName :: "gostring \<Rightarrow> gostring"
  lib_SetReply :: "dnsMsg \<Rightarrow> dnsMsg \<Rightarrow> dnsMsg"             \<comment> \<open>the reply, the request\<close>
  lib_SetRcode :: "dnsMsg \<Rightarrow> nat \<Rightarrow> dnsMsg"                \<comment> \<open>of an empty message\<close>
  lib_IsEdns0 :: "dnsMsg \<Rightarrow> u16 option"                     \<comment> \<open>the UDP size of the OPT record\<close>
  lib_SetEdns0 :: "u16 \<Rightarrow> dnsMsg \<Rightarrow> dnsMsg"
  lib_Truncate :: "nat \<Rightarrow> dnsMsg \<Rightarrow> dnsMsg"

record forwarder =
  f_match :: "ipaddr \<Rightarrow> bool"
  f_cfOnly :: bool
  f_bootstrapDomains :: "gostring list"
  f_stubs :: "ipaddr list"       \<comment> \<open>the package variable \<open>knownStubIPs\<close>\<close>
  f_cache :: dnsCache
  f_branchYandexTotal :: u64
  f_branchCensoredTotal :: u64
  f_branchForeignTotal :: u64
  f_branchGeoTotal :: u64
  f_serveNXDOMAINTotal :: u64
  f_serveUnarbitratedTotal :: u64

definition WithBootstrapDomains :: "dnsLib \<Rightarrow> gostring list \<Rightarrow> gostring list" where
  "WithBootstrapDomains L domains = map (lib_CanonicalName L) (filter (\<lambda>d. d \<noteq> []) (map TrimSpace domains))"

definition resolved_Size :: "resolved \<Rightarrow> nat" where
  "resolved_Size r = (case res_include r of None \<Rightarrow> 0 | Some t \<Rightarrow> Size t)"

definition NewForwarder :: "dnsLib \<Rightarrow> gostring \<Rightarrow> resolved option \<Rightarrow> gostring list \<Rightarrow> forwarder" where
  "NewForwarder L env snapshot domains =
     (let (m, cf) = (case snapshot of
                       Some r \<Rightarrow> if resolved_Size r > 0 then (ResolvedMatch r, False) else (\<lambda>_. False, True)
                     | None \<Rightarrow> (\<lambda>_. False, True))
      in \<lparr>f_match = m, f_cfOnly = cf, f_bootstrapDomains = WithBootstrapDomains L domains, f_stubs = buildStubIPSet env,
          f_cache = newDNSCache, f_branchYandexTotal = 0, f_branchCensoredTotal = 0, f_branchForeignTotal = 0, f_branchGeoTotal = 0,
          f_serveNXDOMAINTotal = 0, f_serveUnarbitratedTotal = 0\<rparr>)"

abbreviation on_cache :: "(dnsCache \<Rightarrow> dnsCache) \<Rightarrow> forwarder \<Rightarrow> forwarder" where
  "on_cache g f \<equiv> f\<lparr>f_cache := g (f_cache f)\<rparr>"

definition usableRcode :: "dnsMsg \<Rightarrow> bool" where
  "usableRcode msg \<longleftrightarrow> dm_Rcode msg = RcodeSuccess \<or> dm_Rcode msg = RcodeNameError"

definition yandexIsRU :: "forwarder \<Rightarrow> dnsMsg \<Rightarrow> bool" where
  "yandexIsRU f msg \<longleftrightarrow> list_ex (f_match f) (a4Set msg)"

definition isBootstrapDomain :: "forwarder \<Rightarrow> gostring \<Rightarrow> bool" where
  "isBootstrapDomain f name \<longleftrightarrow> name \<in> set (f_bootstrapDomains f)"

definition recordBranch :: "branch \<Rightarrow> forwarder \<Rightarrow> forwarder" where
  "recordBranch br f = (case br of
      branchYandex \<Rightarrow> f\<lparr>f_branchYandexTotal := f_branchYandexTotal f + 1\<rparr>
    | branchCloudflareCensored \<Rightarrow> f\<lparr>f_branchCensoredTotal := f_branchCensoredTotal f + 1\<rparr>
    | branchCloudflareForeign \<Rightarrow> f\<lparr>f_branchForeignTotal := f_branchForeignTotal f + 1\<rparr>
    | branchYandexGeo \<Rightarrow> f\<lparr>f_branchGeoTotal := f_branchGeoTotal f + 1\<rparr>)"

text \<open>An answer that only Yandex gave: counted, and cached for a short time.\<close>

definition serve_unarbitrated :: "nat \<Rightarrow> instant \<Rightarrow> cacheKey \<Rightarrow> dnsMsg \<Rightarrow> forwarder \<Rightarrow> forwarder" where
  "serve_unarbitrated pick now key msg f =
     on_cache (putWithLifetime pick now key msg unarbitratedCacheTTL) (f\<lparr>f_serveUnarbitratedTotal := f_serveUnarbitratedTotal f + 1\<rparr>)"

definition upstreamEDNSBufSize :: u16 where "upstreamEDNSBufSize = 1232"

definition upstreamQuery :: "dnsLib \<Rightarrow> dnsMsg \<Rightarrow> dnsMsg" where
  "upstreamQuery L r = (if lib_IsEdns0 L r = None then lib_SetEdns0 L upstreamEDNSBufSize r else r)"

text \<open>
  What one resolution meets: the resolvers, the time of the second look at the cache, the time at which
  the answer is stored, and the choice of a map visit.
\<close>

record resolveEnv =
  e_yandex :: "dnsMsg \<Rightarrow> exchange"
  e_cloudflare :: "dnsMsg \<Rightarrow> exchange"
  e_look :: instant
  e_now :: instant
  e_pick :: nat

definition forwardCloudflare :: "dnsLib \<Rightarrow> resolveEnv \<Rightarrow> dnsMsg \<Rightarrow> cacheKey \<Rightarrow> forwarder \<Rightarrow> dnsMsg option \<times> forwarder" where
  "forwardCloudflare L E r key f =
     (case cache_get (e_look E) key (f_cache f) of
        (Some cached, c) \<Rightarrow> (Some cached, f\<lparr>f_cache := c\<rparr>)
      | (None, c) \<Rightarrow>
          let f1 = f\<lparr>f_cache := c\<rparr>
          in (case e_cloudflare E (upstreamQuery L r) of
                XMsg resp \<Rightarrow> if usableRcode resp then (Some resp, on_cache (cache_put (e_pick E) (e_now E) key resp) f1) else (None, f1)
              | _ \<Rightarrow> (None, f1)))"

definition nonAFallbackAllowed :: "u16 \<Rightarrow> bool" where
  "nonAFallbackAllowed qtype \<longleftrightarrow> qtype \<in> {TypeMX, TypeTXT, TypeSRV, TypePTR, TypeNS, TypeSOA, TypeCNAME}"

definition tryServeNonAFallback :: "dnsLib \<Rightarrow> resolveEnv \<Rightarrow> dnsMsg \<Rightarrow> cacheKey \<Rightarrow> forwarder \<Rightarrow> dnsMsg option \<times> forwarder" where
  "tryServeNonAFallback L E q key f =
     (if \<not> nonAFallbackAllowed (snd key) \<or> f_cfOnly f then (None, f)
      else case e_yandex E (upstreamQuery L q) of
             XMsg resp \<Rightarrow> if \<not> usableRcode resp \<or> dm_Rcode resp \<noteq> RcodeSuccess \<or> dm_Answer resp = [] then (None, f)
                          else (Some resp, serve_unarbitrated (e_pick E) (e_now E) key resp f)
           | _ \<Rightarrow> (None, f))"

definition handleNonA :: "dnsLib \<Rightarrow> resolveEnv \<Rightarrow> dnsMsg \<Rightarrow> cacheKey \<Rightarrow> forwarder \<Rightarrow> dnsMsg option \<times> forwarder" where
  "handleNonA L E q key f =
     (case forwardCloudflare L E q key f of
        (Some resp, f1) \<Rightarrow> (Some resp, f1)
      | (None, f1) \<Rightarrow> tryServeNonAFallback L E q key f1)"

definition tryServeBootstrap :: "resolveEnv \<Rightarrow> cacheKey \<Rightarrow> dnsMsg \<Rightarrow> forwarder \<Rightarrow> dnsMsg option \<times> forwarder" where
  "tryServeBootstrap E key msg f =
     (if \<not> isBootstrapDomain f (fst key) \<or> dm_Rcode msg \<noteq> RcodeSuccess \<or> a4Set msg = [] \<or> setContainsStub (f_stubs f) (a4Set msg)
      then (None, f)
      else (Some msg, serve_unarbitrated (e_pick E) (e_now E) key msg f))"

definition usable :: "exchange \<Rightarrow> dnsMsg option" where
  "usable x = (case x of XMsg m \<Rightarrow> if usableRcode m then Some m else None | _ \<Rightarrow> None)"

definition resolveUncached :: "dnsLib \<Rightarrow> resolveEnv \<Rightarrow> dnsMsg \<Rightarrow> cacheKey \<Rightarrow> forwarder \<Rightarrow> dnsMsg option \<times> forwarder" where
  "resolveUncached L E q key f =
     (if f_cfOnly f
      then (case forwardCloudflare L E q key f of
              (Some resp, f1) \<Rightarrow> (Some resp, f1)
            | (None, f1) \<Rightarrow>
                if \<not> isBootstrapDomain f1 (fst key) then (None, f1)
                else (case e_yandex E (upstreamQuery L q) of
                        XMsg yMsg \<Rightarrow> tryServeBootstrap E key yMsg f1
                      | _ \<Rightarrow> (None, f1)))
      else
        let y = usable (e_yandex E (upstreamQuery L q));
            c = usable (e_cloudflare E (upstreamQuery L q));
            store = (\<lambda>m f. on_cache (cache_put (e_pick E) (e_now E) key m) f)
        in case (y, c) of
             (_, Some cm) \<Rightarrow>
               if dm_Rcode cm = RcodeNameError
               then (case y of
                       Some ym \<Rightarrow>
                         if dm_Rcode ym = RcodeSuccess \<and> yandexIsRU f ym \<and> \<not> containsStubIP (f_stubs f) ym
                         then (Some ym, serve_unarbitrated (e_pick E) (e_now E) key ym f)
                         else (Some cm, store cm (f\<lparr>f_serveNXDOMAINTotal := f_serveNXDOMAINTotal f + 1\<rparr>))
                     | None \<Rightarrow> (Some cm, store cm (f\<lparr>f_serveNXDOMAINTotal := f_serveNXDOMAINTotal f + 1\<rparr>)))
               else (case y of
                       Some ym \<Rightarrow> (case arbitrate (f_stubs f) ym cm (f_match f) of
                                     (chosen, br) \<Rightarrow> (Some chosen, store chosen (recordBranch br f)))
                     | None \<Rightarrow> (Some cm, store cm f))
           | (Some ym, None) \<Rightarrow>
               if yandexIsRU f ym \<and> \<not> containsStubIP (f_stubs f) ym
               then (Some ym, serve_unarbitrated (e_pick E) (e_now E) key ym f)
               else tryServeBootstrap E key ym f
           | (None, None) \<Rightarrow> (None, f))"

text \<open>
  The start of \<open>ServeDNS\<close>: \<open>Inl\<close> is a reply without upstream, \<open>Inr\<close> the key that is looked up.
\<close>

definition dohResolverHost :: gostring where "dohResolverHost = bstr ''cloudflare-dns.com.''"
definition dohResolverIPs :: "gostring list" where "dohResolverIPs = [bstr ''1.1.1.1'', bstr ''1.0.0.1'']"
definition dohResolverTTL :: u32 where "dohResolverTTL = 300"

definition emptyMsg :: dnsMsg where
  "emptyMsg = \<lparr>dm_Id = 0, dm_Response = False, dm_Authoritative = False, dm_Truncated = False, dm_RecursionAvailable = False,
     dm_Rcode = 0, dm_Question = [], dm_Answer = [], dm_Ns = [], dm_Extra = []\<rparr>"

definition buildDoHResolverPinReply :: "dnsLib \<Rightarrow> dnsMsg \<Rightarrow> gostring \<Rightarrow> dnsMsg" where
  "buildDoHResolverPinReply L r qName =
     (let resp = (lib_SetReply L emptyMsg r)\<lparr>dm_Authoritative := False, dm_RecursionAvailable := True, dm_Rcode := RcodeSuccess\<rparr>
      in resp\<lparr>dm_Answer := dm_Answer resp @ List.map_filter (\<lambda>ip. map_option (\<lambda>a.
           \<lparr>rr_Name = qName, rr_Rrtype = TypeA, rr_Ttl = dohResolverTTL, rr_Data = DataA a\<rparr>) (ParseIP ip)) dohResolverIPs\<rparr>)"

definition EqualFold :: "gostring \<Rightarrow> gostring \<Rightarrow> bool" where
  "EqualFold s t \<longleftrightarrow> map lower_byte s = map lower_byte t"

definition serve_direct :: "dnsLib \<Rightarrow> dnsMsg \<Rightarrow> dnsMsg + cacheKey" where
  "serve_direct L r =
     (case dm_Question r of
        [] \<Rightarrow> Inl (lib_SetRcode L r RcodeFormatError)
      | (name, qtype) # _ \<Rightarrow>
          if qtype = TypeA \<and> EqualFold (lib_CanonicalName L name) dohResolverHost then Inl (buildDoHResolverPinReply L r name)
          else if qtype = TypeAAAA
          then Inl ((lib_SetReply L emptyMsg r)\<lparr>dm_Authoritative := False, dm_RecursionAvailable := True, dm_Rcode := RcodeSuccess\<rparr>)
          else Inr (lib_CanonicalName L name, qtype))"

definition clientUDPBufSize :: "dnsLib \<Rightarrow> dnsMsg \<Rightarrow> nat" where
  "clientUDPBufSize L r =
     (case lib_IsEdns0 L r of Some s \<Rightarrow> if unat s > 512 then unat s else 512 | None \<Rightarrow> 512)"

definition stripOPTForClient :: "dnsLib \<Rightarrow> dnsMsg \<Rightarrow> dnsMsg \<Rightarrow> dnsMsg" where
  "stripOPTForClient L resp r = (if lib_IsEdns0 L r \<noteq> None then resp else resp\<lparr>dm_Extra := stripOPT (dm_Extra resp)\<rparr>)"

text \<open>The end of \<open>ServeDNS\<close>: the reply for the result of a resolution.\<close>

definition serve_reply :: "dnsLib \<Rightarrow> dnsMsg \<Rightarrow> dnsMsg option \<Rightarrow> dnsMsg" where
  "serve_reply L r res =
     (case res of
        None \<Rightarrow> lib_SetRcode L r RcodeServerFailure
      | Some resp \<Rightarrow>
          let rc = dm_Rcode resp;
              resp1 = (lib_SetReply L resp r)\<lparr>dm_Rcode := rc, dm_RecursionAvailable := True\<rparr>;
              resp2 = (stripOPTForClient L resp1 r)\<lparr>dm_Truncated := False\<rparr>
          in lib_Truncate L (clientUDPBufSize L r) resp2)"

definition sfKeyString :: "cacheKey \<Rightarrow> gostring" where
  "sfKeyString key = fst key @ [124] @ itoa (unat (snd key))"

definition maxConcurrentResolves :: nat where "maxConcurrentResolves = 64"

subsection \<open>Concurrent queries\<close>

text \<open>
  The server runs \<open>ServeDNS\<close> in a goroutine per request.  A query that misses the cache waits in
  \<open>resolveCachedSF\<close>: it takes a permit of the semaphore and resolves, or it is handed the result of a
  resolution with the same key string, or its time is over.  Of \<open>singleflight\<close> only this is used,
  that a result comes from a call with an equal key string.  \<open>d_hist\<close> and \<open>d_log\<close> are records for
  the proofs: what the upstream servers answered for a key, and what clients were sent.
\<close>

datatype upstream = FromYandex dnsMsg | FromCloudflare dnsMsg

record dnsRun =
  d_fwd :: forwarder
  d_next :: nat
  d_waiting :: "(nat \<times> dnsMsg \<times> cacheKey) list"
  d_running :: "(nat \<times> dnsMsg \<times> cacheKey) list"
  d_done :: "(cacheKey \<times> dnsMsg option) list"
  d_hist :: "(cacheKey \<times> upstream) list"
  d_log :: "(nat \<times> dnsMsg \<times> dnsMsg) list"

datatype dnsEvent =
    DQuery instant dnsMsg
  | DLead nat
  | DFinish nat resolveEnv
  | DJoin nat nat
  | DTimeout nat
  | DSweep instant

definition upstream_of :: "exchange \<Rightarrow> (dnsMsg \<Rightarrow> upstream) \<Rightarrow> upstream list" where
  "upstream_of x g = (case x of XMsg m \<Rightarrow> [g m] | _ \<Rightarrow> [])"

definition drop_at :: "nat \<Rightarrow> 'a list \<Rightarrow> 'a list" where
  "drop_at i xs = take i xs @ drop (Suc i) xs"

definition resolve_query :: "dnsLib \<Rightarrow> resolveEnv \<Rightarrow> dnsMsg \<Rightarrow> cacheKey \<Rightarrow> forwarder \<Rightarrow> dnsMsg option \<times> forwarder" where
  "resolve_query L E r key f = (if snd key = TypeA then resolveUncached L E r key f else handleNonA L E r key f)"

fun dns_event :: "dnsLib \<Rightarrow> dnsEvent \<Rightarrow> dnsRun \<Rightarrow> dnsRun" where
  "dns_event L (DQuery now r) w =
     (let w1 = w\<lparr>d_next := Suc (d_next w)\<rparr>
      in case serve_direct L r of
           Inl resp \<Rightarrow> w1\<lparr>d_log := (d_next w, r, resp) # d_log w\<rparr>
         | Inr key \<Rightarrow>
             (case cache_get now key (f_cache (d_fwd w)) of
                (Some cached, c) \<Rightarrow>
                  w1\<lparr>d_fwd := (d_fwd w)\<lparr>f_cache := c\<rparr>, d_log := (d_next w, r, serve_reply L r (Some cached)) # d_log w\<rparr>
              | (None, c) \<Rightarrow> w1\<lparr>d_fwd := (d_fwd w)\<lparr>f_cache := c\<rparr>, d_waiting := (d_next w, r, key) # d_waiting w\<rparr>))"
| "dns_event L (DLead i) w =
     (if i < length (d_waiting w) \<and> length (d_running w) < maxConcurrentResolves
      then w\<lparr>d_waiting := drop_at i (d_waiting w), d_running := d_waiting w ! i # d_running w\<rparr> else w)"
| "dns_event L (DFinish i E) w =
     (if i < length (d_running w)
      then case d_running w ! i of (n, r, key) \<Rightarrow>
        (case resolve_query L E r key (d_fwd w) of (res, f) \<Rightarrow>
           w\<lparr>d_fwd := f, d_running := drop_at i (d_running w), d_done := (key, res) # d_done w,
             d_hist := map (\<lambda>u. (key, u)) (upstream_of (e_yandex E (upstreamQuery L r)) FromYandex @
                         upstream_of (e_cloudflare E (upstreamQuery L r)) FromCloudflare) @ d_hist w,
             d_log := (n, r, serve_reply L r res) # d_log w\<rparr>)
      else w)"
| "dns_event L (DJoin i j) w =
     (if i < length (d_waiting w) \<and> j < length (d_done w)
      then case d_waiting w ! i of (n, r, key) \<Rightarrow>
        if sfKeyString (fst (d_done w ! j)) = sfKeyString key
        then w\<lparr>d_waiting := drop_at i (d_waiting w), d_log := (n, r, serve_reply L r (snd (d_done w ! j))) # d_log w\<rparr>
        else w
      else w)"
| "dns_event L (DTimeout i) w =
     (if i < length (d_waiting w)
      then case d_waiting w ! i of (n, r, key) \<Rightarrow>
        w\<lparr>d_waiting := drop_at i (d_waiting w), d_log := (n, r, serve_reply L r None) # d_log w\<rparr>
      else w)"
| "dns_event L (DSweep now) w = w\<lparr>d_fwd := on_cache (\<lambda>c. snd (sweep now c)) (d_fwd w)\<rparr>"

definition dns_start :: "forwarder \<Rightarrow> dnsRun" where
  "dns_start f = \<lparr>d_fwd = f, d_next = 0, d_waiting = [], d_running = [], d_done = [], d_hist = [], d_log = []\<rparr>"

subsection \<open>Which addresses are trusted\<close>

text \<open>
  An address is trusted for a name if Cloudflare gave it for that name, or if Yandex did in an answer
  without a block page that holds a Russian address or is for a bootstrap domain.
\<close>

definition trusted :: "forwarder \<Rightarrow> (cacheKey \<times> upstream) list \<Rightarrow> cacheKey \<Rightarrow> ipaddr \<Rightarrow> bool" where
  "trusted f H key ip \<longleftrightarrow> (\<exists>c. (key, FromCloudflare c) \<in> set H \<and> ip \<in> set (a4Set c)) \<or>
     (\<exists>y. (key, FromYandex y) \<in> set H \<and> ip \<in> set (a4Set y) \<and> \<not> containsStubIP (f_stubs f) y \<and>
        (yandexIsRU f y \<or> isBootstrapDomain f (fst key)))"

definition msg_trusted :: "forwarder \<Rightarrow> (cacheKey \<times> upstream) list \<Rightarrow> cacheKey \<Rightarrow> dnsMsg \<Rightarrow> bool" where
  "msg_trusted f H key m \<longleftrightarrow> (snd key = TypeA \<longrightarrow> (\<forall>ip \<in> set (a4Set m). trusted f H key ip))"

definition cache_trusted :: "forwarder \<Rightarrow> (cacheKey \<times> upstream) list \<Rightarrow> dnsCache \<Rightarrow> bool" where
  "cache_trusted f H c \<longleftrightarrow> (\<forall>(k, e) \<in> set c. msg_trusted f H k (ce_msg e))"

definition policy :: "forwarder \<Rightarrow> (ipaddr \<Rightarrow> bool) \<times> bool \<times> gostring list \<times> ipaddr list" where
  "policy f = (f_match f, f_cfOnly f, f_bootstrapDomains f, f_stubs f)"

lemma policy_simps [simp]:
  "policy (f\<lparr>f_cache := c\<rparr>) = policy f" "policy (serve_unarbitrated pick now key m f) = policy f" "policy (recordBranch br f) = policy f"
  "policy (f\<lparr>f_serveNXDOMAINTotal := n\<rparr>) = policy f"
  by (auto simp: policy_def serve_unarbitrated_def recordBranch_def split: branch.split)

lemma cache_recordBranch [simp]: "f_cache (recordBranch br f) = f_cache f"
  by (simp add: recordBranch_def split: branch.split)

lemma trusted_policy: "policy f = policy g \<Longrightarrow> trusted f H key ip = trusted g H key ip"
  by (simp add: trusted_def policy_def yandexIsRU_def isBootstrapDomain_def)

lemma msg_trusted_policy: "policy f = policy g \<Longrightarrow> msg_trusted f = msg_trusted g"
  by (intro ext) (simp add: msg_trusted_def trusted_policy [of f g])

lemma cache_trusted_policy: "policy f = policy g \<Longrightarrow> cache_trusted f = cache_trusted g"
  by (intro ext) (simp add: cache_trusted_def msg_trusted_policy [of f g])

lemma trusted_mono: "trusted f H key ip \<Longrightarrow> set H \<subseteq> set H' \<Longrightarrow> trusted f H' key ip"
  by (auto simp: trusted_def)

lemma msg_trusted_mono: "msg_trusted f H key m \<Longrightarrow> set H \<subseteq> set H' \<Longrightarrow> msg_trusted f H' key m"
  by (auto simp: msg_trusted_def intro: trusted_mono)

lemma cache_trusted_mono: "cache_trusted f H c \<Longrightarrow> set H \<subseteq> set H' \<Longrightarrow> cache_trusted f H' c"
  by (auto simp: cache_trusted_def intro: msg_trusted_mono)

lemma a4_mem: "ip \<in> set (a4Set m) \<longleftrightarrow> (\<exists>r \<in> set (dm_Answer m). a4_of r = Some ip)"
  by (auto simp: a4Set_def List.map_filter_def image_iff)

lemma a4_sub: "rr_Data ` set (dm_Answer m) \<subseteq> rr_Data ` set (dm_Answer m') \<Longrightarrow> set (a4Set m) \<subseteq> set (a4Set m')"
proof
  fix ip assume s: "rr_Data ` set (dm_Answer m) \<subseteq> rr_Data ` set (dm_Answer m')" "ip \<in> set (a4Set m)"
  then obtain r where "r \<in> set (dm_Answer m)" "a4_of r = Some ip" by (auto simp: a4_mem)
  moreover obtain r' where "r' \<in> set (dm_Answer m')" "rr_Data r = rr_Data r'" using s(1) calculation(1) by auto
  ultimately show "ip \<in> set (a4Set m')" by (auto simp: a4_mem a4_of_def)
qed

lemma msg_trusted_sub:
  "msg_trusted f H key m' \<Longrightarrow> rr_Data ` set (dm_Answer m) \<subseteq> rr_Data ` set (dm_Answer m') \<Longrightarrow> msg_trusted f H key m"
  using a4_sub [of m m'] by (auto simp: msg_trusted_def)

lemma ttl_data: "rr_Data ` set (setRRTTLs t rs) = rr_Data ` set rs" "rr_Data ` set (decrementRRTTLs d rs) = rr_Data ` set rs"
  by (induction rs) (simp_all add: setRRTTLs_def decrementRRTTLs_def)

text \<open>The cache holds what was put there.\<close>

lemma cache_trusted_subset: "cache_trusted f H c \<Longrightarrow> set c' \<subseteq> set c \<Longrightarrow> cache_trusted f H c'"
  by (auto simp: cache_trusted_def)

lemma delete_subset: "set (AList.delete k c) \<subseteq> set c"
  by (auto simp: AList.delete_eq)

lemma cache_get_trusted:
  assumes "cache_trusted f H c" "cache_get now key c = (res, c')"
  shows "cache_trusted f H c'" "res = Some m \<Longrightarrow> msg_trusted f H key m"
proof -
  show "cache_trusted f H c'" using assms cache_trusted_subset [OF assms(1) delete_subset [of key c]]
    by (auto simp: cache_get_def Let_def split: option.splits if_splits)
  assume m: "res = Some m"
  then obtain e where e: "map_of c key = Some e" "rr_Data ` set (dm_Answer m) = rr_Data ` set (dm_Answer (ce_msg e))"
    using assms(2) by (auto simp: cache_get_def Let_def ttl_data split: option.splits if_splits)
  have "msg_trusted f H key (ce_msg e)" using assms(1) map_of_SomeD [OF e(1)] by (auto simp: cache_trusted_def)
  then show "msg_trusted f H key m" by (rule msg_trusted_sub) (simp add: e(2))
qed

lemma evict_subset: "set (evictOneLocked pick now c) \<subseteq> set c"
  by (simp add: evictOneLocked_def Let_def delete_subset)

lemma cache_put_trusted:
  assumes "cache_trusted f H c" "msg_trusted f H key m"
  shows "cache_trusted f H (putWithLifetime pick now key m lifetime c)" "cache_trusted f H (cache_put pick now key m c)"
proof -
  have p: "cache_trusted f H (putWithLifetime pick now key m l c)" for l
  proof -
    let ?c = "if map_of c key = None \<and> length c \<ge> maxCacheEntries then evictOneLocked pick now c else c"
    have "\<exists>e. putWithLifetime pick now key m l c = AList.update key e ?c \<and> rr_Data ` set (dm_Answer (ce_msg e)) = rr_Data ` set (dm_Answer m)"
      unfolding putWithLifetime_def Let_def by (intro exI conjI, rule refl) (simp add: ttl_data)
    then obtain e where e: "putWithLifetime pick now key m l c = AList.update key e ?c" "rr_Data ` set (dm_Answer (ce_msg e)) = rr_Data ` set (dm_Answer m)"
      by blast
    have "cache_trusted f H ?c" using cache_trusted_subset [OF assms(1) evict_subset] assms(1) by simp
    moreover have "msg_trusted f H key (ce_msg e)" using assms(2) by (rule msg_trusted_sub) (simp add: e(2))
    ultimately show ?thesis using set_cache_update [of key e ?c] by (auto simp: cache_trusted_def e(1))
  qed
  then show "cache_trusted f H (putWithLifetime pick now key m lifetime c)" "cache_trusted f H (cache_put pick now key m c)"
    by (simp_all add: cache_put_def)
qed

subsection \<open>Every resolution keeps to the policy\<close>

lemma distinct_a4: "distinct (a4Set m)"
  by (simp add: a4Set_def)

lemma set_keep: "set (intersectMinusStubs stubs a b) = {ip \<in> set a \<inter> set b. \<not> isStubIP stubs ip}"
  by (auto simp: intersectMinusStubs_def)

lemma distinct_keep: "distinct a \<Longrightarrow> distinct b \<Longrightarrow> distinct (intersectMinusStubs stubs a b)"
  by (simp add: intersectMinusStubs_def)

lemma kept_record:
  "a4_of r = Some ip \<Longrightarrow>
   (case rr_Data r of DataA a \<Rightarrow> (case To4 a of None \<Rightarrow> False | Some v4 \<Rightarrow> IP4 v4 \<in> K) | DataSOA x \<Rightarrow> True | DataOther z \<Rightarrow> True) = (ip \<in> K)"
  by (auto simp: a4_of_def split: rdata.splits option.splits)

text \<open>What the honest branch serves is what both servers agree on.\<close>

lemma agreed_answer:
  assumes "keep = intersectMinusStubs stubs (a4Set y) (a4Set c)"
  shows "set (a4Set (filterAnswerA y keep (a4Set y))) = set keep"
proof (cases "length keep = length (a4Set y)")
  case True
  have "set keep \<subseteq> set (a4Set y)" "distinct keep" using assms distinct_keep [OF distinct_a4 distinct_a4] by (auto simp: set_keep)
  moreover have "card (set keep) = card (set (a4Set y))" using True calculation(2) distinct_a4 by (simp add: distinct_card)
  ultimately have "set keep = set (a4Set y)" by (intro card_subset_eq) auto
  then show ?thesis using True by (simp add: filterAnswerA_def)
next
  case False
  have "ip \<in> set (a4Set (filterAnswerA y keep (a4Set y))) \<longleftrightarrow> ip \<in> set (a4Set y) \<and> ip \<in> set keep" for ip
    using False by (auto simp: filterAnswerA_def a4_mem kept_record)
  then show ?thesis using assms by (auto simp: set_keep)
qed

lemma arbitrate_trusted:
  assumes "arbitrate (f_stubs f) y c (f_match f) = (m, br)" "(key, FromYandex y) \<in> set H" "(key, FromCloudflare c) \<in> set H"
  shows "msg_trusted f H key m"
proof -
  let ?k = "intersectMinusStubs (f_stubs f) (a4Set y) (a4Set c)"
  consider "m = c" | "m = filterAnswerA y ?k (a4Set y)" | "m = y" "yandexIsRU f y" "\<not> containsStubIP (f_stubs f) y"
    using assms(1) by (auto simp: arbitrate_def Let_def yandexIsRU_def containsStubIP_def split: if_splits)
  then show ?thesis
  proof cases
    case 2 then show ?thesis using agreed_answer [OF refl, of y "f_stubs f" c] assms(3) by (auto simp: msg_trusted_def trusted_def set_keep)
  qed (use assms(2,3) in \<open>auto simp: msg_trusted_def trusted_def\<close>)
qed

text \<open>The result and the cache after a resolution, with the answers of this resolution in \<open>H\<close>.\<close>

definition answers_in :: "dnsLib \<Rightarrow> resolveEnv \<Rightarrow> dnsMsg \<Rightarrow> cacheKey \<Rightarrow> (cacheKey \<times> upstream) list \<Rightarrow> bool" where
  "answers_in L E r key H \<longleftrightarrow> (\<forall>m. e_yandex E (upstreamQuery L r) = XMsg m \<longrightarrow> (key, FromYandex m) \<in> set H) \<and>
     (\<forall>m. e_cloudflare E (upstreamQuery L r) = XMsg m \<longrightarrow> (key, FromCloudflare m) \<in> set H)"

definition outcome_ok :: "forwarder \<Rightarrow> (cacheKey \<times> upstream) list \<Rightarrow> cacheKey \<Rightarrow> dnsMsg option \<times> forwarder \<Rightarrow> bool" where
  "outcome_ok f H key x \<longleftrightarrow> policy (snd x) = policy f \<and> cache_trusted f H (f_cache (snd x)) \<and>
     (\<forall>m. fst x = Some m \<longrightarrow> msg_trusted f H key m)"

lemma cloudflare_trusted: "(key, FromCloudflare m) \<in> set H \<Longrightarrow> msg_trusted f H key m"
  by (auto simp: msg_trusted_def trusted_def)

lemma yandex_trusted:
  "(key, FromYandex m) \<in> set H \<Longrightarrow> \<not> containsStubIP (f_stubs f) m \<Longrightarrow> yandexIsRU f m \<or> isBootstrapDomain f (fst key) \<Longrightarrow> msg_trusted f H key m"
  by (auto simp: msg_trusted_def trusted_def)

lemma outcome_none: "cache_trusted f H (f_cache f') \<Longrightarrow> policy f' = policy f \<Longrightarrow> outcome_ok f H key (None, f')"
  by (simp add: outcome_ok_def)

lemma outcome_put:
  "cache_trusted f H (f_cache f') \<Longrightarrow> policy f' = policy f \<Longrightarrow> msg_trusted f H key m \<Longrightarrow>
   outcome_ok f H key (Some m, on_cache (cache_put pick now key m) f')"
  by (simp add: outcome_ok_def cache_put_trusted)

lemma outcome_short:
  "cache_trusted f H (f_cache f') \<Longrightarrow> policy f' = policy f \<Longrightarrow> msg_trusted f H key m \<Longrightarrow>
   outcome_ok f H key (Some m, serve_unarbitrated pick now key m f')"
  by (simp add: outcome_ok_def cache_put_trusted) (simp add: serve_unarbitrated_def cache_put_trusted)

lemma outcome_forward:
  assumes "cache_trusted f H (f_cache f)" "answers_in L E r key H"
  shows "outcome_ok f H key (forwardCloudflare L E r key f)"
proof -
  obtain res c where g: "cache_get (e_look E) key (f_cache f) = (res, c)" by fastforce
  note t = cache_get_trusted [OF assms(1) g]
  show ?thesis
  proof (cases res)
    case (Some m) then show ?thesis using g t by (simp add: forwardCloudflare_def outcome_ok_def)
  next
    case None
    have "outcome_ok f H key (None, f\<lparr>f_cache := c\<rparr>)" using t(1) by (simp add: outcome_none)
    moreover have "outcome_ok f H key (Some m, on_cache (cache_put (e_pick E) (e_now E) key m) (f\<lparr>f_cache := c\<rparr>))"
      if "e_cloudflare E (upstreamQuery L r) = XMsg m" for m
      using that assms(2) t(1) by (intro outcome_put cloudflare_trusted) (auto simp: answers_in_def)
    ultimately show ?thesis using g None by (simp add: forwardCloudflare_def Let_def split: exchange.split)
  qed
qed

lemma same_policy:
  assumes "policy f' = policy f"
  shows "f_stubs f' = f_stubs f" "isBootstrapDomain f' name = isBootstrapDomain f name" "yandexIsRU f' m = yandexIsRU f m" "f_match f' = f_match f"
  using assms by (simp_all add: policy_def isBootstrapDomain_def yandexIsRU_def)

lemma outcome_bootstrap:
  assumes "cache_trusted f H (f_cache f')" "policy f' = policy f" "(key, FromYandex m) \<in> set H"
  shows "outcome_ok f H key (tryServeBootstrap E key m f')"
proof (cases "isBootstrapDomain f' (fst key) \<and> dm_Rcode m = RcodeSuccess \<and> a4Set m \<noteq> [] \<and> \<not> setContainsStub (f_stubs f') (a4Set m)")
  case True
  then have "msg_trusted f H key m" using assms(2,3) by (intro yandex_trusted) (simp_all add: containsStubIP_def same_policy [OF assms(2)])
  then show ?thesis using True assms(1,2) by (simp add: tryServeBootstrap_def outcome_short)
next
  case False then show ?thesis using assms(1,2) by (auto simp: tryServeBootstrap_def outcome_none)
qed

lemma outcome_uncached:
  assumes c: "cache_trusted f H (f_cache f)" and a: "answers_in L E r key H"
  shows "outcome_ok f H key (resolveUncached L E r key f)"
proof (cases "f_cfOnly f")
  case True
  obtain res f1 where fw: "forwardCloudflare L E r key f = (res, f1)" by fastforce
  then have o1: "outcome_ok f H key (res, f1)" using outcome_forward [OF c a] by simp
  then have f1: "cache_trusted f H (f_cache f1)" "policy f1 = policy f" by (simp_all add: outcome_ok_def)
  have "outcome_ok f H key (tryServeBootstrap E key m f1)" if "e_yandex E (upstreamQuery L r) = XMsg m" for m
    using outcome_bootstrap [OF f1] a that by (simp add: answers_in_def)
  then show ?thesis using True fw o1 f1 by (auto simp: resolveUncached_def outcome_none split: option.split exchange.split)
next
  case False
  have y: "(key, FromYandex m) \<in> set H" if "usable (e_yandex E (upstreamQuery L r)) = Some m" for m
    using that a by (auto simp: usable_def answers_in_def split: exchange.splits if_splits)
  have cl: "(key, FromCloudflare m) \<in> set H" if "usable (e_cloudflare E (upstreamQuery L r)) = Some m" for m
    using that a by (auto simp: usable_def answers_in_def split: exchange.splits if_splits)
  have sh: "outcome_ok f H key (Some m, serve_unarbitrated (e_pick E) (e_now E) key m f)"
    if "usable (e_yandex E (upstreamQuery L r)) = Some m" "yandexIsRU f m" "\<not> containsStubIP (f_stubs f) m" for m
    using y [OF that(1)] that(2,3) c by (intro outcome_short yandex_trusted) auto
  have cf: "outcome_ok f H key (Some m, on_cache (cache_put (e_pick E) (e_now E) key m) f')"
    if "usable (e_cloudflare E (upstreamQuery L r)) = Some m" "policy f' = policy f" "f_cache f' = f_cache f" for m f'
    using cl [OF that(1)] that(2,3) c by (intro outcome_put cloudflare_trusted) auto
  have ar: "outcome_ok f H key (Some m, on_cache (cache_put (e_pick E) (e_now E) key m) (recordBranch br f))"
    if "usable (e_yandex E (upstreamQuery L r)) = Some ym" "usable (e_cloudflare E (upstreamQuery L r)) = Some cm"
       "arbitrate (f_stubs f) ym cm (f_match f) = (m, br)" for m br ym cm
    using arbitrate_trusted [OF that(3) y [OF that(1)] cl [OF that(2)]] c
    by (intro outcome_put) simp_all
  have bo: "outcome_ok f H key (tryServeBootstrap E key m f)" if "usable (e_yandex E (upstreamQuery L r)) = Some m" for m
    using outcome_bootstrap [OF c refl y [OF that]] .
  show ?thesis
  proof (cases "usable (e_cloudflare E (upstreamQuery L r))")
    case None
    show ?thesis
    proof (cases "usable (e_yandex E (upstreamQuery L r))")
      case (Some m) then show ?thesis using False None sh bo by (simp add: resolveUncached_def)
    qed (use False None c in \<open>simp add: resolveUncached_def outcome_none\<close>)
  next
    case (Some cm)
    show ?thesis
    proof (cases "usable (e_yandex E (upstreamQuery L r))")
      case None then show ?thesis using False Some cf by (simp add: resolveUncached_def)
    next
      case y: (Some ym)
      obtain m br where m: "arbitrate (f_stubs f) ym cm (f_match f) = (m, br)" by fastforce
      show ?thesis using False Some y m sh [OF y] ar [OF y Some m] cf [OF Some] by (simp add: resolveUncached_def Let_def)
    qed
  qed
qed

lemma outcome_nonA:
  assumes "cache_trusted f H (f_cache f)" "answers_in L E r key H" "snd key \<noteq> TypeA"
  shows "outcome_ok f H key (handleNonA L E r key f)"
proof -
  obtain res f1 where fw: "forwardCloudflare L E r key f = (res, f1)" by fastforce
  then have o1: "outcome_ok f H key (res, f1)" using outcome_forward [OF assms(1,2)] by simp
  then have f1: "cache_trusted f H (f_cache f1)" "policy f1 = policy f" by (simp_all add: outcome_ok_def)
  have "msg_trusted f H key m" for m using assms(3) by (simp add: msg_trusted_def)
  then have "outcome_ok f H key (tryServeNonAFallback L E r key f1)"
    using f1 by (auto simp: tryServeNonAFallback_def outcome_none outcome_short split: exchange.split)
  then show ?thesis using fw o1 by (auto simp: handleNonA_def split: option.split)
qed

lemma outcome_query:
  assumes "cache_trusted f H (f_cache f)" "answers_in L E r key H"
  shows "outcome_ok f H key (resolve_query L E r key f)"
  using outcome_uncached [OF assms] outcome_nonA [OF assms] by (simp add: resolve_query_def)

subsection \<open>Runs\<close>

text \<open>What is used of the library: replies keep the answers, error replies have none, cutting removes.\<close>

definition dns_lib_ok :: "dnsLib \<Rightarrow> bool" where
  "dns_lib_ok L \<longleftrightarrow> (\<forall>m r. dm_Answer (lib_SetReply L m r) = dm_Answer m) \<and> (\<forall>r rc. dm_Answer (lib_SetRcode L r rc) = []) \<and>
     (\<forall>n m. set (dm_Answer (lib_Truncate L n m)) \<subseteq> set (dm_Answer m))"

lemma sfKeyString_inj: "sfKeyString k = sfKeyString k' \<Longrightarrow> k = k'"
proof -
  assume e: "sfKeyString k = sfKeyString k'"
  have d: "takeWhile (\<lambda>b. b \<noteq> 124) (rev (sfKeyString x)) = rev (itoa (unat (snd x)))"
    "dropWhile (\<lambda>b. b \<noteq> 124) (rev (sfKeyString x)) = 124 # rev (fst x)" for x
  proof -
    have "124 \<notin> set (itoa (unat (snd x)))"
      using itoa_digits [of "unat (snd x)"] by (auto simp: list_all_iff is_digit_def)
    then show "takeWhile (\<lambda>b. b \<noteq> 124) (rev (sfKeyString x)) = rev (itoa (unat (snd x)))"
      "dropWhile (\<lambda>b. b \<noteq> 124) (rev (sfKeyString x)) = 124 # rev (fst x)"
      by (auto simp: sfKeyString_def takeWhile_append dropWhile_append)
  qed
  have "itoa (unat (snd k)) = itoa (unat (snd k'))" "fst k = fst k'" using d [of k] d [of k'] e by simp_all
  then have "unat (snd k) = unat (snd k')" by (metis dec_val_itoa)
  then show ?thesis using \<open>fst k = fst k'\<close> by (simp add: prod_eq_iff word_unat_eq_iff)
qed

definition reply_ok :: "dnsLib \<Rightarrow> forwarder \<Rightarrow> (cacheKey \<times> upstream) list \<Rightarrow> dnsMsg \<Rightarrow> dnsMsg \<Rightarrow> bool" where
  "reply_ok L f H r resp \<longleftrightarrow> (case serve_direct L r of Inl x \<Rightarrow> resp = x | Inr key \<Rightarrow> msg_trusted f H key resp)"

definition dns_trust_ok :: "dnsLib \<Rightarrow> forwarder \<Rightarrow> dnsRun \<Rightarrow> bool" where
  "dns_trust_ok L f w \<longleftrightarrow> policy (d_fwd w) = policy f \<and> cache_trusted f (d_hist w) (f_cache (d_fwd w)) \<and>
     (\<forall>(key, res) \<in> set (d_done w). \<forall>m. res = Some m \<longrightarrow> msg_trusted f (d_hist w) key m) \<and>
     (\<forall>(n, r, key) \<in> set (d_waiting w) \<union> set (d_running w). serve_direct L r = Inr key) \<and>
     (\<forall>(n, r, resp) \<in> set (d_log w). reply_ok L f (d_hist w) r resp)"

lemma dns_trustD:
  assumes "dns_trust_ok L f w"
  shows "policy (d_fwd w) = policy f" "cache_trusted f (d_hist w) (f_cache (d_fwd w))"
    "(key, Some m) \<in> set (d_done w) \<Longrightarrow> msg_trusted f (d_hist w) key m"
    "(n, r, k) \<in> set (d_waiting w) \<Longrightarrow> serve_direct L r = Inr k" "(n, r, k) \<in> set (d_running w) \<Longrightarrow> serve_direct L r = Inr k"
    "(n, r, resp) \<in> set (d_log w) \<Longrightarrow> reply_ok L f (d_hist w) r resp"
  using assms by (auto simp: dns_trust_ok_def ball_Un)

lemma serve_reply_trusted:
  assumes "dns_lib_ok L" "\<And>m. res = Some m \<Longrightarrow> msg_trusted f H key m"
  shows "msg_trusted f H key (serve_reply L r res)"
proof (cases res)
  case None then show ?thesis using assms(1) by (simp add: serve_reply_def msg_trusted_def a4Set_def dns_lib_ok_def List.map_filter_def)
next
  case (Some m)
  let ?x = "(stripOPTForClient L ((lib_SetReply L m r)\<lparr>dm_Rcode := dm_Rcode m, dm_RecursionAvailable := True\<rparr>) r)\<lparr>dm_Truncated := False\<rparr>"
  have "set (dm_Answer (lib_Truncate L (clientUDPBufSize L r) ?x)) \<subseteq> set (dm_Answer ?x)" using assms(1) unfolding dns_lib_ok_def by blast
  moreover have "dm_Answer ?x = dm_Answer m" using assms(1) by (simp add: stripOPTForClient_def dns_lib_ok_def)
  ultimately have "set (dm_Answer (serve_reply L r res)) \<subseteq> set (dm_Answer m)" by (simp add: Some serve_reply_def Let_def)
  then show ?thesis by (intro msg_trusted_sub [OF assms(2) [OF Some]] image_mono)
qed

lemma set_drop_at: "set (drop_at i xs) \<subseteq> set xs"
  by (auto simp: drop_at_def dest: in_set_takeD in_set_dropD)

lemma reply_ok_mono: "reply_ok L f H r resp \<Longrightarrow> set H \<subseteq> set H' \<Longrightarrow> reply_ok L f H' r resp"
  by (auto simp: reply_ok_def intro: msg_trusted_mono split: sum.splits)

text \<open>One event: the history grows, and what the new parts of the state hold is trusted.\<close>

lemma dns_trust_grow:
  assumes "dns_trust_ok L f w" "set (d_hist w) \<subseteq> set (d_hist w')" "policy (d_fwd w') = policy f"
    "cache_trusted f (d_hist w') (f_cache (d_fwd w'))"
    "\<And>key m. (key, Some m) \<in> set (d_done w') - set (d_done w) \<Longrightarrow> msg_trusted f (d_hist w') key m"
    "\<And>n r k. (n, r, k) \<in> (set (d_waiting w') \<union> set (d_running w')) - (set (d_waiting w) \<union> set (d_running w)) \<Longrightarrow> serve_direct L r = Inr k"
    "\<And>n r resp. (n, r, resp) \<in> set (d_log w') - set (d_log w) \<Longrightarrow> reply_ok L f (d_hist w') r resp"
  shows "dns_trust_ok L f w'"
proof -
  note d = dns_trustD [OF assms(1)]
  have "msg_trusted f (d_hist w') key m" if "(key, Some m) \<in> set (d_done w')" for key m
    using that d(3) assms(2,5) msg_trusted_mono by blast
  moreover have "serve_direct L r = Inr k" if "(n, r, k) \<in> set (d_waiting w') \<union> set (d_running w')" for n r k
    using that d(4,5) assms(6) by blast
  moreover have "reply_ok L f (d_hist w') r resp" if "(n, r, resp) \<in> set (d_log w')" for n r resp
    using that d(6) assms(2,7) reply_ok_mono by blast
  ultimately show ?thesis using assms(3,4) unfolding dns_trust_ok_def by blast
qed

lemma trust_query:
  assumes L: "dns_lib_ok L" and ok: "dns_trust_ok L f w"
  shows "dns_trust_ok L f (dns_event L (DQuery now r) w)"
proof (cases "serve_direct L r")
  case (Inl x)
  show ?thesis by (rule dns_trust_grow [OF ok]) (use Inl dns_trustD [OF ok] in \<open>auto simp: reply_ok_def\<close>)
next
  case (Inr key)
  obtain res c where g: "cache_get now key (f_cache (d_fwd w)) = (res, c)" by fastforce
  note t = cache_get_trusted [OF dns_trustD(2) [OF ok] g]
  have p: "policy (d_fwd w) = policy f" by (rule dns_trustD(1) [OF ok])
  show ?thesis
  proof (cases res)
    case None
    then have e: "dns_event L (DQuery now r) w =
      w\<lparr>d_next := Suc (d_next w), d_fwd := (d_fwd w)\<lparr>f_cache := c\<rparr>, d_waiting := (d_next w, r, key) # d_waiting w\<rparr>"
      using Inr g by simp
    show ?thesis unfolding e by (rule dns_trust_grow [OF ok]) (use t(1) p Inr in auto)
  next
    case (Some m)
    then have e: "dns_event L (DQuery now r) w = w\<lparr>d_next := Suc (d_next w), d_fwd := (d_fwd w)\<lparr>f_cache := c\<rparr>,
      d_log := (d_next w, r, serve_reply L r (Some m)) # d_log w\<rparr>"
      using Inr g by simp
    have "reply_ok L f (d_hist w) r (serve_reply L r (Some m))"
      using serve_reply_trusted [OF L, of "Some m"] t(2) [OF Some] Inr by (simp add: reply_ok_def)
    then show ?thesis unfolding e by (intro dns_trust_grow [OF ok]) (use t(1) p in auto)
  qed
qed

lemma trust_finish:
  assumes L: "dns_lib_ok L" and ok: "dns_trust_ok L f w"
  shows "dns_trust_ok L f (dns_event L (DFinish i E) w)"
proof (cases "i < length (d_running w)")
  case True
  obtain n r key where x: "d_running w ! i = (n, r, key)" by (metis prod_cases3)
  obtain res f' where q: "resolve_query L E r key (d_fwd w) = (res, f')" by fastforce
  let ?H = "map (\<lambda>u. (key, u)) (upstream_of (e_yandex E (upstreamQuery L r)) FromYandex @
    upstream_of (e_cloudflare E (upstreamQuery L r)) FromCloudflare) @ d_hist w"
  let ?w = "w\<lparr>d_fwd := f', d_running := drop_at i (d_running w), d_done := (key, res) # d_done w, d_hist := ?H,
    d_log := (n, r, serve_reply L r res) # d_log w\<rparr>"
  have e: "dns_event L (DFinish i E) w = ?w" using True x q by simp
  have p: "policy (d_fwd w) = policy f" by (rule dns_trustD(1) [OF ok])
  have "cache_trusted (d_fwd w) ?H (f_cache (d_fwd w))"
    unfolding cache_trusted_policy [OF p] by (rule cache_trusted_mono [OF dns_trustD(2) [OF ok]]) auto
  moreover have "answers_in L E r key ?H" by (simp add: answers_in_def upstream_of_def)
  ultimately have "outcome_ok (d_fwd w) ?H key (res, f')" unfolding q [symmetric] by (rule outcome_query)
  then have o: "policy f' = policy f" "cache_trusted f ?H (f_cache f')" "\<And>m. res = Some m \<Longrightarrow> msg_trusted f ?H key m"
    using p cache_trusted_policy [OF p] msg_trusted_policy [OF p] by (simp_all add: outcome_ok_def)
  have "serve_direct L r = Inr key" using dns_trustD(5) [OF ok] nth_mem [OF True] by (simp add: x)
  then have "reply_ok L f ?H r (serve_reply L r res)" using serve_reply_trusted [OF L o(3)] by (simp add: reply_ok_def)
  then show ?thesis unfolding e
    by (intro dns_trust_grow [OF ok]) (use o set_drop_at [of i "d_running w"] in auto)
next
  case False then show ?thesis using ok by simp
qed

lemma trust_answer_waiting:
  assumes L: "dns_lib_ok L" and ok: "dns_trust_ok L f w" and x: "i < length (d_waiting w)" "d_waiting w ! i = (n, r, key)"
    and res: "\<And>m. res = Some m \<Longrightarrow> msg_trusted f (d_hist w) key m"
  shows "dns_trust_ok L f (w\<lparr>d_waiting := drop_at i (d_waiting w), d_log := (n, r, serve_reply L r res) # d_log w\<rparr>)"
proof -
  have "serve_direct L r = Inr key" using dns_trustD(4) [OF ok] nth_mem [OF x(1)] by (simp add: x(2))
  then have "reply_ok L f (d_hist w) r (serve_reply L r res)" using serve_reply_trusted [OF L res] by (simp add: reply_ok_def)
  then show ?thesis by (intro dns_trust_grow [OF ok]) (use dns_trustD [OF ok] set_drop_at [of i "d_waiting w"] in auto)
qed

lemma dns_trust_step:
  assumes "dns_lib_ok L" "dns_trust_ok L f w" shows "dns_trust_ok L f (dns_event L ev w)"
proof (cases ev)
  case (DLead i)
  show ?thesis using DLead assms(2) nth_mem [of i "d_waiting w"] set_drop_at [of i "d_waiting w"]
    by (auto intro!: dns_trust_grow [OF assms(2)] dns_trustD(1,2) [OF assms(2)])
next
  case (DJoin i j)
  show ?thesis
  proof (cases "i < length (d_waiting w) \<and> j < length (d_done w)")
    case True
    obtain n r key where x: "d_waiting w ! i = (n, r, key)" by (metis prod_cases3)
    obtain key' res where y: "d_done w ! j = (key', res)" by fastforce
    have "msg_trusted f (d_hist w) key' m" if "res = Some m" for m
      using dns_trustD(3) [OF assms(2)] nth_mem [of j "d_done w"] True that by (simp add: y)
    then show ?thesis using True x y DJoin assms(2) trust_answer_waiting [OF assms _ x, of res] sfKeyString_inj [of key' key] by auto
  qed (use DJoin assms(2) in auto)
next
  case (DTimeout i)
  then show ?thesis using assms(2) trust_answer_waiting [OF assms, of i _ _ _ None] by (cases "d_waiting w ! i") auto
next
  case (DSweep now)
  have "cache_trusted f (d_hist w) (snd (sweep now (f_cache (d_fwd w))))"
    by (rule cache_trusted_subset [OF dns_trustD(2) [OF assms(2)]]) (auto simp: sweep_def Let_def)
  then show ?thesis using DSweep dns_trustD(1) [OF assms(2)] by (auto intro!: dns_trust_grow [OF assms(2)])
qed (use trust_query trust_finish assms in auto)

lemma dns_trust_start: "f_cache f = [] \<Longrightarrow> dns_trust_ok L f (dns_start f)"
  by (simp add: dns_trust_ok_def dns_start_def cache_trusted_def)

lemma dns_trust_run: "dns_lib_ok L \<Longrightarrow> dns_trust_ok L f w \<Longrightarrow> dns_trust_ok L f (fold (dns_event L) evs w)"
  by (induction evs arbitrary: w) (simp_all add: dns_trust_step)

lemma stub_confirmed:
  assumes "trusted f H key ip" "isStubIP (f_stubs f) ip"
  shows "\<exists>c. (key, FromCloudflare c) \<in> set H \<and> ip \<in> set (a4Set c)"
  using assms by (auto simp: trusted_def containsStubIP_def setContainsStub_def list_ex_iff)


subsection \<open>Every query is answered once\<close>

lemmas cache_ok_ops = cache_ok_step [where x = "CGet now key" for now key, simplified] cache_ok_step [where x = "CPut pick now key m" for pick now key m, simplified]
  cache_ok_step [where x = "CPutShort pick now key m" for pick now key m, simplified] cache_ok_step [where x = "CSweep now" for now, simplified]

lemma cache_ok_get: "cache_get now key c = (res, c') \<Longrightarrow> cache_ok c \<Longrightarrow> cache_ok c'"
  using cache_ok_ops(1) [of c now key] by simp

lemma cache_ok_forward:
  assumes "cache_ok (f_cache f)" shows "cache_ok (f_cache (snd (forwardCloudflare L E r key f)))"
proof -
  obtain res c where g: "cache_get (e_look E) key (f_cache f) = (res, c)" by fastforce
  show ?thesis using cache_ok_get [OF g assms]
    by (simp add: forwardCloudflare_def g cache_ok_ops(2) Let_def split: option.split exchange.split)
qed

lemma cache_ok_short: "cache_ok (f_cache f) \<Longrightarrow> cache_ok (f_cache (serve_unarbitrated pick now key m f))"
  by (simp add: serve_unarbitrated_def cache_ok_ops(3))

lemma cache_ok_bootstrap: "cache_ok (f_cache f) \<Longrightarrow> cache_ok (f_cache (snd (tryServeBootstrap E key m f)))"
  by (simp add: tryServeBootstrap_def cache_ok_short)

lemma cache_ok_query:
  assumes "cache_ok (f_cache f)" shows "cache_ok (f_cache (snd (resolve_query L E r key f)))"
proof -
  obtain res f1 where fw: "forwardCloudflare L E r key f = (res, f1)" by fastforce
  have f1: "cache_ok (f_cache f1)" using cache_ok_forward [OF assms, of L E r key] by (simp add: fw)
  have "cache_ok (f_cache (snd (handleNonA L E r key f)))"
    using f1 by (auto simp: handleNonA_def fw tryServeNonAFallback_def cache_ok_short split: option.split exchange.split)
  moreover have "cache_ok (f_cache (snd (resolveUncached L E r key f)))"
    using f1 assms cache_ok_ops(2) by (auto simp: resolveUncached_def fw Let_def cache_ok_short cache_ok_bootstrap split: option.split exchange.split prod.split)
  ultimately show ?thesis by (simp add: resolve_query_def)
qed

definition dns_queue_ok :: "dnsRun \<Rightarrow> bool" where
  "dns_queue_ok w \<longleftrightarrow> length (d_running w) \<le> maxConcurrentResolves \<and> cache_ok (f_cache (d_fwd w)) \<and>
     mset (map fst (d_waiting w)) + mset (map fst (d_running w)) + mset (map fst (d_log w)) = mset [0..<d_next w]"

lemma mset_drop_at:
  assumes "i < length xs" shows "image_mset fst (mset xs) = add_mset (fst (xs ! i)) (image_mset fst (mset (drop_at i xs)))"
proof -
  have "mset (map fst xs) = mset (map fst (take i xs @ xs ! i # drop (Suc i) xs))" using id_take_nth_drop [OF assms] by presburger
  then show ?thesis by (simp add: drop_at_def)
qed

lemma length_drop_at: "length (drop_at i xs) \<le> length xs"
  by (simp add: drop_at_def)

lemma dns_queue_step:
  assumes "dns_queue_ok w" shows "dns_queue_ok (dns_event L ev w)"
proof (cases ev)
  case (DQuery now r)
  then show ?thesis using assms cache_ok_get [of now _ "f_cache (d_fwd w)"]
    by (auto simp: dns_queue_ok_def Let_def atLeast0_lessThan_Suc simp del: split_paired_All split: sum.split prod.split option.split)
next
  case (DLead i)
  then show ?thesis using assms by (auto simp: dns_queue_ok_def mset_drop_at [of i "d_waiting w"])
next
  case (DFinish i E)
  then show ?thesis using assms length_drop_at [of i "d_running w"] cache_ok_query [of "d_fwd w" L E]
    by (auto simp: dns_queue_ok_def mset_drop_at [of i "d_running w"] split: prod.split) (metis snd_conv)
next
  case (DJoin i j)
  then show ?thesis using assms by (auto simp: dns_queue_ok_def mset_drop_at [of i "d_waiting w"] split: prod.split)
next
  case (DTimeout i)
  then show ?thesis using assms by (auto simp: dns_queue_ok_def mset_drop_at [of i "d_waiting w"] split: prod.split)
next
  case (DSweep now) then show ?thesis using assms by (simp add: dns_queue_ok_def cache_ok_ops(4))
qed

interpretation dq: step_invariant "dns_event L" dns_queue_ok for L
  by unfold_locales (rule dns_queue_step)


definition demo_lib :: dnsLib where
  "demo_lib = \<lparr>lib_CanonicalName = map lower_byte,
     lib_SetReply = (\<lambda>m r. m\<lparr>dm_Id := dm_Id r, dm_Response := True, dm_Rcode := 0, dm_Question := dm_Question r\<rparr>),
     lib_SetRcode = (\<lambda>r rc. emptyMsg\<lparr>dm_Id := dm_Id r, dm_Response := True, dm_Rcode := rc, dm_Question := dm_Question r\<rparr>),
     lib_IsEdns0 = (\<lambda>m. None), lib_SetEdns0 = (\<lambda>s m. m),
     lib_Truncate = (\<lambda>n m. m\<lparr>dm_Answer := take (n div 16) (dm_Answer m), dm_Truncated := n div 16 < length (dm_Answer m)\<rparr>)\<rparr>"

lemma demo_lib_ok: "dns_lib_ok demo_lib"
  by (auto simp: dns_lib_ok_def demo_lib_def emptyMsg_def dest: in_set_takeD)

text \<open>A bootstrap domain while Cloudflare is down: the answer of Yandex, with an hour to live.\<close>

definition demo_env :: resolveEnv where
  "demo_env = \<lparr>e_yandex = (\<lambda>q. XMsg (demo_answer [demo_rr [5, 6, 7, 8] 3600])), e_cloudflare = (\<lambda>q. XErr), e_look = 0, e_now = 0, e_pick = 0\<rparr>"

definition demo_dns_query :: dnsMsg where "demo_dns_query = emptyMsg\<lparr>dm_Question := [([97, 46], TypeA)]\<rparr>"

definition demo_dns_run :: dnsRun where
  "demo_dns_run = fold (dns_event demo_lib) [DQuery 0 demo_dns_query, DLead 0, DFinish 0 demo_env, DQuery 0 demo_dns_query]
     (dns_start (NewForwarder demo_lib [] None [[97, 46]]))"

lemma demo_stubs: "buildStubIPSet [] = [IP4 [89, 221, 226, 6]]"
  by code_simp

lemma demo_direct: "serve_direct demo_lib demo_dns_query = Inr ([97, 46], TypeA)"
  by code_simp

lemma demo_forwarder:
  "NewForwarder demo_lib [] None [[97, 46]] =
     \<lparr>f_match = (\<lambda>_. False), f_cfOnly = True, f_bootstrapDomains = [[97, 46]], f_stubs = [IP4 [89, 221, 226, 6]], f_cache = [],
      f_branchYandexTotal = 0, f_branchCensoredTotal = 0, f_branchForeignTotal = 0, f_branchGeoTotal = 0, f_serveNXDOMAINTotal = 0,
      f_serveUnarbitratedTotal = 0\<rparr>"
proof -
  have "WithBootstrapDomains demo_lib [[97, 46]] = [[97, 46]]" by code_simp
  then show ?thesis by (simp add: NewForwarder_def demo_stubs newDNSCache_def)
qed

lemma demo_upstreams: "e_yandex demo_env q = XMsg (demo_answer [demo_rr [5, 6, 7, 8] 3600])" "e_cloudflare demo_env q = XErr"
  by (simp_all add: demo_env_def)

lemma demo_bootstrap:
  "f_cfOnly f \<Longrightarrow> f_cache f = [] \<Longrightarrow> isBootstrapDomain f [97, 46] \<Longrightarrow> f_stubs f = [IP4 [89, 221, 226, 6]] \<Longrightarrow>
   resolve_query demo_lib demo_env r ([97, 46], TypeA) f =
     (Some (demo_answer [demo_rr [5, 6, 7, 8] 3600]), serve_unarbitrated 0 0 ([97, 46], TypeA) (demo_answer [demo_rr [5, 6, 7, 8] 3600]) f)"
  by (cases f) (simp add: resolve_query_def resolveUncached_def forwardCloudflare_def cache_get_def demo_env_def tryServeBootstrap_def a4Set_def a4_of_def isBootstrapDomain_def
      List.map_filter_def To4_def demo_answer_def demo_rr_def setContainsStub_def isStubIP_def)

lemma demo_reply:
  "serve_reply demo_lib demo_dns_query (Some (demo_answer [demo_rr [5, 6, 7, 8] ttl])) = demo_answer [demo_rr [5, 6, 7, 8] ttl]"
  by (simp add: serve_reply_def demo_lib_def stripOPTForClient_def clientUDPBufSize_def demo_answer_def demo_dns_query_def emptyMsg_def stripOPT_def)

lemma demo_hit:
  "f_cache f = [] \<Longrightarrow> cache_get 0 ([97, 46], TypeA) (f_cache (serve_unarbitrated 0 0 ([97, 46], TypeA) (demo_answer [demo_rr ip ttl]) f)) =
     (Some (demo_answer [demo_rr ip 30]), f_cache (serve_unarbitrated 0 0 ([97, 46], TypeA) (demo_answer [demo_rr ip ttl]) f))"
  by (simp add: serve_unarbitrated_def putWithLifetime_def cache_get_def unarbitratedCacheTTL_def Second_def setRRTTLs_def stripOPT_def
      decrementRRTTLs_def demo_answer_def demo_rr_def maxCacheEntries_def Let_def)

lemma demo_dns_result:
  "d_log demo_dns_run =
     [(1, demo_dns_query, demo_answer [demo_rr [5, 6, 7, 8] 30]), (0, demo_dns_query, demo_answer [demo_rr [5, 6, 7, 8] 3600])]"
  by (simp add: demo_dns_run_def demo_forwarder dns_start_def demo_direct cache_get_def [of _ _ "[]"] maxConcurrentResolves_def drop_at_def
      demo_bootstrap isBootstrapDomain_def demo_reply demo_hit)

text \<open>
  The first client of an answer that nobody confirmed is told the time to live of the upstream server,
  here an hour, and not the 30 seconds for which the forwarder itself trusts it; the second is told 30.
\<close>

lemma unconfirmed_ttl_escapes:
  "\<exists>n r m rr. (n, r, m) \<in> set (d_log demo_dns_run) \<and> rr \<in> set (dm_Answer m) \<and> unat (rr_Ttl rr) = 3600 \<and>
     int (unat (rr_Ttl rr)) * Second > unarbitratedCacheTTL \<and> (\<forall>c. (([97, 46], TypeA), FromCloudflare c) \<notin> set (d_hist demo_dns_run))"
proof -
  have "(([97, 46], TypeA), FromCloudflare c) \<notin> set (d_hist demo_dns_run)" for c
    by (simp add: demo_dns_run_def demo_forwarder dns_start_def demo_direct cache_get_def [of _ _ "[]"] maxConcurrentResolves_def drop_at_def
      demo_bootstrap isBootstrapDomain_def demo_reply demo_hit upstream_of_def demo_upstreams)
  moreover have "(0, demo_dns_query, demo_answer [demo_rr [5, 6, 7, 8] 3600]) \<in> set (d_log demo_dns_run)" by (simp add: demo_dns_result)
  moreover have "demo_rr [5, 6, 7, 8] 3600 \<in> set (dm_Answer (demo_answer [demo_rr [5, 6, 7, 8] 3600]))" "unat (rr_Ttl (demo_rr [5, 6, 7, 8] 3600)) = 3600"
    by (simp_all add: demo_answer_def demo_rr_def)
  moreover have "int (unat (rr_Ttl (demo_rr [5, 6, 7, 8] 3600))) * Second > unarbitratedCacheTTL"
    by (simp add: demo_rr_def unarbitratedCacheTTL_def Second_def)
  ultimately show ?thesis by blast
qed



subsection \<open>Resolvers and replies\<close>

text \<open>
  The plain resolver gives an error or an answer that is no refusal, never neither; cutting for TCP
  does not bring a refusal back.  The DoH resolver asks at most two servers, the second only
  after a transport error.
\<close>

lemma plain_Resolve_result: "plain_Resolve udp tcp servers q = XErr \<or> (\<exists>m. plain_Resolve udp tcp servers q = XMsg m \<and> \<not> refused m)"
  by (induction servers) (auto simp: retryTCP_def split: exchange.split)

lemma doh_Resolve_result:
  assumes "\<not> dead 0" "\<not> dead 1"
  shows "doh_Resolve query dead (u1 # u2 # us) q = (case query u1 q of XErr \<Rightarrow> query u2 q | x \<Rightarrow> x)"
  using assms by (auto simp: doh_Resolve_def maxDoHAttempts_def numeral_2_eq_2 split: exchange.split)

text \<open>
  A reply to a client without EDNS is cut at 512 bytes, whatever the transport: the handler does not
  know whether the query came over TCP.
\<close>

lemma plain_client_cut_at_512:
  "lib_IsEdns0 L r = None \<Longrightarrow> \<exists>m'. serve_reply L r (Some m) = lib_Truncate L 512 m'"
  by (auto simp: serve_reply_def clientUDPBufSize_def Let_def)

end
