(* ===== verification/Socks_Tunnel.thy ===== *)
theory Socks_Tunnel
  imports Reassembler Ws_Pool Socks_Front
begin

section \<open>The relay of one proxied connection\<close>

text \<open>
  Models \<open>tunnelTCPStream\<close> and \<open>downlinkReassemblyLoop\<close> of \<open>proxy/socks5/tcp.go\<close>, and the semaphore of
  \<open>server.go\<close>: from the permit for a CONNECT over the registration of the stream to the two goroutines
  that copy bytes.  Relays share the semaphore and the client with its pool of connections; their
  steps interleave.  Encryption and the connection to the server are events with an outcome;
  waiting is a step that has not happened.  Shown: order and completeness of what the application
  reads, and the balance of permits; three defects of the bookkeeping are exhibited.
\<close>

subsection \<open>Replies and the semaphore\<close>

definition ReplySuccess :: bytes where "ReplySuccess = [5, 0, 0, 1, 0, 0, 0, 0, 0, 0]"
definition ReplyConnRefused :: bytes where "ReplyConnRefused = [5, 5, 0, 1, 0, 0, 0, 0, 0, 0]"

definition maxConcurrentConnects :: nat where "maxConcurrentConnects = 32"

record tunnelShared =
  u_pool :: wsPool
  u_sem :: nat              \<comment> \<open>tokens in \<open>connectSem\<close>\<close>

text \<open>\<open>AcquireConnect\<close> without its timeout: \<open>None\<close> while the channel is full.\<close>

definition AcquireConnect :: "tunnelShared \<Rightarrow> tunnelShared option" where
  "AcquireConnect u = (if u_sem u < maxConcurrentConnects then Some (u\<lparr>u_sem := Suc (u_sem u)\<rparr>) else None)"

definition ReleaseConnect :: "tunnelShared \<Rightarrow> tunnelShared" where
  "ReleaseConnect u = (if u_sem u > 0 then u\<lparr>u_sem := u_sem u - 1\<rparr> else u)"

subsection \<open>State of a relay\<close>

datatype transportKind = TPool | TSingle | TSplit

datatype relayPhase = RStart | RRegister | RAssign | RConnect | RSession | RRelay | RDone
datatype upState = UpReading | UpGrace | UpDone
datatype downState = DownLoop | DownDrain | DownDone

record relay =
  y_kind :: transportKind
  y_replies :: bool           \<comment> \<open>\<open>socks5Replies\<close>\<close>
  y_migrate :: bool
  y_dest :: gostring
  y_phase :: relayPhase
  y_sid :: u16
  y_acquired :: bool
  y_confirmed :: bool
  y_cancelled :: bool
  y_up :: upState
  y_down :: downState
  y_reasm :: reassembler
  y_gapArmed :: bool
  y_lastDown :: int
  y_conn :: "bytes list"      \<comment> \<open>written to the application\<close>
  y_sent :: "bytes list"      \<comment> \<open>sent to the server\<close>
  y_acks :: "u64 list"

definition new_relay :: "transportKind \<Rightarrow> bool \<Rightarrow> bool \<Rightarrow> gostring \<Rightarrow> int \<Rightarrow> relay" where
  "new_relay kind replies migrate dest maxBuffered = \<lparr>y_kind = kind, y_replies = replies, y_migrate = migrate, y_dest = dest,
     y_phase = RStart, y_sid = 0, y_acquired = False, y_confirmed = False, y_cancelled = False, y_up = UpReading, y_down = DownLoop,
     y_reasm = newReassembler maxBuffered, y_gapArmed = False, y_lastDown = 0, y_conn = [], y_sent = [], y_acks = []\<rparr>"

type_synonym relayWorld = "tunnelShared \<times> relay"

definition isDNS :: "gostring \<Rightarrow> bool" where
  "isDNS dest \<longleftrightarrow> drop (length dest - 3) dest = [58, 53, 51]"

definition on_pool :: "(wsPool \<Rightarrow> wsPool) \<Rightarrow> tunnelShared \<Rightarrow> tunnelShared" where
  "on_pool g u = u\<lparr>u_pool := g (u_pool u)\<rparr>"

definition on_client :: "(clientStreams \<Rightarrow> clientStreams) \<Rightarrow> tunnelShared \<Rightarrow> tunnelShared" where
  "on_client g u = on_pool (\<lambda>p. p\<lparr>client := g (client p)\<rparr>) u"

definition reply :: "bytes \<Rightarrow> relay \<Rightarrow> relay" where
  "reply b y = (if y_replies y then y\<lparr>y_conn := y_conn y @ [b]\<rparr> else y)"

subsection \<open>Setting up\<close>

text \<open>The deferred calls: the stream is closed if it was registered, then a permit still held is returned.\<close>

definition tunnel_exit :: "bool \<Rightarrow> relayWorld \<Rightarrow> relayWorld" where
  "tunnel_exit registered x =
     (let (u, y) = x;
          u1 = (if registered
                then (if y_kind y = TPool then on_pool (ReleaseStream (y_sid y)) else id) (on_client (UnregisterStream (y_sid y)) u)
                else u);
          u2 = (if y_acquired y then ReleaseConnect u1 else u1)
      in (u2, y\<lparr>y_phase := RDone, y_acquired := False\<rparr>))"

definition refuse :: "bool \<Rightarrow> relayWorld \<Rightarrow> relayWorld" where
  "refuse registered x = tunnel_exit registered (fst x, reply ReplyConnRefused (snd x))"

definition relay_acquire :: "bool \<Rightarrow> relayWorld \<Rightarrow> relayWorld" where
  "relay_acquire timedOut x =
     (let (u, y) = x
      in if isDNS (y_dest y) then (u, y\<lparr>y_phase := RRegister\<rparr>)
         else case AcquireConnect u of
                Some u1 \<Rightarrow> (u1, y\<lparr>y_acquired := True, y_phase := RRegister\<rparr>)
              | None \<Rightarrow> if timedOut then refuse False (u, y) else (u, y))"

definition relay_register :: "relayWorld \<Rightarrow> relayWorld" where
  "relay_register x =
     (let (u, y) = x;
          (sid, c1) = NextStreamID (client (u_pool u));
          y1 = y\<lparr>y_sid := sid\<rparr>
      in case (if y_migrate y then RegisterStreamSeq sid c1 else RegisterStream sid c1) of
           None \<Rightarrow> refuse False (on_client (\<lambda>_. c1) u, y1)
         | Some c2 \<Rightarrow> (on_client (\<lambda>_. c2) u, y1\<lparr>y_phase := RAssign\<rparr>))"

definition relay_assign :: "int \<Rightarrow> relayWorld \<Rightarrow> relayWorld" where
  "relay_assign now x =
     (let (u, y) = x
      in ((if y_kind y = TPool then on_pool (\<lambda>p. IncrPending (y_sid y) (AssignStream now (y_sid y) p)) else id) u, y\<lparr>y_phase := RConnect\<rparr>))"

text \<open>\<open>ok\<close>: a session was found, the chunk was sealed and sent, and for \<open>TSplit\<close> confirmed.\<close>

definition relay_connect :: "bool \<Rightarrow> relayWorld \<Rightarrow> relayWorld" where
  "relay_connect ok x =
     (let (u, y) = x;
          released = (ReleaseConnect u, y\<lparr>y_acquired := False\<rparr>);
          go_on = (\<lambda>(u, y). (u, (reply ReplySuccess y)\<lparr>y_phase := RSession\<rparr>))
      in if y_kind y = TSplit then (if ok then go_on released else refuse True released)
         else if ok then go_on released else refuse True (u, y))"

definition relay_session :: "bool \<Rightarrow> int \<Rightarrow> relayWorld \<Rightarrow> relayWorld" where
  "relay_session ok now x =
     (let (u, y) = x in if ok then (u, y\<lparr>y_phase := RRelay, y_lastDown := now\<rparr>) else tunnel_exit True (u, y))"

subsection \<open>The uplink goroutine\<close>

definition up_data :: "bytes \<Rightarrow> bool \<Rightarrow> relay \<Rightarrow> relay" where
  "up_data d ok y = (if ok then y\<lparr>y_sent := y_sent y @ [d]\<rparr> else y\<lparr>y_up := UpDone\<rparr>)"

definition up_eof :: "bool \<Rightarrow> relay \<Rightarrow> relay" where
  "up_eof writeClosed y =
     (if \<not> y_replies y
      then (if writeClosed then y\<lparr>y_cancelled := True\<rparr> else y)\<lparr>y_up := UpDone\<rparr>
      else y\<lparr>y_up := UpGrace\<rparr>)"

definition downlinkIdleGrace :: int where "downlinkIdleGrace = 15 * 1000000000"

text \<open>A tick of \<open>waitForIdleOrCancel\<close>.\<close>

definition up_grace :: "int \<Rightarrow> relay \<Rightarrow> relay" where
  "up_grace now y =
     (if y_cancelled y \<or> now - y_lastDown y \<ge> downlinkIdleGrace then y\<lparr>y_cancelled := True, y_up := UpDone\<rparr> else y)"

subsection \<open>The downlink goroutine\<close>

definition decr :: "relayWorld \<Rightarrow> tunnelShared" where
  "decr x = (if y_kind (snd x) = TPool then on_pool (DecrPending (y_sid (snd x))) (fst x) else fst x)"

definition confirm :: "relayWorld \<Rightarrow> relayWorld" where
  "confirm x = (decr x, (snd x)\<lparr>y_confirmed := True\<rparr>)"

text \<open>The end of the goroutine with its deferred calls.\<close>

definition down_exit :: "relayWorld \<Rightarrow> relayWorld" where
  "down_exit x =
     (if y_confirmed (snd x) then fst x else decr x,
      (snd x)\<lparr>y_gapArmed := False, y_cancelled := True, y_down := DownDone\<rparr>)"

definition on_control :: "bytes \<Rightarrow> relayWorld \<Rightarrow> relayWorld" where
  "on_control msg x =
     (let (u, y) = x
      in case parseConnectOKProof msg of
           Some proof \<Rightarrow>
             let x1 = (on_client (StoreStreamProof (y_sid y) proof) u, y) in if y_confirmed y then x1 else confirm x1
         | None \<Rightarrow>
             if y_confirmed y then (u, y)
             else if msg = connectFailMarker then down_exit (decr (u, y), y)
             else confirm (u, y))"

text \<open>Writing a run of frames to the application; \<open>w\<close> writes succeed.\<close>

fun write_run :: "nat \<Rightarrow> int \<Rightarrow> bytes list \<Rightarrow> relayWorld \<Rightarrow> bool \<times> relayWorld" where
  "write_run w now [] x = (True, x)"
| "write_run 0 now (d # ds) x = (False, x)"
| "write_run (Suc w) now (d # ds) x =
     write_run w now ds (on_client (OnStreamConsumed (y_sid (snd x)) (int (length d))) (fst x),
       (snd x)\<lparr>y_conn := y_conn (snd x) @ [d], y_lastDown := now\<rparr>)"

definition down_frame :: "u64 \<Rightarrow> bytes \<Rightarrow> nat \<Rightarrow> int \<Rightarrow> int \<Rightarrow> relayWorld \<Rightarrow> relayWorld" where
  "down_frame seq data w now jitter x =
     (if seq = 0 then on_control data x
      else case push seq data (y_reasm (snd x)) of ((out, st), r) \<Rightarrow>
        let x1 = (fst x, (snd x)\<lparr>y_reasm := r\<rparr>)
        in if st = reasmOverflow then down_exit x1
           else case write_run w now out x1 of
                  (False, (u, y)) \<Rightarrow> (u, y\<lparr>y_down := DownDrain\<rparr>)
                | (True, (u, y)) \<Rightarrow>
                    let (sent, c) = (if out = [] then (False, client (u_pool u))
                                     else sendStreamAckThrottled now jitter (y_sid y) False (client (u_pool u)))
                    in (on_client (\<lambda>_. c) u,
                        (if sent then y\<lparr>y_acks := y_acks y @ [expectedSeq r - 1]\<rparr> else y)\<lparr>y_gapArmed := hasGap r\<rparr>))"

definition down_data :: "bytes \<Rightarrow> bool \<Rightarrow> int \<Rightarrow> relayWorld \<Rightarrow> relayWorld" where
  "down_data data ok now x =
     (let y = snd x;
          write = (\<lambda>(u, y). let y1 = y\<lparr>y_lastDown := now\<rparr>
                            in if ok then (on_client (OnStreamConsumed (y_sid y) (int (length data))) u, y1\<lparr>y_conn := y_conn y @ [data]\<rparr>)
                               else (u, y1\<lparr>y_down := DownDrain\<rparr>))
      in if y_confirmed y then write x
         else if data = connectOKMarker then confirm x
         else if data = connectFailMarker then down_exit (decr x, y)
         else write (confirm x))"

subsection \<open>Steps\<close>

datatype relayEvent =
    EAcquire bool | ERegister | EAssign int | EConnect bool | ESession bool int
  | EUpData bytes bool | EUpEOF bool | EGrace int
  | EFrame u64 bytes nat int int | EData bytes bool int | EChanClosed | EGapTimer | EPeerClose | ECtxDone
  | EFinish

definition relaying :: "relay \<Rightarrow> bool" where
  "relaying y \<longleftrightarrow> y_phase y = RRelay"

fun tunnel_step :: "relayEvent \<Rightarrow> relayWorld \<Rightarrow> relayWorld" where
  "tunnel_step (EAcquire timedOut) x = (if y_phase (snd x) = RStart then relay_acquire timedOut x else x)"
| "tunnel_step ERegister x = (if y_phase (snd x) = RRegister then relay_register x else x)"
| "tunnel_step (EAssign now) x = (if y_phase (snd x) = RAssign then relay_assign now x else x)"
| "tunnel_step (EConnect ok) x = (if y_phase (snd x) = RConnect then relay_connect ok x else x)"
| "tunnel_step (ESession ok now) x = (if y_phase (snd x) = RSession then relay_session ok now x else x)"
| "tunnel_step (EUpData d ok) x = (if relaying (snd x) \<and> y_up (snd x) = UpReading then (fst x, up_data d ok (snd x)) else x)"
| "tunnel_step (EUpEOF wc) x = (if relaying (snd x) \<and> y_up (snd x) = UpReading then (fst x, up_eof wc (snd x)) else x)"
| "tunnel_step (EGrace now) x = (if relaying (snd x) \<and> y_up (snd x) = UpGrace then (fst x, up_grace now (snd x)) else x)"
| "tunnel_step (EFrame seq data w now jitter) x =
     (if relaying (snd x) \<and> y_migrate (snd x) \<and> y_down (snd x) = DownLoop then down_frame seq data w now jitter x else x)"
| "tunnel_step (EData data ok now) x =
     (if relaying (snd x) \<and> \<not> y_migrate (snd x) \<and> y_down (snd x) = DownLoop then down_data data ok now x else x)"
| "tunnel_step EChanClosed x = (if relaying (snd x) \<and> y_down (snd x) \<noteq> DownDone then down_exit x else x)"
| "tunnel_step EGapTimer x = (if relaying (snd x) \<and> y_down (snd x) = DownLoop \<and> y_gapArmed (snd x) then down_exit x else x)"
| "tunnel_step EPeerClose x = (if relaying (snd x) \<and> y_down (snd x) = DownLoop \<and> \<not> y_replies (snd x) then down_exit x else x)"
| "tunnel_step ECtxDone x = (if relaying (snd x) \<and> y_down (snd x) \<noteq> DownDone \<and> y_cancelled (snd x) then down_exit x else x)"
| "tunnel_step EFinish x =
     (if relaying (snd x) \<and> y_up (snd x) = UpDone \<and> y_down (snd x) = DownDone
      then tunnel_exit True (fst x, (snd x)\<lparr>y_cancelled := True\<rparr>) else x)"

text \<open>Any number of relays; step \<open>(i, e)\<close> is one of relay \<open>i\<close>.\<close>

definition tunnels_step :: "nat \<times> relayEvent \<Rightarrow> tunnelShared \<times> relay list \<Rightarrow> tunnelShared \<times> relay list" where
  "tunnels_step s w =
     (let (i, e) = s; (u, ys) = w
      in if i < length ys then case tunnel_step e (u, ys ! i) of (u1, y1) \<Rightarrow> (u1, ys[i := y1]) else w)"

subsection \<open>Permits\<close>

lemma sem_simps [simp]:
  "u_sem (on_pool g u) = u_sem u" "u_sem (on_client h u) = u_sem u" "u_sem (decr x) = u_sem (fst x)"
  "y_acquired (reply b y) = y_acquired y" "y_phase (reply b y) = y_phase y" "y_dest (reply b y) = y_dest y" "y_kind (reply b y) = y_kind y"
  by (simp_all add: on_pool_def on_client_def decr_def reply_def)

text \<open>What the downlink goroutine leaves alone.\<close>

definition fixed :: "relayWorld \<Rightarrow> nat \<times> bool \<times> relayPhase \<times> gostring \<times> transportKind \<times> bool \<times> bool \<times> upState" where
  "fixed x = (u_sem (fst x), y_acquired (snd x), y_phase (snd x), y_dest (snd x), y_kind (snd x), y_replies (snd x), y_migrate (snd x), y_up (snd x))"

lemma fixed_exit: "fixed (down_exit x) = fixed x" "fixed (confirm x) = fixed x" "fixed (decr x, snd x) = fixed x"
  by (simp_all add: fixed_def down_exit_def confirm_def)

lemma fixed_control: "fixed (on_control msg x) = fixed x"
  by (cases x) (simp add: on_control_def Let_def fixed_exit split: option.split, simp add: fixed_def)

lemma fixed_write: "fixed (snd (write_run w now ds x)) = fixed x"
  by (induction w now ds x rule: write_run.induct) (simp_all add: fixed_def)

lemma fixed_frame: "fixed (down_frame seq data w now j x) = fixed x"
proof (cases "seq = 0")
  case True then show ?thesis by (simp add: down_frame_def fixed_control)
next
  case False
  obtain out st r where p: "push seq data (y_reasm (snd x)) = ((out, st), r)" by (metis prod.exhaust)
  let ?x = "(fst x, (snd x)\<lparr>y_reasm := r\<rparr>)"
  have f: "fixed ?x = fixed x" by (simp add: fixed_def)
  obtain ok u y where w: "write_run w now out ?x = (ok, (u, y))" by (metis prod.exhaust)
  have g: "fixed (u, y) = fixed x" using fixed_write [of w now out ?x] f by (simp add: w)
  obtain sent c where a: "(if out = [] then (False, client (u_pool u)) else sendStreamAckThrottled now j (y_sid y) False (client (u_pool u))) = (sent, c)"
    by fastforce
  have "fixed (u, y\<lparr>y_down := DownDrain\<rparr>) = fixed x"
    "fixed (on_client (\<lambda>_. c) u, (if sent then y\<lparr>y_acks := y_acks y @ [expectedSeq r - 1]\<rparr> else y)\<lparr>y_gapArmed := hasGap r\<rparr>) = fixed x"
    using g by (simp_all add: fixed_def)
  then show ?thesis using False fixed_exit(1) [of ?x] f by (simp add: down_frame_def p w a Let_def split: bool.split del: if_split)
qed

lemma fixed_data: "fixed (down_data data ok now x) = fixed x"
  by (cases x) (auto simp: down_data_def Let_def fixed_exit(1) split_def, auto simp: fixed_def confirm_def)

text \<open>A relay holds a permit from \<open>AcquireConnect\<close> until its CONNECT was sent or refused.\<close>

definition permit_ok :: "relay \<Rightarrow> bool" where
  "permit_ok y \<longleftrightarrow> \<not> isDNS (y_dest y) \<and> (y_acquired y \<longleftrightarrow> y_phase y \<in> {RRegister, RAssign, RConnect})"

definition tokens :: "relay \<Rightarrow> nat" where
  "tokens y = (if y_acquired y then 1 else 0)"

definition permits_move :: "relayWorld \<Rightarrow> relayWorld \<Rightarrow> bool" where
  "permits_move x x' \<longleftrightarrow> permit_ok (snd x') \<and> u_sem (fst x') + tokens (snd x) = u_sem (fst x) + tokens (snd x') \<and>
     u_sem (fst x') \<le> maxConcurrentConnects"

lemma exit_move:
  assumes "\<not> isDNS (y_dest (snd x))" "tokens (snd x) \<le> u_sem (fst x)" "u_sem (fst x) \<le> maxConcurrentConnects"
  shows "permits_move x (tunnel_exit b x)" "permits_move x (refuse b x)"
  using assms by (auto split: if_splits simp: permits_move_def refuse_def tunnel_exit_def Let_def split_def permit_ok_def tokens_def ReleaseConnect_def)

lemma release_move:
  assumes "\<not> isDNS (y_dest y)" "y_acquired y" "u_sem u > 0" "u_sem u \<le> maxConcurrentConnects"
  shows "permits_move (u, y) (ReleaseConnect u, (reply b (y\<lparr>y_acquired := False\<rparr>))\<lparr>y_phase := RSession\<rparr>)"
    "permits_move (u, y) (refuse b' (ReleaseConnect u, y\<lparr>y_acquired := False\<rparr>))"
  using assms by (simp_all add: permits_move_def refuse_def tunnel_exit_def Let_def permit_ok_def tokens_def ReleaseConnect_def)

lemma fixed_move: "fixed x' = fixed x \<Longrightarrow> permits_move x x \<Longrightarrow> permits_move x x'"
  by (simp add: fixed_def permits_move_def permit_ok_def tokens_def)

lemma permit_step:
  assumes ok: "permit_ok (snd x)" and t: "tokens (snd x) \<le> u_sem (fst x)" and c: "u_sem (fst x) \<le> maxConcurrentConnects"
  shows "permits_move x (tunnel_step e x)"
proof -
  obtain u y where x: "x = (u, y)" by fastforce
  have refl: "permits_move x x" using assms by (simp add: permits_move_def)
  show ?thesis
  proof (cases e)
    case (EAcquire to)
    then show ?thesis using assms refl
      by (auto simp: x permits_move_def relay_acquire_def refuse_def tunnel_exit_def AcquireConnect_def ReleaseConnect_def permit_ok_def tokens_def
          Let_def split: option.split)
  next
    case ERegister
    then show ?thesis using assms refl
      by (auto simp: x permits_move_def relay_register_def refuse_def tunnel_exit_def ReleaseConnect_def permit_ok_def tokens_def
          Let_def split: option.split prod.split)
  next
    case (EConnect b)
    show ?thesis
    proof (cases "y_phase y = RConnect")
      case True
      then have a: "y_acquired y" "\<not> isDNS (y_dest y)" "u_sem u > 0" using assms by (auto simp: x permit_ok_def tokens_def)
      then show ?thesis using True EConnect c exit_move(2) [of x True] t release_move [OF a(2,1,3)]
        by (auto simp: x relay_connect_def Let_def)
    next
      case False then show ?thesis using EConnect refl by (simp add: x)
    qed
  next
    case (ESession b now)
    then show ?thesis using assms refl exit_move(1) [of x True] by (auto simp: x permits_move_def relay_session_def permit_ok_def tokens_def Let_def)
  next
    case (EFrame seq data w now j)
    then show ?thesis using refl fixed_move [OF fixed_frame] by simp
  next
    case (EData data b now)
    then show ?thesis using refl fixed_move [OF fixed_data] by simp
  next
    case EFinish
    then show ?thesis using assms refl
      by (auto simp: x permits_move_def tunnel_exit_def ReleaseConnect_def permit_ok_def tokens_def relaying_def Let_def split_def)
  qed (use assms in \<open>auto simp: x permits_move_def permit_ok_def tokens_def relay_assign_def up_data_def up_eof_def up_grace_def down_exit_def Let_def relaying_def\<close>)
qed

definition permits_inv :: "tunnelShared \<times> relay list \<Rightarrow> bool" where
  "permits_inv w \<longleftrightarrow> u_sem (fst w) = sum_list (map tokens (snd w)) \<and> u_sem (fst w) \<le> maxConcurrentConnects \<and> list_all permit_ok (snd w)"

lemma permits_inv_step:
  assumes "permits_inv w" shows "permits_inv (tunnels_step s w)"
proof -
  obtain i e u ys where w: "s = (i, e)" "w = (u, ys)" by fastforce
  show ?thesis
  proof (cases "i < length ys")
    case True
    obtain u1 y1 where r: "tunnel_step e (u, ys ! i) = (u1, y1)" by fastforce
    have le: "tokens (ys ! i) \<le> sum_list (map tokens ys)" using True by (intro member_le_sum_list) auto
    have "permits_move (u, ys ! i) (u1, y1)"
      using permit_step [of "(u, ys ! i)" e] assms True le by (simp add: permits_inv_def w r list_all_iff)
    moreover have "sum_list (map tokens (ys[i := y1])) + tokens (ys ! i) = sum_list (map tokens ys) + tokens y1"
      using True le by (simp add: map_update sum_list_update)
    moreover have "list_all permit_ok (ys[i := y1])" using assms calculation(1) set_update_subset_insert [of ys i y1]
      by (auto simp: permits_inv_def w list_all_iff permits_move_def)
    ultimately show ?thesis using assms True by (simp add: permits_inv_def w tunnels_step_def r permits_move_def)
  next
    case False then show ?thesis using assms by (simp add: w tunnels_step_def)
  qed
qed

interpretation tp: step_invariant tunnels_step permits_inv
  by unfold_locales (rule permits_inv_step)

subsection \<open>What the application reads\<close>

text \<open>
  The reply of the proxy, if there is one, comes first; then the frames \<open>1, \<dots>, n\<close> of the server, where
  \<open>D i\<close> is the content of frame \<open>i\<close>.
\<close>

definition greeting :: "relay \<Rightarrow> bytes list \<Rightarrow> bool" where
  "greeting y r \<longleftrightarrow>
     (if \<not> y_replies y then r = []
      else if y_phase y \<in> {RSession, RRelay} then r = [ReplySuccess]
      else if y_phase y = RDone then r = [ReplySuccess] \<or> r = [ReplyConnRefused]
      else r = [])"

definition relay_ok :: "(nat \<Rightarrow> bytes) \<Rightarrow> relay \<Rightarrow> nat \<Rightarrow> nat \<Rightarrow> nat set \<Rightarrow> bytes list \<Rightarrow> bool" where
  "relay_ok D y k n S r \<longleftrightarrow> frames_ok S \<and> reasm_inv D k S (y_reasm y) \<and> n \<le> k \<and> (y_down y = DownLoop \<longrightarrow> n = k) \<and>
     y_conn y = r @ map D [1..<Suc n] \<and> greeting y r \<and> (y_phase y \<notin> {RRelay, RDone} \<longrightarrow> n = 0 \<and> y_down y = DownLoop) \<and>
     (\<forall>a \<in> set (y_acks y). unat a \<le> n) \<and> y_migrate y"

definition event_ok :: "(nat \<Rightarrow> bytes) \<Rightarrow> relayEvent \<Rightarrow> bool" where
  "event_ok D e \<longleftrightarrow> (case e of EFrame seq data w now j \<Rightarrow> seq = 0 \<or> (\<exists>i. 1 \<le> i \<and> i < 2 ^ 64 - 1 \<and> seq = of_nat i \<and> data = D i) | _ \<Rightarrow> True)"

lemma write_run_result:
  "write_run w now out x = (ok, (u, y)) \<Longrightarrow>
   ok = (length out \<le> w) \<and> (\<exists>l. y = (snd x)\<lparr>y_conn := y_conn (snd x) @ take w out, y_lastDown := l\<rparr>)"
proof (induction w now out x rule: write_run.induct)
  case (1 w now x)
  then show ?case by (intro conjI exI [of _ "y_lastDown (snd x)"]) auto
next
  case (2 now d ds x)
  then show ?case by (intro conjI exI [of _ "y_lastDown (snd x)"]) auto
next
  case (3 w now d ds x)
  then show ?case by fastforce
qed

lemma take_frames: "k \<le> k' \<Longrightarrow> take w (map D [Suc k..<Suc k']) = map D [Suc k..<Suc (min k' (k + w))]"
  by (auto simp: take_map min_def simp del: upt_Suc)

lemma frames_append: "n \<le> m \<Longrightarrow> map D [1..<Suc n] @ map D [Suc n..<Suc m] = map D [1..<Suc m]"
  by (metis One_nat_def Suc_le_mono le_add_diff_inverse map_append plus_1_eq_Suc upt_add_eq_append zero_less_Suc less_eq_Suc_le)

lemma relay_ok_frame:
  assumes ok: "relay_ok D (snd x) k n S r" and l: "y_down (snd x) = DownLoop" "y_phase (snd x) = RRelay"
    and i: "1 \<le> i" "i < 2 ^ 64 - 1"
  shows "\<exists>k n S. relay_ok D (snd (down_frame (of_nat i) (D i) w now j x)) k n S r"
proof -
  have n: "n = k" and f: "frames_ok (insert i S)" and ri: "reasm_inv D k S (y_reasm (snd x))"
    using ok l i by (auto simp: relay_ok_def frames_ok_def)
  obtain k' st ra where p: "push (of_nat i) (D i) (y_reasm (snd x)) = ((map D [Suc k..<Suc k'], st), ra)" "k \<le> k'" "reasm_inv D k' (insert i S) ra"
    using reasm_inv_push [OF ri f] by blast
  have "unat (of_nat i :: u64) = i" using i by (intro unat_of_nat_u64) simp
  then have nz: "(of_nat i :: u64) \<noteq> 0" using i by auto
  let ?x = "(fst x, (snd x)\<lparr>y_reasm := ra\<rparr>)"
  obtain b u y where w: "write_run w now (map D [Suc k..<Suc k']) ?x = (b, (u, y))" by (metis prod.exhaust)
  then obtain t where t: "b = (length (map D [Suc k..<Suc k']) \<le> w)"
    "y = (snd ?x)\<lparr>y_conn := y_conn (snd ?x) @ take w (map D [Suc k..<Suc k']), y_lastDown := t\<rparr>"
    using write_run_result [OF w] by blast
  have y: "b = (k' - k \<le> w)"
    "y = (snd x)\<lparr>y_reasm := ra, y_conn := y_conn (snd x) @ map D [Suc k..<Suc (min k' (k + w))], y_lastDown := t\<rparr>"
    using t(1) t(2) unfolding take_frames [OF p(2)] by (simp_all del: upt_Suc)
  let ?m = "min k' (k + w)"
  have c: "y_conn y = r @ map D [1..<Suc ?m]"
    using ok n p(2) frames_append [of k ?m D] by (simp add: y relay_ok_def del: upt_Suc)
  have base: "relay_ok D (snd (down_exit ?x)) k' n (insert i S) r"
    using ok f p n l by (auto simp: relay_ok_def down_exit_def greeting_def)
  have drain: "relay_ok D (y\<lparr>y_down := DownDrain\<rparr>) k' ?m (insert i S) r"
    using ok f p c n l by (auto simp: relay_ok_def greeting_def y)
  have loop: "relay_ok D ((if sent then y\<lparr>y_acks := y_acks y @ [expectedSeq ra - 1]\<rparr> else y)\<lparr>y_gapArmed := hasGap ra\<rparr>) k' k' (insert i S) r"
    if "k' - k \<le> w" for sent
  proof -
    have m: "?m = k'" using that p(2) by simp
    have e: "expectedSeq ra - 1 = of_nat k'" "k' < 2 ^ 64" using p(3) by (auto simp: reasm_inv_def)
    have "unat (expectedSeq ra - 1) = k'" unfolding e(1) by (rule unat_of_nat_u64 [OF e(2)])
    then show ?thesis using ok f p c n l m by (auto simp: relay_ok_def greeting_def y)
  qed
  define out where "out = map D [Suc k..<Suc k']"
  have p1: "push (of_nat i) (D i) (y_reasm (snd x)) = ((out, st), ra)" and w1: "write_run w now out ?x = (b, (u, y))"
    using p(1) w by (simp_all only: out_def)
  obtain sent cl where a: "(if out = [] then (False, client (u_pool u))
      else sendStreamAckThrottled now j (y_sid y) False (client (u_pool u))) = (sent, cl)" by (metis prod.exhaust)
  have eq: "snd (down_frame (of_nat i) (D i) w now j x) =
    (if st = reasmOverflow then snd (down_exit ?x) else if b
     then (if sent then y\<lparr>y_acks := y_acks y @ [expectedSeq ra - 1]\<rparr> else y)\<lparr>y_gapArmed := hasGap ra\<rparr> else y\<lparr>y_down := DownDrain\<rparr>)"
    using nz by (simp add: down_frame_def p1 w1 a Let_def split: bool.split del: if_split)
  show ?thesis
  proof (cases "st = reasmOverflow")
    case True
    then have "relay_ok D (snd (down_frame (of_nat i) (D i) w now j x)) k' n (insert i S) r" using base by (simp only: eq if_True simp_thms)
    then show ?thesis by blast
  next
    case False
    show ?thesis
    proof (cases b)
      case True
      then have "relay_ok D (snd (down_frame (of_nat i) (D i) w now j x)) k' k' (insert i S) r"
        using loop [of sent] y(1) False by (simp only: eq if_True if_False)
      then show ?thesis by blast
    next
      case b: False
      then have "relay_ok D (snd (down_frame (of_nat i) (D i) w now j x)) k' ?m (insert i S) r" using drain False by (simp only: eq if_False)
      then show ?thesis by blast
    qed
  qed
qed

lemma relay_ok_exit:
  assumes "relay_ok D (snd x) k n S r" "y_phase (snd x) = RRelay"
  shows "relay_ok D (snd (down_exit x)) k n S r" "relay_ok D (snd (on_control msg x)) k n S r"
proof -
  show "relay_ok D (snd (down_exit x)) k n S r" using assms by (simp add: relay_ok_def down_exit_def greeting_def)
  have "snd (on_control msg x) = snd x \<or> snd (on_control msg x) = (snd x)\<lparr>y_confirmed := True\<rparr> \<or> snd (on_control msg x) = snd (down_exit x)"
    by (cases x) (simp add: on_control_def Let_def confirm_def down_exit_def split: option.split)
  moreover have "relay_ok D ((snd x)\<lparr>y_confirmed := True\<rparr>) k n S r" using assms by (simp add: relay_ok_def greeting_def)
  ultimately show "relay_ok D (snd (on_control msg x)) k n S r" using assms(1) \<open>relay_ok D (snd (down_exit x)) k n S r\<close> by auto
qed

text \<open>Steps that leave the downlink and the application alone.\<close>

definition same_down :: "relay \<Rightarrow> relay \<Rightarrow> bool" where
  "same_down y y' \<longleftrightarrow> y_reasm y' = y_reasm y \<and> y_down y' = y_down y \<and> y_acks y' = y_acks y \<and> y_migrate y' = y_migrate y \<and> y_replies y' = y_replies y"

lemma relay_ok_same:
  assumes "relay_ok D y k n S r" "same_down y y'" "y_conn y' = y_conn y" "greeting y' r" "y_phase y' \<in> {RRelay, RDone} \<or> y_phase y \<notin> {RRelay, RDone}"
  shows "relay_ok D y' k n S r"
  using assms by (auto simp: relay_ok_def same_down_def)

lemma relay_ok_reply:
  assumes "relay_ok D y k n S []" "same_down y y'" "y_phase y \<notin> {RRelay, RDone}" "y_replies y" "y_conn y' = y_conn y @ [b]" "greeting y' [b]"
  shows "relay_ok D y' k n S [b]"
  using assms by (auto simp: relay_ok_def same_down_def)

lemma early_greeting: "relay_ok D y k n S r \<Longrightarrow> y_phase y \<in> {RStart, RRegister, RAssign, RConnect} \<Longrightarrow> r = []"
  by (auto simp: relay_ok_def greeting_def split: if_splits)

lemma relay_ok_refuse:
  assumes "relay_ok D y k n S r" "y_phase y \<in> {RStart, RRegister, RAssign, RConnect}" "y' = snd (refuse b (u, y\<lparr>y_acquired := a, y_sid := sid\<rparr>))"
  shows "\<exists>r. relay_ok D y' k n S r"
proof -
  have y': "y' = (reply ReplyConnRefused (y\<lparr>y_acquired := a, y_sid := sid\<rparr>))\<lparr>y_phase := RDone, y_acquired := False\<rparr>"
    by (simp add: assms(3) refuse_def tunnel_exit_def Let_def)
  have r: "relay_ok D y k n S []" using assms(1) early_greeting [OF assms(1,2)] by simp
  show ?thesis
  proof (cases "y_replies y")
    case True
    have "relay_ok D y' k n S [ReplyConnRefused]"
      by (rule relay_ok_reply [OF r]) (use True assms(2) in \<open>auto simp: y' reply_def same_down_def greeting_def\<close>)
    then show ?thesis ..
  next
    case False
    have "relay_ok D y' k n S []" by (rule relay_ok_same [OF r]) (use False in \<open>auto simp: y' reply_def same_down_def greeting_def\<close>)
    then show ?thesis ..
  qed
qed

lemma relay_ok_connected:
  assumes "relay_ok D y k n S r" "y_phase y = RConnect"
  shows "\<exists>r. relay_ok D ((reply ReplySuccess (y\<lparr>y_acquired := False\<rparr>))\<lparr>y_phase := RSession\<rparr>) k n S r"
proof -
  have r: "relay_ok D y k n S []" using assms early_greeting [OF assms(1)] by simp
  show ?thesis
  proof (cases "y_replies y")
    case True
    have "relay_ok D ((reply ReplySuccess (y\<lparr>y_acquired := False\<rparr>))\<lparr>y_phase := RSession\<rparr>) k n S [ReplySuccess]"
      by (rule relay_ok_reply [OF r]) (use True assms(2) in \<open>auto simp: reply_def same_down_def greeting_def\<close>)
    then show ?thesis ..
  next
    case False
    have "relay_ok D ((reply ReplySuccess (y\<lparr>y_acquired := False\<rparr>))\<lparr>y_phase := RSession\<rparr>) k n S []"
      by (rule relay_ok_same [OF r]) (use False assms(2) in \<open>auto simp: reply_def same_down_def greeting_def\<close>)
    then show ?thesis ..
  qed
qed

definition relay_fine :: "(nat \<Rightarrow> bytes) \<Rightarrow> relay \<Rightarrow> bool" where
  "relay_fine D y \<longleftrightarrow> (\<exists>k n S r. relay_ok D y k n S r)"

lemma relay_fineI: "relay_ok D y k n S r \<Longrightarrow> relay_fine D y"
  by (auto simp: relay_fine_def)

lemma relay_fine_same:
  assumes "relay_fine D y" "same_down y y'" "y_conn y' = y_conn y" "\<And>r. greeting y r \<Longrightarrow> greeting y' r"
    "y_phase y' \<in> {RRelay, RDone} \<or> y_phase y \<notin> {RRelay, RDone}"
  shows "relay_fine D y'"
proof -
  obtain k n S r where ok: "relay_ok D y k n S r" using assms(1) by (auto simp: relay_fine_def)
  then have "greeting y' r" using assms(4) by (simp add: relay_ok_def)
  then show ?thesis using relay_ok_same [OF ok assms(2,3)] assms(5) relay_fineI by blast
qed

lemma relay_fine_step:
  assumes fine: "relay_fine D (snd x)" and e: "event_ok D ev"
  shows "relay_fine D (snd (tunnel_step ev x))"
proof -
  obtain u y where x: "x = (u, y)" by fastforce
  obtain k n S r where ok: "relay_ok D y k n S r" using fine by (auto simp: relay_fine_def x)
  have self: "relay_fine D y" using fine by (simp add: x)
  have same: "relay_fine D y'"
    if "same_down y y'" "y_conn y' = y_conn y" "\<And>r. greeting y r \<Longrightarrow> greeting y' r" "y_phase y' \<in> {RRelay, RDone} \<or> y_phase y \<notin> {RRelay, RDone}" for y'
    by (rule relay_fine_same [OF self that])
  have ref: "relay_fine D (snd (refuse b (u', y\<lparr>y_acquired := a, y_sid := sid\<rparr>)))" if "y_phase y \<in> {RStart, RRegister, RAssign, RConnect}" for b u' a sid
    unfolding relay_fine_def using relay_ok_refuse [OF ok that refl] by blast
  have ex: "relay_fine D (snd (down_exit (u, y)))" if "y_phase y = RRelay"
    using relay_ok_exit(1) [of D "(u, y)" k n S r] ok that by (auto intro: relay_fineI)
  show ?thesis
  proof (cases ev)
    case (EAcquire to)
    show ?thesis
    proof (cases "y_phase y = RStart")
      case True
      have "relay_fine D (y\<lparr>y_phase := RRegister\<rparr>)" "relay_fine D (y\<lparr>y_acquired := True, y_phase := RRegister\<rparr>)"
        by (rule same; use True in \<open>auto simp: same_down_def greeting_def\<close>)+
      moreover have "relay_fine D (snd (refuse False (u, y)))" using ref [where b = False and u' = u and a = "y_acquired y" and sid = "y_sid y"] True by simp
      ultimately show ?thesis using True EAcquire self by (simp add: x relay_acquire_def Let_def split: option.split)
    qed (use EAcquire self in \<open>simp add: x\<close>)
  next
    case ERegister
    show ?thesis
    proof (cases "y_phase y = RRegister")
      case True
      have "relay_fine D (y\<lparr>y_sid := sid, y_phase := RAssign\<rparr>)" for sid
        by (rule same) (use True in \<open>auto simp: same_down_def greeting_def\<close>)
      moreover have "relay_fine D (snd (refuse False (u', y\<lparr>y_sid := sid\<rparr>)))" for u' sid using ref [where b = False and u' = u' and a = "y_acquired y" and sid = sid] True by simp
      ultimately show ?thesis using True ERegister self by (simp add: x relay_register_def Let_def split: option.split prod.split)
    qed (use ERegister self in \<open>simp add: x\<close>)
  next
    case (EAssign now)
    then show ?thesis using self by (auto simp: x relay_assign_def Let_def intro!: same simp: same_down_def greeting_def)
  next
    case (EConnect b)
    show ?thesis
    proof (cases "y_phase y = RConnect")
      case True
      have "relay_fine D ((reply ReplySuccess (y\<lparr>y_acquired := False\<rparr>))\<lparr>y_phase := RSession\<rparr>)"
        using relay_ok_connected [OF ok True] by (auto simp: relay_fine_def)
      moreover have "relay_fine D (snd (refuse True (u', y\<lparr>y_acquired := a\<rparr>)))" for u' a using ref [where b = True and u' = u' and a = a and sid = "y_sid y"] True by simp
      moreover have "relay_fine D (snd (refuse True (u, y)))" using ref [where b = True and u' = u and a = "y_acquired y" and sid = "y_sid y"] True by simp
      ultimately show ?thesis using True EConnect by (simp add: x relay_connect_def Let_def)
    qed (use EConnect self in \<open>simp add: x\<close>)
  next
    case (ESession b now)
    then show ?thesis using self
      by (auto simp: x relay_session_def tunnel_exit_def Let_def intro!: same simp: same_down_def greeting_def split: if_splits)
  next
    case (EFrame seq data w now j)
    show ?thesis
    proof (cases "relaying y \<and> y_migrate y \<and> y_down y = DownLoop")
      case True
      have "relay_fine D (snd (down_frame seq data w now j x))"
      proof (cases "seq = 0")
        case z: True
        show ?thesis using relay_ok_exit(2) [of D x k n S r data] ok True z by (auto simp: x down_frame_def relaying_def intro: relay_fineI)
      next
        case False
        then obtain i where "1 \<le> i" "i < 2 ^ 64 - 1" "seq = of_nat i" "data = D i" using e EFrame by (auto simp: event_ok_def)
        then have "\<exists>k n S. relay_ok D (snd (down_frame seq data w now j x)) k n S r"
          using relay_ok_frame [of D x k n S r i w now j] ok True by (simp add: x relaying_def)
        then show ?thesis unfolding relay_fine_def by blast
      qed
      then show ?thesis using True EFrame by (simp add: x)
    qed (use EFrame self in \<open>auto simp: x\<close>)
  next
    case EFinish
    then show ?thesis using self
      by (auto simp: x tunnel_exit_def Let_def relaying_def intro!: same simp: same_down_def greeting_def split: if_splits)
  next
    case (EData data b now)
    then show ?thesis using self ok by (simp add: x relay_ok_def)
  next
    case (EUpData d b)
    then show ?thesis using self by (auto simp: x up_data_def intro!: same simp: same_down_def greeting_def)
  next
    case (EUpEOF b)
    then show ?thesis using self by (auto simp: x up_eof_def intro!: same simp: same_down_def greeting_def)
  next
    case (EGrace now)
    then show ?thesis using self by (auto simp: x up_grace_def intro!: same simp: same_down_def greeting_def)
  qed (use self ex in \<open>auto simp: x relaying_def\<close>)
qed

lemma relay_fine_new: "relay_fine D (new_relay kind replies True dest mb)"
proof -
  have "relay_ok D (new_relay kind replies True dest mb) 0 0 {} []"
    using reasm_inv_new [of D mb] by (simp add: relay_ok_def new_relay_def frames_ok_def greeting_def)
  then show ?thesis by (rule relay_fineI)
qed

lemma relay_fine_world:
  "list_all (relay_fine D) (snd w) \<Longrightarrow> list_all (\<lambda>(i, e). event_ok D e) steps \<Longrightarrow> list_all (relay_fine D) (snd (fold tunnels_step steps w))"
proof (induction steps arbitrary: w)
  case (Cons s steps)
  obtain i e u ys where w: "s = (i, e)" "w = (u, ys)" by fastforce
  have "list_all (relay_fine D) (snd (tunnels_step s w))"
  proof (cases "i < length ys")
    case True
    obtain u1 y1 where r: "tunnel_step e (u, ys ! i) = (u1, y1)" by fastforce
    have "relay_fine D y1" using relay_fine_step [of D "(u, ys ! i)" e] Cons.prems True by (auto simp: w r list_all_length)
    then show ?thesis using Cons.prems(1) True set_update_subset_insert [of ys i y1]
      by (auto simp: w tunnels_step_def r list_all_iff)
  qed (use Cons.prems in \<open>simp add: w tunnels_step_def\<close>)
  then show ?case using Cons by simp
qed simp

subsection \<open>Properties\<close>



subsection \<open>Pending CONNECTs of a slot\<close>

lemma assign_pick_client: "assign_pick (p\<lparr>client := c\<rparr>) now = assign_pick p now"
proof -
  have s: "pass_score (p\<lparr>client := c\<rparr>) = pass_score p" "load_score (p\<lparr>client := c\<rparr>) = load_score p"
    by (intro ext, simp add: pass_score_def load_score_def getState_def obj_def split: option.split)+
  have c: "slots (p\<lparr>client := c\<rparr>) = slots p" by simp
  show ?thesis unfolding assign_pick_def s c ..
qed

text \<open>
  The slot and the counters of a stream right after \<open>AssignStream\<close>.
\<close>

definition assigned :: "wsPool \<Rightarrow> u16 \<Rightarrow> nat \<Rightarrow> nat \<Rightarrow> bool" where
  "assigned p sid idx a \<longleftrightarrow> entry p sid \<noteq> None \<and> slotIdx (the (entry p sid)) = idx \<and> slotAt p idx = Some a \<and> a < length (slot_objs p)"

lemma assigned_slot: "assigned p sid idx a \<Longrightarrow> with_slot_of p sid = Some a"
  by (auto simp: assigned_def with_slot_of_def)

lemma assigned_AssignStream:
  assumes "assign_pick p now = Some idx" "slotAt p idx = Some a" "a < length (slot_objs p)" "map_of (streamMap p) sid = None"
  shows "assigned (AssignStream now sid p) sid idx a" "pendingConnects (obj (AssignStream now sid p) a) = pendingConnects (obj p a)"
    "slot_streams (obj (AssignStream now sid p) a) = slot_streams (obj p a) + 1"
  using assms by (auto simp: assigned_def AssignStream_def store_entry_def upd_obj_def entry_def newStreamEntry_def slotAt_def obj_def update_conv' nth_append split: if_splits)

lemma assigned_pending:
  assumes "assigned p sid idx a"
  shows "assigned (IncrPending sid p) sid idx a" "pendingConnects (obj (IncrPending sid p) a) = pendingConnects (obj p a) + 1"
    "slot_streams (obj (IncrPending sid p) a) = slot_streams (obj p a)"
    "assigned (DecrPending sid p) sid idx a" "pendingConnects (obj (DecrPending sid p) a) = pendingConnects (obj p a) - 1"
    "slot_streams (obj (DecrPending sid p) a) = slot_streams (obj p a)"
  using assms assigned_slot [OF assms] by (auto simp: IncrPending_def DecrPending_def upd_obj_def assigned_def entry_def slotAt_def obj_def split: if_splits)

lemma assigned_client:
  "assigned (p\<lparr>client := c\<rparr>) sid idx a = assigned p sid idx a" "obj (p\<lparr>client := c\<rparr>) a = obj p a"
  by (simp_all add: assigned_def entry_def slotAt_def obj_def)

lemma assigned_release:
  assumes "assigned p sid idx a" "slot_streams (obj p a) > 0"
  shows "pendingConnects (obj (ReleaseStream sid p) a) = pendingConnects (obj p a)" "slot_streams (obj (ReleaseStream sid p) a) = slot_streams (obj p a) - 1"
  using assms by (auto simp: ReleaseStream_def drop_entry_def assigned_def slotAt_def upd_obj_def obj_def decStreamsFloor_def Let_def split: option.split if_splits)

text \<open>From the start of a relay over the pool to the point before its CONNECT.\<close>

lemma relay_prepared:
  assumes "\<not> isDNS dest" "u_sem u < maxConcurrentConnects" "NextStreamID (client (u_pool u)) = (sid, c1)" "RegisterStream sid c1 = Some c2"
    "assign_pick (u_pool u) now = Some idx" "slotAt (u_pool u) idx = Some a" "a < length (slot_objs (u_pool u))"
    "map_of (streamMap (u_pool u)) sid = None"
  shows "\<exists>u1. fold tunnel_step [EAcquire False, ERegister, EAssign now] (u, new_relay TPool replies False dest mb) =
       (u1, (new_relay TPool replies False dest mb)\<lparr>y_acquired := True, y_sid := sid, y_phase := RConnect\<rparr>) \<and>
     assigned (u_pool u1) sid idx a \<and> pendingConnects (obj (u_pool u1) a) = pendingConnects (obj (u_pool u) a) + 1 \<and>
     slot_streams (obj (u_pool u1) a) = slot_streams (obj (u_pool u) a) + 1"
proof -
  let ?p = "(u_pool u)\<lparr>client := c2\<rparr>"
  have q: "assign_pick ?p now = Some idx" "slotAt ?p idx = Some a" "a < length (slot_objs ?p)" "map_of (streamMap ?p) sid = None"
    using assms by (simp_all add: assign_pick_client slotAt_def)
  note f = assigned_AssignStream [OF q]
  note g = assigned_pending(1-3) [OF f(1)]
  let ?u = "u\<lparr>u_sem := Suc (u_sem u), u_pool := IncrPending sid (AssignStream now sid ?p)\<rparr>"
  have "fold tunnel_step [EAcquire False, ERegister, EAssign now] (u, new_relay TPool replies False dest mb) =
       (?u, (new_relay TPool replies False dest mb)\<lparr>y_acquired := True, y_sid := sid, y_phase := RConnect\<rparr>)"
    using assms by (simp add: new_relay_def relay_acquire_def AcquireConnect_def relay_register_def relay_assign_def on_client_def on_pool_def Let_def)
  then show ?thesis using f g by (intro exI [of _ ?u]) (simp add: assigned_client)
qed

text \<open>The end of a relay over the pool: its stream is released.\<close>

lemma tunnel_exit_pool:
  assumes "assigned (u_pool u) (y_sid y) idx a" "slot_streams (obj (u_pool u) a) > 0" "y_kind y = TPool"
  shows "pendingConnects (obj (u_pool (fst (tunnel_exit True (u, y)))) a) = pendingConnects (obj (u_pool u) a)"
    "slot_streams (obj (u_pool (fst (tunnel_exit True (u, y)))) a) = slot_streams (obj (u_pool u) a) - 1"
proof -
  let ?p = "(u_pool u)\<lparr>client := UnregisterStream (y_sid y) (client (u_pool u))\<rparr>"
  have q: "u_pool (fst (tunnel_exit True (u, y))) = ReleaseStream (y_sid y) ?p"
    using assms(3) by (simp add: tunnel_exit_def Let_def on_pool_def on_client_def ReleaseConnect_def)
  have "assigned ?p (y_sid y) idx a" "slot_streams (obj ?p a) > 0" using assms(1,2) by (simp_all add: assigned_client)
  from assigned_release [OF this]
  show "pendingConnects (obj (u_pool (fst (tunnel_exit True (u, y)))) a) = pendingConnects (obj (u_pool u) a)"
    "slot_streams (obj (u_pool (fst (tunnel_exit True (u, y)))) a) = slot_streams (obj (u_pool u) a) - 1"
    unfolding q by (simp_all add: assigned_client)
qed

abbreviation refused_events :: "int \<Rightarrow> relayEvent list" where
  "refused_events now \<equiv> [EAcquire False, ERegister, EAssign now] @
     [EConnect True, ESession True now, EData connectFailMarker True now, EUpEOF True, EGrace now, EFinish]"

abbreviation unsent_events :: "int \<Rightarrow> relayEvent list" where
  "unsent_events now \<equiv> [EAcquire False, ERegister, EAssign now] @ [EConnect False]"

text \<open>C32. The count of pending CONNECTs by which the pool balances its slots drifts: a relay whose target the
  server could not reach ends with the count one lower than before, as the handler of CONNECT_FAIL and the
  deferred call both subtract; a relay whose CONNECT could not be sent ends with the count one higher, as
  nothing subtracts.  The number of streams of the slot is restored in both cases.\<close>

theorem pending_connects_drift:
  assumes "\<not> isDNS dest" "u_sem u < maxConcurrentConnects" "NextStreamID (client (u_pool u)) = (sid, c1)" "RegisterStream sid c1 = Some c2"
    "assign_pick (u_pool u) now = Some idx" "slotAt (u_pool u) idx = Some a" "a < length (slot_objs (u_pool u))"
    "map_of (streamMap (u_pool u)) sid = None" "0 \<le> slot_streams (obj (u_pool u) a)"
    "(u1, y1) = fold tunnel_step (refused_events now) (u, new_relay TPool replies False dest mb)"
    "(u2, y2) = fold tunnel_step (unsent_events now) (u, new_relay TPool replies False dest mb)"
  shows "y_phase y1 = RDone \<and> pendingConnects (obj (u_pool u1) a) = pendingConnects (obj (u_pool u) a) - 1 \<and>
    slot_streams (obj (u_pool u1) a) = slot_streams (obj (u_pool u) a) \<and>
    y_phase y2 = RDone \<and> pendingConnects (obj (u_pool u2) a) = pendingConnects (obj (u_pool u) a) + 1 \<and>
    slot_streams (obj (u_pool u2) a) = slot_streams (obj (u_pool u) a)"
proof -
  let ?y = "(new_relay TPool replies False dest mb)\<lparr>y_acquired := True, y_sid := sid, y_phase := RConnect\<rparr>"
  obtain v where v: "fold tunnel_step [EAcquire False, ERegister, EAssign now] (u, new_relay TPool replies False dest mb) = (v, ?y)"
    "assigned (u_pool v) sid idx a" "pendingConnects (obj (u_pool v) a) = pendingConnects (obj (u_pool u) a) + 1"
    "slot_streams (obj (u_pool v) a) = slot_streams (obj (u_pool u) a) + 1"
    using relay_prepared [OF assms(1-8)] by blast
  have two: "(u2, y2) = refuse True (v, ?y)"
    using assms(11) unfolding fold_append comp_def v(1) by (simp add: relay_connect_def new_relay_def Let_def)
  have "y_kind (reply ReplyConnRefused ?y) = TPool" "y_sid (reply ReplyConnRefused ?y) = sid" by (simp_all add: reply_def new_relay_def)
  then have r2: "pendingConnects (obj (u_pool u2) a) = pendingConnects (obj (u_pool v) a)" "slot_streams (obj (u_pool u2) a) = slot_streams (obj (u_pool v) a) - 1"
    using tunnel_exit_pool [of v "reply ReplyConnRefused ?y" idx a] v(2,4) assms(9) fst_conv [of u2 y2] unfolding two refuse_def by auto
  have p2: "y_phase y2 = RDone" using two by (simp add: refuse_def tunnel_exit_def Let_def)
  let ?w = "(ReleaseConnect v)\<lparr>u_pool := DecrPending sid (DecrPending sid (u_pool v))\<rparr>"
  have "\<exists>z. (u1, y1) = tunnel_exit True (?w, z) \<and> y_kind z = TPool \<and> y_sid z = sid"
    using assms(10) unfolding fold_append comp_def v(1)
    by (cases replies) (auto simp: relay_connect_def new_relay_def Let_def reply_def relay_session_def down_data_def relaying_def connectFailMarker_def
        connectOKMarker_def down_exit_def decr_def on_pool_def up_eof_def up_grace_def ReleaseConnect_def)
  then obtain z where z: "(u1, y1) = tunnel_exit True (?w, z)" "y_kind z = TPool" "y_sid z = sid" by blast
  note d1 = assigned_pending(4-6) [OF v(2)]
  note d2 = assigned_pending(4-6) [OF d1(1)]
  have "pendingConnects (obj (u_pool u1) a) = pendingConnects (obj (u_pool ?w) a)" "slot_streams (obj (u_pool u1) a) = slot_streams (obj (u_pool ?w) a) - 1"
    using tunnel_exit_pool [of ?w z idx a] z(2,3) d1 d2 v(4) assms(9) fst_conv [of u1 y1] unfolding z(1) by auto
  moreover have "y_phase y1 = RDone" using z(1) by (simp add: tunnel_exit_def Let_def)
  ultimately show ?thesis using r2 p2 v(3,4) d1 d2 by simp
qed

text \<open>
  A CONNECT to port 53 takes no permit but returns one, so that afterwards more relays than the
  semaphore allows can be connecting.
\<close>

lemma dns_connect_returns_foreign_permit:
  assumes "isDNS (y_dest y)" "y_phase y = RConnect" "\<not> y_acquired y" "u_sem u = Suc n"
  shows "u_sem (fst (tunnel_step (EConnect True) (u, y))) = n"
  using assms by (simp add: relay_connect_def ReleaseConnect_def Let_def)

subsection \<open>Examples\<close>

lemma demo_next_id: "NextStreamID newClientStreams = (1, newClientStreams\<lparr>streamCounter := 1\<rparr>)"
proof -
  have "(65535 :: nat) = Suc 65534" by simp
  then show ?thesis by (simp only: NextStreamID_def next_id_loop.simps) (simp add: newClientStreams_def next_counter_def id_in_use_def Let_def)
qed

definition demo_tunnel_pool :: wsPool where
  "demo_tunnel_pool = (allocSlots \<lparr>poolSize = 1, maxPendingPerSlot = 8, maxStreamsPerSlot = 0, maxSlotAge = 0, gracefulDrain = False, drainHardCap = 0,
     drainIdleThreshold = 0, stickyMaxDrainAge = 0, stickyMaxTotalBytes = 0, stickyMaxSlots = 0, floorProduct = 0, meltdownThreshold = 0,
     meltdownCooldown = 0, byteBudgetMinInterval = 0, ageCutMinAge = 0\<rparr>)
     \<lparr>slots := [Some 0, None], slot_objs := [(new_slot 0)\<lparr>slot_state := slotReady\<rparr>]\<rparr>"

definition demo_shared :: tunnelShared where "demo_shared = \<lparr>u_pool = demo_tunnel_pool, u_sem = 0\<rparr>"

definition demo_dest :: gostring where "demo_dest = [97, 58, 56, 48]"

lemma demo_pick: "assign_pick demo_tunnel_pool 0 = Some 0"
  by (simp add: assign_pick_def pick_min_def pass_score_def demo_tunnel_pool_def allocSlots_def getState_def obj_def new_slot_def MaxInt32_def)

lemma demo_register: "\<exists>c2. RegisterStream 1 (newClientStreams\<lparr>streamCounter := 1\<rparr>) = Some c2"
  by (simp add: RegisterStream_def newClientStreams_def maxClientStreams_def)

theorem pending_connects_drift_witness:
  "pendingConnects (obj (u_pool (fst (fold tunnel_step (refused_events 0) (demo_shared, new_relay TPool True False demo_dest 0)))) 0) = - 1 \<and>
   pendingConnects (obj (u_pool (fst (fold tunnel_step (unsent_events 0) (demo_shared, new_relay TPool True False demo_dest 0)))) 0) = 1"
proof -
  obtain c2 where c2: "RegisterStream 1 (newClientStreams\<lparr>streamCounter := 1\<rparr>) = Some c2" using demo_register by blast
  have d: "\<not> isDNS demo_dest" "u_sem demo_shared < maxConcurrentConnects" "slotAt (u_pool demo_shared) 0 = Some 0"
    "0 < length (slot_objs (u_pool demo_shared))" "map_of (streamMap (u_pool demo_shared)) 1 = None"
    "slot_streams (obj (u_pool demo_shared) 0) = 0" "pendingConnects (obj (u_pool demo_shared) 0) = 0" "client (u_pool demo_shared) = newClientStreams"
    "assign_pick (u_pool demo_shared) 0 = Some 0"
    using demo_pick by (simp_all add: isDNS_def demo_dest_def demo_shared_def demo_tunnel_pool_def allocSlots_def maxConcurrentConnects_def slotAt_def obj_def new_slot_def)
  obtain u1 y1 u2 y2 where r: "(u1, y1) = fold tunnel_step (refused_events 0) (demo_shared, new_relay TPool True False demo_dest 0)"
    "(u2, y2) = fold tunnel_step (unsent_events 0) (demo_shared, new_relay TPool True False demo_dest 0)" by (metis prod.exhaust)
  have n: "NextStreamID (client (u_pool demo_shared)) = (1, newClientStreams\<lparr>streamCounter := 1\<rparr>)" by (simp add: d(8) demo_next_id)
  have "0 \<le> slot_streams (obj (u_pool demo_shared) 0)" by (simp add: d(6))
  note p = pending_connects_drift [OF d(1,2) n c2 d(9,3,4,5) this r]
  then show ?thesis unfolding r [symmetric] by (simp add: d(7))
qed

text \<open>Frame 2 before frame 1.\<close>

definition demo_steps :: "(nat \<times> relayEvent) list" where
  "demo_steps = map (Pair 0) [EAcquire False, ERegister, EAssign 0, EConnect True, ESession True 0, EFrame 0 connectOKMarker 1 0 0,
     EFrame 2 [2] 9 0 0, EFrame 1 [1] 9 0 0]"

definition demo_tunnels :: "tunnelShared \<times> relay list" where
  "demo_tunnels = fold tunnels_step demo_steps (demo_shared, [new_relay TSingle True True demo_dest 1000])"

lemma demo_register_seq: "\<exists>c2. RegisterStreamSeq 1 (newClientStreams\<lparr>streamCounter := 1\<rparr>) = Some c2"
  by (simp add: RegisterStreamSeq_def newClientStreams_def maxClientStreams_def)

lemma demo_reasm:
  "push 2 [2] (newReassembler 1000) = (([], reasmOK), \<lparr>expectedSeq = 1, pending = [(2, [2])], bufBytes = 1, maxBytes = 1000\<rparr>)"
  "push 1 [1] \<lparr>expectedSeq = 1, pending = [(2, [2])], bufBytes = 1, maxBytes = 1000\<rparr> =
     (([[1], [2]], reasmOK), \<lparr>expectedSeq = 3, pending = [], bufBytes = 0, maxBytes = 1000\<rparr>)"
  by (simp_all add: push_def newReassembler_def drain_loop.simps)

lemma tunnels_single:
  "fold tunnels_step (map (Pair 0) es) (u, [y]) = (fst (fold tunnel_step es (u, y)), [snd (fold tunnel_step es (u, y))])"
  by (induction es arbitrary: u y) (simp_all add: tunnels_step_def split_def)

lemma demo_setup:
  "\<exists>u. fold tunnel_step [EAcquire False, ERegister, EAssign 0, EConnect True, ESession True 0] (demo_shared, new_relay TSingle True True demo_dest 1000) =
     (u, (new_relay TSingle True True demo_dest 1000)\<lparr>y_phase := RRelay, y_sid := 1, y_conn := [ReplySuccess]\<rparr>)"
proof -
  obtain c2 where "RegisterStreamSeq 1 (newClientStreams\<lparr>streamCounter := 1\<rparr>) = Some c2" using demo_register_seq by blast
  moreover have "client (u_pool demo_shared) = newClientStreams" "u_sem demo_shared = 0" "\<not> isDNS demo_dest"
    by (simp_all add: demo_shared_def demo_tunnel_pool_def allocSlots_def isDNS_def demo_dest_def)
  ultimately show ?thesis
    by (simp add: new_relay_def relay_acquire_def AcquireConnect_def maxConcurrentConnects_def
        relay_register_def demo_next_id Let_def relay_assign_def relay_connect_def reply_def relay_session_def)
qed

lemma demo_write:
  "\<exists>u. write_run 9 n [[1], [2]] x = (True, (u, (snd x)\<lparr>y_conn := y_conn (snd x) @ [[1], [2]], y_lastDown := n\<rparr>))"
proof -
  have "(9 :: nat) = Suc (Suc 7)" by simp
  then show ?thesis by (simp only: write_run.simps) simp
qed

lemma demo_frames:
  assumes "y_phase y = RRelay" "y_migrate y" "y_down y = DownLoop" "\<not> y_confirmed y" "y_kind y = TSingle" "y_reasm y = newReassembler 1000"
  shows "y_conn (snd (fold tunnel_step [EFrame 0 connectOKMarker 1 0 0, EFrame 2 [2] 9 0 0, EFrame 1 [1] 9 0 0] (u, y))) = y_conn y @ [[1], [2]]"
proof -
  let ?y = "y\<lparr>y_confirmed := True\<rparr>"
  let ?r = "\<lparr>expectedSeq = 1, pending = [(2, [2])], bufBytes = 1, maxBytes = 1000\<rparr>"
  have c: "down_frame 0 connectOKMarker (Suc 0) 0 0 (u, y) = (u, ?y)"
    using assms by (simp add: down_frame_def on_control_def parseConnectOKProof_def connectOKMarker_def connectFailMarker_def confirm_def decr_def Let_def)
  have two: "\<exists>v. down_frame 2 [2] 9 0 0 (u, ?y) = (v, ?y\<lparr>y_reasm := ?r, y_gapArmed := hasGap ?r\<rparr>)"
    using assms(6) by (simp add: down_frame_def demo_reasm(1) Let_def)
  have one: "y_conn (snd (down_frame 1 [1] 9 0 0 (v, ?y\<lparr>y_reasm := ?r, y_gapArmed := g\<rparr>))) = y_conn y @ [[1], [2]]" for v g
  proof -
    let ?x = "(v, y\<lparr>y_confirmed := True, y_gapArmed := g, y_reasm := \<lparr>expectedSeq = 3, pending = [], bufBytes = 0, maxBytes = 1000\<rparr>\<rparr>)"
    obtain z where "write_run 9 0 [[1], [2]] ?x = (True, (z, (snd ?x)\<lparr>y_conn := y_conn (snd ?x) @ [[1], [2]], y_lastDown := 0\<rparr>))"
      using demo_write by blast
    then show ?thesis by (simp add: down_frame_def demo_reasm(2) Let_def split: prod.split)
  qed
  show ?thesis using assms(1-3) two one by (auto simp: c relaying_def)
qed



end
