(* ===== verification/Spec2Isabelle.thy ===== *)
theory Spec2Isabelle
  imports Epochs Session_Manager Server_Handshake Downlink Flow_Control Ws_Pool_Races Bypass Routing Socks_Front Ws_Writer Ws_Session_Props Rl_Signal Dns_Proxy Socks_Tunnel
begin

text \<open>
  \<^bold>\<open>ShadowLink: a verification development\<close>

  ShadowLink (Go, under \<open>src/\<close>) is a tunnel: a client and a server run a handshake inside
  ordinary HTTP traffic, keep an encrypted session, and multiplex the streams of a SOCKS5 or TUN
  front end over WebSocket slots (or, without WebSockets, over POST requests).  Streams survive the
  death of a slot, because the server keeps the egress connection and the client resumes it on
  another slot.

  \<^bold>\<open>Common ground.\<close>

  \<^item> \<open>Prelude\<close>: bytes and machine integers, big-endian fields, the three outcomes of a Go call
    (value, error, panic), slicing with its bounds checks, and the locale \<open>step_invariant\<close>: an
    invariant of one step holds in every run.  Every interleaving argument interprets it.
  \<^item> \<open>Chunk\<close> (\<open>core/chunk.go\<close>, \<open>bufpool.go\<close>, \<open>aead_context.go\<close>): the encrypted chunk, the tiered
    buffer pool.  AES-GCM is a parameter \<open>gcm\<close> whose documented laws are \<open>gcm_ok\<close>.
  \<^item> \<open>Frames\<close> (\<open>chunk.go\<close>, \<open>flowctl.go\<close>): all constructors, builders and parsers of control and data
    frames; the locale \<open>frame_codec\<close> is the contract of a frame format, interpreted for each.
  \<^item> \<open>Net_Addr\<close>: the parts of Go's \<open>net\<close> package the code relies on (addresses, CIDR, host and port).

  \<^bold>\<open>Sessions and keys.\<close>

  \<^item> \<open>Replay_Window\<close> (\<open>Session.AcceptSeqNum\<close>, \<open>shiftBitmap\<close>): the 16384-entry window over 32-bit
    numbers, refined from a set of recently accepted numbers; the locale \<open>replay_guard\<close>.
  \<^item> \<open>Session\<close> (\<open>core/session.go\<close>): keys, rekeying with its grace period, destruction, encryption
    and decryption.  \<open>Epochs\<close>: the lock-free encryption path as a step relation over threads; no
    nonce is used twice.
  \<^item> \<open>Session_Manager\<close>: the session table, its three sweeps; the locale \<open>evict_step\<close>.
  \<^item> \<open>Replay_Cache\<close> (\<open>core/replay_cache.go\<close>): list and index, refined from an association list.
  \<^item> \<open>Handshake\<close> (\<open>core/crypto.go\<close>, \<open>handshake.go\<close>, \<open>migrate.go\<close>): both sides of the handshake, the key
    schedule, the stream proofs.  X25519, HKDF, HMAC and secretbox are fields of the parameter
    \<open>crypto\<close>, with the laws \<open>dh_ok\<close>, \<open>hkdf_ok\<close> and \<open>box_ok\<close>.
  \<^item> \<open>Rate_Limit\<close>, \<open>Client_Auth\<close> (\<open>server/ratelimit.go\<close>, \<open>clientid_exempt.go\<close>): request limiter, forwarded
    addresses, authorisation and device quota.

  \<^bold>\<open>Server.\<close>

  \<^item> \<open>Rl_Signal\<close> (\<open>server/sentinel_emitter.go\<close>, \<open>decoy_snapshots.go\<close>, \<open>decoy_timing.go\<close>,
    \<open>client/ratelimit_*.go\<close>, \<open>core/rlpropertyid.go\<close>): what the server sends a rate-limited client in the header and
    in the decoy page, the client's parsers, and the marker per host.  Both formats parse back to the signal.
  \<^item> \<open>Server_Handshake\<close> (\<open>server/handler.go\<close>): the handshake handler over all of the above; a
    rejected handshake leaves no state behind.
  \<^item> \<open>Server_Tunnel\<close>, \<open>Server_Tunnel_Props\<close>, \<open>Server_Tunnel_Life\<close> (\<open>server/handler.go\<close>): the POST data
    path.  CONNECT, uplink, batched downlink, UDP, FIN, the cleanup tick; tunnels, streams and
    target connections are heap objects, and the invariant \<open>run_ok\<close> of all interleavings gives the
    isolation of streams.  \<open>Data_Path\<close>: the lookup of a session by its token and the dispatch of a
    request, with what a request must know to have an effect.
  \<^item> \<open>Udp_Relay\<close> (\<open>server/udp_relay.go\<close>), \<open>Safe_Dial\<close> (\<open>server/safedial.go\<close>): UDP flows; no dial to a
    private address.
  \<^item> \<open>Ws_Attach\<close> (\<open>server/websocket.go\<close>): authentication of the first frame and the attach latch,
    interleaved with the ghost sweep.
  \<^item> \<open>Stream_Credit\<close>, \<open>Relay\<close> (\<open>server/stream_credit.go\<close>, \<open>relay_registry.go\<close>): send
    credit, the registry of migratable relays, MIGRATE and RESUME, orphaning and its limits.
  \<^item> \<open>Ws_Stream\<close>: the uplink of one stream with its optimistic CONNECT.  \<open>Ws_Session\<close>,
    \<open>Ws_Session_Props\<close>: \<open>runWebSocketSession\<close> for any number of slots over one registry, composed of
    \<open>Ws_Stream\<close>, \<open>Relay\<close>, \<open>Stream_Credit\<close> and \<open>Udp_Relay\<close>; the invariant \<open>world_ok\<close> gives the isolation of
    egress connections across slots and migrations.
  \<^item> \<open>Ws_Writer\<close> (\<open>core/wsasyncwriter.go\<close>): the asynchronous writer both ends use.

  \<^bold>\<open>Client.\<close>

  \<^item> \<open>Reassembler\<close> (\<open>proxy/socks5/reassembler.go\<close>): in-order delivery.  \<open>Downlink\<close>: relay and
    reassembler joined; what a RESUME recovers and what it cannot.
  \<^item> \<open>Client_Streams\<close>, \<open>Flow_Control\<close> (\<open>client/client.go\<close>, \<open>stream_flow.go\<close>): stream numbers, the stream
    table, consumed-byte credit, and its composition with the server's credit: the flow control
    of a stream never stops for good.
  \<^item> \<open>Ws_Pool\<close>, \<open>Ws_Pool_Life\<close>, \<open>Ws_Pool_Inv\<close>, \<open>Ws_Pool_Props\<close>, \<open>Ws_Pool_Death\<close>, \<open>Ws_Pool_Races\<close>
    (\<open>client/ws_pool.go\<close>, \<open>ws_pool_drain.go\<close>, \<open>stream_entry.go\<close>): the pool of slots, assignment of
    streams, draining, slot death and resumption; counters agree with the stream map in every
    reachable state.
  \<^item> \<open>Dns_Cache\<close>, \<open>Dns_Proxy\<close> (\<open>client/dnsproxy/\<close>): the response cache with its bound and lifetimes; the choice between
    the answers of Yandex and Cloudflare, the fallbacks, and queries that run concurrently.  The functions of the DNS
    library are fields of the parameter \<open>dnsLib\<close> with the law \<open>dns_lib_ok\<close>.  Only addresses that the policy
    trusts reach a client.
  \<^item> \<open>Bypass\<close> (\<open>client/bypassroute\<close>), \<open>Routing\<close> (\<open>client/routing.go\<close>): which destinations bypass the
    tunnel.  \<open>Socks_Front\<close> (\<open>proxy/socks5\<close>): the SOCKS5 negotiation and its addresses.
    \<open>Socks_Tunnel\<close> (\<open>proxy/socks5/tcp.go\<close>): the relay of a proxied connection, from the permit for its
    CONNECT to the two goroutines that copy bytes, for any number of relays that interleave; the
    application reads the reply and then a gapless prefix of the server's frames, and permits
    balance, while the count of pending CONNECTs of a slot drifts.
  \<^bold>\<open>How the concurrent parts are modelled.\<close>  A critical section, an atomic operation, or a send or
  receive on a channel is one definition; a run is any sequence of such steps, and a step of a
  goroutine that is not at that point or is blocked changes nothing.  What the program gets from outside
  (time, random bytes, outcomes of reads, writes and dials, the iteration order of Go maps) is an argument.

  \<^bold>\<open>Bounds and fuel.\<close>  The IPv6 parser runs with fuel 9, one more than the groups an
  address can have; the search for a free stream number makes at most 65535 rounds, as the code
  does; the deadline loop of a drain has a measure; the writer's loop ends within \<open>2 n + 4\<close> rounds for
  \<open>n\<close> queued frames.  No other definition uses fuel.

  \<^bold>\<open>Not modelled.\<close>  Statistics, metrics and logging (\<open>client/stats.go\<close>, \<open>server/metrics*.go\<close>) only
  observe.  The HTTP transports, uTLS fingerprints, decoy pages, padding and timing mimicry are
  about the shape of traffic, which the model does not have.  \<open>cmd/\<close>, the engine's process management, the
  TUN device, the mobile bindings and the operating-system routing commands are glue around system
  calls.
\<close>

end
